(* ===== verification/Prelude.thy ===== *)
theory Prelude
  imports Main "HOL-Library.Word"
begin

text \<open>
  Shared vocabulary of the development.

  \<^item> \<open>ub\<close> names the ways in which the C++ code can leave the language's defined behaviour
    or stop the process; a function that may do so returns a value of \<open>'a res\<close>.
  \<^item> \<open>find_index\<close> is the shape of every "first slot such that" loop of the code.
  \<^item> \<open>fields\<close> of keys: the indexes take bit fields of 64-bit keys from the most significant
    end; the lemmas here turn the shift-and-mask expressions into \<open>div\<close> and \<open>mod\<close>
    and say that the fields of a key determine it.
\<close>

unbundle bit_operations_syntax

subsection \<open>Undefined behaviour and process exit as values\<close>

datatype ub =
    NullDeref        \<comment> \<open>a null or dangling pointer is dereferenced\<close>
  | OutOfBounds      \<comment> \<open>an array is read or written past its end\<close>
  | UninitRead       \<comment> \<open>an uninitialised local variable is read\<close>
  | BadShift         \<comment> \<open>a shift by a negative amount or by at least the width\<close>
  | WildAccess       \<comment> \<open>memory is accessed through a pointer to something else\<close>
  | Exited           \<comment> \<open>the code calls exit or abort, or an assertion fails\<close>
  | NoReturn         \<comment> \<open>control flows off the end of a function, or loops for ever\<close>
  | OutOfFuel        \<comment> \<open>the model's bound on recursion is exhausted\<close>

type_synonym 'a res = "ub + 'a"

type_synonym u8 = "8 word"
type_synonym u16 = "16 word"
type_synonym u32 = "32 word"
type_synonym u64 = "64 word"

text \<open>Lookups report a missing key as the null pointer, that is, as the integer 0.\<close>

definition or_null :: "u64 option \<Rightarrow> u64" where
  "or_null r = (case r of None \<Rightarrow> 0 | Some v \<Rightarrow> v)"

lemma or_null_simps [simp]: "or_null None = 0" "or_null (Some v) = v"
  by (simp_all add: or_null_def)

text \<open>A loop that may fail in its body, appending results.\<close>

fun collect :: "('a \<Rightarrow> 'b list res) \<Rightarrow> 'a list \<Rightarrow> 'b list res" where
  "collect f [] = Inr []"
| "collect f (x # xs) =
     (case f x of Inl e \<Rightarrow> Inl e
      | Inr ys \<Rightarrow> (case collect f xs of Inl e \<Rightarrow> Inl e | Inr zs \<Rightarrow> Inr (ys @ zs)))"

lemma collect_map: "(\<And>x. x \<in> set xs \<Longrightarrow> f x = Inr (g x)) \<Longrightarrow> collect f xs = Inr (concat (map g xs))"
  by (induction xs) auto

text \<open>Two results, one after the other.\<close>

definition append_res :: "'b list res \<Rightarrow> 'b list res \<Rightarrow> 'b list res" where
  "append_res r s = (case r of Inl e \<Rightarrow> Inl e | Inr xs \<Rightarrow> map_sum id ((@) xs) s)"

lemma append_res_Inr [simp]: "append_res (Inr xs) (Inr ys) = Inr (xs @ ys)"
  by (simp add: append_res_def)

named_theorems field_simps_rules "shift-and-mask expressions as div and mod"

subsection \<open>First index with a property\<close>

fun find_index :: "('a \<Rightarrow> bool) \<Rightarrow> 'a list \<Rightarrow> nat option" where
  "find_index p [] = None"
| "find_index p (x # xs) = (if p x then Some 0 else map_option Suc (find_index p xs))"

lemma find_index_None [simp]: "find_index p xs = None \<longleftrightarrow> (\<forall>x\<in>set xs. \<not> p x)"
  by (induction xs) auto

lemma find_index_SomeD:
  "find_index p xs = Some i \<Longrightarrow> i < length xs \<and> p (xs ! i) \<and> (\<forall>j<i. \<not> p (xs ! j))"
proof (induction xs arbitrary: i)
  case Nil
  then show ?case by simp
next
  case (Cons x xs)
  show ?case
  proof (cases "p x")
    case True
    with Cons.prems show ?thesis by auto
  next
    case False
    with Cons.prems obtain k where k: "find_index p xs = Some k" and i: "i = Suc k"
      by auto
    from Cons.IH [OF k] False i show ?thesis
      by (auto simp: less_Suc_eq_0_disj)
  qed
qed

lemma find_index_eq_Some_iff:
  "find_index p xs = Some i \<longleftrightarrow> i < length xs \<and> p (xs ! i) \<and> (\<forall>j<i. \<not> p (xs ! j))"
proof
  assume r: "i < length xs \<and> p (xs ! i) \<and> (\<forall>j<i. \<not> p (xs ! j))"
  then have "\<exists>x\<in>set xs. p x" by (meson nth_mem)
  then obtain k where k: "find_index p xs = Some k"
    by (cases "find_index p xs") auto
  from find_index_SomeD [OF k] r have "k = i"
    by (metis linorder_neqE_nat)
  with k show "find_index p xs = Some i" by simp
qed (rule find_index_SomeD)

lemma find_index_cong_set:
  "(\<And>x. x \<in> set xs \<Longrightarrow> p x = q x) \<Longrightarrow> find_index p xs = find_index q xs"
  by (induction xs) auto

subsection \<open>Lists\<close>

lemma nth_list_update_if: "j < length xs \<Longrightarrow> (xs[i := y]) ! j = (if i = j then y else xs ! j)"
  by simp

lemma sum_list_map_update:
  fixes f :: "'b \<Rightarrow> 'a :: ab_group_add"
  shows "i < length xs \<Longrightarrow> sum_list (map f (xs[i := y])) = sum_list (map f xs) - f (xs ! i) + f y"
proof (induction xs arbitrary: i)
  case (Cons x xs)
  then show ?case by (cases i) (auto simp: algebra_simps)
qed simp

lemma list_all_update: "list_all P xs \<Longrightarrow> P y \<Longrightarrow> list_all P (xs[i := y])"
  unfolding list_all_iff using set_update_subset_insert [of xs i y] by blast

subsection \<open>Bit fields of words\<close>

lemma unat_and_mask: "unat ((w :: 'a::len word) AND mask k) = unat w mod 2 ^ k"
  by (simp add: unsigned_take_bit_eq flip: take_bit_eq_mask) (simp add: take_bit_eq_mod)

lemma unat_drop_bit: "unat (drop_bit n (w :: 'a::len word)) = unat w div 2 ^ n"
  by (simp add: unat_drop_bit_eq) (simp add: drop_bit_eq_div)

lemma unat_drop_bit_mask:
  "unat (drop_bit n (w :: 'a::len word) AND mask k) = (unat w div 2 ^ n) mod 2 ^ k"
  by (simp add: unat_and_mask unat_drop_bit)

lemma unat_u64_less: "unat (w :: u64) < 2 ^ 64"
proof -
  have "unat w < 2 ^ LENGTH(64)" by (rule unsigned_less)
  then show ?thesis by simp
qed

subsection \<open>Counting loops that stop at the first hit\<close>

text \<open>\<^verbatim>\<open>for (idx = i; idx < m; idx++) if (p(idx)) return idx; return idx;\<close>\<close>

function first_from :: "(nat \<Rightarrow> bool) \<Rightarrow> nat \<Rightarrow> nat \<Rightarrow> nat" where
  "first_from p i m = (if i < m then if p i then i else first_from p (Suc i) m else i)"
  by pat_completeness auto
termination
  by (relation "measure (\<lambda>(p, i, m). m - i)") auto

declare first_from.simps [simp del]

lemma first_from_props:
  "i \<le> first_from p i m \<and> first_from p i m \<le> max i m \<and>
   (\<forall>j. i \<le> j \<longrightarrow> j < first_from p i m \<longrightarrow> \<not> p j) \<and>
   (first_from p i m < m \<longrightarrow> p (first_from p i m))"
proof (induction p i m rule: first_from.induct)
  case (1 p i m)
  show ?case
  proof (cases "i < m \<and> \<not> p i")
    case True
    then have r: "first_from p i m = first_from p (Suc i) m" by (simp add: first_from.simps [of p i m])
    with "1.IH" True show ?thesis
      by (metis Suc_leD Suc_leI le_eq_less_or_eq max.absorb2)
  next
    case False
    then show ?thesis by (auto simp: first_from.simps [of p i m])
  qed
qed

lemma first_from_unique:
  assumes "i \<le> r" "r \<le> m" "\<And>j. i \<le> j \<Longrightarrow> j < r \<Longrightarrow> \<not> p j" "r < m \<Longrightarrow> p r"
  shows "first_from p i m = r"
proof -
  note f = first_from_props [of i p m]
  have "max i m = m" using assms by simp
  show ?thesis
  proof (rule linorder_cases [of "first_from p i m" r])
    assume "first_from p i m < r"
    with f assms show ?thesis by auto
  next
    assume "r < first_from p i m"
    with f assms \<open>max i m = m\<close> show ?thesis by auto
  qed
qed

lemma first_from_le: "i \<le> m \<Longrightarrow> first_from p i m \<le> m"
  using first_from_props [of i p m] by auto

end
