(* ===== verification/Alloc.thy ===== *)
theory Alloc
  imports Prelude
begin

text \<open>
  The bump allocator of \<^verbatim>\<open>fastalloc/fastalloc.cpp\<close> that every index takes its nodes from.

  A \<open>fastalloc\<close> owns up to 100 DRAM chunks and 100 NVM chunks of \<open>ALLOC_SIZE\<close> bytes and
  carves allocations, rounded up to whole cache lines, off the current chunk.  The addresses
  of fresh chunks come from \<^verbatim>\<open>new char[]\<close> or \<^verbatim>\<open>mmap\<close>, which are not part of the
  repository: the functions \<open>new_dram\<close> and \<open>new_nvm\<close> (which also gets the flag
  \<open>onPM\<close>, the file path and the chunk's number) are parameters.  The arithmetic is that of
  64-bit words, so the wrap-around of \<open>nvm_left\<close> is in the model.
\<close>

definition ALLOC_SIZE :: u64 where
  "ALLOC_SIZE = 68719476736"

lemma unat_ALLOC_SIZE [simp]: "unat ALLOC_SIZE = 68719476736"
  by (simp add: ALLOC_SIZE_def)

record fastalloc =
  is_used :: bool
  dram :: "u64 list"
  dram_curr :: u64
  dram_left :: u64
  dram_cnt :: u64
  nvm :: "u64 list"
  nvm_curr :: u64
  nvm_left :: u64
  nvm_cnt :: u64
  onPM :: bool
  filePath :: string

text \<open>The object before \<open>init\<close>: the arrays are uninitialised, here arbitrary.\<close>

definition new_fastalloc :: "u64 list \<Rightarrow> u64 list \<Rightarrow> fastalloc" where
  "new_fastalloc junk_dram junk_nvm =
     \<lparr>is_used = False,
      dram = junk_dram, dram_curr = 0, dram_left = 0, dram_cnt = 0,
      nvm = junk_nvm, nvm_curr = 0, nvm_left = 0, nvm_cnt = 0,
      onPM = False, filePath = []\<rparr>"

definition grow_dram :: "(u64 \<Rightarrow> u64) \<Rightarrow> fastalloc \<Rightarrow> fastalloc res" where
  "grow_dram new_dram a =
     (if unat (dram_cnt a) < length (dram a)
      then (let p = new_dram (dram_cnt a) in
            Inr (a\<lparr>dram := (dram a)[unat (dram_cnt a) := p], dram_curr := p,
                   dram_left := ALLOC_SIZE, dram_cnt := dram_cnt a + 1\<rparr>))
      else Inl OutOfBounds)"

definition grow_nvm :: "(bool \<Rightarrow> string \<Rightarrow> u64 \<Rightarrow> u64) \<Rightarrow> fastalloc \<Rightarrow> fastalloc res" where
  "grow_nvm new_nvm a =
     (if unat (nvm_cnt a) < length (nvm a)
      then (let p = new_nvm (onPM a) (filePath a) (nvm_cnt a) in
            Inr (a\<lparr>nvm := (nvm a)[unat (nvm_cnt a) := p], nvm_curr := p,
                   nvm_left := ALLOC_SIZE, nvm_cnt := nvm_cnt a + 1\<rparr>))
      else Inl OutOfBounds)"

definition init :: "(u64 \<Rightarrow> u64) \<Rightarrow> (bool \<Rightarrow> string \<Rightarrow> u64 \<Rightarrow> u64) \<Rightarrow> fastalloc \<Rightarrow> fastalloc res" where
  "init new_dram new_nvm a =
     (case grow_dram new_dram a of
        Inl e \<Rightarrow> Inl e
      | Inr a1 \<Rightarrow> grow_nvm new_nvm a1)"

definition concurrency_init ::
  "(u64 \<Rightarrow> u64) \<Rightarrow> (bool \<Rightarrow> string \<Rightarrow> u64 \<Rightarrow> u64) \<Rightarrow> bool \<Rightarrow> string \<Rightarrow> fastalloc \<Rightarrow> fastalloc res" where
  "concurrency_init new_dram new_nvm b path a =
     (case grow_dram new_dram (a\<lparr>onPM := b, filePath := path\<rparr>) of
        Inl e \<Rightarrow> Inl e
      | Inr a1 \<Rightarrow> grow_nvm new_nvm a1)"

definition round_size :: "u64 \<Rightarrow> u64" where
  "round_size sz = sz div 64 * 64 + (if sz mod 64 \<noteq> 0 then 1 else 0) * 64"

definition take_nvm :: "u64 \<Rightarrow> fastalloc \<Rightarrow> u64 \<times> fastalloc" where
  "take_nvm sz a =
     (nvm_curr a, a\<lparr>nvm_left := nvm_left a - sz, nvm_curr := nvm_curr a + sz\<rparr>)"

definition take_dram :: "u64 \<Rightarrow> fastalloc \<Rightarrow> u64 \<times> fastalloc" where
  "take_dram sz a =
     (dram_curr a, a\<lparr>dram_left := dram_left a - sz, dram_curr := dram_curr a + sz\<rparr>)"

definition alloc ::
  "(u64 \<Rightarrow> u64) \<Rightarrow> (bool \<Rightarrow> string \<Rightarrow> u64 \<Rightarrow> u64) \<Rightarrow> u64 \<Rightarrow> bool \<Rightarrow> fastalloc
   \<Rightarrow> (u64 \<times> fastalloc) res" where
  "alloc new_dram new_nvm size0 on_nvm a =
     (let sz = round_size size0 in
      if on_nvm then
        if sz > nvm_left a
        then (case grow_nvm new_nvm a of Inl e \<Rightarrow> Inl e | Inr a' \<Rightarrow> Inr (take_nvm sz a'))
        else Inr (take_nvm sz a)
      else
        if sz > dram_left a
        then (case grow_dram new_dram a of Inl e \<Rightarrow> Inl e | Inr a' \<Rightarrow> Inr (take_dram sz a'))
        else Inr (take_dram sz a))"

text \<open>
  \<open>free\<close> deletes the DRAM chunks, in order, and returns the addresses deleted; the NVM
  chunks and both counters are left as they are.
\<close>

definition free :: "fastalloc \<Rightarrow> u64 list \<times> fastalloc" where
  "free a = (take (unat (dram_cnt a)) (dram a), a\<lparr>dram_left := 0, dram_curr := 0\<rparr>)"

subsection \<open>The global allocators\<close>

text \<open>\<open>fast_free\<close> deletes the allocator objects and leaves the global pointers dangling.\<close>

datatype alloc_ptr = Null | Live fastalloc | Dangling

record allocators =
  myallocator :: alloc_ptr
  concurrency_myallocator :: alloc_ptr

definition init_fast_allocator ::
  "(u64 \<Rightarrow> u64) \<Rightarrow> (bool \<Rightarrow> string \<Rightarrow> u64 \<Rightarrow> u64) \<Rightarrow> fastalloc \<Rightarrow> bool \<Rightarrow> bool \<Rightarrow> string
   \<Rightarrow> allocators \<Rightarrow> allocators res" where
  "init_fast_allocator new_dram new_nvm fresh isMultiThread b path g =
     (if isMultiThread
      then map_sum id (\<lambda>a. g\<lparr>concurrency_myallocator := Live a\<rparr>)
             (concurrency_init new_dram new_nvm b path fresh)
      else map_sum id (\<lambda>a. g\<lparr>myallocator := Live a\<rparr>) (init new_dram new_nvm fresh))"

definition fast_alloc ::
  "(u64 \<Rightarrow> u64) \<Rightarrow> (bool \<Rightarrow> string \<Rightarrow> u64 \<Rightarrow> u64) \<Rightarrow> u64 \<Rightarrow> bool \<Rightarrow> allocators
   \<Rightarrow> (u64 \<times> allocators) res" where
  "fast_alloc new_dram new_nvm sz on_nvm g =
     (case myallocator g of
        Live a \<Rightarrow> map_sum id (\<lambda>(p, a'). (p, g\<lparr>myallocator := Live a'\<rparr>))
                   (alloc new_dram new_nvm sz on_nvm a)
      | _ \<Rightarrow> Inl NullDeref)"

definition concurrency_fast_alloc ::
  "(u64 \<Rightarrow> u64) \<Rightarrow> (bool \<Rightarrow> string \<Rightarrow> u64 \<Rightarrow> u64) \<Rightarrow> u64 \<Rightarrow> bool \<Rightarrow> allocators
   \<Rightarrow> (u64 \<times> allocators) res" where
  "concurrency_fast_alloc new_dram new_nvm sz on_nvm g =
     (case concurrency_myallocator g of
        Live a \<Rightarrow> map_sum id (\<lambda>(p, a'). (p, g\<lparr>concurrency_myallocator := Live a'\<rparr>))
                   (alloc new_dram new_nvm sz on_nvm a)
      | _ \<Rightarrow> Inl NullDeref)"

definition delete_alloc :: "alloc_ptr \<Rightarrow> (u64 list \<times> alloc_ptr) res" where
  "delete_alloc q =
     (case q of
        Null \<Rightarrow> Inr ([], Null)
      | Live a \<Rightarrow> Inr (fst (free a), Dangling)
      | Dangling \<Rightarrow> Inl NullDeref)"

definition fast_free :: "allocators \<Rightarrow> (u64 list \<times> allocators) res" where
  "fast_free g =
     (case delete_alloc (myallocator g) of
        Inl e \<Rightarrow> Inl e
      | Inr (ds, q) \<Rightarrow>
          (case delete_alloc (concurrency_myallocator g) of
             Inl e \<Rightarrow> Inl e
           | Inr (ds', q') \<Rightarrow>
               Inr (ds @ ds', g\<lparr>myallocator := q, concurrency_myallocator := q'\<rparr>)))"

subsection \<open>Runs of allocations\<close>

text \<open>Requests of both kinds, as (size, \<open>_on_nvm\<close>), with the regions they return.\<close>

fun alloc_many ::
  "(u64 \<Rightarrow> u64) \<Rightarrow> (bool \<Rightarrow> string \<Rightarrow> u64 \<Rightarrow> u64) \<Rightarrow> (u64 \<times> bool) list \<Rightarrow> fastalloc
   \<Rightarrow> ((u64 \<times> u64) list \<times> fastalloc) res" where
  "alloc_many new_dram new_nvm [] a = Inr ([], a)"
| "alloc_many new_dram new_nvm ((sz, on) # reqs) a =
     (case alloc new_dram new_nvm sz on a of
        Inl e \<Rightarrow> Inl e
      | Inr (p, a') \<Rightarrow>
          (case alloc_many new_dram new_nvm reqs a' of
             Inl e \<Rightarrow> Inl e
           | Inr (rs, a'') \<Rightarrow> Inr ((p, round_size sz) # rs, a'')))"

definition region :: "u64 \<times> u64 \<Rightarrow> nat set" where
  "region r = {unat (fst r) ..< unat (fst r) + unat (snd r)}"

definition chunk :: "(u64 \<Rightarrow> u64) \<Rightarrow> nat \<Rightarrow> nat set" where
  "chunk f i = {unat (f (of_nat i)) ..< unat (f (of_nat i)) + 68719476736}"

text \<open>What the operating system promises: chunks do not wrap around and do not overlap.\<close>

definition chunks_ok :: "(u64 \<Rightarrow> u64) \<Rightarrow> bool" where
  "chunks_ok f \<longleftrightarrow>
     (\<forall>i<100. unat (f (of_nat i)) + 68719476736 < 2 ^ 64) \<and>
     (\<forall>i<100. \<forall>j<100. i \<noteq> j \<longrightarrow> chunk f i \<inter> chunk f j = {})"

definition nvm_source :: "(bool \<Rightarrow> string \<Rightarrow> u64 \<Rightarrow> u64) \<Rightarrow> fastalloc \<Rightarrow> u64 \<Rightarrow> u64" where
  "nvm_source new_nvm a = new_nvm (onPM a) (filePath a)"

definition alloc_inv :: "(u64 \<Rightarrow> u64) \<Rightarrow> fastalloc \<Rightarrow> bool" where
  "alloc_inv f a \<longleftrightarrow>
     length (nvm a) = 100 \<and> 0 < unat (nvm_cnt a) \<and> unat (nvm_cnt a) \<le> 100 \<and>
     unat (f (nvm_cnt a - 1)) \<le> unat (nvm_curr a) \<and>
     unat (nvm_curr a) + unat (nvm_left a) = unat (f (nvm_cnt a - 1)) + 68719476736"

text \<open>The addresses an allocator can still hand out.\<close>

definition free_space :: "(u64 \<Rightarrow> u64) \<Rightarrow> fastalloc \<Rightarrow> nat set" where
  "free_space f a =
     {unat (nvm_curr a) ..< unat (nvm_curr a) + unat (nvm_left a)} \<union>
     (\<Union>j \<in> {unat (nvm_cnt a) ..< 100}. chunk f j)"

lemma up64_le: "(n::nat) \<le> (n + 63) div 64 * 64" by simp
lemma up64_bound: "(n + 63) div 64 * 64 \<le> 68719476736" if "n \<le> 68719476736" for n :: nat
proof -
  from that have "n + 63 < 64 * Suc 1073741824" by simp
  then have "(n + 63) div 64 < Suc 1073741824" by (simp add: less_mult_imp_div_less)
  then show ?thesis by simp
qed
lemma up64_eq: "(n + 63) div 64 = n div 64 + (if n mod 64 = 0 then 0 else 1)" for n :: nat
proof -
  define q r where "q = n div 64" and "r = n mod 64"
  have n: "n = 64 * q + r" and r: "r < 64" by (simp_all add: q_def r_def)
  show ?thesis
  proof (cases r)
    case 0
    then show ?thesis by (simp add: n)
  next
    case (Suc r')
    then have "n + 63 = r' + 64 * Suc q" by (simp add: n)
    then have "(n + 63) div 64 = Suc q" using Suc r by simp
    with Suc show ?thesis by (simp add: q_def [symmetric] r_def [symmetric])
  qed
qed

lemma round_size_eq: "unat sz \<le> 68719476736 \<Longrightarrow> unat (round_size sz) = (unat sz + 63) div 64 * 64"
proof -
  assume b: "unat sz \<le> 68719476736"
  have d: "unat (sz div 64 * 64) = unat sz div 64 * 64"
    using b by (simp add: unat_word_ariths unat_div)
  have m: "sz mod 64 = 0 \<longleftrightarrow> unat sz mod 64 = 0"
  proof -
    have "unat (sz mod 64) = unat sz mod 64" by (simp add: unat_mod)
    then show ?thesis by (metis unat_eq_zero)
  qed
  have "unat sz div 64 * 64 + 64 < 2 ^ 64" using b by simp
  with d m show ?thesis by (simp add: round_size_def unat_word_ariths up64_eq)
qed

lemma round_size_bounds:
  assumes "unat sz \<le> 68719476736"
  shows "unat sz \<le> unat (round_size sz)" "unat (round_size sz) \<le> 68719476736"
    "64 dvd unat (round_size sz)"
  by (simp_all only: round_size_eq [OF assms] up64_le up64_bound [OF assms] dvd_triv_right)

text \<open>Carving a region off a chunk that is large enough.\<close>

lemma take_nvm_free_space:
  assumes inv: "alloc_inv f a" and ok: "chunks_ok f" and le: "unat sz \<le> unat (nvm_left a)"
    and t: "take_nvm sz a = (p, a')"
  shows "alloc_inv f a'" "region (p, sz) \<subseteq> free_space f a"
    "free_space f a' \<subseteq> free_space f a - region (p, sz)"
proof -
  let ?k = "nvm_cnt a - 1" and ?n = "unat (nvm_cnt a) - 1"
  have n: "?n < 100" and k: "of_nat ?n = ?k"
    using inv by (auto simp: alloc_inv_def of_nat_diff)
  have lim: "unat (f ?k) + 68719476736 < 2 ^ 64"
    using ok n k unfolding chunks_ok_def by metis
  have a': "nvm_curr a' = nvm_curr a + sz" "nvm_left a' = nvm_left a - sz"
    "nvm a' = nvm a" "nvm_cnt a' = nvm_cnt a" and p: "p = nvm_curr a"
    using t by (auto simp: take_nvm_def)
  have lf: "unat (nvm_left a - sz) = unat (nvm_left a) - unat sz"
    using le by (simp add: unat_sub word_le_nat_alt)
  have cf: "unat (nvm_curr a + sz) = unat (nvm_curr a) + unat sz"
    using inv lim le unfolding alloc_inv_def by (simp add: unat_word_ariths)
  show "alloc_inv f a'"
    using inv le unfolding alloc_inv_def a' lf cf by auto
  show "region (p, sz) \<subseteq> free_space f a"
    using le unfolding region_def free_space_def p by auto
  have ch: "chunk f ?n = {unat (f ?k) ..< unat (f ?k) + 68719476736}"
    unfolding chunk_def k by simp
  have dis: "\<And>j. j < 100 \<Longrightarrow> ?n < j \<Longrightarrow> chunk f ?n \<inter> chunk f j = {}"
    using ok n unfolding chunks_ok_def by auto
  have sub: "region (p, sz) \<subseteq> chunk f ?n"
    using inv le unfolding ch region_def p alloc_inv_def by auto
  have "region (p, sz) \<inter> (\<Union>j \<in> {unat (nvm_cnt a) ..< 100}. chunk f j) = {}"
  proof (rule equals0I)
    fix x assume "x \<in> region (p, sz) \<inter> (\<Union>j \<in> {unat (nvm_cnt a) ..< 100}. chunk f j)"
    then obtain j where j: "x \<in> region (p, sz)" "unat (nvm_cnt a) \<le> j" "j < 100" "x \<in> chunk f j"
      by auto
    from inv j(2) have "?n < j" unfolding alloc_inv_def by linarith
    from dis [OF j(3) this] sub j(1,4) show False by blast
  qed
  then show "free_space f a' \<subseteq> free_space f a - region (p, sz)"
    using le unfolding free_space_def a' lf cf region_def p by auto
qed

text \<open>Taking a fresh chunk makes its addresses, and nothing else, current.\<close>

lemma grow_nvm_free_space:
  assumes inv: "alloc_inv f a" and f: "f = nvm_source new_nvm a"
    and g: "grow_nvm new_nvm a = Inr a'"
  shows "alloc_inv f a'" "free_space f a' \<subseteq> free_space f a" "nvm_left a' = ALLOC_SIZE"
    "nvm_source new_nvm a' = f"
proof -
  let ?n = "unat (nvm_cnt a)"
  have n: "?n < 100" using g inv by (auto simp: grow_nvm_def alloc_inv_def split: if_splits)
  have a': "nvm_curr a' = f (nvm_cnt a)" "nvm_left a' = ALLOC_SIZE" "nvm_cnt a' = nvm_cnt a + 1"
    "length (nvm a') = length (nvm a)" "onPM a' = onPM a" "filePath a' = filePath a"
    using g by (auto simp: grow_nvm_def Let_def f nvm_source_def split: if_splits)
  have c: "unat (nvm_cnt a + 1) = Suc ?n" using n by (simp add: unat_word_ariths)
  show "nvm_left a' = ALLOC_SIZE" by fact
  show "nvm_source new_nvm a' = f" by (simp add: f nvm_source_def a')
  show "alloc_inv f a'" using inv n by (simp add: alloc_inv_def a' c)
  have "chunk f ?n = {unat (f (nvm_cnt a)) ..< unat (f (nvm_cnt a)) + 68719476736}"
    by (simp add: chunk_def)
  then show "free_space f a' \<subseteq> free_space f a"
    using n by (auto simp: free_space_def a' c)
qed

lemma alloc_free_space:
  assumes inv: "alloc_inv f a" and f: "f = nvm_source new_nvm a" and ok: "chunks_ok f"
    and sz: "unat sz \<le> 68719476736"
    and al: "alloc new_dram new_nvm sz True a = Inr (p, a')"
  shows "alloc_inv f a' \<and> nvm_source new_nvm a' = f \<and> region (p, round_size sz) \<subseteq> free_space f a \<and>
    free_space f a' \<subseteq> free_space f a - region (p, round_size sz)"
proof (cases "round_size sz > nvm_left a")
  case True
  then obtain a1 where g: "grow_nvm new_nvm a = Inr a1" and t: "take_nvm (round_size sz) a1 = (p, a')"
    using al by (auto simp: alloc_def Let_def split: sum.splits)
  note g1 = grow_nvm_free_space [OF inv f g]
  have "unat (round_size sz) \<le> unat (nvm_left a1)"
    using round_size_bounds(2) [OF sz] by (simp add: g1)
  note t1 = take_nvm_free_space [OF g1(1) ok this t]
  have "nvm_source new_nvm a' = f" using t g1(4) by (auto simp: take_nvm_def nvm_source_def)
  with t1 g1 show ?thesis by blast
next
  case False
  then have t: "take_nvm (round_size sz) a = (p, a')"
    using al by (auto simp: alloc_def Let_def)
  have "unat (round_size sz) \<le> unat (nvm_left a)"
    using False by (simp add: word_le_nat_alt not_less)
  note t1 = take_nvm_free_space [OF inv ok this t]
  have "nvm_source new_nvm a' = f" using t f by (auto simp: take_nvm_def nvm_source_def)
  with t1 show ?thesis by blast
qed

text \<open>A DRAM request leaves the NVM side as it is.\<close>

lemma alloc_dram_frame:
  assumes al: "alloc new_dram new_nvm sz False a = Inr (p, a')"
  shows "alloc_inv f a' = alloc_inv f a" "free_space f a' = free_space f a"
    "nvm_source new_nvm a' = nvm_source new_nvm a"
proof -
  have "nvm a' = nvm a" "nvm_curr a' = nvm_curr a" "nvm_left a' = nvm_left a" "nvm_cnt a' = nvm_cnt a"
    "onPM a' = onPM a" "filePath a' = filePath a"
    using al by (auto simp: alloc_def Let_def grow_dram_def take_dram_def split: if_splits sum.splits)
  then show "alloc_inv f a' = alloc_inv f a" "free_space f a' = free_space f a"
    "nvm_source new_nvm a' = nvm_source new_nvm a"
    by (simp_all add: alloc_inv_def free_space_def nvm_source_def)
qed

definition regions_ok :: "nat set \<Rightarrow> (u64 \<times> bool) list \<Rightarrow> (u64 \<times> u64) list \<Rightarrow> bool" where
  "regions_ok S reqs rs \<longleftrightarrow>
     length rs = length reqs \<and>
     (\<forall>i<length rs. snd (reqs ! i) \<longrightarrow> unat (fst (reqs ! i)) \<le> unat (snd (rs ! i)) \<and> region (rs ! i) \<subseteq> S) \<and>
     (\<forall>i<length rs. \<forall>j<i. snd (reqs ! i) \<and> snd (reqs ! j) \<longrightarrow> region (rs ! i) \<inter> region (rs ! j) = {})"

lemma regions_ok_Cons:
  assumes "regions_ok S' reqs rs" and "S' \<subseteq> S"
    and "on \<Longrightarrow> unat sz \<le> unat (snd r) \<and> region r \<subseteq> S \<and> S' \<subseteq> S - region r"
  shows "regions_ok S ((sz, on) # reqs) (r # rs)"
proof -
  have "region (rs ! i) \<inter> region r = {}" if "on" "i < length rs" "snd (reqs ! i)" for i
    using assms that unfolding regions_ok_def by blast
  moreover have "region (rs ! i) \<subseteq> S" if "i < length rs" "snd (reqs ! i)" for i
    using assms that unfolding regions_ok_def by blast
  ultimately show ?thesis using assms
    by (auto simp: regions_ok_def nth_Cons less_Suc_eq_0_disj split: nat.split)
qed

lemma alloc_many_regions:
  assumes "alloc_inv f a" and "f = nvm_source new_nvm a" and "chunks_ok f"
    and "\<forall>(sz, on)\<in>set reqs. on \<longrightarrow> unat sz \<le> 68719476736"
    and "alloc_many new_dram new_nvm reqs a = Inr (rs, a')"
  shows "regions_ok (free_space f a) reqs rs"
  using assms
proof (induction reqs arbitrary: a rs)
  case Nil
  then show ?case by (simp add: regions_ok_def)
next
  case (Cons req reqs)
  obtain sz on where req: "req = (sz, on)" by force
  from Cons.prems(5) obtain p a1 rs1 where al: "alloc new_dram new_nvm sz on a = Inr (p, a1)"
    and m: "alloc_many new_dram new_nvm reqs a1 = Inr (rs1, a')" and rs: "rs = (p, round_size sz) # rs1"
    by (auto simp: req split: sum.splits)
  have step: "alloc_inv f a1 \<and> nvm_source new_nvm a1 = f \<and> free_space f a1 \<subseteq> free_space f a \<and>
    (on \<longrightarrow> unat sz \<le> unat (round_size sz) \<and> region (p, round_size sz) \<subseteq> free_space f a \<and>
      free_space f a1 \<subseteq> free_space f a - region (p, round_size sz))"
  proof (cases on)
    case True
    then have "unat sz \<le> 68719476736" using Cons.prems(4) by (simp add: req)
    with alloc_free_space [OF Cons.prems(1-3) this, of new_dram p a1] al round_size_bounds(1) [OF this] True
    show ?thesis by auto
  next
    case False
    with al have "alloc new_dram new_nvm sz False a = Inr (p, a1)" by simp
    from alloc_dram_frame [OF this] Cons.prems(1,2) False show ?thesis by simp
  qed
  have "regions_ok (free_space f a1) reqs rs1"
    by (rule Cons.IH) (use step Cons.prems m in auto)
  then show ?case unfolding rs req by (rule regions_ok_Cons) (use step in auto)
qed

text \<open>A run stops early only when one of the two arrays of 100 chunks is used up.\<close>

lemma alloc_counts:
  "case alloc new_dram new_nvm sz on a of
     Inl e \<Rightarrow> e = OutOfBounds \<and> (if on then length (nvm a) \<le> unat (nvm_cnt a) else length (dram a) \<le> unat (dram_cnt a))
   | Inr (p, a') \<Rightarrow> length (nvm a') = length (nvm a) \<and> length (dram a') = length (dram a) \<and>
       unat (nvm_cnt a') \<le> unat (nvm_cnt a) + (if on then 1 else 0) \<and>
       unat (dram_cnt a') \<le> unat (dram_cnt a) + (if on then 0 else 1)"
proof -
  have "unat (c + 1) \<le> unat c + 1" for c :: u64 by (simp add: unat_word_ariths)
  then show ?thesis
    by (auto simp: alloc_def Let_def grow_nvm_def grow_dram_def take_nvm_def take_dram_def)
qed

lemma alloc_many_stops:
  "alloc_many new_dram new_nvm reqs a = Inl e \<Longrightarrow>
   e = OutOfBounds \<and>
   (length (nvm a) < unat (nvm_cnt a) + length (filter snd reqs) \<or>
    length (dram a) < unat (dram_cnt a) + length (filter (\<lambda>r. \<not> snd r) reqs))"
proof (induction reqs arbitrary: a)
  case (Cons req reqs)
  obtain sz on where req: "req = (sz, on)" by force
  show ?case
  proof (cases "alloc new_dram new_nvm sz on a")
    case (Inl e')
    with Cons.prems alloc_counts [where new_dram = new_dram and new_nvm = new_nvm and sz = sz and on = on and a = a] show ?thesis by (auto simp: req split: if_splits)
  next
    case (Inr x)
    obtain p a1 where x: "x = (p, a1)" by force
    from Cons.prems have "alloc_many new_dram new_nvm reqs a1 = Inl e" by (auto simp: req Inr x split: sum.splits)
    from Cons.IH [OF this] alloc_counts [where new_dram = new_dram and new_nvm = new_nvm and sz = sz and on = on and a = a] show ?thesis by (auto simp: req Inr x split: if_splits)
  qed
qed simp

text \<open>
  C13.  Safety of the allocator: in any run of requests for DRAM and NVM, the NVM ones of at most
  \<open>ALLOC_SIZE\<close> bytes each, the NVM regions handed out lie in chunks the system provided and not yet
  used, are pairwise disjoint, and are at least as long as requested.  A run fails only by a store
  beyond one of the two arrays of 100 chunks, and only after more requests of that kind than the
  array has entries left.
\<close>

theorem alloc_regions_disjoint:
  assumes "alloc_inv (nvm_source new_nvm a) a" and "length (dram a) = 100" and "chunks_ok (nvm_source new_nvm a)"
    and "\<forall>(sz, on)\<in>set reqs. on \<longrightarrow> unat sz \<le> 68719476736"
  shows "case alloc_many new_dram new_nvm reqs a of
      Inr (rs, a') \<Rightarrow>
        length rs = length reqs \<and>
        (\<forall>i<length rs. snd (reqs ! i) \<longrightarrow> unat (fst (reqs ! i)) \<le> unat (snd (rs ! i)) \<and>
           region (rs ! i) \<subseteq> free_space (nvm_source new_nvm a) a) \<and>
        (\<forall>i<length rs. \<forall>j<i. snd (reqs ! i) \<and> snd (reqs ! j) \<longrightarrow> region (rs ! i) \<inter> region (rs ! j) = {})
    | Inl e \<Rightarrow> e = OutOfBounds \<and>
        (100 < unat (nvm_cnt a) + length (filter snd reqs) \<or>
         100 < unat (dram_cnt a) + length (filter (\<lambda>r. \<not> snd r) reqs))"
proof (cases "alloc_many new_dram new_nvm reqs a")
  case (Inl e)
  have "length (nvm a) = 100" using assms(1) by (simp add: alloc_inv_def)
  with alloc_many_stops [OF Inl] assms(2) Inl show ?thesis by simp
next
  case (Inr x)
  obtain rs a' where x: "x = (rs, a')" by force
  from alloc_many_regions [OF assms(1) refl assms(3,4) Inr [unfolded x]] show ?thesis
    by (simp add: Inr x regions_ok_def)
qed

definition demo_chunks :: "bool \<Rightarrow> string \<Rightarrow> u64 \<Rightarrow> u64" where
  "demo_chunks b path n = (n + 1) * 68719476736"

lemma unat_demo_chunk: "i < 100 \<Longrightarrow> unat (demo_chunks b path (of_nat i)) = (i + 1) * 68719476736"
  by (simp add: demo_chunks_def unat_word_ariths unat_of_nat)

lemma demo_chunks_ok: "chunks_ok (demo_chunks b path)"
proof -
  have "chunk (demo_chunks b path) i \<inter> chunk (demo_chunks b path) j = {}"
    if "i < j" "j < 100" for i j
  proof -
    have "(i + 1) * 68719476736 + 68719476736 \<le> (j + 1) * (68719476736 :: nat)"
      using that by simp
    then show ?thesis using that by (auto simp: chunk_def unat_demo_chunk)
  qed
  then have "\<forall>i<100. \<forall>j<100. i \<noteq> j \<longrightarrow> chunk (demo_chunks b path) i \<inter> chunk (demo_chunks b path) j = {}"
    by (metis Int_commute linorder_neqE_nat)
  then show ?thesis by (auto simp: chunks_ok_def unat_demo_chunk)
qed

definition demo_alloc :: fastalloc where
  "demo_alloc = (case init (\<lambda>n. 0) demo_chunks (new_fastalloc (replicate 100 0) (replicate 100 0)) of
     Inl e \<Rightarrow> new_fastalloc [] [] | Inr a \<Rightarrow> a)"

lemmas alloc_eval = demo_alloc_def init_def grow_dram_def grow_nvm_def new_fastalloc_def Let_def
  demo_chunks_def ALLOC_SIZE_def take_nvm_def alloc_def round_size_def

lemma demo_alloc_inv: "alloc_inv (nvm_source demo_chunks demo_alloc) demo_alloc"
  by (simp add: alloc_inv_def nvm_source_def alloc_eval)

theorem alloc_regions_disjoint_witness:
  "alloc_inv (nvm_source demo_chunks demo_alloc) demo_alloc \<and> chunks_ok (nvm_source demo_chunks demo_alloc) \<and>
   (\<exists>p q r a'. alloc_many (\<lambda>n. 0) demo_chunks [(10, True), (8, False), (100, True)] demo_alloc =
        Inr ([(p, 64), (q, 64), (r, 128)], a') \<and>
      region (r, 128) \<inter> region (p, 64) = {})"
proof -
  let ?reqs = "[(10, True), (8, False), (100, True)] :: (u64 \<times> bool) list"
  have ok: "chunks_ok (nvm_source demo_chunks demo_alloc)"
    using demo_chunks_ok by (simp add: nvm_source_def)
  have small: "\<forall>(sz, on)\<in>set ?reqs. on \<longrightarrow> unat sz \<le> 68719476736" by simp
  have dram: "length (dram demo_alloc) = 100" by (simp add: alloc_eval)
  have "\<exists>p q r a'. alloc_many (\<lambda>n. 0) demo_chunks ?reqs demo_alloc = Inr ([(p, 64), (q, 64), (r, 128)], a')"
    by (simp add: alloc_eval take_dram_def)
  then obtain p q r a' where m:
    "alloc_many (\<lambda>n. 0) demo_chunks ?reqs demo_alloc = Inr ([(p, 64), (q, 64), (r, 128)], a')" by blast
  from alloc_regions_disjoint [OF demo_alloc_inv dram ok small, where new_dram = "\<lambda>n. 0"]
  have "\<forall>i<3. \<forall>j<i. snd (?reqs ! i) \<and> snd (?reqs ! j) \<longrightarrow>
    region ([(p, 64), (q, 64), (r, 128)] ! i) \<inter> region ([(p, 64), (q, 64), (r, 128)] ! j) = {}"
    unfolding m by simp
  from this [rule_format, of 2 0] have "region (r, 128) \<inter> region (p, 64) = {}" by simp
  with m demo_alloc_inv ok show ?thesis by blast
qed

text \<open>
  A single request larger than \<open>ALLOC_SIZE\<close> is not refused: when a fresh chunk can be
  had, \<open>alloc\<close> returns its start, and the count of bytes left wraps around to a huge
  number, so every later request is served from beyond the chunk.
\<close>

theorem alloc_oversize_wraps:
  assumes "round_size sz > ALLOC_SIZE" and "round_size sz > nvm_left a"
    and "unat (nvm_cnt a) < length (nvm a)"
  shows "\<exists>a'. alloc new_dram new_nvm sz True a = Inr (nvm_source new_nvm a (nvm_cnt a), a') \<and>
    unat (nvm_left a') = 2 ^ 64 + 68719476736 - unat (round_size sz)"
proof -
  let ?r = "round_size sz"
  have "unat (ALLOC_SIZE - ?r) = 2 ^ 64 + 68719476736 - unat ?r"
    using assms(1) by (simp add: unat_sub_if' word_less_nat_alt)
  then show ?thesis
    using assms by (auto simp: alloc_def Let_def grow_nvm_def take_nvm_def nvm_source_def)
qed

theorem alloc_oversize_wraps_witness:
  "\<exists>a'. alloc (\<lambda>n. 0) demo_chunks 68719476800 True demo_alloc = Inr (2 * 68719476736, a') \<and>
    unat (nvm_left a') = 18446744073709551552"
proof -
  have e: "round_size 68719476800 = 68719476800" by (simp add: round_size_def)
  have "round_size 68719476800 > ALLOC_SIZE" by (simp add: e ALLOC_SIZE_def)
  moreover have "round_size 68719476800 > nvm_left demo_alloc" by (simp add: e alloc_eval)
  moreover have "unat (nvm_cnt demo_alloc) < length (nvm demo_alloc)" by (simp add: alloc_eval)
  ultimately have "\<exists>a'. alloc (\<lambda>n. 0) demo_chunks 68719476800 True demo_alloc =
      Inr (nvm_source demo_chunks demo_alloc (nvm_cnt demo_alloc), a') \<and>
    unat (nvm_left a') = 2 ^ 64 + 68719476736 - unat (round_size 68719476800)"
    by (rule alloc_oversize_wraps)
  moreover have "nvm_source demo_chunks demo_alloc (nvm_cnt demo_alloc) = 2 * 68719476736"
    by (simp add: nvm_source_def alloc_eval)
  ultimately show ?thesis by (simp add: e)
qed

end
