(* ===== verification/Rng.thy ===== *)
theory Rng
  imports Prelude
begin

text \<open>
  The xoroshiro128+ generator of \<^verbatim>\<open>rng/rng.cpp\<close>, from which the benchmarks draw keys.
  The state is two 64-bit words.  One step is a linear bijection of the state; the jump is a
  fixed polynomial in the step, so it commutes with it.
\<close>

record rng =
  state0 :: u64
  state1 :: u64

definition rotl :: "u64 \<Rightarrow> nat \<Rightarrow> u64" where
  "rotl x k = push_bit k x OR drop_bit (64 - k) x"

definition rng_init :: "u64 \<Rightarrow> u64 \<Rightarrow> rng" where
  "rng_init seed1 seed2 = \<lparr>state0 = seed1, state1 = seed2\<rparr>"

definition rng_next :: "rng \<Rightarrow> u64 \<times> rng" where
  "rng_next r =
     (let s0 = state0 r;
          s1 = state1 r;
          v = s0 + s1;
          s1' = s1 XOR s0
      in (drop_bit 1 v,
          \<lparr>state0 = rotl s0 55 XOR s1' XOR push_bit 14 s1', state1 = rotl s1' 36\<rparr>))"

definition rng_jump_words :: "u64 list" where
  "rng_jump_words = [0xbeac0467eba5facb, 0xd86b048b86aa9922]"

text \<open>The body of the inner loop of \<open>rng_jump\<close>: bit \<open>b\<close> of a constant.\<close>

definition jump_step :: "bool \<Rightarrow> u64 \<times> u64 \<times> rng \<Rightarrow> u64 \<times> u64 \<times> rng" where
  "jump_step bt = (\<lambda>(s0, s1, r).
     let (s0', s1') = (if bt then (s0 XOR state0 r, s1 XOR state1 r) else (s0, s1))
     in (s0', s1', snd (rng_next r)))"

definition jump_bits :: "bool list" where
  "jump_bits = concat (map (\<lambda>j. map (\<lambda>b. j AND push_bit b 1 \<noteq> 0) [0..<64]) rng_jump_words)"

definition rng_jump :: "rng \<Rightarrow> rng" where
  "rng_jump r =
     (let (s0, s1, _) = fold jump_step jump_bits (0, 0, r)
      in \<lparr>state0 = s0, state1 = s1\<rparr>)"

subsection \<open>One step is invertible\<close>

lemma rotl_word_rotl: "0 < k \<Longrightarrow> k < 64 \<Longrightarrow> rotl x k = word_rotl k x"
proof (rule bit_word_eqI)
  fix n assume k: "0 < k" "k < 64" and n: "n < LENGTH(64)"
  show "bit (rotl x k) n = bit (word_rotl k x) n"
  proof (cases "k \<le> n")
    case True
    then have "(n + (64 - k)) mod 64 = n - k" using n k by (simp add: le_mod_geq)
    moreover have "\<not> bit x (64 - k + n)" using True by (auto dest: bit_imp_le_length)
    ultimately show ?thesis using True n k
      by (simp add: rotl_def bit_word_rotl_iff bit_or_iff bit_push_bit_iff bit_drop_bit_eq)
  next
    case False
    then have "(n + (64 - k)) mod 64 = 64 - k + n" using n k by simp
    with False n k show ?thesis
      by (simp add: rotl_def bit_word_rotl_iff bit_or_iff bit_push_bit_iff bit_drop_bit_eq)
  qed
qed

definition rng_prev :: "rng \<Rightarrow> rng" where
  "rng_prev r =
     (let t = word_rotr 36 (state1 r);
          s0 = word_rotr 55 (state0 r XOR t XOR push_bit 14 t)
      in \<lparr>state0 = s0, state1 = t XOR s0\<rparr>)"

lemma rot_inv [simp]: "word_rotr k (word_rotl k (x :: u64)) = x" "word_rotl k (word_rotr k (x :: u64)) = x"
  by (simp_all add: word_rot_gal word_rot_gal')

lemma xor_cancel [simp]: "(a XOR b) XOR b = (a :: u64)" "b XOR (b XOR a) = (a :: u64)"
   "b XOR (a XOR b) = (a :: u64)"
  by (simp_all add: xor.assoc xor.commute xor.left_commute)

text \<open>
  The state transition of \<open>rng_next\<close> is a bijection, with \<open>rng_prev\<close> its inverse: no two
  states are merged, so the period does not shrink.
\<close>

theorem rng_next_bijective:
  "rng_prev (snd (rng_next r)) = r \<and> snd (rng_next (rng_prev r)) = r"
proof
  show "rng_prev (snd (rng_next r)) = r"
    by (simp add: rng_prev_def rng_next_def Let_def rotl_word_rotl xor.assoc xor.commute xor.left_commute)
next
  show "snd (rng_next (rng_prev r)) = r"
    by (simp add: rng_prev_def rng_next_def Let_def rotl_word_rotl xor.assoc xor.commute xor.left_commute)
qed

subsection \<open>Linearity, and the jump\<close>

definition rng_xor :: "rng \<Rightarrow> rng \<Rightarrow> rng" where
  "rng_xor a b = \<lparr>state0 = state0 a XOR state0 b, state1 = state1 a XOR state1 b\<rparr>"

lemma rotl_xor: "rotl (x XOR y) k = rotl x k XOR rotl y k" if "k < 64" "0 < k"
  using that by (intro bit_word_eqI)
    (auto simp: rotl_word_rotl bit_word_rotl_iff bit_xor_iff)

lemma push_bit_xor64: "push_bit k (x XOR y :: u64) = push_bit k x XOR push_bit k y"
  by (rule bit_word_eqI) (auto simp: bit_push_bit_iff bit_xor_iff)

lemma rng_next_linear:
  "snd (rng_next (rng_xor a b)) = rng_xor (snd (rng_next a)) (snd (rng_next b))"
  by (simp add: rng_next_def rng_xor_def Let_def rotl_xor push_bit_xor64 xor.assoc xor.commute xor.left_commute)

lemma rng_next_zero: "snd (rng_next \<lparr>state0 = 0, state1 = 0\<rparr>) = \<lparr>state0 = 0, state1 = 0\<rparr>"
  by (simp add: rng_next_def rotl_def)

lemma jump_fold_next:
  "fold jump_step bits (state0 (snd (rng_next q)), state1 (snd (rng_next q)), snd (rng_next r)) =
     (let (s0, s1, r') = fold jump_step bits (state0 q, state1 q, r);
          q' = snd (rng_next \<lparr>state0 = s0, state1 = s1\<rparr>)
      in (state0 q', state1 q', snd (rng_next r')))"
proof (induction bits arbitrary: q r)
  case Nil
  show ?case by (cases q) (simp add: Let_def)
next
  case (Cons bt bits)
  show ?case
  proof (cases bt)
    case True
    have l: "state0 (snd (rng_next q)) XOR state0 (snd (rng_next r)) = state0 (snd (rng_next (rng_xor q r)))"
      "state1 (snd (rng_next q)) XOR state1 (snd (rng_next r)) = state1 (snd (rng_next (rng_xor q r)))"
      by (simp_all add: rng_next_linear) (simp_all add: rng_xor_def)
    have x: "state0 q XOR state0 r = state0 (rng_xor q r)" "state1 q XOR state1 r = state1 (rng_xor q r)"
      by (simp_all add: rng_xor_def)
    from Cons.IH [of "rng_xor q r" "snd (rng_next r)"] True show ?thesis
      by (simp add: jump_step_def l x)
  next
    case False
    with Cons.IH [of q "snd (rng_next r)"] show ?thesis by (simp add: jump_step_def)
  qed
qed

text \<open>
  Jumping commutes with stepping: the sequence that starts after a jump is the jump of
  the sequence, so the streams of two generators that differ by a jump stay aligned.
\<close>

theorem rng_jump_next: "rng_jump (snd (rng_next r)) = snd (rng_next (rng_jump r))"
proof -
  have "fold jump_step jump_bits (0, 0, snd (rng_next r)) =
     (let (s0, s1, r') = fold jump_step jump_bits (0, 0, r);
          q' = snd (rng_next \<lparr>state0 = s0, state1 = s1\<rparr>)
      in (state0 q', state1 q', snd (rng_next r')))"
    using jump_fold_next [of jump_bits "\<lparr>state0 = 0, state1 = 0\<rparr>" r] by (simp add: rng_next_zero)
  then show ?thesis by (simp add: rng_jump_def Let_def split: prod.splits)
qed

text \<open>Every key drawn fits in 63 bits: the top bit of \<open>rng_next\<close>'s result is clear.\<close>

theorem rng_next_bound: "unat (fst (rng_next r)) < 2 ^ 63"
proof -
  have "unat (fst (rng_next r)) = unat (state0 r + state1 r) div 2"
    by (simp add: rng_next_def Let_def unat_drop_bit)
  also have "\<dots> < 2 ^ 63"
  proof -
    have "unat (state0 r + state1 r) < 2 ^ 64" by (rule unat_u64_less)
    then show ?thesis by simp
  qed
  finally show ?thesis .
qed

end
