(* ===== verification/Wort.thy ===== *)
theory Wort
  imports Prelude
begin

text \<open>
  The write-optimal radix tree of \<^verbatim>\<open>wort/wort.cpp\<close> and \<^verbatim>\<open>wort/wort.h\<close>: 16-way nodes over
  the nibbles of a 64-bit key, with path compression.

  A tree is a value of type \<open>wort_node\<close>: the null pointer, a tagged leaf, or a
  \<open>wort_node16\<close> with its 8-byte header (depth, prefix length, the stored bytes of the
  prefix) and its 16 children.  The code reaches every node through exactly one pointer, so
  the in-place updates through \<open>ref\<close> and through \<open>n\<close> become the returned tree.  A leaf's
  \<open>value\<close> stands for the 8 bytes the code copies to a fresh cell.  The bytes of
  \<open>pwortial\<close> that the code never initialises are left out: the list holds the first
  \<open>min 6 pwortial_len\<close> bytes.

  Header and parent pointer of a split node are stored without a fence in between.  The
  model keeps the headers as they are found, stale ones included, so that lookups and
  insertions can be stated on the images a crash leaves behind.
\<close>

subsection \<open>Nodes\<close>

datatype wort_node =
    WNull
  | WLeaf u64 u32 u64                       \<comment> \<open>value, key length, key\<close>
  | WNode nat nat "nat list" "wort_node list"  \<comment> \<open>depth, prefix length, prefix bytes, children\<close>

record wort_tree =
  root :: wort_node
  tree_size :: u64
  wort_memory_usage :: u64

definition is_null :: "wort_node \<Rightarrow> bool" where
  "is_null n = (case n of WNull \<Rightarrow> True | _ \<Rightarrow> False)"

lemma is_null_simps [simp]:
  "is_null WNull" "\<not> is_null (WLeaf v kl k)" "\<not> is_null (WNode d l p cs)"
  by (simp_all add: is_null_def)

lemma is_null_iff: "is_null n \<longleftrightarrow> n = WNull"
  by (cases n) simp_all

definition wort_tree_init :: "u64 \<Rightarrow> wort_tree" where
  "wort_tree_init mem = \<lparr>root = WNull, tree_size = 0, wort_memory_usage = mem\<rparr>"

text \<open>\<^verbatim>\<open>sizeof(wort_tree)\<close>, \<^verbatim>\<open>sizeof(wort_node16)\<close> and \<^verbatim>\<open>sizeof(wort_leaf)\<close> on x86-64.\<close>

definition new_wort_tree :: "u64 \<Rightarrow> wort_tree" where
  "new_wort_tree mem = wort_tree_init (mem + 16)"

definition sizeof_node16 :: u64 where "sizeof_node16 = 136"
definition sizeof_leaf :: u64 where "sizeof_leaf = 24"

subsection \<open>Nibbles and prefixes\<close>

text \<open>
  Nibble \<open>depth\<close> of a key, counted from the most significant.  For a depth beyond 15 the
  C++ shift count is negative; the operations below stop with \<open>BadShift\<close> before that.
\<close>

definition get_index :: "u64 \<Rightarrow> nat \<Rightarrow> nat" where
  "get_index key depth = unat (drop_bit ((15 - depth) * 4) key AND mask 4)"

definition find_child :: "wort_node list \<Rightarrow> nat \<Rightarrow> wort_node option" where
  "find_child cs c = (if c < length cs \<and> \<not> is_null (cs ! c) then Some (cs ! c) else None)"

definition check_prefix :: "nat \<Rightarrow> nat list \<Rightarrow> u64 \<Rightarrow> nat \<Rightarrow> nat" where
  "check_prefix len p key depth =
     first_from (\<lambda>i. p ! i \<noteq> get_index key (depth + i)) 0 (min (min len 6) (16 - depth))"

definition leaf_matches :: "u32 \<Rightarrow> u64 \<Rightarrow> u64 \<Rightarrow> u32 \<Rightarrow> nat" where
  "leaf_matches leaf_len leaf_key key key_len =
     (if leaf_len \<noteq> key_len then 1 else if leaf_key = key then 0 else 1)"

lemma find_index_size:
  "find_index p cs = Some i \<Longrightarrow> size (cs ! i) \<le> size_list size cs"
  using find_index_SomeD [of p cs i] size_list_estimation' [of "cs ! i" cs "size (cs ! i)" size]
  by auto

lemma find_child_size:
  "find_child cs c = Some n \<Longrightarrow> size n \<le> size_list size cs"
  using size_list_estimation' [of n cs "size n" size]
  by (auto simp: find_child_def split: if_splits)

text \<open>
  The leftmost leaf.  A node without children would make the code run off the array.
\<close>

function minimum :: "wort_node \<Rightarrow> wort_node res" where
  "minimum WNull = Inr WNull"
| "minimum (WLeaf v kl k) = Inr (WLeaf v kl k)"
| "minimum (WNode d l p cs) =
     (case find_index (\<lambda>c. \<not> is_null c) cs of
        None \<Rightarrow> Inl OutOfBounds
      | Some i \<Rightarrow> minimum (cs ! i))"
  by pat_completeness auto
termination
  by (relation "measure size") (auto simp: less_Suc_eq_le dest: find_index_size)

definition longest_common_prefix :: "u64 \<Rightarrow> u64 \<Rightarrow> nat \<Rightarrow> nat" where
  "longest_common_prefix k1 k2 depth =
     first_from (\<lambda>i. get_index k1 (depth + i) \<noteq> get_index k2 (depth + i)) 0 (16 - depth)"

text \<open>
  The prefix of a node whose header is stale, from the leftmost leaves of its first two
  children (the same code in \<open>wort_get\<close> and in \<open>recovery_prefix\<close>).
\<close>

definition leaf_key :: "wort_node \<Rightarrow> u64 res" where
  "leaf_key n = (case n of WLeaf v kl k \<Rightarrow> Inr k | _ \<Rightarrow> Inl NullDeref)"

definition computed_path :: "wort_node list \<Rightarrow> nat \<Rightarrow> (nat \<times> nat list) res" where
  "computed_path cs depth =
     (case filter (\<lambda>c. \<not> is_null c) cs of
        a # b # _ \<Rightarrow>
          (case (minimum a, minimum b) of
             (Inr la, Inr lb) \<Rightarrow>
               (case (leaf_key la, leaf_key lb) of
                  (Inr k0, Inr k1) \<Rightarrow>
                    (let d = longest_common_prefix k0 k1 depth
                     in Inr (d, map (\<lambda>i. get_index k1 (depth + i)) [0..<min 6 d]))
                | _ \<Rightarrow> Inl NullDeref)
           | _ \<Rightarrow> Inl OutOfBounds)
      | _ \<Rightarrow> Inl UninitRead)"

definition recovery_prefix :: "wort_node list \<Rightarrow> nat \<Rightarrow> (nat \<times> nat \<times> nat list) res" where
  "recovery_prefix cs depth = map_sum id (\<lambda>(d, p). (depth, d, p)) (computed_path cs depth)"

subsection \<open>Lookup\<close>

text \<open>Compare the prefix and skip it: the depth of the child index, or none.\<close>

definition skip_prefix :: "nat \<Rightarrow> nat list \<Rightarrow> u64 \<Rightarrow> nat \<Rightarrow> nat option" where
  "skip_prefix len p key depth =
     (if check_prefix len p key depth \<noteq> min 6 len then None else Some (depth + len))"

function wort_get_from :: "wort_node \<Rightarrow> u64 \<Rightarrow> u32 \<Rightarrow> nat \<Rightarrow> u64 option res" where
  "wort_get_from WNull key key_len depth = Inr None"
| "wort_get_from (WLeaf v kl k) key key_len depth =
     (if leaf_matches kl k key key_len = 0 then Inr (Some v) else Inr None)"
| "wort_get_from (WNode d len p cs) key key_len depth =
     (case (if d = depth
            then Inr (if len \<noteq> 0 then skip_prefix len p key depth else Some depth)
            else (case computed_path cs depth of
                    Inl e \<Rightarrow> Inl e
                  | Inr (len', p') \<Rightarrow> Inr (skip_prefix len' p' key depth))) of
        Inl e \<Rightarrow> Inl e
      | Inr None \<Rightarrow> Inr None
      | Inr (Some depth') \<Rightarrow>
          if depth' > 15 then Inl BadShift
          else (case find_child cs (get_index key depth') of
                  None \<Rightarrow> Inr None
                | Some c \<Rightarrow> wort_get_from c key key_len (Suc depth')))"
  by pat_completeness auto
termination
  by (relation "measure (\<lambda>(n, _). size n)") (auto simp: less_Suc_eq_le dest: find_child_size)

text \<open>The value the pointer of the leaf leads to, 0 when there is none.\<close>

definition wort_get :: "wort_tree \<Rightarrow> u64 \<Rightarrow> u32 \<Rightarrow> u64 res" where
  "wort_get t key key_len =
     map_sum id or_null (wort_get_from (root t) key key_len 0)"

subsection \<open>Insertion\<close>

text \<open>
  The depth at which the key leaves the node's prefix.  Past the stored bytes the code
  compares with the leftmost leaf.
\<close>

definition prefix_mismatch :: "nat \<Rightarrow> nat list \<Rightarrow> wort_node list \<Rightarrow> u64 \<Rightarrow> nat \<Rightarrow> nat res" where
  "prefix_mismatch len p cs key depth =
     (let m = min (min 6 len) (16 - depth);
          idx = first_from (\<lambda>i. p ! i \<noteq> get_index key (depth + i)) 0 m
      in if idx < m then Inr idx
         else if len > 6 then
           (case minimum (WNode depth len p cs) of
              Inl e \<Rightarrow> Inl e
            | Inr l \<Rightarrow>
                (case leaf_key l of
                   Inl e \<Rightarrow> Inl e
                 | Inr k \<Rightarrow>
                     Inr (first_from (\<lambda>i. get_index k (depth + i) \<noteq> get_index key (depth + i))
                            idx (16 - depth))))
         else Inr idx)"

text \<open>Where insertion goes at an inner node: into the node's prefix, or to a child.\<close>

datatype wort_step = Split nat | Descend nat

definition classify :: "nat \<Rightarrow> nat list \<Rightarrow> wort_node list \<Rightarrow> u64 \<Rightarrow> nat \<Rightarrow> wort_step res" where
  "classify len p cs key depth =
     (if len \<noteq> 0 then
        (case prefix_mismatch len p cs key depth of
           Inl e \<Rightarrow> Inl e
         | Inr pd \<Rightarrow> Inr (if pd \<ge> len then Descend (depth + len) else Split pd))
      else Inr (Descend depth))"

text \<open>
  The header of the old node below a split, and the index at which it hangs.
\<close>

definition split_header ::
  "nat \<Rightarrow> nat list \<Rightarrow> wort_node list \<Rightarrow> nat \<Rightarrow> nat \<Rightarrow> (nat \<times> nat \<times> nat \<times> nat list) res" where
  "split_header len p cs depth pd =
     (let hl = len - (pd + 1); hd_d = depth + pd + 1 in
      if len \<le> 6 then Inr (p ! pd, hd_d, hl, take (min 6 hl) (drop (pd + 1) p))
      else (case minimum (WNode depth len p cs) of
              Inl e \<Rightarrow> Inl e
            | Inr l \<Rightarrow>
                (case leaf_key l of
                   Inl e \<Rightarrow> Inl e
                 | Inr k \<Rightarrow>
                     Inr (get_index k (depth + pd), hd_d, hl,
                          map (\<lambda>i. get_index k (depth + pd + 1 + i)) [0..<min 6 hl]))))"

definition split_node ::
  "nat \<Rightarrow> nat \<Rightarrow> nat list \<Rightarrow> wort_node \<Rightarrow> nat \<Rightarrow> wort_node \<Rightarrow> nat \<Rightarrow> wort_node" where
  "split_node depth pd p old c leaf c' =
     WNode depth pd (take (min 6 pd) p) ((replicate 16 WNull)[c := old, c' := leaf])"

definition split_leaf :: "u64 \<Rightarrow> u32 \<Rightarrow> u64 \<Rightarrow> wort_node \<Rightarrow> u64 \<Rightarrow> nat \<Rightarrow> (wort_node \<times> u64) res" where
  "split_leaf key key_len v l lk depth =
     (let lp = longest_common_prefix lk key depth in
      if depth + lp > 15 then Inl BadShift
      else Inr (WNode depth lp (map (\<lambda>i. get_index key (depth + i)) [0..<min 6 lp])
                 ((replicate 16 WNull)[get_index lk (depth + lp) := l,
                                       get_index key (depth + lp) := WLeaf v key_len key]),
                sizeof_node16 + sizeof_leaf))"

text \<open>
  The result is the tree now stored at \<open>ref\<close>, the value replaced (if the key was there),
  and the bytes added to \<open>wort_memory_usage\<close>.
\<close>

function recursive_insert ::
  "wort_node \<Rightarrow> u64 \<Rightarrow> u32 \<Rightarrow> u64 \<Rightarrow> nat \<Rightarrow> (wort_node \<times> u64 option \<times> u64) res" where
  "recursive_insert WNull key key_len v depth = Inr (WLeaf v key_len key, None, sizeof_leaf)"
| "recursive_insert (WLeaf lv ll lk) key key_len v depth =
     (if leaf_matches ll lk key key_len = 0 then Inr (WLeaf v ll lk, Some lv, 0)
      else (case split_leaf key key_len v (WLeaf lv ll lk) lk depth of
              Inl e \<Rightarrow> Inl e
            | Inr (n, m) \<Rightarrow> Inr (n, None, m)))"
| "recursive_insert (WNode d0 len0 p0 cs) key key_len v depth =
     (case (if d0 \<noteq> depth then recovery_prefix cs depth else Inr (d0, len0, p0)) of
        Inl e \<Rightarrow> Inl e
      | Inr (d, len, p) \<Rightarrow>
          (case classify len p cs key depth of
             Inl e \<Rightarrow> Inl e
           | Inr (Split pd) \<Rightarrow>
               if depth + pd > 15 then Inl BadShift
               else (case split_header len p cs depth pd of
                       Inl e \<Rightarrow> Inl e
                     | Inr (c, hd_d, hl, hp) \<Rightarrow>
                         Inr (split_node depth pd p (WNode hd_d hl hp cs) c
                                (WLeaf v key_len key) (get_index key (depth + pd)),
                              None, sizeof_node16 + sizeof_leaf))
           | Inr (Descend depth') \<Rightarrow>
               if depth' > 15 then Inl BadShift
               else (case find_child cs (get_index key depth') of
                       Some c \<Rightarrow>
                         (case recursive_insert c key key_len v (Suc depth') of
                            Inl e \<Rightarrow> Inl e
                          | Inr (c', old, m) \<Rightarrow>
                              Inr (WNode d len p (cs[get_index key depth' := c']), old, m))
                     | None \<Rightarrow>
                         Inr (WNode d len p (cs[get_index key depth' := WLeaf v key_len key]),
                              None, sizeof_leaf))))"
  by pat_completeness auto
termination
  by (relation "measure (\<lambda>(n, _). size n)") (auto simp: less_Suc_eq_le dest: find_child_size)

definition wort_put :: "wort_tree \<Rightarrow> u64 \<Rightarrow> u32 \<Rightarrow> u64 \<Rightarrow> (u64 option \<times> wort_tree) res" where
  "wort_put t key key_len v =
     (case recursive_insert (root t) key key_len v 0 of
        Inl e \<Rightarrow> Inl e
      | Inr (n, old, m) \<Rightarrow>
          Inr (old, \<lparr>root = n,
                     tree_size = (if old = None then tree_size t + 1 else tree_size t),
                     wort_memory_usage = wort_memory_usage t + 8 + m\<rparr>))"

subsection \<open>Range scan\<close>

fun wort_all_subtree_kv :: "wort_node \<Rightarrow> (u64 \<times> u64) list" where
  "wort_all_subtree_kv WNull = []"
| "wort_all_subtree_kv (WLeaf v kl k) = [(k, v)]"
| "wort_all_subtree_kv (WNode d l p cs) = concat (map wort_all_subtree_kv cs)"

text \<open>
  The two loops over the prefix.  \<open>True\<close> means that the node is abandoned.  The second loop
  compares with \<open>left\<close> where it means \<open>right\<close>, as in the source.
\<close>

fun scan_left :: "nat list \<Rightarrow> u64 \<Rightarrow> nat \<Rightarrow> bool" where
  "scan_left [] left depth = False"
| "scan_left (b # bs) left depth =
     (if b > get_index left depth then False
      else if b < get_index left depth then True
      else scan_left bs left (Suc depth))"

fun scan_right :: "nat list \<Rightarrow> u64 \<Rightarrow> u64 \<Rightarrow> nat \<Rightarrow> bool" where
  "scan_right [] left right depth = False"
| "scan_right (b # bs) left right depth =
     (if b < get_index right depth then False
      else if b > get_index left depth then True
      else scan_right bs left right (Suc depth))"

function wort_node_scan :: "wort_node \<Rightarrow> u64 \<Rightarrow> u64 \<Rightarrow> nat \<Rightarrow> (u64 \<times> u64) list" where
  "wort_node_scan WNull left right depth = []"
| "wort_node_scan (WLeaf v kl k) left right depth = (if left \<le> k \<and> k \<le> right then [(k, v)] else [])"
| "wort_node_scan (WNode d len p cs) left right depth =
     (let q = take (min (min len 6) (16 - depth)) p in
      if len \<noteq> 0 \<and> (scan_left q left depth \<or> scan_right q left right depth) then []
      else
        (let depth' = depth + len;
             li = get_index left depth';
             ri = get_index right depth';
             ends =
               (if li \<noteq> ri then
                  (case find_child cs li of None \<Rightarrow> [] | Some c \<Rightarrow> wort_node_scan c left (-1) (Suc depth')) @
                  (case find_child cs ri of None \<Rightarrow> [] | Some c \<Rightarrow> wort_node_scan c 0 right (Suc depth'))
                else (case find_child cs li of None \<Rightarrow> [] | Some c \<Rightarrow> wort_node_scan c left right (Suc depth')))
         in ends @ concat (map (\<lambda>i. case find_child cs i of None \<Rightarrow> [] | Some c \<Rightarrow> wort_all_subtree_kv c)
                             [Suc li..<ri])))"
  by pat_completeness auto
termination
  by (relation "measure (\<lambda>(n, _). size n)") (auto simp: less_Suc_eq_le dest: find_child_size)

definition wort_scan :: "wort_tree \<Rightarrow> u64 \<Rightarrow> u64 \<Rightarrow> (u64 \<times> u64) list" where
  "wort_scan t left right = wort_node_scan (root t) left right 0"

end
