(* ===== verification/Wort_Map.thy ===== *)
theory Wort_Map
  imports Wort
begin

text \<open>
  The radix tree of \<^verbatim>\<open>wort/wort.cpp\<close> as a finite map: the invariant of the trees the code
  builds, crash images included, and the functional correctness of lookup and insertion.

  \<open>winv d t\<close> says that \<open>t\<close> may hang at depth \<open>d\<close>.  Each inner node has a true prefix length
  \<open>L\<close>, fixed by the keys below it.  Its header must agree with \<open>L\<close> only when the stored depth
  is \<open>d\<close>: a node whose stored depth is another one is an image of a crash, and lookups
  recompute its prefix.
\<close>

subsection \<open>Nibbles determine a key\<close>

lemma get_index_less [simp]: "get_index k d < 16"
  using mod_less_divisor [of 16] by (simp add: get_index_def unat_drop_bit_mask)

lemma get_index_bit:
  "d < 16 \<Longrightarrow> get_index k d = get_index k' d \<Longrightarrow> r < 4 \<Longrightarrow> bit k ((15 - d) * 4 + r) = bit k' ((15 - d) * 4 + r)"
proof -
  assume "d < 16" and e: "get_index k d = get_index k' d" and r: "r < 4"
  from e have "drop_bit ((15 - d) * 4) k AND mask 4 = drop_bit ((15 - d) * 4) k' AND mask 4"
    unfolding get_index_def by (rule word_unat_eq_iff [THEN iffD2])
  then have "bit (drop_bit ((15 - d) * 4) k AND mask 4) r = bit (drop_bit ((15 - d) * 4) k' AND mask 4) r"
    by simp
  with r show ?thesis by (simp add: bit_and_iff bit_mask_iff bit_drop_bit_eq)
qed

lemma get_index_ext: "(\<And>j. j < 16 \<Longrightarrow> get_index k j = get_index k' j) \<Longrightarrow> k = k'"
proof (rule bit_word_eqI)
  fix n assume e: "\<And>j. j < 16 \<Longrightarrow> get_index k j = get_index k' j" and n: "n < LENGTH(64)"
  let ?d = "15 - n div 4"
  have "n div 4 < 16" using n by simp
  then have "(15 - ?d) * 4 + n mod 4 = n" by simp
  with get_index_bit [of ?d k k' "n mod 4"] e show "bit k n = bit k' n" by simp
qed

lemma longest_common_prefix_props:
  assumes "k \<noteq> k'" and "\<And>j. j < d \<Longrightarrow> get_index k j = get_index k' j"
  defines "l \<equiv> longest_common_prefix k k' d"
  shows "d + l \<le> 15" "\<And>j. j < l \<Longrightarrow> get_index k (d + j) = get_index k' (d + j)"
    "get_index k (d + l) \<noteq> get_index k' (d + l)"
proof -
  let ?p = "\<lambda>i. get_index k (d + i) \<noteq> get_index k' (d + i)"
  note f = first_from_props [of 0 ?p "16 - d", folded longest_common_prefix_def, folded l_def]
  obtain j where j: "j < 16" "get_index k j \<noteq> get_index k' j"
    using get_index_ext assms(1) by blast
  then have dj: "d \<le> j" using assms(2) by (meson not_less)
  have lt: "l < 16 - d"
  proof (rule ccontr)
    assume "\<not> l < 16 - d"
    then have "j - d < l" using j dj by linarith
    with f have "\<not> ?p (j - d)" by blast
    with j dj show False by simp
  qed
  then show "d + l \<le> 15" by simp
  from f show "\<And>j. j < l \<Longrightarrow> get_index k (d + j) = get_index k' (d + j)" by auto
  from f lt show "get_index k (d + l) \<noteq> get_index k' (d + l)" by auto
qed

lemma longest_common_prefix_eqI:
  assumes "d + L \<le> 15" "\<And>j. j < L \<Longrightarrow> get_index k (d + j) = get_index k' (d + j)"
    "get_index k (d + L) \<noteq> get_index k' (d + L)"
  shows "longest_common_prefix k k' d = L"
  unfolding longest_common_prefix_def using assms by (intro first_from_unique) auto

subsection \<open>Entries and the invariant\<close>

abbreviation entries :: "wort_node \<Rightarrow> (u64 \<times> u64) list" where
  "entries \<equiv> wort_all_subtree_kv"

definition keys :: "wort_node \<Rightarrow> u64 set" where
  "keys t = fst ` set (entries t)"

definition ckeys :: "wort_node list \<Rightarrow> u64 set" where
  "ckeys cs = (\<Union>c\<in>set cs. keys c)"

lemma keys_simps [simp]:
  "keys WNull = {}" "keys (WLeaf v kl k) = {k}" "keys (WNode d l p cs) = ckeys cs"
  by (auto simp: keys_def ckeys_def image_Union)

text \<open>The children of a node at depth \<open>d\<close> with a true prefix of \<open>L\<close> nibbles.\<close>

definition branching :: "nat \<Rightarrow> nat \<Rightarrow> wort_node list \<Rightarrow> bool" where
  "branching d L cs \<longleftrightarrow>
     length cs = 16 \<and> d + L \<le> 15 \<and>
     (\<exists>j<16. \<exists>i<j. \<not> is_null (cs ! i) \<and> \<not> is_null (cs ! j)) \<and>
     (\<forall>i<16. \<forall>k\<in>keys (cs ! i). get_index k (d + L) = i) \<and>
     (\<forall>k\<in>ckeys cs. \<forall>k'\<in>ckeys cs. \<forall>j<L. get_index k (d + j) = get_index k' (d + j))"

definition header_ok :: "nat \<Rightarrow> nat \<Rightarrow> nat \<Rightarrow> nat list \<Rightarrow> wort_node list \<Rightarrow> bool" where
  "header_ok d L len p cs \<longleftrightarrow>
     len = L \<and> length p = min 6 L \<and> (\<forall>k\<in>ckeys cs. \<forall>j<min 6 L. p ! j = get_index k (d + j))"

fun winv :: "nat \<Rightarrow> wort_node \<Rightarrow> bool" where
  "winv d WNull = True"
| "winv d (WLeaf v kl k) = (kl = 8)"
| "winv d (WNode dep len p cs) =
     (\<exists>L<16. branching d L cs \<and> (dep = d \<longrightarrow> header_ok d L len p cs) \<and>
        list_all (winv (Suc (d + L))) cs)"

lemma branchingD:
  assumes "branching d L cs"
  shows "length cs = 16" "d + L \<le> 15"
    "\<And>i k. i < 16 \<Longrightarrow> k \<in> keys (cs ! i) \<Longrightarrow> get_index k (d + L) = i"
    "\<And>k k' j. k \<in> ckeys cs \<Longrightarrow> k' \<in> ckeys cs \<Longrightarrow> j < L \<Longrightarrow> get_index k (d + j) = get_index k' (d + j)"
  using assms unfolding branching_def by blast+

lemma ckeys_nth: "k \<in> ckeys cs \<longleftrightarrow> (\<exists>i<length cs. k \<in> keys (cs ! i))"
  unfolding ckeys_def by (metis UN_iff in_set_conv_nth)

lemma map_of_concat_skip:
  "(\<And>x. x \<in> set xss \<Longrightarrow> k \<notin> fst ` set x) \<Longrightarrow> map_of (concat xss) k = None"
  by (induction xss) (auto simp: map_add_def map_of_eq_None_iff split: option.splits)

lemma map_of_concat_unique:
  assumes "i < length xss" and "\<And>j. j < length xss \<Longrightarrow> j \<noteq> i \<Longrightarrow> k \<notin> fst ` set (xss ! j)"
  shows "map_of (concat xss) k = map_of (xss ! i) k"
  using assms
proof (induction xss arbitrary: i)
  case Nil
  then show ?case by simp
next
  case (Cons x xss)
  show ?case
  proof (cases i)
    case 0
    have "k \<notin> fst ` set y" if "y \<in> set xss" for y
      using Cons.prems(2) [of "Suc _"] 0 that by (metis Suc_less_eq in_set_conv_nth length_Cons nat.discI nth_Cons_Suc)
    then have "map_of (concat xss) k = None" by (rule map_of_concat_skip)
    with 0 show ?thesis by (simp add: map_add_def split: option.splits)
  next
    case (Suc i')
    have "map_of x k = None" using Cons.prems(2) [of 0] Suc by (simp add: map_of_eq_None_iff)
    moreover have "map_of (concat xss) k = map_of (xss ! i') k"
      using Cons.prems Suc by (intro Cons.IH) force+
    ultimately show ?thesis using Suc by (simp add: map_add_def split: option.splits)
  qed
qed

lemma keys_map_of: "k \<notin> keys t \<longleftrightarrow> map_of (entries t) k = None"
  by (simp add: keys_def map_of_eq_None_iff)

text \<open>Looking a key up at a node is looking it up in the child its nibble selects.\<close>

lemma entries_child:
  assumes b: "branching d L cs"
  shows "map_of (concat (map entries cs)) k = map_of (entries (cs ! get_index k (d + L))) k"
proof -
  let ?i = "get_index k (d + L)"
  have "map_of (concat (map entries cs)) k = map_of (map entries cs ! ?i) k"
  proof (rule map_of_concat_unique)
    show "?i < length (map entries cs)" by (simp add: branchingD(1) [OF b])
    fix j assume j: "j < length (map entries cs)" "j \<noteq> ?i"
    then have "k \<notin> keys (cs ! j)" using branchingD(1,3) [OF b] by auto
    with j show "k \<notin> fst ` set (map entries cs ! j)" by (simp add: keys_def)
  qed
  then show ?thesis by (simp add: branchingD(1) [OF b])
qed

subsection \<open>Leftmost leaves and recomputed prefixes\<close>

lemma branching_nonempty:
  assumes b: "branching d L cs"
  shows "\<exists>i. find_index (\<lambda>c. \<not> is_null c) cs = Some i"
proof -
  from b obtain j where "j < length cs" "\<not> is_null (cs ! j)" by (auto simp: branching_def)
  then have "\<exists>c\<in>set cs. \<not> is_null c" using nth_mem by blast
  then show ?thesis by (cases "find_index (\<lambda>c. \<not> is_null c) cs") auto
qed

lemma minimum_leaf:
  "winv d t \<Longrightarrow> \<not> is_null t \<Longrightarrow> \<exists>v k. minimum t = Inr (WLeaf v 8 k) \<and> k \<in> keys t"
proof (induction t arbitrary: d rule: minimum.induct)
  case (3 dep len p cs)
  then obtain L where b: "branching d L cs" and w: "list_all (winv (Suc (d + L))) cs" by auto
  obtain i where i: "find_index (\<lambda>c. \<not> is_null c) cs = Some i" using branching_nonempty [OF b] by blast
  then have lt: "i < length cs" "\<not> is_null (cs ! i)" by (auto dest: find_index_SomeD)
  have "winv (Suc (d + L)) (cs ! i)" using w lt by (simp add: list_all_length)
  from "3.IH" [OF i this lt(2)] obtain v k where "minimum (cs ! i) = Inr (WLeaf v 8 k)" "k \<in> keys (cs ! i)"
    by blast
  with i lt show ?case by (auto simp: ckeys_nth)
qed auto

text \<open>The first two children in use, at different indices.\<close>

lemma filter_two:
  assumes "i < j" "j < length cs" "Q (cs ! i)" "Q (cs ! j)"
  shows "\<exists>a b i' j' r. filter Q cs = a # b # r \<and> i' < j' \<and> j' < length cs \<and> cs ! i' = a \<and> cs ! j' = b"
  using assms
proof (induction cs arbitrary: i j)
  case Nil
  then show ?case by simp
next
  case (Cons c cs)
  then obtain j0 where j: "j = Suc j0" "j0 < length cs" "Q (cs ! j0)" by (cases j) auto
  show ?case
  proof (cases "Q c")
    case True
    have "filter Q cs \<noteq> []" using j by (auto simp: filter_empty_conv intro: nth_mem)
    then obtain b r where f: "filter Q cs = b # r" by (cases "filter Q cs") auto
    then have "b \<in> set (filter Q cs)" by simp
    then have "b \<in> set cs" by simp
    then obtain k where "k < length cs" "cs ! k = b" by (auto simp: in_set_conv_nth)
    with True f show ?thesis
      by (intro exI [of _ c] exI [of _ b] exI [of _ 0] exI [of _ "Suc k"] exI [of _ r]) simp
  next
    case False
    with Cons.prems obtain i0 where i: "i = Suc i0" "Q (cs ! i0)" "i0 < j0"
      using j by (cases i) auto
    from Cons.IH [OF i(3) j(2) i(2) j(3)] obtain a b i' j' r where
      "filter Q cs = a # b # r" "i' < j'" "j' < length cs" "cs ! i' = a" "cs ! j' = b" by blast
    with False show ?thesis
      by (intro exI [of _ a] exI [of _ b] exI [of _ "Suc i'"] exI [of _ "Suc j'"] exI [of _ r]) simp
  qed
qed

lemma computed_path_ok:
  assumes b: "branching d L cs" and w: "list_all (winv (Suc (d + L))) cs"
  shows "\<exists>k\<in>ckeys cs. computed_path cs d = Inr (L, map (\<lambda>i. get_index k (d + i)) [0..<min 6 L])"
proof -
  from b obtain i j where ij: "i < j" "j < length cs" "\<not> is_null (cs ! i)" "\<not> is_null (cs ! j)"
    unfolding branching_def by auto
  from filter_two [of i j cs "\<lambda>c. \<not> is_null c", OF ij] obtain x y i' j' r where
    f: "filter (\<lambda>c. \<not> is_null c) cs = x # y # r" and i': "i' < j'" "j' < length cs" "cs ! i' = x" "cs ! j' = y"
    by blast
  have "x \<in> set (filter (\<lambda>c. \<not> is_null c) cs)" "y \<in> set (filter (\<lambda>c. \<not> is_null c) cs)"
    unfolding f by simp_all
  then have nn: "\<not> is_null x" "\<not> is_null y" by simp_all
  have "winv (Suc (d + L)) x" "winv (Suc (d + L)) y" using w i' by (auto simp: list_all_length)
  with nn obtain v0 k0 v1 k1 where m: "minimum x = Inr (WLeaf v0 8 k0)" "minimum y = Inr (WLeaf v1 8 k1)"
    and k: "k0 \<in> keys (cs ! i')" "k1 \<in> keys (cs ! j')"
    by (metis i'(3,4) minimum_leaf)
  have "i' < length cs" using i'(1,2) by simp
  with k i'(2) have kc: "k0 \<in> ckeys cs" "k1 \<in> ckeys cs" unfolding ckeys_nth by blast+
  have ne: "get_index k0 (d + L) \<noteq> get_index k1 (d + L)"
  proof -
    have "get_index k0 (d + L) = i'" "get_index k1 (d + L) = j'"
      using branchingD(1,3) [OF b] k \<open>i' < length cs\<close> i'(2) by auto
    with i'(1) show ?thesis by simp
  qed
  have "longest_common_prefix k0 k1 d = L"
  proof (rule longest_common_prefix_eqI)
    show "d + L \<le> 15" by (rule branchingD(2) [OF b])
    show "\<And>j. j < L \<Longrightarrow> get_index k0 (d + j) = get_index k1 (d + j)"
      by (rule branchingD(4) [OF b kc])
  qed (rule ne)
  then show ?thesis using f m kc(2) by (auto simp: computed_path_def leaf_key_def Let_def)
qed

lemma computed_header_ok:
  assumes "branching d L cs" "k \<in> ckeys cs"
  shows "header_ok d L L (map (\<lambda>i. get_index k (d + i)) [0..<min 6 L]) cs"
  using assms by (auto simp: header_ok_def intro: branchingD(4))

text \<open>
  Whatever header is used, stored or recomputed, skipping the prefix either ends at the
  child index or shows that the key is absent.
\<close>

lemma skip_prefix_ok:
  assumes b: "branching d L cs" and h: "header_ok d L len p cs"
  shows "skip_prefix len p key d = Some (d + L) \<or>
    (skip_prefix len p key d = None \<and> key \<notin> ckeys cs)"
proof -
  let ?m = "min (min len 6) (16 - d)"
  have m: "?m = min 6 L" "len = L" using h branchingD(2) [OF b] by (auto simp: header_ok_def)
  note f = first_from_props [of 0 "\<lambda>i. p ! i \<noteq> get_index key (d + i)" ?m]
  show ?thesis
  proof (cases "check_prefix len p key d = min 6 len")
    case True
    then show ?thesis using m by (simp add: skip_prefix_def)
  next
    case False
    have "check_prefix len p key d \<le> ?m" unfolding check_prefix_def by (rule first_from_le) simp
    moreover have "check_prefix len p key d \<noteq> ?m"
      using False m by metis
    ultimately have lt: "check_prefix len p key d < ?m" by (rule le_neq_implies_less)
    then have "p ! check_prefix len p key d \<noteq> get_index key (d + check_prefix len p key d)"
      using f unfolding check_prefix_def by blast
    moreover have "check_prefix len p key d < min 6 L" using lt m by simp
    ultimately have "key \<notin> ckeys cs" using h unfolding header_ok_def by metis
    with False show ?thesis by (simp add: skip_prefix_def)
  qed
qed

subsection \<open>Lookup\<close>

lemma find_child_nth:
  assumes "length cs = 16"
  shows "find_child cs (get_index k d) = (let c = cs ! get_index k d in if is_null c then None else Some c)"
  using assms by (simp add: find_child_def Let_def)

lemma wort_get_from_correct:
  "winv d t \<Longrightarrow> wort_get_from t key 8 d = Inr (map_of (entries t) key)"
proof (induction t key "8 :: u32" d rule: wort_get_from.induct)
  case (1 key d)
  then show ?case by simp
next
  case (2 v kl k key d)
  then show ?case by (simp add: leaf_matches_def)
next
  case (3 dep len p cs key d)
  from "3.prems" obtain L where b: "branching d L cs" and h: "dep = d \<longrightarrow> header_ok d L len p cs"
    and w: "list_all (winv (Suc (d + L))) cs" by auto
  let ?s = "if dep = d then Inr (if len \<noteq> 0 then skip_prefix len p key d else Some d)
    else (case computed_path cs d of Inl e \<Rightarrow> Inl e | Inr (len', p') \<Rightarrow> Inr (skip_prefix len' p' key d))"
  have s: "?s = Inr (Some (d + L)) \<or> (?s = Inr None \<and> key \<notin> ckeys cs)"
  proof (cases "dep = d")
    case True
    with skip_prefix_ok [OF b, of len p key] h show ?thesis by (auto simp: header_ok_def)
  next
    case False
    from computed_path_ok [OF b w] obtain k where k: "k \<in> ckeys cs"
      "computed_path cs d = Inr (L, map (\<lambda>i. get_index k (d + i)) [0..<min 6 L])" by blast
    with False skip_prefix_ok [OF b computed_header_ok [OF b k(1)], of key] show ?thesis by simp
  qed
  show ?case
  proof (cases "?s = Inr (Some (d + L))")
    case False
    with s have n: "?s = Inr None" and "key \<notin> keys (WNode dep len p cs)" by auto
    then have "map_of (entries (WNode dep len p cs)) key = None" by (simp only: keys_map_of)
    with n show ?thesis by simp
  next
    case True
    let ?c = "cs ! get_index key (d + L)"
    have len: "length cs = 16" "d + L \<le> 15" using branchingD [OF b] by auto
    have m: "map_of (entries (WNode dep len p cs)) key = map_of (entries ?c) key"
      using entries_child [OF b] by simp
    show ?thesis
    proof (cases "is_null ?c")
      case n: True
      then have "?c = WNull" by (simp add: is_null_iff)
      with m n True len show ?thesis by (simp add: find_child_nth Let_def)
    next
      case n: False
      have fc: "find_child cs (get_index key (d + L)) = Some ?c" using n len by (simp add: find_child_nth Let_def)
      have "winv (Suc (d + L)) ?c" using w len by (simp add: list_all_length)
      with "3.hyps" [OF True refl _ fc] len m show ?thesis using True fc by simp
    qed
  qed
qed

end
