(* ===== verification/Wort_Insert.thy ===== *)
theory Wort_Insert
  imports Wort_Map
begin

text \<open>
  Insertion into the radix tree: \<open>recursive_insert\<close> never fails on a tree of the invariant,
  keeps the invariant, and updates the map at the key.
\<close>

lemma keys_dom: "keys t = dom (map_of (entries t))"
  by (auto simp: keys_def dom_map_of_conv_image_fst)

lemma ckeys_nonempty: "branching d L cs \<Longrightarrow> list_all (winv (Suc (d + L))) cs \<Longrightarrow> \<exists>k. k \<in> ckeys cs"
  by (meson computed_path_ok)

lemma header_okD:
  assumes "header_ok d L len p cs"
  shows "len = L" "length p = min 6 L" "\<And>k j. k \<in> ckeys cs \<Longrightarrow> j < min 6 L \<Longrightarrow> p ! j = get_index k (d + j)"
  using assms by (auto simp: header_ok_def)

lemma ckeysI: "i < length cs \<Longrightarrow> k \<in> keys (cs ! i) \<Longrightarrow> k \<in> ckeys cs"
  by (auto simp: ckeys_nth)

subsection \<open>A node with two children\<close>

definition two_children :: "nat \<Rightarrow> wort_node \<Rightarrow> nat \<Rightarrow> wort_node \<Rightarrow> wort_node list" where
  "two_children i a j b = (replicate 16 WNull)[i := a, j := b]"

lemma nth_two_children:
  "i \<noteq> j \<Longrightarrow> i < 16 \<Longrightarrow> j < 16 \<Longrightarrow> r < 16 \<Longrightarrow>
   two_children i a j b ! r = (if r = j then b else if r = i then a else WNull)"
  by (simp add: two_children_def nth_list_update)

lemma ckeys_two_children:
  assumes "i \<noteq> j" "i < 16" "j < 16"
  shows "ckeys (two_children i a j b) = keys a \<union> keys b"
proof -
  have "length (two_children i a j b) = 16" by (simp add: two_children_def)
  then have "k \<in> ckeys (two_children i a j b) \<longleftrightarrow> k \<in> keys a \<union> keys b" for k
    unfolding ckeys_nth using assms by (auto simp: nth_two_children split: if_splits)
  then show ?thesis by blast
qed

lemma branching_two_children:
  assumes ij: "i \<noteq> j" "i < 16" "j < 16" and nn: "\<not> is_null a" "\<not> is_null b" and dL: "d + L \<le> 15"
    and ka: "\<And>k. k \<in> keys a \<Longrightarrow> get_index k (d + L) = i" and kb: "\<And>k. k \<in> keys b \<Longrightarrow> get_index k (d + L) = j"
    and ag: "\<And>k k' r. k \<in> keys a \<union> keys b \<Longrightarrow> k' \<in> keys a \<union> keys b \<Longrightarrow> r < L \<Longrightarrow>
      get_index k (d + r) = get_index k' (d + r)"
  shows "branching d L (two_children i a j b)"
  unfolding branching_def
proof (intro conjI)
  show "\<exists>r<16. \<exists>q<r. \<not> is_null (two_children i a j b ! q) \<and> \<not> is_null (two_children i a j b ! r)"
  proof (cases "i < j")
    case True
    with nn ij show ?thesis by (intro exI [of _ j] conjI exI [of _ i]) (simp_all add: nth_two_children)
  next
    case False
    with nn ij show ?thesis by (intro exI [of _ i] conjI exI [of _ j]) (simp_all add: nth_two_children)
  qed
  show "\<forall>r<16. \<forall>k\<in>keys (two_children i a j b ! r). get_index k (d + L) = r"
  proof (intro allI impI ballI)
    fix r k assume "r < 16" "k \<in> keys (two_children i a j b ! r)"
    then show "get_index k (d + L) = r"
      using ka kb unfolding nth_two_children [OF ij \<open>r < 16\<close>] by (cases "r = j"; cases "r = i") simp_all
  qed
  show "\<forall>k\<in>ckeys (two_children i a j b). \<forall>k'\<in>ckeys (two_children i a j b). \<forall>r<L.
      get_index k (d + r) = get_index k' (d + r)"
    unfolding ckeys_two_children [OF ij] using ag by blast
qed (use dL in \<open>simp_all add: two_children_def\<close>)

lemma list_all_two_children:
  assumes "P a" "P b" "P WNull"
  shows "list_all P (two_children i a j b)"
proof -
  have "set (two_children i a j b) \<subseteq> insert b (insert a (set (replicate 16 WNull)))"
    unfolding two_children_def by (meson insert_mono order_trans set_update_subset_insert)
  with assms show ?thesis unfolding list_all_iff by auto
qed

lemma map_two_children:
  assumes b: "branching d L (two_children i a j (WLeaf v kl key))" and ij: "i \<noteq> j" "i < 16" "j < 16"
  shows "map_of (concat (map entries (two_children i a j (WLeaf v kl key)))) = (map_of (entries a))(key \<mapsto> v)"
proof
  fix k
  let ?cs = "two_children i a j (WLeaf v kl key)"
  have kj: "get_index key (d + L) = j" using branchingD(3) [OF b, of j key] ij by (simp add: nth_two_children)
  have ki: "get_index k (d + L) = i" if "k \<in> keys a"
    using branchingD(3) [OF b, of i k] that ij by (simp add: nth_two_children)
  have a: "map_of (entries a) k = None" if "get_index k (d + L) \<noteq> i"
    using ki that keys_map_of by blast
  show "map_of (concat (map entries ?cs)) k = ((map_of (entries a))(key \<mapsto> v)) k"
    unfolding entries_child [OF b] using kj a ij by (auto simp: nth_two_children)
qed

subsection \<open>A child replaced\<close>

lemma child_replace:
  assumes b: "branching d L cs"
    and pre: "\<And>k r. k \<in> ckeys cs \<Longrightarrow> r < L \<Longrightarrow> get_index key (d + r) = get_index k (d + r)"
    and nn: "\<not> is_null t'"
    and kt: "keys t' \<subseteq> insert key (keys (cs ! get_index key (d + L)))"
  defines "cs' \<equiv> cs[get_index key (d + L) := t']"
  shows "branching d L cs'" "ckeys cs' \<subseteq> insert key (ckeys cs)"
    "map_of (concat (map entries cs')) k =
      (if get_index k (d + L) = get_index key (d + L) then map_of (entries t') k
       else map_of (concat (map entries cs)) k)"
proof -
  let ?i = "get_index key (d + L)"
  have len: "length cs = 16" by (rule branchingD(1) [OF b])
  have len': "length cs' = 16" using len by (simp add: cs'_def)
  have nth: "cs' ! r = (if r = ?i then t' else cs ! r)" if "r < 16" for r
    using that len by (simp add: cs'_def nth_list_update)
  show ck: "ckeys cs' \<subseteq> insert key (ckeys cs)"
  proof
    fix k assume "k \<in> ckeys cs'"
    then obtain r where r: "r < 16" "k \<in> keys (cs' ! r)" using len' by (auto simp: ckeys_nth)
    then have "k = key \<or> k \<in> keys (cs ! r)" using nth kt by (cases "r = ?i") auto
    then show "k \<in> insert key (ckeys cs)" using ckeysI [of r cs k] len r(1) by auto
  qed
  show b': "branching d L cs'"
    unfolding branching_def
  proof (intro conjI)
    show "\<exists>j<16. \<exists>i<j. \<not> is_null (cs' ! i) \<and> \<not> is_null (cs' ! j)"
    proof -
      from b obtain i j where "i < j" "j < 16" "\<not> is_null (cs ! i)" "\<not> is_null (cs ! j)"
        unfolding branching_def by auto
      with nn len have "\<not> is_null (cs' ! i)" "\<not> is_null (cs' ! j)"
        unfolding cs'_def by (simp_all add: nth_list_update)
      with \<open>i < j\<close> \<open>j < 16\<close> show ?thesis by blast
    qed
    show "\<forall>r<16. \<forall>k\<in>keys (cs' ! r). get_index k (d + L) = r"
      using branchingD(3) [OF b] kt nth by (auto split: if_splits)
    show "\<forall>k\<in>ckeys cs'. \<forall>k'\<in>ckeys cs'. \<forall>j<L. get_index k (d + j) = get_index k' (d + j)"
      using ck branchingD(4) [OF b] pre by (metis insertE subsetD)
  qed (use len branchingD(2) [OF b] in \<open>simp_all add: cs'_def\<close>)
  show "map_of (concat (map entries cs')) k =
      (if get_index k (d + L) = ?i then map_of (entries t') k else map_of (concat (map entries cs)) k)"
    unfolding entries_child [OF b'] entries_child [OF b] by (simp add: nth)
qed

lemma header_ok_insert:
  assumes h: "header_ok d L len p cs" and ck: "ckeys cs' \<subseteq> insert key (ckeys cs)" and k0: "k0 \<in> ckeys cs"
    and ag: "\<forall>k\<in>ckeys cs. \<forall>j<L. get_index k (d + j) = get_index key (d + j)"
  shows "header_ok d L len p cs'"
proof -
  have "p ! j = get_index key (d + j)" if "j < min 6 L" for j
    using header_okD(3) [OF h k0 that] ag k0 that by simp
  with ck header_okD [OF h] show ?thesis unfolding header_ok_def by auto
qed

lemma child_replace_winv:
  assumes b: "branching d L cs" and h: "header_ok d L len p cs" and w: "list_all (winv (Suc (d + L))) cs"
    and ag: "\<forall>k\<in>ckeys cs. \<forall>j<L. get_index k (d + j) = get_index key (d + j)"
    and r: "winv (Suc (d + L)) t'" "\<not> is_null t'" "keys t' \<subseteq> insert key (keys (cs ! get_index key (d + L)))"
  shows "winv d (WNode d len p (cs[get_index key (d + L) := t']))"
proof -
  have pre: "get_index key (d + q) = get_index k (d + q)" if "k \<in> ckeys cs" "q < L" for k q
    using ag that by simp
  have cu: "branching d L (cs[get_index key (d + L) := t'])"
    "ckeys (cs[get_index key (d + L) := t']) \<subseteq> insert key (ckeys cs)"
    by (rule child_replace [OF b pre r(2,3)]; assumption)+
  from ckeys_nonempty [OF b w] obtain k0 where k0: "k0 \<in> ckeys cs" by blast
  have "d + L \<le> 15" by (rule branchingD(2) [OF b])
  with cu(1) header_ok_insert [OF h cu(2) k0 ag] list_all_update [OF w r(1)]
  show ?thesis by (auto intro!: exI [of _ L])
qed

lemma child_replace_map:
  assumes b: "branching d L cs"
    and ag: "\<forall>k\<in>ckeys cs. \<forall>j<L. get_index k (d + j) = get_index key (d + j)"
    and nn: "\<not> is_null t'"
    and m: "map_of (entries t') = map_of (entries (cs ! get_index key (d + L))) \<and> g = map_of (concat (map entries cs)) \<or>
      map_of (entries t') = (map_of (entries (cs ! get_index key (d + L))))(key \<mapsto> v) \<and>
      g = (map_of (concat (map entries cs)))(key \<mapsto> v)"
  shows "map_of (concat (map entries (cs[get_index key (d + L) := t']))) = g"
proof
  fix k
  let ?i = "get_index key (d + L)"
  have kt: "keys t' \<subseteq> insert key (keys (cs ! ?i))" using m by (auto simp: keys_dom)
  have pre: "get_index key (d + q) = get_index k (d + q)" if "k \<in> ckeys cs" "q < L" for k q
    using ag that by simp
  have e: "map_of (concat (map entries (cs[?i := t']))) k =
      (if get_index k (d + L) = ?i then map_of (entries t') k else map_of (concat (map entries cs)) k)"
    by (rule child_replace [OF b pre nn kt]; assumption)
  show "map_of (concat (map entries (cs[?i := t']))) k = g k"
    unfolding e using m by (cases "get_index k (d + L) = ?i") (auto simp: entries_child [OF b])
qed

subsection \<open>Where the key leaves a prefix\<close>

lemma minimum_node:
  assumes "branching d L cs" "list_all (winv (Suc (d + L))) cs"
  shows "\<exists>v k. minimum (WNode dep len p cs) = Inr (WLeaf v 8 k) \<and> k \<in> ckeys cs"
proof -
  have "d + L \<le> 15" by (rule branchingD(2) [OF assms(1)])
  with assms have "winv d (WNode (Suc d) len p cs)" by (auto intro!: exI [of _ L])
  from minimum_leaf [OF this] show ?thesis by simp
qed

lemma first_mismatch:
  assumes ij: "i \<le> m" and r: "first_from (\<lambda>j. f j \<noteq> g j) i m = r"
    and lo: "\<And>j. j < i \<Longrightarrow> f j = (g j :: nat)"
  shows "r \<le> m" "\<And>j. j < r \<Longrightarrow> f j = g j" "r < m \<Longrightarrow> f r \<noteq> g r" "i \<le> r"
proof -
  note p = first_from_props [of i "\<lambda>j. f j \<noteq> g j" m, unfolded r]
  show "r \<le> m" "r < m \<Longrightarrow> f r \<noteq> g r" "i \<le> r" using p ij by auto
  show "f j = g j" if "j < r" for j
    using p lo that by (cases "j < i") auto
qed

text \<open>
  The depth found by \<open>prefix_mismatch\<close>, capped by the prefix length: below it the key agrees
  with every key of the node, and at it with none.
\<close>

lemma prefix_mismatch_ok:
  assumes b: "branching d L cs" and h: "header_ok d L len p cs" and w: "list_all (winv (Suc (d + L))) cs"
  shows "\<exists>pd. prefix_mismatch len p cs key d = Inr pd \<and>
    (\<forall>k\<in>ckeys cs. \<forall>j<min pd L. get_index k (d + j) = get_index key (d + j)) \<and>
    (pd < L \<longrightarrow> (\<forall>k\<in>ckeys cs. get_index k (d + pd) \<noteq> get_index key (d + pd)))"
proof -
  note hd = header_okD [OF h]
  have dL: "d + L \<le> 15" by (rule branchingD(2) [OF b])
  have m: "min (min 6 len) (16 - d) = min 6 L" using hd(1) dL by simp
  define idx where "idx = first_from (\<lambda>i. p ! i \<noteq> get_index key (d + i)) 0 (min 6 L)"
  note f = first_mismatch [OF le0 idx_def [symmetric]]
  have below: "get_index k (d + j) = get_index key (d + j)" if "k \<in> ckeys cs" "j < idx" for k j
  proof -
    have "j < min 6 L" using f(1) that(2) by simp
    from hd(3) [OF that(1) this] f(2) [of j] that(2) show ?thesis by simp
  qed
  show ?thesis
  proof (cases "idx < min 6 L")
    case True
    have "get_index k (d + idx) \<noteq> get_index key (d + idx)" if "k \<in> ckeys cs" for k
      using hd(3) [OF that True] f(3) True by simp
    moreover have "prefix_mismatch len p cs key d = Inr idx"
      unfolding prefix_mismatch_def Let_def m idx_def [symmetric] using True by simp
    ultimately show ?thesis using below by auto
  next
    case False
    then have idx: "idx = min 6 L" using f(1) by linarith
    show ?thesis
    proof (cases "L > 6")
      case short: False
      then have "prefix_mismatch len p cs key d = Inr idx"
        unfolding prefix_mismatch_def Let_def m idx_def [symmetric] using False hd(1) by simp
      with short idx below show ?thesis by auto
    next
      case long: True
      from minimum_node [OF b w] obtain v k0 where
        mn: "minimum (WNode d len p cs) = Inr (WLeaf v 8 k0)" and k0: "k0 \<in> ckeys cs" by blast
      define r where "r = first_from (\<lambda>i. get_index k0 (d + i) \<noteq> get_index key (d + i)) 6 (16 - d)"
      have i6: "idx = 6" using idx long by simp
      have "6 \<le> 16 - d" using dL long by simp
      note g = first_mismatch [OF this r_def [symmetric] below [OF k0, unfolded i6]]
      have eq: "prefix_mismatch len p cs key d = Inr r"
        unfolding prefix_mismatch_def Let_def m idx_def [symmetric]
        using False hd(1) long mn by (simp add: leaf_key_def i6 r_def)
      have k_k0: "get_index k (d + j) = get_index k0 (d + j)" if "k \<in> ckeys cs" "j < L" for k j
        by (rule branchingD(4) [OF b that(1) k0 that(2)])
      have "get_index k (d + j) = get_index key (d + j)" if "k \<in> ckeys cs" "j < min r L" for k j
        using k_k0 [OF that(1), of j] g(2) [of j] that(2) by simp
      moreover have "get_index k (d + r) \<noteq> get_index key (d + r)" if "r < L" "k \<in> ckeys cs" for k
        using k_k0 [OF that(2,1)] g(3) that(1) dL by simp
      ultimately show ?thesis using eq by blast
    qed
  qed
qed

lemma classify_ok:
  assumes b: "branching d L cs" and h: "header_ok d L len p cs" and w: "list_all (winv (Suc (d + L))) cs"
  shows "(classify len p cs key d = Inr (Descend (d + L)) \<and>
      (\<forall>k\<in>ckeys cs. \<forall>j<L. get_index k (d + j) = get_index key (d + j))) \<or>
    (\<exists>pd<L. classify len p cs key d = Inr (Split pd) \<and>
      (\<forall>k\<in>ckeys cs. \<forall>j<pd. get_index k (d + j) = get_index key (d + j)) \<and>
      (\<forall>k\<in>ckeys cs. get_index k (d + pd) \<noteq> get_index key (d + pd)))"
proof (cases "L = 0")
  case True
  then show ?thesis using header_okD(1) [OF h] by (simp add: classify_def)
next
  case False
  from prefix_mismatch_ok [OF assms, of key] obtain pd where
    pd: "prefix_mismatch len p cs key d = Inr pd"
    "\<forall>k\<in>ckeys cs. \<forall>j<min pd L. get_index k (d + j) = get_index key (d + j)"
    "pd < L \<longrightarrow> (\<forall>k\<in>ckeys cs. get_index k (d + pd) \<noteq> get_index key (d + pd))" by blast
  show ?thesis
  proof (cases "pd < L")
    case True
    then show ?thesis using pd header_okD(1) [OF h] False
      by (intro disjI2 exI [of _ pd]) (simp add: classify_def min_absorb1)
  next
    case ge: False
    then show ?thesis using pd header_okD(1) [OF h] False
      by (intro disjI1) (simp add: classify_def min_absorb2)
  qed
qed

subsection \<open>The old node below a split\<close>

lemma branching_suffix:
  assumes b: "branching d L cs" and pd: "pd < L"
  shows "branching (d + pd + 1) (L - (pd + 1)) cs"
proof -
  have e: "d + pd + 1 + (L - (pd + 1)) = d + L" using pd by simp
  show ?thesis unfolding branching_def e
  proof (intro conjI)
    show "\<forall>k\<in>ckeys cs. \<forall>k'\<in>ckeys cs. \<forall>j<L - (pd + 1).
        get_index k (d + pd + 1 + j) = get_index k' (d + pd + 1 + j)"
    proof (intro ballI allI impI)
      fix k k' j assume "k \<in> ckeys cs" "k' \<in> ckeys cs" "j < L - (pd + 1)"
      with branchingD(4) [OF b, of k k' "pd + 1 + j"] pd
      show "get_index k (d + pd + 1 + j) = get_index k' (d + pd + 1 + j)"
        by (simp add: add.assoc)
    qed
  qed (use b in \<open>unfold branching_def, blast+\<close>)
qed

lemma split_header_ok:
  assumes b: "branching d L cs" and h: "header_ok d L len p cs" and w: "list_all (winv (Suc (d + L))) cs"
    and pd: "pd < L"
  shows "\<exists>c hp. split_header len p cs d pd = Inr (c, d + pd + 1, L - (pd + 1), hp) \<and>
    (\<forall>k\<in>ckeys cs. get_index k (d + pd) = c) \<and> header_ok (d + pd + 1) (L - (pd + 1)) (L - (pd + 1)) hp cs"
proof (cases "L \<le> 6")
  case True
  let ?hp = "take (min 6 (L - (pd + 1))) (drop (pd + 1) p)"
  note hd = header_okD [OF h]
  have "header_ok (d + pd + 1) (L - (pd + 1)) (L - (pd + 1)) ?hp cs"
    unfolding header_ok_def
  proof (intro conjI ballI allI impI)
    show "length ?hp = min 6 (L - (pd + 1))" using True hd(2) by simp
    fix k j assume "k \<in> ckeys cs" "j < min 6 (L - (pd + 1))"
    then show "?hp ! j = get_index k (d + pd + 1 + j)"
      using hd(3) [of k "pd + 1 + j"] True hd(2) by (simp add: add.assoc)
  qed simp
  moreover have "\<forall>k\<in>ckeys cs. get_index k (d + pd) = p ! pd" using hd(3) True pd by simp
  ultimately show ?thesis using True hd(1) by (auto simp: split_header_def Let_def)
next
  case False
  from minimum_node [OF b w] obtain v k0 where
    mn: "minimum (WNode d len p cs) = Inr (WLeaf v 8 k0)" and k0: "k0 \<in> ckeys cs" by blast
  have "\<forall>k\<in>ckeys cs. get_index k (d + pd) = get_index k0 (d + pd)"
    using branchingD(4) [OF b _ k0 pd] by blast
  with computed_header_ok [OF branching_suffix [OF b pd] k0] False mn header_okD(1) [OF h]
  show ?thesis by (auto simp: split_header_def Let_def leaf_key_def)
qed

lemma recovery_prefix_ok:
  assumes "branching d L cs" "list_all (winv (Suc (d + L))) cs"
  shows "\<exists>p. recovery_prefix cs d = Inr (d, L, p) \<and> header_ok d L L p cs"
proof -
  from computed_path_ok [OF assms] obtain k where k: "k \<in> ckeys cs"
    "computed_path cs d = Inr (L, map (\<lambda>i. get_index k (d + i)) [0..<min 6 L])" by blast
  with computed_header_ok [OF assms(1) k(1)] show ?thesis by (simp add: recovery_prefix_def)
qed

subsection \<open>Insertion\<close>

text \<open>The bytes the nodes and leaves of a tree occupy, in the counter's arithmetic.\<close>

fun node_bytes :: "wort_node \<Rightarrow> u64" where
  "node_bytes WNull = 0"
| "node_bytes (WLeaf v kl k) = sizeof_leaf"
| "node_bytes (WNode d l p cs) = sizeof_node16 + sum_list (map node_bytes cs)"

lemma node_bytes_two_children:
  assumes "i \<noteq> j" "i < 16" "j < 16"
  shows "sum_list (map node_bytes (two_children i a j b)) = node_bytes a + node_bytes b"
proof -
  have "sum_list (map node_bytes (replicate 16 WNull)) = 0" by (simp add: sum_list_replicate)
  with assms show ?thesis
    unfolding two_children_def by (simp add: sum_list_map_update del: map_replicate)
qed

text \<open>No header is stale: every node stores the depth at which it hangs.\<close>

fun fresh :: "nat \<Rightarrow> wort_node \<Rightarrow> bool" where
  "fresh d WNull = True"
| "fresh d (WLeaf v kl k) = True"
| "fresh d (WNode dep len p cs) = (dep = d \<and> list_all (fresh (Suc (d + len))) cs)"

definition insert_ok :: "nat \<Rightarrow> wort_node \<Rightarrow> u64 \<Rightarrow> u64 \<Rightarrow> wort_node \<times> u64 option \<times> u64 \<Rightarrow> bool" where
  "insert_ok d t key v r = (case r of (t', old, m) \<Rightarrow>
     winv d t' \<and> \<not> is_null t' \<and> map_of (entries t') = (map_of (entries t))(key \<mapsto> v) \<and>
     old = map_of (entries t) key \<and> node_bytes t' = node_bytes t + m \<and> (fresh d t \<longrightarrow> fresh d t'))"

lemma insert_leaf_ok:
  assumes ne: "lk \<noteq> key" and ag: "\<And>j. j < d \<Longrightarrow> get_index lk j = get_index key j"
  shows "\<exists>r. recursive_insert (WLeaf lv 8 lk) key 8 v d = Inr r \<and> insert_ok d (WLeaf lv 8 lk) key v r"
proof -
  define L where "L = longest_common_prefix lk key d"
  have l: "d + L \<le> 15" "get_index lk (d + L) \<noteq> get_index key (d + L)"
    "\<And>j. j < L \<Longrightarrow> get_index lk (d + j) = get_index key (d + j)"
    unfolding L_def by (rule longest_common_prefix_props [OF ne ag]; assumption)+
  let ?i = "get_index lk (d + L)" and ?j = "get_index key (d + L)"
  let ?p = "map (\<lambda>i. get_index key (d + i)) [0..<min 6 L]"
  let ?cs = "two_children ?i (WLeaf lv 8 lk) ?j (WLeaf v 8 key)"
  have ij: "?i \<noteq> ?j" "?i < 16" "?j < 16" using l(2) by simp_all
  have ag': "get_index k (d + r) = get_index k' (d + r)"
    if "k \<in> {lk, key}" "k' \<in> {lk, key}" "r < L" for k k' r
    using l(3) that by auto
  have b: "branching d L ?cs"
  proof (rule branching_two_children [OF ij _ _ l(1)])
    show "get_index k (d + r) = get_index k' (d + r)"
      if "k \<in> keys (WLeaf lv 8 lk) \<union> keys (WLeaf v 8 key)"
        "k' \<in> keys (WLeaf lv 8 lk) \<union> keys (WLeaf v 8 key)" "r < L" for k k' r
      using ag' that by auto
  qed simp_all
  have "header_ok d L L ?p ?cs"
    by (rule computed_header_ok [OF b]) (simp add: ckeys_two_children [OF ij])
  moreover have "list_all (winv (Suc (d + L))) ?cs" by (rule list_all_two_children) simp_all
  moreover have "L < 16" using l(1) by simp
  ultimately have w: "winv d (WNode d L ?p ?cs)" using b by auto
  have m: "map_of (entries (WNode d L ?p ?cs)) = (map_of (entries (WLeaf lv 8 lk)))(key \<mapsto> v)"
    using map_two_children [OF b ij] by simp
  have bytes: "node_bytes (WNode d L ?p ?cs) = node_bytes (WLeaf lv 8 lk) + (sizeof_node16 + sizeof_leaf)"
    using node_bytes_two_children [OF ij] by simp
  have fr: "fresh d (WNode d L ?p ?cs)" by (simp add: list_all_two_children)
  have "recursive_insert (WLeaf lv 8 lk) key 8 v d =
      Inr (WNode d L ?p ?cs, None, sizeof_node16 + sizeof_leaf)"
    using ne l(1) by (simp add: leaf_matches_def split_leaf_def Let_def L_def two_children_def)
  with w m bytes ne fr show ?thesis unfolding insert_ok_def by simp
qed

text \<open>
  The new inner node of a split, whatever header the old node below it carries: the new one,
  or the one that a crash left behind.
\<close>

lemma split_old_winv:
  assumes b: "branching d L cs" and w: "list_all (winv (Suc (d + L))) cs" and pd: "pd < L"
    and h: "od = d + pd + 1 \<longrightarrow> header_ok (d + pd + 1) (L - (pd + 1)) ol op cs"
  shows "winv (Suc (d + pd)) (WNode od ol op cs)"
proof -
  have "d + L \<le> 15" by (rule branchingD(2) [OF b])
  moreover have "Suc (Suc (d + pd) + (L - (pd + 1))) = Suc (d + L)" using pd by simp
  moreover have "branching (Suc (d + pd)) (L - (pd + 1)) cs" using branching_suffix [OF b pd] by simp
  ultimately show ?thesis using w h
    by (simp only: winv.simps, intro exI [of _ "L - (pd + 1)"]) auto
qed

lemma split_node_ok:
  assumes b: "branching d L cs" and h: "header_ok d L len p cs" and w: "list_all (winv (Suc (d + L))) cs"
    and pd: "pd < L"
    and ag: "\<forall>k\<in>ckeys cs. \<forall>j<pd. get_index k (d + j) = get_index key (d + j)"
    and ne: "\<forall>k\<in>ckeys cs. get_index k (d + pd) \<noteq> get_index key (d + pd)"
    and kc: "\<forall>k\<in>ckeys cs. get_index k (d + pd) = c"
    and w_old: "winv (Suc (d + pd)) (WNode od ol op cs)"
  shows "winv d (split_node d pd p (WNode od ol op cs) c (WLeaf v 8 key) (get_index key (d + pd)))"
    "map_of (entries (split_node d pd p (WNode od ol op cs) c (WLeaf v 8 key) (get_index key (d + pd)))) =
      (map_of (concat (map entries cs)))(key \<mapsto> v)"
    "node_bytes (split_node d pd p (WNode od ol op cs) c (WLeaf v 8 key) (get_index key (d + pd))) =
      sizeof_node16 + (sizeof_node16 + sum_list (map node_bytes cs) + sizeof_leaf)"
proof -
  let ?j = "get_index key (d + pd)" and ?old = "WNode od ol op cs"
  let ?cs = "two_children c ?old ?j (WLeaf v 8 key)"
  let ?t = "WNode d pd (take (min 6 pd) p) ?cs"
  have dL: "d + L \<le> 15" by (rule branchingD(2) [OF b])
  from ckeys_nonempty [OF b w] obtain k0 where k0: "k0 \<in> ckeys cs" by blast
  have ij: "c \<noteq> ?j" "c < 16" "?j < 16" using k0 kc ne by auto
  have bn: "branching d pd ?cs"
  proof (rule branching_two_children [OF ij])
    fix k k' r
    assume "k \<in> keys ?old \<union> keys (WLeaf v 8 key)" "k' \<in> keys ?old \<union> keys (WLeaf v 8 key)" and r: "r < pd"
    then have "get_index k (d + r) = get_index key (d + r)" "get_index k' (d + r) = get_index key (d + r)"
      using ag by auto
    then show "get_index k (d + r) = get_index k' (d + r)" by simp
  qed (use kc dL pd in auto)
  have hn: "header_ok d pd pd (take (min 6 pd) p) ?cs"
    unfolding header_ok_def ckeys_two_children [OF ij]
  proof (intro conjI ballI allI impI)
    show "length (take (min 6 pd) p) = min 6 pd" using header_okD(2) [OF h] pd by simp
    fix k j assume k: "k \<in> keys ?old \<union> keys (WLeaf v 8 key)" and j: "j < min 6 pd"
    have "p ! j = get_index k0 (d + j)" using header_okD(3) [OF h k0, of j] j pd by simp
    moreover have "get_index k (d + j) = get_index key (d + j)" using k j ag by auto
    moreover have "get_index k0 (d + j) = get_index key (d + j)" using k0 j ag by auto
    ultimately show "take (min 6 pd) p ! j = get_index k (d + j)" using j by simp
  qed simp
  have e: "split_node d pd p ?old c (WLeaf v 8 key) ?j = ?t"
    by (simp add: split_node_def two_children_def)
  have "list_all (winv (Suc (d + pd))) ?cs"
    by (rule list_all_two_children, rule w_old) simp_all
  with bn hn dL pd show "winv d (split_node d pd p ?old c (WLeaf v 8 key) ?j)"
    unfolding e by (auto intro!: exI [of _ pd])
  show "map_of (entries (split_node d pd p ?old c (WLeaf v 8 key) ?j)) =
      (map_of (concat (map entries cs)))(key \<mapsto> v)"
    unfolding e using map_two_children [OF bn ij] by simp
  show "node_bytes (split_node d pd p ?old c (WLeaf v 8 key) ?j) =
      sizeof_node16 + (sizeof_node16 + sum_list (map node_bytes cs) + sizeof_leaf)"
    unfolding e using node_bytes_two_children [OF ij] by simp
qed

lemma insert_split_ok:
  assumes b: "branching d L cs" and h: "header_ok d L len p cs" and w: "list_all (winv (Suc (d + L))) cs"
    and pd: "pd < L"
    and ag: "\<forall>k\<in>ckeys cs. \<forall>j<pd. get_index k (d + j) = get_index key (d + j)"
    and ne: "\<forall>k\<in>ckeys cs. get_index k (d + pd) \<noteq> get_index key (d + pd)"
    and sh: "split_header len p cs d pd = Inr (c, hd_d, hl, hp)"
    and l0: "dep = d \<longrightarrow> len0 = L"
  shows "insert_ok d (WNode dep len0 p0 cs) key v
    (split_node d pd p (WNode hd_d hl hp cs) c (WLeaf v 8 key) (get_index key (d + pd)),
     None, sizeof_node16 + sizeof_leaf)"
proof -
  let ?old = "WNode hd_d hl hp cs" and ?j = "get_index key (d + pd)"
  let ?t = "split_node d pd p ?old c (WLeaf v 8 key) ?j"
  from split_header_ok [OF b h w pd] sh have e: "hd_d = d + pd + 1" "hl = L - (pd + 1)"
    and kc: "\<forall>k\<in>ckeys cs. get_index k (d + pd) = c" and h': "header_ok (d + pd + 1) hl hl hp cs" by auto
  have w_old: "winv (Suc (d + pd)) ?old"
    using split_old_winv [OF b w pd, of hd_d hl hp] h' e by simp
  note s = split_node_ok [OF b h w pd ag ne kc w_old]
  have "fresh d (WNode dep len0 p0 cs) \<longrightarrow> fresh d ?t"
  proof
    assume f: "fresh d (WNode dep len0 p0 cs)"
    have "Suc (hd_d + hl) = Suc (d + L)" using e pd by simp
    with f e l0 have "fresh (Suc (d + pd)) ?old" by auto
    from list_all_two_children [of "fresh (Suc (d + pd))", OF this] show "fresh d ?t"
      by (simp add: split_node_def two_children_def)
  qed
  moreover have "key \<notin> keys (WNode dep len0 p0 cs)" using ne by auto
  then have "map_of (entries (WNode dep len0 p0 cs)) key = None" by (simp only: keys_map_of)
  moreover have "\<not> is_null ?t" by (simp add: split_node_def)
  ultimately show ?thesis unfolding insert_ok_def using s by (simp add: add_ac)
qed

text \<open>The child chosen by the key is replaced, or filled when it is empty.\<close>

lemma insert_descend_ok:
  assumes b: "branching d L cs" and h: "header_ok d L len p cs" and w: "list_all (winv (Suc (d + L))) cs"
    and ag: "\<forall>k\<in>ckeys cs. \<forall>j<L. get_index k (d + j) = get_index key (d + j)"
    and r: "insert_ok (Suc (d + L)) (cs ! get_index key (d + L)) key v (c', old, m)"
    and l0: "dep = d \<longrightarrow> len0 = L"
  shows "insert_ok d (WNode dep len0 p0 cs) key v (WNode d len p (cs[get_index key (d + L) := c']), old, m)"
proof -
  let ?i = "get_index key (d + L)"
  from r have r': "winv (Suc (d + L)) c'" "\<not> is_null c'"
    "map_of (entries c') = (map_of (entries (cs ! ?i)))(key \<mapsto> v)" "old = map_of (entries (cs ! ?i)) key"
    "node_bytes c' = node_bytes (cs ! ?i) + m"
    "fresh (Suc (d + L)) (cs ! ?i) \<Longrightarrow> fresh (Suc (d + L)) c'" by (auto simp: insert_ok_def)
  have len: "length cs = 16" by (rule branchingD(1) [OF b])
  have kt: "keys c' \<subseteq> insert key (keys (cs ! ?i))" using r'(3) by (auto simp: keys_dom)
  have "winv d (WNode d len p (cs[?i := c']))"
    by (rule child_replace_winv [OF b h w ag r'(1,2) kt])
  moreover have cu: "map_of (concat (map entries (cs[?i := c']))) = (map_of (concat (map entries cs)))(key \<mapsto> v)"
    using r'(3) by (intro child_replace_map [OF b ag r'(2), where v = v]) simp
  moreover have "fresh d (WNode dep len0 p0 cs) \<longrightarrow> fresh d (WNode d len p (cs[?i := c']))"
  proof
    assume f: "fresh d (WNode dep len0 p0 cs)"
    then have f': "list_all (fresh (Suc (d + L))) cs" using l0 by simp
    then have "fresh (Suc (d + L)) c'" using r'(6) len by (simp add: list_all_length)
    from list_all_update [OF f' this] show "fresh d (WNode d len p (cs[?i := c']))"
      using header_okD(1) [OF h] by simp
  qed
  moreover have "node_bytes (WNode d len p (cs[?i := c'])) = node_bytes (WNode dep len0 p0 cs) + m"
    using len r'(5) by (simp add: sum_list_map_update)
  ultimately show ?thesis
    unfolding insert_ok_def using r'(4) entries_child [OF b, of key] by simp
qed

lemma child_agree:
  assumes b: "branching d L cs" and pre: "\<And>k j. k \<in> ckeys cs \<Longrightarrow> j < d \<Longrightarrow> get_index k j = get_index key j"
    and ag: "\<forall>k\<in>ckeys cs. \<forall>j<L. get_index k (d + j) = get_index key (d + j)"
    and k: "k \<in> keys (cs ! get_index key (d + L))" and j: "j < Suc (d + L)"
  shows "get_index k j = get_index key j"
proof -
  have kc: "k \<in> ckeys cs"
    using ckeysI [of "get_index key (d + L)" cs k] k branchingD(1) [OF b] by simp
  consider "j < d" | "d \<le> j" "j < d + L" | "j = d + L" using j by linarith
  then show ?thesis
  proof cases
    case 1
    with kc pre show ?thesis by simp
  next
    case 2
    with ag kc show ?thesis by (metis le_add_diff_inverse nat_add_left_cancel_less)
  next
    case 3
    with branchingD(3) [OF b _ k] show ?thesis by simp
  qed
qed

lemma recursive_insert_correct:
  "winv d t \<Longrightarrow> (\<And>k j. k \<in> keys t \<Longrightarrow> j < d \<Longrightarrow> get_index k j = get_index key j) \<Longrightarrow>
   \<exists>r. recursive_insert t key 8 v d = Inr r \<and> insert_ok d t key v r"
proof (induction t arbitrary: d rule: wort_node.induct)
  case WNull
  then show ?case by (simp add: insert_ok_def)
next
  case (WLeaf lv kl lk)
  then show ?case
    using insert_leaf_ok [of lk key d lv v]
    by (cases "lk = key") (auto simp: insert_ok_def leaf_matches_def fun_upd_def)
next
  case (WNode dep len0 p0 cs)
  from WNode.prems(1) obtain L where b: "branching d L cs" and h0: "dep = d \<longrightarrow> header_ok d L len0 p0 cs"
    and w: "list_all (winv (Suc (d + L))) cs" by auto
  have dL: "d + L \<le> 15" and len16: "length cs = 16" using branchingD [OF b] by auto
  have l0: "dep = d \<longrightarrow> len0 = L" using h0 header_okD(1) [of d L len0 p0 cs] by blast
  obtain p where hd: "(if dep \<noteq> d then recovery_prefix cs d else Inr (dep, len0, p0)) = Inr (d, L, p)"
    and h: "header_ok d L L p cs"
  proof (cases "dep = d")
    case True
    with h0 that [of p0] header_okD(1) [of d L len0 p0 cs] show ?thesis by simp
  next
    case False
    with recovery_prefix_ok [OF b w] that show ?thesis by auto
  qed
  from classify_ok [OF b h w, of key] consider
      (down) "classify L p cs key d = Inr (Descend (d + L))"
        "\<forall>k\<in>ckeys cs. \<forall>j<L. get_index k (d + j) = get_index key (d + j)"
    | (split) pd where "pd < L" "classify L p cs key d = Inr (Split pd)"
        "\<forall>k\<in>ckeys cs. \<forall>j<pd. get_index k (d + j) = get_index key (d + j)"
        "\<forall>k\<in>ckeys cs. get_index k (d + pd) \<noteq> get_index key (d + pd)" by blast
  then show ?case
  proof cases
    case split
    from split_header_ok [OF b h w split(1)] obtain c hd_d hl hp where
      sh: "split_header L p cs d pd = Inr (c, hd_d, hl, hp)" by blast
    from insert_split_ok [OF b h w split(1,3,4) sh l0] hd sh split(1,2) dL show ?thesis by simp
  next
    case down
    let ?i = "get_index key (d + L)"
    have sub: "cs ! ?i \<in> set cs" using len16 by simp
    have wc: "winv (Suc (d + L)) (cs ! ?i)" using w len16 by (simp add: list_all_length)
    have agc: "get_index k j = get_index key j" if k: "k \<in> keys (cs ! ?i)" and j: "j < Suc (d + L)" for k j
      by (rule child_agree [OF b _ down(2) k j]) (use WNode.prems(2) in simp)
    from WNode.IH [OF sub wc agc] obtain c' old m where
      r: "recursive_insert (cs ! ?i) key 8 v (Suc (d + L)) = Inr (c', old, m)"
      and ok: "insert_ok (Suc (d + L)) (cs ! ?i) key v (c', old, m)" by auto
    note i = insert_descend_ok [OF b h w down(2) ok l0]
    show ?thesis
    proof (cases "is_null (cs ! ?i)")
      case True
      with r hd down(1) dL len16 i show ?thesis
        by (auto simp: is_null_iff find_child_nth Let_def)
    next
      case False
      with r hd down(1) dL len16 i show ?thesis by (auto simp: find_child_nth Let_def)
    qed
  qed
qed

end
