(* ===== verification/Index.thy ===== *)
theory Index
  imports Prelude
begin

text \<open>
  The interface every index of the repository offers to the driver \<^verbatim>\<open>db_bench.cpp\<close> and to the
  benchmark's database layer: put a pair, get a key.  \<open>run_puts\<close> is a sequence of insertions
  that stops at the first undefined step.  The locale \<open>index\<close> states the contract, a put
  that updates the abstract map at one key and a get that reads it, and proves once what a
  client sees after any history; \<open>sized_index\<close> adds the count of keys.
\<close>

fun run_puts :: "('s \<Rightarrow> 'k \<Rightarrow> 'v \<Rightarrow> 's res) \<Rightarrow> 's \<Rightarrow> ('k \<times> 'v) list \<Rightarrow> 's res" where
  "run_puts put s [] = Inr s"
| "run_puts put s ((k, v) # kvs) =
     (case put s k v of Inl e \<Rightarrow> Inl e | Inr s' \<Rightarrow> run_puts put s' kvs)"

lemma run_puts_append:
  "run_puts put s (xs @ ys) =
     (case run_puts put s xs of Inl e \<Rightarrow> Inl e | Inr s' \<Rightarrow> run_puts put s' ys)"
  by (induction put s xs rule: run_puts.induct) (auto split: sum.splits)

locale index =
  fixes inv :: "'s \<Rightarrow> bool"
    and abs :: "'s \<Rightarrow> 'k \<Rightarrow> 'v option"
    and put :: "'s \<Rightarrow> 'k \<Rightarrow> 'v \<Rightarrow> 's res"
    and get :: "'s \<Rightarrow> 'k \<Rightarrow> 'v option res"
  assumes put_ok: "inv s \<Longrightarrow> \<exists>s'. put s k v = Inr s' \<and> inv s' \<and> abs s' = (abs s)(k \<mapsto> v)"
    and get_ok: "inv s \<Longrightarrow> get s k = Inr (abs s k)"
begin

lemma run_ok:
  "inv s \<Longrightarrow> \<exists>s'. run_puts put s kvs = Inr s' \<and> inv s' \<and> abs s' = abs s ++ map_of (rev kvs)"
proof (induction kvs arbitrary: s)
  case Nil
  then show ?case by simp
next
  case (Cons kv kvs)
  obtain k v where kv: "kv = (k, v)" by (cases kv)
  from put_ok [OF Cons.prems] obtain s1 where
    s1: "put s k v = Inr s1" "inv s1" "abs s1 = (abs s)(k \<mapsto> v)" by blast
  from Cons.IH [OF s1(2)] obtain s' where
    "run_puts put s1 kvs = Inr s'" "inv s'" "abs s' = abs s1 ++ map_of (rev kvs)" by blast
  with s1 kv show ?case by (auto simp: map_add_def fun_eq_iff split: option.splits)
qed

text \<open>A client that starts from an empty index reads its last write, and nothing else.\<close>

lemma get_history:
  assumes "inv s" "abs s = Map.empty"
  shows "\<exists>s'. run_puts put s kvs = Inr s' \<and> inv s' \<and> abs s' = map_of (rev kvs) \<and>
    (\<forall>k. get s' k = Inr (map_of (rev kvs) k))"
proof -
  from run_ok [OF assms(1), of kvs] obtain s' where
    s': "run_puts put s kvs = Inr s'" "inv s'" "abs s' = abs s ++ map_of (rev kvs)" by blast
  with get_ok [OF s'(2)] assms(2) show ?thesis by auto
qed

lemma get_put_same:
  "inv s \<Longrightarrow> \<exists>s'. put s k v = Inr s' \<and> get s' k = Inr (Some v)"
  using put_ok [of s k v] get_ok by auto

lemma get_put_other:
  "inv s \<Longrightarrow> k' \<noteq> k \<Longrightarrow> \<exists>s'. put s k v = Inr s' \<and> get s' k' = get s k'"
  using put_ok [of s k v] get_ok by auto

end

text \<open>Counting keys: an index that also maintains a size field.\<close>

locale sized_index = index inv abs put get
  for inv :: "'s \<Rightarrow> bool" and abs :: "'s \<Rightarrow> 'k \<Rightarrow> 'v option"
    and put :: "'s \<Rightarrow> 'k \<Rightarrow> 'v \<Rightarrow> 's res" and get :: "'s \<Rightarrow> 'k \<Rightarrow> 'v option res" +
  fixes count :: "'s \<Rightarrow> u64"
  assumes count_ok: "inv s \<Longrightarrow> count s = of_nat (card (dom (abs s)))"
begin

lemma count_history:
  assumes "inv s" "abs s = Map.empty"
  shows "\<exists>s'. run_puts put s kvs = Inr s' \<and> count s' = of_nat (card (fst ` set kvs))"
proof -
  from get_history [OF assms, of kvs] obtain s' where
    s': "run_puts put s kvs = Inr s'" "inv s'" "abs s' = map_of (rev kvs)" by blast
  have "dom (map_of (rev kvs)) = fst ` set kvs" by (simp add: dom_map_of_conv_image_fst)
  with count_ok [OF s'(2)] s' show ?thesis by simp
qed

end

text \<open>
  An index whose keys can also be updated, when they are there, and removed: any mix of the
  operations does to it what \<open>apply_op\<close> does to its map.
\<close>

datatype ('k, 'v) op = Put 'k 'v | Upd 'k 'v | Del 'k

fun apply_op :: "('k \<Rightarrow> 'v option) \<Rightarrow> ('k, 'v) op \<Rightarrow> 'k \<Rightarrow> 'v option" where
  "apply_op m (Put k v) = m(k \<mapsto> v)"
| "apply_op m (Upd k v) = (if m k = None then m else m(k \<mapsto> v))"
| "apply_op m (Del k) = m(k := None)"

fun run_op :: "('s \<Rightarrow> 'k \<Rightarrow> 'v \<Rightarrow> 's res) \<Rightarrow> ('s \<Rightarrow> 'k \<Rightarrow> 'v \<Rightarrow> 's res) \<Rightarrow> ('s \<Rightarrow> 'k \<Rightarrow> 's res) \<Rightarrow>
    's \<Rightarrow> ('k, 'v) op \<Rightarrow> 's res" where
  "run_op put upd del s (Put k v) = put s k v"
| "run_op put upd del s (Upd k v) = upd s k v"
| "run_op put upd del s (Del k) = del s k"

fun run_ops :: "('s \<Rightarrow> ('k, 'v) op \<Rightarrow> 's res) \<Rightarrow> 's \<Rightarrow> ('k, 'v) op list \<Rightarrow> 's res" where
  "run_ops step s [] = Inr s"
| "run_ops step s (x # xs) = (case step s x of Inl e \<Rightarrow> Inl e | Inr s' \<Rightarrow> run_ops step s' xs)"

locale dict = index inv abs put get
  for inv :: "'s \<Rightarrow> bool" and abs :: "'s \<Rightarrow> 'k \<Rightarrow> 'v option"
    and put :: "'s \<Rightarrow> 'k \<Rightarrow> 'v \<Rightarrow> 's res" and get :: "'s \<Rightarrow> 'k \<Rightarrow> 'v option res" +
  fixes upd :: "'s \<Rightarrow> 'k \<Rightarrow> 'v \<Rightarrow> 's res" and del :: "'s \<Rightarrow> 'k \<Rightarrow> 's res"
  assumes upd_ok: "inv s \<Longrightarrow> \<exists>s'. upd s k v = Inr s' \<and> inv s' \<and> abs s' = (if abs s k = None then abs s else (abs s)(k \<mapsto> v))"
    and del_ok: "inv s \<Longrightarrow> \<exists>s'. del s k = Inr s' \<and> inv s' \<and> abs s' = (abs s)(k := None)"
begin

lemma step_ok: "inv s \<Longrightarrow> \<exists>s'. run_op put upd del s x = Inr s' \<and> inv s' \<and> abs s' = apply_op (abs s) x"
  using put_ok [of s] upd_ok [of s] del_ok [of s] by (cases x) simp_all

lemma ops_ok: "inv s \<Longrightarrow> \<exists>s'. run_ops (run_op put upd del) s xs = Inr s' \<and> inv s' \<and> abs s' = foldl apply_op (abs s) xs"
proof (induction xs arbitrary: s)
  case (Cons x xs)
  from step_ok [OF Cons.prems, of x] obtain s1 where
    s1: "run_op put upd del s x = Inr s1" "inv s1" "abs s1 = apply_op (abs s) x" by blast
  from Cons.IH [OF s1(2)] s1 show ?case by simp
qed simp

lemma ops_history:
  assumes "inv s" "abs s = Map.empty"
  shows "\<exists>s'. run_ops (run_op put upd del) s xs = Inr s' \<and> inv s' \<and>
    (\<forall>k. get s' k = Inr (foldl apply_op Map.empty xs k))"
  using ops_ok [OF assms(1), of xs] get_ok assms(2) by auto

end

end
