(* ===== verification/Wort_Props.thy ===== *)
theory Wort_Props
  imports Wort_Insert Index
begin

text \<open>
  What the tree of \<^verbatim>\<open>wort/wort.cpp\<close> promises: it is a map with a key count and a byte count,
  a crash at any store of an insertion leaves the old or the new map, and what its range scan
  returns.
\<close>

subsection \<open>The tree as an index\<close>

definition wort_ok :: "wort_tree \<Rightarrow> bool" where
  "wort_ok t \<longleftrightarrow> winv 0 (root t) \<and> fresh 0 (root t) \<and>
     tree_size t = of_nat (card (keys (root t)))"

definition wort_abs :: "wort_tree \<Rightarrow> u64 \<Rightarrow> u64 option" where
  "wort_abs t = map_of (entries (root t))"

definition wort_put8 :: "wort_tree \<Rightarrow> u64 \<Rightarrow> u64 \<Rightarrow> wort_tree res" where
  "wort_put8 t k v = map_sum id snd (wort_put t k 8 v)"

definition wort_get8 :: "wort_tree \<Rightarrow> u64 \<Rightarrow> u64 option res" where
  "wort_get8 t k = wort_get_from (root t) k 8 0"

lemma finite_keys: "finite (keys t)"
  by (simp add: keys_def)

lemma wort_put_step:
  assumes "winv 0 (root t)"
  shows "\<exists>t' old. wort_put t k 8 v = Inr (old, t') \<and> winv 0 (root t') \<and> wort_abs t' = (wort_abs t)(k \<mapsto> v) \<and>
    old = wort_abs t k \<and> (fresh 0 (root t) \<longrightarrow> fresh 0 (root t')) \<and>
    tree_size t' = (if k \<in> keys (root t) then tree_size t else tree_size t + 1) \<and>
    wort_memory_usage t' = wort_memory_usage t + 8 + (node_bytes (root t') - node_bytes (root t))"
proof -
  from recursive_insert_correct [OF assms, of k v] obtain n old m where
    r: "recursive_insert (root t) k 8 v 0 = Inr (n, old, m)" and "insert_ok 0 (root t) k v (n, old, m)"
    by auto
  then have ok: "winv 0 n" "map_of (entries n) = (map_of (entries (root t)))(k \<mapsto> v)"
    "old = map_of (entries (root t)) k" "node_bytes n = node_bytes (root t) + m"
    "fresh 0 (root t) \<longrightarrow> fresh 0 n" by (auto simp: insert_ok_def)
  have "old = None \<longleftrightarrow> k \<notin> keys (root t)" using ok(3) by (simp add: keys_map_of)
  with r ok show ?thesis by (simp add: wort_put_def wort_abs_def)
qed

lemma wort_ok_put:
  assumes "wort_ok t"
  shows "\<exists>t'. wort_put8 t k v = Inr t' \<and> wort_ok t' \<and> wort_abs t' = (wort_abs t)(k \<mapsto> v)"
proof -
  from assms have w: "winv 0 (root t)" by (simp add: wort_ok_def)
  from wort_put_step [OF w, of k v] obtain t' old where
    t': "wort_put t k 8 v = Inr (old, t')" "winv 0 (root t')" "wort_abs t' = (wort_abs t)(k \<mapsto> v)"
    "fresh 0 (root t) \<longrightarrow> fresh 0 (root t')"
    "tree_size t' = (if k \<in> keys (root t) then tree_size t else tree_size t + 1)" by blast
  have "keys (root t') = insert k (keys (root t))"
    using t'(3) by (simp add: keys_dom wort_abs_def)
  with t' assms show ?thesis
    by (simp add: wort_ok_def wort_put8_def finite_keys insert_absorb card_insert_if)
qed

lemma wort_get8_ok: "winv 0 (root t) \<Longrightarrow> wort_get8 t k = Inr (wort_abs t k)"
  by (simp add: wort_get8_def wort_abs_def wort_get_from_correct)

text \<open>The trees the code builds, with their size field; and every crash image, without it.\<close>

interpretation wort: sized_index wort_ok wort_abs wort_put8 wort_get8 tree_size
proof unfold_locales
  show "wort_ok t \<Longrightarrow> \<exists>t'. wort_put8 t k v = Inr t' \<and> wort_ok t' \<and> wort_abs t' = (wort_abs t)(k \<mapsto> v)" for t k v
    by (rule wort_ok_put)
  show "wort_ok t \<Longrightarrow> wort_get8 t k = Inr (wort_abs t k)" for t k
    by (rule wort_get8_ok) (simp add: wort_ok_def)
  show "wort_ok t \<Longrightarrow> tree_size t = of_nat (card (dom (wort_abs t)))" for t
    by (simp add: wort_ok_def keys_dom wort_abs_def)
qed

interpretation wort_crashed: index "\<lambda>t. winv 0 (root t)" wort_abs wort_put8 wort_get8
proof unfold_locales
  fix t :: wort_tree and k v
  assume "winv 0 (root t)"
  from wort_put_step [OF this, of k v]
  show "\<exists>t'. wort_put8 t k v = Inr t' \<and> winv 0 (root t') \<and> wort_abs t' = (wort_abs t)(k \<mapsto> v)"
    by (auto simp: wort_put8_def)
qed (rule wort_get8_ok)

lemma new_wort_tree_ok: "wort_ok (new_wort_tree mem)" "wort_abs (new_wort_tree mem) = Map.empty"
  by (simp_all add: wort_ok_def new_wort_tree_def wort_tree_init_def wort_abs_def)

lemma wort_get_get8: "wort_get t k 8 = map_sum id or_null (wort_get8 t k)"
  by (simp add: wort_get_def wort_get8_def)

text \<open>
  C3.  Any sequence of insertions into a new tree succeeds; afterwards a lookup returns the
  last value put at the key, or 0, the code's null, for a key never put, and the tree's size
  is the number of distinct keys.
\<close>

theorem wort_history:
  "\<exists>t. run_puts wort_put8 (new_wort_tree mem) kvs = Inr t \<and>
     (\<forall>k. wort_get t k 8 = Inr (or_null (map_of (rev kvs) k))) \<and>
     tree_size t = of_nat (card (fst ` set kvs))"
proof -
  from wort.get_history [OF new_wort_tree_ok, of mem kvs] obtain t where
    t: "run_puts wort_put8 (new_wort_tree mem) kvs = Inr t" "\<forall>k. wort_get8 t k = Inr (map_of (rev kvs) k)"
    by blast
  with wort.count_history [OF new_wort_tree_ok, of mem kvs] show ?thesis
    by (auto simp: wort_get_get8)
qed

subsection \<open>Memory accounting\<close>

lemma wort_run_bytes:
  "winv 0 (root t) \<Longrightarrow> run_puts wort_put8 t kvs = Inr t' \<Longrightarrow>
   wort_memory_usage t' - node_bytes (root t') = wort_memory_usage t - node_bytes (root t) + 8 * of_nat (length kvs)"
proof (induction kvs arbitrary: t)
  case (Cons kv kvs)
  obtain k v where kv: "kv = (k, v)" by (cases kv)
  from wort_put_step [OF Cons.prems(1), of k v] obtain t1 old where
    t1: "wort_put t k 8 v = Inr (old, t1)" "winv 0 (root t1)"
    "wort_memory_usage t1 = wort_memory_usage t + 8 + (node_bytes (root t1) - node_bytes (root t))"
    by blast
  then have "wort_put8 t k v = Inr t1" by (simp add: wort_put8_def)
  with Cons.prems(2) kv have "run_puts wort_put8 t1 kvs = Inr t'" by simp
  from Cons.IH [OF t1(2) this] t1(3) show ?case by (simp add: algebra_simps)
qed simp

text \<open>
  C40.  The counter behind \<open>wort_memory_profile\<close> holds exactly the bytes allocated: 16 for the
  tree, 8 for every value put, 136 for every inner node and 24 for every leaf of the tree.
\<close>

theorem wort_memory_exact:
  "\<exists>t. run_puts wort_put8 (new_wort_tree mem) kvs = Inr t \<and>
     wort_memory_usage t = mem + 16 + 8 * of_nat (length kvs) + node_bytes (root t)"
proof -
  obtain t where t: "run_puts wort_put8 (new_wort_tree mem) kvs = Inr t"
    using wort.get_history [OF new_wort_tree_ok, of mem kvs] by blast
  have "winv 0 (root (new_wort_tree mem))" using new_wort_tree_ok(1) [of mem] by (simp add: wort_ok_def)
  from wort_run_bytes [OF this t] t show ?thesis
    by (simp add: new_wort_tree_def wort_tree_init_def algebra_simps)
qed

subsection \<open>Crashes\<close>

text \<open>
  The images of the subtree at \<open>ref\<close> that a crash during \<open>recursive_insert\<close> can leave in
  persistent memory.  New nodes and leaves are flushed before the pointer to them is stored.
  The repair of a stale header is flushed before anything else.  A split stores the pointer
  and the old node's header without a fence between them, so either may persist without the
  other.
\<close>

function crash_images :: "wort_node \<Rightarrow> u64 \<Rightarrow> u32 \<Rightarrow> u64 \<Rightarrow> nat \<Rightarrow> wort_node list" where
  "crash_images WNull key key_len v depth = [WNull, WLeaf v key_len key]"
| "crash_images (WLeaf lv ll lk) key key_len v depth =
     WLeaf lv ll lk #
     (if leaf_matches ll lk key key_len = 0 then [WLeaf v ll lk]
      else (case split_leaf key key_len v (WLeaf lv ll lk) lk depth of Inl e \<Rightarrow> [] | Inr (n, m) \<Rightarrow> [n]))"
| "crash_images (WNode d0 len0 p0 cs) key key_len v depth =
     WNode d0 len0 p0 cs #
     (case (if d0 \<noteq> depth then recovery_prefix cs depth else Inr (d0, len0, p0)) of
        Inl e \<Rightarrow> []
      | Inr (d, len, p) \<Rightarrow>
          WNode d len p cs #
          (case classify len p cs key depth of
             Inl e \<Rightarrow> []
           | Inr (Split pd) \<Rightarrow>
               (case split_header len p cs depth pd of
                  Inl e \<Rightarrow> []
                | Inr (c, hd_d, hl, hp) \<Rightarrow>
                    [WNode hd_d hl hp cs,
                     split_node depth pd p (WNode d len p cs) c (WLeaf v key_len key) (get_index key (depth + pd)),
                     split_node depth pd p (WNode hd_d hl hp cs) c (WLeaf v key_len key) (get_index key (depth + pd))])
           | Inr (Descend depth') \<Rightarrow>
               (case find_child cs (get_index key depth') of
                  Some c \<Rightarrow>
                    map (\<lambda>c'. WNode d len p (cs[get_index key depth' := c']))
                      (crash_images c key key_len v (Suc depth'))
                | None \<Rightarrow> [WNode d len p (cs[get_index key depth' := WLeaf v key_len key])])))"
  by pat_completeness auto
termination
  by (relation "measure (\<lambda>(n, _). size n)") (auto simp: less_Suc_eq_le dest: find_child_size)

definition crash_ok :: "nat \<Rightarrow> wort_node \<Rightarrow> u64 \<Rightarrow> u64 \<Rightarrow> wort_node \<Rightarrow> bool" where
  "crash_ok d t key v x \<longleftrightarrow> winv d x \<and> (x = t \<or> \<not> is_null x) \<and>
     (map_of (entries x) = map_of (entries t) \<or> map_of (entries x) = (map_of (entries t))(key \<mapsto> v))"

lemma insert_ok_crash_ok: "insert_ok d t key v (x, old, m) \<Longrightarrow> crash_ok d t key v x"
  by (simp add: insert_ok_def crash_ok_def)

lemma crash_ok_child:
  assumes b: "branching d L cs" and h: "header_ok d L len p cs" and w: "list_all (winv (Suc (d + L))) cs"
    and ag: "\<forall>k\<in>ckeys cs. \<forall>j<L. get_index k (d + j) = get_index key (d + j)"
    and r: "crash_ok (Suc (d + L)) (cs ! get_index key (d + L)) key v c'"
    and nn: "\<not> is_null (cs ! get_index key (d + L))"
  shows "crash_ok d (WNode dep len0 p0 cs) key v (WNode d len p (cs[get_index key (d + L) := c']))"
proof -
  let ?i = "get_index key (d + L)"
  from r nn have r': "winv (Suc (d + L)) c'" "\<not> is_null c'"
    "map_of (entries c') = map_of (entries (cs ! ?i)) \<or>
     map_of (entries c') = (map_of (entries (cs ! ?i)))(key \<mapsto> v)" by (auto simp: crash_ok_def)
  then have kt: "keys c' \<subseteq> insert key (keys (cs ! ?i))" by (auto simp: keys_dom)
  note up = child_replace_map [OF b ag r'(2), where v = v]
  have "map_of (concat (map entries (cs[?i := c']))) = map_of (concat (map entries cs)) \<or>
      map_of (concat (map entries (cs[?i := c']))) = (map_of (concat (map entries cs)))(key \<mapsto> v)"
    using r'(3) up by blast
  then show ?thesis
    unfolding crash_ok_def using child_replace_winv [OF b h w ag r'(1,2) kt] by (simp del: winv.simps)
qed

lemma crash_images_ok:
  "winv d t \<Longrightarrow> (\<And>k j. k \<in> keys t \<Longrightarrow> j < d \<Longrightarrow> get_index k j = get_index key j) \<Longrightarrow>
   x \<in> set (crash_images t key 8 v d) \<Longrightarrow> crash_ok d t key v x"
proof (induction t arbitrary: d x rule: wort_node.induct)
  case WNull
  then show ?case by (auto simp: crash_ok_def)
next
  case (WLeaf lv kl lk)
  have self: "crash_ok d (WLeaf lv kl lk) key v (WLeaf lv kl lk)" using WLeaf.prems(1) by (simp add: crash_ok_def)
  show ?case
  proof (cases "lk = key")
    case True
    with WLeaf.prems self show ?thesis by (auto simp: crash_ok_def leaf_matches_def fun_upd_def)
  next
    case False
    have kl: "kl = 8" using WLeaf.prems(1) by simp
    have "\<exists>r. recursive_insert (WLeaf lv 8 lk) key 8 v d = Inr r \<and> insert_ok d (WLeaf lv 8 lk) key v r"
      by (rule insert_leaf_ok [OF False]) (use WLeaf.prems(2) in simp)
    then obtain n old m where
      "recursive_insert (WLeaf lv 8 lk) key 8 v d = Inr (n, old, m)" and ok: "insert_ok d (WLeaf lv 8 lk) key v (n, old, m)"
      by (metis prod_cases3)
    then have "split_leaf key 8 v (WLeaf lv 8 lk) lk d = Inr (n, m)"
      using False by (auto simp: leaf_matches_def split: sum.splits)
    with WLeaf.prems(3) False kl have "x = WLeaf lv kl lk \<or> x = n" by (simp add: leaf_matches_def)
    with self insert_ok_crash_ok [OF ok] kl show ?thesis by blast
  qed
next
  case (WNode dep len0 p0 cs)
  let ?t = "WNode dep len0 p0 cs"
  from WNode.prems(1) obtain L where b: "branching d L cs" and h0: "dep = d \<longrightarrow> header_ok d L len0 p0 cs"
    and w: "list_all (winv (Suc (d + L))) cs" by auto
  have dL: "d + L \<le> 15" and len16: "length cs = 16" using branchingD [OF b] by auto
  obtain p where hd: "(if dep \<noteq> d then recovery_prefix cs d else Inr (dep, len0, p0)) = Inr (d, L, p)"
    and h: "header_ok d L L p cs"
  proof (cases "dep = d")
    case True
    with h0 that [of p0] header_okD(1) [of d L len0 p0 cs] show ?thesis by simp
  next
    case False
    with recovery_prefix_ok [OF b w] that show ?thesis by auto
  qed
  have self: "crash_ok d ?t key v ?t" using WNode.prems(1) by (simp add: crash_ok_def)
  have "winv d (WNode d L p cs)" using b h w dL by (auto intro!: exI [of _ L])
  then have repaired: "crash_ok d ?t key v (WNode d L p cs)" by (simp add: crash_ok_def del: winv.simps)
  from classify_ok [OF b h w, of key] consider
      (down) "classify L p cs key d = Inr (Descend (d + L))"
        "\<forall>k\<in>ckeys cs. \<forall>j<L. get_index k (d + j) = get_index key (d + j)"
    | (split) pd where "pd < L" "classify L p cs key d = Inr (Split pd)"
        "\<forall>k\<in>ckeys cs. \<forall>j<pd. get_index k (d + j) = get_index key (d + j)"
        "\<forall>k\<in>ckeys cs. get_index k (d + pd) \<noteq> get_index key (d + pd)" by blast
  then show ?case
  proof cases
    case split
    let ?s = "\<lambda>od ol op c. split_node d pd p (WNode od ol op cs) c (WLeaf v 8 key) (get_index key (d + pd))"
    from split_header_ok [OF b h w split(1)] obtain c hp where
      sh: "split_header L p cs d pd = Inr (c, d + pd + 1, L - (pd + 1), hp)"
      and kc: "\<forall>k\<in>ckeys cs. get_index k (d + pd) = c"
      and h': "header_ok (d + pd + 1) (L - (pd + 1)) (L - (pd + 1)) hp cs" by blast
    have node: "crash_ok d ?t key v (?s od ol op c)"
      if "od = d + pd + 1 \<longrightarrow> header_ok (d + pd + 1) (L - (pd + 1)) ol op cs" for od ol op
      using split_node_ok(1,2) [OF b h w split(1,3,4) kc split_old_winv [OF b w split(1) that]]
      by (simp add: crash_ok_def split_node_def del: winv.simps)
    have header_only: "crash_ok d ?t key v (WNode (d + pd + 1) (L - (pd + 1)) hp cs)"
      using b w dL by (auto simp: crash_ok_def intro!: exI [of _ L])
    from WNode.prems(3) hd sh split(2) consider
      "x = ?t" | "x = WNode d L p cs" | "x = WNode (d + pd + 1) (L - (pd + 1)) hp cs"
      | "x = ?s d L p c" | "x = ?s (d + pd + 1) (L - (pd + 1)) hp c"
      by auto
    then show ?thesis using self repaired header_only node [of d L p] node [of "d + pd + 1" _ hp] h'
      by cases simp_all
  next
    case down
    let ?i = "get_index key (d + L)"
    have sub: "cs ! ?i \<in> set cs" using len16 by simp
    have wc: "winv (Suc (d + L)) (cs ! ?i)" using w len16 by (simp add: list_all_length)
    show ?thesis
    proof (cases "is_null (cs ! ?i)")
      case True
      then have n: "cs ! ?i = WNull" by (simp add: is_null_iff)
      let ?new = "WNode d L p (cs[?i := WLeaf v 8 key])"
      have "insert_ok (Suc (d + L)) (cs ! ?i) key v (WLeaf v 8 key, None, sizeof_leaf)"
        unfolding n by (simp add: insert_ok_def)
      from insert_descend_ok [OF b h w down(2) this, of "Suc d"] have "insert_ok d (WNode (Suc d) len0 p0 cs) key v (?new, None, sizeof_leaf)"
        by simp
      then have "crash_ok d ?t key v ?new" by (auto simp: insert_ok_def crash_ok_def)
      moreover have "x = ?t \<or> x = WNode d L p cs \<or> x = ?new"
        using WNode.prems(3) hd down(1) len16 n by (auto simp: find_child_def)
      ultimately show ?thesis using self repaired by blast
    next
      case False
      have agc: "get_index k j = get_index key j" if k: "k \<in> keys (cs ! ?i)" and j: "j < Suc (d + L)" for k j
        by (rule child_agree [OF b _ down(2) k j]) (use WNode.prems(2) in simp)
      from WNode.prems(3) hd down(1) False len16 consider "x = ?t" | "x = WNode d L p cs"
        | c' where "x = WNode d L p (cs[?i := c'])" "c' \<in> set (crash_images (cs ! ?i) key 8 v (Suc (d + L)))"
        by (auto simp: find_child_def)
      then show ?thesis
      proof cases
        case 3
        from WNode.IH [OF sub wc agc 3(2)] have "crash_ok (Suc (d + L)) (cs ! ?i) key v c'" .
        from crash_ok_child [OF b h w down(2) this False] show ?thesis by (simp add: 3(1))
      qed (use self repaired in simp_all)
    qed
  qed
qed

lemma crash_images_final:
  "recursive_insert t key key_len v d = Inr (t', old, m) \<Longrightarrow> t' \<in> set (crash_images t key key_len v d)"
proof (induction t key key_len v d arbitrary: t' old m rule: crash_images.induct)
  case (2 lv ll lk key key_len v depth)
  then show ?case by (auto split: if_splits sum.splits)
next
  case (3 d0 len0 p0 cs key key_len v depth)
  from "3.prems" obtain d len p where
    hd: "(if d0 \<noteq> depth then recovery_prefix cs depth else Inr (d0, len0, p0)) = Inr (d, len, p)"
    by (auto split: sum.splits)
  from "3.prems" hd obtain st where cl: "classify len p cs key depth = Inr st"
    by (auto split: sum.splits)
  show ?case
  proof (cases st)
    case (Split pd)
    with "3.prems" hd cl show ?thesis by (auto split: sum.splits if_splits)
  next
    case (Descend depth')
    show ?thesis
    proof (cases "find_child cs (get_index key depth')")
      case None
      with "3.prems" hd cl Descend show ?thesis by (auto split: if_splits)
    next
      case (Some c)
      with "3.prems" hd cl Descend obtain c' old' m' where
        c': "recursive_insert c key key_len v (Suc depth') = Inr (c', old', m')"
        and t': "t' = WNode d len p (cs[get_index key depth' := c'])"
        by (auto split: if_splits sum.splits)
      from "3.IH" [OF hd refl refl cl Descend Some c'] have "c' \<in> set (crash_images c key key_len v (Suc depth'))" .
      with hd cl Descend Some t' show ?thesis by simp
    qed
  qed
qed simp

text \<open>
  C4.  Stop an insertion into any tree the code has built at any of its stores.  The image
  that remains holds either the map before the insertion or the map after it, lookups on it
  return that map's values, and insertions after the restart update it like any tree.  The
  image of the completed insertion is among those considered.
\<close>

theorem wort_crash_consistent:
  "\<exists>t t'. run_puts wort_put8 (new_wort_tree mem) kvs = Inr t \<and> wort_put8 t k v = Inr t' \<and>
     root t' \<in> set (crash_images (root t) k 8 v 0) \<and>
     list_all (\<lambda>x. \<exists>m\<in>{map_of (rev kvs), (map_of (rev kvs))(k \<mapsto> v)}.
         (\<forall>k'. wort_get (t\<lparr>root := x\<rparr>) k' 8 = Inr (or_null (m k'))) \<and>
         (\<forall>kvs'. \<exists>t''. run_puts wort_put8 (t\<lparr>root := x\<rparr>) kvs' = Inr t'' \<and>
            (\<forall>k'. wort_get t'' k' 8 = Inr (or_null ((m ++ map_of (rev kvs')) k')))))
       (crash_images (root t) k 8 v 0)"
proof -
  from wort.get_history [OF new_wort_tree_ok, of mem kvs] obtain t where
    t: "run_puts wort_put8 (new_wort_tree mem) kvs = Inr t" "wort_ok t" "wort_abs t = map_of (rev kvs)" by blast
  then have w: "winv 0 (root t)" by (simp add: wort_ok_def)
  from wort_put_step [OF w, of k v] obtain t' old where
    t': "wort_put t k 8 v = Inr (old, t')" by blast
  then have fin: "root t' \<in> set (crash_images (root t) k 8 v 0)"
    by (auto simp: wort_put_def intro: crash_images_final split: sum.splits)
  have ok: "\<exists>m\<in>{map_of (rev kvs), (map_of (rev kvs))(k \<mapsto> v)}.
         (\<forall>k'. wort_get (t\<lparr>root := x\<rparr>) k' 8 = Inr (or_null (m k'))) \<and>
         (\<forall>kvs'. \<exists>t''. run_puts wort_put8 (t\<lparr>root := x\<rparr>) kvs' = Inr t'' \<and>
            (\<forall>k'. wort_get t'' k' 8 = Inr (or_null ((m ++ map_of (rev kvs')) k'))))"
    if x: "x \<in> set (crash_images (root t) k 8 v 0)" for x
  proof (rule bexI)
    let ?t = "t\<lparr>root := x\<rparr>"
    from crash_images_ok [OF w _ x] have c: "crash_ok 0 (root t) k v x" by simp
    then have wx: "winv 0 (root ?t)" by (simp add: crash_ok_def)
    show "wort_abs ?t \<in> {map_of (rev kvs), (map_of (rev kvs))(k \<mapsto> v)}"
      using c t(3) by (auto simp: crash_ok_def wort_abs_def)
    show "(\<forall>k'. wort_get ?t k' 8 = Inr (or_null (wort_abs ?t k'))) \<and>
      (\<forall>kvs'. \<exists>t''. run_puts wort_put8 ?t kvs' = Inr t'' \<and>
         (\<forall>k'. wort_get t'' k' 8 = Inr (or_null ((wort_abs ?t ++ map_of (rev kvs')) k'))))"
    proof (intro conjI allI)
      show "wort_get ?t k' 8 = Inr (or_null (wort_abs ?t k'))" for k'
        unfolding wort_get_get8 wort_get8_ok [OF wx] by simp
      fix kvs'
      from wort_crashed.run_ok [OF wx, of kvs'] obtain t'' where
        "run_puts wort_put8 ?t kvs' = Inr t''" "winv 0 (root t'')"
        "wort_abs t'' = wort_abs ?t ++ map_of (rev kvs')" by blast
      then show "\<exists>t''. run_puts wort_put8 ?t kvs' = Inr t'' \<and>
          (\<forall>k'. wort_get t'' k' 8 = Inr (or_null ((wort_abs ?t ++ map_of (rev kvs')) k')))"
        by (intro exI [of _ t'']) (simp add: wort_get_get8 wort_get8_ok)
    qed
  qed
  have "wort_put8 t k v = Inr t'" using t' by (simp add: wort_put8_def)
  with t(1) fin ok show ?thesis unfolding list_all_iff by blast
qed

subsection \<open>Scans\<close>

lemma scan_point:
  "(scan_left p k d \<or> scan_right p k k d) \<longleftrightarrow> (\<exists>j<length p. p ! j \<noteq> get_index k (d + j))"
proof (induction p arbitrary: d)
  case Nil
  then show ?case by simp
next
  case (Cons b p)
  show ?case
  proof (cases "b = get_index k d")
    case True
    with Cons.IH [of "Suc d"] show ?thesis by (auto simp: less_Suc_eq_0_disj)
  next
    case False
    then show ?thesis by (auto intro!: exI [of _ 0])
  qed
qed

lemma wort_node_scan_point:
  "winv d t \<Longrightarrow> fresh d t \<Longrightarrow>
   wort_node_scan t k k d = (case map_of (entries t) k of None \<Rightarrow> [] | Some v \<Rightarrow> [(k, v)])"
proof (induction t arbitrary: d)
  case (WNode dep len p cs)
  from WNode.prems obtain L where b: "branching d L cs" and h: "header_ok d L len p cs"
    and w: "list_all (winv (Suc (d + L))) cs" and f: "list_all (fresh (Suc (d + len))) cs" by auto
  note hd = header_okD [OF h]
  have dL: "d + L \<le> 15" and len16: "length cs = 16" using branchingD [OF b] by auto
  have q: "take (min (min len 6) (16 - d)) p = p" using hd(1,2) dL by simp
  let ?out = "len \<noteq> 0 \<and> (scan_left p k d \<or> scan_right p k k d)"
  show ?case
  proof (cases ?out)
    case True
    then obtain j where "j < length p" "p ! j \<noteq> get_index k (d + j)" using scan_point by blast
    then have "k \<notin> keys (WNode dep len p cs)" using hd(2,3) by auto
    then have "map_of (entries (WNode dep len p cs)) k = None" by (simp only: keys_map_of)
    with True q show ?thesis by (simp add: Let_def)
  next
    case False
    let ?c = "cs ! get_index k (d + L)"
    have m: "map_of (entries (WNode dep len p cs)) k = map_of (entries ?c) k"
      using entries_child [OF b] by simp
    have "?c \<in> set cs" "winv (Suc (d + L)) ?c" "fresh (Suc (d + L)) ?c"
      using w f len16 hd(1) by (simp_all add: list_all_length)
    note IH = WNode.IH [OF this]
    have s: "wort_node_scan (WNode dep len p cs) k k d =
      (case find_child cs (get_index k (d + L)) of None \<Rightarrow> [] | Some c \<Rightarrow> wort_node_scan c k k (Suc (d + L)))"
      using False q hd(1) by (auto simp: Let_def split: option.splits)
    show ?thesis unfolding s m using IH len16
      by (cases "is_null ?c") (auto simp: find_child_def is_null_iff)
  qed
next
  case (WLeaf v kl x)
  show ?case by (cases "k = x") (auto dest: order.antisym)
qed simp

text \<open>
  A scan whose bounds are one key returns that key with its current value, or nothing.
\<close>

theorem wort_point_scan:
  "\<exists>t. run_puts wort_put8 (new_wort_tree mem) kvs = Inr t \<and>
     wort_scan t k k = (case map_of (rev kvs) k of None \<Rightarrow> [] | Some v \<Rightarrow> [(k, v)])"
proof -
  from wort.get_history [OF new_wort_tree_ok, of mem kvs] obtain t where
    "run_puts wort_put8 (new_wort_tree mem) kvs = Inr t" "wort_ok t" "wort_abs t = map_of (rev kvs)" by blast
  then show ?thesis
    using wort_node_scan_point [of 0 "root t" k] by (auto simp: wort_scan_def wort_ok_def wort_abs_def)
qed

text \<open>
  A scan over the whole key range can return nothing: the second prefix loop compares
  the prefix with \<open>left\<close> where \<open>right\<close> is meant, so a node whose prefix starts with the
  nibble 15 is dropped when \<open>left\<close> starts with a smaller one.
\<close>

theorem wort_scan_drops_keys:
  "\<exists>t. run_puts wort_put8 (new_wort_tree 0) [(0xF000000000000000, 1), (0xF100000000000000, 2)] = Inr t \<and>
     wort_get t 0xF000000000000000 8 = Inr 1 \<and> wort_scan t 0 (-1) = []"
proof (intro exI conjI)
  let ?t = "\<lparr>root = WNode 0 1 [15] (WLeaf 1 8 0xF000000000000000 # WLeaf 2 8 0xF100000000000000 # replicate 14 WNull),
    tree_size = 2, wort_memory_usage = 216\<rparr>"
  show "run_puts wort_put8 (new_wort_tree 0) [(0xF000000000000000, 1), (0xF100000000000000, 2)] = Inr ?t"
    by code_simp
  show "wort_get ?t 0xF000000000000000 8 = Inr 1" by code_simp
  show "wort_scan ?t 0 (-1) = []" by code_simp
qed

end
