(* ===== verification/Woart_Node.thy ===== *)
theory Woart_Node
  imports Prelude
begin

text \<open>
  The four node layouts of \<^verbatim>\<open>woart/woart.cpp\<close> and \<^verbatim>\<open>woart/woart.h\<close>: how a byte is found and
  how a child is added, with the growth from one layout to the next.

  A value of type \<open>'a kids\<close> is what follows the header in \<^verbatim>\<open>woart_node4\<close>, \<^verbatim>\<open>woart_node16\<close>,
  \<^verbatim>\<open>woart_node48\<close> and \<^verbatim>\<open>woart_node256\<close>.  Children are of type \<open>'a option\<close>, \<open>None\<close> being the
  null pointer; storage that the code allocates without initialising is \<open>None\<close> or 0 here and
  never read.  Bytes are natural numbers below 256.
\<close>

subsection \<open>Bit searches\<close>

text \<open>
  \<^verbatim>\<open>bsf\<close>; undefined for 0, where the code never uses it.
\<close>

definition ffs :: "u64 \<Rightarrow> nat" where
  "ffs w = (case find_index (bit w) [0..<64] of None \<Rightarrow> 0 | Some i \<Rightarrow> i)"

text \<open>
  \<open>find_next_bit\<close> and \<open>find_next_zero_bit\<close> on a region of one word (\<open>size \<le> 64\<close>), which is
  all the tree passes; the loops over further words fall away.
\<close>

definition find_next_bit :: "u64 \<Rightarrow> nat \<Rightarrow> nat \<Rightarrow> nat" where
  "find_next_bit w sz off =
     (if off \<ge> sz then sz
      else let tmp = (if off \<noteq> 0 then w AND push_bit off (-1) else w) AND drop_bit (64 - sz) (-1)
           in if tmp = 0 then sz else ffs tmp)"

definition find_next_zero_bit :: "u64 \<Rightarrow> nat \<Rightarrow> nat \<Rightarrow> nat" where
  "find_next_zero_bit w sz off =
     (if off \<ge> sz then sz
      else let tmp = (if off \<noteq> 0 then w OR drop_bit (64 - off) (-1) else w) OR push_bit sz (-1)
           in if tmp = -1 then sz else ffs (NOT tmp))"

lemma ffs_least:
  assumes "w \<noteq> 0"
  shows "bit w (ffs w)" "j < ffs w \<Longrightarrow> \<not> bit w j"
proof -
  obtain n where n: "bit w n" using assms by (metis bit_0_eq bit_word_eqI bot_apply bot_bool_def)
  then have "n < 64" using bit_imp_le_length [of w n] by simp
  with n have "find_index (bit w) [0..<64] \<noteq> None" by auto
  then obtain m where m: "find_index (bit w) [0..<64] = Some m" by (cases "find_index (bit w) [0..<64]") blast+
  from find_index_SomeD [OF m] have "m < 64" "bit w m" "\<And>j. j < m \<Longrightarrow> \<not> bit w j" by auto
  with m show "bit w (ffs w)" "j < ffs w \<Longrightarrow> \<not> bit w j" by (simp_all add: ffs_def)
qed

text \<open>Both searches are counting loops.\<close>

lemmas word_range_bits = bit_and_iff bit_or_iff bit_not_iff bit_push_bit_iff bit_drop_bit_eq o_def bit_minus_1_iff
  possible_bit_word

lemma masked_ffs:
  assumes "off < sz" "sz \<le> 64" and t: "\<And>n. bit t n \<longleftrightarrow> p n \<and> off \<le> n \<and> n < sz"
  shows "(if t = 0 then sz else ffs t) = first_from p off sz"
proof (cases "t = 0")
  case True
  then have "\<not> p n" if "off \<le> n" "n < sz" for n using t [of n] that by simp
  then have "first_from p off sz = sz" using assms(1) by (intro first_from_unique) auto
  with True show ?thesis by simp
next
  case False
  note f = ffs_least [OF this]
  have "first_from p off sz = ffs t"
  proof (rule first_from_unique)
    show "off \<le> ffs t" "ffs t \<le> sz" "ffs t < sz \<Longrightarrow> p (ffs t)" using f(1) t [of "ffs t"] by auto
    show "\<not> p j" if "off \<le> j" "j < ffs t" for j using f(2) [OF that(2)] f(1) t [of j] t [of "ffs t"] that by auto
  qed
  with False show ?thesis by simp
qed

lemma find_next_bit_first:
  assumes "off \<le> sz" "sz \<le> 64"
  shows "find_next_bit w sz off = first_from (bit w) off sz"
proof (cases "off = sz")
  case True
  then show ?thesis by (simp add: find_next_bit_def first_from.simps)
next
  case False
  have b: "bit ((if off \<noteq> 0 then w AND push_bit off (-1) else w) AND drop_bit (64 - sz) (-1)) n \<longleftrightarrow>
      bit w n \<and> off \<le> n \<and> n < sz" for n
    using assms bit_imp_le_length [of w n]
    by (cases "off = 0") (simp_all only: simp_thms if_True if_False word_range_bits, auto)
  from False assms have "off < sz" by simp
  from masked_ffs [OF this assms(2), of _ "bit w", OF b] \<open>off < sz\<close> show ?thesis
    unfolding find_next_bit_def Let_def by (simp only: not_le [symmetric] if_False)
qed

lemma find_next_zero_bit_first:
  assumes "off \<le> sz" "sz \<le> 64"
  shows "find_next_zero_bit w sz off = first_from (\<lambda>i. \<not> bit w i) off sz"
proof (cases "off = sz")
  case True
  then show ?thesis by (simp add: find_next_zero_bit_def first_from.simps)
next
  case False
  let ?t = "(if off \<noteq> 0 then w OR drop_bit (64 - off) (-1) else w) OR push_bit sz (-1)"
  have b: "bit (NOT ?t) n \<longleftrightarrow> \<not> bit w n \<and> off \<le> n \<and> n < sz" for n
    using assms by (cases "off = 0") (simp_all only: simp_thms if_True if_False word_range_bits, auto)
  have z: "?t = -1 \<longleftrightarrow> NOT ?t = 0" by (metis bit.compl_zero bit.double_compl)
  from False assms have "off < sz" by simp
  from masked_ffs [OF this assms(2), of _ "\<lambda>i. \<not> bit w i", OF b] \<open>off < sz\<close> show ?thesis
    unfolding find_next_zero_bit_def Let_def z by simp
qed

lemma find_next_bit_16: "i < 16 \<Longrightarrow> find_next_bit w 16 i = first_from (bit w) i 16"
  by (simp add: find_next_bit_first)

lemma find_next_bit_decreases: "i < 16 \<Longrightarrow> 15 - find_next_bit w 16 i < 16 - i"
  using first_from_props [of i "bit w" 16] by (simp only: find_next_bit_16) linarith

subsection \<open>Layouts\<close>

text \<open>A slot of a small node is \<open>None\<close> when its \<open>i_ptr\<close> is -1; its key is then never read.\<close>

datatype 'a kids =
    Kids4 "(nat \<times> nat) option list" "'a option list"    \<comment> \<open>slots (key, i_ptr); children\<close>
  | Kids16 u64 "nat list" "'a option list"               \<comment> \<open>bitmap; keys; children\<close>
  | Kids48 "nat list" "'a option list"                   \<comment> \<open>keys, 0 for absent; children\<close>
  | Kids256 "'a option list"

definition children :: "'a kids \<Rightarrow> 'a option list" where
  "children ks = (case ks of Kids4 s cs \<Rightarrow> cs | Kids16 w k cs \<Rightarrow> cs | Kids48 k cs \<Rightarrow> cs | Kids256 cs \<Rightarrow> cs)"

definition store_child :: "'a kids \<Rightarrow> nat \<Rightarrow> 'a option \<Rightarrow> 'a kids" where
  "store_child ks i x =
     (case ks of Kids4 s cs \<Rightarrow> Kids4 s (cs[i := x]) | Kids16 w k cs \<Rightarrow> Kids16 w k (cs[i := x])
      | Kids48 k cs \<Rightarrow> Kids48 k (cs[i := x]) | Kids256 cs \<Rightarrow> Kids256 (cs[i := x]))"

definition sizeof_node :: "'a kids \<Rightarrow> u64" where
  "sizeof_node ks = (case ks of Kids4 _ _ \<Rightarrow> 56 | Kids16 _ _ _ \<Rightarrow> 168 | Kids48 _ _ \<Rightarrow> 656 | Kids256 _ \<Rightarrow> 2064)"

text \<open>\<open>alloc_node(NODE4)\<close>.\<close>

definition new_node4 :: "'a kids" where
  "new_node4 = Kids4 (replicate 4 None) (replicate 4 None)"

subsection \<open>Finding a byte\<close>

fun used_slots :: "(nat \<times> nat) option list \<Rightarrow> (nat \<times> nat) list" where
  "used_slots (Some s # ss) = s # used_slots ss"
| "used_slots _ = []"

text \<open>The loop over the set bits of a NODE16.\<close>

function find_key16 :: "u64 \<Rightarrow> nat list \<Rightarrow> nat \<Rightarrow> nat \<Rightarrow> nat option" where
  "find_key16 w keys c i =
     (if i < 16 then
        (let j = find_next_bit w 16 i in
         if j < 16 \<and> keys ! j = c then Some j else find_key16 w keys c (Suc j))
      else None)"
  by pat_completeness auto
termination
  by (relation "measure (\<lambda>(w, keys, c, i). 16 - i)") (auto simp: find_next_bit_decreases)

declare find_key16.simps [simp del]

text \<open>\<open>find_child\<close> returns a pointer into the array of children; here the position.\<close>

definition child_pos :: "'a kids \<Rightarrow> nat \<Rightarrow> nat option" where
  "child_pos ks c =
     (case ks of
        Kids4 s cs \<Rightarrow> map_of (used_slots s) c
      | Kids16 w k cs \<Rightarrow> find_key16 w k c 0
      | Kids48 k cs \<Rightarrow> if k ! c \<noteq> 0 then Some (k ! c - 1) else None
      | Kids256 cs \<Rightarrow> if cs ! c \<noteq> None then Some c else None)"

text \<open>The child itself, null when there is none; positions are always inside the array.\<close>

definition woart_find_child :: "'a kids \<Rightarrow> nat \<Rightarrow> 'a option" where
  "woart_find_child ks c =
     (case child_pos ks c of
        None \<Rightarrow> None
      | Some i \<Rightarrow> if i < length (children ks) then children ks ! i else None)"

subsection \<open>Adding a child\<close>

text \<open>
  \<open>add_child4_noflush\<close>, and the first branch of \<open>add_child4\<close>: the child goes to the first free
  position and its slot between the slots of smaller and larger keys.
\<close>

definition slot_bits :: "(nat \<times> nat) list \<Rightarrow> u64" where
  "slot_bits us = sum_list (map (\<lambda>(k, p). push_bit p 1) us)"

definition add_child4_noflush :: "(nat \<times> nat) option list \<Rightarrow> 'a option list \<Rightarrow> nat \<Rightarrow> 'a \<Rightarrow> 'a kids res" where
  "add_child4_noflush s cs c x =
     (let us = used_slots s;
          mid = (case find_index (\<lambda>(k, p). c < k) us of Some i \<Rightarrow> i | None \<Rightarrow> length us);
          p = find_next_zero_bit (slot_bits us) 4 0
      in if p = 4 then Inl Exited
         else Inr (Kids4 (map Some (take mid us @ [(c, p)] @ drop mid us) @ replicate (3 - length us) None)
                         (cs[p := Some x])))"

text \<open>The new node of a growth, with the added child in its first free place.\<close>

definition grow4 :: "(nat \<times> nat) option list \<Rightarrow> 'a option list \<Rightarrow> nat \<Rightarrow> 'a \<Rightarrow> 'a kids" where
  "grow4 s cs c x =
     (let us = used_slots s in
      Kids16 (slot_bits us + push_bit 4 1)
        ((fold (\<lambda>(k, p) ks. ks[p := k]) us (replicate 16 0))[4 := c])
        ((fold (\<lambda>(k, p) cs'. cs'[p := cs ! p]) us (replicate 16 None))[4 := Some x]))"

definition add_child4 :: "(nat \<times> nat) option list \<Rightarrow> 'a option list \<Rightarrow> nat \<Rightarrow> 'a \<Rightarrow> 'a kids res" where
  "add_child4 s cs c x =
     (if s ! 3 = None then add_child4_noflush s cs c x else Inr (grow4 s cs c x))"

definition grow16 :: "nat list \<Rightarrow> 'a option list \<Rightarrow> nat \<Rightarrow> 'a \<Rightarrow> 'a kids" where
  "grow16 k cs c x =
     Kids48 ((fold (\<lambda>i k'. k'[k ! i := i + 1]) [0..<16] (replicate 256 0))[c := 17])
       (take 16 cs @ [Some x] @ replicate 31 None)"

definition add_child16 :: "u64 \<Rightarrow> nat list \<Rightarrow> 'a option list \<Rightarrow> nat \<Rightarrow> 'a \<Rightarrow> 'a kids res" where
  "add_child16 w k cs c x =
     (if w \<noteq> push_bit 16 1 - 1 then
        (let e = find_next_zero_bit w 16 0 in
         if e = 16 then Inl Exited
         else Inr (Kids16 (w + push_bit e 1) (k[e := c]) (cs[e := Some x])))
      else Inr (grow16 k cs c x))"

text \<open>The bytes present in a NODE48; the loops over them stop after 48.\<close>

definition present48 :: "nat list \<Rightarrow> nat list" where
  "present48 k = take 48 (filter (\<lambda>i. k ! i \<noteq> 0) [0..<256])"

definition grow48 :: "nat list \<Rightarrow> 'a option list \<Rightarrow> nat \<Rightarrow> 'a \<Rightarrow> 'a kids" where
  "grow48 k cs c x =
     Kids256 ((fold (\<lambda>i cs'. cs'[i := cs ! (k ! i - 1)]) (present48 k) (replicate 256 None))[c := Some x])"

definition add_child48 :: "nat list \<Rightarrow> 'a option list \<Rightarrow> nat \<Rightarrow> 'a \<Rightarrow> 'a kids" where
  "add_child48 k cs c x =
     (let is = present48 k in
      if length is < 48 then
        (let p = find_next_zero_bit (sum_list (map (\<lambda>i. push_bit (k ! i - 1) 1) is)) 48 0
         in Kids48 (k[c := p + 1]) (cs[p := Some x]))
      else grow48 k cs c x)"

definition add_child256 :: "'a option list \<Rightarrow> nat \<Rightarrow> 'a \<Rightarrow> 'a kids" where
  "add_child256 cs c x = Kids256 (cs[c := Some x])"

definition add_child :: "'a kids \<Rightarrow> nat \<Rightarrow> 'a \<Rightarrow> 'a kids res" where
  "add_child ks c x =
     (case ks of
        Kids4 s cs \<Rightarrow> add_child4 s cs c x
      | Kids16 w k cs \<Rightarrow> add_child16 w k cs c x
      | Kids48 k cs \<Rightarrow> Inr (add_child48 k cs c x)
      | Kids256 cs \<Rightarrow> Inr (add_child256 cs c x))"

subsection \<open>The child of the least byte\<close>

text \<open>
  The loop of \<open>minimum\<close> over a NODE16.  When no further bit is set it also reads the byte
  after the keys, which lies in the same struct, and ignores it.
\<close>

function min_key16 :: "u64 \<Rightarrow> nat list \<Rightarrow> nat \<Rightarrow> nat \<Rightarrow> nat \<Rightarrow> nat" where
  "min_key16 w keys i mn idx =
     (if i < 16 then
        (let j = find_next_bit w 16 i in
         if j < 16 \<and> keys ! j < mn then min_key16 w keys (Suc j) (keys ! j) j
         else min_key16 w keys (Suc j) mn idx)
      else idx)"
  by pat_completeness auto
termination
  by (relation "measure (\<lambda>(w, keys, i, mn, idx). 16 - i)") (auto simp: find_next_bit_decreases)

declare min_key16.simps [simp del]

definition first_pos :: "'a kids \<Rightarrow> nat res" where
  "first_pos ks =
     (case ks of
        Kids4 s cs \<Rightarrow> (case used_slots s of [] \<Rightarrow> Inl OutOfBounds | (k, p) # _ \<Rightarrow> Inr p)
      | Kids16 w k cs \<Rightarrow>
          (let i = find_next_bit w 16 0 in
           if i \<ge> 16 then Inl OutOfBounds else Inr (min_key16 w k (Suc i) (k ! i) i))
      | Kids48 k cs \<Rightarrow> (case find_index (\<lambda>i. i \<noteq> 0) k of None \<Rightarrow> Inl OutOfBounds | Some c \<Rightarrow> Inr (k ! c - 1))
      | Kids256 cs \<Rightarrow> (case find_index (\<lambda>x. x \<noteq> None) cs of None \<Rightarrow> Inl OutOfBounds | Some c \<Rightarrow> Inr c))"

subsection \<open>What a crash leaves of an addition\<close>

text \<open>
  The images of the old node while a child is added to it.  A NODE4 and a NODE48 flush the
  child before the slots or the key; a NODE16 stores key and child in any order, then the
  bitmap.  A grown node is complete before the pointer to it is stored.
\<close>

definition add_images :: "'a kids \<Rightarrow> nat \<Rightarrow> 'a \<Rightarrow> 'a kids list" where
  "add_images ks c x =
     (case ks of
        Kids4 s cs \<Rightarrow>
          (if s ! 3 = None then [store_child ks (find_next_zero_bit (slot_bits (used_slots s)) 4 0) (Some x)] else [])
      | Kids16 w k cs \<Rightarrow>
          (if w \<noteq> push_bit 16 1 - 1 then
             (let e = find_next_zero_bit w 16 0
              in [Kids16 w (k[e := c]) cs, Kids16 w k (cs[e := Some x]), Kids16 w (k[e := c]) (cs[e := Some x])])
           else [])
      | Kids48 k cs \<Rightarrow>
          (let is = present48 k in
           if length is < 48
           then [Kids48 k (cs[find_next_zero_bit (sum_list (map (\<lambda>i. push_bit (k ! i - 1) 1) is)) 48 0 := Some x])]
           else [])
      | Kids256 cs \<Rightarrow> [])"

end
