(* ===== verification/Woart.thy ===== *)
theory Woart
  imports Woart_Node
begin

text \<open>
  The write-optimal adaptive radix tree of \<^verbatim>\<open>woart/woart.cpp\<close>: nodes of four layouts over the
  bytes of a 64-bit key, with path compression.

  A node is a tagged leaf or a header with one of the layouts of \<open>Woart_Node\<close>; null pointers
  are \<open>None\<close>.  Every node is reached through exactly one pointer, so the updates through
  \<open>ref\<close> and through \<open>n\<close> become the returned tree.  A leaf's \<open>value\<close> stands for the 8 bytes
  copied to a fresh cell, and \<open>pwoartial\<close> holds the first \<open>min 6 pwoartial_len\<close> bytes, the only
  ones the code initialises.

  Unlike WORT, the code does not repair a header whose depth is stale: it calls \<^verbatim>\<open>exit\<close>.
\<close>

subsection \<open>Nodes\<close>

record path_comp =
  path_depth :: nat
  pwoartial_len :: nat
  pwoartial :: "nat list"

datatype woart_node =
    OLeaf u64 u32 u64                        \<comment> \<open>value, key length, key\<close>
  | ONode path_comp "woart_node kids"

record woart_tree =
  woart_root :: "woart_node option"
  woart_size :: u64
  woart_memory_usage :: u64

definition woart_tree_init :: "u64 \<Rightarrow> woart_tree" where
  "woart_tree_init mem = \<lparr>woart_root = None, woart_size = 0, woart_memory_usage = mem\<rparr>"

definition new_woart_tree :: "u64 \<Rightarrow> woart_tree" where
  "new_woart_tree mem = woart_tree_init (mem + 16)"

definition sizeof_woart_leaf :: u64 where "sizeof_woart_leaf = 24"

text \<open>
  What \<open>alloc_node\<close> adds to \<open>woart_memory_usage\<close>: every layout is counted as the difference
  to the layout it replaces, a NODE4 as the difference to a leaf.
\<close>

definition alloc_node_bytes :: "'a kids \<Rightarrow> u64" where
  "alloc_node_bytes ks =
     (case ks of Kids4 _ _ \<Rightarrow> 56 - 24 | Kids16 _ _ _ \<Rightarrow> 168 - 56 | Kids48 _ _ \<Rightarrow> 656 - 168 | Kids256 _ \<Rightarrow> 2064 - 656)"

lemma children_size:
  "i < length (children ks) \<Longrightarrow> size_option f (children ks ! i) \<le> size_kids f ks"
  using size_list_estimation' [of "children ks ! i" "children ks" "size_option f (children ks ! i)" "size_option f"]
  by (cases ks) (auto simp: children_def)

lemma child_at_size: "\<not> length (children ks) \<le> i \<Longrightarrow> children ks ! i = Some x \<Longrightarrow> f x < size_kids f ks"
  using children_size [of i ks f] by simp

lemma woart_find_child_size:
  "woart_find_child ks c = Some x \<Longrightarrow> f x < size_kids f ks"
  using children_size [of _ ks f] by (fastforce simp: woart_find_child_def split: option.splits if_splits)

subsection \<open>Bytes and prefixes\<close>

text \<open>Byte \<open>depth\<close> of a key, counted from the most significant.  Beyond 7 the shift is negative.\<close>

definition woart_get_index :: "u64 \<Rightarrow> nat \<Rightarrow> nat" where
  "woart_get_index key depth = unat (drop_bit ((7 - depth) * 8) key AND mask 8)"

definition woart_check_prefix :: "path_comp \<Rightarrow> u64 \<Rightarrow> nat \<Rightarrow> nat" where
  "woart_check_prefix p key depth =
     first_from (\<lambda>i. pwoartial p ! i \<noteq> woart_get_index key (depth + i)) 0 (min (min (pwoartial_len p) 6) (8 - depth))"

definition woart_leaf_matches :: "u32 \<Rightarrow> u64 \<Rightarrow> u64 \<Rightarrow> u32 \<Rightarrow> nat" where
  "woart_leaf_matches leaf_len leaf_key key key_len =
     (if leaf_len \<noteq> key_len then 1 else if leaf_key = key then 0 else 1)"

definition woart_longest_common_prefix :: "u64 \<Rightarrow> u64 \<Rightarrow> nat \<Rightarrow> nat" where
  "woart_longest_common_prefix k1 k2 depth =
     first_from (\<lambda>i. woart_get_index k1 (depth + i) \<noteq> woart_get_index k2 (depth + i)) 0 (8 - depth)"

subsection \<open>Lookup\<close>

function woart_get_from :: "woart_node \<Rightarrow> u64 \<Rightarrow> u32 \<Rightarrow> nat \<Rightarrow> u64 option res" where
  "woart_get_from (OLeaf v kl k) key key_len depth =
     (if woart_leaf_matches kl k key key_len = 0 then Inr (Some v) else Inr None)"
| "woart_get_from (ONode p ks) key key_len depth =
     (if path_depth p \<noteq> depth then Inl Exited
      else if pwoartial_len p \<noteq> 0 \<and> woart_check_prefix p key depth \<noteq> min 6 (pwoartial_len p) then Inr None
      else
        (let depth' = depth + pwoartial_len p in
         if depth' > 7 then Inl BadShift
         else (case woart_find_child ks (woart_get_index key depth') of
                 None \<Rightarrow> Inr None
               | Some c \<Rightarrow> woart_get_from c key key_len (Suc depth'))))"
  by pat_completeness auto
termination
  by (relation "measure (\<lambda>(n, _). size n)") (auto dest: woart_find_child_size [where f = size])

text \<open>The value the pointer of the leaf leads to, 0 when there is none.\<close>

definition woart_get :: "woart_tree \<Rightarrow> u64 \<Rightarrow> u32 \<Rightarrow> u64 res" where
  "woart_get t key key_len =
     (case woart_root t of None \<Rightarrow> Inr 0 | Some n \<Rightarrow> map_sum id or_null (woart_get_from n key key_len 0))"

subsection \<open>Insertion\<close>

text \<open>The key of the leaf \<open>minimum\<close> finds; a null pointer on the way would be dereferenced.\<close>

function woart_minimum :: "woart_node \<Rightarrow> u64 res" where
  "woart_minimum (OLeaf v kl k) = Inr k"
| "woart_minimum (ONode p ks) =
     (case first_pos ks of
        Inl e \<Rightarrow> Inl e
      | Inr i \<Rightarrow>
          if i \<ge> length (children ks) then Inl OutOfBounds
          else (case children ks ! i of None \<Rightarrow> Inl NullDeref | Some c \<Rightarrow> woart_minimum c))"
  by pat_completeness auto
termination
  by (relation "measure size") (auto dest: child_at_size [where f = size] simp: less_SucI)

text \<open>
  The depth at which the key leaves the node's prefix.  Past the stored bytes the code
  compares with the leftmost leaf, which it keeps.
\<close>

definition woart_prefix_mismatch :: "path_comp \<Rightarrow> woart_node kids \<Rightarrow> u64 \<Rightarrow> nat \<Rightarrow> nat res" where
  "woart_prefix_mismatch p ks key depth =
     (let m = min (min 6 (pwoartial_len p)) (8 - depth);
          idx = first_from (\<lambda>i. pwoartial p ! i \<noteq> woart_get_index key (depth + i)) 0 m
      in if idx < m then Inr idx
         else if pwoartial_len p > 6 then
           map_sum id (\<lambda>k. first_from (\<lambda>i. woart_get_index k (depth + i) \<noteq> woart_get_index key (depth + i)) idx (8 - depth))
             (woart_minimum (ONode p ks))
         else Inr idx)"

text \<open>The header of the old node below a split, and the byte at which it hangs.\<close>

definition woart_split_header :: "path_comp \<Rightarrow> woart_node kids \<Rightarrow> nat \<Rightarrow> nat \<Rightarrow> (nat \<times> path_comp) res" where
  "woart_split_header p ks depth pd =
     (let hl = pwoartial_len p - (pd + 1); hd_d = depth + pd + 1 in
      if pwoartial_len p \<le> 6 then
        Inr (pwoartial p ! pd, \<lparr>path_depth = hd_d, pwoartial_len = hl, pwoartial = take (min 6 hl) (drop (pd + 1) (pwoartial p))\<rparr>)
      else map_sum id (\<lambda>k.
             (woart_get_index k (depth + pd),
              \<lparr>path_depth = hd_d, pwoartial_len = hl,
               pwoartial = map (\<lambda>i. woart_get_index k (depth + pd + 1 + i)) [0..<min 6 hl]\<rparr>))
           (woart_minimum (ONode p ks)))"

text \<open>A new NODE4 with two children, added one after the other.\<close>

definition woart_two_children :: "nat \<Rightarrow> woart_node \<Rightarrow> nat \<Rightarrow> woart_node \<Rightarrow> woart_node kids res" where
  "woart_two_children c x c' x' =
     (case new_node4 of
        Kids4 s cs \<Rightarrow>
          (case add_child4_noflush s cs c x of
             Inr (Kids4 s' cs') \<Rightarrow> add_child4_noflush s' cs' c' x'
           | r \<Rightarrow> r)
      | ks \<Rightarrow> Inr ks)"

definition woart_split_node ::
  "path_comp \<Rightarrow> nat \<Rightarrow> nat \<Rightarrow> nat \<Rightarrow> woart_node \<Rightarrow> nat \<Rightarrow> woart_node \<Rightarrow> woart_node res" where
  "woart_split_node p depth pd c old c' leaf =
     map_sum id (ONode \<lparr>path_depth = depth, pwoartial_len = pd, pwoartial = take (min 6 pd) (pwoartial p)\<rparr>)
       (woart_two_children c old c' leaf)"

definition woart_split_leaf :: "u64 \<Rightarrow> u32 \<Rightarrow> u64 \<Rightarrow> woart_node \<Rightarrow> u64 \<Rightarrow> nat \<Rightarrow> woart_node res" where
  "woart_split_leaf key key_len v l lk depth =
     (let lp = woart_longest_common_prefix lk key depth in
      if depth + lp > 7 then Inl BadShift
      else map_sum id (ONode \<lparr>path_depth = depth, pwoartial_len = lp,
                              pwoartial = map (\<lambda>i. woart_get_index key (depth + i)) [0..<min 6 lp]\<rparr>)
             (woart_two_children (woart_get_index lk (depth + lp)) l (woart_get_index key (depth + lp)) (OLeaf v key_len key)))"

text \<open>
  The result is the node now stored at \<open>ref\<close>, the value replaced (if the key was there),
  and the bytes added to \<open>woart_memory_usage\<close>.
\<close>

definition growth :: "'a kids \<Rightarrow> 'a kids \<Rightarrow> u64" where
  "growth ks ks' = (if sizeof_node ks' = sizeof_node ks then 0 else alloc_node_bytes ks')"

function woart_recursive_insert ::
  "woart_node option \<Rightarrow> u64 \<Rightarrow> u32 \<Rightarrow> u64 \<Rightarrow> nat \<Rightarrow> (woart_node \<times> u64 option \<times> u64) res" where
  "woart_recursive_insert None key key_len v depth = Inr (OLeaf v key_len key, None, sizeof_woart_leaf)"
| "woart_recursive_insert (Some (OLeaf lv ll lk)) key key_len v depth =
     (if woart_leaf_matches ll lk key key_len = 0 then Inr (OLeaf v ll lk, Some lv, 0)
      else map_sum id (\<lambda>n. (n, None, alloc_node_bytes (new_node4 :: woart_node kids) + sizeof_woart_leaf))
             (woart_split_leaf key key_len v (OLeaf lv ll lk) lk depth))"
| "woart_recursive_insert (Some (ONode p ks)) key key_len v depth =
     (if path_depth p \<noteq> depth then Inl Exited
      else
        (case (if pwoartial_len p \<noteq> 0 then woart_prefix_mismatch p ks key depth else Inr 0) of
           Inl e \<Rightarrow> Inl e
         | Inr pd \<Rightarrow>
             if pd < pwoartial_len p then
               (if depth + pd > 7 then Inl BadShift
                else (case woart_split_header p ks depth pd of
                        Inl e \<Rightarrow> Inl e
                      | Inr (c, h) \<Rightarrow>
                          map_sum id (\<lambda>n. (n, None, alloc_node_bytes (new_node4 :: woart_node kids) + sizeof_woart_leaf))
                            (woart_split_node p depth pd c (ONode h ks)
                               (woart_get_index key (depth + pd)) (OLeaf v key_len key))))
             else
               (let depth' = depth + pwoartial_len p in
                if depth' > 7 then Inl BadShift
                else (case child_pos ks (woart_get_index key depth') of
                        Some i \<Rightarrow>
                          if i \<ge> length (children ks) then Inl OutOfBounds
                          else map_sum id (\<lambda>(c', old, m). (ONode p (store_child ks i (Some c')), old, m))
                                 (woart_recursive_insert (children ks ! i) key key_len v (Suc depth'))
                      | None \<Rightarrow>
                          map_sum id (\<lambda>ks'. (ONode p ks', None, growth ks ks' + sizeof_woart_leaf))
                            (add_child ks (woart_get_index key depth') (OLeaf v key_len key))))))"
  by pat_completeness auto
termination
  by (relation "measure (\<lambda>(n, _). size_option size n)") (auto simp: less_Suc_eq_le not_le intro: le_SucI children_size)

definition woart_put :: "woart_tree \<Rightarrow> u64 \<Rightarrow> u32 \<Rightarrow> u64 \<Rightarrow> (u64 option \<times> woart_tree) res" where
  "woart_put t key key_len v =
     (case woart_recursive_insert (woart_root t) key key_len v 0 of
        Inl e \<Rightarrow> Inl e
      | Inr (n, old, m) \<Rightarrow>
          Inr (old, \<lparr>woart_root = Some n,
                     woart_size = (if old = None then woart_size t + 1 else woart_size t),
                     woart_memory_usage = woart_memory_usage t + 8 + m\<rparr>))"

subsection \<open>Scans\<close>

function woart_all_subtree_kv :: "woart_node \<Rightarrow> (u64 \<times> u64) list" where
  "woart_all_subtree_kv (OLeaf v kl k) = [(k, v)]"
| "woart_all_subtree_kv (ONode p ks) =
     concat (map (\<lambda>i. case woart_find_child ks i of None \<Rightarrow> [] | Some c \<Rightarrow> woart_all_subtree_kv c) [0..<256])"
  by pat_completeness auto
termination
  by (relation "measure size") (auto dest: woart_find_child_size [where f = size] simp: less_SucI)

text \<open>
  The two loops over the prefix.  \<open>True\<close> means that the node is abandoned.  The second loop
  compares with \<open>left\<close> where it means \<open>right\<close>, as in the source.
\<close>

fun woart_scan_left :: "nat list \<Rightarrow> u64 \<Rightarrow> nat \<Rightarrow> bool" where
  "woart_scan_left [] left depth = False"
| "woart_scan_left (b # bs) left depth =
     (if b > woart_get_index left depth then False
      else if b < woart_get_index left depth then True
      else woart_scan_left bs left (Suc depth))"

fun woart_scan_right :: "nat list \<Rightarrow> u64 \<Rightarrow> u64 \<Rightarrow> nat \<Rightarrow> bool" where
  "woart_scan_right [] left right depth = False"
| "woart_scan_right (b # bs) left right depth =
     (if b < woart_get_index right depth then False
      else if b > woart_get_index left depth then True
      else woart_scan_right bs left right (Suc depth))"

function woart_node_scan :: "woart_node \<Rightarrow> u64 \<Rightarrow> u64 \<Rightarrow> nat \<Rightarrow> (u64 \<times> u64) list res" where
  "woart_node_scan (OLeaf v kl k) left right depth = Inr (if left \<le> k \<and> k \<le> right then [(k, v)] else [])"
| "woart_node_scan (ONode p ks) left right depth =
     (let q = take (min (min (pwoartial_len p) 6) (8 - depth)) (pwoartial p); depth' = depth + pwoartial_len p in
      if pwoartial_len p \<noteq> 0 \<and> (woart_scan_left q left depth \<or> woart_scan_right q left right depth) then Inr []
      else if depth' > 7 then Inl BadShift
      else
        (let li = woart_get_index left depth'; ri = woart_get_index right depth' in
         append_res
           (if li \<noteq> ri then
              append_res
                (case woart_find_child ks li of None \<Rightarrow> Inr [] | Some c \<Rightarrow> woart_node_scan c left (-1) (Suc depth'))
                (case woart_find_child ks ri of None \<Rightarrow> Inr [] | Some c \<Rightarrow> woart_node_scan c 0 right (Suc depth'))
            else (case woart_find_child ks li of None \<Rightarrow> Inr [] | Some c \<Rightarrow> woart_node_scan c left right (Suc depth')))
           (Inr (concat (map (\<lambda>i. case woart_find_child ks i of None \<Rightarrow> [] | Some c \<Rightarrow> woart_all_subtree_kv c)
                               [Suc li..<ri])))))"
  by pat_completeness auto
termination
  by (relation "measure (\<lambda>(n, _). size n)") (auto dest: woart_find_child_size [where f = size] simp: less_SucI)

definition woart_scan :: "woart_tree \<Rightarrow> u64 \<Rightarrow> u64 \<Rightarrow> (u64 \<times> u64) list res" where
  "woart_scan t left right =
     (case woart_root t of None \<Rightarrow> Inr [] | Some n \<Rightarrow> woart_node_scan n left right 0)"

subsection \<open>Crashes\<close>

text \<open>
  The images of the pointer at \<open>ref\<close> that a crash during \<open>recursive_insert\<close> can leave in
  persistent memory.  New nodes and leaves are flushed before the pointer to them is stored.
  A split stores that pointer and then the old node's header without a fence between them,
  so either may persist without the other.
\<close>

function woart_crash_images ::
  "woart_node option \<Rightarrow> u64 \<Rightarrow> u32 \<Rightarrow> u64 \<Rightarrow> nat \<Rightarrow> woart_node option list" where
  "woart_crash_images None key key_len v depth = [None, Some (OLeaf v key_len key)]"
| "woart_crash_images (Some (OLeaf lv ll lk)) key key_len v depth =
     Some (OLeaf lv ll lk) #
     (if woart_leaf_matches ll lk key key_len = 0 then [Some (OLeaf v ll lk)]
      else (case woart_split_leaf key key_len v (OLeaf lv ll lk) lk depth of Inl e \<Rightarrow> [] | Inr n \<Rightarrow> [Some n]))"
| "woart_crash_images (Some (ONode p ks)) key key_len v depth =
     Some (ONode p ks) #
     (if path_depth p \<noteq> depth then []
      else
        (case (if pwoartial_len p \<noteq> 0 then woart_prefix_mismatch p ks key depth else Inr 0) of
           Inl e \<Rightarrow> []
         | Inr pd \<Rightarrow>
             if pd < pwoartial_len p then
               (if depth + pd > 7 then []
                else (case woart_split_header p ks depth pd of
                        Inl e \<Rightarrow> []
                      | Inr (c, h) \<Rightarrow>
                          Some (ONode h ks) #
                          concat (map (\<lambda>old. case woart_split_node p depth pd c old
                                                (woart_get_index key (depth + pd)) (OLeaf v key_len key) of
                                            Inl e \<Rightarrow> [] | Inr n \<Rightarrow> [Some n])
                                 [ONode p ks, ONode h ks])))
             else
               (let depth' = depth + pwoartial_len p in
                if depth' > 7 then []
                else (case child_pos ks (woart_get_index key depth') of
                        Some i \<Rightarrow>
                          if i \<ge> length (children ks) then []
                          else map (\<lambda>x. Some (ONode p (store_child ks i x)))
                                 (woart_crash_images (children ks ! i) key key_len v (Suc depth'))
                      | None \<Rightarrow>
                          map (\<lambda>ks'. Some (ONode p ks'))
                            (add_images ks (woart_get_index key depth') (OLeaf v key_len key) @
                             (case add_child ks (woart_get_index key depth') (OLeaf v key_len key) of
                                Inl e \<Rightarrow> [] | Inr ks' \<Rightarrow> [ks']))))))"
  by pat_completeness auto
termination
  by (relation "measure (\<lambda>(n, _). size_option size n)") (auto simp: less_Suc_eq_le not_le intro: le_SucI children_size)

end
