(* ===== verification/Woart_Kids.thy ===== *)
theory Woart_Kids
  imports Woart_Node Index
begin

text \<open>
  The layouts of \<^verbatim>\<open>woart.cpp\<close> as finite maps from bytes to children: adding a child updates
  the map at its byte, whether it goes into the node or makes the node grow, and storing
  through the pointer \<open>find_child\<close> returns updates it too.  The locale \<open>child_store\<close> is the
  contract the tree relies on.
\<close>

subsection \<open>The contract\<close>

locale child_store =
  fixes ok :: "'n \<Rightarrow> bool"
    and find :: "'n \<Rightarrow> nat \<Rightarrow> 'c option"
    and add :: "'n \<Rightarrow> nat \<Rightarrow> 'c \<Rightarrow> 'n res"
  assumes add_ok: "ok n \<Longrightarrow> b < 256 \<Longrightarrow> find n b = None \<Longrightarrow>
    \<exists>n'. add n b x = Inr n' \<and> ok n' \<and> (\<forall>b'<256. find n' b' = (if b' = b then Some x else find n b'))"
begin

text \<open>Distinct bytes added one after the other are all found, whatever the node becomes.\<close>

lemma add_all:
  "ok n \<Longrightarrow> distinct (map fst bxs) \<Longrightarrow> (\<And>b. b \<in> fst ` set bxs \<Longrightarrow> b < 256 \<and> find n b = None) \<Longrightarrow>
   \<exists>n'. run_puts add n bxs = Inr n' \<and> ok n' \<and> (\<forall>b<256. find n' b = (find n ++ map_of bxs) b)"
proof (induction bxs arbitrary: n)
  case Nil
  then show ?case by simp
next
  case (Cons bx bxs)
  obtain b x where bx: "bx = (b, x)" by (cases bx)
  from Cons.prems(3) [of b] bx have b: "b < 256" "find n b = None" by auto
  from add_ok [OF Cons.prems(1) b, of x] obtain n1 where
    n1: "add n b x = Inr n1" "ok n1" "\<And>b'. b' < 256 \<Longrightarrow> find n1 b' = (if b' = b then Some x else find n b')" by blast
  from Cons.prems(2) bx have d: "distinct (map fst bxs)" "b \<notin> fst ` set bxs" by auto
  have "b' < 256 \<and> find n1 b' = None" if "b' \<in> fst ` set bxs" for b'
  proof -
    from that d(2) have "b' \<noteq> b" by metis
    with that Cons.prems(3) [of b'] n1(3) [of b'] show ?thesis by auto
  qed
  from Cons.IH [OF n1(2) d(1) this] obtain n' where
    n': "run_puts add n1 bxs = Inr n'" "ok n'" "\<And>b. b < 256 \<Longrightarrow> find n' b = (find n1 ++ map_of bxs) b" by blast
  have m: "map_of bxs b = None" using d(2) by (simp add: map_of_eq_None_iff)
  have "find n' b' = (find n ++ map_of (bx # bxs)) b'" if "b' < 256" for b'
    using n'(3) [OF that] n1(3) [OF that] m bx by (cases "b' = b"; cases "map_of bxs b'") (simp_all add: map_add_def)
  moreover have "run_puts add n (bx # bxs) = Inr n'" using n'(1) n1(1) bx by simp
  ultimately show ?case using n'(2) by blast
qed

end

subsection \<open>Positions\<close>

lemma option_eqI: "(\<And>i. x = Some i \<longleftrightarrow> y = Some i) \<Longrightarrow> x = y"
  by (metis option.exhaust)

text \<open>Bytes have their own positions, inside the array and not null.\<close>

definition positions_ok :: "'a kids \<Rightarrow> bool" where
  "positions_ok ks \<longleftrightarrow>
     (\<forall>b<256. \<forall>i. child_pos ks b = Some i \<longrightarrow> i < length (children ks) \<and> children ks ! i \<noteq> None) \<and>
     (\<forall>b<256. \<forall>b'<256. child_pos ks b = child_pos ks b' \<longrightarrow> child_pos ks b \<noteq> None \<longrightarrow> b = b')"

lemma find_child_pos:
  "positions_ok ks \<Longrightarrow> b < 256 \<Longrightarrow>
   woart_find_child ks b = (case child_pos ks b of None \<Rightarrow> None | Some i \<Rightarrow> children ks ! i)"
  by (auto simp: woart_find_child_def positions_ok_def split: option.splits)

lemma find_child_None: "positions_ok ks \<Longrightarrow> b < 256 \<Longrightarrow> woart_find_child ks b = None \<longleftrightarrow> child_pos ks b = None"
  by (auto simp: find_child_pos positions_ok_def split: option.splits)

text \<open>A child stored at a free position under a new byte.\<close>

lemma positions_add:
  assumes ok: "positions_ok ks" and c: "c < 256" "child_pos ks c = None"
    and p: "p < length (children ks)" "\<And>b. b < 256 \<Longrightarrow> child_pos ks b \<noteq> Some p"
    and pos: "\<And>b. b < 256 \<Longrightarrow> child_pos ks' b = (if b = c then Some p else child_pos ks b)"
    and cs: "children ks' = (children ks)[p := Some x]"
  shows "positions_ok ks'" "b < 256 \<Longrightarrow> woart_find_child ks' b = (if b = c then Some x else woart_find_child ks b)"
proof -
  note o = ok [unfolded positions_ok_def]
  show ok': "positions_ok ks'"
    unfolding positions_ok_def
  proof (intro conjI allI impI)
    fix b i assume "b < 256" "child_pos ks' b = Some i"
    then show "i < length (children ks')" "children ks' ! i \<noteq> None"
      using o p(1) pos [of b] cs by (auto simp: nth_list_update split: if_splits)
  next
    fix b b' assume b: "b < 256" "b' < 256" "child_pos ks' b = child_pos ks' b'" "child_pos ks' b \<noteq> None"
    then show "b = b'" using o p(2) [of b] p(2) [of b'] pos [of b] pos [of b'] by (auto split: if_splits)
  qed
  show "woart_find_child ks' b = (if b = c then Some x else woart_find_child ks b)" if b: "b < 256"
  proof (cases "b = c")
    case True
    with pos [OF b] p(1) cs c(1) show ?thesis by (simp add: find_child_pos [OF ok'])
  next
    case False
    with p(2) [OF b] pos [OF b] cs show ?thesis
      by (cases "child_pos ks b") (simp_all add: find_child_pos [OF ok' b] find_child_pos [OF ok b])
  qed
qed

subsection \<open>Bitmaps built by addition\<close>

lemma bit_sum_of_bits:
  "distinct ps \<Longrightarrow> (\<And>p. p \<in> set ps \<Longrightarrow> p < 64) \<Longrightarrow>
   bit (sum_list (map (\<lambda>p. push_bit p 1) ps) :: u64) i \<longleftrightarrow> i \<in> set ps"
proof (induction ps arbitrary: i)
  case (Cons p ps)
  let ?s = "sum_list (map (\<lambda>p. push_bit p 1) ps) :: u64"
  have IH: "bit ?s i \<longleftrightarrow> i \<in> set ps" for i using Cons by simp
  have one: "bit (push_bit p 1 :: u64) i \<longleftrightarrow> i = p" for i using Cons.prems(2) [of p]
    by (simp only: bit_push_bit_iff bit_1_iff possible_bit_word) auto
  have "push_bit p 1 + ?s = push_bit p 1 OR ?s"
    by (rule disjunctive_add) (use Cons.prems(1) IH one in auto)
  then show ?case by (simp add: bit_or_iff one IH del: push_bit_of_1)
qed simp

lemma first_zero_bit:
  assumes "m \<le> 64" "\<exists>i<m. \<not> bit w i"
  shows "find_next_zero_bit w m 0 < m \<and> \<not> bit w (find_next_zero_bit w m 0)"
proof -
  note f = first_from_props [of 0 "\<lambda>i. \<not> bit w i" m]
  have "first_from (\<lambda>i. \<not> bit w i) 0 m < m"
  proof (rule ccontr)
    assume "\<not> ?thesis"
    with assms(2) f show False by (meson less_le_trans not_less zero_le)
  qed
  with f assms(1) show ?thesis by (simp add: find_next_zero_bit_first)
qed

lemma not_all_below: "finite A \<Longrightarrow> card A < n \<Longrightarrow> \<exists>i<n. i \<notin> A"
  by (metis card_lessThan card_mono leD lessThan_iff subsetI)

subsection \<open>NODE4\<close>

lemma used_slots_pad [simp]: "used_slots (map Some us @ replicate n None) = us"
proof (induction us)
  case Nil
  then show ?case by (cases n) auto
qed auto

lemma used_slots_full [simp]: "used_slots (map Some us) = us"
  using used_slots_pad [of us 0] by simp

lemma insert_slot:
  assumes s: "sorted_wrt (<) (map fst us)" and c: "c \<notin> fst ` set us"
  defines "mid \<equiv> (case find_index (\<lambda>(k, p). c < k) us of Some i \<Rightarrow> i | None \<Rightarrow> length us)"
  shows "sorted_wrt (<) (map fst (take mid us @ [(c :: nat, p :: nat)] @ drop mid us))" "mid \<le> length us"
proof -
  have ne: "fst (us ! i) \<noteq> c" if "i < length us" for i using c that by (metis image_eqI nth_mem)
  have mid: "mid \<le> length us \<and> (\<forall>i<mid. fst (us ! i) < c) \<and> (mid < length us \<longrightarrow> c < fst (us ! mid))"
  proof (cases "find_index (\<lambda>(k, p). c < k) us")
    case None
    then have "\<not> c < fst (us ! i)" if "i < length us" for i
      using nth_mem [OF that] by (simp add: case_prod_beta)
    then have "fst (us ! i) < c" if "i < length us" for i using ne [OF that] that by (meson linorder_neqE_nat)
    then show ?thesis unfolding mid_def None by simp
  next
    case (Some m)
    from find_index_SomeD [OF Some] have "m < length us" "c < fst (us ! m)" "\<And>j. j < m \<Longrightarrow> \<not> c < fst (us ! j)"
      by (auto simp: case_prod_beta)
    moreover from this have "fst (us ! i) < c" if "i < m" for i using ne [of i] that by (meson linorder_neqE_nat less_trans)
    ultimately show ?thesis using Some by (simp add: mid_def)
  qed
  then show "mid \<le> length us" by simp
  have a: "x < c" if x: "x \<in> fst ` set (take mid us)" for x
  proof -
    from x obtain u where "u \<in> set (take mid us)" "x = fst u" by blast
    then obtain i where "i < mid" "x = fst (us ! i)" by (auto simp: in_set_conv_nth)
    with mid show ?thesis by simp
  qed
  have b: "c < x" if x: "x \<in> fst ` set (drop mid us)" for x
  proof -
    from x obtain j where j: "j < length us - mid" "x = fst (us ! (mid + j))" by (auto simp: in_set_conv_nth)
    then have "fst (us ! mid) \<le> x" using s by (cases j) (auto simp: sorted_wrt_iff_nth_less intro: less_imp_le)
    with mid j(1) show ?thesis by auto
  qed
  have "sorted_wrt (<) (map fst (take mid us) @ map fst (drop mid us))" using s by (simp flip: map_append)
  with a b show "sorted_wrt (<) (map fst (take mid us @ [(c, p)] @ drop mid us))"
    by (auto simp: sorted_wrt_append)
qed

text \<open>The slots in use, sorted by key, each with its own position.\<close>

definition slots_ok :: "(nat \<times> nat) list \<Rightarrow> bool" where
  "slots_ok us \<longleftrightarrow> length us \<le> 4 \<and> distinct (map snd us) \<and> sorted_wrt (<) (map fst us) \<and>
     (\<forall>(k, p)\<in>set us. k < 256 \<and> p < 4)"

lemma slots_distinct: "slots_ok us \<Longrightarrow> distinct (map fst us)"
  by (simp add: slots_ok_def strict_sorted_iff)

lemma slots_pos:
  assumes "slots_ok us"
  shows "map_of us c = Some p \<longleftrightarrow> (c, p) \<in> set us"
    "\<lbrakk>map_of us c = Some p; map_of us c' = Some p\<rbrakk> \<Longrightarrow> c = c'"
proof -
  show m: "map_of us c = Some p \<longleftrightarrow> (c, p) \<in> set us" for c p
    using slots_distinct [OF assms] by (rule map_of_eq_Some_iff)
  have "inj_on snd (set us)" using assms by (simp add: slots_ok_def distinct_map)
  then show "\<lbrakk>map_of us c = Some p; map_of us c' = Some p\<rbrakk> \<Longrightarrow> c = c'"
    using inj_onD [of snd "set us" "(c, p)" "(c', p)"] unfolding m by simp
qed

lemma bit_slot_bits:
  assumes "slots_ok us"
  shows "bit (slot_bits us) i \<longleftrightarrow> i \<in> snd ` set us"
proof -
  have "slot_bits us = sum_list (map (\<lambda>p. push_bit p 1) (map snd us))"
    unfolding slot_bits_def by (simp only: map_map o_def case_prod_unfold)
  moreover have "p < 64" if "p \<in> set (map snd us)" for p
  proof -
    have "p < 4" using that assms by (auto simp: slots_ok_def)
    then show ?thesis by simp
  qed
  moreover have "distinct (map snd us)" using assms by (simp add: slots_ok_def)
  ultimately show ?thesis using bit_sum_of_bits [of "map snd us" i] by simp
qed

text \<open>A node with fewer than four slots in use has a free position.\<close>

lemma slots_free:
  assumes "slots_ok us" "length us < 4"
  defines "p \<equiv> find_next_zero_bit (slot_bits us) 4 0"
  shows "p < 4" "p \<notin> snd ` set us"
proof -
  have "card (snd ` set us) < 4"
    using assms(2) card_image_le [of "set us" snd] card_length [of us] by simp
  then have "\<exists>i<4. \<not> bit (slot_bits us) i"
    using not_all_below [of "snd ` set us" 4] by (simp add: bit_slot_bits [OF assms(1)])
  from first_zero_bit [OF _ this] show "p < 4" "p \<notin> snd ` set us"
    by (simp_all add: p_def bit_slot_bits [OF assms(1)])
qed

lemma slots_ok_insert:
  assumes ok: "slots_ok us" and len: "length us < 4" and c: "c < 256" "c \<notin> fst ` set us"
  defines "mid \<equiv> (case find_index (\<lambda>(k, p). c < k) us of Some i \<Rightarrow> i | None \<Rightarrow> length us)"
    and "p \<equiv> find_next_zero_bit (slot_bits us) 4 0"
  defines "us' \<equiv> take mid us @ [(c, p)] @ drop mid us"
  shows "slots_ok us'" "length us' = Suc (length us)" "map_of us' = (map_of us)(c \<mapsto> p)"
proof -
  note f = slots_free [OF ok len, folded p_def]
  have s: "sorted_wrt (<) (map fst us)" "distinct (map snd us)" using ok by (auto simp: slots_ok_def)
  note i = insert_slot(1) [OF s(1) c(2), where p = p, folded mid_def, folded us'_def]
    insert_slot(2) [OF s(1) c(2), folded mid_def]
  show l: "length us' = Suc (length us)" using i(2) by (simp add: us'_def)
  have st: "set us' = insert (c, p) (set us)"
    unfolding us'_def by (metis append_take_drop_id insert_is_Un set_append list.simps(15) set_empty2 empty_set sup_left_commute)
  have "distinct (map snd (take mid us @ drop mid us))" using s(2) by simp
  moreover have "p \<notin> snd ` set (take mid us)" "p \<notin> snd ` set (drop mid us)"
    using f(2) set_take_subset [of mid us] set_drop_subset [of mid us] by auto
  ultimately have "distinct (map snd us')"
    unfolding us'_def map_append distinct_append by auto
  then show ok': "slots_ok us'"
    using ok i(1) l len st c(1) f(1) by (auto simp: slots_ok_def)
  show "map_of us' = (map_of us)(c \<mapsto> p)"
  proof
    fix b
    have "map_of us' b = Some q \<longleftrightarrow> ((map_of us)(c \<mapsto> p)) b = Some q" for q
      using c(2) by (auto simp: slots_pos(1) [OF ok'] slots_pos(1) [OF ok] st rev_image_eqI)
    then show "map_of us' b = ((map_of us)(c \<mapsto> p)) b" by (rule option_eqI)
  qed
qed

subsection \<open>The invariant of a node\<close>

definition bytes16_ok :: "u64 \<Rightarrow> nat list \<Rightarrow> bool" where
  "bytes16_ok w k \<longleftrightarrow> length k = 16 \<and> (\<forall>i. bit w i \<longrightarrow> i < 16 \<and> k ! i < 256) \<and>
     (\<forall>i j. bit w i \<longrightarrow> bit w j \<longrightarrow> k ! i = k ! j \<longrightarrow> i = j)"

fun layout_ok :: "'a kids \<Rightarrow> bool" where
  "layout_ok (Kids4 s cs) \<longleftrightarrow>
     (\<exists>us. slots_ok us \<and> s = map Some us @ replicate (4 - length us) None) \<and> length cs = 4"
| "layout_ok (Kids16 w k cs) \<longleftrightarrow> bytes16_ok w k \<and> length cs = 16"
| "layout_ok (Kids48 k cs) \<longleftrightarrow> length k = 256 \<and> length cs = 48 \<and> (\<forall>b<256. k ! b \<le> 48)"
| "layout_ok (Kids256 cs) \<longleftrightarrow> length cs = 256"

definition kids_ok :: "'a kids \<Rightarrow> bool" where
  "kids_ok ks \<longleftrightarrow> layout_ok ks \<and> positions_ok ks"

lemma new_node4_ok: "kids_ok (new_node4 :: 'a kids)" "woart_find_child (new_node4 :: 'a kids) b = None"
proof -
  have u: "used_slots (replicate 4 None) = []" by (simp add: numeral_eq_Suc)
  then have p: "child_pos (new_node4 :: 'a kids) b = None" for b by (simp add: child_pos_def new_node4_def)
  have "\<exists>us. slots_ok us \<and> replicate 4 None = map Some us @ replicate (4 - length us) None"
    by (rule exI [of _ "[]"]) (simp add: slots_ok_def)
  then have "layout_ok (new_node4 :: 'a kids)" by (simp add: new_node4_def)
  then show "kids_ok (new_node4 :: 'a kids)" by (simp add: kids_ok_def positions_ok_def p)
  show "woart_find_child (new_node4 :: 'a kids) b = None" using p by (simp add: woart_find_child_def)
qed

text \<open>Adding to a NODE4 with a free slot.\<close>

lemma add_noflush_ok:
  assumes ok: "kids_ok (Kids4 s cs)" and free: "length (used_slots s) < 4" and c: "c < 256" "woart_find_child (Kids4 s cs) c = None"
  shows "\<exists>s' cs'. add_child4_noflush s cs c x = Inr (Kids4 s' cs') \<and> kids_ok (Kids4 s' cs') \<and>
    length (used_slots s') = Suc (length (used_slots s)) \<and>
    (\<forall>b<256. woart_find_child (Kids4 s' cs') b = (if b = c then Some x else woart_find_child (Kids4 s cs) b))"
proof -
  from ok obtain us where us: "slots_ok us" "s = map Some us @ replicate (4 - length us) None" and len: "length cs = 4"
    and pos: "positions_ok (Kids4 s cs)" by (auto simp: kids_ok_def)
  then have u: "used_slots s = us" by simp
  with free have l: "length us < 4" by simp
  have cp: "child_pos (Kids4 s cs') b = map_of us b" for b and cs' :: "'a option list" by (simp add: child_pos_def u)
  have m: "map_of us c = None" using c find_child_None [OF pos c(1)] cp by simp
  then have nc: "c \<notin> fst ` set us" by (simp add: map_of_eq_None_iff)
  define mid where "mid = (case find_index (\<lambda>(k, p). c < k) us of Some i \<Rightarrow> i | None \<Rightarrow> length us)"
  define p where "p = find_next_zero_bit (slot_bits us) 4 0"
  define us' where "us' = take mid us @ [(c, p)] @ drop mid us"
  define s' where "s' = map Some us' @ replicate (4 - length us') None"
  note ins = slots_ok_insert [OF us(1) l c(1) nc, folded mid_def p_def, folded us'_def]
  note free' = slots_free [OF us(1) l, folded p_def]
  have r: "add_child4_noflush s cs c x = Inr (Kids4 s' (cs[p := Some x]))"
    using free'(1) ins(2)
    by (simp add: add_child4_noflush_def u Let_def mid_def [symmetric] p_def [symmetric] us'_def s'_def)
  have cp': "child_pos (Kids4 s' (cs[p := Some x])) b = (if b = c then Some p else child_pos (Kids4 s cs) b)" for b
    by (simp add: child_pos_def s'_def ins(3) u)
  have np: "child_pos (Kids4 s cs) b \<noteq> Some p" for b
    using free'(2) by (auto simp: cp slots_pos(1) [OF us(1)] rev_image_eqI)
  note add = positions_add [OF pos c(1), of p "Kids4 s' (cs[p := Some x])" x]
  have "positions_ok (Kids4 s' (cs[p := Some x]))"
    using free'(1) len np cp' m cp by (intro add(1)) (simp_all add: children_def)
  moreover have "woart_find_child (Kids4 s' (cs[p := Some x])) b = (if b = c then Some x else woart_find_child (Kids4 s cs) b)"
    if "b < 256" for b
    using free'(1) len np cp' m cp that by (intro add(2)) (simp_all add: children_def)
  moreover have "length (used_slots s') = Suc (length (used_slots s))" using ins(2) u by (simp add: s'_def)
  moreover have "layout_ok (Kids4 s' (cs[p := Some x]))"
    using ins(1) len by (auto simp: s'_def)
  ultimately show ?thesis using r by (auto simp: kids_ok_def)
qed

lemma slot3_free:
  assumes "layout_ok (Kids4 s cs)"
  shows "s ! 3 = None \<longleftrightarrow> length (used_slots s) < 4"
proof -
  from assms obtain us where us: "slots_ok us" "s = map Some us @ replicate (4 - length us) None" by auto
  then have "length us \<le> 4" by (simp add: slots_ok_def)
  with us show ?thesis by (cases "length us < 4") (auto simp: nth_append)
qed

subsection \<open>NODE16\<close>

lemma find_key16_props:
  "i \<le> 16 \<Longrightarrow>
   (case find_key16 w k c i of
      None \<Rightarrow> \<forall>j. i \<le> j \<longrightarrow> j < 16 \<longrightarrow> bit w j \<longrightarrow> k ! j \<noteq> c
    | Some j \<Rightarrow> i \<le> j \<and> j < 16 \<and> bit w j \<and> k ! j = c)"
proof (induction w k c i rule: find_key16.induct)
  case (1 w k c i)
  let ?j = "find_next_bit w 16 i"
  show ?case
  proof (cases "i < 16")
    case True
    then have j: "?j = first_from (bit w) i 16" by (rule find_next_bit_16)
    note f = first_from_props [of i "bit w" 16, folded j]
    show ?thesis
    proof (cases "?j < 16 \<and> k ! ?j = c")
      case True
      with \<open>i < 16\<close> f show ?thesis by (simp add: find_key16.simps [of w k c i] Let_def)
    next
      case False
      have r: "find_key16 w k c i = find_key16 w k c (Suc ?j)"
        using False \<open>i < 16\<close> by (subst find_key16.simps) (auto simp: Let_def)
      have skip: "k ! m \<noteq> c" if "i \<le> m" "m \<le> ?j" "m < 16" "bit w m" for m
        using that False f by (cases "m = ?j") auto
      show ?thesis
      proof (cases "?j < 16")
        case True
        then have ih: "case find_key16 w k c (Suc ?j) of None \<Rightarrow> \<forall>m. Suc ?j \<le> m \<longrightarrow> m < 16 \<longrightarrow> bit w m \<longrightarrow> k ! m \<noteq> c
            | Some m \<Rightarrow> Suc ?j \<le> m \<and> m < 16 \<and> bit w m \<and> k ! m = c"
          using "1.IH" [OF \<open>i < 16\<close> refl False] by simp
        show ?thesis
        proof (cases "find_key16 w k c (Suc ?j)")
          case None
          with ih have "k ! m \<noteq> c" if "i \<le> m" "m < 16" "bit w m" for m
            using skip [OF that(1) _ that(2,3)] that by (cases "m \<le> ?j") (auto simp: not_le)
          then show ?thesis unfolding r None by simp
        next
          case (Some m)
          with ih f show ?thesis unfolding r by simp
        qed
      next
        case False
        then have "find_key16 w k c (Suc ?j) = None" by (simp add: find_key16.simps)
        with skip False r show ?thesis by (simp add: not_less)
      qed
    qed
  qed (simp add: find_key16.simps)
qed

lemma find_key16_iff:
  assumes "bytes16_ok w k"
  shows "find_key16 w k c 0 = Some i \<longleftrightarrow> bit w i \<and> k ! i = c"
proof -
  have "i < 16" if "bit w i" using that assms by (simp add: bytes16_ok_def)
  with find_key16_props [of 0 w k c] assms show ?thesis
    by (cases "find_key16 w k c 0") (auto simp: bytes16_ok_def)
qed

lemma positions16:
  assumes "bytes16_ok w k" "length cs = 16"
  shows "positions_ok (Kids16 w k cs) \<longleftrightarrow> (\<forall>i. bit w i \<longrightarrow> cs ! i \<noteq> None)"
proof
  assume p: "positions_ok (Kids16 w k cs)"
  show "\<forall>i. bit w i \<longrightarrow> cs ! i \<noteq> None"
  proof (intro allI impI)
    fix i assume "bit w i"
    then have "k ! i < 256" "child_pos (Kids16 w k cs) (k ! i) = Some i"
      using assms(1) by (simp_all add: child_pos_def find_key16_iff bytes16_ok_def)
    with p show "cs ! i \<noteq> None" by (simp add: positions_ok_def children_def)
  qed
next
  assume v: "\<forall>i. bit w i \<longrightarrow> cs ! i \<noteq> None"
  have lt: "i < 16" if "bit w i" for i using that assms(1) by (simp add: bytes16_ok_def)
  have cp: "child_pos (Kids16 w k cs) b = Some i \<longleftrightarrow> bit w i \<and> k ! i = b" for b i
    by (simp add: child_pos_def find_key16_iff [OF assms(1)])
  show "positions_ok (Kids16 w k cs)"
    unfolding positions_ok_def
  proof (intro conjI allI impI)
    fix b i assume "child_pos (Kids16 w k cs) b = Some i"
    then show "i < length (children (Kids16 w k cs))" "children (Kids16 w k cs) ! i \<noteq> None"
      using v cp [of b i] lt assms(2) by (simp_all add: children_def)
  next
    fix b b' assume e: "child_pos (Kids16 w k cs) b = child_pos (Kids16 w k cs) b'" "child_pos (Kids16 w k cs) b \<noteq> None"
    then obtain i where "child_pos (Kids16 w k cs) b = Some i" by blast
    with e(1) cp [of b i] cp [of b' i] show "b = b'" by simp
  qed
qed

lemma bit_add_bit:
  assumes "p < 64" "\<not> bit w p"
  shows "bit (w + push_bit p 1 :: u64) i \<longleftrightarrow> bit w i \<or> i = p"
proof -
  have one: "bit (push_bit p 1 :: u64) i \<longleftrightarrow> i = p" for i
    using assms(1) by (simp only: bit_push_bit_iff bit_1_iff possible_bit_word) auto
  have "w + push_bit p 1 = w OR push_bit p 1" by (rule disjunctive_add) (use assms one in auto)
  then show ?thesis by (simp add: bit_or_iff one del: push_bit_of_1)
qed

lemma full16:
  assumes "bytes16_ok w k"
  shows "w = push_bit 16 1 - 1 \<longleftrightarrow> (\<forall>i<16. bit w i)"
proof -
  have "push_bit 16 1 - 1 = (mask 16 :: u64)" by (simp add: mask_eq_exp_minus_1)
  moreover have "w = mask 16 \<longleftrightarrow> (\<forall>i<16. bit w i)"
    using assms by (auto simp: bytes16_ok_def bit_eq_iff bit_mask_iff)
  ultimately show ?thesis by simp
qed

text \<open>Adding to a NODE16 with a free place.\<close>

lemma add16_ok:
  assumes ok: "kids_ok (Kids16 w k cs)" and free: "w \<noteq> push_bit 16 1 - 1"
    and c: "c < 256" "woart_find_child (Kids16 w k cs) c = None"
  shows "\<exists>n'. add_child16 w k cs c x = Inr n' \<and> kids_ok n' \<and>
    (\<forall>b<256. woart_find_child n' b = (if b = c then Some x else woart_find_child (Kids16 w k cs) b))"
proof -
  from ok have b: "bytes16_ok w k" and len: "length cs = 16" and pos: "positions_ok (Kids16 w k cs)" by (auto simp: kids_ok_def)
  define e where "e = find_next_zero_bit w 16 0"
  have "e < 16 \<and> \<not> bit w e" unfolding e_def using free full16 [OF b] by (intro first_zero_bit) auto
  then have e: "e < 16" "\<not> bit w e" by auto
  define w' where "w' = w + push_bit e 1"
  let ?k = "k[e := c]" and ?cs = "cs[e := Some x]"
  have bw: "bit w' i \<longleftrightarrow> bit w i \<or> i = e" for i unfolding w'_def using e by (intro bit_add_bit) auto
  have nc: "k ! i \<noteq> c" if "bit w i" for i
    using that c find_child_None [OF pos c(1)] find_key16_iff [OF b, of c i] by (simp add: child_pos_def)
  have b': "bytes16_ok w' ?k"
    using b e c(1) nc unfolding bytes16_ok_def bw by (auto simp: nth_list_update)
  have cp: "child_pos (Kids16 w' ?k ?cs) d = (if d = c then Some e else child_pos (Kids16 w k cs) d)" for d
  proof (rule option_eqI)
    fix i
    have "find_key16 w' ?k d 0 = Some i \<longleftrightarrow> (if d = c then Some e else find_key16 w k d 0) = Some i"
      using e nc b by (auto simp: find_key16_iff [OF b'] find_key16_iff [OF b] bw nth_list_update bytes16_ok_def)
    then show "child_pos (Kids16 w' ?k ?cs) d = Some i \<longleftrightarrow> (if d = c then Some e else child_pos (Kids16 w k cs) d) = Some i"
      by (simp add: child_pos_def)
  qed
  have np: "child_pos (Kids16 w k cs) d \<noteq> Some e" for d using e(2) by (simp add: child_pos_def find_key16_iff [OF b])
  have m: "child_pos (Kids16 w k cs) c = None" using c find_child_None [OF pos c(1)] by simp
  note add = positions_add [OF pos c(1) m _ np, of "Kids16 w' ?k ?cs" x, OF _ cp]
  have "add_child16 w k cs c x = Inr (Kids16 w' ?k ?cs)"
    using free e by (simp add: add_child16_def Let_def e_def [symmetric] w'_def)
  moreover have "positions_ok (Kids16 w' ?k ?cs)" using e len by (intro add(1)) (simp_all add: children_def)
  moreover have "woart_find_child (Kids16 w' ?k ?cs) d = (if d = c then Some x else woart_find_child (Kids16 w k cs) d)"
    if "d < 256" for d using that e len by (intro add(2)) (simp_all add: children_def)
  ultimately show ?thesis using b' len by (simp add: kids_ok_def)
qed

subsection \<open>Growing\<close>

text \<open>Loops that store one array element per entry of a list.\<close>

lemma fold_update_length [simp]: "length (fold (\<lambda>u xs. xs[f u := g u]) us xs) = length xs"
  by (induction us arbitrary: xs) auto

lemma fold_update:
  "distinct (map f us) \<Longrightarrow> (\<And>u. u \<in> set us \<Longrightarrow> f u < length xs) \<Longrightarrow> i < length xs \<Longrightarrow>
   fold (\<lambda>u xs. xs[f u := g u]) us xs ! i = (case find_index (\<lambda>u. f u = i) us of None \<Rightarrow> xs ! i | Some j \<Rightarrow> g (us ! j))"
proof (induction us arbitrary: xs)
  case (Cons u us)
  have IH: "fold (\<lambda>u xs. xs[f u := g u]) us (xs[f u := g u]) ! i =
      (case find_index (\<lambda>u. f u = i) us of None \<Rightarrow> xs[f u := g u] ! i | Some j \<Rightarrow> g (us ! j))"
    using Cons.prems by (intro Cons.IH) auto
  show ?case
  proof (cases "f u = i")
    case True
    then have n: "find_index (\<lambda>u. f u = i) us = None" using Cons.prems(1) by (auto simp: image_iff)
    show ?thesis unfolding fold_simps o_apply IH n using True Cons.prems(3) by simp
  next
    case False
    then show ?thesis unfolding fold_simps o_apply IH
      by (cases "find_index (\<lambda>u. f u = i) us") (simp_all del: find_index_None)
  qed
qed simp

lemma fold_update_in:
  "distinct (map f us) \<Longrightarrow> (\<And>u. u \<in> set us \<Longrightarrow> f u < length xs) \<Longrightarrow> u \<in> set us \<Longrightarrow>
   fold (\<lambda>u xs. xs[f u := g u]) us xs ! f u = g u"
proof (induction us arbitrary: xs)
  case (Cons v us)
  show ?case
  proof (cases "u \<in> set us")
    case True
    with Cons show ?thesis by simp
  next
    case False
    with Cons.prems have "u = v" "f u \<notin> f ` set us" by auto
    then have "find_index (\<lambda>w. f w = f u) us = None" by (auto simp: image_iff)
    with fold_update [of f us "xs[f u := g u]" "f u" g] Cons.prems \<open>u = v\<close> show ?thesis
      by (simp del: find_index_None)
  qed
qed simp

lemma fold_update_out:
  "(\<And>u. u \<in> set us \<Longrightarrow> f u \<noteq> i) \<Longrightarrow> fold (\<lambda>u xs. xs[f u := g u]) us xs ! i = xs ! i"
  by (induction us arbitrary: xs) auto

lemma grow4_ok:
  assumes ok: "kids_ok (Kids4 s cs)" and full: "s ! 3 \<noteq> None" and c: "c < 256" "woart_find_child (Kids4 s cs) c = None"
  shows "kids_ok (grow4 s cs c x)" "b < 256 \<Longrightarrow> woart_find_child (grow4 s cs c x) b = (if b = c then Some x else woart_find_child (Kids4 s cs) b)"
proof -
  from ok obtain us where us: "slots_ok us" "s = map Some us @ replicate (4 - length us) None" and len: "length cs = 4"
    and pos: "positions_ok (Kids4 s cs)" and lay: "layout_ok (Kids4 s cs)" by (auto simp: kids_ok_def)
  then have u: "used_slots s = us" by simp
  have l4: "length us = 4" using slot3_free [OF lay] full us(1) u by (simp add: slots_ok_def)
  have cp: "child_pos (Kids4 s cs) b = map_of us b" for b by (simp add: child_pos_def u)
  have m: "map_of us c = None" using c find_child_None [OF pos c(1)] cp by simp
  define w where "w = slot_bits us + push_bit 4 1"
  define k where "k = (fold (\<lambda>u ks. ks[snd u := fst u]) us (replicate 16 0))[4 := c]"
  define cs' where "cs' = (fold (\<lambda>u cs'. cs'[snd u := cs ! snd u]) us (replicate 16 None))[4 := Some x]"
  have g: "grow4 s cs c x = Kids16 w k cs'"
    unfolding grow4_def u w_def k_def cs'_def by (simp add: case_prod_unfold)
  have "card (snd ` set us) = 4" using us(1) l4 distinct_card [of "map snd us"] by (simp add: slots_ok_def)
  moreover have sub: "snd ` set us \<subseteq> {..<4}" using us(1) by (auto simp: slots_ok_def)
  ultimately have all: "snd ` set us = {..<4}" by (intro card_subset_eq) simp_all
  have lt: "p < 4" "a < 256" if "(a, p) \<in> set us" for a p using that us(1) by (auto simp: slots_ok_def)
  have d: "distinct (map snd us)" using us(1) by (simp add: slots_ok_def)
  have in16: "v \<in> set us \<Longrightarrow> snd v < length (replicate 16 y)" for v and y :: 'b using lt(1) [of "fst v" "snd v"] by simp
  have kp: "k ! p = a" "cs' ! p = cs ! p" if "(a, p) \<in> set us" for a p
    using fold_update_in [OF d in16 that, where g = fst] fold_update_in [OF d in16 that, where g = "\<lambda>u. cs ! snd u"] lt(1) [OF that]
    by (simp_all add: k_def cs'_def)
  have k4: "k ! 4 = c" "cs' ! 4 = Some x" "length k = 16" "length cs' = 16" by (simp_all add: k_def cs'_def)
  have bw: "bit w i \<longleftrightarrow> i \<in> snd ` set us \<or> i = 4" for i
    unfolding w_def using bit_add_bit [of 4 "slot_bits us" i] by (simp add: bit_slot_bits [OF us(1)] all)
  have at: "(\<exists>a. (a, i) \<in> set us \<and> k ! i = a) \<or> i = 4" if "bit w i" for i
    using that kp unfolding bw by auto
  have cn: "(c, p) \<notin> set us" for p using m by (auto simp: map_of_eq_None_iff rev_image_eqI)
  have b: "bytes16_ok w k"
    unfolding bytes16_ok_def
  proof (intro conjI allI impI)
    show "length k = 16" by (rule k4)
    show "i < 16" "k ! i < 256" if "bit w i" for i using at [OF that] lt c(1) k4(1) by fastforce+
    show "i = j" if "bit w i" "bit w j" "k ! i = k ! j" for i j
      using at [OF that(1)] at [OF that(2)] that(3) k4(1) cn slots_distinct [OF us(1)]
      by (metis eq_key_imp_eq_value)
  qed
  have cp': "child_pos (Kids16 w k cs') b = (if b = c then Some 4 else map_of us b)" for b
  proof (rule option_eqI)
    fix i
    show "child_pos (Kids16 w k cs') b = Some i \<longleftrightarrow> (if b = c then Some 4 else map_of us b) = Some i"
      using at [of i] kp(1) [of _ i] k4(1) cn
      by (auto simp: child_pos_def find_key16_iff [OF b] slots_pos(1) [OF us(1)] bw rev_image_eqI)
  qed
  have "cs' ! i \<noteq> None" if i: "bit w i" for i
  proof (cases "i = 4")
    case False
    with at [OF i] obtain a where a: "(a, i) \<in> set us" by auto
    then have "child_pos (Kids4 s cs) a = Some i" by (simp add: cp slots_pos(1) [OF us(1)])
    with pos lt(2) [OF a] kp(2) [OF a] show ?thesis by (simp add: positions_ok_def children_def)
  qed (simp add: k4)
  then have pos': "positions_ok (Kids16 w k cs')" by (simp add: positions16 [OF b k4(4)])
  with b k4(4) show "kids_ok (grow4 s cs c x)" by (simp add: g kids_ok_def)
  show "woart_find_child (grow4 s cs c x) b = (if b = c then Some x else woart_find_child (Kids4 s cs) b)" if "b < 256"
  proof (cases "map_of us b")
    case None
    then show ?thesis
      unfolding g find_child_pos [OF pos' that] find_child_pos [OF pos that] cp cp' by (simp add: children_def k4)
  next
    case (Some p)
    then have "(b, p) \<in> set us" by (simp add: slots_pos(1) [OF us(1)])
    with kp(2) cn Some show ?thesis
      unfolding g find_child_pos [OF pos' that] find_child_pos [OF pos that] cp cp' by (auto simp: children_def)
  qed
qed

text \<open>A full NODE16 becomes a NODE48 with the same positions.\<close>

lemma grow16_ok:
  assumes ok: "kids_ok (Kids16 w k cs)" and full: "w = push_bit 16 1 - 1" and c: "c < 256" "woart_find_child (Kids16 w k cs) c = None"
  shows "kids_ok (grow16 k cs c x)"
    "b < 256 \<Longrightarrow> woart_find_child (grow16 k cs c x) b = (if b = c then Some x else woart_find_child (Kids16 w k cs) b)"
proof -
  from ok have b16: "bytes16_ok w k" and len: "length cs = 16" and pos: "positions_ok (Kids16 w k cs)" by (auto simp: kids_ok_def)
  have bits: "bit w i \<longleftrightarrow> i < 16" for i using full16 [OF b16] full b16 by (auto simp: bytes16_ok_def)
  have k: "i < 16 \<Longrightarrow> k ! i < 256" "i < 16 \<Longrightarrow> j < 16 \<Longrightarrow> k ! i = k ! j \<Longrightarrow> i = j" for i j
    using b16 unfolding bytes16_ok_def bits by blast+
  have v: "i < 16 \<Longrightarrow> cs ! i \<noteq> None" for i using pos positions16 [OF b16 len] bits by simp
  have cp: "child_pos (Kids16 w k cs) b = Some i \<longleftrightarrow> i < 16 \<and> k ! i = b" for b i
    by (simp add: child_pos_def find_key16_iff [OF b16] bits)
  have nc: "k ! i \<noteq> c" if "i < 16" for i using c find_child_None [OF pos c(1)] cp [of c i] that by simp
  define k' where "k' = (fold (\<lambda>i k'. k'[k ! i := i + 1]) [0..<16] (replicate 256 0))[c := 17]"
  define cs' where "cs' = take 16 cs @ [Some x] @ replicate 31 None"
  have g: "grow16 k cs c x = Kids48 k' cs'" by (simp add: grow16_def k'_def cs'_def)
  have d: "distinct (map (\<lambda>i. k ! i) [0..<16])" by (simp add: distinct_map inj_on_def k(2))
  have lk: "length k' = 256" "length cs' = 48" by (simp_all add: k'_def cs'_def len)
  have kin: "k' ! (k ! i) = i + 1" if "i < 16" for i
    using fold_update_in [OF d, of "replicate 256 0" i "\<lambda>i. i + 1"] that k(1) nc [OF that] by (simp add: k'_def)
  have kout: "k' ! b = 0" if "b < 256" "b \<noteq> c" "\<And>i. i < 16 \<Longrightarrow> k ! i \<noteq> b" for b
    using fold_update_out [of "[0..<16]" "\<lambda>i. k ! i" b "\<lambda>i. i + 1" "replicate 256 0"] that by (simp add: k'_def)
  have kc: "k' ! c = 17" using c(1) by (simp add: k'_def)
  have cs': "i < 16 \<Longrightarrow> cs' ! i = cs ! i" "cs' ! 16 = Some x" for i by (simp_all add: cs'_def len nth_append)
  have cp': "child_pos (Kids48 k' cs') b = (if b = c then Some 16 else child_pos (Kids16 w k cs) b)" if b: "b < 256" for b
  proof (cases "b = c")
    case False
    show ?thesis
    proof (cases "child_pos (Kids16 w k cs) b")
      case None
      then have "k ! i \<noteq> b" if "i < 16" for i using cp [of b i] that by simp
      from kout [OF b False this] False None show ?thesis by (simp add: child_pos_def)
    next
      case (Some i)
      then have "i < 16" "k ! i = b" by (simp_all add: cp)
      with kin [of i] False Some show ?thesis by (simp add: child_pos_def)
    qed
  qed (simp add: child_pos_def kc)
  have pos': "positions_ok (Kids48 k' cs')"
    unfolding positions_ok_def
  proof (intro conjI allI impI)
    fix b i assume "b < 256" "child_pos (Kids48 k' cs') b = Some i"
    then show "i < length (children (Kids48 k' cs'))" "children (Kids48 k' cs') ! i \<noteq> None"
      using cp [of b i] cp' [of b] cs' v lk by (auto simp: children_def split: if_splits)
  next
    fix b b' assume b: "b < 256" "b' < 256" and e: "child_pos (Kids48 k' cs') b = child_pos (Kids48 k' cs') b'"
      "child_pos (Kids48 k' cs') b \<noteq> None"
    from e(2) obtain i where i: "child_pos (Kids48 k' cs') b = Some i" by blast
    with e(1) have "child_pos (Kids48 k' cs') b' = Some i" by simp
    with i cp [of b i] cp [of b' i] show "b = b'" unfolding cp' [OF b(1)] cp' [OF b(2)] by (auto split: if_splits)
  qed
  have "k' ! b \<le> 48" if "b < 256" for b
    using kin kout [OF that] kc by (cases "b = c"; cases "\<exists>i<16. k ! i = b") auto
  with pos' lk show "kids_ok (grow16 k cs c x)" by (simp add: g kids_ok_def)
  show "woart_find_child (grow16 k cs c x) b = (if b = c then Some x else woart_find_child (Kids16 w k cs) b)" if "b < 256"
    unfolding g find_child_pos [OF pos' that] find_child_pos [OF pos that] cp' [OF that]
    using cs' cp [of b] by (cases "child_pos (Kids16 w k cs) b") (auto simp: children_def)
qed

subsection \<open>NODE48 and NODE256\<close>

lemma positions48:
  assumes "positions_ok (Kids48 k cs)" "length k = 256" "length cs = 48" "b < 256" "k ! b \<noteq> 0"
  shows "k ! b - 1 < 48" "cs ! (k ! b - 1) \<noteq> None" "b' < 256 \<Longrightarrow> k ! b' = k ! b \<Longrightarrow> b' = b"
proof -
  have cp: "child_pos (Kids48 k cs) b = Some (k ! b - 1)" using assms(5) by (simp add: child_pos_def)
  from assms(1,4) cp show "k ! b - 1 < 48" "cs ! (k ! b - 1) \<noteq> None"
    unfolding positions_ok_def by (auto simp: children_def assms(3))
  show "b' = b" if "b' < 256" "k ! b' = k ! b"
  proof -
    have "child_pos (Kids48 k cs) b' = child_pos (Kids48 k cs) b" "child_pos (Kids48 k cs) b' \<noteq> None"
      using that(2) assms(5) by (simp_all add: child_pos_def)
    with assms(1,4) that(1) show ?thesis unfolding positions_ok_def by blast
  qed
qed

text \<open>No position is used twice, so the loop's limit of 48 cuts off nothing.\<close>

lemma present48_eq:
  assumes pos: "positions_ok (Kids48 k cs)" "length k = 256" "length cs = 48"
  shows "present48 k = filter (\<lambda>i. k ! i \<noteq> 0) [0..<256]" "inj_on (\<lambda>i. k ! i - 1) (set (present48 k))"
    "(\<lambda>i. k ! i - 1) ` set (present48 k) \<subseteq> {..<48}" "length (present48 k) \<le> 48"
proof -
  let ?P = "filter (\<lambda>i. k ! i \<noteq> 0) [0..<256]"
  have i: "i < 256" "k ! i \<noteq> 0" if "i \<in> set ?P" for i using that by auto
  have "inj_on (\<lambda>i. k ! i - 1) (set ?P)"
  proof (rule inj_onI)
    fix a b assume a: "a \<in> set ?P" and b: "b \<in> set ?P" and e: "k ! a - 1 = k ! b - 1"
    from i(2) [OF a] i(2) [OF b] e have "k ! a = k ! b" by simp
    with positions48(3) [OF pos i [OF b]] i(1) [OF a] show "a = b" by simp
  qed
  moreover have sub: "(\<lambda>i. k ! i - 1) ` set ?P \<subseteq> {..<48}" using positions48(1) [OF pos] i by blast
  ultimately have "card (set ?P) \<le> card {..<48::nat}" by (intro card_inj_on_le) simp_all
  moreover have "length ?P = card (set ?P)" by (simp only: distinct_card distinct_filter distinct_upt)
  ultimately have "length ?P \<le> 48" by simp
  then show eq: "present48 k = ?P" by (simp add: present48_def)
  show "inj_on (\<lambda>i. k ! i - 1) (set (present48 k))" "(\<lambda>i. k ! i - 1) ` set (present48 k) \<subseteq> {..<48}" "length (present48 k) \<le> 48"
    unfolding eq by fact+
qed

lemma add48_ok:
  assumes ok: "kids_ok (Kids48 k cs)" and free: "length (present48 k) < 48"
    and c: "c < 256" "woart_find_child (Kids48 k cs) c = None"
  shows "kids_ok (add_child48 k cs c x)"
    "b < 256 \<Longrightarrow> woart_find_child (add_child48 k cs c x) b = (if b = c then Some x else woart_find_child (Kids48 k cs) b)"
proof -
  from ok have lay: "length k = 256" "length cs = 48" "\<And>b. b < 256 \<Longrightarrow> k ! b \<le> 48" and pos: "positions_ok (Kids48 k cs)"
    by (auto simp: kids_ok_def)
  note pr = present48_eq [OF pos lay(1,2)]
  let ?ps = "map (\<lambda>i. k ! i - 1) (present48 k)"
  define p where "p = find_next_zero_bit (sum_list (map (\<lambda>i. push_bit (k ! i - 1) 1) (present48 k))) 48 0"
  have d: "distinct ?ps" "\<And>q. q \<in> set ?ps \<Longrightarrow> q < 64" using pr(1-3) by (fastforce simp: distinct_map)+
  have bits: "bit (sum_list (map (\<lambda>i. push_bit (k ! i - 1) 1) (present48 k)) :: u64) q \<longleftrightarrow> q \<in> set ?ps" for q
    using bit_sum_of_bits [OF d, of q] by (simp add: o_def)
  have "card (set ?ps) < 48" using free card_length [of ?ps] by simp
  then have "\<exists>i<48. i \<notin> set ?ps" by (intro not_all_below) simp_all
  then have p: "p < 48" "p \<notin> set ?ps" unfolding p_def using first_zero_bit [of 48] bits by fastforce+
  have r: "add_child48 k cs c x = Kids48 (k[c := p + 1]) (cs[p := Some x])"
    using free by (simp add: add_child48_def Let_def p_def)
  have m: "child_pos (Kids48 k cs) c = None" using c find_child_None [OF pos c(1)] by simp
  have np: "child_pos (Kids48 k cs) b \<noteq> Some p" if "b < 256" for b
    using p(2) that by (auto simp: child_pos_def pr(1))
  have cp: "child_pos (Kids48 (k[c := p + 1]) (cs[p := Some x])) b = (if b = c then Some p else child_pos (Kids48 k cs) b)" for b
    using c(1) lay(1) by (auto simp: child_pos_def)
  note add = positions_add [OF pos c(1) m _ np cp, of x]
  have "positions_ok (Kids48 (k[c := p + 1]) (cs[p := Some x]))" using p(1) lay by (intro add(1)) (simp_all add: children_def)
  moreover have "k[c := p + 1] ! b \<le> 48" if "b < 256" for b
    using lay(1) lay(3) [OF that] p(1) c(1) by (cases "b = c") simp_all
  ultimately show "kids_ok (add_child48 k cs c x)" using lay(1,2) by (simp add: r kids_ok_def)
  show "woart_find_child (add_child48 k cs c x) b = (if b = c then Some x else woart_find_child (Kids48 k cs) b)" if "b < 256"
    unfolding r using that p(1) lay by (intro add(2)) (simp_all add: children_def)
qed

lemma kids256: "length cs = 256 \<Longrightarrow> kids_ok (Kids256 cs)" "length cs = 256 \<Longrightarrow> b < 256 \<Longrightarrow> woart_find_child (Kids256 cs) b = cs ! b"
  by (auto simp: kids_ok_def positions_ok_def child_pos_def children_def woart_find_child_def split: if_splits)

lemma grow48_ok:
  assumes ok: "kids_ok (Kids48 k cs)" and c: "c < 256" "woart_find_child (Kids48 k cs) c = None"
  shows "kids_ok (grow48 k cs c x)"
    "b < 256 \<Longrightarrow> woart_find_child (grow48 k cs c x) b = (if b = c then Some x else woart_find_child (Kids48 k cs) b)"
proof -
  from ok have lay: "length k = 256" "length cs = 48" and pos: "positions_ok (Kids48 k cs)" by (auto simp: kids_ok_def)
  note pr = present48_eq [OF pos lay]
  define cs' where "cs' = (fold (\<lambda>i cs'. cs'[i := cs ! (k ! i - 1)]) (present48 k) (replicate 256 None))[c := Some x]"
  have l: "length cs' = 256" by (simp add: cs'_def)
  have g: "grow48 k cs c x = Kids256 cs'" by (simp add: grow48_def cs'_def)
  show "kids_ok (grow48 k cs c x)" unfolding g by (rule kids256(1) [OF l])
  show "woart_find_child (grow48 k cs c x) b = (if b = c then Some x else woart_find_child (Kids48 k cs) b)" if b: "b < 256"
  proof (cases "b = c")
    case True
    with c(1) show ?thesis unfolding g kids256(2) [OF l b] by (simp add: cs'_def)
  next
    case False
    have f: "woart_find_child (Kids48 k cs) b = (if k ! b \<noteq> 0 then cs ! (k ! b - 1) else None)"
      by (simp add: find_child_pos [OF pos b] child_pos_def children_def)
    show ?thesis
    proof (cases "k ! b = 0")
      case True
      then have "fold (\<lambda>i cs'. cs'[i := cs ! (k ! i - 1)]) (present48 k) (replicate 256 None) ! b = (replicate 256 None) ! b"
        by (intro fold_update_out) (auto simp: pr(1))
      with True False b show ?thesis unfolding g kids256(2) [OF l b] f by (simp add: cs'_def)
    next
      case n: False
      have d: "distinct (map (\<lambda>i. i) (present48 k))" by (simp add: pr(1))
      have "b \<in> set (present48 k)" using n b by (simp add: pr(1))
      from fold_update_in [OF d _ this, of "replicate 256 None" "\<lambda>i. cs ! (k ! i - 1)"]
      have "fold (\<lambda>i cs'. cs'[i := cs ! (k ! i - 1)]) (present48 k) (replicate 256 None) ! b = cs ! (k ! b - 1)"
        by (simp add: pr(1))
      with n False show ?thesis unfolding g kids256(2) [OF l b] f by (simp add: cs'_def)
    qed
  qed
qed

subsection \<open>Every layout keeps the contract\<close>

lemma add_child_ok:
  assumes ok: "kids_ok ks" and c: "c < 256" "woart_find_child ks c = None"
  shows "\<exists>ks'. add_child ks c x = Inr ks' \<and> kids_ok ks' \<and>
    (\<forall>b<256. woart_find_child ks' b = (if b = c then Some x else woart_find_child ks b))"
proof (cases ks)
  case (Kids4 s cs)
  note ok' = ok [unfolded Kids4] and c' = c(1) c(2) [unfolded Kids4]
  have lay: "layout_ok (Kids4 s cs)" using ok' by (simp add: kids_ok_def)
  show ?thesis
  proof (cases "s ! 3 = None")
    case True
    with slot3_free [OF lay] add_noflush_ok [OF ok' _ c', of x] Kids4 show ?thesis
      by (auto simp: add_child_def add_child4_def)
  next
    case False
    then have "add_child ks c x = Inr (grow4 s cs c x)" using Kids4
      by (simp only: add_child_def add_child4_def kids.case if_False)
    with grow4_ok [OF ok' False c', where x = x] Kids4 show ?thesis by simp
  qed
next
  case (Kids16 w k cs)
  note ok' = ok [unfolded Kids16] and c' = c(1) c(2) [unfolded Kids16]
  show ?thesis
  proof (cases "w = push_bit 16 1 - 1")
    case True
    with grow16_ok [OF ok' True c', where x = x] Kids16 show ?thesis by (simp add: add_child_def add_child16_def)
  next
    case False
    from add16_ok [OF ok' this c', of x] show ?thesis unfolding Kids16 add_child_def kids.case .
  qed
next
  case (Kids48 k cs)
  note ok' = ok [unfolded Kids48] and c' = c(1) c(2) [unfolded Kids48]
  show ?thesis
  proof (cases "length (present48 k) < 48")
    case True
    from add48_ok [OF ok' True c', where x = x] Kids48 show ?thesis by (simp add: add_child_def)
  next
    case False
    then have "add_child48 k cs c x = grow48 k cs c x" by (simp add: add_child48_def Let_def)
    with grow48_ok [OF ok' c', where x = x] Kids48 show ?thesis by (simp add: add_child_def)
  qed
next
  case (Kids256 cs)
  with ok have l: "length cs = 256" by (simp add: kids_ok_def)
  with Kids256 show ?thesis using kids256 [of "cs[c := Some x]"] kids256(2) [OF l] c(1)
    by (auto simp: add_child_def add_child256_def nth_list_update)
qed

interpretation woart_kids: child_store kids_ok woart_find_child add_child
  by unfold_locales (rule add_child_ok)

text \<open>Storing through the pointer that \<open>find_child\<close> returned.\<close>

lemma children_store [simp]: "children (store_child ks i x) = (children ks)[i := x]"
  by (cases ks) (simp_all add: store_child_def children_def)

lemma layout_store [simp]: "layout_ok (store_child ks i x) = layout_ok ks"
  by (cases ks) (simp_all add: store_child_def)

lemma store_child_pos:
  assumes "i < length (children ks)" "children ks ! i \<noteq> None"
  shows "child_pos (store_child ks i (Some x)) b = child_pos ks b"
proof (cases ks)
  case (Kids256 cs)
  with assms show ?thesis
    by (cases "i = b") (simp_all add: store_child_def child_pos_def children_def)
qed (simp_all add: store_child_def child_pos_def)

lemma store_child_ok:
  assumes ok: "kids_ok ks" and p: "child_pos ks c = Some i" and c: "c < 256"
  shows "kids_ok (store_child ks i (Some x))"
    "b < 256 \<Longrightarrow> woart_find_child (store_child ks i (Some x)) b = (if b = c then Some x else woart_find_child ks b)"
proof -
  from ok have pos: "positions_ok ks" by (simp add: kids_ok_def)
  then have i: "i < length (children ks)" "children ks ! i \<noteq> None" using p c by (auto simp: positions_ok_def)
  note cp = store_child_pos [OF i] and cs = children_store [of ks i "Some x"]
  have "positions_ok (store_child ks i (Some x))"
    using pos i unfolding positions_ok_def cp cs by (auto simp: nth_list_update)
  then have pos': "positions_ok (store_child ks i (Some x))" .
  with ok show "kids_ok (store_child ks i (Some x))" by (simp add: kids_ok_def)
  show "woart_find_child (store_child ks i (Some x)) b = (if b = c then Some x else woart_find_child ks b)" if b: "b < 256"
  proof (cases "child_pos ks b")
    case None
    then show ?thesis using p by (auto simp: find_child_pos [OF pos' b] find_child_pos [OF pos b] cp)
  next
    case (Some j)
    have "b = c" if "j = i"
    proof -
      have "child_pos ks b = child_pos ks c" "child_pos ks b \<noteq> None" using Some p that by simp_all
      with pos b c show ?thesis unfolding positions_ok_def by blast
    qed
    with Some p i b show ?thesis
      by (cases "j = i") (auto simp: find_child_pos [OF pos'] find_child_pos [OF pos] cp)
  qed
qed

end
