(* ===== verification/Woart_Map.thy ===== *)
theory Woart_Map
  imports Woart Woart_Kids
begin

text \<open>
  The adaptive radix tree of \<^verbatim>\<open>woart/woart.cpp\<close> as a finite map, its invariant, and the
  correctness of lookup.  \<open>omap n\<close> follows the bytes of a key without looking at prefixes;
  the invariant \<open>woart_inv d n\<close> of a node at depth \<open>d\<close> says that its header describes the keys
  below it, so that prefixes only ever exclude keys that are not there.
\<close>

subsection \<open>Bytes determine a key\<close>

lemma woart_get_index_less [simp]: "woart_get_index k d < 256"
  using mod_less_divisor [of 256] by (simp add: woart_get_index_def unat_drop_bit_mask)

lemma woart_get_index_bit:
  "d < 8 \<Longrightarrow> woart_get_index k d = woart_get_index k' d \<Longrightarrow> r < 8 \<Longrightarrow> bit k ((7 - d) * 8 + r) = bit k' ((7 - d) * 8 + r)"
proof -
  assume "d < 8" and e: "woart_get_index k d = woart_get_index k' d" and r: "r < 8"
  from e have "drop_bit ((7 - d) * 8) k AND mask 8 = drop_bit ((7 - d) * 8) k' AND mask 8"
    unfolding woart_get_index_def by (rule word_unat_eq_iff [THEN iffD2])
  then have "bit (drop_bit ((7 - d) * 8) k AND mask 8) r = bit (drop_bit ((7 - d) * 8) k' AND mask 8) r"
    by simp
  with r show ?thesis by (simp add: bit_and_iff bit_mask_iff bit_drop_bit_eq)
qed

lemma woart_get_index_ext: "(\<And>j. j < 8 \<Longrightarrow> woart_get_index k j = woart_get_index k' j) \<Longrightarrow> k = k'"
proof (rule bit_word_eqI)
  fix n assume e: "\<And>j. j < 8 \<Longrightarrow> woart_get_index k j = woart_get_index k' j" and n: "n < LENGTH(64)"
  let ?d = "7 - n div 8"
  have "n div 8 < 8" using n by simp
  then have "(7 - ?d) * 8 + n mod 8 = n" by simp
  with woart_get_index_bit [of ?d k k' "n mod 8"] e show "bit k n = bit k' n" by simp
qed

text \<open>Keys with the same bytes at depth \<open>d\<close> and the \<open>n\<close> places after it.\<close>

definition agree :: "nat \<Rightarrow> nat \<Rightarrow> u64 \<Rightarrow> u64 \<Rightarrow> bool" where
  "agree d n k k' \<longleftrightarrow> (\<forall>j<n. woart_get_index k (d + j) = woart_get_index k' (d + j))"

lemma agree_refl [simp]: "agree d n k k"
  by (simp add: agree_def)

lemma agree_sym: "agree d n k k' \<Longrightarrow> agree d n k' k"
  by (simp add: agree_def)

lemma agree_trans: "agree d n k k' \<Longrightarrow> agree d n k' k'' \<Longrightarrow> agree d n k k''"
  by (simp add: agree_def)

lemma agree_le: "agree d n k k' \<Longrightarrow> m \<le> n \<Longrightarrow> agree d m k k'"
  by (simp add: agree_def)

lemma agree_add: "agree d (m + n) k k' \<longleftrightarrow> agree d m k k' \<and> agree (d + m) n k k'"
proof
  assume a: "agree d (m + n) k k'"
  show "agree d m k k' \<and> agree (d + m) n k k'"
    unfolding agree_def
  proof (intro conjI allI impI)
    show "woart_get_index k (d + j) = woart_get_index k' (d + j)" if "j < m" for j using a that by (simp add: agree_def)
    show "woart_get_index k (d + m + j) = woart_get_index k' (d + m + j)" if "j < n" for j
      using a [unfolded agree_def, rule_format, of "m + j"] that by (simp add: add.assoc)
  qed
next
  assume a: "agree d m k k' \<and> agree (d + m) n k k'"
  show "agree d (m + n) k k'"
    unfolding agree_def
  proof (intro allI impI)
    fix j assume "j < m + n"
    then show "woart_get_index k (d + j) = woart_get_index k' (d + j)"
      using a [unfolded agree_def] by (cases "j < m") (auto simp: add.assoc dest: spec [of _ "j - m"])
  qed
qed

lemma agree_1 [simp]: "agree d (Suc 0) k k' \<longleftrightarrow> woart_get_index k d = woart_get_index k' d"
  by (simp add: agree_def)

lemma agree_Suc: "agree d (Suc n) k k' \<longleftrightarrow> agree d n k k' \<and> woart_get_index k (d + n) = woart_get_index k' (d + n)"
  using agree_add [of d n 1 k k'] by simp

lemma woart_lcp:
  assumes "k \<noteq> k'" "agree 0 d k k'"
  defines "l \<equiv> woart_longest_common_prefix k k' d"
  shows "d + l \<le> 7" "agree d l k k'" "woart_get_index k (d + l) \<noteq> woart_get_index k' (d + l)"
proof -
  let ?p = "\<lambda>i. woart_get_index k (d + i) \<noteq> woart_get_index k' (d + i)"
  note f = first_from_props [of 0 ?p "8 - d", folded woart_longest_common_prefix_def, folded l_def]
  obtain j where j: "j < 8" "woart_get_index k j \<noteq> woart_get_index k' j"
    using woart_get_index_ext assms(1) by blast
  then have dj: "d \<le> j" using assms(2) by (auto simp: agree_def not_less [symmetric])
  have lt: "l < 8 - d"
  proof (rule ccontr)
    assume "\<not> l < 8 - d"
    then have "j - d < l" using j dj by linarith
    with f have "\<not> ?p (j - d)" by blast
    with j dj show False by simp
  qed
  then show "d + l \<le> 7" by simp
  from f show "agree d l k k'" by (auto simp: agree_def)
  from f lt show "woart_get_index k (d + l) \<noteq> woart_get_index k' (d + l)" by auto
qed

subsection \<open>The map of a tree\<close>

lemma find_child_set: "woart_find_child ks b = Some c \<Longrightarrow> c \<in> set_kids ks"
proof -
  assume "woart_find_child ks b = Some c"
  then have "Some c \<in> set (children ks)" by (auto simp: woart_find_child_def split: option.splits if_splits) (metis nth_mem)
  then show ?thesis by (cases ks) (auto simp: children_def)
qed

function omap :: "woart_node \<Rightarrow> u64 \<Rightarrow> u64 option" where
  "omap (OLeaf v kl k) key = (if key = k then Some v else None)"
| "omap (ONode p ks) key =
     (case woart_find_child ks (woart_get_index key (path_depth p + pwoartial_len p)) of
        None \<Rightarrow> None
      | Some c \<Rightarrow> omap c key)"
  by pat_completeness auto
termination
  by (relation "measure (\<lambda>(n, _). size n)") (auto dest: woart_find_child_size [where f = size] simp: less_SucI)

definition okeys :: "woart_node \<Rightarrow> u64 set" where
  "okeys n = dom (omap n)"

lemma okeys_leaf [simp]: "okeys (OLeaf v kl k) = {k}"
  by (auto simp: okeys_def dom_def)

lemma okeys_node: "key \<in> okeys (ONode p ks) \<longleftrightarrow>
    (\<exists>c. woart_find_child ks (woart_get_index key (path_depth p + pwoartial_len p)) = Some c \<and> key \<in> okeys c)"
  by (auto simp: okeys_def split: option.splits)

definition woart_header_ok :: "nat \<Rightarrow> path_comp \<Rightarrow> u64 set \<Rightarrow> bool" where
  "woart_header_ok d p K \<longleftrightarrow>
     path_depth p = d \<and> d + pwoartial_len p \<le> 7 \<and> length (pwoartial p) = min 6 (pwoartial_len p) \<and>
     (\<forall>k\<in>K. \<forall>j<min 6 (pwoartial_len p). pwoartial p ! j = woart_get_index k (d + j)) \<and>
     (\<forall>k\<in>K. \<forall>k'\<in>K. agree d (pwoartial_len p) k k')"

lemma woart_header_okD:
  assumes "woart_header_ok d p K"
  shows "path_depth p = d" "d + pwoartial_len p \<le> 7" "length (pwoartial p) = min 6 (pwoartial_len p)"
    "\<And>k j. k \<in> K \<Longrightarrow> j < min 6 (pwoartial_len p) \<Longrightarrow> pwoartial p ! j = woart_get_index k (d + j)"
    "\<And>k k'. k \<in> K \<Longrightarrow> k' \<in> K \<Longrightarrow> agree d (pwoartial_len p) k k'"
  using assms unfolding woart_header_ok_def by blast+

function woart_inv :: "nat \<Rightarrow> woart_node \<Rightarrow> bool" where
  "woart_inv d (OLeaf v kl k) = (kl = 8)"
| "woart_inv d (ONode p ks) =
     (woart_header_ok d p (okeys (ONode p ks)) \<and> kids_ok ks \<and> (\<exists>b<256. woart_find_child ks b \<noteq> None) \<and>
      (\<forall>b c. b < 256 \<longrightarrow> woart_find_child ks b = Some c \<longrightarrow>
         woart_inv (Suc (d + pwoartial_len p)) c \<and> (\<forall>k\<in>okeys c. woart_get_index k (d + pwoartial_len p) = b)))"
  by pat_completeness auto
termination
  by (relation "measure (\<lambda>(_, n). size n)") (auto dest: woart_find_child_size [where f = size] simp: less_SucI)

lemma woart_invD:
  assumes "woart_inv d (ONode p ks)"
  shows "woart_header_ok d p (okeys (ONode p ks))" "kids_ok ks"
    "\<And>b c. b < 256 \<Longrightarrow> woart_find_child ks b = Some c \<Longrightarrow> woart_inv (Suc (d + pwoartial_len p)) c"
    "\<And>b c k. b < 256 \<Longrightarrow> woart_find_child ks b = Some c \<Longrightarrow> k \<in> okeys c \<Longrightarrow> woart_get_index k (d + pwoartial_len p) = b"
  using assms by (auto simp: woart_inv.simps)

text \<open>A key below a child is a key of the node.\<close>

lemma okeys_child:
  assumes "woart_inv d (ONode p ks)" "b < 256" "woart_find_child ks b = Some c" "k \<in> okeys c"
  shows "k \<in> okeys (ONode p ks)"
  using assms(2,3) woart_invD(4) [OF assms] woart_header_okD(1) [OF woart_invD(1) [OF assms(1)]] assms(4) by (auto simp: okeys_node)

lemma okeys_nonempty: "woart_inv d n \<Longrightarrow> \<exists>k. k \<in> okeys n"
proof (induction n arbitrary: d)
  case (ONode p ks)
  from ONode.prems obtain b c where b: "b < 256" "woart_find_child ks b = Some c" by (auto simp: woart_inv.simps)
  with woart_invD(3) [OF ONode.prems b] ONode.IH [OF find_child_set [OF b(2)]] okeys_child [OF ONode.prems b]
  show ?case by blast
qed simp

lemma finite_okeys: "finite (okeys n)"
proof (induction n)
  case (ONode p ks)
  have "okeys (ONode p ks) \<subseteq> (\<Union>b<256. case woart_find_child ks b of None \<Rightarrow> {} | Some c \<Rightarrow> okeys c)"
  proof
    fix k assume "k \<in> okeys (ONode p ks)"
    then show "k \<in> (\<Union>b<256. case woart_find_child ks b of None \<Rightarrow> {} | Some c \<Rightarrow> okeys c)"
      unfolding okeys_node by (force intro!: bexI [of _ "woart_get_index k (path_depth p + pwoartial_len p)"])
  qed
  moreover have "finite (case woart_find_child ks b of None \<Rightarrow> {} | Some c \<Rightarrow> okeys c)" for b
    using ONode.IH find_child_set [of ks b] by (cases "woart_find_child ks b") auto
  ultimately show ?case by (meson finite_UN finite_lessThan finite_subset)
qed simp

subsection \<open>Lookup\<close>

lemma first_from_end: "first_from q 0 m = m \<longleftrightarrow> (\<forall>j<m. \<not> q j)"
  using first_from_props [of 0 q m] first_from_unique [of 0 m m q] by auto

lemma woart_check_prefix_iff:
  assumes "d + pwoartial_len p \<le> 7"
  shows "woart_check_prefix p key d = min 6 (pwoartial_len p) \<longleftrightarrow>
    (\<forall>j<min 6 (pwoartial_len p). pwoartial p ! j = woart_get_index key (d + j))"
proof -
  let ?m = "min 6 (pwoartial_len p)"
  have m: "min (min (pwoartial_len p) 6) (8 - d) = ?m" using assms by auto
  show ?thesis unfolding woart_check_prefix_def m first_from_end by simp
qed

lemma woart_get_from_correct: "woart_inv d n \<Longrightarrow> woart_get_from n key 8 d = Inr (omap n key)"
proof (induction n arbitrary: d)
  case (OLeaf v kl k)
  then show ?case by (auto simp: woart_leaf_matches_def)
next
  case (ONode p ks)
  note h = woart_header_okD [OF woart_invD(1) [OF ONode.prems]]
  let ?b = "woart_get_index key (d + pwoartial_len p)"
  show ?case
  proof (cases "pwoartial_len p \<noteq> 0 \<and> woart_check_prefix p key d \<noteq> min 6 (pwoartial_len p)")
    case True
    then obtain j where "j < min 6 (pwoartial_len p)" "pwoartial p ! j \<noteq> woart_get_index key (d + j)"
      using woart_check_prefix_iff [OF h(2), of key] by blast
    with h(4) have "key \<notin> okeys (ONode p ks)" by blast
    then have "omap (ONode p ks) key = None" by (simp add: okeys_def domIff del: omap.simps)
    with True h(1) show ?thesis by (simp del: omap.simps)
  next
    case False
    then have s: "woart_get_from (ONode p ks) key 8 d =
        (case woart_find_child ks ?b of None \<Rightarrow> Inr None | Some c \<Rightarrow> woart_get_from c key 8 (Suc (d + pwoartial_len p)))"
      using h(1,2) by (subst woart_get_from.simps) (auto simp: Let_def)
    show ?thesis
    proof (cases "woart_find_child ks ?b")
      case None
      with s h(1) show ?thesis by simp
    next
      case (Some c)
      from ONode.IH [OF find_child_set [OF Some] woart_invD(3) [OF ONode.prems _ Some]] s Some h(1) show ?thesis by simp
    qed
  qed
qed

end
