(* ===== verification/Woart_Insert.thy ===== *)
theory Woart_Insert
  imports Woart_Map
begin

text \<open>
  Insertion into the tree of \<^verbatim>\<open>woart/woart.cpp\<close>: it returns the old value, updates the map at
  one key and keeps the invariant, whatever layout the nodes on the way have.
\<close>

subsection \<open>The leftmost leaf\<close>

text \<open>\<open>first_pos\<close> finds the child of the least byte.\<close>

definition least_byte :: "'a kids \<Rightarrow> nat \<Rightarrow> bool" where
  "least_byte ks b \<longleftrightarrow> b < 256 \<and> woart_find_child ks b \<noteq> None \<and> (\<forall>b'<b. woart_find_child ks b' = None)"

lemma min_key16_props:
  assumes "bytes16_ok w k" "bit w idx" "idx < i" "mn = k ! idx" "i \<le> 16" "\<And>j. bit w j \<Longrightarrow> j < i \<Longrightarrow> mn \<le> k ! j"
  shows "bit w (min_key16 w k i mn idx) \<and> (\<forall>j. bit w j \<longrightarrow> k ! min_key16 w k i mn idx \<le> k ! j)"
  using assms
proof (induction w k i mn idx rule: min_key16.induct)
  case (1 w k i mn idx)
  let ?j = "find_next_bit w 16 i"
  have lt16: "j < 16" if "bit w j" for j using that "1.prems"(1) by (simp add: bytes16_ok_def)
  show ?case
  proof (cases "i < 16")
    case False
    then have "min_key16 w k i mn idx = idx" by (simp add: min_key16.simps)
    with "1.prems" False lt16 show ?thesis by (metis less_le_trans not_less)
  next
    case True
    then have j: "?j = first_from (bit w) i 16" by (rule find_next_bit_16)
    note f = first_from_props [of i "bit w" 16, folded j]
    have below: "m = ?j" if "bit w m" "i \<le> m" "m < Suc ?j" for m
    proof (rule ccontr)
      assume "m \<noteq> ?j"
      with that(3) have "m < ?j" by linarith
      with f that(1,2) show False by blast
    qed
    show ?thesis
    proof (cases "?j < 16 \<and> k ! ?j < mn")
      case c: True
      have mn': "k ! ?j \<le> k ! m" if "bit w m" "m < Suc ?j" for m
        using below [OF that(1) _ that(2)] "1.prems"(6) [OF that(1)] c by (cases "m < i") auto
      have "bit w ?j" using f c by simp
      from "1.IH"(1) [OF True refl c "1.prems"(1) this _ refl _ mn'] c
      have "bit w (min_key16 w k (Suc ?j) (k ! ?j) ?j) \<and>
          (\<forall>m. bit w m \<longrightarrow> k ! min_key16 w k (Suc ?j) (k ! ?j) ?j \<le> k ! m)" by simp
      moreover have "min_key16 w k i mn idx = min_key16 w k (Suc ?j) (k ! ?j) ?j"
        using True c by (subst min_key16.simps) (simp add: Let_def)
      ultimately show ?thesis by simp
    next
      case c: False
      have e: "min_key16 w k i mn idx = min_key16 w k (Suc ?j) mn idx"
        using True c by (subst min_key16.simps) (auto simp: Let_def)
      have mn': "mn \<le> k ! m" if "bit w m" "m < Suc ?j" for m
        using below [OF that(1) _ that(2)] "1.prems"(6) [OF that(1)] c lt16 [OF that(1)] by (cases "m < i") auto
      show ?thesis
      proof (cases "?j < 16")
        case True
        with "1.IH"(2) [OF \<open>i < 16\<close> refl c "1.prems"(1,2) _ "1.prems"(4) _ mn'] "1.prems"(3) f e show ?thesis by simp
      next
        case False
        then have "min_key16 w k (Suc ?j) mn idx = idx" by (simp add: min_key16.simps)
        moreover have "mn \<le> k ! m" if "bit w m" for m using mn' [OF that] lt16 [OF that] False by simp
        ultimately show ?thesis using "1.prems"(2,4) e by simp
      qed
    qed
  qed
qed

lemma first_pos_ok:
  assumes ok: "kids_ok ks" and ne: "\<exists>b<256. woart_find_child ks b \<noteq> None"
  shows "\<exists>b i. first_pos ks = Inr i \<and> child_pos ks b = Some i \<and> least_byte ks b"
proof -
  have pos: "positions_ok ks" using ok by (simp add: kids_ok_def)
  have leastI: "least_byte ks b" if "b < 256" "child_pos ks b \<noteq> None" "\<And>b'. b' < b \<Longrightarrow> child_pos ks b' = None" for b
    unfolding least_byte_def
  proof (intro conjI allI impI)
    show "b < 256" by (rule that)
    show "woart_find_child ks b \<noteq> None" using that(2) unfolding find_child_None [OF pos that(1)] .
    show "woart_find_child ks b' = None" if "b' < b" for b'
      using find_child_None [OF pos, of b'] \<open>b' < b\<close> \<open>b < 256\<close> \<open>\<And>b'. b' < b \<Longrightarrow> child_pos ks b' = None\<close> by (meson less_trans)
  qed
  from ne obtain b0 where b: "b0 < 256" "woart_find_child ks b0 \<noteq> None" by blast
  have b0: "b0 < 256" "child_pos ks b0 \<noteq> None" using b unfolding find_child_None [OF pos b(1)] .
  show ?thesis
  proof (cases ks)
    case (Kids4 s cs)
    from ok Kids4 obtain us where us: "slots_ok us" "used_slots s = us" by (auto simp: kids_ok_def)
    have cp: "child_pos ks b = map_of us b" for b by (simp add: Kids4 child_pos_def us(2))
    from b0(2) cp obtain k p us' where u: "us = (k, p) # us'" by (cases us) auto
    have "sorted_wrt (<) (map fst us)" using us(1) by (simp add: slots_ok_def)
    then have gt: "k < b" if "b \<in> fst ` set us'" for b using u that by auto
    have "map_of us b = None" if "b < k" for b
    proof -
      have "b \<noteq> k" "b \<notin> fst ` set us'" using that gt [of b] by (simp, meson less_asym)
      then show ?thesis unfolding map_of_eq_None_iff u by simp
    qed
    moreover have "k < 256" using us(1) u by (simp add: slots_ok_def)
    ultimately have "least_byte ks k" using u by (intro leastI) (simp_all add: cp)
    moreover have "child_pos ks k = Some p" by (simp add: cp u)
    moreover have "first_pos ks = Inr p" using u us(2) by (simp add: Kids4 first_pos_def)
    ultimately show ?thesis by blast
  next
    case (Kids16 w k cs)
    from ok Kids16 have b: "bytes16_ok w k" by (simp add: kids_ok_def)
    have cp: "child_pos ks b = Some i \<longleftrightarrow> bit w i \<and> k ! i = b" for b i
      by (simp add: Kids16 child_pos_def find_key16_iff [OF b])
    let ?i = "find_next_bit w 16 0"
    have i: "?i = first_from (bit w) 0 16" by (simp add: find_next_bit_16)
    note f = first_from_props [of 0 "bit w" 16, folded i]
    from b0(2) obtain i0 where "child_pos ks b0 = Some i0" by blast
    then have "bit w i0" "i0 < 16" using cp b by (auto simp: bytes16_ok_def)
    with f have lt: "?i < 16" by (metis le_less_linear less_le_trans zero_le)
    let ?m = "min_key16 w k (Suc ?i) (k ! ?i) ?i"
    have mn: "k ! ?i \<le> k ! j" if "bit w j" "j < Suc ?i" for j
    proof -
      have "\<not> j < ?i" using f that(1) by blast
      with that(2) have "j = ?i" by linarith
      then show ?thesis by simp
    qed
    from min_key16_props [OF b, of ?i "Suc ?i" "k ! ?i"] f lt mn
    have m: "bit w ?m" "\<And>j. bit w j \<Longrightarrow> k ! ?m \<le> k ! j" by auto
    have "k ! ?m < 256" using b m(1) by (simp add: bytes16_ok_def)
    moreover have "child_pos ks (k ! ?m) = Some ?m" using m(1) by (simp add: cp)
    moreover have "child_pos ks b' = None" if "b' < k ! ?m" for b'
    proof (rule ccontr)
      assume "child_pos ks b' \<noteq> None"
      then obtain j where "child_pos ks b' = Some j" by blast
      then have "bit w j" "k ! j = b'" using cp [of b' j] by simp_all
      with m(2) [of j] that show False by simp
    qed
    moreover have "first_pos ks = Inr ?m" using lt by (simp add: Kids16 first_pos_def Let_def)
    ultimately show ?thesis using leastI [of "k ! ?m"] by blast
  next
    case (Kids48 k cs)
    from ok Kids48 have len: "length k = 256" by (simp add: kids_ok_def)
    have cp: "child_pos ks b = (if k ! b \<noteq> 0 then Some (k ! b - 1) else None)" for b by (simp add: Kids48 child_pos_def)
    have "\<exists>x\<in>set k. x \<noteq> 0" using b0 cp len by (metis nth_mem)
    then obtain b where b: "find_index (\<lambda>i. i \<noteq> 0) k = Some b" using find_index_None [of "\<lambda>i. i \<noteq> 0" k] by (meson option.exhaust)
    from find_index_SomeD [OF b] len have m: "b < 256" "k ! b \<noteq> 0" "\<And>j. j < b \<Longrightarrow> k ! j = 0" by auto
    then have "least_byte ks b" by (intro leastI) (simp_all add: cp)
    moreover have "child_pos ks b = Some (k ! b - 1)" using m(2) by (simp add: cp)
    moreover have "first_pos ks = Inr (k ! b - 1)" using b by (simp add: Kids48 first_pos_def)
    ultimately show ?thesis by blast
  next
    case (Kids256 cs)
    from ok Kids256 have len: "length cs = 256" by (simp add: kids_ok_def)
    have cp: "child_pos ks b = (if cs ! b \<noteq> None then Some b else None)" for b by (simp add: Kids256 child_pos_def)
    have "\<exists>x\<in>set cs. x \<noteq> None" using b0 cp len by (metis nth_mem)
    then obtain b where b: "find_index (\<lambda>x. x \<noteq> None) cs = Some b" using find_index_None [of "\<lambda>x. x \<noteq> None" cs] by (meson option.exhaust)
    from find_index_SomeD [OF b] len have m: "b < 256" "cs ! b \<noteq> None" "\<And>j. j < b \<Longrightarrow> cs ! j = None" by auto
    then have "least_byte ks b" by (intro leastI) (simp_all add: cp)
    moreover have "child_pos ks b = Some b" using m(2) by (simp add: cp)
    moreover have "first_pos ks = Inr b" using b by (simp add: Kids256 first_pos_def)
    ultimately show ?thesis by blast
  qed
qed

lemma woart_minimum_ok: "woart_inv d n \<Longrightarrow> \<exists>k\<in>okeys n. woart_minimum n = Inr k"
proof (induction n arbitrary: d)
  case (ONode p ks)
  from ONode.prems have ok: "kids_ok ks" "\<exists>b<256. woart_find_child ks b \<noteq> None" by (simp_all add: woart_inv.simps)
  then have pos: "positions_ok ks" by (simp add: kids_ok_def)
  from first_pos_ok [OF ok] obtain b i where b: "first_pos ks = Inr i" "child_pos ks b = Some i" "least_byte ks b" by blast
  then obtain c where c: "woart_find_child ks b = Some c" and lt: "b < 256" by (auto simp: least_byte_def)
  then have i: "i < length (children ks)" "children ks ! i = Some c"
  proof -
    show "i < length (children ks)" using pos lt b(2) unfolding positions_ok_def by blast
    show "children ks ! i = Some c" using find_child_pos [OF pos lt] b(2) c by simp
  qed
  from ONode.IH [OF find_child_set [OF c] woart_invD(3) [OF ONode.prems lt c]] obtain k where
    "k \<in> okeys c" "woart_minimum c = Inr k" by blast
  with b(1) i okeys_child [OF ONode.prems lt c] show ?case by auto
qed simp

subsection \<open>Where a key leaves a prefix\<close>

lemma woart_prefix_mismatch_ok:
  assumes inv: "woart_inv d (ONode p ks)"
  shows "\<exists>pd. woart_prefix_mismatch p ks key d = Inr pd \<and>
    (pd < pwoartial_len p \<longrightarrow> (\<forall>k\<in>okeys (ONode p ks). agree d pd k key \<and>
        woart_get_index k (d + pd) \<noteq> woart_get_index key (d + pd))) \<and>
    (pwoartial_len p \<le> pd \<longrightarrow> (\<forall>k\<in>okeys (ONode p ks). agree d (pwoartial_len p) k key))"
proof -
  let ?K = "okeys (ONode p ks)" and ?L = "pwoartial_len p"
  note h = woart_header_okD [OF woart_invD(1) [OF inv]]
  let ?m = "min 6 ?L" and ?q = "\<lambda>i. pwoartial p ! i \<noteq> woart_get_index key (d + i)"
  have m: "min (min 6 ?L) (8 - d) = ?m" using h(2) by auto
  define idx where "idx = first_from ?q 0 ?m"
  note f = first_from_props [of 0 ?q ?m, folded idx_def]
  have ag: "agree d idx k key" if "k \<in> ?K" for k
    using f h(4) [OF that] by (auto simp: agree_def)
  show ?thesis
  proof (cases "idx < ?m")
    case True
    then have "woart_prefix_mismatch p ks key d = Inr idx"
      by (simp add: woart_prefix_mismatch_def m Let_def idx_def)
    moreover have "woart_get_index k (d + idx) \<noteq> woart_get_index key (d + idx)" if "k \<in> ?K" for k
      using f True h(4) [OF that] by auto
    ultimately show ?thesis using ag True by auto
  next
    case False
    moreover have "idx \<le> ?m" using f by simp
    ultimately have im: "idx = ?m" by linarith
    show ?thesis
    proof (cases "?L > 6")
      case False
      then have "woart_prefix_mismatch p ks key d = Inr idx"
        unfolding woart_prefix_mismatch_def Let_def m idx_def [symmetric] using im by simp
      with ag im False show ?thesis by auto
    next
      case True
      from woart_minimum_ok [OF inv] obtain k0 where k0: "k0 \<in> ?K" "woart_minimum (ONode p ks) = Inr k0" by blast
      let ?r = "\<lambda>i. woart_get_index k0 (d + i) \<noteq> woart_get_index key (d + i)"
      define pd where "pd = first_from ?r idx (8 - d)"
      note g = first_from_props [of idx ?r "8 - d", folded pd_def]
      have r: "woart_prefix_mismatch p ks key d = Inr pd"
        unfolding woart_prefix_mismatch_def Let_def m idx_def [symmetric] k0(2) pd_def using True im by simp
      have a0: "agree d pd k0 key"
        unfolding agree_def
      proof (intro allI impI)
        fix j assume "j < pd"
        then show "woart_get_index k0 (d + j) = woart_get_index key (d + j)"
          using g ag [OF k0(1)] by (cases "j < idx") (auto simp: agree_def)
      qed
      have kk: "agree d ?L k k0" if "k \<in> ?K" for k using h(5) [OF that k0(1)] .
      have "agree d pd k key \<and> woart_get_index k (d + pd) \<noteq> woart_get_index key (d + pd)" if "pd < ?L" "k \<in> ?K" for k
      proof
        show "agree d pd k key" using agree_le [OF kk [OF that(2)]] a0 that(1) by (meson agree_trans less_imp_le)
        have "pd < 8 - d" using that(1) h(2) by simp
        then have "?r pd" using g by simp
        then show "woart_get_index k (d + pd) \<noteq> woart_get_index key (d + pd)"
          using kk [OF that(2)] that(1) by (simp add: agree_def)
      qed
      moreover have "agree d ?L k key" if "?L \<le> pd" "k \<in> ?K" for k
        using kk [OF that(2)] agree_le [OF a0 that(1)] by (rule agree_trans)
      ultimately show ?thesis using r by auto
    qed
  qed
qed

subsection \<open>New nodes\<close>

lemma woart_two_children_ok:
  assumes "c < 256" "c' < 256" "c \<noteq> c'"
  shows "\<exists>ks. woart_two_children c x c' x' = Inr ks \<and> kids_ok ks \<and> sizeof_node ks = 56 \<and>
    (\<forall>b<256. woart_find_child ks b = (if b = c' then Some x' else if b = c then Some x else None))"
proof -
  let ?s = "replicate 4 None" and ?cs = "replicate 4 None"
  have n: "(new_node4 :: woart_node kids) = Kids4 ?s ?cs" by (simp add: new_node4_def)
  have u: "used_slots ?s = []" by (simp add: numeral_eq_Suc)
  from add_noflush_ok [of ?s ?cs c x] new_node4_ok [where 'a = woart_node] assms(1) obtain s1 cs1 where
    k1: "add_child4_noflush ?s ?cs c x = Inr (Kids4 s1 cs1)" "kids_ok (Kids4 s1 cs1)" "length (used_slots s1) = 1"
    "\<forall>b<256. woart_find_child (Kids4 s1 cs1) b = (if b = c then Some x else None)"
    unfolding n u by auto
  from add_noflush_ok [OF k1(2) _ assms(2), of x'] k1(3,4) assms obtain s2 cs2 where
    k2: "add_child4_noflush s1 cs1 c' x' = Inr (Kids4 s2 cs2)" "kids_ok (Kids4 s2 cs2)"
    "\<forall>b<256. woart_find_child (Kids4 s2 cs2) b = (if b = c' then Some x' else woart_find_child (Kids4 s1 cs1) b)"
    by auto
  have "woart_two_children c x c' x' = Inr (Kids4 s2 cs2)" by (simp add: woart_two_children_def n k1(1) k2(1))
  with k1(4) k2(2,3) show ?thesis by (simp add: sizeof_node_def)
qed

text \<open>A node with two children whose keys part at its last byte.\<close>

lemma woart_two_children_inv:
  assumes find: "\<And>b. b < 256 \<Longrightarrow> woart_find_child ks b = (if b = c' then Some y else if b = c then Some x else None)"
    and ok: "kids_ok ks" "c < 256" "c' < 256" "c \<noteq> c'"
    and h: "path_depth p = d" "d + pwoartial_len p \<le> 7" "length (pwoartial p) = min 6 (pwoartial_len p)"
      "\<And>j. j < min 6 (pwoartial_len p) \<Longrightarrow> pwoartial p ! j = woart_get_index key (d + j)"
    and x: "woart_inv (Suc (d + pwoartial_len p)) x" "\<And>k. k \<in> okeys x \<Longrightarrow> agree d (pwoartial_len p) k key"
      "\<And>k. k \<in> okeys x \<Longrightarrow> woart_get_index k (d + pwoartial_len p) = c"
    and y: "woart_inv (Suc (d + pwoartial_len p)) y" "okeys y = {key}" "woart_get_index key (d + pwoartial_len p) = c'"
  shows "woart_inv d (ONode p ks)" "omap (ONode p ks) = omap x ++ omap y"
proof -
  have K: "k \<in> okeys (ONode p ks) \<longleftrightarrow> k \<in> okeys x \<or> k = key" for k
    using find [OF woart_get_index_less] x(3) y(2,3) ok(4) h(1) by (auto simp: okeys_node split: if_splits)
  have ag: "agree d (pwoartial_len p) k key" if "k \<in> okeys (ONode p ks)" for k using that K x(2) by auto
  have "woart_header_ok d p (okeys (ONode p ks))"
    unfolding woart_header_ok_def
  proof (intro conjI ballI allI impI)
    show "pwoartial p ! j = woart_get_index k (d + j)" if "k \<in> okeys (ONode p ks)" "j < min 6 (pwoartial_len p)" for k j
      using ag [OF that(1)] h(4) [OF that(2)] that(2) by (simp add: agree_def)
    show "agree d (pwoartial_len p) k k'" if "k \<in> okeys (ONode p ks)" "k' \<in> okeys (ONode p ks)" for k k'
      using ag [OF that(1)] ag [OF that(2)] by (meson agree_sym agree_trans)
  qed (use h in auto)
  moreover have "woart_inv (Suc (d + pwoartial_len p)) z \<and> (\<forall>k\<in>okeys z. woart_get_index k (d + pwoartial_len p) = b)"
    if "b < 256" "woart_find_child ks b = Some z" for b z
    using find [OF that(1)] that(2) x(1,3) y by (auto split: if_splits)
  moreover have "woart_find_child ks c \<noteq> None" using find [OF ok(2)] by simp
  ultimately show "woart_inv d (ONode p ks)" using ok(1,2) by (auto simp: woart_inv.simps)
  show "omap (ONode p ks) = omap x ++ omap y"
  proof
    fix k
    have fk: "woart_find_child ks (woart_get_index k (d + pwoartial_len p)) =
        (if woart_get_index k (d + pwoartial_len p) = c' then Some y
         else if woart_get_index k (d + pwoartial_len p) = c then Some x else None)" by (rule find) simp
    have nx: "omap x k = None" if "woart_get_index k (d + pwoartial_len p) \<noteq> c"
      using x(3) [of k] that by (metis domIff okeys_def)
    have ny: "omap y k = None" if "woart_get_index k (d + pwoartial_len p) \<noteq> c'"
      using y(2,3) that by (metis domIff okeys_def singletonD)
    show "omap (ONode p ks) k = (omap x ++ omap y) k"
      using fk nx ny ok(4) h(1) by (auto simp: map_add_def split: option.splits)
  qed
qed

subsection \<open>Bytes of a tree\<close>

text \<open>What the counter holds for a tree: every inner node is counted 24 bytes short.\<close>

function woart_bytes :: "woart_node \<Rightarrow> u64" where
  "woart_bytes (OLeaf v kl k) = 24"
| "woart_bytes (ONode p ks) =
     sizeof_node ks - 24 +
     sum_list (map (\<lambda>b. case woart_find_child ks b of None \<Rightarrow> 0 | Some c \<Rightarrow> woart_bytes c) [0..<256])"
  by pat_completeness auto
termination
  by (relation "measure size") (auto dest: woart_find_child_size [where f = size] simp: less_SucI)

definition kid_bytes :: "woart_node option \<Rightarrow> u64" where
  "kid_bytes x = (case x of None \<Rightarrow> 0 | Some c \<Rightarrow> woart_bytes c)"

lemma kid_bytes_simps [simp]: "kid_bytes None = 0" "kid_bytes (Some c) = woart_bytes c"
  by (simp_all add: kid_bytes_def)

lemma woart_bytes_node:
  "woart_bytes (ONode p ks) = sizeof_node ks - 24 + sum_list (map (\<lambda>b. kid_bytes (woart_find_child ks b)) [0..<256])"
  by (simp add: kid_bytes_def)

lemma sum_list_point:
  fixes f g :: "nat \<Rightarrow> 'b :: ab_group_add"
  assumes "c < n" "\<And>b. b < n \<Longrightarrow> g b = (if b = c then y else f b)"
  shows "sum_list (map g [0..<n]) = sum_list (map f [0..<n]) - f c + y"
proof -
  have "map g [0..<n] = (map f [0..<n])[c := y]"
    by (rule nth_equalityI) (use assms in \<open>simp_all add: nth_list_update\<close>)
  with sum_list_map_update [of c "map f [0..<n]" id y] assms(1) show ?thesis by simp
qed

lemma kids_bytes_update:
  assumes "c < 256" "\<And>b. b < 256 \<Longrightarrow> woart_find_child ks' b = (if b = c then Some x else woart_find_child ks b)"
  shows "sum_list (map (\<lambda>b. kid_bytes (woart_find_child ks' b)) [0..<256]) =
    sum_list (map (\<lambda>b. kid_bytes (woart_find_child ks b)) [0..<256]) - kid_bytes (woart_find_child ks c) + woart_bytes x"
  using assms by (intro sum_list_point) auto

lemma woart_two_children_bytes:
  assumes "c < 256" "c' < 256" "c \<noteq> c'" "sizeof_node ks = 56"
    and "\<And>b. b < 256 \<Longrightarrow> woart_find_child ks b = (if b = c' then Some y else if b = c then Some x else None)"
  shows "woart_bytes (ONode p ks) = woart_bytes x + (32 + woart_bytes y)"
proof -
  let ?f = "\<lambda>b. kid_bytes (if b = c then Some x else None)"
  have "sum_list (map ?f [0..<256]) = sum_list (map (\<lambda>b. 0) [0..<256]) - 0 + woart_bytes x"
    using assms(1) by (intro sum_list_point) auto
  moreover have "sum_list (map (\<lambda>b. kid_bytes (woart_find_child ks b)) [0..<256]) = sum_list (map ?f [0..<256]) - ?f c' + woart_bytes y"
    using assms by (intro sum_list_point) auto
  ultimately show ?thesis unfolding woart_bytes_node using assms(3,4) by (simp add: sum_list_0)
qed

lemma growth_bytes: "add_child ks c x = Inr ks' \<Longrightarrow> growth ks ks' = sizeof_node ks' - sizeof_node ks"
  by (cases ks)
    (auto simp: add_child_def add_child4_def add_child4_noflush_def add_child16_def add_child48_def add_child256_def
      grow4_def grow16_def grow48_def growth_def sizeof_node_def alloc_node_bytes_def Let_def split: if_splits)

lemma store_child_sizeof [simp]: "sizeof_node (store_child ks i x) = sizeof_node ks"
  by (cases ks) (simp_all add: store_child_def sizeof_node_def)

subsection \<open>Insertion\<close>

definition woart_insert_ok :: "nat \<Rightarrow> woart_node \<Rightarrow> u64 \<Rightarrow> u64 \<Rightarrow> woart_node \<times> u64 option \<times> u64 \<Rightarrow> bool" where
  "woart_insert_ok d n key v r \<longleftrightarrow>
     (case r of (n', old, m) \<Rightarrow>
        woart_inv d n' \<and> omap n' = (omap n)(key \<mapsto> v) \<and> old = omap n key \<and> woart_bytes n' = woart_bytes n + m)"

lemma okeys_update: "omap n' = (omap n)(key \<mapsto> v) \<Longrightarrow> okeys n' = insert key (okeys n)"
  by (simp add: okeys_def)

lemma woart_insert_leaf_ok:
  assumes ag: "agree 0 d lk key"
  shows "\<exists>r. woart_recursive_insert (Some (OLeaf lv 8 lk)) key 8 v d = Inr r \<and> woart_insert_ok d (OLeaf lv 8 lk) key v r"
proof (cases "lk = key")
  case True
  then show ?thesis by (auto simp: woart_leaf_matches_def woart_insert_ok_def)
next
  case False
  let ?lp = "woart_longest_common_prefix lk key d"
  note l = woart_lcp [OF False ag]
  let ?c = "woart_get_index lk (d + ?lp)" and ?c' = "woart_get_index key (d + ?lp)"
  let ?p = "\<lparr>path_depth = d, pwoartial_len = ?lp, pwoartial = map (\<lambda>i. woart_get_index key (d + i)) [0..<min 6 ?lp]\<rparr>"
  from woart_two_children_ok [of ?c ?c' "OLeaf lv 8 lk" "OLeaf v 8 key"] l(3) obtain ks where
    ks: "woart_two_children ?c (OLeaf lv 8 lk) ?c' (OLeaf v 8 key) = Inr ks" "kids_ok ks" "sizeof_node ks = 56"
    and find: "\<And>b. b < 256 \<Longrightarrow> woart_find_child ks b = (if b = ?c' then Some (OLeaf v 8 key) else if b = ?c then Some (OLeaf lv 8 lk) else None)"
    by auto
  have r: "woart_recursive_insert (Some (OLeaf lv 8 lk)) key 8 v d = Inr (ONode ?p ks, None, 32 + 24)"
    using False l(1) ks(1)
    by (simp add: woart_leaf_matches_def woart_split_leaf_def Let_def alloc_node_bytes_def new_node4_def sizeof_woart_leaf_def)
  have i: "woart_inv d (ONode ?p ks)" "omap (ONode ?p ks) = omap (OLeaf lv 8 lk) ++ omap (OLeaf v 8 key)"
    by (rule woart_two_children_inv [OF find ks(2), where key = key]; use l in simp)+
  have "omap (ONode ?p ks) = (omap (OLeaf lv 8 lk))(key \<mapsto> v)"
    unfolding i(2) using False by (auto simp: map_add_def)
  moreover have "woart_bytes (ONode ?p ks) = woart_bytes (OLeaf lv 8 lk) + (32 + 24)"
    using woart_two_children_bytes [OF _ _ _ ks(3) find] l(3) by (simp del: woart_bytes.simps(2))
  ultimately show ?thesis using r i(1) False by (simp add: woart_insert_ok_def del: woart_bytes.simps(2) woart_inv.simps(2) omap.simps(2))
qed

text \<open>The old node of a prefix split, one level further down.\<close>

lemma woart_split_header_ok:
  assumes inv: "woart_inv d (ONode p ks)" and pd: "pd < pwoartial_len p" and k0: "k0 \<in> okeys (ONode p ks)"
  shows "\<exists>h. woart_split_header p ks d pd = Inr (woart_get_index k0 (d + pd), h) \<and>
    woart_inv (Suc (d + pd)) (ONode h ks) \<and> omap (ONode h ks) = omap (ONode p ks)"
proof -
  let ?K = "okeys (ONode p ks)" and ?L = "pwoartial_len p" and ?hl = "pwoartial_len p - (pd + 1)"
  note h = woart_header_okD [OF woart_invD(1) [OF inv]]
  have idx: "woart_get_index k (d + j) = woart_get_index k' (d + j)" if "k \<in> ?K" "k' \<in> ?K" "j < ?L" for k k' j
    using h(5) [OF that(1,2)] that(3) by (simp add: agree_def)
  obtain q where q: "woart_split_header p ks d pd =
      Inr (woart_get_index k0 (d + pd), \<lparr>path_depth = d + pd + 1, pwoartial_len = ?hl, pwoartial = q\<rparr>)"
    "length q = min 6 ?hl" "\<And>j. j < min 6 ?hl \<Longrightarrow> q ! j = woart_get_index k0 (d + pd + 1 + j)"
  proof (cases "?L \<le> 6")
    case True
    let ?q = "take (min 6 ?hl) (drop (pd + 1) (pwoartial p))"
    have "woart_split_header p ks d pd =
        Inr (woart_get_index k0 (d + pd), \<lparr>path_depth = d + pd + 1, pwoartial_len = ?hl, pwoartial = ?q\<rparr>)"
      using True h(4) [OF k0, of pd] pd by (simp add: woart_split_header_def Let_def)
    moreover have "?q ! j = woart_get_index k0 (d + pd + 1 + j)" if "j < min 6 ?hl" for j
      using h(3) h(4) [OF k0, of "pd + 1 + j"] True that pd by (simp add: add.assoc)
    moreover have "length ?q = min 6 ?hl" using h(3) True pd by simp
    ultimately show ?thesis using that [of ?q] by blast
  next
    case False
    from woart_minimum_ok [OF inv] obtain k1 where k1: "k1 \<in> ?K" "woart_minimum (ONode p ks) = Inr k1" by blast
    let ?q = "map (\<lambda>i. woart_get_index k1 (d + pd + 1 + i)) [0..<min 6 ?hl]"
    have "woart_split_header p ks d pd =
        Inr (woart_get_index k0 (d + pd), \<lparr>path_depth = d + pd + 1, pwoartial_len = ?hl, pwoartial = ?q\<rparr>)"
      using False k1(2) idx [OF k1(1) k0 pd] by (simp add: woart_split_header_def Let_def del: woart_minimum.simps)
    moreover have "?q ! j = woart_get_index k0 (d + pd + 1 + j)" if "j < min 6 ?hl" for j
      using idx [OF k1(1) k0, of "pd + 1 + j"] that by (simp add: add.assoc less_diff_conv add.commute add.left_commute)
    ultimately show ?thesis using that [of ?q] by simp
  qed
  let ?h = "\<lparr>path_depth = d + pd + 1, pwoartial_len = ?hl, pwoartial = q\<rparr>"
  have pos: "path_depth ?h + pwoartial_len ?h = path_depth p + ?L" using pd h(1) by simp
  have o: "omap (ONode ?h ks) = omap (ONode p ks)" using pos by (simp add: fun_eq_iff)
  then have K: "okeys (ONode ?h ks) = ?K" by (simp only: okeys_def)
  have "woart_header_ok (Suc (d + pd)) ?h ?K"
    unfolding woart_header_ok_def
  proof (intro conjI ballI allI impI)
    show "pwoartial ?h ! j = woart_get_index k (Suc (d + pd) + j)" if "k \<in> ?K" "j < min 6 (pwoartial_len ?h)" for k j
      using q(3) [of j] idx [OF that(1) k0, of "pd + 1 + j"] that(2)
      by (simp add: add.assoc less_diff_conv add.commute add.left_commute)
    show "agree (Suc (d + pd)) (pwoartial_len ?h) k k'" if "k \<in> ?K" "k' \<in> ?K" for k k'
      unfolding agree_def
    proof (intro allI impI)
      fix j assume "j < pwoartial_len ?h"
      then show "woart_get_index k (Suc (d + pd) + j) = woart_get_index k' (Suc (d + pd) + j)"
        using idx [OF that, of "pd + 1 + j"] by (simp add: add.assoc less_diff_conv add.commute add.left_commute)
    qed
  qed (use q(2) h(2) pd in auto)
  then have "woart_inv (Suc (d + pd)) (ONode ?h ks)"
    using inv pos K h(1) pd unfolding woart_inv.simps by simp
  with q(1) o show ?thesis by blast
qed

text \<open>A node one of whose children is new or replaced.\<close>

lemma woart_node_update:
  assumes inv: "woart_inv d (ONode p ks)" and ks': "kids_ok ks'"
    and find: "\<And>b. b < 256 \<Longrightarrow> woart_find_child ks' b =
      (if b = woart_get_index key (d + pwoartial_len p) then Some y else woart_find_child ks b)"
    and ag: "\<And>k. k \<in> okeys (ONode p ks) \<Longrightarrow> agree d (pwoartial_len p) k key"
    and y: "woart_inv (Suc (d + pwoartial_len p)) y"
      "\<And>k. k \<in> okeys y \<Longrightarrow> k = key \<or> k \<in> okeys (ONode p ks) \<and> woart_get_index k (d + pwoartial_len p) = woart_get_index key (d + pwoartial_len p)"
    and hdr: "\<And>j. j < min 6 (pwoartial_len p) \<Longrightarrow> pwoartial p ! j = woart_get_index key (d + j)"
  shows "woart_inv d (ONode p ks')"
    "omap (ONode p ks') k = (if woart_get_index k (d + pwoartial_len p) = woart_get_index key (d + pwoartial_len p)
       then omap y k else omap (ONode p ks) k)"
proof -
  let ?L = "pwoartial_len p"
  note h = woart_header_okD [OF woart_invD(1) [OF inv]]
  have m: "omap (ONode p ks') k = (if woart_get_index k (d + ?L) = woart_get_index key (d + ?L) then omap y k else omap (ONode p ks) k)" for k
    using find [of "woart_get_index k (d + ?L)"] h(1) by simp
  then show "omap (ONode p ks') k = (if woart_get_index k (d + ?L) = woart_get_index key (d + ?L) then omap y k else omap (ONode p ks) k)" .
  have K: "k \<in> okeys (ONode p ks) \<or> k = key" if "k \<in> okeys (ONode p ks')" for k
  proof (cases "woart_get_index k (d + ?L) = woart_get_index key (d + ?L)")
    case True
    with m [of k] that have "k \<in> okeys y" by (simp add: okeys_def domIff del: omap.simps)
    with y(2) show ?thesis by blast
  next
    case False
    with m [of k] that show ?thesis by (simp add: okeys_def domIff del: omap.simps)
  qed
  have ag': "agree d ?L k key" if "k \<in> okeys (ONode p ks')" for k using K [OF that] ag by auto
  have "woart_header_ok d p (okeys (ONode p ks'))"
    unfolding woart_header_ok_def
  proof (intro conjI ballI allI impI)
    show "pwoartial p ! j = woart_get_index k (d + j)" if "k \<in> okeys (ONode p ks')" "j < min 6 ?L" for k j
      using K [OF that(1)] h(4) [OF _ that(2)] hdr [OF that(2)] by auto
    show "agree d ?L k k'" if "k \<in> okeys (ONode p ks')" "k' \<in> okeys (ONode p ks')" for k k'
      using ag' [OF that(1)] ag' [OF that(2)] by (meson agree_sym agree_trans)
  qed (use h in auto)
  moreover have "woart_inv (Suc (d + ?L)) z \<and> (\<forall>k\<in>okeys z. woart_get_index k (d + ?L) = b)"
    if b: "b < 256" "woart_find_child ks' b = Some z" for b z
  proof (cases "b = woart_get_index key (d + ?L)")
    case True
    with find [OF b(1)] b(2) y show ?thesis by auto
  next
    case False
    with find [OF b(1)] b(2) have "woart_find_child ks b = Some z" by simp
    with woart_invD(3,4) [OF inv b(1) this] show ?thesis by blast
  qed
  moreover have "woart_find_child ks' (woart_get_index key (d + ?L)) \<noteq> None" by (simp add: find)
  ultimately show "woart_inv d (ONode p ks')" using ks' unfolding woart_inv.simps by (meson woart_get_index_less)
qed

lemma insert_node_split_ok:
  assumes inv: "woart_inv d (ONode p ks)" and pd: "pd < pwoartial_len p"
    and mm: "woart_prefix_mismatch p ks key d = Inr pd"
    and ag: "\<And>k. k \<in> okeys (ONode p ks) \<Longrightarrow> agree d pd k key \<and> woart_get_index k (d + pd) \<noteq> woart_get_index key (d + pd)"
  shows "\<exists>r. woart_recursive_insert (Some (ONode p ks)) key 8 v d = Inr r \<and> woart_insert_ok d (ONode p ks) key v r"
proof -
  note h = woart_header_okD [OF woart_invD(1) [OF inv]]
  from okeys_nonempty [OF inv] obtain k0 where k0: "k0 \<in> okeys (ONode p ks)" by blast
  from woart_split_header_ok [OF inv pd k0] obtain h' where
    h': "woart_split_header p ks d pd = Inr (woart_get_index k0 (d + pd), h')" "woart_inv (Suc (d + pd)) (ONode h' ks)"
      "omap (ONode h' ks) = omap (ONode p ks)" by blast
  then have K: "okeys (ONode h' ks) = okeys (ONode p ks)" by (simp only: okeys_def)
  let ?c = "woart_get_index k0 (d + pd)" and ?c' = "woart_get_index key (d + pd)"
  let ?p = "\<lparr>path_depth = d, pwoartial_len = pd, pwoartial = take (min 6 pd) (pwoartial p)\<rparr>"
  from woart_two_children_ok [of ?c ?c' "ONode h' ks" "OLeaf v 8 key"] ag [OF k0] obtain ks' where
    ks': "woart_two_children ?c (ONode h' ks) ?c' (OLeaf v 8 key) = Inr ks'" "kids_ok ks'" "sizeof_node ks' = 56"
    and find: "\<And>b. b < 256 \<Longrightarrow> woart_find_child ks' b = (if b = ?c' then Some (OLeaf v 8 key) else if b = ?c then Some (ONode h' ks) else None)"
    by auto
  have d7: "d + pd \<le> 7" using pd h(2) by simp
  have r: "woart_recursive_insert (Some (ONode p ks)) key 8 v d = Inr (ONode ?p ks', None, 32 + 24)"
    using pd mm h(1) h'(1) ks'(1) d7
    by (simp add: woart_split_node_def Let_def alloc_node_bytes_def new_node4_def sizeof_woart_leaf_def not_less)
  have same: "woart_get_index k (d + pd) = ?c" if "k \<in> okeys (ONode p ks)" for k
    using h(5) [OF that k0] pd by (simp add: agree_def)
  have part: "take (min 6 pd) (pwoartial p) ! j = woart_get_index key (d + j)" if "j < min 6 pd" for j
    using h(4) [OF k0, of j] ag [OF k0] that pd by (simp add: agree_def)
  have hp: "path_depth ?p = d" "d + pwoartial_len ?p \<le> 7" "length (pwoartial ?p) = min 6 (pwoartial_len ?p)"
    "\<And>j. j < min 6 (pwoartial_len ?p) \<Longrightarrow> pwoartial ?p ! j = woart_get_index key (d + j)"
    using d7 h(3) pd part by (simp_all del: nth_take)
  have xp: "woart_inv (Suc (d + pwoartial_len ?p)) (ONode h' ks)" using h'(2) by (simp only: path_comp.select_convs)
  have xk: "agree d (pwoartial_len ?p) k key" "woart_get_index k (d + pwoartial_len ?p) = ?c" if "k \<in> okeys (ONode h' ks)" for k
    using ag same that unfolding K by simp_all
  have cc: "?c \<noteq> ?c'" using ag [OF k0] by blast
  have yp: "woart_inv (Suc (d + pwoartial_len ?p)) (OLeaf v 8 key)" "okeys (OLeaf v 8 key) = {key}"
    "woart_get_index key (d + pwoartial_len ?p) = ?c'" by simp_all
  note i = woart_two_children_inv [OF find ks'(2) woart_get_index_less woart_get_index_less cc hp xp xk yp]
  have nk: "key \<notin> okeys (ONode p ks)" using ag by blast
  then have none: "omap (ONode p ks) key = None" by (simp add: okeys_def domIff del: omap.simps)
  have "omap (ONode ?p ks') = (omap (ONode p ks))(key \<mapsto> v)"
  proof -
    have "omap (ONode ?p ks') = omap (ONode p ks) ++ omap (OLeaf v 8 key)" using i(2) h'(3) by simp
    also have "\<dots> = (omap (ONode p ks))(key \<mapsto> v)" by (rule ext) (simp add: map_add_def)
    finally show ?thesis .
  qed
  moreover have "woart_bytes (ONode ?p ks') = woart_bytes (ONode h' ks) + (32 + 24)"
    using woart_two_children_bytes [OF _ _ _ ks'(3) find] ag [OF k0] by (simp del: woart_bytes.simps(2))
  moreover have "woart_bytes (ONode h' ks) = woart_bytes (ONode p ks)" by simp
  ultimately show ?thesis using r i(1) none
    by (simp add: woart_insert_ok_def del: woart_bytes.simps(2) woart_inv.simps(2) omap.simps(2) woart_recursive_insert.simps)
qed

lemma insert_node_descend_ok:
  assumes inv: "woart_inv d (ONode p ks)"
    and mm: "(if pwoartial_len p \<noteq> 0 then woart_prefix_mismatch p ks key d else Inr 0) = Inr pd" "pwoartial_len p \<le> pd"
    and ag: "\<And>k. k \<in> okeys (ONode p ks) \<Longrightarrow> agree d (pwoartial_len p) k key"
    and IH: "\<And>c. c \<in> set_kids ks \<Longrightarrow> woart_inv (Suc (d + pwoartial_len p)) c \<Longrightarrow>
      (\<And>k. k \<in> okeys c \<Longrightarrow> k \<in> okeys (ONode p ks) \<and> woart_get_index k (d + pwoartial_len p) = woart_get_index key (d + pwoartial_len p)) \<Longrightarrow>
      \<exists>r. woart_recursive_insert (Some c) key 8 v (Suc (d + pwoartial_len p)) = Inr r \<and>
        woart_insert_ok (Suc (d + pwoartial_len p)) c key v r"
  shows "\<exists>r. woart_recursive_insert (Some (ONode p ks)) key 8 v d = Inr r \<and> woart_insert_ok d (ONode p ks) key v r"
proof -
  let ?L = "pwoartial_len p" and ?b = "woart_get_index key (d + pwoartial_len p)"
  note h = woart_header_okD [OF woart_invD(1) [OF inv]] and ok = woart_invD(2) [OF inv]
  have pos: "positions_ok ks" using ok by (simp add: kids_ok_def)
  have at: "omap (ONode p ks) key = (case woart_find_child ks ?b of None \<Rightarrow> None | Some c \<Rightarrow> omap c key)" using h(1) by simp
  have hdr: "pwoartial p ! j = woart_get_index key (d + j)" if "j < min 6 ?L" for j
  proof -
    from okeys_nonempty [OF inv] obtain k where "k \<in> okeys (ONode p ks)" by blast
    with h(4) [OF this that] ag [OF this] that show ?thesis by (simp add: agree_def)
  qed
  have r: "woart_recursive_insert (Some (ONode p ks)) key 8 v d =
      (case child_pos ks ?b of
         Some i \<Rightarrow> if i \<ge> length (children ks) then Inl OutOfBounds
           else map_sum id (\<lambda>(c', old, m). (ONode p (store_child ks i (Some c')), old, m))
                  (woart_recursive_insert (children ks ! i) key 8 v (Suc (d + ?L)))
       | None \<Rightarrow> map_sum id (\<lambda>ks'. (ONode p ks', None, growth ks ks' + sizeof_woart_leaf)) (add_child ks ?b (OLeaf v 8 key)))"
    unfolding woart_recursive_insert.simps(3) mm(1) using mm(2) h(1,2) by (simp add: Let_def not_less)
  have other: "omap (ONode p ks) k = ((omap (ONode p ks))(key \<mapsto> v)) k" if "woart_get_index k (d + ?L) \<noteq> ?b" for k
    using that by (auto simp del: omap.simps)
  show ?thesis
  proof (cases "child_pos ks ?b")
    case None
    then have nf: "woart_find_child ks ?b = None" using find_child_None [OF pos] by simp
    from add_child_ok [OF ok woart_get_index_less nf, of "OLeaf v 8 key"] obtain ks' where
      ks': "add_child ks ?b (OLeaf v 8 key) = Inr ks'" "kids_ok ks'"
      and find: "\<And>b. b < 256 \<Longrightarrow> woart_find_child ks' b = (if b = ?b then Some (OLeaf v 8 key) else woart_find_child ks b)" by blast
    have y: "woart_inv (Suc (d + ?L)) (OLeaf v 8 key)" by simp
    have yk: "k = key \<or> k \<in> okeys (ONode p ks) \<and> woart_get_index k (d + ?L) = ?b" if "k \<in> okeys (OLeaf v 8 key)" for k
      using that by simp
    note up = woart_node_update [OF inv ks'(2) find ag y yk hdr]
    have none: "omap (ONode p ks) k = None" if "woart_get_index k (d + ?L) = ?b" for k using that nf h(1) by simp
    have "omap (ONode p ks') = (omap (ONode p ks))(key \<mapsto> v)"
    proof
      fix k show "omap (ONode p ks') k = ((omap (ONode p ks))(key \<mapsto> v)) k"
        using up(2) [of k] other [of k] none [of k] by (auto simp del: omap.simps(2) split: if_splits)
    qed
    moreover have "woart_bytes (ONode p ks') = woart_bytes (ONode p ks) + (growth ks ks' + sizeof_woart_leaf)"
      using kids_bytes_update [OF woart_get_index_less find] nf
      by (simp add: woart_bytes_node growth_bytes [OF ks'(1)] sizeof_woart_leaf_def del: woart_bytes.simps(2))
    moreover have "woart_recursive_insert (Some (ONode p ks)) key 8 v d = Inr (ONode p ks', None, growth ks ks' + sizeof_woart_leaf)"
      unfolding r using None ks'(1) by simp
    ultimately show ?thesis using up(1) none by (simp add: woart_insert_ok_def del: woart_bytes.simps woart_inv.simps omap.simps)
  next
    case (Some i)
    with pos obtain c where i: "i < length (children ks)" and ci: "children ks ! i = Some c"
      unfolding positions_ok_def by (meson woart_get_index_less option.exhaust)
    then have c: "woart_find_child ks ?b = Some c" using find_child_pos [OF pos, of ?b] Some by simp
    note ci' = woart_invD(3) [OF inv woart_get_index_less c]
    have ck: "k \<in> okeys (ONode p ks) \<and> woart_get_index k (d + ?L) = ?b" if "k \<in> okeys c" for k
      using okeys_child [OF inv woart_get_index_less c that] woart_invD(4) [OF inv woart_get_index_less c that] by blast
    from IH [OF find_child_set [OF c] ci' ck] obtain c' old m where
      c': "woart_recursive_insert (Some c) key 8 v (Suc (d + ?L)) = Inr (c', old, m)"
      "woart_insert_ok (Suc (d + ?L)) c key v (c', old, m)" by (metis prod_cases3)
    then have co: "woart_inv (Suc (d + ?L)) c'" "omap c' = (omap c)(key \<mapsto> v)" "old = omap c key" "woart_bytes c' = woart_bytes c + m"
      by (simp_all add: woart_insert_ok_def)
    let ?ks = "store_child ks i (Some c')"
    note st = store_child_ok [OF ok Some woart_get_index_less, where x = c']
    have yk: "k = key \<or> k \<in> okeys (ONode p ks) \<and> woart_get_index k (d + ?L) = ?b" if "k \<in> okeys c'" for k
      using that ck okeys_update [OF co(2)] by blast
    note up = woart_node_update [OF inv st(1) st(2) ag co(1) yk hdr]
    have "omap (ONode p ?ks) = (omap (ONode p ks))(key \<mapsto> v)"
    proof
      fix k
      have "omap (ONode p ks) k = omap c k" if "woart_get_index k (d + ?L) = ?b" using that c h(1) by simp
      then show "omap (ONode p ?ks) k = ((omap (ONode p ks))(key \<mapsto> v)) k"
        using up(2) [of k] other [of k] co(2) by (auto simp del: omap.simps(2) split: if_splits)
    qed
    moreover have "woart_bytes (ONode p ?ks) = woart_bytes (ONode p ks) + m"
      using kids_bytes_update [OF woart_get_index_less st(2)] c co(4) by (simp add: woart_bytes_node del: woart_bytes.simps(2))
    moreover have "woart_recursive_insert (Some (ONode p ks)) key 8 v d = Inr (ONode p ?ks, old, m)"
      unfolding r using Some i ci c'(1) by simp
    ultimately show ?thesis using up(1) co(3) at c by (simp add: woart_insert_ok_def del: woart_bytes.simps woart_inv.simps omap.simps)
  qed
qed

theorem woart_insert_correct:
  "woart_inv d n \<Longrightarrow> (\<And>k. k \<in> okeys n \<Longrightarrow> agree 0 d k key) \<Longrightarrow>
   \<exists>r. woart_recursive_insert (Some n) key 8 v d = Inr r \<and> woart_insert_ok d n key v r"
proof (induction n arbitrary: d)
  case (OLeaf lv kl lk)
  from OLeaf.prems(1) have "kl = 8" by simp
  with woart_insert_leaf_ok [of d lk key lv v] OLeaf.prems(2) show ?case by simp
next
  case (ONode p ks)
  note inv = ONode.prems(1)
  let ?L = "pwoartial_len p"
  from woart_prefix_mismatch_ok [OF inv, of key] obtain pd where
    pd: "woart_prefix_mismatch p ks key d = Inr pd"
    "pd < ?L \<Longrightarrow> k \<in> okeys (ONode p ks) \<Longrightarrow> agree d pd k key \<and> woart_get_index k (d + pd) \<noteq> woart_get_index key (d + pd)"
    "?L \<le> pd \<Longrightarrow> k \<in> okeys (ONode p ks) \<Longrightarrow> agree d ?L k key" for k by blast
  show ?case
  proof (cases "pd < ?L")
    case True
    from insert_node_split_ok [OF inv True pd(1) pd(2) [OF True]] show ?thesis .
  next
    case False
    then have le: "?L \<le> pd" by simp
    have mm: "(if ?L \<noteq> 0 then woart_prefix_mismatch p ks key d else Inr 0) = Inr (if ?L \<noteq> 0 then pd else 0)" using pd(1) by simp
    have le': "?L \<le> (if ?L \<noteq> 0 then pd else 0)" using le by simp
    have ag: "agree d ?L k key" if "k \<in> okeys (ONode p ks)" for k using pd(3) [OF le that] .
    show ?thesis
    proof (rule insert_node_descend_ok [OF inv mm le' ag])
      fix c assume c: "c \<in> set_kids ks" "woart_inv (Suc (d + ?L)) c"
        and ck: "\<And>k. k \<in> okeys c \<Longrightarrow> k \<in> okeys (ONode p ks) \<and> woart_get_index k (d + ?L) = woart_get_index key (d + ?L)"
      have "agree 0 (Suc (d + ?L)) k key" if "k \<in> okeys c" for k
        using ck [OF that] ONode.prems(2) [of k] ag [of k] agree_add [of 0 d ?L k key] by (simp add: agree_Suc)
      from ONode.IH [OF c this] show "\<exists>r. woart_recursive_insert (Some c) key 8 v (Suc (d + ?L)) = Inr r \<and>
          woart_insert_ok (Suc (d + ?L)) c key v r" .
    qed
  qed
qed

end
