(* ===== verification/Woart_Props.thy ===== *)
theory Woart_Props
  imports Woart_Insert
begin

text \<open>
  What the tree of \<^verbatim>\<open>woart/woart.cpp\<close> promises: it is a map with a key count, its traversal is
  sorted, its byte count is short by one leaf per inner node, and what a crash and a range
  scan do to it.
\<close>

subsection \<open>The tree as an index\<close>

definition woart_abs :: "woart_tree \<Rightarrow> u64 \<Rightarrow> u64 option" where
  "woart_abs t = (case woart_root t of None \<Rightarrow> Map.empty | Some n \<Rightarrow> omap n)"

definition woart_ok :: "woart_tree \<Rightarrow> bool" where
  "woart_ok t \<longleftrightarrow> (case woart_root t of None \<Rightarrow> True | Some n \<Rightarrow> woart_inv 0 n) \<and>
     woart_size t = of_nat (card (dom (woart_abs t)))"

definition woart_put8 :: "woart_tree \<Rightarrow> u64 \<Rightarrow> u64 \<Rightarrow> woart_tree res" where
  "woart_put8 t k v = map_sum id snd (woart_put t k 8 v)"

definition woart_get8 :: "woart_tree \<Rightarrow> u64 \<Rightarrow> u64 option res" where
  "woart_get8 t k = (case woart_root t of None \<Rightarrow> Inr None | Some n \<Rightarrow> woart_get_from n k 8 0)"

lemma woart_get_get8: "woart_get t k 8 = map_sum id or_null (woart_get8 t k)"
  by (simp add: woart_get_def woart_get8_def split: option.split)

definition root_bytes :: "woart_tree \<Rightarrow> u64" where
  "root_bytes t = kid_bytes (woart_root t)"

lemma woart_put_step:
  assumes "woart_ok t"
  shows "\<exists>t'. woart_put t k 8 v = Inr (woart_abs t k, t') \<and> woart_ok t' \<and> woart_abs t' = (woart_abs t)(k \<mapsto> v) \<and>
    woart_memory_usage t' = woart_memory_usage t + 8 + (root_bytes t' - root_bytes t)"
proof -
  obtain n old m where r: "woart_recursive_insert (woart_root t) k 8 v 0 = Inr (n, old, m)"
    and ok: "woart_inv 0 n" "omap n = (woart_abs t)(k \<mapsto> v)" "old = woart_abs t k" "woart_bytes n = root_bytes t + m"
  proof (cases "woart_root t")
    case None
    then show ?thesis
      using that [of "OLeaf v 8 k" None 24] by (simp add: woart_abs_def root_bytes_def sizeof_woart_leaf_def fun_eq_iff)
  next
    case (Some n0)
    with assms have "woart_inv 0 n0" by (simp add: woart_ok_def)
    from woart_insert_correct [OF this, of k v] obtain r where
      "woart_recursive_insert (Some n0) k 8 v 0 = Inr r" "woart_insert_ok 0 n0 k v r" by (auto simp: agree_def)
    then obtain n old m where
      "woart_recursive_insert (Some n0) k 8 v 0 = Inr (n, old, m)" "woart_insert_ok 0 n0 k v (n, old, m)"
      by (cases r) auto
    with Some show ?thesis using that [of n old m] by (simp add: woart_insert_ok_def woart_abs_def root_bytes_def)
  qed
  have f: "finite (dom (woart_abs t))" using finite_okeys by (simp add: woart_abs_def okeys_def [symmetric] split: option.split)
  let ?t = "\<lparr>woart_root = Some n, woart_size = (if old = None then woart_size t + 1 else woart_size t),
      woart_memory_usage = woart_memory_usage t + 8 + m\<rparr>"
  have a: "woart_abs ?t = (woart_abs t)(k \<mapsto> v)" by (simp add: woart_abs_def ok(2))
  have "woart_size ?t = of_nat (card (dom (woart_abs ?t)))"
    using assms f ok(3) unfolding a by (auto simp: woart_ok_def card_insert_if insert_absorb)
  with ok(1) have "woart_ok ?t" by (simp add: woart_ok_def)
  with r a ok(3,4) show ?thesis by (simp add: woart_put_def root_bytes_def)
qed

lemma woart_ok_put:
  "woart_ok t \<Longrightarrow> \<exists>t'. woart_put8 t k v = Inr t' \<and> woart_ok t' \<and> woart_abs t' = (woart_abs t)(k \<mapsto> v)"
  using woart_put_step [of t k v] by (auto simp: woart_put8_def)

lemma woart_get8_ok: "woart_ok t \<Longrightarrow> woart_get8 t k = Inr (woart_abs t k)"
  by (simp add: woart_get8_def woart_abs_def woart_ok_def woart_get_from_correct split: option.splits)

interpretation woart: sized_index woart_ok woart_abs woart_put8 woart_get8 woart_size
proof unfold_locales
  show "woart_ok t \<Longrightarrow> \<exists>t'. woart_put8 t k v = Inr t' \<and> woart_ok t' \<and> woart_abs t' = (woart_abs t)(k \<mapsto> v)" for t k v
    by (rule woart_ok_put)
  show "woart_ok t \<Longrightarrow> woart_get8 t k = Inr (woart_abs t k)" for t k
    by (rule woart_get8_ok)
  show "woart_ok t \<Longrightarrow> woart_size t = of_nat (card (dom (woart_abs t)))" for t
    by (simp add: woart_ok_def)
qed

lemma new_woart_tree_ok: "woart_ok (new_woart_tree mem)" "woart_abs (new_woart_tree mem) = Map.empty"
  by (simp_all add: woart_ok_def woart_abs_def new_woart_tree_def woart_tree_init_def)

text \<open>
  C5.  Any sequence of insertions into a new tree succeeds, through leaf splits, prefix splits
  and the growth of nodes from 4 to 16, 48 and 256 children; afterwards a lookup returns the
  last value put at the key, or 0, the code's null, for a key never put, and the tree's size
  is the number of distinct keys.
\<close>

theorem woart_history:
  "\<exists>t. run_puts woart_put8 (new_woart_tree mem) kvs = Inr t \<and>
     (\<forall>k. woart_get t k 8 = Inr (or_null (map_of (rev kvs) k))) \<and>
     woart_size t = of_nat (card (fst ` set kvs))"
proof -
  from woart.get_history [OF new_woart_tree_ok, of mem kvs] obtain t where
    t: "run_puts woart_put8 (new_woart_tree mem) kvs = Inr t" "\<forall>k. woart_get8 t k = Inr (map_of (rev kvs) k)"
    by blast
  with woart.count_history [OF new_woart_tree_ok, of mem kvs] show ?thesis
    by (auto simp: woart_get_get8)
qed

text \<open>
  Children added to a new NODE4 under distinct bytes are all found afterwards, and nothing
  else is, for every number of them up to 256: growing to NODE16, NODE48 and NODE256 moves
  every child to the place where \<open>find_child\<close> looks for it.
\<close>

theorem woart_node_grows:
  assumes "distinct (map fst bxs)" "list_all (\<lambda>bx. fst bx < 256) bxs"
  shows "\<exists>ks. run_puts add_child new_node4 bxs = Inr ks \<and> (\<forall>b<256. woart_find_child ks b = map_of bxs b)"
proof -
  have e: "woart_find_child new_node4 b = None" for b by (rule new_node4_ok)
  from woart_kids.add_all [OF new_node4_ok(1) assms(1)] assms(2) obtain ks where
    "run_puts add_child new_node4 bxs = Inr ks" "\<forall>b<256. woart_find_child ks b = (woart_find_child new_node4 ++ map_of bxs) b"
    by (auto simp: list_all_iff e)
  then show ?thesis by (auto simp: map_add_def e split: option.splits)
qed

theorem woart_node_grows_witness:
  "\<exists>ks. run_puts add_child new_node4 (map (\<lambda>b. (b, b)) [0..<256]) = Inr ks \<and> woart_find_child ks 255 = Some (255 :: nat)"
proof -
  have "distinct (map fst (map (\<lambda>b. (b, b)) [0..<256]))" "list_all (\<lambda>bx. fst bx < 256) (map (\<lambda>b. (b, b)) [0..<256])"
    by (simp_all add: o_def list_all_iff)
  from woart_node_grows [OF this] obtain ks where
    ks: "run_puts add_child new_node4 (map (\<lambda>b. (b, b)) [0..<256]) = Inr ks"
    "\<forall>b<256. woart_find_child ks b = map_of (map (\<lambda>b. (b, b)) [0..<256]) b" by blast
  moreover have "map_of (map (\<lambda>b. (b, b)) [0..<256]) 255 = Some (255 :: nat)" by (simp add: map_of_map_restrict restrict_map_def)
  ultimately show ?thesis by auto
qed

subsection \<open>Memory accounting\<close>

text \<open>The true sizes of the nodes of a tree, and the number of inner nodes.\<close>

function tree_bytes :: "woart_node \<Rightarrow> u64" where
  "tree_bytes (OLeaf v kl k) = sizeof_woart_leaf"
| "tree_bytes (ONode p ks) =
     sizeof_node ks +
     sum_list (map (\<lambda>b. case woart_find_child ks b of None \<Rightarrow> 0 | Some c \<Rightarrow> tree_bytes c) [0..<256])"
  by pat_completeness auto
termination
  by (relation "measure size") (auto dest: woart_find_child_size [where f = size] simp: less_SucI)

function inner_nodes :: "woart_node \<Rightarrow> u64" where
  "inner_nodes (OLeaf v kl k) = 0"
| "inner_nodes (ONode p ks) =
     1 + sum_list (map (\<lambda>b. case woart_find_child ks b of None \<Rightarrow> 0 | Some c \<Rightarrow> inner_nodes c) [0..<256])"
  by pat_completeness auto
termination
  by (relation "measure size") (auto dest: woart_find_child_size [where f = size] simp: less_SucI)

lemma sum_list_short:
  fixes f g h :: "'b \<Rightarrow> 'c :: comm_ring_1"
  assumes "\<And>b. b \<in> set bs \<Longrightarrow> f b = g b - a * h b"
  shows "sum_list (map f bs) = sum_list (map g bs) - a * sum_list (map h bs)"
  using assms by (induction bs) (simp_all add: algebra_simps)

lemma woart_bytes_short: "woart_bytes n = tree_bytes n - 24 * inner_nodes n"
proof (induction n)
  case (ONode p ks)
  let ?s = "\<lambda>f b. (case woart_find_child ks b of None \<Rightarrow> 0 | Some c \<Rightarrow> f c) :: u64"
  have "?s woart_bytes b = ?s tree_bytes b - 24 * ?s inner_nodes b" for b
    using ONode.IH find_child_set [of ks b] by (cases "woart_find_child ks b") simp_all
  then have "sum_list (map (?s woart_bytes) [0..<256]) =
      sum_list (map (?s tree_bytes) [0..<256]) - 24 * sum_list (map (?s inner_nodes) [0..<256])"
    by (intro sum_list_short)
  then show ?case by (simp add: algebra_simps)
qed (simp add: sizeof_woart_leaf_def)

lemma woart_run_bytes:
  "woart_ok t \<Longrightarrow> run_puts woart_put8 t kvs = Inr t' \<Longrightarrow>
   woart_memory_usage t' - root_bytes t' = woart_memory_usage t - root_bytes t + 8 * of_nat (length kvs)"
proof (induction kvs arbitrary: t)
  case (Cons kv kvs)
  obtain k v where kv: "kv = (k, v)" by (cases kv)
  from woart_put_step [OF Cons.prems(1), of k v] obtain t1 where
    t1: "woart_put t k 8 v = Inr (woart_abs t k, t1)" "woart_ok t1"
    "woart_memory_usage t1 = woart_memory_usage t + 8 + (root_bytes t1 - root_bytes t)" by blast
  then have "woart_put8 t k v = Inr t1" by (simp add: woart_put8_def)
  with Cons.prems(2) kv have "run_puts woart_put8 t1 kvs = Inr t'" by simp
  from Cons.IH [OF t1(2) this] t1(3) show ?case by (simp add: algebra_simps)
qed simp

text \<open>
  The counter behind \<open>woart_memory_profile\<close> is 24 bytes short for every inner node of the
  tree: \<open>alloc_node\<close> subtracts a leaf from each NODE4, although the leaf it replaces stays.
\<close>

theorem woart_memory_short:
  assumes "kvs \<noteq> []"
  shows "\<exists>t n. run_puts woart_put8 (new_woart_tree mem) kvs = Inr t \<and> woart_root t = Some n \<and>
     woart_memory_usage t = mem + 16 + 8 * of_nat (length kvs) + tree_bytes n - 24 * inner_nodes n"
proof -
  from woart.get_history [OF new_woart_tree_ok, of mem kvs] obtain t where
    t: "run_puts woart_put8 (new_woart_tree mem) kvs = Inr t" "woart_abs t = map_of (rev kvs)" by blast
  have "woart_abs t (fst (hd kvs)) \<noteq> None" using assms t(2) by (cases kvs) (auto simp: map_of_eq_None_iff)
  then obtain n where n: "woart_root t = Some n" by (cases "woart_root t") (auto simp: woart_abs_def)
  from woart_run_bytes [OF new_woart_tree_ok(1) t(1)] n t(1) show ?thesis
    by (simp add: root_bytes_def woart_bytes_short new_woart_tree_def woart_tree_init_def algebra_simps)
qed

theorem woart_memory_short_witness:
  "\<exists>t n. run_puts woart_put8 (new_woart_tree 0) [(5, 7)] = Inr t \<and> woart_root t = Some n \<and>
     woart_memory_usage t = 24 + tree_bytes n - 24 * inner_nodes n"
  using woart_memory_short [of "[(5, 7)]" 0] by simp

subsection \<open>Order\<close>

lemma agree_drop:
  assumes "agree 0 i k k'" "i \<le> 8"
  shows "drop_bit (8 * (8 - i)) k = drop_bit (8 * (8 - i)) k'"
proof (rule bit_word_eqI)
  fix m
  define n where "n = 8 * (8 - i) + m"
  have "bit k n = bit k' n"
  proof (cases "n < 64")
    case True
    define d where "d = 7 - n div 8"
    have d: "n div 8 \<le> 7" "8 - i \<le> n div 8" using True by (auto simp: n_def)
    then have "d < i" using assms(2) unfolding d_def by linarith
    then have i: "woart_get_index k d = woart_get_index k' d" using assms(1) by (simp add: agree_def)
    have d8: "d < 8" unfolding d_def by linarith
    have e: "(7 - d) * 8 + n mod 8 = n" using d(1) by (simp add: d_def)
    show ?thesis using woart_get_index_bit [OF d8 i, of "n mod 8"] unfolding e by simp
  next
    case False
    then have "\<not> bit w n" for w :: u64 using bit_imp_le_length [of w n] by auto
    then show ?thesis by simp
  qed
  then show "bit (drop_bit (8 * (8 - i)) k) m = bit (drop_bit (8 * (8 - i)) k') m"
    by (simp add: bit_drop_bit_eq n_def)
qed

text \<open>Keys are ordered by their first different byte.\<close>

lemma first_byte_order:
  assumes ag: "agree 0 i k k'" and i: "i < 8" and lt: "woart_get_index k i < woart_get_index k' i"
  shows "k < k'"
proof -
  define D :: nat where "D = 8 * (7 - i)"
  have e: "8 * (8 - i) = D + 8" using i by (simp add: D_def)
  have idx: "woart_get_index k i = unat k div 2 ^ D mod 256" for k
    by (simp add: woart_get_index_def unat_drop_bit_mask D_def mult.commute)
  have "unat k div 2 ^ (D + 8) = unat k' div 2 ^ (D + 8)"
    using agree_drop [OF ag] i unfolding e by (metis less_imp_le unat_drop_bit)
  then have hi: "unat k div 2 ^ D div 256 = unat k' div 2 ^ D div 256"
    by (simp add: div_mult2_eq [symmetric] power_add)
  have "unat k div 2 ^ D < unat k' div 2 ^ D"
    using hi lt unfolding idx by (metis add_less_cancel_left mult_div_mod_eq)
  then have "\<not> unat k' \<le> unat k" by (meson div_le_mono not_less)
  then show ?thesis by (simp add: word_less_nat_alt)
qed

lemma sorted_blocks:
  assumes "\<And>b. b < n \<Longrightarrow> sorted_wrt (<) (f b)" "\<And>b b' x y. b < b' \<Longrightarrow> b' < n \<Longrightarrow> x \<in> set (f b) \<Longrightarrow> y \<in> set (f b') \<Longrightarrow> x < y"
  shows "sorted_wrt (<) (concat (map f [0..<n]))"
  using assms by (induction n) (auto simp: sorted_wrt_append)

lemma woart_all_props:
  "woart_inv d n \<Longrightarrow> (\<And>k k'. k \<in> okeys n \<Longrightarrow> k' \<in> okeys n \<Longrightarrow> agree 0 d k k') \<Longrightarrow>
   sorted_wrt (<) (map fst (woart_all_subtree_kv n)) \<and> (\<forall>k v. (k, v) \<in> set (woart_all_subtree_kv n) \<longleftrightarrow> omap n k = Some v)"
proof (induction n arbitrary: d)
  case (ONode p ks)
  note inv = ONode.prems(1) and h = woart_header_okD [OF woart_invD(1) [OF ONode.prems(1)]]
  let ?D = "d + pwoartial_len p"
  let ?f = "\<lambda>b. case woart_find_child ks b of None \<Rightarrow> [] | Some c \<Rightarrow> woart_all_subtree_kv c"
  have ag: "agree 0 ?D k k'" if "k \<in> okeys (ONode p ks)" "k' \<in> okeys (ONode p ks)" for k k'
    using ONode.prems(2) [OF that] h(5) [OF that] agree_add [of 0 d "pwoartial_len p" k k'] by simp
  have child: "sorted_wrt (<) (map fst (?f b)) \<and> (\<forall>k v. (k, v) \<in> set (?f b) \<longleftrightarrow> (woart_get_index k ?D = b \<and> omap (ONode p ks) k = Some v))"
    if b: "b < 256" for b
  proof (cases "woart_find_child ks b")
    case None
    then show ?thesis using h(1) by auto
  next
    case (Some c)
    note cD = woart_invD(3,4) [OF inv b Some] and ck = okeys_child [OF inv b Some]
    have "agree 0 (Suc ?D) k k'" if "k \<in> okeys c" "k' \<in> okeys c" for k k'
      using ag [OF ck ck] that cD(2) [OF that(1)] cD(2) [OF that(2)] by (simp add: agree_Suc)
    from ONode.IH [OF find_child_set [OF Some] cD(1) this]
    have IH: "sorted_wrt (<) (map fst (woart_all_subtree_kv c))" "\<And>k v. (k, v) \<in> set (woart_all_subtree_kv c) \<longleftrightarrow> omap c k = Some v"
      by blast+
    have "omap c k = Some v \<longleftrightarrow> woart_get_index k ?D = b \<and> omap (ONode p ks) k = Some v" for k v
    proof -
      have "woart_get_index k ?D = b" if "omap c k = Some v" using cD(2) [of k] that by (simp add: okeys_def domI)
      with Some h(1) show ?thesis by auto
    qed
    with IH Some show ?thesis by simp
  qed
  have all: "woart_all_subtree_kv (ONode p ks) = concat (map ?f [0..<256])" by simp
  have "sorted_wrt (<) (map fst (woart_all_subtree_kv (ONode p ks)))"
    unfolding all map_concat map_map
  proof (rule sorted_blocks)
    show "sorted_wrt (<) ((map fst \<circ> ?f) b)" if "b < 256" for b using child [OF that] by simp
  next
    fix b b' x y assume b: "b < b'" "b' < (256 :: nat)" and x: "x \<in> set ((map fst \<circ> ?f) b)" and y: "y \<in> set ((map fst \<circ> ?f) b')"
    from x child [of b] b have x': "woart_get_index x ?D = b" "x \<in> okeys (ONode p ks)" by (fastforce simp: okeys_def)+
    from y child [of b'] b have y': "woart_get_index y ?D = b'" "y \<in> okeys (ONode p ks)" by (fastforce simp: okeys_def)+
    from first_byte_order [OF ag [OF x'(2) y'(2)]] h(2) b(1) x'(1) y'(1) show "x < y" by simp
  qed
  moreover have "(k, v) \<in> set (woart_all_subtree_kv (ONode p ks)) \<longleftrightarrow> omap (ONode p ks) k = Some v" for k v
    unfolding all using child [OF woart_get_index_less [of k ?D]] child by (simp del: omap.simps)
  ultimately show ?case by blast
qed auto

lemma woart_root_all:
  assumes "woart_ok t" "woart_root t = Some n"
  shows "sorted_wrt (<) (map fst (woart_all_subtree_kv n))" "(k, v) \<in> set (woart_all_subtree_kv n) \<longleftrightarrow> woart_abs t k = Some v"
  using woart_all_props [of 0 n] assms by (auto simp: woart_ok_def woart_abs_def agree_def)

text \<open>
  C14.  \<open>woart_all_subtree_kv\<close> of the root lists every key put into the tree, with its last
  value, in strictly ascending order of the keys: visiting the bytes 0 to 255 of every node
  is a sorted traversal whatever the layouts are.
\<close>

theorem woart_traversal_sorted:
  assumes "kvs \<noteq> []"
  shows "\<exists>t n. run_puts woart_put8 (new_woart_tree mem) kvs = Inr t \<and> woart_root t = Some n \<and>
     sorted_wrt (<) (map fst (woart_all_subtree_kv n)) \<and>
     (\<forall>k v. (k, v) \<in> set (woart_all_subtree_kv n) \<longleftrightarrow> map_of (rev kvs) k = Some v)"
proof -
  from woart.get_history [OF new_woart_tree_ok, of mem kvs] obtain t where
    t: "run_puts woart_put8 (new_woart_tree mem) kvs = Inr t" "woart_ok t" "woart_abs t = map_of (rev kvs)" by blast
  have "woart_abs t (fst (hd kvs)) \<noteq> None" using assms t(3) by (cases kvs) (auto simp: map_of_eq_None_iff)
  then obtain n where n: "woart_root t = Some n" by (cases "woart_root t") (auto simp: woart_abs_def)
  from woart_root_all [OF t(2) n] t n show ?thesis by auto
qed

theorem woart_traversal_sorted_witness:
  "\<exists>t n. run_puts woart_put8 (new_woart_tree 0) [(9, 1), (5, 2), (9, 3)] = Inr t \<and> woart_root t = Some n \<and>
     sorted_wrt (<) (map fst (woart_all_subtree_kv n)) \<and> (9, 3) \<in> set (woart_all_subtree_kv n)"
  using woart_traversal_sorted [of "[(9, 1), (5, 2), (9, 3)]" 0] by fastforce

lemma hd_concat_first:
  assumes "b < n" "f b \<noteq> []" "\<And>b'. b' < b \<Longrightarrow> f b' = []"
  shows "hd (concat (map f [0..<n])) = hd (f b)"
proof -
  have "[0..<n] = [0..<b] @ [b..<n]" using upt_add_eq_append [of 0 b "n - b"] assms(1) by simp
  moreover have "concat (map f [0..<b]) = []" using assms(3) by simp
  ultimately have "concat (map f [0..<n]) = concat (map f [b..<n])" by simp
  also have "\<dots> = f b @ concat (map f [Suc b..<n])" using assms(1) by (simp add: upt_conv_Cons)
  finally show ?thesis using assms(2) by simp
qed

lemma woart_all_nonempty: "woart_inv d n \<Longrightarrow> woart_all_subtree_kv n \<noteq> []"
proof (induction n arbitrary: d)
  case (ONode p ks)
  from ONode.prems obtain b c where b: "b < 256" "woart_find_child ks b = Some c" by (auto simp: woart_inv.simps)
  from ONode.IH [OF find_child_set [OF b(2)] woart_invD(3) [OF ONode.prems b]] b show ?case by force
qed simp

lemma woart_minimum_hd: "woart_inv d n \<Longrightarrow> woart_minimum n = Inr (fst (hd (woart_all_subtree_kv n)))"
proof (induction n arbitrary: d)
  case (ONode p ks)
  from ONode.prems have ok: "kids_ok ks" "\<exists>b<256. woart_find_child ks b \<noteq> None" by (simp_all add: woart_inv.simps)
  then have pos: "positions_ok ks" by (simp add: kids_ok_def)
  from first_pos_ok [OF ok] obtain b i where b: "first_pos ks = Inr i" "child_pos ks b = Some i" "least_byte ks b" by blast
  then obtain c where c: "woart_find_child ks b = Some c" and lt: "b < 256" and first: "\<And>b'. b' < b \<Longrightarrow> woart_find_child ks b' = None"
    by (auto simp: least_byte_def)
  have i: "i < length (children ks)" "children ks ! i = Some c"
  proof -
    show "i < length (children ks)" using pos lt b(2) unfolding positions_ok_def by blast
    show "children ks ! i = Some c" using find_child_pos [OF pos lt] b(2) c by simp
  qed
  note ci = woart_invD(3) [OF ONode.prems lt c]
  let ?f = "\<lambda>b. case woart_find_child ks b of None \<Rightarrow> [] | Some c \<Rightarrow> woart_all_subtree_kv c"
  have "hd (woart_all_subtree_kv (ONode p ks)) = hd (?f b)"
    using hd_concat_first [of b 256 ?f] lt c first woart_all_nonempty [OF ci] by simp
  moreover have "woart_minimum (ONode p ks) = woart_minimum c" using b(1) i by simp
  ultimately show ?case using ONode.IH [OF find_child_set [OF c] ci] c by simp
qed simp

text \<open>
  \<open>minimum\<close>, by which insertion recovers the bytes of a prefix longer than six, finds the
  leaf with the least key of the tree, through every layout of node.
\<close>

theorem woart_minimum_least:
  assumes "kvs \<noteq> []"
  shows "\<exists>t n k. run_puts woart_put8 (new_woart_tree mem) kvs = Inr t \<and> woart_root t = Some n \<and>
     woart_minimum n = Inr k \<and> k \<in> fst ` set kvs \<and> (\<forall>k'\<in>fst ` set kvs. k \<le> k')"
proof -
  from woart.get_history [OF new_woart_tree_ok, of mem kvs] obtain t where
    t: "run_puts woart_put8 (new_woart_tree mem) kvs = Inr t" "woart_ok t" "woart_abs t = map_of (rev kvs)" by blast
  have "woart_abs t (fst (hd kvs)) \<noteq> None" using assms t(3) by (cases kvs) (auto simp: map_of_eq_None_iff)
  then obtain n where n: "woart_root t = Some n" by (cases "woart_root t") (auto simp: woart_abs_def)
  then have inv: "woart_inv 0 n" using t(2) by (simp add: woart_ok_def)
  note all = woart_root_all [OF t(2) n]
  let ?xs = "woart_all_subtree_kv n"
  have dom: "fst ` set ?xs = fst ` set kvs"
  proof -
    have "k \<in> fst ` set ?xs \<longleftrightarrow> map_of (rev kvs) k \<noteq> None" for k using all(2) t(3) by (force simp: image_iff)
    then show ?thesis by (auto simp: map_of_eq_None_iff)
  qed
  obtain x xs where x: "?xs = x # xs" using woart_all_nonempty [OF inv] by (cases ?xs) auto
  with all(1) have "\<forall>k'\<in>fst ` set ?xs. fst x \<le> k'" by (auto intro: less_imp_le)
  moreover have "fst x \<in> fst ` set ?xs" using x by simp
  ultimately show ?thesis using t(1) n woart_minimum_hd [OF inv] x unfolding dom by auto
qed

theorem woart_minimum_least_witness:
  "\<exists>t n. run_puts woart_put8 (new_woart_tree 0) [(9, 1), (5, 2)] = Inr t \<and> woart_root t = Some n \<and> woart_minimum n = Inr 5"
proof -
  have u: "(k :: u64) = 5" if "k = 9 \<or> k = 5" "k \<le> 5" for k using that by (auto simp: word_le_nat_alt)
  from woart_minimum_least [of "[(9, 1), (5, 2)]" 0] show ?thesis using u by fastforce
qed

subsection \<open>Scans\<close>

lemma woart_scan_same:
  "(woart_scan_left q k d \<or> woart_scan_right q k k d) \<longleftrightarrow> (\<exists>j<length q. q ! j \<noteq> woart_get_index k (d + j))"
proof (induction q arbitrary: d)
  case (Cons b q)
  show ?case
  proof (cases "b = woart_get_index k d")
    case True
    with Cons.IH [of "Suc d"] show ?thesis by (auto simp: less_Suc_eq_0_disj)
  next
    case False
    then show ?thesis by (auto intro!: exI [of _ 0])
  qed
qed simp

lemma woart_node_scan_point:
  "woart_inv d n \<Longrightarrow> woart_node_scan n k k d = Inr (case omap n k of None \<Rightarrow> [] | Some v \<Rightarrow> [(k, v)])"
proof (induction n arbitrary: d)
  case (ONode p ks)
  note h = woart_header_okD [OF woart_invD(1) [OF ONode.prems]]
  have q: "take (min (min (pwoartial_len p) 6) (8 - d)) (pwoartial p) = pwoartial p" using h(2,3) by simp
  let ?b = "woart_get_index k (d + pwoartial_len p)"
  show ?case
  proof (cases "woart_scan_left (pwoartial p) k d \<or> woart_scan_right (pwoartial p) k k d")
    case True
    then obtain j where "j < length (pwoartial p)" "pwoartial p ! j \<noteq> woart_get_index k (d + j)" using woart_scan_same by blast
    then have "k \<notin> okeys (ONode p ks)" "pwoartial_len p \<noteq> 0" using h(3,4) by auto
    then have "omap (ONode p ks) k = None" by (simp add: okeys_def domIff del: omap.simps)
    with True q \<open>pwoartial_len p \<noteq> 0\<close> show ?thesis by (simp add: Let_def del: omap.simps)
  next
    case False
    then have s: "woart_node_scan (ONode p ks) k k d =
        (case woart_find_child ks ?b of None \<Rightarrow> Inr [] | Some c \<Rightarrow> woart_node_scan c k k (Suc (d + pwoartial_len p)))"
      using q h(2) by (subst woart_node_scan.simps) (auto simp: Let_def append_res_def sum.case_eq_if map_sum_def split: option.split sum.split)
    show ?thesis
    proof (cases "woart_find_child ks ?b")
      case None
      with s h(1) show ?thesis by simp
    next
      case (Some c)
      from ONode.IH [OF find_child_set [OF Some] woart_invD(3) [OF ONode.prems _ Some]] s Some h(1) show ?thesis by simp
    qed
  qed
qed (auto dest: order.antisym)

text \<open>
  A scan whose bounds are one key returns that key with its current value, or nothing.
\<close>

theorem woart_point_scan:
  "\<exists>t. run_puts woart_put8 (new_woart_tree mem) kvs = Inr t \<and>
     woart_scan t k k = Inr (case map_of (rev kvs) k of None \<Rightarrow> [] | Some v \<Rightarrow> [(k, v)])"
proof -
  from woart.get_history [OF new_woart_tree_ok, of mem kvs] obtain t where
    "run_puts woart_put8 (new_woart_tree mem) kvs = Inr t" "woart_ok t" "woart_abs t = map_of (rev kvs)" by blast
  then show ?thesis
    by (auto simp: woart_scan_def woart_ok_def woart_abs_def woart_node_scan_point split: option.splits)
qed

text \<open>
  A range scan can report a key below its left bound and lose the ones inside: below a
  prefix that equals the left bound's bytes and is smaller than the right bound's, the code
  goes on with the next byte of both bounds, although the right one no longer limits it.
\<close>

theorem woart_scan_out_of_range:
  "\<exists>t. run_puts woart_put8 (new_woart_tree 0) [(0x0505000000000000, 1), (0x0520000000000000, 2)] = Inr t \<and>
     woart_get t 0x0520000000000000 8 = Inr 2 \<and>
     woart_scan t 0x0510000000000000 0x0605000000000000 = Inr [(0x0505000000000000, 1)]"
proof (intro exI conjI)
  let ?t = "\<lparr>woart_root = Some (ONode \<lparr>path_depth = 0, pwoartial_len = 1, pwoartial = [5]\<rparr>
        (Kids4 [Some (5, 0), Some (32, 1), None, None]
          [Some (OLeaf 1 8 0x0505000000000000), Some (OLeaf 2 8 0x0520000000000000), None, None])),
      woart_size = 2, woart_memory_usage = 112\<rparr>"
  show "run_puts woart_put8 (new_woart_tree 0) [(0x0505000000000000, 1), (0x0520000000000000, 2)] = Inr ?t"
    by code_simp
  show "woart_get ?t 0x0520000000000000 8 = Inr 2" by code_simp
  show "woart_scan ?t 0x0510000000000000 0x0605000000000000 = Inr [(0x0505000000000000, 1)]" by code_simp
qed

subsection \<open>Crashes\<close>

text \<open>
  A crash between the two stores of a prefix split can make keys unreachable for good:
  the pointer to the new node has reached memory, the shortened header of the old node has
  not, and every later lookup that meets it ends in \<^verbatim>\<open>exit(0)\<close>.
\<close>

theorem woart_crash_exits:
  "\<exists>t x. run_puts woart_put8 (new_woart_tree 0) [(0, 1), (1, 2)] = Inr t \<and> woart_get t 0 8 = Inr 1 \<and>
     x \<in> set (woart_crash_images (woart_root t) 0x0100000000000000 8 3 0) \<and>
     woart_get (t\<lparr>woart_root := x\<rparr>) 0 8 = Inl Exited \<and> woart_get (t\<lparr>woart_root := x\<rparr>) 0x0100000000000000 8 = Inr 3"
proof (intro exI conjI)
  let ?old = "ONode \<lparr>path_depth = 0, pwoartial_len = 7, pwoartial = [0, 0, 0, 0, 0, 0]\<rparr>
      (Kids4 [Some (0, 0), Some (1, 1), None, None] [Some (OLeaf 1 8 0), Some (OLeaf 2 8 1), None, None])"
  let ?t = "\<lparr>woart_root = Some ?old, woart_size = 2, woart_memory_usage = 112\<rparr>"
  let ?x = "Some (ONode \<lparr>path_depth = 0, pwoartial_len = 0, pwoartial = []\<rparr>
      (Kids4 [Some (0, 0), Some (1, 1), None, None] [Some ?old, Some (OLeaf 3 8 0x0100000000000000), None, None]))"
  show "run_puts woart_put8 (new_woart_tree 0) [(0, 1), (1, 2)] = Inr ?t" by code_simp
  show "woart_get ?t 0 8 = Inr 1" by code_simp
  have "woart_crash_images (woart_root ?t) 0x0100000000000000 8 3 0 ! 2 = ?x" by code_simp
  moreover have "length (woart_crash_images (woart_root ?t) 0x0100000000000000 8 3 0) = 4" by code_simp
  ultimately show "?x \<in> set (woart_crash_images (woart_root ?t) 0x0100000000000000 8 3 0)"
    by (metis nth_mem numeral_less_iff semiring_norm(75) semiring_norm(76) semiring_norm(78))
  show "woart_get (?t\<lparr>woart_root := ?x\<rparr>) 0 8 = Inl Exited" by code_simp
  show "woart_get (?t\<lparr>woart_root := ?x\<rparr>) 0x0100000000000000 8 = Inr 3" by code_simp
qed

text \<open>What lookups see of an image: one of the two maps, or the exit.\<close>

definition lookup_at :: "woart_node option \<Rightarrow> u64 \<Rightarrow> nat \<Rightarrow> u64 option res" where
  "lookup_at x k d = (case x of None \<Rightarrow> Inr None | Some n \<Rightarrow> woart_get_from n k 8 d)"

definition image_ok :: "nat \<Rightarrow> (u64 \<Rightarrow> u64 option) \<Rightarrow> u64 \<Rightarrow> u64 \<Rightarrow> woart_node option \<Rightarrow> bool" where
  "image_ok d M key v x \<longleftrightarrow>
     (\<exists>m\<in>{M, M(key \<mapsto> v)}. \<forall>k. lookup_at x k d \<in> {Inr (m k), Inl Exited})"

lemma image_okI: "(\<And>k. lookup_at x k d \<in> {Inr (m k), Inl Exited}) \<Longrightarrow> m \<in> {M, M(key \<mapsto> v)} \<Longrightarrow> image_ok d M key v x"
  unfolding image_ok_def by blast

lemma image_ok_inv: "woart_inv d n \<Longrightarrow> omap n \<in> {M, M(key \<mapsto> v)} \<Longrightarrow> image_ok d M key v (Some n)"
  by (rule image_okI [of _ _ "omap n"]) (auto simp: lookup_at_def woart_get_from_correct)

text \<open>A lookup only sees what \<open>find_child\<close> returns.\<close>

lemma get_from_kids:
  assumes "woart_find_child ks (woart_get_index k (d + pwoartial_len p)) = woart_find_child ks' (woart_get_index k (d + pwoartial_len p))"
  shows "woart_get_from (ONode p ks) k 8 d = woart_get_from (ONode p ks') k 8 d"
  by (simp only: woart_get_from.simps Let_def assms)

lemma add_images_find:
  assumes ok: "kids_ok ks" and nf: "woart_find_child ks c = None" and c: "c < 256" and x: "ks' \<in> set (add_images ks c y)" and b: "b < 256"
  shows "woart_find_child ks' b = woart_find_child ks b"
proof (cases ks)
  case (Kids4 s cs)
  from ok Kids4 obtain us where us: "slots_ok us" "used_slots s = us" and lay: "layout_ok (Kids4 s cs)" by (auto simp: kids_ok_def)
  let ?p = "find_next_zero_bit (slot_bits us) 4 0"
  from x Kids4 us(2) have s: "s ! 3 = None" "ks' = Kids4 s (cs[?p := Some y])"
    by (auto simp: add_images_def store_child_def split: if_splits)
  with slot3_free [OF lay] us have "length us < 4" by simp
  from slots_free(2) [OF us(1) this] have "map_of us b \<noteq> Some ?p" by (auto simp: slots_pos(1) [OF us(1)] rev_image_eqI)
  then show ?thesis unfolding s(2) Kids4
    by (cases "map_of us b") (auto simp: woart_find_child_def child_pos_def children_def us(2))
next
  case (Kids16 w k cs)
  from ok Kids16 have b16: "bytes16_ok w k" by (simp add: kids_ok_def)
  let ?e = "find_next_zero_bit w 16 0"
  have free: "w \<noteq> push_bit 16 1 - 1" using x Kids16 by (auto simp: add_images_def split: if_splits)
  have "?e < 16 \<and> \<not> bit w ?e" using free full16 [OF b16] by (intro first_zero_bit) auto
  then have e: "\<not> bit w ?e" by simp
  have ke: "k[?e := c] ! i = k ! i" if "bit w i" for i using e that by (metis nth_list_update_neq)
  have b16': "bytes16_ok w (k[?e := c])" using b16 unfolding bytes16_ok_def by (simp add: ke)
  have same: "find_key16 w (k[?e := c]) b 0 = find_key16 w k b 0" for b
  proof (rule option_eqI)
    fix i show "find_key16 w (k[?e := c]) b 0 = Some i \<longleftrightarrow> find_key16 w k b 0 = Some i"
      by (auto simp: find_key16_iff [OF b16] find_key16_iff [OF b16'] ke)
  qed
  have ne: "find_key16 w k b 0 \<noteq> Some ?e" for b using e by (simp add: find_key16_iff [OF b16])
  from x Kids16 free obtain k' cs' where ks': "ks' = Kids16 w k' cs'" "k' = k \<or> k' = k[?e := c]" "cs' = cs \<or> cs' = cs[?e := Some y]"
    by (auto simp: add_images_def Let_def)
  show ?thesis unfolding ks'(1) Kids16
    using ks'(2,3) same [of b] ne [of b] by (cases "find_key16 w k b 0") (auto simp: woart_find_child_def child_pos_def children_def)
next
  case (Kids48 k cs)
  from ok Kids48 have lay: "length k = 256" "length cs = 48" and pos: "positions_ok (Kids48 k cs)" by (auto simp: kids_ok_def)
  note pr = present48_eq [OF pos lay]
  let ?ps = "map (\<lambda>i. k ! i - 1) (present48 k)"
  let ?w = "sum_list (map (\<lambda>i. push_bit (k ! i - 1) 1) (present48 k)) :: u64"
  let ?p = "find_next_zero_bit ?w 48 0"
  from x Kids48 have s: "length (present48 k) < 48" "ks' = Kids48 k (cs[?p := Some y])"
    by (auto simp: add_images_def Let_def split: if_splits)
  have d: "distinct ?ps" "\<And>q. q \<in> set ?ps \<Longrightarrow> q < 64" using pr(1-3) by (fastforce simp: distinct_map)+
  have bits: "bit ?w q \<longleftrightarrow> q \<in> set ?ps" for q using bit_sum_of_bits [OF d, of q] by (simp add: o_def)
  have "card (set ?ps) < 48" using s(1) card_length [of ?ps] by simp
  then have "\<exists>i<48. i \<notin> set ?ps" by (intro not_all_below) simp_all
  then have "\<not> bit ?w ?p" using first_zero_bit [of 48 ?w] bits by simp
  then have np: "?p \<notin> set ?ps" using bits by blast
  have "k ! b - 1 \<in> set ?ps" if "k ! b \<noteq> 0" using b that by (auto simp: pr(1))
  with np have "k ! b - 1 \<noteq> ?p" if "k ! b \<noteq> 0" using that by (metis (no_types))
  then show ?thesis unfolding s(2) Kids48
    by (auto simp: woart_find_child_def child_pos_def children_def)
next
  case (Kids256 cs)
  with x show ?thesis by (simp add: add_images_def)
qed

lemma crash_images_Some: "x \<in> set (woart_crash_images (Some n) key kl v d) \<Longrightarrow> x \<noteq> None"
  by (cases n) (auto split: if_splits sum.splits option.splits prod.splits simp: Let_def)

text \<open>The images of a prefix split.\<close>

lemma crash_split_ok:
  assumes inv: "woart_inv d (ONode p ks)" and pd: "pd < pwoartial_len p"
    and mm: "woart_prefix_mismatch p ks key d = Inr pd"
    and ag: "\<And>k. k \<in> okeys (ONode p ks) \<Longrightarrow> agree d pd k key \<and> woart_get_index k (d + pd) \<noteq> woart_get_index key (d + pd)"
    and x: "x \<in> set (woart_crash_images (Some (ONode p ks)) key 8 v d)"
  shows "image_ok d (omap (ONode p ks)) key v x"
proof -
  note h = woart_header_okD [OF woart_invD(1) [OF inv]]
  from okeys_nonempty [OF inv] obtain k0 where k0: "k0 \<in> okeys (ONode p ks)" by blast
  from woart_split_header_ok [OF inv pd k0] obtain h' where
    h': "woart_split_header p ks d pd = Inr (woart_get_index k0 (d + pd), h')" "woart_inv (Suc (d + pd)) (ONode h' ks)" by blast
  have depth: "path_depth h' = Suc (d + pd)" using woart_header_okD(1) [OF woart_invD(1) [OF h'(2)]] .
  let ?c = "woart_get_index k0 (d + pd)" and ?c' = "woart_get_index key (d + pd)"
  let ?p = "\<lparr>path_depth = d, pwoartial_len = pd, pwoartial = take (min 6 pd) (pwoartial p)\<rparr>"
  have cc: "?c \<noteq> ?c'" using ag [OF k0] by blast
  have two: "\<exists>ks'. woart_split_node p d pd ?c old ?c' (OLeaf v 8 key) = Inr (ONode ?p ks') \<and>
      (\<forall>b<256. woart_find_child ks' b = (if b = ?c' then Some (OLeaf v 8 key) else if b = ?c then Some old else None))" for old
    using woart_two_children_ok [OF _ _ cc, of old "OLeaf v 8 key"] by (auto simp: woart_split_node_def)
  from two [of "ONode p ks"] obtain ks1 where
    ks1: "woart_split_node p d pd ?c (ONode p ks) ?c' (OLeaf v 8 key) = Inr (ONode ?p ks1)"
    "\<And>b. b < 256 \<Longrightarrow> woart_find_child ks1 b = (if b = ?c' then Some (OLeaf v 8 key) else if b = ?c then Some (ONode p ks) else None)" by blast
  from two [of "ONode h' ks"] obtain ks2 where
    ks2: "woart_split_node p d pd ?c (ONode h' ks) ?c' (OLeaf v 8 key) = Inr (ONode ?p ks2)"
    "\<And>b. b < 256 \<Longrightarrow> woart_find_child ks2 b = (if b = ?c' then Some (OLeaf v 8 key) else if b = ?c then Some (ONode h' ks) else None)" by blast
  have d7: "d + pd \<le> 7" using pd h(2) by simp
  from insert_node_split_ok [OF inv pd mm ag, of v] obtain r where
    "woart_recursive_insert (Some (ONode p ks)) key 8 v d = Inr r" "woart_insert_ok d (ONode p ks) key v r" by blast
  then have fin: "woart_inv d (ONode ?p ks2)" "omap (ONode ?p ks2) = (omap (ONode p ks))(key \<mapsto> v)"
    using pd mm h(1) h'(1) ks2(1) d7 by (auto simp: woart_insert_ok_def Let_def not_less simp del: woart_inv.simps omap.simps)
  have "x = Some (ONode p ks) \<or> x = Some (ONode h' ks) \<or> x = Some (ONode ?p ks1) \<or> x = Some (ONode ?p ks2)"
    using x pd mm h(1) h'(1) ks1(1) ks2(1) d7 by (simp add: Let_def not_less)
  then consider (self) "x = Some (ONode p ks)" | (stale) "x = Some (ONode h' ks)" | (new) "x = Some (ONode ?p ks1)" | (final) "x = Some (ONode ?p ks2)"
    by blast
  then show ?thesis
  proof cases
    case self
    then show ?thesis using image_ok_inv [OF inv] by simp
  next
    case stale
    show ?thesis unfolding stale
      by (rule image_okI [of _ _ "omap (ONode p ks)"]) (simp_all add: lookup_at_def depth)
  next
    case new
    have "woart_get_from (ONode ?p ks1) k 8 d \<in> {woart_get_from (ONode ?p ks2) k 8 d, Inl Exited}" for k
    proof (cases "woart_get_index k (d + pd) = ?c")
      case byte: True
      show ?thesis
      proof (cases "pd \<noteq> 0 \<and> woart_check_prefix ?p k d \<noteq> min 6 pd")
        case True
        then show ?thesis by simp
      next
        case False
        have "woart_find_child ks1 (woart_get_index k (d + pd)) = Some (ONode p ks)" using ks1(2) byte cc by simp
        with False d7 h(1) have "woart_get_from (ONode ?p ks1) k 8 d = Inl Exited" by (auto simp: Let_def)
        then show ?thesis by simp
      qed
    next
      case False
      have "woart_find_child ks1 (woart_get_index k (d + pd)) = woart_find_child ks2 (woart_get_index k (d + pd))"
        using False ks1(2) [OF woart_get_index_less [of k "d + pd"]] ks2(2) [OF woart_get_index_less [of k "d + pd"]] by simp
      then have "woart_get_from (ONode ?p ks1) k 8 d = woart_get_from (ONode ?p ks2) k 8 d"
        by (intro get_from_kids) simp
      then show ?thesis by simp
    qed
    then have "lookup_at x k d \<in> {Inr (omap (ONode ?p ks2) k), Inl Exited}" for k
      unfolding new lookup_at_def option.case woart_get_from_correct [OF fin(1), symmetric] .
    then show ?thesis using fin(2) by (intro image_okI [of _ _ "omap (ONode ?p ks2)"]) simp_all
  next
    case final
    then show ?thesis using image_ok_inv [OF fin(1)] fin(2) by simp
  qed
qed

text \<open>The images of an insertion below a node, or into it.\<close>

lemma crash_descend_ok:
  assumes inv: "woart_inv d (ONode p ks)"
    and mm: "(if pwoartial_len p \<noteq> 0 then woart_prefix_mismatch p ks key d else Inr 0) = Inr pd" "pwoartial_len p \<le> pd"
    and ag: "\<And>k. k \<in> okeys (ONode p ks) \<Longrightarrow> agree d (pwoartial_len p) k key"
    and IH: "\<And>c x. c \<in> set_kids ks \<Longrightarrow> woart_inv (Suc (d + pwoartial_len p)) c \<Longrightarrow>
      (\<And>k. k \<in> okeys c \<Longrightarrow> k \<in> okeys (ONode p ks) \<and> woart_get_index k (d + pwoartial_len p) = woart_get_index key (d + pwoartial_len p)) \<Longrightarrow>
      x \<in> set (woart_crash_images (Some c) key 8 v (Suc (d + pwoartial_len p))) \<Longrightarrow>
      image_ok (Suc (d + pwoartial_len p)) (omap c) key v x"
    and agd: "\<And>k. k \<in> okeys (ONode p ks) \<Longrightarrow> agree 0 d k key"
    and x: "x \<in> set (woart_crash_images (Some (ONode p ks)) key 8 v d)"
  shows "image_ok d (omap (ONode p ks)) key v x"
proof -
  let ?L = "pwoartial_len p" and ?b = "woart_get_index key (d + pwoartial_len p)"
  note h = woart_header_okD [OF woart_invD(1) [OF inv]] and ok = woart_invD(2) [OF inv]
  have pos: "positions_ok ks" using ok by (simp add: kids_ok_def)
  have self: "image_ok d (omap (ONode p ks)) key v (Some (ONode p ks))" using image_ok_inv [OF inv] by simp
  have im: "woart_crash_images (Some (ONode p ks)) key 8 v d = Some (ONode p ks) #
      (case child_pos ks ?b of
         Some i \<Rightarrow> if i \<ge> length (children ks) then []
           else map (\<lambda>x. Some (ONode p (store_child ks i x))) (woart_crash_images (children ks ! i) key 8 v (Suc (d + ?L)))
       | None \<Rightarrow> map (\<lambda>ks'. Some (ONode p ks')) (add_images ks ?b (OLeaf v 8 key) @
           (case add_child ks ?b (OLeaf v 8 key) of Inl e \<Rightarrow> [] | Inr ks' \<Rightarrow> [ks'])))"
    unfolding woart_crash_images.simps(3) mm(1) using mm(2) h(1,2) by (simp add: Let_def not_less)
  show ?thesis
  proof (cases "child_pos ks ?b")
    case None
    then have nf: "woart_find_child ks ?b = None" using find_child_None [OF pos] by simp
    from add_child_ok [OF ok woart_get_index_less nf, of "OLeaf v 8 key"] obtain ks' where
      ks': "add_child ks ?b (OLeaf v 8 key) = Inr ks'" by blast
    from im None x ks' consider "x = Some (ONode p ks)"
      | (add) ks'' where "x = Some (ONode p ks'')" "ks'' \<in> set (add_images ks ?b (OLeaf v 8 key))"
      | (fin) "x = Some (ONode p ks')" by auto
    then show ?thesis
    proof cases
      case add
      have "lookup_at x k d = Inr (omap (ONode p ks) k)" for k
        using get_from_kids [of ks'' k d p ks] add_images_find [OF ok nf woart_get_index_less add(2), of "woart_get_index k (d + ?L)"]
          woart_get_from_correct [OF inv, of k] by (simp add: lookup_at_def add(1) del: woart_get_from.simps omap.simps)
      then show ?thesis by (intro image_okI [of _ _ "omap (ONode p ks)"]) simp_all
    next
      case fin
      have r: "woart_recursive_insert (Some (ONode p ks)) key 8 v d = Inr (ONode p ks', None, growth ks ks' + sizeof_woart_leaf)"
        unfolding woart_recursive_insert.simps(3) mm(1) using mm(2) h(1,2) None ks' by (simp add: Let_def not_less)
      from woart_insert_correct [OF inv agd, of v] r
      have "woart_inv d (ONode p ks')" "omap (ONode p ks') = (omap (ONode p ks))(key \<mapsto> v)"
        by (simp_all add: woart_insert_ok_def del: woart_inv.simps omap.simps woart_recursive_insert.simps)
      then show ?thesis unfolding fin by (intro image_ok_inv) simp_all
    qed (use self in simp)
  next
    case (Some i)
    with pos obtain c where i: "i < length (children ks)" and ci: "children ks ! i = Some c"
      unfolding positions_ok_def by (meson woart_get_index_less option.exhaust)
    then have c: "woart_find_child ks ?b = Some c" using find_child_pos [OF pos, of ?b] Some by simp
    from im Some i ci x consider "x = Some (ONode p ks)"
      | (down) x' where "x = Some (ONode p (store_child ks i x'))" "x' \<in> set (woart_crash_images (Some c) key 8 v (Suc (d + ?L)))"
      by (auto simp: not_le simp del: woart_crash_images.simps)
    then show ?thesis
    proof cases
      case down
      obtain c' where c': "x' = Some c'" using crash_images_Some [OF down(2)] by blast
      have ck: "k \<in> okeys (ONode p ks) \<and> woart_get_index k (d + ?L) = ?b" if "k \<in> okeys c" for k
        using okeys_child [OF inv woart_get_index_less c that] woart_invD(4) [OF inv woart_get_index_less c that] by blast
      from IH [OF find_child_set [OF c] woart_invD(3) [OF inv woart_get_index_less c] ck down(2)] obtain m where
        m: "m = omap c \<or> m = (omap c)(key \<mapsto> v)"
        "\<And>k. lookup_at x' k (Suc (d + ?L)) \<in> {Inr (m k), Inl Exited}"
        unfolding image_ok_def by blast
      define M where "M = (if m = omap c then omap (ONode p ks) else (omap (ONode p ks))(key \<mapsto> v))"
      note find = store_child_ok(2) [OF ok Some woart_get_index_less, where x = c']
      have pk: "woart_check_prefix p key d = min 6 ?L"
      proof -
        from okeys_nonempty [OF inv] obtain k where k: "k \<in> okeys (ONode p ks)" by blast
        show ?thesis unfolding woart_check_prefix_iff [OF h(2)] using h(4) [OF k] ag [OF k] by (simp add: agree_def)
      qed
      have "lookup_at x k d \<in> {Inr (M k), Inl Exited}" for k
      proof (cases "?L \<noteq> 0 \<and> woart_check_prefix p k d \<noteq> min 6 ?L")
        case True
        then have "k \<noteq> key" using pk by blast
        moreover have "omap (ONode p ks) k = None"
          using woart_get_from_correct [OF inv, of k] True h(1) by (simp del: omap.simps)
        ultimately show ?thesis using True h(1) by (simp add: M_def lookup_at_def down(1))
      next
        case pre: False
        show ?thesis
        proof (cases "woart_get_index k (d + ?L) = ?b")
          case False
          then have "k \<noteq> key" by blast
          have "woart_get_from (ONode p (store_child ks i x')) k 8 d = woart_get_from (ONode p ks) k 8 d"
            by (rule get_from_kids) (use find False c' in simp)
          then show ?thesis using woart_get_from_correct [OF inv, of k] \<open>k \<noteq> key\<close>
            by (simp add: lookup_at_def down(1) M_def del: woart_get_from.simps omap.simps)
        next
          case True
          have f: "woart_find_child (store_child ks i x') (woart_get_index k (d + ?L)) = Some c'" using find True c' by simp
          have g: "lookup_at x k d = lookup_at x' k (Suc (d + ?L))"
            using pre f h(1,2) by (auto simp: lookup_at_def down(1) c' Let_def not_le)
          have mk: "M k = m k" using m(1) True c h(1) by (auto simp: M_def)
          from m(2) show ?thesis unfolding g mk .
        qed
      qed
      then show ?thesis by (intro image_okI [of _ _ M]) (auto simp: M_def)
    qed (use self in simp)
  qed
qed

lemma crash_images_node_ok:
  "woart_inv d n \<Longrightarrow> (\<And>k. k \<in> okeys n \<Longrightarrow> agree 0 d k key) \<Longrightarrow>
   x \<in> set (woart_crash_images (Some n) key 8 v d) \<Longrightarrow> image_ok d (omap n) key v x"
proof (induction n arbitrary: d x)
  case (OLeaf lv kl lk)
  let ?n = "OLeaf lv kl lk"
  have kl: "kl = 8" using OLeaf.prems(1) by simp
  from woart_insert_leaf_ok [of d lk key lv v] OLeaf.prems(2) obtain r where
    r: "woart_recursive_insert (Some (OLeaf lv 8 lk)) key 8 v d = Inr r" "woart_insert_ok d (OLeaf lv 8 lk) key v r" by auto
  obtain n' old m where n': "r = (n', old, m)" by (cases r)
  have "x = Some ?n \<or> x = Some n'"
    using OLeaf.prems(3) r(1) kl unfolding n'
    by (cases "lk = key"; cases "woart_split_leaf key 8 v (OLeaf lv 8 lk) lk d") (auto simp: woart_leaf_matches_def)
  then show ?case
  proof
    assume "x = Some ?n"
    then show ?thesis by (simp only:) (rule image_ok_inv [OF OLeaf.prems(1)], rule insertI1)
  next
    assume "x = Some n'"
    with r(2) kl show ?thesis unfolding n' by (auto simp: woart_insert_ok_def intro!: image_ok_inv)
  qed
next
  case (ONode p ks)
  note inv = ONode.prems(1)
  let ?L = "pwoartial_len p"
  from woart_prefix_mismatch_ok [OF inv, of key] obtain pd where
    pd: "woart_prefix_mismatch p ks key d = Inr pd"
    "pd < ?L \<Longrightarrow> k \<in> okeys (ONode p ks) \<Longrightarrow> agree d pd k key \<and> woart_get_index k (d + pd) \<noteq> woart_get_index key (d + pd)"
    "?L \<le> pd \<Longrightarrow> k \<in> okeys (ONode p ks) \<Longrightarrow> agree d ?L k key" for k by blast
  show ?case
  proof (cases "pd < ?L")
    case True
    from crash_split_ok [OF inv True pd(1) pd(2) [OF True] ONode.prems(3)] show ?thesis .
  next
    case False
    then have le: "?L \<le> pd" by simp
    have mm: "(if ?L \<noteq> 0 then woart_prefix_mismatch p ks key d else Inr 0) = Inr (if ?L \<noteq> 0 then pd else 0)" using pd(1) by simp
    have le': "?L \<le> (if ?L \<noteq> 0 then pd else 0)" using le by simp
    have ag: "agree d ?L k key" if "k \<in> okeys (ONode p ks)" for k using pd(3) [OF le that] .
    show ?thesis
    proof (rule crash_descend_ok [OF inv mm le' ag _ ONode.prems(2,3)])
      fix c x assume c: "c \<in> set_kids ks" "woart_inv (Suc (d + ?L)) c"
        and ck: "\<And>k. k \<in> okeys c \<Longrightarrow> k \<in> okeys (ONode p ks) \<and> woart_get_index k (d + ?L) = woart_get_index key (d + ?L)"
        and x: "x \<in> set (woart_crash_images (Some c) key 8 v (Suc (d + ?L)))"
      have "agree 0 (Suc (d + ?L)) k key" if "k \<in> okeys c" for k
        using ck [OF that] ONode.prems(2) [of k] ag [of k] agree_add [of 0 d ?L k key] by (simp add: agree_Suc)
      from ONode.IH [OF c this x] show "image_ok (Suc (d + ?L)) (omap c) key v x" .
    qed
  qed
qed

text \<open>
  C6.  Stop an insertion into any tree the code has built at any of its stores.  Lookups on
  the image that remains never return a wrong value: for one of the two maps, before and
  after the insertion, each of them returns the value of that map or ends in \<^verbatim>\<open>exit(0)\<close>.
\<close>

theorem woart_crash_lookups:
  "\<exists>t. run_puts woart_put8 (new_woart_tree mem) kvs = Inr t \<and>
     list_all (\<lambda>x. \<exists>m\<in>{map_of (rev kvs), (map_of (rev kvs))(k \<mapsto> v)}.
         \<forall>k'. woart_get (t\<lparr>woart_root := x\<rparr>) k' 8 \<in> {Inr (or_null (m k')), Inl Exited})
       (woart_crash_images (woart_root t) k 8 v 0)"
proof -
  from woart.get_history [OF new_woart_tree_ok, of mem kvs] obtain t where
    t: "run_puts woart_put8 (new_woart_tree mem) kvs = Inr t" "woart_ok t" "woart_abs t = map_of (rev kvs)" by blast
  have "image_ok 0 (woart_abs t) k v x" if x: "x \<in> set (woart_crash_images (woart_root t) k 8 v 0)" for x
  proof (cases "woart_root t")
    case None
    with x have "x = None \<or> x = Some (OLeaf v 8 k)" by simp
    then show ?thesis
    proof
      assume "x = None"
      then show ?thesis using None by (intro image_okI [of _ _ Map.empty]) (simp_all add: lookup_at_def woart_abs_def)
    next
      assume "x = Some (OLeaf v 8 k)"
      then show ?thesis using None by (auto simp: woart_abs_def fun_eq_iff intro!: image_ok_inv)
    qed
  next
    case (Some n)
    with t(2) x crash_images_node_ok [of 0 n k x v] show ?thesis by (simp add: woart_ok_def woart_abs_def agree_def)
  qed
  then have "list_all (image_ok 0 (map_of (rev kvs)) k v) (woart_crash_images (woart_root t) k 8 v 0)"
    by (simp add: list_all_iff t(3))
  moreover have "\<exists>m\<in>{M, M(k \<mapsto> v)}. \<forall>k'. woart_get (t\<lparr>woart_root := x\<rparr>) k' 8 \<in> {Inr (or_null (m k')), Inl Exited}"
    if ok: "image_ok 0 M k v x" for M x
  proof -
    have g: "woart_get (t\<lparr>woart_root := x\<rparr>) k' 8 = map_sum id or_null (lookup_at x k' 0)" for k'
      by (simp add: woart_get_def lookup_at_def split: option.split)
    from ok obtain m where "m \<in> {M, M(k \<mapsto> v)}" and m: "\<And>k'. lookup_at x k' 0 \<in> {Inr (m k'), Inl Exited}"
      unfolding image_ok_def by blast
    moreover have "map_sum id or_null (lookup_at x k' 0) \<in> {Inr (or_null (m k')), Inl Exited}" for k'
      using m [of k'] by auto
    ultimately show ?thesis unfolding g by blast
  qed
  ultimately show ?thesis using t(1) unfolding list_all_iff by blast
qed

end
