(* ===== verification/Wrert_Node.thy ===== *)
theory Wrert_Node
  imports Prelude
begin

text \<open>
  The hash node of \<^verbatim>\<open>wrert/wrert_node.cpp\<close> and \<^verbatim>\<open>wrert/wrert_node.h\<close>: an extendible hash
  table over 32-bit sub-keys.  A directory of \<open>2 ^ globalDepth\<close> entries points to segments
  of 48 buckets with 16 slots each.  At any time 16 consecutive buckets of a segment, from
  the entry's shared offset 0, 16 or 32, are its shared buckets, and the other 32 its main
  buckets.  A slot is live in a shared bucket when it is valid and its migration version is
  one less than the segment's local depth, in a main bucket when the version is the local
  depth; splitting a segment moves the window by 16 buckets and so turns half of the main
  buckets into shared ones without copying them.

  The first word of a slot is a bit field, which the SIMD code compares through masks; here
  it is a record of words and \<open>pack\<close> rebuilds the 64-bit word.  The value is of any type, so
  that the tree can store 48-bit integers, pointers to pairs or child nodes.  Memory fresh
  from the allocator is zero: its chunks are mapped from a new file or by \<^verbatim>\<open>new char[]\<close> of
  64 GiB, and no byte is handed out twice.  Several directory entries may share a segment, so
  a node keeps its segments in a store \<open>segs\<close> and \<open>segmentPtr\<close> is an index into it.
\<close>

subsection \<open>Slots\<close>

record 'v slot =
  subKey :: u32
  migVersion :: "9 word"
  validFlag :: bool
  nodeFlag :: bool
  fingerprint :: u16
  slot_value :: 'v

type_synonym 'v bucket = "'v slot list"
type_synonym 'v segment = "'v bucket list"

definition pack :: "'v slot \<Rightarrow> u64" where
  "pack x = ucast (subKey x) OR push_bit 32 (ucast (migVersion x)) OR
     push_bit 41 (of_bool (validFlag x)) OR push_bit 42 (of_bool (nodeFlag x)) OR
     push_bit 43 (ucast (fingerprint x))"

definition VALIDFLAG_MIGVERSION_MASK :: u64 where "VALIDFLAG_MIGVERSION_MASK = 0x000003FF00000000"
definition MIGVERSION_MASK :: u64 where "MIGVERSION_MASK = 0x000000FF00000000"
definition SUBKEY_MASK :: u64 where "SUBKEY_MASK = 0x00000000FFFFFFFF"
definition VALIDFLAG_MIGVERSION_SUBKEY_MASK :: u64 where
  "VALIDFLAG_MIGVERSION_SUBKEY_MASK = 0x000003FFFFFFFFFF"
definition MIGVERSION_BITS :: u64 where "MIGVERSION_BITS = 0x1FF"

definition zero_slot :: "'v \<Rightarrow> 'v slot" where
  "zero_slot z = \<lparr>subKey = 0, migVersion = 0, validFlag = False, nodeFlag = False,
     fingerprint = 0, slot_value = z\<rparr>"

definition NewWRERTSegment :: "'v \<Rightarrow> 'v segment" where
  "NewWRERTSegment z = replicate 48 (replicate 16 (zero_slot z))"

subsection \<open>Positions\<close>

definition get_segment_number :: "u32 \<Rightarrow> nat \<Rightarrow> nat" where
  "get_segment_number k globalDepth = unat (drop_bit (32 - globalDepth) k AND mask globalDepth)"

text \<open>The shared index is taken with 5 bits and used modulo 16.\<close>

definition shared_bucket_index :: "u32 \<Rightarrow> nat \<Rightarrow> nat" where
  "shared_bucket_index k localDepth = unat (drop_bit (32 - (localDepth + 4)) k AND mask 5) mod 16"

definition main_bucket_index :: "u32 \<Rightarrow> nat \<Rightarrow> nat" where
  "main_bucket_index k localDepth = unat (drop_bit (32 - (localDepth + 5)) k AND mask 5)"

definition calcBucketPosition :: "nat \<Rightarrow> nat \<Rightarrow> nat" where
  "calcBucketPosition offset index =
     (if offset = 0 then 16 + index
      else if offset = 32 then index
      else if index < offset then index + 32 else index mod 16)"

text \<open>Versions as the 9-bit field stores them: \<open>localDepth - 1\<close> is \<open>-1\<close> at depth 0.\<close>

definition shared_version :: "nat \<Rightarrow> 9 word" where "shared_version localDepth = of_int (int localDepth - 1)"
definition main_version :: "nat \<Rightarrow> 9 word" where "main_version localDepth = of_nat localDepth"

subsection \<open>Nodes\<close>

record segment_node =
  localDepth :: nat
  sharedBucketOffset :: nat
  segmentPtr :: nat

record wrert_header =
  nodeHeaderDepth :: nat
  prefixLength :: nat
  prefixArray :: "u8 list"

record 'v wrert_node =
  header :: wrert_header
  capacity :: nat
  globalDepth :: nat
  directory :: "segment_node list"
  segs :: "'v segment list"

text \<open>A window that starts at 16 or 32 is stored as 15 or 31.\<close>

definition window :: "segment_node \<Rightarrow> nat" where
  "window sn = (if sharedBucketOffset sn = 0 then 0 else sharedBucketOffset sn + 1)"

definition stored_offset :: "nat \<Rightarrow> nat" where
  "stored_offset dst = (if dst = 0 then 0 else dst - 1)"

definition set_slot :: "'v segment \<Rightarrow> nat \<Rightarrow> nat \<Rightarrow> 'v slot \<Rightarrow> 'v segment" where
  "set_slot sg p j x = sg[p := (sg ! p)[j := x]]"

definition header_initialize :: "wrert_header option \<Rightarrow> nat \<Rightarrow> nat \<Rightarrow> wrert_header \<Rightarrow> wrert_header" where
  "header_initialize old pl depth h =
     \<lparr>nodeHeaderDepth = depth, prefixLength = pl,
      prefixArray =
        (case old of
           None \<Rightarrow> prefixArray h
         | Some o' \<Rightarrow>
             if pl = 6 then prefixArray h
             else take (pl * 4) (prefixArray o') @ drop (pl * 4) (prefixArray h))\<rparr>"

definition zero_header :: wrert_header where
  "zero_header = \<lparr>nodeHeaderDepth = 0, prefixLength = 0, prefixArray = replicate 6 0\<rparr>"

definition NewWRERTNode :: "'v \<Rightarrow> nat \<Rightarrow> nat \<Rightarrow> 'v wrert_node" where
  "NewWRERTNode z depth gd =
     \<lparr>header = header_initialize None 6 depth zero_header,
      capacity = 2 ^ gd, globalDepth = gd,
      directory = \<lparr>localDepth = 0, sharedBucketOffset = 0, segmentPtr = 0\<rparr> #
        replicate (2 ^ gd - 1) \<lparr>localDepth = 0, sharedBucketOffset = 0, segmentPtr = 0\<rparr>,
      segs = [NewWRERTSegment z]\<rparr>"

subsection \<open>Searching a node\<close>

text \<open>
  The lanes of one SIMD step are the first words of 8 slots; a mask is scanned from its
  least significant bit.
\<close>

definition lane :: "(u64 \<Rightarrow> bool) \<Rightarrow> 'v slot \<Rightarrow> bool" where
  "lane p x = p (pack x)"

definition lanes :: "nat \<Rightarrow> 'v bucket \<Rightarrow> 'v slot list" where
  "lanes i b = take 8 (drop i b)"

definition key_target :: "9 word \<Rightarrow> u32 \<Rightarrow> u64" where
  "key_target ver k = push_bit 41 1 OR push_bit 32 (ucast ver) OR ucast k"

definition key_match :: "9 word \<Rightarrow> u32 \<Rightarrow> u64 \<Rightarrow> bool" where
  "key_match ver k w \<longleftrightarrow> w AND VALIDFLAG_MIGVERSION_SUBKEY_MASK = key_target ver k"

text \<open>Which bucket positions a sub-key may be in.\<close>

definition shared_position :: "segment_node \<Rightarrow> u32 \<Rightarrow> nat" where
  "shared_position sn k = window sn + shared_bucket_index k (localDepth sn)"

definition main_position :: "segment_node \<Rightarrow> u32 \<Rightarrow> nat" where
  "main_position sn k = calcBucketPosition (window sn) (main_bucket_index k (localDepth sn))"

definition segment_node_of :: "'v wrert_node \<Rightarrow> u32 \<Rightarrow> segment_node" where
  "segment_node_of n k = directory n ! get_segment_number k (globalDepth n)"

definition bad_depths :: "'v wrert_node \<Rightarrow> u32 \<Rightarrow> bool" where
  "bad_depths n k \<longleftrightarrow> globalDepth n > 32 \<or> localDepth (segment_node_of n k) > 27"

definition find_key ::
  "9 word \<Rightarrow> 9 word \<Rightarrow> u32 \<Rightarrow> 'v bucket \<Rightarrow> 'v bucket \<Rightarrow> nat \<Rightarrow> (bool \<times> nat) option" where
  "find_key sver mver k sb mb i =
     (case find_index (lane (key_match sver k)) (lanes i sb) of
        Some j \<Rightarrow> Some (False, i + j)
      | None \<Rightarrow> map_option (\<lambda>j. (True, i + j)) (find_index (lane (key_match mver k)) (lanes i mb)))"

definition getSegNode :: "'v wrert_node \<Rightarrow> u32 \<Rightarrow> 'v slot option res" where
  "getSegNode n k =
     (if bad_depths n k then Inl BadShift
      else
        (let sn = segment_node_of n k;
             sg = segs n ! segmentPtr sn;
             sb = sg ! shared_position sn k;
             mb = sg ! main_position sn k;
             sver = shared_version (localDepth sn);
             mver = main_version (localDepth sn);
             r = (case find_key sver mver k sb mb 0 of
                    Some p \<Rightarrow> Some p
                  | None \<Rightarrow> find_key sver mver k sb mb 8)
         in Inr (map_option (\<lambda>(m, j). (if m then mb else sb) ! j) r)))"

subsection \<open>Splitting a segment\<close>

text \<open>
  The migration loops: the live slots of a shared bucket, up to the first one that is not,
  go to their main buckets at the next depth; one counter per main bucket.
\<close>

fun mig_slots ::
  "(u32 \<Rightarrow> bool) \<Rightarrow> 9 word \<Rightarrow> nat \<Rightarrow> nat \<Rightarrow> 'v slot list \<Rightarrow> nat list \<times> 'v segment \<Rightarrow> (nat list \<times> 'v segment) res"
where
  "mig_slots sel sver nd off [] st = Inr st"
| "mig_slots sel sver nd off (x # xs) (cnt, sg) =
     (if \<not> validFlag x \<or> migVersion x \<noteq> sver then Inr (cnt, sg)
      else if sel (subKey x) then
        (let i = main_bucket_index (subKey x) nd;
             p = calcBucketPosition off i;
             j = cnt ! i
         in if nd > 27 then Inl BadShift
            else if j \<ge> 16 then Inl OutOfBounds
            else mig_slots sel sver nd off xs
                   (cnt[i := Suc j], set_slot sg p j (x\<lparr>migVersion := main_version nd\<rparr>)))
      else mig_slots sel sver nd off xs (cnt, sg))"

fun mig_buckets ::
  "(u32 \<Rightarrow> bool) \<Rightarrow> 9 word \<Rightarrow> nat \<Rightarrow> nat \<Rightarrow> 'v bucket list \<Rightarrow> nat list \<times> 'v segment \<Rightarrow> (nat list \<times> 'v segment) res"
where
  "mig_buckets sel sver nd off [] st = Inr st"
| "mig_buckets sel sver nd off (b # bs) st =
     (case mig_slots sel sver nd off b st of
        Inl e \<Rightarrow> Inl e
      | Inr st' \<Rightarrow> mig_buckets sel sver nd off bs st')"

text \<open>
  One split: the new segment, with its window at \<open>new_off\<close>, gets the upper half of the main
  buckets as its shared buckets; the upper and lower halves of the shared buckets are
  distributed over the main buckets of the new and of the old segment.
\<close>

definition split_segment ::
  "'v \<Rightarrow> (u32 \<Rightarrow> bool) \<Rightarrow> (u32 \<Rightarrow> bool) \<Rightarrow> nat \<Rightarrow> nat \<Rightarrow> nat \<Rightarrow> 'v segment \<Rightarrow> ('v segment \<times> 'v segment) res" where
  "split_segment z hi lo ld s new_off sg =
     (let dst = (s + 16) mod 48;
          migSharedStart = s + 8;
          migMainStart = ((s + 16) mod 48 + (migSharedStart mod 16) * 2) mod 48;
          new0 = take new_off (NewWRERTSegment z) @ take 16 (drop migMainStart sg) @
                 drop (new_off + 16) (NewWRERTSegment z);
          buf = take 8 (drop s sg);
          up = take 8 (drop migSharedStart sg)
      in case mig_buckets hi (shared_version ld) (ld + 1) new_off up (replicate 32 0, new0) of
           Inl e \<Rightarrow> Inl e
         | Inr (_, new) \<Rightarrow>
             (case mig_buckets lo (shared_version ld) (ld + 1) dst buf (replicate 32 0, sg) of
                Inl e \<Rightarrow> Inl e
              | Inr (_, old) \<Rightarrow> Inr (new, old)))"

text \<open>The segment is deeper than its directory entry needs: the entry's range is split.\<close>

definition split_shallow :: "'v \<Rightarrow> 'v wrert_node \<Rightarrow> nat \<Rightarrow> nat \<Rightarrow> 'v wrert_node res" where
  "split_shallow z n idx s =
     (let sn = directory n ! idx;
          num = 2 ^ (globalDepth n - localDepth sn);
          tmp = num div 2;
          start = idx - idx mod num;
          mid = start + tmp;
          dst = (s + 16) mod 48
      in case split_segment z (\<lambda>k. get_segment_number k (globalDepth n) \<ge> mid)
                (\<lambda>k. get_segment_number k (globalDepth n) < mid) (localDepth sn) s s
                (segs n ! segmentPtr sn) of
           Inl e \<Rightarrow> Inl e
         | Inr (new, old) \<Rightarrow>
             Inr (n\<lparr>directory :=
                      map (\<lambda>i. let e = directory n ! i in
                             if start \<le> i \<and> i < mid
                             then e\<lparr>localDepth := localDepth e + 1, sharedBucketOffset := stored_offset dst\<rparr>
                             else if mid \<le> i \<and> i < mid + tmp
                             then e\<lparr>localDepth := localDepth e + 1, segmentPtr := length (segs n)\<rparr>
                             else e) [0..<length (directory n)],
                    segs := (segs n)[segmentPtr sn := old] @ [new]\<rparr>))"

text \<open>The segment is as deep as the directory: a new node with a directory twice the size.\<close>

definition split_deep :: "'v \<Rightarrow> 'v wrert_node \<Rightarrow> nat \<Rightarrow> nat \<Rightarrow> 'v wrert_node res" where
  "split_deep z n idx s =
     (let sn = directory n ! idx;
          gd = globalDepth n + 1;
          dst = (s + 16) mod 48;
          dir = concat (map (\<lambda>i. [directory n ! i, directory n ! i]) [0..<capacity n]);
          mig = dir ! (idx * 2); new_sn = dir ! (idx * 2 + 1)
      in case split_segment z (\<lambda>k. get_segment_number k gd = idx * 2 + 1)
                (\<lambda>k. get_segment_number k gd = idx * 2) (localDepth sn) s 0
                (segs n ! segmentPtr sn) of
           Inl e \<Rightarrow> Inl e
         | Inr (new, old) \<Rightarrow>
             Inr \<lparr>header = header_initialize (Some (header n)) (prefixLength (header n))
                             (nodeHeaderDepth (header n)) zero_header,
                  capacity = 2 ^ gd, globalDepth = gd,
                  directory = dir
                    [idx * 2 + 1 := \<lparr>localDepth = localDepth new_sn + 1, sharedBucketOffset = 0,
                                     segmentPtr = length (segs n)\<rparr>,
                     idx * 2 := mig\<lparr>localDepth := localDepth mig + 1, sharedBucketOffset := stored_offset dst\<rparr>],
                  segs = (segs n)[segmentPtr sn := old] @ [new]\<rparr>)"

subsection \<open>Inserting into a node\<close>

text \<open>
  \<open>put\<close> writes the slot it is given, as a bucket position and slot index of the segment; a
  valid slot with the same sub-key only gets the new value.  Without a slot it splits and
  starts over through \<open>putSegNode\<close>.
\<close>

definition write_slot ::
  "'v wrert_node \<Rightarrow> u32 \<Rightarrow> 'v \<Rightarrow> segment_node \<Rightarrow> u16 \<Rightarrow> bool \<Rightarrow> bool \<Rightarrow> nat \<times> nat \<Rightarrow> 'v wrert_node" where
  "write_slot n k v sn fp nf main pj =
     (let (p, j) = pj;
          sg = segs n ! segmentPtr sn;
          x = sg ! p ! j;
          y = (if subKey x = k \<and> validFlag x then x\<lparr>slot_value := v\<rparr>
               else x\<lparr>slot_value := v, subKey := k, validFlag := True, fingerprint := fp,
                      migVersion := (if main then main_version (localDepth sn) else shared_version (localDepth sn)),
                      nodeFlag := nf\<rparr>)
      in n\<lparr>segs := (segs n)[segmentPtr sn := set_slot sg p j y]\<rparr>)"

text \<open>
  The scan of \<open>putSegNode\<close>: the first slot whose version differs in its low 8 bits,
  \<open>validFlag\<close> not being looked at.
\<close>

definition version_differs :: "nat \<Rightarrow> u64 \<Rightarrow> bool" where
  "version_differs ver w \<longleftrightarrow> drop_bit 32 (w AND MIGVERSION_MASK) \<noteq> of_nat ver"

definition first_differs :: "nat \<Rightarrow> 'v bucket \<Rightarrow> nat option" where
  "first_differs ver b =
     (case find_index (lane (version_differs ver)) (lanes 0 b) of
        Some j \<Rightarrow> Some j
      | None \<Rightarrow> map_option ((+) 8) (find_index (lane (version_differs ver)) (lanes 8 b)))"

definition put_target :: "segment_node \<Rightarrow> 'v segment \<Rightarrow> u32 \<Rightarrow> (bool \<times> nat \<times> nat) option" where
  "put_target sn sg k =
     (let sp = shared_position sn k; mp = main_position sn k in
      case first_differs ((localDepth sn + 255) mod 256) (sg ! sp) of
        Some j \<Rightarrow> Some (False, sp, j)
      | None \<Rightarrow> map_option (\<lambda>j. (True, mp, j)) (first_differs (localDepth sn) (sg ! mp)))"

definition split_for :: "'v \<Rightarrow> 'v wrert_node \<Rightarrow> u32 \<Rightarrow> 'v wrert_node res" where
  "split_for z n k =
     (let idx = get_segment_number k (globalDepth n); sn = directory n ! idx in
      if localDepth sn < globalDepth n then split_shallow z n idx (window sn)
      else if localDepth sn = globalDepth n then split_deep z n idx (window sn)
      else Inl NoReturn)"

function putSegNode :: "nat \<Rightarrow> 'v \<Rightarrow> 'v wrert_node \<Rightarrow> u32 \<Rightarrow> 'v \<Rightarrow> u16 \<Rightarrow> bool \<Rightarrow> 'v wrert_node res"
  and put :: "nat \<Rightarrow> 'v \<Rightarrow> 'v wrert_node \<Rightarrow> u32 \<Rightarrow> 'v \<Rightarrow> u16 \<Rightarrow> bool \<Rightarrow> (bool \<times> nat \<times> nat) option \<Rightarrow> 'v wrert_node res"
where
  "putSegNode 0 z n k v fp nf = Inl OutOfFuel"
| "putSegNode (Suc fuel) z n k v fp nf =
     (if bad_depths n k then Inl BadShift
      else
        (let sn = segment_node_of n k
         in put fuel z n k v fp nf (put_target sn (segs n ! segmentPtr sn) k)))"
| "put fuel z n k v fp nf None =
     (case split_for z n k of
        Inl e \<Rightarrow> Inl e
      | Inr n' \<Rightarrow> putSegNode fuel z n' k v fp nf)"
| "put fuel z n k v fp nf (Some (main, p, j)) =
     Inr (write_slot n k v (segment_node_of n k) fp nf main (p, j))"
  by pat_completeness auto
termination
  by (relation "measure (case_sum (\<lambda>(f, _). 2 * f) (\<lambda>(f, _). Suc (2 * f)))") auto

text \<open>Enough for every split that can happen: a full bucket has a local depth of at most 22.\<close>

definition put_fuel :: nat where "put_fuel = 32"

subsection \<open>The slot search of \<open>WRERT::insert\<close>\<close>

text \<open>
  The insertion of the tree scans both buckets itself.  \<open>last_index\<close> is the position of the
  highest lane of a mask, \<open>31 - clz\<close>.
\<close>

fun last_index :: "('a \<Rightarrow> bool) \<Rightarrow> 'a list \<Rightarrow> nat option" where
  "last_index p [] = None"
| "last_index p (x # xs) =
     (case last_index p xs of Some j \<Rightarrow> Some (Suc j) | None \<Rightarrow> if p x then Some 0 else None)"

definition version_match :: "9 word \<Rightarrow> u64 \<Rightarrow> bool" where
  "version_match ver w \<longleftrightarrow> w AND VALIDFLAG_MIGVERSION_MASK = (push_bit 41 1 OR push_bit 32 (ucast ver))"

definition subkey_match :: "u32 \<Rightarrow> u64 \<Rightarrow> bool" where
  "subkey_match k w \<longleftrightarrow> w AND SUBKEY_MASK = ucast k"

datatype scan = Found nat | Free nat | Full

text \<open>
  One step of eight lanes; \<open>None\<close> goes on with the next eight.  When the first lane with the
  sub-key lies above every lane of the version, some lane is bad, so the mask is not empty.
\<close>

definition scan_step :: "9 word \<Rightarrow> u32 \<Rightarrow> 'v bucket \<Rightarrow> nat \<Rightarrow> scan option" where
  "scan_step ver k b i =
     (let ls = lanes i b; bad = find_index (\<lambda>x. \<not> lane (version_match ver) x) ls in
      case last_index (lane (version_match ver)) ls of
        None \<Rightarrow> Some (Free i)
      | Some y \<Rightarrow>
          (case find_index (lane (subkey_match k)) ls of
             Some x \<Rightarrow>
               if x \<le> y then Some (Found (i + x))
               else map_option (\<lambda>j. Free (i + j)) bad
           | None \<Rightarrow> map_option (\<lambda>j. Free (i + j)) bad))"

definition scan_bucket :: "9 word \<Rightarrow> u32 \<Rightarrow> 'v bucket \<Rightarrow> scan" where
  "scan_bucket ver k b =
     (case scan_step ver k b 0 of
        Some r \<Rightarrow> r
      | None \<Rightarrow> (case scan_step ver k b 8 of Some r \<Rightarrow> r | None \<Rightarrow> Full))"

text \<open>The scalar loop the SIMD code replaces, kept in the source as a comment.\<close>

definition scan_loop :: "9 word \<Rightarrow> u32 \<Rightarrow> 'v bucket \<Rightarrow> scan" where
  "scan_loop ver k b =
     (case find_index (\<lambda>x. \<not> (validFlag x \<and> migVersion x = ver) \<or> subKey x = k) b of
        None \<Rightarrow> Full
      | Some j \<Rightarrow> if validFlag (b ! j) \<and> migVersion (b ! j) = ver then Found j else Free j)"

datatype place = AtKey nat nat | Vacant bool nat nat | NoRoom

definition locate :: "'v wrert_node \<Rightarrow> u32 \<Rightarrow> place" where
  "locate n k =
     (let sn = segment_node_of n k;
          sg = segs n ! segmentPtr sn;
          sp = shared_position sn k;
          mp = main_position sn k;
          s = scan_bucket (shared_version (localDepth sn)) k (sg ! sp)
      in case s of
           Found j \<Rightarrow> AtKey sp j
         | _ \<Rightarrow>
             (let m = scan_bucket (main_version (localDepth sn)) k (sg ! mp)
              in case m of
                   Found j \<Rightarrow> AtKey mp j
                 | _ \<Rightarrow>
                     (case s of
                        Free j \<Rightarrow> Vacant False sp j
                      | _ \<Rightarrow> (case m of Free j \<Rightarrow> Vacant True mp j | _ \<Rightarrow> NoRoom))))"

definition set_value :: "'v wrert_node \<Rightarrow> u32 \<Rightarrow> 'v \<Rightarrow> nat \<Rightarrow> nat \<Rightarrow> 'v wrert_node" where
  "set_value n k v p j =
     (let sn = segment_node_of n k; sg = segs n ! segmentPtr sn
      in n\<lparr>segs := (segs n)[segmentPtr sn := set_slot sg p j ((sg ! p ! j)\<lparr>slot_value := v\<rparr>)]\<rparr>)"

text \<open>
  The end of the key: an existing slot gets the value, otherwise \<open>put\<close> stores a new one.
\<close>

definition node_insert :: "nat \<Rightarrow> 'v \<Rightarrow> 'v wrert_node \<Rightarrow> u32 \<Rightarrow> 'v \<Rightarrow> u16 \<Rightarrow> 'v wrert_node res" where
  "node_insert fuel z n k v fp =
     (if bad_depths n k then Inl BadShift
      else (case locate n k of
              AtKey p j \<Rightarrow> Inr (set_value n k v p j)
            | Vacant m p j \<Rightarrow> put fuel z n k v fp False (Some (m, p, j))
            | NoRoom \<Rightarrow> put fuel z n k v fp False None))"

subsection \<open>The pairs of a global segment\<close>

text \<open>\<open>putDirNode\<close> and \<open>getDirNode\<close> work on 16 pairs; \<open>(0, -1)\<close> is a free one.\<close>

definition putDirNode :: "(u64 \<times> u64) list \<Rightarrow> u64 \<Rightarrow> u64 \<Rightarrow> (u64 \<times> u64) list option" where
  "putDirNode gs key v =
     map_option (\<lambda>i. gs[i := (key, v)]) (find_index (\<lambda>kv. fst kv = 0 \<and> snd kv = -1) gs)"

definition getDirNode :: "(u64 \<times> u64) list \<Rightarrow> u64 \<Rightarrow> u64" where
  "getDirNode gs key =
     (case find_index (\<lambda>kv. fst kv = key) gs of Some i \<Rightarrow> snd (gs ! i) | None \<Rightarrow> -1)"

end
