(* ===== verification/Wrert_Pack.thy ===== *)
theory Wrert_Pack
  imports Wrert_Node
begin

text \<open>
  The SIMD comparisons on packed slot words are comparisons of slot fields, and the two
  8-lane steps over a bucket find the first slot of all 16.
\<close>

lemma bit_ucast_u64:
  "LENGTH('b) \<le> 64 \<Longrightarrow> bit (ucast (w :: 'b::len word) :: u64) m \<longleftrightarrow> m < LENGTH('b) \<and> bit w m"
  using bit_imp_le_length [of w m] by (auto simp: bit_ucast_iff)

lemma bit_of_bool_u64: "bit (of_bool c :: u64) m \<longleftrightarrow> c \<and> m = 0"
  by (cases c) (auto simp: bit_1_iff)

lemma bit_push_u64: "bit (push_bit q w :: u64) n \<longleftrightarrow> q \<le> n \<and> n < 64 \<and> bit w (n - q)"
  by (auto simp: bit_push_bit_iff)

lemma bit_pack:
  "bit (pack x) n \<longleftrightarrow>
     n < 32 \<and> bit (subKey x) n \<or> 32 \<le> n \<and> n < 41 \<and> bit (migVersion x) (n - 32) \<or>
     n = 41 \<and> validFlag x \<or> n = 42 \<and> nodeFlag x \<or>
     43 \<le> n \<and> n < 59 \<and> bit (fingerprint x) (n - 43)"
proof -
  note a = bit_ucast_u64 and o = bit_of_bool_u64 and p = bit_push_u64
  have 1: "bit (ucast (subKey x) :: u64) n \<longleftrightarrow> n < 32 \<and> bit (subKey x) n"
    by (simp add: a)
  have 2: "bit (push_bit 32 (ucast (migVersion x)) :: u64) n \<longleftrightarrow> 32 \<le> n \<and> n < 41 \<and> bit (migVersion x) (n - 32)"
    unfolding p by (auto simp: a)
  have 3: "bit (push_bit 41 (of_bool (validFlag x)) :: u64) n \<longleftrightarrow> n = 41 \<and> validFlag x"
    unfolding p o by auto
  have 4: "bit (push_bit 42 (of_bool (nodeFlag x)) :: u64) n \<longleftrightarrow> n = 42 \<and> nodeFlag x"
    unfolding p o by auto
  have 5: "bit (push_bit 43 (ucast (fingerprint x)) :: u64) n \<longleftrightarrow> 43 \<le> n \<and> n < 59 \<and> bit (fingerprint x) (n - 43)"
    unfolding p by (auto simp: a)
  show ?thesis unfolding pack_def bit_or_iff 1 2 3 4 5 by blast
qed

lemma key_match_pack:
  "key_match ver k (pack x) \<longleftrightarrow> validFlag x \<and> migVersion x = ver \<and> subKey x = k"
proof -
  have m: "VALIDFLAG_MIGVERSION_SUBKEY_MASK = mask 42"
    by (simp add: VALIDFLAG_MIGVERSION_SUBKEY_MASK_def mask_eq_exp_minus_1)
  have l: "bit (pack x AND VALIDFLAG_MIGVERSION_SUBKEY_MASK) n \<longleftrightarrow>
      n < 32 \<and> bit (subKey x) n \<or> 32 \<le> n \<and> n < 41 \<and> bit (migVersion x) (n - 32) \<or> n = 41 \<and> validFlag x" for n
    unfolding m bit_and_iff bit_mask_iff bit_pack by auto
  have r: "bit (key_target ver k) n \<longleftrightarrow>
      n < 32 \<and> bit k n \<or> 32 \<le> n \<and> n < 41 \<and> bit ver (n - 32) \<or> n = 41" for n
  proof -
    have 1: "bit (ucast k :: u64) n \<longleftrightarrow> n < 32 \<and> bit k n" by (simp add: bit_ucast_u64)
    have 2: "bit (push_bit 32 (ucast ver) :: u64) n \<longleftrightarrow> 32 \<le> n \<and> n < 41 \<and> bit ver (n - 32)"
      unfolding bit_push_u64 by (auto simp: bit_ucast_u64)
    have 3: "bit (push_bit 41 1 :: u64) n \<longleftrightarrow> n = 41"
      unfolding bit_push_u64 by (auto simp: bit_1_iff)
    show ?thesis unfolding key_target_def bit_or_iff 1 2 3 by blast
  qed
  show ?thesis
  proof
    assume "key_match ver k (pack x)"
    then have e: "(n < 32 \<and> bit (subKey x) n \<or> 32 \<le> n \<and> n < 41 \<and> bit (migVersion x) (n - 32) \<or> n = 41 \<and> validFlag x) \<longleftrightarrow>
        (n < 32 \<and> bit k n \<or> 32 \<le> n \<and> n < 41 \<and> bit ver (n - 32) \<or> n = 41)" for n
      unfolding l [symmetric] r [symmetric] key_match_def by simp
    have "validFlag x" using e [of 41] by simp
    moreover have "migVersion x = ver"
    proof (rule bit_word_eqI)
      fix n assume "n < LENGTH(9)"
      then show "bit (migVersion x) n = bit ver n" using e [of "32 + n"] by simp
    qed
    moreover have "subKey x = k"
    proof (rule bit_word_eqI)
      fix n assume "n < LENGTH(32)"
      then show "bit (subKey x) n = bit k n" using e [of n] by simp
    qed
    ultimately show "validFlag x \<and> migVersion x = ver \<and> subKey x = k" by simp
  next
    assume "validFlag x \<and> migVersion x = ver \<and> subKey x = k"
    then have "bit (pack x AND VALIDFLAG_MIGVERSION_SUBKEY_MASK) n = bit (key_target ver k) n" for n
      unfolding l r by auto
    then show "key_match ver k (pack x)" unfolding key_match_def by (intro bit_eqI) simp
  qed
qed

lemma version_differs_pack:
  assumes "t < 256"
  shows "version_differs t (pack x) \<longleftrightarrow> unat (migVersion x) mod 256 \<noteq> t"
proof -
  have "drop_bit 32 (pack x AND MIGVERSION_MASK) = ucast (migVersion x) AND mask 8"
  proof (rule bit_eqI)
    fix n
    have m: "MIGVERSION_MASK = push_bit 32 (mask 8)"
      by (simp add: MIGVERSION_MASK_def mask_eq_exp_minus_1)
    show "bit (drop_bit 32 (pack x AND MIGVERSION_MASK)) n = bit (ucast (migVersion x) AND mask 8 :: u64) n"
      unfolding m bit_drop_bit_eq bit_and_iff bit_push_bit_iff bit_mask_iff bit_ucast_iff
      by (auto simp: bit_pack)
  qed
  moreover have "unat (ucast (migVersion x) AND mask 8 :: u64) = unat (migVersion x) mod 256"
    unfolding unat_and_mask using unsigned_less [of "migVersion x", where 'a = nat]
    by (simp add: unsigned_ucast_eq take_bit_nat_eq_self)
  moreover have "unat (of_nat t :: u64) = t" using assms by (simp add: unat_of_nat)
  ultimately show ?thesis unfolding version_differs_def by (metis word_unat_eq_iff)
qed

lemma version_match_pack:
  "version_match ver (pack x) \<longleftrightarrow> validFlag x \<and> migVersion x = ver"
proof -
  have m: "VALIDFLAG_MIGVERSION_MASK = push_bit 32 (mask 10)"
    by (simp add: VALIDFLAG_MIGVERSION_MASK_def mask_eq_exp_minus_1)
  have mb: "bit (VALIDFLAG_MIGVERSION_MASK) n \<longleftrightarrow> 32 \<le> n \<and> n < 42" for n
    unfolding m bit_push_u64 by (auto simp: bit_mask_iff)
  have l: "bit (pack x AND VALIDFLAG_MIGVERSION_MASK) n \<longleftrightarrow>
      32 \<le> n \<and> n < 41 \<and> bit (migVersion x) (n - 32) \<or> n = 41 \<and> validFlag x" for n
    unfolding bit_and_iff mb bit_pack by auto
  have r: "bit (push_bit 41 1 OR push_bit 32 (ucast ver) :: u64) n \<longleftrightarrow>
      32 \<le> n \<and> n < 41 \<and> bit ver (n - 32) \<or> n = 41" for n
  proof -
    have 2: "bit (push_bit 32 (ucast ver) :: u64) n \<longleftrightarrow> 32 \<le> n \<and> n < 41 \<and> bit ver (n - 32)"
      unfolding bit_push_u64 by (auto simp: bit_ucast_u64)
    have 3: "bit (push_bit 41 1 :: u64) n \<longleftrightarrow> n = 41"
      unfolding bit_push_u64 by (auto simp: bit_1_iff)
    show ?thesis unfolding bit_or_iff 2 3 by blast
  qed
  show ?thesis
  proof
    assume "version_match ver (pack x)"
    then have e: "(32 \<le> n \<and> n < 41 \<and> bit (migVersion x) (n - 32) \<or> n = 41 \<and> validFlag x) \<longleftrightarrow>
        (32 \<le> n \<and> n < 41 \<and> bit ver (n - 32) \<or> n = 41)" for n
      unfolding l [symmetric] r [symmetric] version_match_def by simp
    have "validFlag x" using e [of 41] by simp
    moreover have "migVersion x = ver"
    proof (rule bit_word_eqI)
      fix n assume "n < LENGTH(9)"
      then show "bit (migVersion x) n = bit ver n" using e [of "32 + n"] by simp
    qed
    ultimately show "validFlag x \<and> migVersion x = ver" by simp
  next
    assume "validFlag x \<and> migVersion x = ver"
    then have "bit (pack x AND VALIDFLAG_MIGVERSION_MASK) n = bit (push_bit 41 1 OR push_bit 32 (ucast ver) :: u64) n" for n
      unfolding l r by auto
    then show "version_match ver (pack x)" unfolding version_match_def by (intro bit_eqI) simp
  qed
qed

lemma subkey_match_pack: "subkey_match k (pack x) \<longleftrightarrow> subKey x = k"
proof -
  have m: "SUBKEY_MASK = mask 32" by (simp add: SUBKEY_MASK_def mask_eq_exp_minus_1)
  have "pack x AND SUBKEY_MASK = ucast (subKey x)"
  proof (rule bit_eqI)
    fix n
    show "bit (pack x AND SUBKEY_MASK) n = bit (ucast (subKey x) :: u64) n"
      unfolding m bit_and_iff bit_mask_iff bit_pack by (auto simp: bit_ucast_u64)
  qed
  moreover have "a = k" if e: "(ucast a :: u64) = ucast k" for a :: u32
  proof (rule bit_word_eqI)
    fix n assume "n < LENGTH(32)"
    with arg_cong [OF e, of "\<lambda>w. bit w n"] show "bit a n = bit k n" by (simp add: bit_ucast_u64)
  qed
  ultimately show ?thesis unfolding subkey_match_def by auto
qed

subsection \<open>Two steps of eight lanes\<close>

lemma find_index_append:
  "find_index p (xs @ ys) =
     (case find_index p xs of Some i \<Rightarrow> Some i | None \<Rightarrow> map_option ((+) (length xs)) (find_index p ys))"
proof (induction xs)
  case Nil
  show ?case by (cases "find_index p ys") (simp_all del: find_index_None)
next
  case (Cons x xs)
  then show ?case
    by (cases "p x"; cases "find_index p xs"; cases "find_index p ys") (simp_all del: find_index_None)
qed

lemma lanes_split: "length b = 16 \<Longrightarrow> b = lanes 0 b @ lanes 8 b"
  by (simp add: lanes_def)

lemma first_differs_eq:
  assumes "length b = 16" "t < 256"
  shows "first_differs t b = find_index (\<lambda>x. unat (migVersion x) mod 256 \<noteq> t) b"
proof -
  have "lane (version_differs t) = (\<lambda>x :: 'a slot. unat (migVersion x) mod 256 \<noteq> t)"
    using assms(2) by (simp add: fun_eq_iff lane_def version_differs_pack)
  moreover have "length (lanes 0 b) = 8" using assms(1) by (simp add: lanes_def)
  ultimately show ?thesis
    using find_index_append [of "lane (version_differs t)" "lanes 0 b" "lanes 8 b"] lanes_split [OF assms(1)]
    unfolding first_differs_def by metis
qed

end
