(* ===== verification/Wrert_Segment.thy ===== *)
theory Wrert_Segment
  imports Wrert_Pack
begin

text \<open>
  One segment of a WRERT node: what its live slots are, the invariant of a segment at a local
  depth and window, and the proof that a split distributes its live slots over two segments
  of the next depth.
\<close>

subsection \<open>The leading bits of a sub-key\<close>

definition top_bits :: "u32 \<Rightarrow> nat \<Rightarrow> nat" where
  "top_bits k n = unat k div 2 ^ (32 - n)"

lemma unat_u32_less: "unat (k :: u32) < 2 ^ 32"
proof -
  have "unat k < 2 ^ LENGTH(32)" by (rule unsigned_less)
  then show ?thesis by simp
qed

lemma top_bits_less: "n \<le> 32 \<Longrightarrow> top_bits k n < 2 ^ n"
proof -
  assume n: "n \<le> 32"
  have "unat k < 2 ^ n * 2 ^ (32 - n)" using unat_u32_less [of k] n by (simp flip: power_add)
  then show ?thesis unfolding top_bits_def by (rule less_mult_imp_div_less)
qed

lemma top_bits_add: "m + n \<le> 32 \<Longrightarrow> top_bits k m = top_bits k (m + n) div 2 ^ n"
proof -
  assume "m + n \<le> 32"
  then have "32 - m = (32 - (m + n)) + n" by simp
  then have "(2::nat) ^ (32 - m) = 2 ^ (32 - (m + n)) * 2 ^ n" by (simp only: power_add)
  then show ?thesis unfolding top_bits_def by (simp only: div_mult2_eq)
qed

lemma get_segment_number_eq: "gd \<le> 32 \<Longrightarrow> get_segment_number k gd = top_bits k gd"
  unfolding get_segment_number_def unat_drop_bit_mask top_bits_def [symmetric]
  by (simp add: top_bits_less)

lemma main_bucket_index_eq: "ld \<le> 27 \<Longrightarrow> main_bucket_index k ld = top_bits k (ld + 5) mod 32"
  unfolding main_bucket_index_def unat_drop_bit_mask top_bits_def by simp

lemma shared_bucket_index_eq: "ld \<le> 28 \<Longrightarrow> shared_bucket_index k ld = top_bits k (ld + 4) mod 16"
proof -
  have "(x mod 32) mod 16 = x mod (16::nat)" for x
    using mod_mod_cancel [of 16 32 x] by simp
  then show ?thesis unfolding shared_bucket_index_def unat_drop_bit_mask top_bits_def by simp
qed

lemma top_bits_Suc: "n < 32 \<Longrightarrow> top_bits k n = top_bits k (Suc n) div 2"
  using top_bits_add [of n 1 k] by simp

text \<open>Only \<open>2 ^ (32 - n)\<close> sub-keys share their first \<open>n\<close> bits.\<close>

lemma card_same_top_bits: "finite A \<Longrightarrow> (\<And>k. k \<in> A \<Longrightarrow> top_bits k n = c) \<Longrightarrow> card A \<le> 2 ^ (32 - n)"
proof -
  assume f: "finite A" and c: "\<And>k. k \<in> A \<Longrightarrow> top_bits k n = c"
  let ?m = "2 ^ (32 - n) :: nat"
  have "unat ` A \<subseteq> {c * ?m ..< c * ?m + ?m}"
  proof
    fix x assume "x \<in> unat ` A"
    then obtain k where "k \<in> A" and x: "x = unat k" by blast
    then have "x div ?m = c" using c by (simp add: top_bits_def)
    moreover have "x = x div ?m * ?m + x mod ?m" by (rule div_mult_mod_eq [symmetric])
    moreover have "x mod ?m < ?m" by (rule mod_less_divisor) simp
    ultimately show "x \<in> {c * ?m ..< c * ?m + ?m}" by (metis atLeastLessThan_iff le_add1 nat_add_left_cancel_less)
  qed
  then have "card (unat ` A) \<le> card {c * ?m ..< c * ?m + ?m}" by (rule card_mono [OF finite_atLeastLessThan])
  moreover have "card (unat ` A) = card A"
    by (rule card_image) (meson inj_onI word_unat_eq_iff)
  ultimately show ?thesis by simp
qed

subsection \<open>Positions\<close>

definition main_pos :: "nat \<Rightarrow> nat \<Rightarrow> nat" where
  "main_pos s i = (s + 16 + i) mod 48"

lemma wrap48: "x < 96 \<Longrightarrow> x mod 48 = (if x < 48 then x else x - 48)" for x :: nat
  by (simp add: le_mod_geq)

lemma main_pos_if:
  "s \<le> 32 \<Longrightarrow> i < 32 \<Longrightarrow> main_pos s i = (if s + 16 + i < 48 then s + 16 + i else s + 16 + i - 48)"
  unfolding main_pos_def by (rule wrap48) simp

lemma calcBucketPosition_eq:
  assumes "s \<in> {0, 16, 32}" "i < 32"
  shows "calcBucketPosition s i = main_pos s i"
proof -
  have "i mod 16 = i - 16" if "\<not> i < 16"
    using that assms(2) by (simp add: le_mod_geq)
  with assms show ?thesis by (auto simp: calcBucketPosition_def main_pos_if)
qed

lemma main_pos_less: "main_pos s i < 48"
  by (simp add: main_pos_def)

text \<open>The window and the 32 main positions after it cover the segment.\<close>

lemma main_pos_inj:
  assumes "s \<in> {0, 16, 32}" "i < 32" "j < 32" "main_pos s i = main_pos s j"
  shows "i = j"
  using assms by (auto simp: main_pos_if split: if_splits)

lemma main_pos_not_shared:
  assumes "s \<in> {0, 16, 32}" "i < 32" "b < 16"
  shows "main_pos s i \<noteq> s + b"
  using assms by (auto simp: main_pos_if split: if_splits)

lemma position_cases:
  assumes "s \<in> {0, 16, 32}" "p < 48"
  obtains (shared) b where "b < 16" "p = s + b" | (main) i where "i < 32" "p = main_pos s i"
proof (cases "s \<le> p \<and> p < s + 16")
  case True
  then show ?thesis using shared [of "p - s"] by auto
next
  case False
  let ?i = "if p < s then p + 32 - s else p - s - 16"
  have "?i < 32" "main_pos s ?i = p"
    using assms False by (auto simp: main_pos_if split: if_splits)
  then show ?thesis using main by metis
qed

lemma next_window:
  assumes "s \<in> {0, 16, 32}"
  shows "(s + 16) mod 48 \<in> {0, 16, 32}"
    "\<And>b. b < 16 \<Longrightarrow> (s + 16) mod 48 + b = main_pos s b"
    "\<And>b. b < 16 \<Longrightarrow> (s + 32) mod 48 + b = main_pos s (16 + b)"
  using assms by (auto simp: main_pos_if)

subsection \<open>Versions\<close>

lemma unat_shared_version: "d \<le> 256 \<Longrightarrow> unat (shared_version d) = (if d = 0 then 511 else d - 1)"
proof (cases d)
  case 0
  then show ?thesis by (simp add: shared_version_def unsigned_minus_1_eq_mask mask_eq_exp_minus_1)
next
  case (Suc e)
  moreover assume "d \<le> 256"
  ultimately show ?thesis by (simp add: shared_version_def unat_of_nat)
qed

lemma main_version_eq: "main_version d = shared_version (Suc d)"
  by (simp add: main_version_def shared_version_def)

lemma shared_version_inj: "d \<le> 256 \<Longrightarrow> d' \<le> 256 \<Longrightarrow> shared_version d = shared_version d' \<longleftrightarrow> d = d'"
  using unat_shared_version [of d] unat_shared_version [of d'] by (auto split: if_splits)

lemma shared_version_1: "shared_version (Suc 0) = 0"
  by (simp add: shared_version_def)

lemma low_version: "d \<le> 256 \<Longrightarrow> unat (shared_version d) mod 256 = (d + 255) mod 256"
  by (cases d) (simp_all add: unat_shared_version)

subsection \<open>Live slots\<close>

definition live :: "nat \<Rightarrow> 'v slot \<Rightarrow> bool" where
  "live d x \<longleftrightarrow> validFlag x \<and> migVersion x = shared_version d"

text \<open>The live slots of a sub-key: in its shared bucket, or in its main bucket.\<close>

definition sbucket :: "nat \<Rightarrow> nat \<Rightarrow> 'v segment \<Rightarrow> u32 \<Rightarrow> 'v bucket" where
  "sbucket ld s sg k = sg ! (s + top_bits k (ld + 4) mod 16)"

definition mbucket :: "nat \<Rightarrow> nat \<Rightarrow> 'v segment \<Rightarrow> u32 \<Rightarrow> 'v bucket" where
  "mbucket ld s sg k = sg ! main_pos s (top_bits k (ld + 5) mod 32)"

definition hits :: "nat \<Rightarrow> u32 \<Rightarrow> 'v bucket \<Rightarrow> 'v slot list" where
  "hits d k b = filter (\<lambda>x. live d x \<and> subKey x = k) b"

definition occ :: "nat \<Rightarrow> nat \<Rightarrow> 'v segment \<Rightarrow> u32 \<Rightarrow> 'v slot list" where
  "occ ld s sg k = hits ld k (sbucket ld s sg k) @ hits (Suc ld) k (mbucket ld s sg k)"

definition bucket_ok :: "nat \<Rightarrow> (u32 \<Rightarrow> bool) \<Rightarrow> 'v bucket \<Rightarrow> bool" where
  "bucket_ok d Q b \<longleftrightarrow> filter (live d) b = takeWhile (live d) b \<and> (\<forall>x\<in>set b. live d x \<longrightarrow> Q (subKey x))"

text \<open>\<open>D\<close> is the set of sub-keys of the whole node; stale slots hold only such keys.\<close>

definition slot_ok :: "u32 set \<Rightarrow> nat \<Rightarrow> 'v slot \<Rightarrow> bool" where
  "slot_ok D ld x \<longleftrightarrow>
     (if validFlag x then subKey x \<in> D \<and> (\<exists>d\<le>Suc ld. migVersion x = shared_version d) else migVersion x = 0)"

definition seg_ok :: "u32 set \<Rightarrow> nat \<Rightarrow> nat \<Rightarrow> nat \<Rightarrow> 'v segment \<Rightarrow> bool" where
  "seg_ok D ld s pre sg \<longleftrightarrow>
     s \<in> {0, 16, 32} \<and> ld \<le> 23 \<and> length sg = 48 \<and> (\<forall>p<48. length (sg ! p) = 16) \<and>
     (\<forall>p<48. \<forall>x\<in>set (sg ! p). slot_ok D ld x) \<and>
     (\<forall>b<16. bucket_ok ld (\<lambda>k. top_bits k (ld + 4) = pre * 16 + b) (sg ! (s + b))) \<and>
     (\<forall>i<32. bucket_ok (Suc ld) (\<lambda>k. top_bits k (ld + 5) = pre * 32 + i) (sg ! main_pos s i)) \<and>
     (\<forall>k. top_bits k ld = pre \<longrightarrow> length (occ ld s sg k) \<le> 1) \<and>
     (ld = 0 \<longrightarrow> (\<forall>i<32. \<forall>x\<in>set (sg ! main_pos s i). migVersion x = 0)) \<and>
     (ld = 1 \<longrightarrow> (\<forall>b<16. \<forall>x\<in>set (sg ! (s + b)). migVersion x = 0))"

lemma seg_okD:
  assumes "seg_ok D ld s pre sg"
  shows "s \<in> {0, 16, 32}" "ld \<le> 23" "length sg = 48" "\<And>p. p < 48 \<Longrightarrow> length (sg ! p) = 16"
    "\<And>p x. p < 48 \<Longrightarrow> x \<in> set (sg ! p) \<Longrightarrow> slot_ok D ld x"
    "\<And>b. b < 16 \<Longrightarrow> bucket_ok ld (\<lambda>k. top_bits k (ld + 4) = pre * 16 + b) (sg ! (s + b))"
    "\<And>i. i < 32 \<Longrightarrow> bucket_ok (Suc ld) (\<lambda>k. top_bits k (ld + 5) = pre * 32 + i) (sg ! main_pos s i)"
    "\<And>k. top_bits k ld = pre \<Longrightarrow> length (occ ld s sg k) \<le> 1"
    "\<And>i x. ld = 0 \<Longrightarrow> i < 32 \<Longrightarrow> x \<in> set (sg ! main_pos s i) \<Longrightarrow> migVersion x = 0"
    "\<And>b x. ld = 1 \<Longrightarrow> b < 16 \<Longrightarrow> x \<in> set (sg ! (s + b)) \<Longrightarrow> migVersion x = 0"
  using assms unfolding seg_ok_def by blast+

lemma shared_pos_less: "s \<in> {0, 16, 32} \<Longrightarrow> s + t mod 16 < (48 :: nat)"
proof -
  assume "s \<in> {0, 16, 32}"
  moreover have "t mod 16 < 16" by simp
  ultimately show ?thesis by auto
qed

subsection \<open>The first slot that is not live\<close>

lemma find_index_not:
  "find_index (\<lambda>x. \<not> P x) b =
     (if length (takeWhile P b) = length b then None else Some (length (takeWhile P b)))"
  by (induction b) auto

lemma takeWhile_all_length: "length (takeWhile P b) = length b \<longleftrightarrow> (\<forall>x\<in>set b. P x)"
  by (induction b) auto

lemma update_first_dead:
  assumes pc: "filter P b = takeWhile P b" and j: "find_index (\<lambda>x. \<not> P x) b = Some j" and y: "P y"
  shows "filter P (b[j := y]) = filter P b @ [y]" "takeWhile P (b[j := y]) = filter P b @ [y]"
    "j < length b" "\<not> P (b ! j)" "\<And>R. (\<And>x. R x \<Longrightarrow> P x) \<Longrightarrow> filter R (b[j := y]) = filter R b @ filter R [y]"
proof -
  let ?t = "takeWhile P b"
  from j have jt: "j = length ?t" and ne: "length ?t \<noteq> length b"
    by (auto simp: find_index_not split: if_splits)
  then have "dropWhile P b \<noteq> []" by (metis append_Nil2 takeWhile_dropWhile_id)
  then obtain z r where zr: "dropWhile P b = z # r" by (cases "dropWhile P b") auto
  have b: "b = ?t @ z # r" using zr by (metis takeWhile_dropWhile_id)
  have all: "\<forall>x\<in>set ?t. P x" by (blast dest: set_takeWhileD)
  have ft: "filter P ?t = ?t" by (rule filter_True [OF all])
  have "filter P b = ?t @ filter P (z # r)" using b ft by (metis filter_append)
  then have "filter P (z # r) = []" using pc by simp
  then have none: "\<not> P z" "\<forall>x\<in>set r. \<not> P x" by (auto simp: filter_empty_conv split: if_splits)
  have u: "b[j := y] = ?t @ y # r" using b jt list_update_length [of ?t z r y] by metis
  have r: "filter P r = []" "takeWhile P r = []" using none by (auto simp: filter_empty_conv takeWhile_eq_Nil_iff)
  show "filter P (b[j := y]) = filter P b @ [y]"
    unfolding u pc filter_append ft using y r(1) by (simp only: filter.simps if_True)
  show "takeWhile P (b[j := y]) = filter P b @ [y]"
  proof -
    have "takeWhile P (?t @ y # r) = ?t @ takeWhile P (y # r)"
      by (rule takeWhile_append2) (use all in blast)
    with y r(2) show ?thesis unfolding u pc by (simp only: takeWhile.simps if_True)
  qed
  show "j < length b" using jt ne length_takeWhile_le [of P b] by simp
  show "\<not> P (b ! j)" using b jt none(1) nth_append_length [of ?t z r] by metis
  fix R assume R: "\<And>x. R x \<Longrightarrow> P x"
  have "filter R (z # r) = []" "filter R r = []" using none R by (auto simp: filter_empty_conv)
  then have "filter R b = filter R ?t" using b by (metis append_Nil2 filter_append)
  with \<open>filter R r = []\<close> show "filter R (b[j := y]) = filter R b @ filter R [y]"
    unfolding u by simp
qed

subsection \<open>Writing a slot\<close>

text \<open>The bucket of a role: shared (\<open>False\<close>, live at \<open>ld\<close>) or main (\<open>True\<close>, at \<open>ld + 1\<close>).\<close>

definition role_pos :: "nat \<Rightarrow> nat \<Rightarrow> bool \<Rightarrow> u32 \<Rightarrow> nat" where
  "role_pos ld s m k = (if m then main_pos s (top_bits k (ld + 5) mod 32) else s + top_bits k (ld + 4) mod 16)"

definition role_ver :: "nat \<Rightarrow> bool \<Rightarrow> nat" where
  "role_ver ld m = (if m then Suc ld else ld)"

lemma occ_roles:
  "occ ld s sg k = hits (role_ver ld False) k (sg ! role_pos ld s False k) @
     hits (role_ver ld True) k (sg ! role_pos ld s True k)"
  by (simp add: occ_def sbucket_def mbucket_def role_pos_def role_ver_def)

lemma role_pos_less: "s \<in> {0, 16, 32} \<Longrightarrow> role_pos ld s m k < 48"
  by (simp add: role_pos_def main_pos_less shared_pos_less)

lemma role_pos_differ: "s \<in> {0, 16, 32} \<Longrightarrow> m \<noteq> m' \<Longrightarrow> role_pos ld s m k \<noteq> role_pos ld s m' k'"
  using main_pos_not_shared [of s "top_bits k (ld + 5) mod 32" "top_bits k' (ld + 4) mod 16"]
    main_pos_not_shared [of s "top_bits k' (ld + 5) mod 32" "top_bits k (ld + 4) mod 16"]
  by (cases m; cases m') (auto simp: role_pos_def)

lemma top_bits_split:
  "ld + n \<le> 32 \<Longrightarrow> top_bits k ld = pre \<Longrightarrow> top_bits k (ld + n) = pre * 2 ^ n + top_bits k (ld + n) mod 2 ^ n"
  using top_bits_add [of ld n k] by (metis div_mult_mod_eq)

lemma set_slot_nth:
  "length sg = 48 \<Longrightarrow> p < 48 \<Longrightarrow> q < 48 \<Longrightarrow>
   set_slot sg p j y ! q = (if q = p then (sg ! p)[j := y] else sg ! q)"
  by (simp add: set_slot_def nth_list_update)

lemma slot_ok_mono: "slot_ok D ld x \<Longrightarrow> D \<subseteq> D' \<Longrightarrow> slot_ok D' ld x"
  by (auto simp: slot_ok_def split: if_splits)

lemma seg_write:
  assumes ok: "seg_ok D ld s pre sg" and kp: "top_bits k ld = pre" and absent: "occ ld s sg k = []"
    and j: "find_index (\<lambda>x. \<not> live (role_ver ld m) x) (sg ! role_pos ld s m k) = Some j"
    and y: "subKey y = k" "live (role_ver ld m) y"
  defines "sg' \<equiv> set_slot sg (role_pos ld s m k) j y"
  shows "\<And>k'. occ ld s sg' k' = (if k' = k then [y] else occ ld s sg k')"
    and "seg_ok (insert k D) ld s pre sg'"
proof -
  note o = seg_okD [OF ok]
  let ?p = "role_pos ld s m k" and ?d = "role_ver ld m"
  have p: "?p < 48" by (rule role_pos_less [OF o(1)])
  have nth: "sg' ! q = (if q = ?p then (sg ! ?p)[j := y] else sg ! q)" if "q < 48" for q
    unfolding sg'_def by (rule set_slot_nth [OF o(3) p that])
  have bok: "bucket_ok ?d (\<lambda>x. top_bits x (ld + (if m then 5 else 4)) =
      pre * (if m then 32 else 16) + top_bits k (ld + (if m then 5 else 4)) mod (if m then 32 else 16)) (sg ! ?p)"
    using o(6) [of "top_bits k (ld + 4) mod 16"] o(7) [of "top_bits k (ld + 5) mod 32"]
    by (cases m) (simp_all add: role_pos_def role_ver_def)
  then have pc: "filter (live ?d) (sg ! ?p) = takeWhile (live ?d) (sg ! ?p)" by (simp add: bucket_ok_def)
  note u = update_first_dead [OF pc j y(2)]
  have hits_upd: "hits ?d k' ((sg ! ?p)[j := y]) = hits ?d k' (sg ! ?p) @ (if k' = k then [y] else [])" for k'
    unfolding hits_def using y by (subst u(5)) auto
  show occ': "occ ld s sg' k' = (if k' = k then [y] else occ ld s sg k')" for k'
  proof -
    have h: "hits (role_ver ld m') k' (sg' ! role_pos ld s m' k') =
        hits (role_ver ld m') k' (sg ! role_pos ld s m' k') @ (if m' = m \<and> k' = k then [y] else [])" for m'
    proof (cases "m' = m \<and> role_pos ld s m' k' = ?p")
      case True
      then have m: "m' = m" and e: "role_pos ld s m' k' = ?p" by blast+
      have "sg' ! role_pos ld s m' k' = (sg ! ?p)[j := y]" unfolding e using nth [OF p] by simp
      then show ?thesis unfolding e using hits_upd [of k'] m by simp
    next
      case False
      then have ne: "role_pos ld s m' k' \<noteq> ?p" using role_pos_differ [OF o(1), of m' m] by blast
      then have "sg' ! role_pos ld s m' k' = sg ! role_pos ld s m' k'"
        using nth [OF role_pos_less [OF o(1)]] by (simp only: if_False)
      moreover have "\<not> (m' = m \<and> k' = k)" using ne by blast
      ultimately show ?thesis by (simp only: if_False append_Nil2)
    qed
    have e: "hits (role_ver ld m') k (sg ! role_pos ld s m' k) = []" for m'
      using absent unfolding occ_roles by (cases m') simp_all
    show ?thesis unfolding occ_roles h using e by (cases m) auto
  qed
  have yok: "slot_ok (insert k D) ld y"
    using y unfolding slot_ok_def live_def by (auto simp: role_ver_def intro!: exI [of _ "role_ver ld m"])
  have upd_set: "x \<in> set ((sg ! ?p)[j := y]) \<Longrightarrow> x = y \<or> x \<in> set (sg ! ?p)" for x
    using set_update_subset_insert [of "sg ! ?p" j y] by blast
  have bucket_upd: "bucket_ok ?d Q ((sg ! ?p)[j := y])" if "bucket_ok ?d Q (sg ! ?p)" "Q k" for Q
    using that u(1,2) y upd_set unfolding bucket_ok_def by auto
  show "seg_ok (insert k D) ld s pre sg'"
    unfolding seg_ok_def
  proof (intro conjI allI impI ballI)
    show "s \<in> {0, 16, 32}" "ld \<le> 23" by (rule o(1), rule o(2))
    show "length sg' = 48" using o(3) by (simp add: sg'_def set_slot_def)
  next
    fix q :: nat assume q: "q < 48"
    then show "length (sg' ! q) = 16" using o(4) nth p by simp
    fix x assume "x \<in> set (sg' ! q)"
    then have "x = y \<or> x \<in> set (sg ! q)" using nth [OF q] upd_set by (auto split: if_splits)
    then show "slot_ok (insert k D) ld x" using yok slot_ok_mono [OF o(5) [OF q]] by blast
  next
    fix b :: nat assume b: "b < 16"
    have q: "s + b < 48" using o(1) b by auto
    show "bucket_ok ld (\<lambda>k. top_bits k (ld + 4) = pre * 16 + b) (sg' ! (s + b))"
    proof (cases "s + b = ?p")
      case True
      then have "\<not> m" using main_pos_not_shared [OF o(1), of "top_bits k (ld + 5) mod 32" b] b
        by (auto simp: role_pos_def split: if_splits)
      then have "b = top_bits k (ld + 4) mod 16" using True by (simp add: role_pos_def)
      then have "top_bits k (ld + 4) = pre * 16 + b"
        using top_bits_split [OF _ kp, of 4] o(2) by simp
      with True \<open>\<not> m\<close> show ?thesis
        using nth [OF q] bucket_upd o(6) [OF b] by (simp add: role_ver_def)
    next
      case False
      then show ?thesis using nth [OF q] o(6) [OF b] by simp
    qed
    fix x assume "ld = 1" "x \<in> set (sg' ! (s + b))"
    then show "migVersion x = 0"
      using nth [OF q] upd_set [of x] o(10) [OF \<open>ld = 1\<close> b] y(2)
        main_pos_not_shared [OF o(1), of "top_bits k (ld + 5) mod 32" b] b
      by (cases m) (auto simp: role_pos_def role_ver_def live_def shared_version_1 split: if_splits)
  next
    fix i :: nat assume i: "i < 32"
    have q: "main_pos s i < 48" by (rule main_pos_less)
    show "bucket_ok (Suc ld) (\<lambda>k. top_bits k (ld + 5) = pre * 32 + i) (sg' ! main_pos s i)"
    proof (cases "main_pos s i = ?p")
      case True
      then have "m" using main_pos_not_shared [OF o(1) i, of "top_bits k (ld + 4) mod 16"]
        by (auto simp: role_pos_def split: if_splits)
      then have "i = top_bits k (ld + 5) mod 32"
        using True main_pos_inj [OF o(1) i] by (simp add: role_pos_def)
      then have "top_bits k (ld + 5) = pre * 32 + i"
        using top_bits_split [OF _ kp, of 5] o(2) by simp
      with True \<open>m\<close> show ?thesis
        using nth [OF q] bucket_upd o(7) [OF i] by (simp add: role_ver_def)
    next
      case False
      then show ?thesis using nth [OF q] o(7) [OF i] by simp
    qed
    fix x assume "ld = 0" "x \<in> set (sg' ! main_pos s i)"
    then show "migVersion x = 0"
      using nth [OF q] upd_set [of x] o(9) [OF \<open>ld = 0\<close> i] y(2)
        main_pos_not_shared [OF o(1) i, of "top_bits k (ld + 4) mod 16"]
      by (cases m) (auto simp: role_pos_def role_ver_def live_def shared_version_1 split: if_splits)
  next
    fix k' assume "top_bits k' ld = pre"
    then show "length (occ ld s sg' k') \<le> 1" unfolding occ' using o(8) by simp
  qed
qed

end
