(* ===== verification/Wrert_Split.thy ===== *)
theory Wrert_Split
  imports Wrert_Segment
begin

text \<open>
  Splitting a segment: each half of its live slots ends up in one segment of the next depth,
  in place or moved, and no lookup changes its answer.
\<close>

subsection \<open>The migration loops place a list of slots\<close>

definition new_ver :: "nat \<Rightarrow> 'v slot \<Rightarrow> 'v slot" where
  "new_ver nd x = x\<lparr>migVersion := main_version nd\<rparr>"

lemma new_ver_simps [simp]:
  "subKey (new_ver nd x) = subKey x" "validFlag (new_ver nd x) = validFlag x"
  "nodeFlag (new_ver nd x) = nodeFlag x" "slot_value (new_ver nd x) = slot_value x"
  "migVersion (new_ver nd x) = main_version nd"
  by (simp_all add: new_ver_def)

fun place_all :: "nat \<Rightarrow> nat \<Rightarrow> 'v slot list \<Rightarrow> nat list \<times> 'v segment \<Rightarrow> (nat list \<times> 'v segment) res" where
  "place_all nd off [] st = Inr st"
| "place_all nd off (x # xs) (cnt, sg) =
     (let i = main_bucket_index (subKey x) nd; j = cnt ! i
      in if nd > 27 then Inl BadShift else if j \<ge> 16 then Inl OutOfBounds
         else place_all nd off xs (cnt[i := Suc j], set_slot sg (calcBucketPosition off i) j (new_ver nd x)))"

lemma mig_slots_place:
  "mig_slots sel (shared_version d) nd off b st =
     place_all nd off (filter (\<lambda>x. sel (subKey x)) (takeWhile (live d) b)) st"
proof (induction b arbitrary: st)
  case Nil
  then show ?case by simp
next
  case (Cons x b)
  then show ?case by (cases st) (simp add: live_def Let_def new_ver_def)
qed

lemma place_all_append:
  "place_all nd off (xs @ ys) st =
     (case place_all nd off xs st of Inl e \<Rightarrow> Inl e | Inr st' \<Rightarrow> place_all nd off ys st')"
proof (induction xs arbitrary: st)
  case Nil
  then show ?case by simp
next
  case (Cons x xs)
  then show ?case by (cases st) (simp add: Let_def)
qed

lemma mig_buckets_place:
  "mig_buckets sel (shared_version d) nd off bs st =
     place_all nd off (filter (\<lambda>x. sel (subKey x)) (concat (map (takeWhile (live d)) bs))) st"
  by (induction bs arbitrary: st) (auto simp: mig_slots_place place_all_append split: sum.splits)

definition goes_to :: "nat \<Rightarrow> nat \<Rightarrow> 'v slot \<Rightarrow> bool" where
  "goes_to nd i x \<longleftrightarrow> main_bucket_index (subKey x) nd = i"

lemma main_bucket_index_less: "main_bucket_index k ld < 32"
  using mod_less_divisor [of 32] by (simp add: main_bucket_index_def unat_drop_bit_mask)

text \<open>
  What the loops leave behind: bucket \<open>i\<close> holds, from the counter on, the slots that go to
  it in their order, and then what was there; the window is not touched.
\<close>

lemma place_all_spec:
  assumes "nd \<le> 27" "off \<in> {0, 16, 32}" "length cnt = 32" "length sg = 48"
    "\<And>p. p < 48 \<Longrightarrow> length (sg ! p) = 16"
    "\<And>i. i < 32 \<Longrightarrow> cnt ! i + length (filter (goes_to nd i) xs) \<le> 16"
  shows "\<exists>cnt' sg'. place_all nd off xs (cnt, sg) = Inr (cnt', sg') \<and> length sg' = 48 \<and>
    (\<forall>b<16. sg' ! (off + b) = sg ! (off + b)) \<and>
    (\<forall>i<32. sg' ! main_pos off i =
       take (cnt ! i) (sg ! main_pos off i) @ map (new_ver nd) (filter (goes_to nd i) xs) @
       drop (cnt ! i + length (filter (goes_to nd i) xs)) (sg ! main_pos off i))"
  using assms(3-)
proof (induction xs arbitrary: cnt sg)
  case Nil
  then show ?case by simp
next
  case (Cons x xs)
  let ?i = "main_bucket_index (subKey x) nd"
  let ?j = "cnt ! ?i" and ?p = "main_pos off ?i"
  let ?cnt = "cnt[?i := Suc ?j]" and ?sg = "set_slot sg ?p ?j (new_ver nd x)"
  have i: "?i < 32" by (rule main_bucket_index_less)
  have p: "?p < 48" by (rule main_pos_less)
  have pe: "calcBucketPosition off ?i = ?p" by (rule calcBucketPosition_eq [OF assms(2) i])
  have j: "?j < 16" using Cons.prems(4) [OF i] by (simp add: goes_to_def)
  have nth: "?sg ! q = (if q = ?p then (sg ! ?p)[?j := new_ver nd x] else sg ! q)" if "q < 48" for q
    by (rule set_slot_nth [OF Cons.prems(2) p that])
  have l: "length ?cnt = 32" "length ?sg = 48" using Cons.prems by (simp_all add: set_slot_def)
  have lb: "length (?sg ! q) = 16" if "q < 48" for q using nth [OF that] Cons.prems(3) that p by simp
  have cn: "?cnt ! i' + length (filter (goes_to nd i') xs) \<le> 16" if "i' < 32" for i'
  proof -
    have "goes_to nd i' x \<longleftrightarrow> i' = ?i" by (auto simp: goes_to_def)
    then show ?thesis using Cons.prems(1) Cons.prems(4) [OF that] that by (cases "i' = ?i") simp_all
  qed
  from Cons.IH [OF l lb cn] obtain cnt' sg' where
    r: "place_all nd off xs (?cnt, ?sg) = Inr (cnt', sg')" "length sg' = 48"
    and sh: "\<forall>b<16. sg' ! (off + b) = ?sg ! (off + b)"
    and mn: "\<forall>i'<32. sg' ! main_pos off i' =
       take (?cnt ! i') (?sg ! main_pos off i') @ map (new_ver nd) (filter (goes_to nd i') xs) @
       drop (?cnt ! i' + length (filter (goes_to nd i') xs)) (?sg ! main_pos off i')" by blast
  have "place_all nd off (x # xs) (cnt, sg) = Inr (cnt', sg')"
    using r(1) j assms(1) by (simp add: Let_def pe)
  moreover have "sg' ! (off + b) = sg ! (off + b)" if b: "b < 16" for b
  proof -
    have "off + b < 48" using assms(2) b by auto
    moreover have "off + b \<noteq> ?p" using main_pos_not_shared [OF assms(2) i b] by simp
    ultimately show ?thesis using sh b nth by simp
  qed
  moreover have "sg' ! main_pos off i' =
       take (cnt ! i') (sg ! main_pos off i') @ map (new_ver nd) (filter (goes_to nd i') (x # xs)) @
       drop (cnt ! i' + length (filter (goes_to nd i') (x # xs))) (sg ! main_pos off i')"
    if i': "i' < 32" for i'
  proof (cases "i' = ?i")
    case False
    then have "main_pos off i' \<noteq> ?p" using main_pos_inj [OF assms(2) i' i] by blast
    moreover have "\<not> goes_to nd i' x" using False by (simp add: goes_to_def)
    ultimately show ?thesis using mn i' False nth [OF main_pos_less] by simp
  next
    case True
    let ?b = "sg ! ?p" and ?f = "filter (goes_to nd ?i) xs"
    have g: "goes_to nd ?i x" by (simp add: goes_to_def)
    have lb: "length ?b = 16" using Cons.prems(3) [OF p] .
    have c: "?cnt ! ?i = Suc ?j" using Cons.prems(1) i by simp
    have "sg' ! ?p = take (Suc ?j) (?b[?j := new_ver nd x]) @ map (new_ver nd) ?f @
        drop (Suc ?j + length ?f) (?b[?j := new_ver nd x])"
      using mn i nth [OF p] c by simp
    also have "take (Suc ?j) (?b[?j := new_ver nd x]) = take ?j ?b @ [new_ver nd x]"
      using j lb by (simp add: take_Suc_conv_app_nth)
    also have "drop (Suc ?j + length ?f) (?b[?j := new_ver nd x]) = drop (Suc ?j + length ?f) ?b"
      by simp
    finally show ?thesis unfolding True using g by simp
  qed
  ultimately show ?case using r(2) by blast
qed

subsection \<open>One half of a split\<close>

lemma filter_concat_one:
  "i < length xss \<Longrightarrow> (\<And>j. j < length xss \<Longrightarrow> j \<noteq> i \<Longrightarrow> filter P (xss ! j) = []) \<Longrightarrow>
   filter P (concat xss) = filter P (xss ! i)"
proof (induction xss arbitrary: i)
  case (Cons x xss)
  show ?case
  proof (cases i)
    case 0
    have "filter P y = []" if "y \<in> set xss" for y
      using Cons.prems(2) [of "Suc _"] 0 that by (metis Suc_less_eq in_set_conv_nth length_Cons nat.discI nth_Cons_Suc)
    then have "filter P (concat xss) = []" by (auto simp: filter_empty_conv)
    with 0 show ?thesis by simp
  next
    case (Suc i')
    have "filter P x = []" using Cons.prems(2) [of 0] Suc by simp
    moreover have "filter P (concat xss) = filter P (xss ! i')"
      using Cons.prems Suc by (intro Cons.IH) force+
    ultimately show ?thesis using Suc by simp
  qed
qed simp

text \<open>The bits of a sub-key in one half of its old shared bucket.\<close>

lemma half_bits:
  assumes "ld \<le> 26" "top_bits k (ld + 4) = pre * 16 + (8 * h + b)" "b < 8" "h < 2"
  shows "top_bits k (ld + 6) mod 32 div 4 = b" "top_bits k (Suc ld) = 2 * pre + h"
    "top_bits k (ld + 6) = (2 * pre + h) * 32 + top_bits k (ld + 6) mod 32"
proof -
  have 6: "top_bits k (ld + 4) = top_bits k (ld + 6) div 4" 
  proof -
    have "ld + 4 + 2 = ld + 6" "ld + 4 + 2 \<le> 32" "(2::nat) ^ 2 = 4" using assms(1) by simp_all
    with top_bits_add [of "ld + 4" 2 k] show ?thesis by metis
  qed
  have 1: "top_bits k (Suc ld) = top_bits k (ld + 4) div 8" 
  proof -
    have "Suc ld + 3 = ld + 4" "Suc ld + 3 \<le> 32" "(2::nat) ^ 3 = 8" using assms(1) by simp_all
    with top_bits_add [of "Suc ld" 3 k] show ?thesis by metis
  qed
  show "top_bits k (Suc ld) = 2 * pre + h" unfolding 1 assms(2) using assms(3,4) by simp
  have "top_bits k (ld + 6) = 4 * (pre * 16 + (8 * h + b)) + top_bits k (ld + 6) mod 4"
    using 6 assms(2) by (metis mult.commute div_mult_mod_eq)
  moreover define r where "r = top_bits k (ld + 6) mod 4"
  moreover have "r < 4" by (simp add: r_def)
  ultimately have t: "top_bits k (ld + 6) = (2 * pre + h) * 32 + (4 * b + r)" "4 * b + r < 32"
    using assms(3) by simp_all
  then have m: "top_bits k (ld + 6) mod 32 = 4 * b + r" by (metis mod_less mod_mult_self3)
  show "top_bits k (ld + 6) mod 32 div 4 = b" unfolding m using \<open>r < 4\<close> by simp
  show "top_bits k (ld + 6) = (2 * pre + h) * 32 + top_bits k (ld + 6) mod 32" unfolding m by (rule t(1))
qed

lemma take_drop_map_nth: "a + n \<le> length xs \<Longrightarrow> take n (drop a xs) = map (\<lambda>b. xs ! (a + b)) [0..<n]"
  by (rule nth_equalityI) simp_all

lemma filter_map_new_ver:
  "filter (\<lambda>x. P (subKey x)) (map (new_ver nd) xs) = map (new_ver nd) (filter (\<lambda>x. P (subKey x)) xs)"
  by (simp add: filter_map o_def)

lemma not_live_above: "slot_ok D ld x \<Longrightarrow> ld \<le> 200 \<Longrightarrow> \<not> live (Suc (Suc ld)) x"
  by (auto simp: slot_ok_def live_def shared_version_inj split: if_splits)

lemma slot_ok_Suc: "slot_ok D ld x \<Longrightarrow> slot_ok D (Suc ld) x"
  by (auto simp: slot_ok_def split: if_splits intro: le_SucI)

text \<open>The slots that move to main bucket \<open>i\<close> of half \<open>h\<close> come from one shared bucket.\<close>

lemma moved_slots:
  assumes ok: "seg_ok D ld s pre sg" and ld: "ld \<le> 22" and h: "h < 2" and i: "i < 32"
    and sel: "\<And>k. top_bits k (Suc ld) = 2 * pre + h \<Longrightarrow> sel k"
  defines "b \<equiv> sg ! (s + (8 * h + i div 4))"
  shows "filter (goes_to (Suc ld) i) (filter (\<lambda>x. sel (subKey x))
      (concat (map (takeWhile (live ld)) (take 8 (drop (s + 8 * h) sg))))) = filter (goes_to (Suc ld) i) (filter (live ld) b)"
    and "\<And>x. x \<in> set (filter (goes_to (Suc ld) i) (filter (live ld) b)) \<Longrightarrow>
      slot_ok D ld x \<and> top_bits (subKey x) (ld + 6) = (2 * pre + h) * 32 + i"
    and "length (filter (goes_to (Suc ld) i) (filter (live ld) b)) \<le> 16"
proof -
  note o = seg_okD [OF ok]
  let ?f = "\<lambda>b. sg ! (s + (8 * h + b))"
  have pos: "s + (8 * h + b) < 48" if "b < 8" for b using o(1) h that by auto
  have bok: "bucket_ok ld (\<lambda>k. top_bits k (ld + 4) = pre * 16 + (8 * h + b)) (?f b)" if "b < 8" for b
    using o(6) [of "8 * h + b"] h that by simp
  have idx: "main_bucket_index k (Suc ld) = top_bits k (ld + 6) mod 32" for k
    using main_bucket_index_eq [of "Suc ld" k] ld by (simp add: add.commute)
  have bits: "top_bits (subKey x) (ld + 4) = pre * 16 + (8 * h + b)"
    if "b < 8" "x \<in> set (takeWhile (live ld) (?f b))" for b x
    using bok [OF that(1)] set_takeWhileD [OF that(2)] by (simp add: bucket_ok_def)
  have ld26: "ld \<le> 26" using ld by simp
  have selx: "sel (subKey x)" if "b < 8" "x \<in> set (takeWhile (live ld) (?f b))" for b x
    using half_bits(2) [OF ld26 bits [OF that] that(1) h] sel by blast
  have "s + 8 * h + 8 \<le> length sg" using o(1,3) h by auto
  then have "map (takeWhile (live ld)) (take 8 (drop (s + 8 * h) sg)) = map (\<lambda>b. takeWhile (live ld) (?f b)) [0..<8]"
    by (simp add: take_drop_map_nth add.assoc)
  moreover have "filter (\<lambda>x. sel (subKey x)) (concat (map (\<lambda>b. takeWhile (live ld) (?f b)) [0..<8])) =
      concat (map (\<lambda>b. takeWhile (live ld) (?f b)) [0..<8])"
    using selx by (intro filter_True) auto
  moreover have "filter (goes_to (Suc ld) i) (concat (map (\<lambda>b. takeWhile (live ld) (?f b)) [0..<8])) =
      filter (goes_to (Suc ld) i) (map (\<lambda>b. takeWhile (live ld) (?f b)) [0..<8] ! (i div 4))"
  proof (rule filter_concat_one)
    show "i div 4 < length (map (\<lambda>b. takeWhile (live ld) (?f b)) [0..<8])" using i by simp
    fix j assume "j < length (map (\<lambda>b. takeWhile (live ld) (?f b)) [0..<8])" "j \<noteq> i div 4"
    then have j: "j < 8" "j \<noteq> i div 4" by simp_all
    have "\<not> goes_to (Suc ld) i x" if x: "x \<in> set (takeWhile (live ld) (?f j))" for x
      using half_bits(1) [OF ld26 bits [OF j(1) x] j(1) h] j(2) unfolding goes_to_def idx by auto
    then show "filter (goes_to (Suc ld) i) (map (\<lambda>b. takeWhile (live ld) (?f b)) [0..<8] ! j) = []"
      using j(1) by (simp add: filter_empty_conv)
  qed
  moreover have i8: "i div 4 < 8" using i by simp
  moreover have tw: "takeWhile (live ld) (?f (i div 4)) = filter (live ld) b"
    using bok [OF i8] by (simp add: b_def bucket_ok_def)
  ultimately show "filter (goes_to (Suc ld) i) (filter (\<lambda>x. sel (subKey x))
      (concat (map (takeWhile (live ld)) (take 8 (drop (s + 8 * h) sg))))) = filter (goes_to (Suc ld) i) (filter (live ld) b)"
    by simp
  show "slot_ok D ld x \<and> top_bits (subKey x) (ld + 6) = (2 * pre + h) * 32 + i"
    if x: "x \<in> set (filter (goes_to (Suc ld) i) (filter (live ld) b))" for x
  proof
    show "slot_ok D ld x" using x o(5) [OF pos [OF i8]] by (auto simp: b_def)
    have "x \<in> set (takeWhile (live ld) (?f (i div 4)))" using x unfolding tw by auto
    from half_bits(3) [OF ld26 bits [OF i8 this] i8 h] x
    show "top_bits (subKey x) (ld + 6) = (2 * pre + h) * 32 + i" by (auto simp: goes_to_def idx)
  qed
  have "length (filter (goes_to (Suc ld) i) (filter (live ld) b)) \<le> length b"
    by (metis length_filter_le order_trans)
  then show "length (filter (goes_to (Suc ld) i) (filter (live ld) b)) \<le> 16"
    using o(4) [OF pos [OF i8]] by (simp add: b_def)
qed

text \<open>The bucket of a half: moved slots in front, dead slots behind.\<close>

lemma moved_bucket_ok:
  assumes x: "\<And>x. x \<in> set xs \<Longrightarrow> slot_ok D ld x \<and> validFlag x \<and> Q (subKey x)"
    and r: "\<And>x. x \<in> set r \<Longrightarrow> slot_ok D ld x" and ld: "ld \<le> 22"
  shows "bucket_ok (Suc (Suc ld)) Q (map (new_ver (Suc ld)) xs @ r)"
    "\<And>y. y \<in> set (map (new_ver (Suc ld)) xs @ r) \<Longrightarrow> slot_ok D (Suc ld) y"
    "hits (Suc (Suc ld)) k (map (new_ver (Suc ld)) xs @ r) =
      map (new_ver (Suc ld)) (filter (\<lambda>x. subKey x = k) xs)"
proof -
  have l: "live (Suc (Suc ld)) (new_ver (Suc ld) x)" if "x \<in> set xs" for x
    using x [OF that] by (simp add: live_def main_version_eq)
  have d: "\<not> live (Suc (Suc ld)) x" if "x \<in> set r" for x
    using not_live_above [OF r [OF that]] ld by simp
  have "filter (live (Suc (Suc ld))) r = []" "takeWhile (live (Suc (Suc ld))) r = []"
    using d by (auto simp: filter_empty_conv takeWhile_eq_Nil_iff)
  moreover have "filter (live (Suc (Suc ld))) (map (new_ver (Suc ld)) xs) = map (new_ver (Suc ld)) xs"
    using l by (intro filter_True) auto
  moreover have "takeWhile (live (Suc (Suc ld))) (map (new_ver (Suc ld)) xs @ r) =
      map (new_ver (Suc ld)) xs @ takeWhile (live (Suc (Suc ld))) r"
    using l by (intro takeWhile_append2) auto
  ultimately show "bucket_ok (Suc (Suc ld)) Q (map (new_ver (Suc ld)) xs @ r)"
    unfolding bucket_ok_def using x d by auto
  show "slot_ok D (Suc ld) y" if y: "y \<in> set (map (new_ver (Suc ld)) xs @ r)" for y
  proof (cases "y \<in> set r")
    case True
    then show ?thesis by (intro slot_ok_Suc r)
  next
    case False
    with y obtain z where "z \<in> set xs" "y = new_ver (Suc ld) z" by auto
    with x [of z] show ?thesis by (auto simp: slot_ok_def main_version_eq)
  qed
  have "filter (\<lambda>y. live (Suc (Suc ld)) y \<and> subKey y = k) r = []" using d by (auto simp: filter_empty_conv)
  moreover have "filter (\<lambda>y. live (Suc (Suc ld)) y \<and> subKey y = k) (map (new_ver (Suc ld)) xs) =
      map (new_ver (Suc ld)) (filter (\<lambda>x. subKey x = k) xs)"
    unfolding filter_map o_def using l by (intro arg_cong [where f = "map _"] filter_cong) auto
  ultimately show "hits (Suc (Suc ld)) k (map (new_ver (Suc ld)) xs @ r) =
      map (new_ver (Suc ld)) (filter (\<lambda>x. subKey x = k) xs)"
    by (simp add: hits_def)
qed

lemma half_ok:
  assumes ok: "seg_ok D ld s pre sg" and ld: "ld \<le> 22" and h: "h < 2"
    and sel: "\<And>k. top_bits k (Suc ld) = 2 * pre + h \<Longrightarrow> sel k"
    and off: "off \<in> {0, 16, 32}" and tg: "length tg = 48" "\<And>p. p < 48 \<Longrightarrow> length (tg ! p) = 16"
    "\<And>p x. p < 48 \<Longrightarrow> x \<in> set (tg ! p) \<Longrightarrow> slot_ok D ld x"
    and sh: "\<And>b. b < 16 \<Longrightarrow> tg ! (off + b) = sg ! main_pos s (16 * h + b)"
  shows "\<exists>cnt' sg'. mig_buckets sel (shared_version ld) (ld + 1) off (take 8 (drop (s + 8 * h) sg))
        (replicate 32 0, tg) = Inr (cnt', sg') \<and>
      seg_ok D (Suc ld) off (2 * pre + h) sg' \<and>
      (\<forall>k. top_bits k (Suc ld) = 2 * pre + h \<longrightarrow> occ (Suc ld) off sg' k =
         hits (Suc ld) k (mbucket ld s sg k) @ map (new_ver (Suc ld)) (hits ld k (sbucket ld s sg k)))"
proof -
  note o = seg_okD [OF ok]
  let ?xs = "filter (\<lambda>x. sel (subKey x)) (concat (map (takeWhile (live ld)) (take 8 (drop (s + 8 * h) sg))))"
  let ?m = "\<lambda>i. filter (goes_to (Suc ld) i) (filter (live ld) (sg ! (s + (8 * h + i div 4))))"
  have e0: "Suc ld + 5 = ld + 6" by simp
  have xs: "filter (goes_to (Suc ld) i) ?xs = ?m i" if "i < 32" for i
    using moved_slots(1) [OF ok ld h that, of sel] sel by blast
  have mv2: "slot_ok D ld x \<and> top_bits (subKey x) (ld + 6) = (2 * pre + h) * 32 + i"
    if "i < 32" "x \<in> set (?m i)" for i x
    using moved_slots(2) [OF ok ld h that(1), of sel x] sel that(2) by blast
  have lm: "length (?m i) \<le> 16" if "i < 32" for i
    using moved_slots(3) [OF ok ld h that, of sel] sel by blast
  have "Suc ld \<le> 27" using ld by simp
  moreover have "replicate 32 (0::nat) ! i + length (filter (goes_to (Suc ld) i) ?xs) \<le> 16" if "i < 32" for i
    using lm [OF that] xs [OF that] that by simp
  ultimately obtain cnt' sg' where
    r: "place_all (Suc ld) off ?xs (replicate 32 0, tg) = Inr (cnt', sg')" and l': "length sg' = 48"
    and s': "\<forall>b<16. sg' ! (off + b) = tg ! (off + b)"
    and m0: "\<forall>i<32. sg' ! main_pos off i =
       take (replicate 32 0 ! i) (tg ! main_pos off i) @ map (new_ver (Suc ld)) (filter (goes_to (Suc ld) i) ?xs) @
       drop (replicate 32 0 ! i + length (filter (goes_to (Suc ld) i) ?xs)) (tg ! main_pos off i)"
    using place_all_spec [OF _ off _ tg(1,2), of "Suc ld" "replicate 32 0" ?xs] by auto
  define rest where "rest i = drop (length (?m i)) (tg ! main_pos off i)" for i
  have m': "sg' ! main_pos off i = map (new_ver (Suc ld)) (?m i) @ rest i" if i: "i < 32" for i
    using m0 [rule_format, OF i] xs [OF i] i by (simp add: rest_def)
  have mx: "slot_ok D ld x \<and> validFlag x \<and> top_bits (subKey x) (Suc ld + 5) = (2 * pre + h) * 32 + i"
    if i: "i < 32" and x: "x \<in> set (?m i)" for i x
    using mv2 [OF i x] x unfolding e0 by (auto simp: live_def)
  have rx: "slot_ok D ld x" if "i < 32" "x \<in> set (rest i)" for i x
    using tg(3) [OF main_pos_less in_set_dropD [OF that(2) [unfolded rest_def]]] .
  have mb1: "bucket_ok (Suc (Suc ld)) (\<lambda>k. top_bits k (Suc ld + 5) = (2 * pre + h) * 32 + i) (map (new_ver (Suc ld)) (?m i) @ rest i)"
    and mb2: "\<And>y. y \<in> set (map (new_ver (Suc ld)) (?m i) @ rest i) \<Longrightarrow> slot_ok D (Suc ld) y"
    and mb3: "\<And>k. hits (Suc (Suc ld)) k (map (new_ver (Suc ld)) (?m i) @ rest i) =
      map (new_ver (Suc ld)) (filter (\<lambda>x. subKey x = k) (?m i))"
    if i: "i < 32" for i
  proof -
    note b = moved_bucket_ok [where xs = "?m i" and r = "rest i" and D = D and ld = ld
      and Q = "\<lambda>k. top_bits k (Suc ld + 5) = (2 * pre + h) * 32 + i"]
    show "bucket_ok (Suc (Suc ld)) (\<lambda>k. top_bits k (Suc ld + 5) = (2 * pre + h) * 32 + i) (map (new_ver (Suc ld)) (?m i) @ rest i)"
      by (rule b(1)) (use mx [OF i] rx [OF i] ld in blast)+
    show "slot_ok D (Suc ld) y" if "y \<in> set (map (new_ver (Suc ld)) (?m i) @ rest i)" for y
      by (rule b(2) [OF _ _ _ that]) (use mx [OF i] rx [OF i] ld in blast)+
    show "hits (Suc (Suc ld)) k (map (new_ver (Suc ld)) (?m i) @ rest i) =
        map (new_ver (Suc ld)) (filter (\<lambda>x. subKey x = k) (?m i))" for k
      by (rule b(3)) (use mx [OF i] rx [OF i] ld in blast)+
  qed
  have pos: "off + b < 48" if "b < 16" for b using off that by auto
  have sh': "sg' ! (off + b) = sg ! main_pos s (16 * h + b)" if "b < 16" for b
    using s' sh that by simp
  have h16: "16 * h + b < 32" if "b < 16" for b using h that by simp
  have e: "Suc ld + 4 = ld + 5" "Suc ld + 5 = ld + 6" by simp_all
  have hit: "occ (Suc ld) off sg' k =
      hits (Suc ld) k (mbucket ld s sg k) @ map (new_ver (Suc ld)) (hits ld k (sbucket ld s sg k))"
    if k: "top_bits k (Suc ld) = 2 * pre + h" for k
  proof -
    have t5: "top_bits k (ld + 5) = (2 * pre + h) * 16 + top_bits k (ld + 5) mod 16"
      using top_bits_split [OF _ k, of 4, unfolded e] ld by simp
    then have "top_bits k (ld + 5) = pre * 32 + (16 * h + top_bits k (ld + 5) mod 16)" by simp
    moreover have "16 * h + top_bits k (ld + 5) mod 16 < 32" by (rule h16) simp
    ultimately have m5: "top_bits k (ld + 5) mod 32 = 16 * h + top_bits k (ld + 5) mod 16"
      by (metis mod_less mod_mult_self3)
    have 3: "top_bits k (Suc ld) = top_bits k (ld + 4) div 8"
    proof -
      have "Suc ld + 3 = ld + 4" "Suc ld + 3 \<le> 32" "(2::nat) ^ 3 = 8" using ld by simp_all
      with top_bits_add [of "Suc ld" 3 k] show ?thesis by metis
    qed
    define b where "b = top_bits k (ld + 4) mod 8"
    have b: "b < 8" by (simp add: b_def)
    have "top_bits k (ld + 4) = 8 * top_bits k (Suc ld) + b"
      unfolding 3 b_def by (metis mult.commute div_mult_mod_eq)
    then have t4': "top_bits k (ld + 4) = pre * 16 + (8 * h + b)" unfolding k by simp
    have "8 * h + b < 16" using h b by simp
    then have m4: "top_bits k (ld + 4) mod 16 = 8 * h + b" unfolding t4' by (metis mod_less mod_mult_self3)
    have ld26: "ld \<le> 26" using ld by simp
    note hb = half_bits [OF ld26 t4' b h]
    let ?i = "top_bits k (ld + 6) mod 32"
    have i: "?i < 32" by simp
    have idx: "main_bucket_index k (Suc ld) = ?i"
      using main_bucket_index_eq [of "Suc ld" k, unfolded e] ld by simp
    have "hits (Suc ld) k (sg' ! (off + top_bits k (Suc ld + 4) mod 16)) = hits (Suc ld) k (mbucket ld s sg k)"
      using sh' [of "top_bits k (ld + 5) mod 16"] unfolding e by (simp add: mbucket_def m5)
    moreover have "hits (Suc (Suc ld)) k (sg' ! main_pos off (top_bits k (Suc ld + 5) mod 32)) =
        map (new_ver (Suc ld)) (hits ld k (sbucket ld s sg k))"
    proof -
      have "hits (Suc (Suc ld)) k (sg' ! main_pos off ?i) = map (new_ver (Suc ld)) (filter (\<lambda>x. subKey x = k) (?m ?i))"
        unfolding m' [OF i] by (rule mb3 [OF i])
      also have "filter (\<lambda>x. subKey x = k) (?m ?i) = hits ld k (sg ! (s + (8 * h + ?i div 4)))"
        unfolding hits_def filter_filter
        by (rule filter_cong [OF refl]) (use idx in \<open>auto simp: goes_to_def\<close>)
      also have "sg ! (s + (8 * h + ?i div 4)) = sbucket ld s sg k"
        unfolding sbucket_def m4 hb(1) ..
      finally show ?thesis unfolding e .
    qed
    ultimately show ?thesis unfolding occ_def sbucket_def mbucket_def by simp
  qed
  have pre_k: "top_bits k ld = pre" if "top_bits k (Suc ld) = 2 * pre + h" for k
    using top_bits_Suc [of ld k] ld h that by simp
  have "seg_ok D (Suc ld) off (2 * pre + h) sg'"
    unfolding seg_ok_def
  proof (intro conjI allI impI ballI)
    show "off \<in> {0, 16, 32}" "Suc ld \<le> 23" "length sg' = 48" using off ld l' by simp_all
  next
    fix p :: nat assume p: "p < 48"
    consider (shared) b where "b < 16" "p = off + b" | (main) i where "i < 32" "p = main_pos off i"
      by (rule position_cases [OF off p])
    then have "length (sg' ! p) = 16 \<and> (\<forall>x\<in>set (sg' ! p). slot_ok D (Suc ld) x)"
    proof cases
      case shared
      then show ?thesis using sh' [OF shared(1)] o(4,5) [OF main_pos_less] slot_ok_Suc by metis
    next
      case main
      have "length (sg' ! p) = 16" unfolding main(2) m' [OF main(1)]
        using lm [OF main(1)] tg(2) [OF main_pos_less] by (simp add: rest_def)
      moreover have "slot_ok D (Suc ld) x" if "x \<in> set (sg' ! p)" for x
        using that unfolding main(2) m' [OF main(1)] by (rule mb2 [OF main(1)])
      ultimately show ?thesis by blast
    qed
    then show "length (sg' ! p) = 16" and "\<And>x. x \<in> set (sg' ! p) \<Longrightarrow> slot_ok D (Suc ld) x" by blast+
  next
    fix b :: nat assume b: "b < 16"
    have "top_bits k (ld + 5) = pre * 32 + (16 * h + b) \<longleftrightarrow> top_bits k (Suc ld + 4) = (2 * pre + h) * 16 + b" for k
      unfolding e by (simp add: algebra_simps)
    then show "bucket_ok (Suc ld) (\<lambda>k. top_bits k (Suc ld + 4) = (2 * pre + h) * 16 + b) (sg' ! (off + b))"
      using o(7) [OF h16 [OF b]] sh' [OF b] by simp
    fix x assume "Suc ld = 1" "x \<in> set (sg' ! (off + b))"
    then show "migVersion x = 0" using o(9) [OF _ h16 [OF b]] sh' [OF b] by simp
  next
    fix i :: nat assume i: "i < 32"
    show "bucket_ok (Suc (Suc ld)) (\<lambda>k. top_bits k (Suc ld + 5) = (2 * pre + h) * 32 + i) (sg' ! main_pos off i)"
      unfolding m' [OF i] by (rule mb1 [OF i])
  next
    fix k assume k: "top_bits k (Suc ld) = 2 * pre + h"
    show "length (occ (Suc ld) off sg' k) \<le> 1"
      using o(8) [OF pre_k [OF k]] unfolding hit [OF k] by (simp add: occ_def)
  qed simp
  with r hit show ?thesis by (auto simp: mig_buckets_place)
qed

subsection \<open>A whole split\<close>

definition smap :: "nat \<Rightarrow> nat \<Rightarrow> 'v segment \<Rightarrow> u32 \<Rightarrow> ('v \<times> bool) option" where
  "smap ld s sg k = (case occ ld s sg k of [] \<Rightarrow> None | x # _ \<Rightarrow> Some (slot_value x, nodeFlag x))"

lemma smap_swap:
  assumes "length (xs @ ys) \<le> 1" "occ ld s sg k = xs @ ys" "occ ld' s' sg' k = ys @ map (new_ver nd) xs"
  shows "smap ld' s' sg' k = smap ld s sg k"
  using assms by (cases xs; cases ys) (simp_all add: smap_def)

lemma zero_segment_nth: "p < 48 \<Longrightarrow> NewWRERTSegment z ! p = replicate 16 (zero_slot z)"
  by (simp add: NewWRERTSegment_def)

lemma zero_slot_ok: "slot_ok D ld (zero_slot z)"
  by (simp add: slot_ok_def zero_slot_def)

lemma split_segment_ok:
  assumes ok: "seg_ok D ld s pre sg" and ld: "ld \<le> 22" and off: "new_off \<in> {0, 16, 32}"
    and hi: "\<And>k. top_bits k (Suc ld) = 2 * pre + 1 \<Longrightarrow> hi k"
    and lo: "\<And>k. top_bits k (Suc ld) = 2 * pre \<Longrightarrow> lo k"
  shows "\<exists>new old. split_segment z hi lo ld s new_off sg = Inr (new, old) \<and>
    seg_ok D (Suc ld) new_off (2 * pre + 1) new \<and> seg_ok D (Suc ld) ((s + 16) mod 48) (2 * pre) old \<and>
    (\<forall>k. top_bits k (Suc ld) = 2 * pre + 1 \<longrightarrow> smap (Suc ld) new_off new k = smap ld s sg k) \<and>
    (\<forall>k. top_bits k (Suc ld) = 2 * pre \<longrightarrow> smap (Suc ld) ((s + 16) mod 48) old k = smap ld s sg k)"
proof -
  note o = seg_okD [OF ok]
  define ms where "ms = ((s + 16) mod 48 + ((s + 8) mod 16) * 2) mod 48"
  define Z where "Z = NewWRERTSegment z"
  define new0 where "new0 = take new_off Z @ take 16 (drop ms sg) @ drop (new_off + 16) Z"
  have ms: "ms \<in> {0, 16, 32}" "ms + b = main_pos s (16 + b)" if "b < 16" for b
    using o(1) that by (auto simp: ms_def main_pos_if)
  have ms48: "ms + 16 \<le> 48" using ms(1) [of 0] by auto
  have lZ: "length Z = 48" by (simp add: Z_def NewWRERTSegment_def)
  have l0: "length new0 = 48" using off lZ o(3) ms48 by (auto simp: new0_def)
  have new0_nth: "new0 ! p = (if new_off \<le> p \<and> p < new_off + 16 then sg ! (ms + (p - new_off)) else Z ! p)"
    if "p < 48" for p
    using that off lZ o(3) ms48 by (auto simp: new0_def nth_append)
  have src: "\<exists>q<48. new0 ! p = sg ! q \<or> new0 ! p = replicate 16 (zero_slot z)" if p: "p < 48" for p
  proof (cases "new_off \<le> p \<and> p < new_off + 16")
    case True
    then have "p - new_off < 16" by auto
    then have "ms + (p - new_off) < 48" using ms48 by linarith
    with True show ?thesis using new0_nth [OF p] by auto
  next
    case False
    then have "new0 ! p = Z ! p" unfolding new0_nth [OF p] by (rule if_not_P)
    then have "new0 ! p = replicate 16 (zero_slot z)" using zero_segment_nth [OF p] by (simp add: Z_def)
    then show ?thesis by (intro exI [of _ 0]) simp
  qed
  have new0_len: "length (new0 ! p) = 16" if "p < 48" for p
    using src [OF that] o(4) by auto
  have new0_slots: "slot_ok D ld x" if "p < 48" "x \<in> set (new0 ! p)" for p x
    using src [OF that(1)] that(2) o(5) zero_slot_ok by auto
  have sh_new: "new0 ! (new_off + b) = sg ! main_pos s (16 * 1 + b)" if "b < 16" for b
  proof -
    have "new_off + b < 48" using off that by auto
    then show ?thesis using new0_nth ms(2) [OF that] that by simp
  qed
  have sh_old: "sg ! ((s + 16) mod 48 + b) = sg ! main_pos s (16 * 0 + b)" if "b < 16" for b
    using next_window(2) [OF o(1) that] by simp
  have swap: "smap (Suc ld) off' sg' k = smap ld s sg k"
    if "top_bits k (Suc ld) = 2 * pre + h" "h < 2"
      "occ (Suc ld) off' sg' k = hits (Suc ld) k (mbucket ld s sg k) @ map (new_ver (Suc ld)) (hits ld k (sbucket ld s sg k))"
    for off' sg' k h
  proof (rule smap_swap [OF _ _ that(3)])
    have "top_bits k ld = pre" using top_bits_Suc [of ld k] ld that(1,2) by simp
    from o(8) [OF this] show "length (hits ld k (sbucket ld s sg k) @ hits (Suc ld) k (mbucket ld s sg k)) \<le> 1"
      by (simp add: occ_def)
  qed (simp add: occ_def)
  have up: "\<exists>cnt' sg'. mig_buckets hi (shared_version ld) (ld + 1) new_off (take 8 (drop (s + 8 * 1) sg))
        (replicate 32 0, new0) = Inr (cnt', sg') \<and>
      seg_ok D (Suc ld) new_off (2 * pre + 1) sg' \<and>
      (\<forall>k. top_bits k (Suc ld) = 2 * pre + 1 \<longrightarrow> occ (Suc ld) new_off sg' k =
         hits (Suc ld) k (mbucket ld s sg k) @ map (new_ver (Suc ld)) (hits ld k (sbucket ld s sg k)))"
    by (rule half_ok [OF ok ld]; (assumption | rule hi off l0 new0_len new0_slots sh_new | simp))
  have down: "\<exists>cnt' sg'. mig_buckets lo (shared_version ld) (ld + 1) ((s + 16) mod 48) (take 8 (drop (s + 8 * 0) sg))
        (replicate 32 0, sg) = Inr (cnt', sg') \<and>
      seg_ok D (Suc ld) ((s + 16) mod 48) (2 * pre + 0) sg' \<and>
      (\<forall>k. top_bits k (Suc ld) = 2 * pre + 0 \<longrightarrow> occ (Suc ld) ((s + 16) mod 48) sg' k =
         hits (Suc ld) k (mbucket ld s sg k) @ map (new_ver (Suc ld)) (hits ld k (sbucket ld s sg k)))"
    by (rule half_ok [OF ok ld]; (assumption | rule o(3,4,5) next_window(1) [OF o(1)] sh_old | simp add: lo))
  from up obtain c1 new where n: "mig_buckets hi (shared_version ld) (ld + 1) new_off (take 8 (drop (s + 8 * 1) sg))
        (replicate 32 0, new0) = Inr (c1, new)" "seg_ok D (Suc ld) new_off (2 * pre + 1) new"
    and no: "\<forall>k. top_bits k (Suc ld) = 2 * pre + 1 \<longrightarrow> occ (Suc ld) new_off new k =
         hits (Suc ld) k (mbucket ld s sg k) @ map (new_ver (Suc ld)) (hits ld k (sbucket ld s sg k))" by blast
  from down obtain c2 old where m: "mig_buckets lo (shared_version ld) (ld + 1) ((s + 16) mod 48) (take 8 (drop (s + 8 * 0) sg))
        (replicate 32 0, sg) = Inr (c2, old)" "seg_ok D (Suc ld) ((s + 16) mod 48) (2 * pre + 0) old"
    and mo: "\<forall>k. top_bits k (Suc ld) = 2 * pre + 0 \<longrightarrow> occ (Suc ld) ((s + 16) mod 48) old k =
         hits (Suc ld) k (mbucket ld s sg k) @ map (new_ver (Suc ld)) (hits ld k (sbucket ld s sg k))" by blast
  have "split_segment z hi lo ld s new_off sg = Inr (new, old)"
    using n(1) m(1) unfolding split_segment_def Let_def ms_def [symmetric] Z_def [symmetric] new0_def [symmetric]
    by simp
  with n(2) m(2) no mo swap [of _ 1] swap [of _ 0] show ?thesis by simp
qed

end
