(* ===== verification/Wrert_Dir.thy ===== *)
theory Wrert_Dir
  imports Wrert_Split
begin

text \<open>
  The directory of a WRERT node: which entries share a segment, the map a node stands for,
  and the proof that splits, with or without doubling the directory, leave the map as it is.
\<close>

subsection \<open>Invariant and abstraction\<close>

definition node_ok :: "u32 set \<Rightarrow> 'v wrert_node \<Rightarrow> bool" where
  "node_ok D n \<longleftrightarrow>
     globalDepth n \<le> 23 \<and> capacity n = 2 ^ globalDepth n \<and> length (directory n) = 2 ^ globalDepth n \<and>
     (\<forall>i<2 ^ globalDepth n. let e = directory n ! i; w = 2 ^ (globalDepth n - localDepth e) in
        localDepth e \<le> globalDepth n \<and> segmentPtr e < length (segs n) \<and>
        seg_ok D (localDepth e) (window e) (i div w) (segs n ! segmentPtr e) \<and>
        (\<forall>j<2 ^ globalDepth n.
           (j div w = i div w \<longrightarrow> directory n ! j = e) \<and>
           (segmentPtr (directory n ! j) = segmentPtr e \<longrightarrow> j div w = i div w)))"

lemma node_okD:
  assumes "node_ok D n"
  shows "globalDepth n \<le> 23" "capacity n = 2 ^ globalDepth n" "length (directory n) = 2 ^ globalDepth n"
    "\<And>i. i < 2 ^ globalDepth n \<Longrightarrow> localDepth (directory n ! i) \<le> globalDepth n"
    "\<And>i. i < 2 ^ globalDepth n \<Longrightarrow> segmentPtr (directory n ! i) < length (segs n)"
    "\<And>i. i < 2 ^ globalDepth n \<Longrightarrow>
      seg_ok D (localDepth (directory n ! i)) (window (directory n ! i))
        (i div 2 ^ (globalDepth n - localDepth (directory n ! i))) (segs n ! segmentPtr (directory n ! i))"
    "\<And>i j. i < 2 ^ globalDepth n \<Longrightarrow> j < 2 ^ globalDepth n \<Longrightarrow>
      j div 2 ^ (globalDepth n - localDepth (directory n ! i)) =
      i div 2 ^ (globalDepth n - localDepth (directory n ! i)) \<Longrightarrow> directory n ! j = directory n ! i"
    "\<And>i j. i < 2 ^ globalDepth n \<Longrightarrow> j < 2 ^ globalDepth n \<Longrightarrow>
      segmentPtr (directory n ! j) = segmentPtr (directory n ! i) \<Longrightarrow>
      j div 2 ^ (globalDepth n - localDepth (directory n ! i)) =
      i div 2 ^ (globalDepth n - localDepth (directory n ! i))"
  using assms unfolding node_ok_def Let_def by blast+

lemma node_okI:
  assumes "globalDepth n \<le> 23" "capacity n = 2 ^ globalDepth n" "length (directory n) = 2 ^ globalDepth n"
    "\<And>i. i < 2 ^ globalDepth n \<Longrightarrow> localDepth (directory n ! i) \<le> globalDepth n"
    "\<And>i. i < 2 ^ globalDepth n \<Longrightarrow> segmentPtr (directory n ! i) < length (segs n)"
    "\<And>i. i < 2 ^ globalDepth n \<Longrightarrow>
      seg_ok D (localDepth (directory n ! i)) (window (directory n ! i))
        (i div 2 ^ (globalDepth n - localDepth (directory n ! i))) (segs n ! segmentPtr (directory n ! i))"
    "\<And>i j. i < 2 ^ globalDepth n \<Longrightarrow> j < 2 ^ globalDepth n \<Longrightarrow>
      j div 2 ^ (globalDepth n - localDepth (directory n ! i)) =
      i div 2 ^ (globalDepth n - localDepth (directory n ! i)) \<Longrightarrow> directory n ! j = directory n ! i"
    "\<And>i j. i < 2 ^ globalDepth n \<Longrightarrow> j < 2 ^ globalDepth n \<Longrightarrow>
      segmentPtr (directory n ! j) = segmentPtr (directory n ! i) \<Longrightarrow>
      j div 2 ^ (globalDepth n - localDepth (directory n ! i)) =
      i div 2 ^ (globalDepth n - localDepth (directory n ! i))"
  shows "node_ok D n"
  unfolding node_ok_def Let_def using assms by blast

definition entry_map :: "segment_node \<Rightarrow> 'v segment list \<Rightarrow> u32 \<Rightarrow> ('v \<times> bool) option" where
  "entry_map e ss k = smap (localDepth e) (window e) (ss ! segmentPtr e) k"

definition node_map :: "'v wrert_node \<Rightarrow> u32 \<Rightarrow> ('v \<times> bool) option" where
  "node_map n k = entry_map (segment_node_of n k) (segs n) k"

lemma segment_node_of_eq: "globalDepth n \<le> 32 \<Longrightarrow> segment_node_of n k = directory n ! top_bits k (globalDepth n)"
  by (simp add: segment_node_of_def get_segment_number_eq)

lemma top_bits_div: "m \<le> n \<Longrightarrow> n \<le> 32 \<Longrightarrow> top_bits k n div 2 ^ (n - m) = top_bits k m"
  using top_bits_add [of m "n - m" k] by simp

text \<open>The entry of a sub-key, with its segment.\<close>

lemma node_entry:
  fixes n :: "'v wrert_node" and k
  assumes "node_ok D n"
  defines "e \<equiv> segment_node_of n k" and "i \<equiv> top_bits k (globalDepth n)"
  shows "i < 2 ^ globalDepth n" "e = directory n ! i" "localDepth e \<le> globalDepth n"
    "segmentPtr e < length (segs n)" "seg_ok D (localDepth e) (window e) (top_bits k (localDepth e)) (segs n ! segmentPtr e)"
    "\<not> bad_depths n k"
proof -
  note o = node_okD [OF assms(1)]
  show i: "i < 2 ^ globalDepth n" unfolding i_def using top_bits_less [of "globalDepth n" k] o(1) by simp
  show e: "e = directory n ! i" unfolding e_def i_def using segment_node_of_eq [of n k] o(1) by simp
  show l: "localDepth e \<le> globalDepth n" unfolding e by (rule o(4) [OF i])
  show "segmentPtr e < length (segs n)" unfolding e by (rule o(5) [OF i])
  have "i div 2 ^ (globalDepth n - localDepth e) = top_bits k (localDepth e)"
    unfolding i_def using l o(1) by (intro top_bits_div) simp_all
  with o(6) [OF i] show s: "seg_ok D (localDepth e) (window e) (top_bits k (localDepth e)) (segs n ! segmentPtr e)"
    unfolding e by simp
  show "\<not> bad_depths n k" unfolding bad_depths_def using seg_okD(2) [OF s] o(1) by (simp add: e_def)
qed

lemma seg_ok_mono: "seg_ok D ld s pre sg \<Longrightarrow> D \<subseteq> D' \<Longrightarrow> seg_ok D' ld s pre sg"
  unfolding seg_ok_def using slot_ok_mono by blast

lemma occ_keys: "seg_ok D ld s pre sg \<Longrightarrow> k \<notin> D \<Longrightarrow> occ ld s sg k = []"
proof -
  assume ok: "seg_ok D ld s pre sg" and k: "k \<notin> D"
  note o = seg_okD [OF ok]
  have "hits d k (sg ! p) = []" if "p < 48" for d p
    using o(5) [OF that] k by (auto simp: hits_def filter_empty_conv live_def slot_ok_def split: if_splits)
  with shared_pos_less [OF o(1)] main_pos_less show ?thesis by (simp add: occ_def sbucket_def mbucket_def)
qed

lemma node_map_keys: "node_ok D n \<Longrightarrow> k \<notin> D \<Longrightarrow> node_map n k = None"
  using occ_keys [OF node_entry(5) [of D n k], of k] by (simp add: node_map_def entry_map_def smap_def)

subsection \<open>Replacing one segment\<close>

lemma node_update_seg:
  fixes n :: "'v wrert_node" and k
  assumes ok: "node_ok D n" and sub: "D \<subseteq> D'"
  defines "e \<equiv> segment_node_of n k"
  assumes sg: "seg_ok D' (localDepth e) (window e) (top_bits k (localDepth e)) sg'"
  defines "n' \<equiv> n\<lparr>segs := (segs n)[segmentPtr e := sg']\<rparr>"
  shows "node_ok D' n'"
    "node_map n' k' = (if segmentPtr (segment_node_of n k') = segmentPtr e
       then smap (localDepth e) (window e) sg' k' else node_map n k')"
    "segmentPtr (segment_node_of n k') = segmentPtr e \<Longrightarrow> segment_node_of n k' = e"
proof -
  note o = node_okD [OF ok]
  note ne = node_entry [OF ok, of k, folded e_def]
  let ?i = "top_bits k (globalDepth n)"
  have same: "directory n ! j = e \<and> j div 2 ^ (globalDepth n - localDepth e) = top_bits k (localDepth e)"
    if "j < 2 ^ globalDepth n" "segmentPtr (directory n ! j) = segmentPtr e" for j
  proof -
    have g: "j div 2 ^ (globalDepth n - localDepth e) = ?i div 2 ^ (globalDepth n - localDepth e)"
      using o(8) [OF ne(1) that(1)] that(2) ne(2) by simp
    moreover have "?i div 2 ^ (globalDepth n - localDepth e) = top_bits k (localDepth e)"
      using ne(3) o(1) by (intro top_bits_div) simp_all
    ultimately show ?thesis using o(7) [OF ne(1) that(1)] ne(2) by simp
  qed
  have f: "globalDepth n' = globalDepth n" "capacity n' = capacity n" "directory n' = directory n"
    "length (segs n') = length (segs n)" by (simp_all add: n'_def)
  have s: "seg_ok D' (localDepth (directory n ! i)) (window (directory n ! i))
      (i div 2 ^ (globalDepth n - localDepth (directory n ! i))) (segs n' ! segmentPtr (directory n ! i))"
    if i: "i < 2 ^ globalDepth n" for i
  proof (cases "segmentPtr (directory n ! i) = segmentPtr e")
    case True
    from same [OF i True] sg ne(4) show ?thesis by (simp add: n'_def)
  next
    case False
    then show ?thesis using seg_ok_mono [OF o(6) [OF i] sub] by (simp add: n'_def)
  qed
  show "node_ok D' n'"
    by (rule node_okI; unfold f; (rule o(1-3) | (rule o(4,5,7,8) s; assumption)))
  have e': "segment_node_of n' x = segment_node_of n x" for x
    by (simp add: n'_def segment_node_of_def)
  note ne' = node_entry [OF ok, of k']
  show eq: "segment_node_of n k' = e" if "segmentPtr (segment_node_of n k') = segmentPtr e"
    using same [OF ne'(1)] that ne'(2) by simp
  show "node_map n' k' = (if segmentPtr (segment_node_of n k') = segmentPtr e
       then smap (localDepth e) (window e) sg' k' else node_map n k')"
    unfolding node_map_def entry_map_def e' using eq ne(4) by (auto simp: n'_def)
qed

subsection \<open>Splitting a directory entry\<close>

text \<open>
  The entries of group \<open>g\<close>, those that share the segment to be split, become two groups.
\<close>

definition split_entries :: "'v wrert_node \<Rightarrow> nat \<Rightarrow> nat \<Rightarrow> segment_node \<Rightarrow> segment_node \<Rightarrow> segment_node list" where
  "split_entries n g w a b =
     map (\<lambda>i. if i div w = 2 * g then a else if i div w = 2 * g + 1 then b else directory n ! i)
       [0..<length (directory n)]"

lemma div_halves: "0 < w \<Longrightarrow> i div (2 * w) = (g :: nat) \<longleftrightarrow> i div w = 2 * g \<or> i div w = 2 * g + 1"
proof -
  assume "0 < w"
  have "i div (2 * w) = i div w div 2" by (metis div_mult2_eq mult.commute)
  then show ?thesis by auto
qed

lemma split_entry_ok:
  fixes n :: "'v wrert_node" and k :: u32
  assumes ok: "node_ok D n"
  defines "e \<equiv> segment_node_of n k"
  defines "gd \<equiv> globalDepth n" and "ld \<equiv> localDepth e" and "g \<equiv> top_bits k (localDepth e)"
  assumes lt: "ld < gd"
    and a: "localDepth a = Suc ld" "segmentPtr a = segmentPtr e"
    and b: "localDepth b = Suc ld" "segmentPtr b = length (segs n)"
    and old: "seg_ok D (Suc ld) (window a) (2 * g) old" and new: "seg_ok D (Suc ld) (window b) (2 * g + 1) new"
    and mo: "\<And>k'. top_bits k' (Suc ld) = 2 * g \<Longrightarrow> smap (Suc ld) (window a) old k' = entry_map e (segs n) k'"
    and mn: "\<And>k'. top_bits k' (Suc ld) = 2 * g + 1 \<Longrightarrow> smap (Suc ld) (window b) new k' = entry_map e (segs n) k'"
    and n': "globalDepth n' = gd" "capacity n' = 2 ^ gd"
      "directory n' = split_entries n g (2 ^ (gd - Suc ld)) a b"
      "segs n' = (segs n)[segmentPtr e := old] @ [new]"
  shows "node_ok D n'" "node_map n' = node_map n" "localDepth (segment_node_of n' k) = Suc ld"
proof -
  note o = node_okD [OF ok, folded gd_def]
  note ne = node_entry [OF ok, of k, folded e_def gd_def]
  let ?w = "2 ^ (gd - Suc ld) :: nat"
  let ?i = "top_bits k gd"
  have w2: "2 ^ (gd - ld) = 2 * ?w" using lt by (simp flip: power_Suc add: Suc_diff_Suc)
  have gk: "?i div (2 * ?w) = g"
    unfolding w2 [symmetric] g_def ld_def [symmetric] using lt o(1) by (intro top_bits_div) simp_all
  have grp: "directory n ! j = e \<longleftrightarrow> j div ?w = 2 * g \<or> j div ?w = 2 * g + 1" if j: "j < 2 ^ gd" for j
  proof -
    have "directory n ! j = e \<longleftrightarrow> j div 2 ^ (gd - ld) = ?i div 2 ^ (gd - ld)"
      using o(7) [OF ne(1) j] o(8) [OF ne(1) j] ne(2) by (auto simp: ld_def)
    also have "\<dots> \<longleftrightarrow> j div (2 * ?w) = g" unfolding w2 gk ..
    also have "\<dots> \<longleftrightarrow> j div ?w = 2 * g \<or> j div ?w = 2 * g + 1" by (rule div_halves) simp
    finally show ?thesis .
  qed
  have pgrp: "segmentPtr (directory n ! j) = segmentPtr e \<longleftrightarrow> directory n ! j = e" if j: "j < 2 ^ gd" for j
    using o(7) [OF ne(1) j] o(8) [OF ne(1) j] ne(2) by auto
  define A where "A j \<longleftrightarrow> j div ?w = 2 * g" for j
  define B where "B j \<longleftrightarrow> j div ?w = 2 * g + 1" for j
  have dir: "directory n' ! j = (if A j then a else if B j then b else directory n ! j)" if "j < 2 ^ gd" for j
    using that o(3) unfolding n'(3) split_entries_def A_def B_def by simp
  have AB: "\<not> (A j \<and> B j)" for j by (simp add: A_def B_def)
  have others: "directory n ! j \<noteq> e \<and> segmentPtr (directory n ! j) \<noteq> segmentPtr e \<and> segmentPtr (directory n ! j) < length (segs n)"
    if "j < 2 ^ gd" "\<not> A j" "\<not> B j" for j
    using grp [OF that(1)] pgrp [OF that(1)] o(5) [OF that(1)] that by (simp add: A_def B_def)
  have inAB: "directory n ! j = e" if "j < 2 ^ gd" "A j \<or> B j" for j
    using grp [OF that(1)] that by (simp add: A_def B_def)
  have lens: "length (segs n') = Suc (length (segs n))" by (simp add: n'(4))
  have wA: "gd - Suc ld = gd - localDepth a" "gd - Suc ld = gd - localDepth b" by (simp_all add: a b)
  have seg: "segs n' ! segmentPtr e = old" "segs n' ! length (segs n) = new"
    "\<And>p. p < length (segs n) \<Longrightarrow> p \<noteq> segmentPtr e \<Longrightarrow> segs n' ! p = segs n ! p"
    using ne(4) by (simp_all add: n'(4) nth_append)
  have len: "segmentPtr e \<noteq> length (segs n)" using ne(4) by simp
  have main: "let e' = directory n' ! i; v = 2 ^ (gd - localDepth e') in
      localDepth e' \<le> gd \<and> segmentPtr e' < length (segs n') \<and>
      seg_ok D (localDepth e') (window e') (i div v) (segs n' ! segmentPtr e') \<and>
      (\<forall>j<2 ^ gd. (j div v = i div v \<longrightarrow> directory n' ! j = e') \<and>
         (segmentPtr (directory n' ! j) = segmentPtr e' \<longrightarrow> j div v = i div v))"
    if i: "i < 2 ^ gd" for i
  proof -
    consider (A) "A i" | (B) "B i" | (rest) "\<not> A i" "\<not> B i" by blast
    then show ?thesis
    proof cases
      case A
      have d: "directory n' ! i = a" using dir [OF i] A by simp
      have iw: "i div ?w = 2 * g" using A by (simp add: A_def)
      have p: "directory n' ! j = a" if "j < 2 ^ gd" "j div ?w = 2 * g" for j
        using dir [OF that(1)] that(2) by (simp add: A_def)
      have q: "j div ?w = 2 * g" if j: "j < 2 ^ gd" "segmentPtr (directory n' ! j) = segmentPtr e" for j
        using dir [OF j(1)] others [OF j(1)] j(2) b len by (auto simp: A_def split: if_splits)
      show ?thesis unfolding Let_def d a b iw using lt ne(4) lens old seg(1) p q by simp
    next
      case B
      have d: "directory n' ! i = b" using dir [OF i] B AB [of i] by auto
      have iw: "i div ?w = 2 * g + 1" using B by (simp add: B_def)
      have p: "directory n' ! j = b" if "j < 2 ^ gd" "j div ?w = 2 * g + 1" for j
        using dir [OF that(1)] that(2) by (simp add: A_def B_def)
      have q: "j div ?w = 2 * g + 1" if j: "j < 2 ^ gd" "segmentPtr (directory n' ! j) = length (segs n)" for j
        using dir [OF j(1)] others [OF j(1)] j(2) a len by (auto simp: B_def split: if_splits)
      show ?thesis unfolding Let_def d a b iw using lt lens new seg(2) p q by simp
    next
      case rest
      let ?f = "directory n ! i"
      have d: "directory n' ! i = ?f" using dir [OF i] rest by simp
      have ri: "?f \<noteq> e" "segmentPtr ?f \<noteq> segmentPtr e" "segmentPtr ?f < length (segs n)"
        using others [OF i rest] by blast+
      have p: "directory n' ! j = ?f" if j: "j < 2 ^ gd" "j div 2 ^ (gd - localDepth ?f) = i div 2 ^ (gd - localDepth ?f)" for j
      proof -
        have "directory n ! j = ?f" by (rule o(7) [OF i j])
        then have "\<not> A j" "\<not> B j" using inAB [OF j(1)] ri(1) by auto
        then show ?thesis using dir [OF j(1)] \<open>directory n ! j = ?f\<close> by simp
      qed
      have q: "j div 2 ^ (gd - localDepth ?f) = i div 2 ^ (gd - localDepth ?f)"
        if j: "j < 2 ^ gd" "segmentPtr (directory n' ! j) = segmentPtr ?f" for j
      proof -
        have "\<not> A j" "\<not> B j" using dir [OF j(1)] j(2) a b ri by (auto split: if_splits)
        then have "directory n' ! j = directory n ! j" using dir [OF j(1)] by simp
        with j o(8) [OF i j(1)] show ?thesis by simp
      qed
      show ?thesis unfolding Let_def d using o(4) [OF i] ri lens o(6) [OF i] seg(3) [OF ri(3,2)] p q by simp
    qed
  qed
  show "node_ok D n'"
    unfolding node_ok_def n'(1,2) using o(1,3) main by (simp add: n'(3) split_entries_def)
  have sn': "segment_node_of n' x = directory n' ! top_bits x gd" "segment_node_of n x = directory n ! top_bits x gd" for x
    using o(1) segment_node_of_eq [of n' x] segment_node_of_eq [of n x] by (simp_all add: n'(1) gd_def [symmetric])
  have tb: "top_bits x gd < 2 ^ gd" "top_bits x gd div ?w = top_bits x (Suc ld)" for x
    using o(1) lt top_bits_less [of gd x] top_bits_div [of "Suc ld" gd x] by simp_all
  show "node_map n' = node_map n"
  proof
    fix x
    let ?x = "top_bits x gd"
    consider (A) "A ?x" | (B) "B ?x" | (rest) "\<not> A ?x" "\<not> B ?x" by blast
    then show "node_map n' x = node_map n x"
    proof cases
      case A
      then have "directory n' ! ?x = a" "directory n ! ?x = e" using dir inAB tb(1) by simp_all
      moreover have "top_bits x (Suc ld) = 2 * g" using A tb(2) by (simp add: A_def)
      ultimately show ?thesis unfolding node_map_def sn' using mo a seg(1) by (simp add: entry_map_def [of a])
    next
      case B
      then have "directory n' ! ?x = b" "directory n ! ?x = e" using dir inAB tb(1) AB by auto
      moreover have "top_bits x (Suc ld) = 2 * g + 1" using B tb(2) by (simp add: B_def)
      ultimately show ?thesis unfolding node_map_def sn' using mn b seg(2) by (simp add: entry_map_def [of b])
    next
      case rest
      have "directory n' ! ?x = directory n ! ?x" using dir [OF tb(1)] rest by simp
      then show ?thesis unfolding node_map_def sn' entry_map_def using others [OF tb(1) rest] seg(3) by simp
    qed
  qed
  have "A ?i \<or> B ?i" using gk div_halves [of ?w ?i g] by (simp add: A_def B_def)
  then show "localDepth (segment_node_of n' k) = Suc ld"
    unfolding sn' using dir [OF tb(1)] a b by auto
qed

end
