(* ===== verification/Wrert_Map.thy ===== *)
theory Wrert_Map
  imports Wrert_Dir Index
begin

text \<open>
  A WRERT node as a map: \<open>getSegNode\<close> reads it, \<open>putSegNode\<close> and \<open>put\<close> update it at one key,
  whatever splits happen on the way.
\<close>

subsection \<open>Positions of a sub-key\<close>

lemma positions:
  fixes n :: "'v wrert_node" and k
  assumes "node_ok D n"
  defines "e \<equiv> segment_node_of n k"
  shows "shared_position e k = role_pos (localDepth e) (window e) False k"
    "main_position e k = role_pos (localDepth e) (window e) True k"
proof -
  note s = node_entry(5) [OF assms(1), of k, folded e_def]
  note o = seg_okD [OF s]
  show "shared_position e k = role_pos (localDepth e) (window e) False k"
    unfolding shared_position_def role_pos_def using shared_bucket_index_eq [of "localDepth e" k] o(2) by simp
  have "main_bucket_index k (localDepth e) = top_bits k (localDepth e + 5) mod 32"
    using main_bucket_index_eq o(2) by simp
  then show "main_position e k = role_pos (localDepth e) (window e) True k"
    unfolding main_position_def role_pos_def by (simp add: calcBucketPosition_eq [OF o(1)])
qed

subsection \<open>Lookup\<close>

lemma lane_key_match: "lane (key_match (shared_version d) k) x \<longleftrightarrow> live d x \<and> subKey x = k"
  by (simp add: lane_def key_match_pack live_def conj_assoc)

lemma set_lanes: "length b = 16 \<Longrightarrow> set b = set (lanes 0 b) \<union> set (lanes 8 b)"
  using lanes_split [of b] by (metis set_append)

lemma find_key_Some:
  assumes "find_key (shared_version d) (shared_version d') k sb mb i = Some (m, j)"
    and "i \<le> 8" "length sb = 16" "length mb = 16"
  shows "j < 16" "\<not> m \<Longrightarrow> live d (sb ! j) \<and> subKey (sb ! j) = k" "m \<Longrightarrow> live d' (mb ! j) \<and> subKey (mb ! j) = k"
proof -
  have l: "q < 8 \<and> lane p (b ! (i + q))"
    if "find_index (lane p) (lanes i b) = Some q" "length b = 16" for p b q
  proof -
    have "q < 8" using find_index_SomeD [OF that(1)] that(2) assms(2) by (simp add: lanes_def)
    moreover from this have "lanes i b ! q = b ! (i + q)" using that(2) assms(2) by (simp add: lanes_def)
    ultimately show ?thesis using find_index_SomeD [OF that(1)] by simp
  qed
  consider q where "find_index (lane (key_match (shared_version d) k)) (lanes i sb) = Some q" "j = i + q" "\<not> m"
    | q where "find_index (lane (key_match (shared_version d') k)) (lanes i mb) = Some q" "j = i + q" "m"
    using assms(1) by (auto simp: find_key_def split: option.splits)
  then have "j < 16 \<and> (\<not> m \<longrightarrow> live d (sb ! j) \<and> subKey (sb ! j) = k) \<and> (m \<longrightarrow> live d' (mb ! j) \<and> subKey (mb ! j) = k)"
  proof cases
    case 1
    from l [OF 1(1) assms(3)] 1 assms(2) show ?thesis by (simp add: lane_key_match)
  next
    case 2
    from l [OF 2(1) assms(4)] 2 assms(2) show ?thesis by (simp add: lane_key_match)
  qed
  then show "j < 16" "\<not> m \<Longrightarrow> live d (sb ! j) \<and> subKey (sb ! j) = k" "m \<Longrightarrow> live d' (mb ! j) \<and> subKey (mb ! j) = k"
    by blast+
qed

lemma find_key_None:
  "find_key (shared_version d) (shared_version d') k sb mb i = None \<Longrightarrow>
   (\<forall>x\<in>set (lanes i sb). \<not> (live d x \<and> subKey x = k)) \<and> (\<forall>x\<in>set (lanes i mb). \<not> (live d' x \<and> subKey x = k))"
  by (auto simp: find_key_def lane_key_match split: option.splits)

lemma single_occ: "x \<in> set xs \<Longrightarrow> length xs \<le> 1 \<Longrightarrow> xs = [x]"
  by (cases xs) auto

lemma getSegNode_correct:
  assumes ok: "node_ok D n"
  shows "\<exists>r. getSegNode n k = Inr r \<and> map_option (\<lambda>x. (slot_value x, nodeFlag x)) r = node_map n k \<and>
    (\<forall>x. r = Some x \<longrightarrow> subKey x = k)"
proof -
  let ?e = "segment_node_of n k"
  note ne = node_entry [OF ok, of k]
  note o = seg_okD [OF ne(5)]
  note pos = positions [OF ok, of k]
  define sb where "sb = segs n ! segmentPtr ?e ! shared_position ?e k"
  define mb where "mb = segs n ! segmentPtr ?e ! main_position ?e k"
  let ?d = "localDepth ?e"
  have l: "length sb = 16" "length mb = 16"
    unfolding sb_def mb_def pos using o(4) role_pos_less [OF o(1)] by blast+
  have oc: "occ ?d (window ?e) (segs n ! segmentPtr ?e) k = hits ?d k sb @ hits (Suc ?d) k mb"
    unfolding occ_roles sb_def mb_def pos by (simp add: role_ver_def)
  have one: "length (hits ?d k sb @ hits (Suc ?d) k mb) \<le> 1" using o(8) [of k] oc by simp
  have nm: "node_map n k = (case hits ?d k sb @ hits (Suc ?d) k mb of [] \<Rightarrow> None | x # _ \<Rightarrow> Some (slot_value x, nodeFlag x))"
    unfolding node_map_def entry_map_def smap_def oc ..
  define r where "r = (case find_key (shared_version ?d) (shared_version (Suc ?d)) k sb mb 0 of
      Some p \<Rightarrow> Some p | None \<Rightarrow> find_key (shared_version ?d) (shared_version (Suc ?d)) k sb mb 8)"
  have g: "getSegNode n k = Inr (map_option (\<lambda>(m, j). (if m then mb else sb) ! j) r)"
    unfolding getSegNode_def r_def sb_def mb_def main_version_eq by (simp add: ne(6) Let_def)
  show ?thesis
  proof (cases r)
    case None
    then have "find_key (shared_version ?d) (shared_version (Suc ?d)) k sb mb 0 = None"
      "find_key (shared_version ?d) (shared_version (Suc ?d)) k sb mb 8 = None"
      by (auto simp: r_def split: option.splits)
    from find_key_None [OF this(1)] find_key_None [OF this(2)] set_lanes [OF l(1)] set_lanes [OF l(2)]
    have "hits ?d k sb = []" "hits (Suc ?d) k mb = []" by (auto simp: hits_def filter_empty_conv)
    with None g nm show ?thesis by simp
  next
    case (Some mj)
    obtain m j where mj: "mj = (m, j)" by (cases mj)
    obtain i where i: "find_key (shared_version ?d) (shared_version (Suc ?d)) k sb mb i = Some (m, j)" "i \<le> 8"
      using Some mj by (cases "find_key (shared_version ?d) (shared_version (Suc ?d)) k sb mb 0")
        (auto simp: r_def)
    note f = find_key_Some [OF i l]
    let ?x = "(if m then mb else sb) ! j"
    have "?x \<in> set (hits ?d k sb @ hits (Suc ?d) k mb)" and k: "subKey ?x = k"
      using f l by (cases m; force simp: hits_def)+
    from single_occ [OF this(1) one] k g Some mj show ?thesis unfolding nm by simp
  qed
qed

subsection \<open>Free slots\<close>

text \<open>
  The version test on 8 bits finds the first slot that is not live, except for version 0,
  where it never finds a slot because empty slots look occupied.
\<close>

lemma first_differs_live:
  assumes "length b = 16" "d \<le> Suc ld" "ld \<le> 23" "\<And>x. x \<in> set b \<Longrightarrow> slot_ok D ld x"
    "d = 1 \<Longrightarrow> \<forall>x\<in>set b. migVersion x = 0"
  shows "first_differs ((d + 255) mod 256) b = (if d = 1 then None else find_index (\<lambda>x. \<not> live d x) b)"
proof -
  have e: "unat (migVersion x) mod 256 \<noteq> (d + 255) mod 256 \<longleftrightarrow> (d \<noteq> 1 \<and> \<not> live d x)" if x: "x \<in> set b" for x
  proof (cases "d = 1")
    case True
    with assms(5) x show ?thesis by simp
  next
    case False
    consider (invalid) "\<not> validFlag x" "migVersion x = shared_version 1"
      | (valid) d' where "validFlag x" "d' \<le> Suc ld" "migVersion x = shared_version d'"
      using assms(4) [OF x] by (auto simp: slot_ok_def shared_version_1 split: if_splits)
    then show ?thesis
    proof cases
      case invalid
      have "(1 + 255) mod 256 \<noteq> (d + 255) mod (256 :: nat)" using False assms(2,3) by (cases d) simp_all
      with invalid False low_version [of 1] show ?thesis by (simp add: live_def)
    next
      case valid
      have "(d' + 255) mod 256 = (d + 255) mod (256 :: nat) \<longleftrightarrow> d' = d"
        using valid(2) assms(2,3) by (cases d; cases d') simp_all
      moreover have "shared_version d' = shared_version d \<longleftrightarrow> d' = d"
        using valid(2) assms(2,3) by (intro shared_version_inj) simp_all
      ultimately show ?thesis using valid False low_version [of d'] assms(3) by (simp add: live_def)
    qed
  qed
  have "first_differs ((d + 255) mod 256) b = find_index (\<lambda>x. unat (migVersion x) mod 256 \<noteq> (d + 255) mod 256) b"
    using assms(1) by (rule first_differs_eq) simp
  also have "\<dots> = find_index (\<lambda>x. d \<noteq> 1 \<and> \<not> live d x) b"
    using e by (intro find_index_cong_set) auto
  also have "\<dots> = (if d = 1 then None else find_index (\<lambda>x. \<not> live d x) b)" by simp
  finally show ?thesis .
qed

text \<open>A main bucket can only be full when many sub-keys share its bits.\<close>

lemma distinct_map_filter: "(\<And>y. length (filter (\<lambda>x. f x = y) xs) \<le> 1) \<Longrightarrow> distinct (map f xs)"
proof (induction xs)
  case (Cons x xs)
  have "length (filter (\<lambda>z. f z = y) xs) \<le> 1" for y
    using Cons.prems [of y] by (simp split: if_splits)
  moreover have "filter (\<lambda>z. f z = f x) xs = []" using Cons.prems [of "f x"] by simp
  then have "f x \<notin> f ` set xs" by (auto simp: filter_empty_conv)
  ultimately show ?case using Cons.IH by simp
qed simp

lemma full_bucket_keys:
  fixes n :: "'v wrert_node" and k
  assumes ok: "node_ok D n"
  defines "e \<equiv> segment_node_of n k"
  defines "ld \<equiv> localDepth e"
  assumes full: "find_index (\<lambda>x. \<not> live (role_ver ld m) x) (segs n ! segmentPtr e ! role_pos ld (window e) m k) = None"
  shows "\<exists>S\<subseteq>D. card S = 16 \<and> (\<forall>y\<in>S. top_bits y (ld + (if m then 5 else 4)) = top_bits k (ld + (if m then 5 else 4)))"
proof -
  define sg where "sg = segs n ! segmentPtr e"
  define q where "q = (if m then 5 else 4 :: nat)"
  note s = node_entry(5) [OF ok, of k, folded e_def, folded ld_def sg_def]
  note o = seg_okD [OF s]
  have ld: "ld \<le> 23" by (rule o(2))
  let ?p = "role_pos ld (window e) m"
  let ?b = "sg ! ?p k"
  have p: "?p k < 48" by (rule role_pos_less [OF o(1)])
  have live: "live (role_ver ld m) x" if "x \<in> set ?b" for x
    using full that unfolding sg_def by simp
  have t: "top_bits k (ld + q) = top_bits k ld * 2 ^ q + top_bits k (ld + q) mod 2 ^ q"
    using top_bits_split [of ld q k "top_bits k ld"] ld by (simp add: q_def split: if_splits)
  have bits: "top_bits (subKey x) (ld + q) = top_bits k (ld + q)" if "x \<in> set ?b" for x
    using o(6) [of "top_bits k (ld + 4) mod 16"] o(7) [of "top_bits k (ld + 5) mod 32"] live [OF that] that t
    by (cases m) (simp_all add: bucket_ok_def role_pos_def role_ver_def q_def)
  have D: "subKey x \<in> D" if "x \<in> set ?b" for x
    using o(5) [OF p that] live [OF that] by (auto simp: slot_ok_def live_def split: if_splits)
  have "length (filter (\<lambda>x. subKey x = y) ?b) \<le> 1" for y
  proof (cases "y \<in> subKey ` set ?b")
    case True
    then have y: "top_bits y (ld + q) = top_bits k (ld + q)" using bits by auto
    then have m: "?p y = ?p k" by (cases m) (simp_all add: role_pos_def q_def)
    have "top_bits y ld = top_bits k ld"
      using y top_bits_add [of ld q y] top_bits_add [of ld q k] ld by (simp add: q_def split: if_splits)
    from o(8) [OF this] have "length (hits (role_ver ld m) y ?b) \<le> 1" unfolding occ_roles m [symmetric] by (cases m) simp_all
    moreover have "hits (role_ver ld m) y ?b = filter (\<lambda>x. subKey x = y) ?b"
      unfolding hits_def using live by (intro filter_cong) auto
    ultimately show ?thesis by simp
  next
    case False
    then have "filter (\<lambda>x. subKey x = y) ?b = []" by (auto simp: filter_empty_conv)
    then show ?thesis by simp
  qed
  then have "distinct (map subKey ?b)" by (rule distinct_map_filter)
  then have "card (subKey ` set ?b) = 16" using o(4) [OF p] distinct_card by fastforce
  moreover have "subKey ` set ?b \<subseteq> D" using D by blast
  ultimately show ?thesis using bits unfolding q_def by (intro exI [of _ "subKey ` set ?b"]) auto
qed

lemma full_main_keys:
  fixes n :: "'v wrert_node" and k
  assumes ok: "node_ok D n"
  defines "e \<equiv> segment_node_of n k"
  assumes full: "find_index (\<lambda>x. \<not> live (Suc (localDepth e)) x)
      (segs n ! segmentPtr e ! role_pos (localDepth e) (window e) True k) = None"
  shows "\<exists>S\<subseteq>D. card S = 16 \<and> (\<forall>y\<in>S. top_bits y (localDepth e + 5) = top_bits k (localDepth e + 5))"
  using full_bucket_keys [OF ok, of k True] full by (simp add: e_def role_ver_def)

lemma full_main_bound:
  assumes ok: "node_ok D n" and k: "k \<notin> D"
  defines "e \<equiv> segment_node_of n k"
  assumes full: "find_index (\<lambda>x. \<not> live (Suc (localDepth e)) x)
      (segs n ! segmentPtr e ! role_pos (localDepth e) (window e) True k) = None"
  shows "localDepth e \<le> 22"
proof (rule ccontr)
  assume "\<not> localDepth e \<le> 22"
  then have ld: "localDepth e = 23"
    using seg_okD(2) [OF node_entry(5) [OF ok, of k]] by (simp add: e_def)
  from full_main_keys [OF ok, of k, folded e_def, OF full] obtain S where
    S: "S \<subseteq> D" "card S = 16" "\<forall>y\<in>S. top_bits y (localDepth e + 5) = top_bits k (localDepth e + 5)" by blast
  with k have "k \<notin> S" by blast
  moreover have "finite S" by simp
  ultimately have "card (insert k S) = 17" using S(2) by simp
  moreover have "card (insert k S) \<le> 2 ^ (32 - (localDepth e + 5))"
    by (rule card_same_top_bits [where c = "top_bits k (localDepth e + 5)"]) (use S(3) ld in auto)
  ultimately show False using ld by simp
qed

lemma put_target_ok:
  assumes ok: "node_ok D n" and k: "k \<notin> D"
  defines "e \<equiv> segment_node_of n k"
  shows "put_target e (segs n ! segmentPtr e) k = Some (m, p, j) \<Longrightarrow>
      p = role_pos (localDepth e) (window e) m k \<and>
      find_index (\<lambda>x. \<not> live (role_ver (localDepth e) m) x) (segs n ! segmentPtr e ! p) = Some j"
    "put_target e (segs n ! segmentPtr e) k = None \<Longrightarrow> localDepth e \<le> 22"
    "put_target e (segs n ! segmentPtr e) k = None \<Longrightarrow> localDepth e = 0 \<Longrightarrow>
      find_index (\<lambda>x. \<not> live (role_ver (localDepth e) False) x)
        (segs n ! segmentPtr e ! role_pos (localDepth e) (window e) False k) = None"
proof -
  note s = node_entry(5) [OF ok, of k, folded e_def]
  note o = seg_okD [OF s]
  note pos = positions [OF ok, of k, folded e_def]
  let ?sg = "segs n ! segmentPtr e" and ?ld = "localDepth e" and ?s = "window e"
  let ?sp = "role_pos ?ld ?s False k" and ?mp = "role_pos ?ld ?s True k"
  have rp: "role_pos ?ld ?s q k < 48" for q by (rule role_pos_less [OF o(1)])
  have S: "first_differs ((?ld + 255) mod 256) (?sg ! ?sp) =
      (if ?ld = 1 then None else find_index (\<lambda>x. \<not> live ?ld x) (?sg ! ?sp))"
  proof (rule first_differs_live [where ld = ?ld and D = D])
    show "?ld = 1 \<Longrightarrow> \<forall>x\<in>set (?sg ! ?sp). migVersion x = 0"
      using o(10) [of "top_bits k (?ld + 4) mod 16"] by (simp add: role_pos_def)
  qed (use o(2) o(4) [OF rp] o(5) [OF rp] in auto)
  have "(Suc ?ld + 255) mod 256 = ?ld" using o(2) by simp
  moreover have M0: "first_differs ((Suc ?ld + 255) mod 256) (?sg ! ?mp) =
      (if Suc ?ld = 1 then None else find_index (\<lambda>x. \<not> live (Suc ?ld) x) (?sg ! ?mp))"
  proof (rule first_differs_live [where ld = ?ld and D = D])
    show "Suc ?ld = 1 \<Longrightarrow> \<forall>x\<in>set (?sg ! ?mp). migVersion x = 0"
      using o(9) [of "top_bits k (?ld + 5) mod 32"] by (simp add: role_pos_def)
  qed (use o(2) o(4) [OF rp] o(5) [OF rp] in auto)
  ultimately have M: "first_differs ?ld (?sg ! ?mp) =
      (if ?ld = 0 then None else find_index (\<lambda>x. \<not> live (Suc ?ld) x) (?sg ! ?mp))" by simp
  show "put_target e ?sg k = Some (m, p, j) \<Longrightarrow>
      p = role_pos ?ld ?s m k \<and> find_index (\<lambda>x. \<not> live (role_ver ?ld m) x) (?sg ! p) = Some j"
    unfolding put_target_def Let_def pos S M by (auto simp: role_ver_def split: option.splits if_splits)
  show "put_target e ?sg k = None \<Longrightarrow> ?ld = 0 \<Longrightarrow> find_index (\<lambda>x. \<not> live (role_ver ?ld False) x) (?sg ! ?sp) = None"
    unfolding put_target_def Let_def pos S role_ver_def by (auto split: option.splits)
  assume "put_target e ?sg k = None"
  then have "?ld = 0 \<or> find_index (\<lambda>x. \<not> live (Suc ?ld) x) (?sg ! ?mp) = None"
    unfolding put_target_def Let_def pos M by (auto split: option.splits if_splits)
  then show "?ld \<le> 22" using full_main_bound [OF ok k] unfolding e_def by auto
qed

subsection \<open>Splits keep the map\<close>

lemma block_div: "0 < w \<Longrightarrow> q * w \<le> i \<and> i < q * w + w \<longleftrightarrow> i div w = (q :: nat)"
proof -
  assume w: "0 < w"
  have "i = i div w * w + i mod w" "i mod w < w" using w by simp_all
  then show ?thesis
    by (metis add.commute div_nat_eqI mult.commute mult_Suc_right le_add1 nat_add_left_cancel_less)
qed

lemma stored_window: "d \<in> {0, 16, 32} \<Longrightarrow> window (e\<lparr>sharedBucketOffset := stored_offset d\<rparr>) = d"
  by (auto simp: window_def stored_offset_def)

lemma window_simps [simp]:
  "window (e\<lparr>localDepth := x\<rparr>) = window e" "window (e\<lparr>segmentPtr := x\<rparr>) = window e"
  by (simp_all add: window_def)

lemma nth_concat_pairs:
  "j < 2 * c \<Longrightarrow> concat (map (\<lambda>i. [f i, f i]) [0..<c]) ! j = f (j div 2)"
  "length (concat (map (\<lambda>i. [f i, f i]) [0..<c])) = 2 * c"
proof (induction c arbitrary: j)
  case (Suc c)
  { case 1
    show ?case
    proof (cases "j < 2 * c")
      case True
      then show ?thesis using Suc by (simp add: nth_append)
    next
      case False
      with 1 have "j = 2 * c \<or> j = 2 * c + 1" by auto
      with Suc show ?thesis by (auto simp: nth_append)
    qed
  next
    case 2
    show ?case using Suc by simp
  }
qed simp_all

text \<open>Doubling the directory alone.\<close>

definition double_dir :: "'v wrert_node \<Rightarrow> 'v wrert_node" where
  "double_dir n = n\<lparr>globalDepth := globalDepth n + 1, capacity := 2 ^ (globalDepth n + 1),
     directory := concat (map (\<lambda>i. [directory n ! i, directory n ! i]) [0..<capacity n])\<rparr>"

lemma double_dir_ok:
  assumes ok: "node_ok D n" and lt: "globalDepth n \<le> 22"
  shows "node_ok D (double_dir n)" "node_map (double_dir n) = node_map n"
    "segment_node_of (double_dir n) k = segment_node_of n k"
proof -
  note o = node_okD [OF ok]
  let ?n = "double_dir n"
  have f: "globalDepth ?n = Suc (globalDepth n)" "segs ?n = segs n" by (simp_all add: double_dir_def)
  have d: "directory ?n ! j = directory n ! (j div 2)" "j div 2 < 2 ^ globalDepth n" if "j < 2 ^ globalDepth ?n" for j
    using nth_concat_pairs(1) [of j "capacity n" "\<lambda>i. directory n ! i"] that o(2)
    by (simp_all add: double_dir_def)
  have div2: "i div 2 ^ (Suc (globalDepth n) - l) = i div 2 div 2 ^ (globalDepth n - l)" if "l \<le> globalDepth n" for i l :: nat
    using that by (simp add: Suc_diff_le div_mult2_eq)
  show "node_ok D ?n"
  proof (rule node_okI)
    show "globalDepth ?n \<le> 23" using lt by (simp add: f)
    show "capacity ?n = 2 ^ globalDepth ?n" by (simp add: double_dir_def)
    show "length (directory ?n) = 2 ^ globalDepth ?n"
      using nth_concat_pairs(2) [of "\<lambda>i. directory n ! i" "capacity n"] o(2) by (simp add: double_dir_def)
    fix i :: nat assume i: "i < 2 ^ globalDepth ?n"
    note di = d [OF i]
    note ld = o(4) [OF di(2)]
    show "localDepth (directory ?n ! i) \<le> globalDepth ?n" unfolding di(1) f using ld by simp
    show "segmentPtr (directory ?n ! i) < length (segs ?n)" unfolding di(1) f by (rule o(5) [OF di(2)])
    show "seg_ok D (localDepth (directory ?n ! i)) (window (directory ?n ! i))
        (i div 2 ^ (globalDepth ?n - localDepth (directory ?n ! i))) (segs ?n ! segmentPtr (directory ?n ! i))"
      unfolding di(1) f div2 [OF ld] by (rule o(6) [OF di(2)])
    fix j :: nat assume j: "j < 2 ^ globalDepth ?n"
    note dj = d [OF j]
    show "directory ?n ! j = directory ?n ! i"
      if "j div 2 ^ (globalDepth ?n - localDepth (directory ?n ! i)) = i div 2 ^ (globalDepth ?n - localDepth (directory ?n ! i))"
      using that unfolding di(1) dj(1) f div2 [OF ld] by (rule o(7) [OF di(2) dj(2)])
    show "j div 2 ^ (globalDepth ?n - localDepth (directory ?n ! i)) = i div 2 ^ (globalDepth ?n - localDepth (directory ?n ! i))"
      if "segmentPtr (directory ?n ! j) = segmentPtr (directory ?n ! i)"
      using that unfolding di(1) dj(1) f div2 [OF ld] by (rule o(8) [OF di(2) dj(2)])
  qed
  have sn: "segment_node_of ?n x = segment_node_of n x" for x
  proof -
    have "top_bits x (Suc (globalDepth n)) < 2 ^ globalDepth ?n"
      using top_bits_less [of "Suc (globalDepth n)" x] lt by (simp add: f)
    from d(1) [OF this] show ?thesis
      using segment_node_of_eq [of ?n x] segment_node_of_eq [of n x] top_bits_Suc [of "globalDepth n" x] lt
      by (simp add: f)
  qed
  then show "segment_node_of ?n k = segment_node_of n k" .
  show "node_map ?n = node_map n" by (simp add: fun_eq_iff node_map_def sn f)
qed

lemma split_shallow_ok:
  fixes n :: "'v wrert_node" and k
  assumes ok: "node_ok D n"
  defines "e \<equiv> segment_node_of n k"
  assumes ld: "localDepth e \<le> 22" and lt: "localDepth e < globalDepth n"
  shows "\<exists>n'. split_shallow z n (get_segment_number k (globalDepth n)) (window e) = Inr n' \<and>
    node_ok D n' \<and> node_map n' = node_map n \<and> localDepth (segment_node_of n' k) = Suc (localDepth e)"
proof -
  note o = node_okD [OF ok]
  note ne = node_entry [OF ok, of k, folded e_def]
  let ?gd = "globalDepth n" and ?ld = "localDepth e" and ?s = "window e"
  let ?i = "top_bits k ?gd" and ?g = "top_bits k ?ld"
  define w :: nat where "w = 2 ^ (?gd - Suc ?ld)"
  have w: "0 < w" by (simp add: w_def)
  have num: "2 ^ (?gd - ?ld) = 2 * w" using lt unfolding w_def by (simp flip: power_Suc add: Suc_diff_Suc)
  have gk: "?i div (2 * w) = ?g" unfolding num [symmetric] using lt o(1) by (intro top_bits_div) simp_all
  have start: "?i - ?i mod (2 * w) = 2 * ?g * w"
    using gk by (metis add_diff_cancel_right' div_mult_mod_eq mult.assoc mult.commute)
  have mid: "2 * ?g * w + w = (2 * ?g + 1) * w" by simp
  have idx: "get_segment_number k' ?gd = top_bits k' ?gd" for k' by (rule get_segment_number_eq) (use o(1) in simp)
  have bits: "top_bits k' ?gd div w = top_bits k' (Suc ?ld)" for k'
    unfolding w_def using lt o(1) by (intro top_bits_div) simp_all
  let ?hi = "\<lambda>k'. get_segment_number k' ?gd \<ge> 2 * ?g * w + w" and ?lo = "\<lambda>k'. get_segment_number k' ?gd < 2 * ?g * w + w"
  have hi: "?hi k'" if "top_bits k' (Suc ?ld) = 2 * ?g + 1" for k'
    using block_div [OF w, of "2 * ?g + 1" "top_bits k' ?gd"] bits [of k'] that unfolding idx mid by simp
  have lo: "?lo k'" if "top_bits k' (Suc ?ld) = 2 * ?g" for k'
    using block_div [OF w, of "2 * ?g" "top_bits k' ?gd"] bits [of k'] that unfolding idx by simp
  note so = seg_okD [OF ne(5)]
  from split_segment_ok [OF ne(5) ld so(1), of ?hi ?lo z] hi lo obtain new old where
    sp: "split_segment z ?hi ?lo ?ld ?s ?s (segs n ! segmentPtr e) = Inr (new, old)"
    and new: "seg_ok D (Suc ?ld) ?s (2 * ?g + 1) new" and old: "seg_ok D (Suc ?ld) ((?s + 16) mod 48) (2 * ?g) old"
    and mn: "\<forall>k'. top_bits k' (Suc ?ld) = 2 * ?g + 1 \<longrightarrow> smap (Suc ?ld) ?s new k' = smap ?ld ?s (segs n ! segmentPtr e) k'"
    and mo: "\<forall>k'. top_bits k' (Suc ?ld) = 2 * ?g \<longrightarrow>
      smap (Suc ?ld) ((?s + 16) mod 48) old k' = smap ?ld ?s (segs n ! segmentPtr e) k'" by blast
  define a where "a = e\<lparr>localDepth := ?ld + 1, sharedBucketOffset := stored_offset ((?s + 16) mod 48)\<rparr>"
  define b where "b = e\<lparr>localDepth := ?ld + 1, segmentPtr := length (segs n)\<rparr>"
  have wa: "window a = (?s + 16) mod 48" "window b = ?s"
    unfolding a_def b_def by (simp_all add: stored_window [OF next_window(1) [OF so(1)]])
  have in_group: "directory n ! j = e" if "j < 2 ^ ?gd" "j div w = 2 * ?g \<or> j div w = 2 * ?g + 1" for j
  proof -
    have "j div (2 * w) = ?i div (2 * w)" using that(2) div_halves [OF w, of j ?g] gk by metis
    from o(7) [OF ne(1) that(1), folded ne(2), unfolded num, OF this] show ?thesis .
  qed
  let ?dir = "map (\<lambda>i. let e = directory n ! i in
        if 2 * ?g * w \<le> i \<and> i < 2 * ?g * w + w
        then e\<lparr>localDepth := localDepth e + 1, sharedBucketOffset := stored_offset ((?s + 16) mod 48)\<rparr>
        else if 2 * ?g * w + w \<le> i \<and> i < 2 * ?g * w + w + w
        then e\<lparr>localDepth := localDepth e + 1, segmentPtr := length (segs n)\<rparr>
        else e) [0..<length (directory n)]"
  have dir: "?dir = split_entries n ?g w a b"
    unfolding split_entries_def
  proof (rule map_cong [OF refl])
    fix j assume "j \<in> set [0..<length (directory n)]"
    then have j: "j < 2 ^ ?gd" using o(3) by simp
    have 1: "2 * ?g * w \<le> j \<and> j < 2 * ?g * w + w \<longleftrightarrow> j div w = 2 * ?g" by (rule block_div [OF w])
    have 2: "2 * ?g * w + w \<le> j \<and> j < 2 * ?g * w + w + w \<longleftrightarrow> j div w = 2 * ?g + 1"
      using block_div [OF w, of "2 * ?g + 1" j] unfolding mid by simp
    show "(let e = directory n ! j in
        if 2 * ?g * w \<le> j \<and> j < 2 * ?g * w + w
        then e\<lparr>localDepth := localDepth e + 1, sharedBucketOffset := stored_offset ((?s + 16) mod 48)\<rparr>
        else if 2 * ?g * w + w \<le> j \<and> j < 2 * ?g * w + w + w
        then e\<lparr>localDepth := localDepth e + 1, segmentPtr := length (segs n)\<rparr>
        else e) = (if j div w = 2 * ?g then a else if j div w = 2 * ?g + 1 then b else directory n ! j)"
      unfolding 1 2 Let_def using in_group [OF j] by (auto simp: a_def b_def)
  qed
  define n' where "n' = n\<lparr>directory := ?dir, segs := (segs n)[segmentPtr e := old] @ [new]\<rparr>"
  have de: "directory n ! ?i = e" using ne(2) by simp
  have r: "split_shallow z n (get_segment_number k ?gd) ?s = Inr n'"
    using sp unfolding split_shallow_def Let_def idx de num start n'_def by simp
  have fields: "globalDepth n' = ?gd" "capacity n' = 2 ^ ?gd" "directory n' = split_entries n ?g (2 ^ (?gd - Suc ?ld)) a b"
    "segs n' = (segs n)[segmentPtr e := old] @ [new]"
    unfolding n'_def using o(2) dir by (simp_all add: w_def)
  have ab: "localDepth a = Suc ?ld" "segmentPtr a = segmentPtr e" "localDepth b = Suc ?ld" "segmentPtr b = length (segs n)"
    by (simp_all add: a_def b_def)
  have old': "seg_ok D (Suc ?ld) (window a) (2 * ?g) old" and new': "seg_ok D (Suc ?ld) (window b) (2 * ?g + 1) new"
    using old new wa by simp_all
  have mo': "smap (Suc ?ld) (window a) old k' = entry_map e (segs n) k'" if "top_bits k' (Suc ?ld) = 2 * ?g" for k'
    using mo that wa by (simp add: entry_map_def)
  have mn': "smap (Suc ?ld) (window b) new k' = entry_map e (segs n) k'" if "top_bits k' (Suc ?ld) = 2 * ?g + 1" for k'
    using mn that wa by (simp add: entry_map_def)
  have "node_ok D n' \<and> node_map n' = node_map n \<and> localDepth (segment_node_of n' k) = Suc ?ld"
    using split_entry_ok [OF ok, of k, folded e_def, OF lt ab old' new' _ _ fields] mo' mn' by blast
  with r show ?thesis by blast
qed

end
