(* ===== verification/Wrert_Put.thy ===== *)
theory Wrert_Put
  imports Wrert_Map
begin

text \<open>
  Insertion into a WRERT node: \<open>putSegNode\<close> with all the splits it causes, the search for a
  slot in \<^verbatim>\<open>WRERT::insert\<close>, and the node as an instance of the index interface.
\<close>

lemma split_deep_ok:
  fixes n :: "'v wrert_node" and k
  assumes ok: "node_ok D n"
  defines "e \<equiv> segment_node_of n k"
  assumes ld: "localDepth e \<le> 22" and eq: "localDepth e = globalDepth n"
  shows "\<exists>n'. split_deep z n (get_segment_number k (globalDepth n)) (window e) = Inr n' \<and>
    node_ok D n' \<and> node_map n' = node_map n \<and> localDepth (segment_node_of n' k) = Suc (localDepth e)"
proof -
  note o = node_okD [OF ok]
  note ne = node_entry [OF ok, of k, folded e_def]
  note so = seg_okD [OF ne(5)]
  let ?gd = "globalDepth n" and ?ld = "localDepth e" and ?s = "window e" and ?g = "top_bits k (localDepth e)"
  let ?n = "double_dir n"
  have gd22: "?gd \<le> 22" using ld eq by simp
  note d = double_dir_ok [OF ok gd22]
  note o2 = node_okD [OF d(1)]
  have e2: "segment_node_of ?n k = e" using d(3) by (simp add: e_def)
  have f2: "globalDepth ?n = Suc ?gd" "segs ?n = segs n" by (simp_all add: double_dir_def)
  have idx: "get_segment_number k' ?gd = top_bits k' ?gd" "get_segment_number k' (?gd + 1) = top_bits k' (Suc ?gd)" for k'
    using gd22 by (simp_all add: get_segment_number_eq)
  let ?hi = "\<lambda>k'. get_segment_number k' (?gd + 1) = ?g * 2 + 1" and ?lo = "\<lambda>k'. get_segment_number k' (?gd + 1) = ?g * 2"
  have hi: "?hi k'" if "top_bits k' (Suc ?ld) = 2 * ?g + 1" for k' using that eq unfolding idx by simp
  have lo: "?lo k'" if "top_bits k' (Suc ?ld) = 2 * ?g" for k' using that eq unfolding idx by simp
  from split_segment_ok [OF ne(5) ld, of 0 ?hi ?lo z] hi lo obtain new old where
    sp: "split_segment z ?hi ?lo ?ld ?s 0 (segs n ! segmentPtr e) = Inr (new, old)"
    and new: "seg_ok D (Suc ?ld) 0 (2 * ?g + 1) new" and old: "seg_ok D (Suc ?ld) ((?s + 16) mod 48) (2 * ?g) old"
    and mn: "\<forall>k'. top_bits k' (Suc ?ld) = 2 * ?g + 1 \<longrightarrow> smap (Suc ?ld) 0 new k' = smap ?ld ?s (segs n ! segmentPtr e) k'"
    and mo: "\<forall>k'. top_bits k' (Suc ?ld) = 2 * ?g \<longrightarrow>
      smap (Suc ?ld) ((?s + 16) mod 48) old k' = smap ?ld ?s (segs n ! segmentPtr e) k'" by auto
  define a where "a = e\<lparr>localDepth := ?ld + 1, sharedBucketOffset := stored_offset ((?s + 16) mod 48)\<rparr>"
  define b where "b = \<lparr>localDepth = ?ld + 1, sharedBucketOffset = 0, segmentPtr = length (segs n)\<rparr>"
  have wa: "window a = (?s + 16) mod 48" "window b = 0"
    unfolding a_def b_def by (simp_all add: stored_window [OF next_window(1) [OF so(1)]]) (simp add: window_def)
  let ?dir = "concat (map (\<lambda>i. [directory n ! i, directory n ! i]) [0..<capacity n])"
  have g: "?g = top_bits k ?gd" by (simp add: eq)
  have gl: "?g < 2 ^ ?gd" using ne(1) g by simp
  have ldir: "length ?dir = 2 * 2 ^ ?gd" using nth_concat_pairs(2) o(2) by metis
  have dnth: "?dir ! (?g * 2) = e" "?dir ! (?g * 2 + 1) = e"
    using nth_concat_pairs(1) [of "?g * 2" "capacity n" "\<lambda>i. directory n ! i"]
      nth_concat_pairs(1) [of "?g * 2 + 1" "capacity n" "\<lambda>i. directory n ! i"] gl o(2) ne(2) g by simp_all
  define n' where "n' = \<lparr>header = header_initialize (Some (header n)) (prefixLength (header n))
                             (nodeHeaderDepth (header n)) zero_header,
                  capacity = 2 ^ (?gd + 1), globalDepth = ?gd + 1,
                  directory = ?dir[?g * 2 + 1 := b, ?g * 2 := a],
                  segs = (segs n)[segmentPtr e := old] @ [new]\<rparr>"
  have de: "directory n ! ?g = e" using ne(2) g by simp
  have r: "split_deep z n (get_segment_number k ?gd) ?s = Inr n'"
    using sp unfolding split_deep_def Let_def idx g [symmetric] de n'_def dnth a_def b_def by simp
  have w1: "2 ^ (globalDepth ?n - Suc ?ld) = (1 :: nat)" using eq by (simp add: f2)
  have dir: "directory n' = split_entries ?n ?g 1 a b"
  proof (rule nth_equalityI)
    show "length (directory n') = length (split_entries ?n ?g 1 a b)"
      unfolding n'_def split_entries_def using ldir o2(3) f2 by simp
    fix j assume "j < length (directory n')"
    then have j: "j < length ?dir" by (simp add: n'_def)
    have "directory ?n = ?dir" by (simp add: double_dir_def)
    with j ldir gl show "directory n' ! j = split_entries ?n ?g 1 a b ! j"
      unfolding n'_def split_entries_def by (auto simp: nth_list_update mult.commute)
  qed
  have fields: "globalDepth n' = globalDepth ?n" "capacity n' = 2 ^ globalDepth ?n"
    "directory n' = split_entries ?n ?g (2 ^ (globalDepth ?n - Suc ?ld)) a b"
    "segs n' = (segs ?n)[segmentPtr e := old] @ [new]"
    using dir unfolding w1 by (simp_all add: f2) (simp_all add: n'_def)
  have ab: "localDepth a = Suc ?ld" "segmentPtr a = segmentPtr e" "localDepth b = Suc ?ld" "segmentPtr b = length (segs ?n)"
    by (simp_all add: a_def b_def f2)
  have old': "seg_ok D (Suc ?ld) (window a) (2 * ?g) old" and new': "seg_ok D (Suc ?ld) (window b) (2 * ?g + 1) new"
    using old new wa by simp_all
  have mo': "smap (Suc ?ld) (window a) old k' = entry_map e (segs ?n) k'" if "top_bits k' (Suc ?ld) = 2 * ?g" for k'
    using mo that wa by (simp add: entry_map_def f2)
  have mn': "smap (Suc ?ld) (window b) new k' = entry_map e (segs ?n) k'" if "top_bits k' (Suc ?ld) = 2 * ?g + 1" for k'
    using mn that wa by (simp add: entry_map_def f2)
  have lt: "?ld < globalDepth ?n" using eq by (simp add: f2)
  have "node_ok D n' \<and> node_map n' = node_map ?n \<and> localDepth (segment_node_of n' k) = Suc ?ld"
    using split_entry_ok [OF d(1), of k, unfolded e2, OF lt ab old' new' _ _ fields] mo' mn' by blast
  with r d(2) show ?thesis by auto
qed

lemma split_for_ok:
  assumes "node_ok D n" "localDepth (segment_node_of n k) \<le> 22"
  shows "\<exists>n'. split_for z n k = Inr n' \<and> node_ok D n' \<and> node_map n' = node_map n \<and>
    localDepth (segment_node_of n' k) = Suc (localDepth (segment_node_of n k))"
proof -
  have e: "directory n ! get_segment_number k (globalDepth n) = segment_node_of n k"
    by (simp add: segment_node_of_def)
  have "localDepth (segment_node_of n k) \<le> globalDepth n" by (rule node_entry(3) [OF assms(1)])
  then consider "localDepth (segment_node_of n k) < globalDepth n" | "localDepth (segment_node_of n k) = globalDepth n"
    by linarith
  then show ?thesis
  proof cases
    case 1
    then show ?thesis using split_shallow_ok [OF assms 1, of z] by (simp add: split_for_def Let_def e)
  next
    case 2
    then show ?thesis using split_deep_ok [OF assms 2, of z] by (simp add: split_for_def Let_def e)
  qed
qed

subsection \<open>Writing the slot\<close>

lemma write_slot_ok:
  fixes n :: "'v wrert_node" and k
  assumes ok: "node_ok D n" and k: "k \<notin> D"
  defines "e \<equiv> segment_node_of n k"
  assumes p: "p = role_pos (localDepth e) (window e) m k"
    and j: "find_index (\<lambda>x. \<not> live (role_ver (localDepth e) m) x) (segs n ! segmentPtr e ! p) = Some j"
  shows "node_ok (insert k D) (write_slot n k v e fp nf m (p, j))"
    "node_map (write_slot n k v e fp nf m (p, j)) = (node_map n)(k \<mapsto> (v, nf))"
proof -
  note ne = node_entry [OF ok, of k, folded e_def]
  note o = seg_okD [OF ne(5)]
  let ?sg = "segs n ! segmentPtr e"
  let ?x = "?sg ! p ! j"
  let ?y = "?x\<lparr>slot_value := v, subKey := k, validFlag := True, fingerprint := fp,
      migVersion := (if m then main_version (localDepth e) else shared_version (localDepth e)), nodeFlag := nf\<rparr>"
  have p48: "p < 48" unfolding p by (rule role_pos_less [OF o(1)])
  have "j < length (?sg ! p)" using find_index_SomeD [OF j] by simp
  then have "slot_ok D (localDepth e) ?x" by (intro o(5) [OF p48] nth_mem)
  then have "\<not> (subKey ?x = k \<and> validFlag ?x)" using k by (auto simp: slot_ok_def)
  then have w: "write_slot n k v e fp nf m (p, j) = n\<lparr>segs := (segs n)[segmentPtr e := set_slot ?sg p j ?y]\<rparr>"
    by (auto simp: write_slot_def Let_def)
  have y: "subKey ?y = k" "live (role_ver (localDepth e) m) ?y"
    by (simp_all add: live_def role_ver_def main_version_eq)
  have ab: "occ (localDepth e) (window e) ?sg k = []" by (rule occ_keys [OF ne(5) k])
  note sw = seg_write [OF ne(5) refl ab, of m j ?y, folded p, OF j y]
  note u = node_update_seg [OF ok subset_insertI, of k k, folded e_def, OF sw(2)]
  show "node_ok (insert k D) (write_slot n k v e fp nf m (p, j))"
    unfolding w by (rule u(1))
  show "node_map (write_slot n k v e fp nf m (p, j)) = (node_map n)(k \<mapsto> (v, nf))"
  proof
    fix k'
    show "node_map (write_slot n k v e fp nf m (p, j)) k' = ((node_map n)(k \<mapsto> (v, nf))) k'"
      unfolding w u(2) smap_def sw(1) using u(3) [of k']
      by (auto simp: node_map_def entry_map_def smap_def e_def)
  qed
qed

lemma putSegNode_ok:
  "node_ok D n \<Longrightarrow> k \<notin> D \<Longrightarrow> 24 \<le> fuel + localDepth (segment_node_of n k) \<Longrightarrow>
   \<exists>n'. putSegNode fuel z n k v fp nf = Inr n' \<and> node_ok (insert k D) n' \<and>
     node_map n' = (node_map n)(k \<mapsto> (v, nf))"
proof (induction fuel arbitrary: n)
  case 0
  then show ?case using seg_okD(2) [OF node_entry(5) [OF 0(1), of k]] by simp
next
  case (Suc fuel)
  let ?e = "segment_node_of n k"
  let ?t = "put_target ?e (segs n ! segmentPtr ?e) k"
  have start: "putSegNode (Suc fuel) z n k v fp nf = put fuel z n k v fp nf ?t"
    using node_entry(6) [OF Suc.prems(1)] by (simp add: Let_def)
  show ?case
  proof (cases ?t)
    case None
    from split_for_ok [OF Suc.prems(1) put_target_ok(2) [OF Suc.prems(1,2) None], of z] obtain n1 where
      n1: "split_for z n k = Inr n1" "node_ok D n1" "node_map n1 = node_map n"
      "localDepth (segment_node_of n1 k) = Suc (localDepth ?e)" by blast
    have "24 \<le> fuel + localDepth (segment_node_of n1 k)" using Suc.prems(3) n1(4) by simp
    from Suc.IH [OF n1(2) Suc.prems(2) this] n1 show ?thesis
      unfolding start None by simp
  next
    case (Some t)
    obtain m p j where t: "t = (m, p, j)" by (cases t)
    note pt = put_target_ok(1) [OF Suc.prems(1,2) Some [unfolded t]]
    have "p = role_pos (localDepth ?e) (window ?e) m k" using pt by blast
    moreover have "find_index (\<lambda>x. \<not> live (role_ver (localDepth ?e) m) x) (segs n ! segmentPtr ?e ! p) = Some j"
      using pt by blast
    ultimately show ?thesis unfolding start Some t
      using write_slot_ok [OF Suc.prems(1,2), of p m j v fp nf] by (simp add: fun_upd_def)
  qed
qed

end

