(* ===== verification/Wrert_Insert.thy ===== *)
theory Wrert_Insert
  imports Wrert_Put
begin

text \<open>
  Insertion at the end of the key: the SIMD scan of a bucket is the scalar loop it replaces,
  and the node is a map under \<open>node_insert\<close> and \<open>getSegNode\<close>.
\<close>

subsection \<open>The scan of a bucket\<close>

lemma last_index_None [simp]: "last_index p xs = None \<longleftrightarrow> (\<forall>x\<in>set xs. \<not> p x)"
  by (induction xs) (auto split: option.splits)

lemma last_index_SomeI:
  "j < length xs \<Longrightarrow> p (xs ! j) \<Longrightarrow> (\<And>i. j < i \<Longrightarrow> i < length xs \<Longrightarrow> \<not> p (xs ! i)) \<Longrightarrow> last_index p xs = Some j"
proof (induction xs arbitrary: j)
  case (Cons x xs)
  show ?case
  proof (cases j)
    case 0
    have "\<forall>y\<in>set xs. \<not> p y"
      using Cons.prems(3) [of "Suc _"] 0 by (auto simp: in_set_conv_nth)
    then have "last_index p xs = None" by simp
    with 0 Cons.prems show ?thesis by (simp del: last_index_None)
  next
    case (Suc j')
    have "last_index p xs = Some j'"
      using Cons.prems Suc Cons.prems(3) [of "Suc _"] by (intro Cons.IH) auto
    with Suc show ?thesis by simp
  qed
qed simp

lemma filter_eq_takeWhile_iff:
  "filter P b = takeWhile P b \<longleftrightarrow> (\<forall>j<length b. P (b ! j) \<longrightarrow> (\<forall>i<j. P (b ! i)))"
proof (induction b)
  case (Cons x b)
  show ?case
  proof (cases "P x")
    case True
    then show ?thesis using Cons.IH by (auto simp: All_less_Suc2 nth_Cons')
  next
    case False
    have "filter P b = [] \<longleftrightarrow> (\<forall>j<length b. \<not> P (b ! j))"
      by (auto simp: filter_empty_conv all_set_conv_all_nth)
    with False show ?thesis by (auto simp: All_less_Suc2 nth_Cons')
  qed
qed simp

text \<open>A list whose elements with \<open>P\<close> are the first \<open>t\<close>.\<close>

definition prefix_of :: "('a \<Rightarrow> bool) \<Rightarrow> 'a list \<Rightarrow> nat \<Rightarrow> bool" where
  "prefix_of P xs t \<longleftrightarrow> t \<le> length xs \<and> (\<forall>i<length xs. P (xs ! i) \<longleftrightarrow> i < t)"

lemma prefix_of_exists:
  assumes "filter P b = takeWhile P b"
  shows "prefix_of P b (length (takeWhile P b))"
  unfolding prefix_of_def
proof (intro conjI allI impI)
  show "length (takeWhile P b) \<le> length b" by (rule length_takeWhile_le)
  fix i assume i: "i < length b"
  show "P (b ! i) \<longleftrightarrow> i < length (takeWhile P b)"
  proof
    assume "P (b ! i)"
    then have all: "\<forall>j\<le>i. P (b ! j)"
      using assms [unfolded filter_eq_takeWhile_iff] i le_neq_implies_less by blast
    show "i < length (takeWhile P b)"
    proof (rule ccontr)
      assume "\<not> i < length (takeWhile P b)"
      then have "length (takeWhile P b) \<le> i" by simp
      moreover from this i have "\<not> P (b ! length (takeWhile P b))" by (intro nth_length_takeWhile) simp
      ultimately show False using all by blast
    qed
  next
    assume "i < length (takeWhile P b)"
    then have "takeWhile P b ! i \<in> set (takeWhile P b)" "takeWhile P b ! i = b ! i"
      by (rule nth_mem, rule takeWhile_nth)
    then show "P (b ! i)" by (metis set_takeWhileD)
  qed
qed

lemma lane_version_match: "lane (version_match (shared_version d)) = live d"
  by (simp add: fun_eq_iff lane_def version_match_pack live_def)

lemma lane_subkey_match: "lane (subkey_match k) = (\<lambda>x. subKey x = k)"
  by (simp add: fun_eq_iff lane_def subkey_match_pack)

text \<open>One step on lanes whose live slots come first.\<close>

lemma scan_step_eq:
  assumes t: "prefix_of (live d) (lanes i b) t" and ne: "lanes i b \<noteq> []"
  shows "scan_step (shared_version d) k b i =
    (case find_index (\<lambda>x. \<not> live d x \<or> subKey x = k) (lanes i b) of
       None \<Rightarrow> None
     | Some j \<Rightarrow> Some (if live d (lanes i b ! j) then Found (i + j) else Free (i + j)))"
proof -
  define ls where "ls = lanes i b"
  let ?F = "\<lambda>x. \<not> live d x \<or> subKey x = k"
  have tl: "t \<le> length ls" and P: "\<And>q. q < length ls \<Longrightarrow> live d (ls ! q) \<longleftrightarrow> q < t"
    using t by (simp_all add: prefix_of_def ls_def)
  have bad: "find_index (\<lambda>x. \<not> live d x) ls = (if t < length ls then Some t else None)"
  proof (cases "t < length ls")
    case True
    then have "find_index (\<lambda>x. \<not> live d x) ls = Some t" using P by (auto simp: find_index_eq_Some_iff)
    with True show ?thesis by simp
  next
    case False
    with P tl have "\<forall>x\<in>set ls. live d x" by (auto simp: in_set_conv_nth)
    with False show ?thesis by (simp del: find_index_None) (simp add: find_index_None)
  qed
  show ?thesis
  proof (cases t)
    case 0
    with P have "\<forall>x\<in>set ls. \<not> live d x" by (auto simp: in_set_conv_nth)
    then have l: "last_index (live d) ls = None" by simp
    have "find_index ?F ls = Some 0" using P 0 ne by (auto simp: find_index_eq_Some_iff ls_def)
    with l P [of 0] 0 ne show ?thesis
      unfolding scan_step_def Let_def lane_version_match ls_def [symmetric]
      by (simp add: ls_def del: last_index_None)
  next
    case (Suc y)
    have l: "last_index (live d) ls = Some y"
      using P tl Suc by (intro last_index_SomeI) auto
    show ?thesis
    proof (cases "find_index (\<lambda>x. subKey x = k) ls")
      case (Some x)
      note x = find_index_SomeD [OF Some]
      show ?thesis
      proof (cases "x \<le> y")
        case True
        then have "find_index ?F ls = Some x" using x P Suc by (auto simp: find_index_eq_Some_iff)
        with True l Some P x Suc show ?thesis
          unfolding scan_step_def Let_def lane_version_match lane_subkey_match ls_def [symmetric] by simp
      next
        case False
        then have tx: "t \<le> x" using Suc by simp
        then have "find_index ?F ls = Some t" using x P by (auto simp: find_index_eq_Some_iff)
        with False l Some P [of t] x tx bad show ?thesis
          unfolding scan_step_def Let_def lane_version_match lane_subkey_match ls_def [symmetric] by simp
      qed
    next
      case None
      then have nk: "\<forall>x\<in>set ls. subKey x \<noteq> k" by simp
      then have "find_index ?F ls = find_index (\<lambda>x. \<not> live d x) ls"
        by (intro find_index_cong_set) auto
      with l None P [of t] bad show ?thesis
        unfolding scan_step_def Let_def lane_version_match lane_subkey_match ls_def [symmetric]
        by (simp del: find_index_None)
    qed
  qed
qed

lemma prefix_of_lanes:
  assumes "prefix_of P b t" "length b = 16"
  shows "prefix_of P (lanes 0 b) (min 8 t)" "prefix_of P (lanes 8 b) (t - 8)"
  using assms by (auto simp: prefix_of_def lanes_def)

lemma lanes_nth: "length b = 16 \<Longrightarrow> j < 8 \<Longrightarrow> i \<le> 8 \<Longrightarrow> lanes i b ! j = b ! (i + j)"
  by (simp add: lanes_def)

lemma scan_loop_live:
  "scan_loop (shared_version d) k b =
    (case find_index (\<lambda>x. \<not> live d x \<or> subKey x = k) b of
       None \<Rightarrow> Full | Some j \<Rightarrow> if live d (b ! j) then Found j else Free j)"
  by (simp add: scan_loop_def live_def cong: option.case_cong)

lemma scan_bucket_loop:
  assumes len: "length b = 16" and pc: "filter (live d) b = takeWhile (live d) b"
  shows "scan_bucket (shared_version d) k b = scan_loop (shared_version d) k b"
proof -
  let ?F = "\<lambda>x. \<not> live d x \<or> subKey x = k"
  note p = prefix_of_lanes [OF prefix_of_exists [OF pc] len]
  have ne: "lanes 0 b \<noteq> []" "lanes 8 b \<noteq> []" using len by (auto simp: lanes_def)
  note s0 = scan_step_eq [OF p(1) ne(1), of k] and s8 = scan_step_eq [OF p(2) ne(2), of k]
  have l: "length (lanes 0 b) = 8" "length (lanes 8 b) = 8" using len by (simp_all add: lanes_def)
  have f: "find_index ?F b = (case find_index ?F (lanes 0 b) of Some i \<Rightarrow> Some i
      | None \<Rightarrow> map_option ((+) 8) (find_index ?F (lanes 8 b)))"
    using find_index_append [of ?F "lanes 0 b" "lanes 8 b"] lanes_split [OF len] l by metis
  have n0: "lanes 0 b ! j = b ! j" if "find_index ?F (lanes 0 b) = Some j" for j
    using find_index_SomeD [OF that] l lanes_nth [OF len, of j 0] by simp
  have n8: "lanes 8 b ! j = b ! (8 + j)" if "find_index ?F (lanes 8 b) = Some j" for j
    using find_index_SomeD [OF that] l lanes_nth [OF len, of j 8] by simp
  show ?thesis
  proof (cases "find_index ?F (lanes 0 b)")
    case (Some j)
    then show ?thesis unfolding scan_loop_live f scan_bucket_def s0 using n0 by simp
  next
    case None
    show ?thesis
    proof (cases "find_index ?F (lanes 8 b)")
      case (Some j)
      then show ?thesis unfolding scan_loop_live f scan_bucket_def s0 s8 using n8 None by (simp del: find_index_None)
    next
      case n: None
      show ?thesis unfolding scan_loop_live f scan_bucket_def s0 s8 using n None by (simp del: find_index_None)
    qed
  qed
qed

lemma scan_bucket_cases:
  assumes len: "length b = 16" and pc: "filter (live d) b = takeWhile (live d) b"
  shows "scan_bucket (shared_version d) k b = Found j \<Longrightarrow> j < 16 \<and> live d (b ! j) \<and> subKey (b ! j) = k"
    "scan_bucket (shared_version d) k b = Free j \<Longrightarrow> find_index (\<lambda>x. \<not> live d x) b = Some j \<and> hits d k b = []"
    "scan_bucket (shared_version d) k b = Full \<Longrightarrow> find_index (\<lambda>x. \<not> live d x) b = None \<and> hits d k b = []"
proof -
  let ?F = "\<lambda>x. \<not> live d x \<or> subKey x = k"
  note e = scan_bucket_loop [OF len pc, of k, unfolded scan_loop_live]
  show "j < 16 \<and> live d (b ! j) \<and> subKey (b ! j) = k" if "scan_bucket (shared_version d) k b = Found j"
  proof -
    from that have "find_index ?F b = Some j" "live d (b ! j)"
      unfolding e by (auto split: option.splits if_splits)
    with find_index_SomeD [OF this(1)] len show ?thesis by simp
  qed
  show "find_index (\<lambda>x. \<not> live d x) b = Some j \<and> hits d k b = []" if "scan_bucket (shared_version d) k b = Free j"
  proof -
    from that have j: "find_index ?F b = Some j" "\<not> live d (b ! j)"
      unfolding e by (auto split: option.splits if_splits)
    note F = find_index_SomeD [OF j(1)]
    have "find_index (\<lambda>x. \<not> live d x) b = Some j" using F j(2) by (auto simp: find_index_eq_Some_iff)
    moreover have "\<not> (live d (b ! i) \<and> subKey (b ! i) = k)" if i: "i < length b" for i
    proof (cases "i < j")
      case False
      have "\<not> live d (b ! i)"
      proof
        assume "live d (b ! i)"
        with pc [unfolded filter_eq_takeWhile_iff] i j(2) False show False by (metis linorder_neqE_nat)
      qed
      then show ?thesis by simp
    qed (use F in blast)
    then have "hits d k b = []" by (auto simp: hits_def filter_empty_conv all_set_conv_all_nth)
    ultimately show ?thesis by blast
  qed
  show "find_index (\<lambda>x. \<not> live d x) b = None \<and> hits d k b = []" if "scan_bucket (shared_version d) k b = Full"
  proof -
    from that have "find_index ?F b = None"
      unfolding e by (simp split: option.splits if_splits del: find_index_None)
    then show ?thesis by (auto simp: hits_def filter_empty_conv)
  qed
qed

subsection \<open>Locating a sub-key\<close>

lemma bucket_closed:
  assumes "seg_ok D ld s pre sg"
  shows "length (sg ! role_pos ld s m k) = 16"
    "filter (live (role_ver ld m)) (sg ! role_pos ld s m k) = takeWhile (live (role_ver ld m)) (sg ! role_pos ld s m k)"
proof -
  note o = seg_okD [OF assms]
  show "length (sg ! role_pos ld s m k) = 16" by (rule o(4) [OF role_pos_less [OF o(1)]])
  show "filter (live (role_ver ld m)) (sg ! role_pos ld s m k) = takeWhile (live (role_ver ld m)) (sg ! role_pos ld s m k)"
    using o(6) [of "top_bits k (ld + 4) mod 16"] o(7) [of "top_bits k (ld + 5) mod 32"]
    by (cases m) (simp_all add: role_pos_def role_ver_def bucket_ok_def)
qed

lemma locate_ok:
  fixes n :: "'v wrert_node" and k
  assumes ok: "node_ok D n"
  defines "e \<equiv> segment_node_of n k"
  defines "sg \<equiv> segs n ! segmentPtr e" and "pos \<equiv> \<lambda>m. role_pos (localDepth e) (window e) m k"
  shows "locate n k = AtKey p j \<Longrightarrow> \<exists>m. p = pos m \<and> j < 16 \<and> live (role_ver (localDepth e) m) (sg ! p ! j) \<and>
      subKey (sg ! p ! j) = k"
    "locate n k = Vacant m p j \<Longrightarrow> p = pos m \<and> node_map n k = None \<and>
      find_index (\<lambda>x. \<not> live (role_ver (localDepth e) m) x) (sg ! p) = Some j"
    "locate n k = NoRoom \<Longrightarrow> node_map n k = None \<and>
      find_index (\<lambda>x. \<not> live (Suc (localDepth e)) x) (sg ! pos True) = None"
proof -
  note s = node_entry(5) [OF ok, of k, folded e_def, folded sg_def]
  note ps = positions [OF ok, of k, folded e_def]
  let ?S = "scan_bucket (shared_version (localDepth e)) k (sg ! pos False)"
  let ?M = "scan_bucket (shared_version (Suc (localDepth e))) k (sg ! pos True)"
  have bS: "length (sg ! pos False) = 16" "filter (live (localDepth e)) (sg ! pos False) = takeWhile (live (localDepth e)) (sg ! pos False)"
    and bM: "length (sg ! pos True) = 16"
      "filter (live (Suc (localDepth e))) (sg ! pos True) = takeWhile (live (Suc (localDepth e))) (sg ! pos True)"
    using bucket_closed [OF s, of False k] bucket_closed [OF s, of True k] by (simp_all add: pos_def role_ver_def)
  note cS = scan_bucket_cases [OF bS] and cM = scan_bucket_cases [OF bM]
  have nm: "node_map n k = None" if "hits (localDepth e) k (sg ! pos False) = []" "hits (Suc (localDepth e)) k (sg ! pos True) = []"
    using that unfolding node_map_def entry_map_def smap_def occ_roles
    by (simp add: e_def [symmetric] sg_def [symmetric] pos_def role_ver_def)
  have l: "locate n k = (case ?S of Found j \<Rightarrow> AtKey (pos False) j
      | _ \<Rightarrow> (case ?M of Found j \<Rightarrow> AtKey (pos True) j
         | _ \<Rightarrow> (case ?S of Free j \<Rightarrow> Vacant False (pos False) j
             | _ \<Rightarrow> (case ?M of Free j \<Rightarrow> Vacant True (pos True) j | _ \<Rightarrow> NoRoom))))"
    unfolding locate_def Let_def e_def [symmetric] ps main_version_eq sg_def [symmetric] pos_def ..
  show "\<exists>m. p = pos m \<and> j < 16 \<and> live (role_ver (localDepth e) m) (sg ! p ! j) \<and> subKey (sg ! p ! j) = k"
    if "locate n k = AtKey p j"
  proof -
    from that consider "?S = Found j" "p = pos False" | "?M = Found j" "p = pos True"
      unfolding l by (auto split: scan.splits)
    then show ?thesis
    proof cases
      case 1
      with cS(1) show ?thesis by (intro exI [of _ False]) (simp add: role_ver_def)
    next
      case 2
      with cM(1) show ?thesis by (intro exI [of _ True]) (simp add: role_ver_def)
    qed
  qed
  show "p = pos m \<and> node_map n k = None \<and> find_index (\<lambda>x. \<not> live (role_ver (localDepth e) m) x) (sg ! p) = Some j"
    if "locate n k = Vacant m p j"
  proof (cases ?S)
    case (Found i)
    with that show ?thesis unfolding l by simp
  next
    case (Free i)
    then have "p = pos False" "\<not> m" "j = i" "hits (Suc (localDepth e)) k (sg ! pos True) = []"
      using that cM(2,3) unfolding l by (auto split: scan.splits)
    with cS(2) [OF Free] nm show ?thesis by (simp add: role_ver_def)
  next
    case Full
    then have "p = pos True" m "?M = Free j" using that unfolding l by (auto split: scan.splits)
    with cS(3) [OF Full] cM(2) nm show ?thesis by (simp add: role_ver_def)
  qed
  show "node_map n k = None \<and> find_index (\<lambda>x. \<not> live (Suc (localDepth e)) x) (sg ! pos True) = None"
    if "locate n k = NoRoom"
  proof -
    from that have "?S = Full" "?M = Full" unfolding l by (auto split: scan.splits)
    with cS(3) cM(3) nm show ?thesis by blast
  qed
qed

subsection \<open>A value overwritten in place\<close>

lemma live_value [simp]: "live d (x\<lparr>nodeFlag := f, slot_value := v\<rparr>) = live d x"
  by (simp add: live_def)

lemma filter_update_neither: "\<not> P (b ! j) \<Longrightarrow> \<not> P y \<Longrightarrow> filter P (b[j := y]) = filter P b"
proof (induction b arbitrary: j)
  case (Cons x b)
  then show ?case by (cases j) auto
qed simp

lemma length_filter_update: "j < length b \<Longrightarrow> P y = P (b ! j) \<Longrightarrow> length (filter P (b[j := y])) = length (filter P b)"
proof (induction b arbitrary: j)
  case (Cons x b)
  then show ?case by (cases j) auto
qed simp

lemma bucket_ok_value:
  assumes "bucket_ok d Q b" "j < length b"
  shows "bucket_ok d Q (b[j := (b ! j)\<lparr>nodeFlag := f, slot_value := v\<rparr>])"
proof -
  let ?b = "b[j := (b ! j)\<lparr>nodeFlag := f, slot_value := v\<rparr>]"
  have n: "live d (?b ! i) = live d (b ! i) \<and> subKey (?b ! i) = subKey (b ! i)" if "i < length b" for i
    using that assms(2) by (simp add: nth_list_update)
  have "\<forall>i<length ?b. live d (?b ! i) \<longrightarrow> (\<forall>q<i. live d (?b ! q))"
  proof (intro allI impI)
    fix i q assume i: "i < length ?b" "live d (?b ! i)" "q < i"
    then have "live d (b ! q)"
      using assms(1) n [of i] unfolding bucket_ok_def filter_eq_takeWhile_iff by simp
    with n [of q] i show "live d (?b ! q)" by simp
  qed
  moreover have "Q (subKey x)" if x: "x \<in> set ?b" "live d x" for x
  proof -
    from x(1) obtain i where "i < length b" "x = ?b ! i" by (auto simp: in_set_conv_nth)
    with n [of i] x(2) assms(1) show ?thesis unfolding bucket_ok_def by (metis nth_mem)
  qed
  ultimately show ?thesis unfolding bucket_ok_def filter_eq_takeWhile_iff by blast
qed

lemma seg_value:
  fixes v :: 'v and f
  assumes ok: "seg_ok D ld s pre sg" and kp: "top_bits k ld = pre"
    and j: "j < 16" "live (role_ver ld m) (sg ! role_pos ld s m k ! j)" "subKey (sg ! role_pos ld s m k ! j) = k"
  defines "y \<equiv> (sg ! role_pos ld s m k ! j)\<lparr>nodeFlag := f, slot_value := v\<rparr>"
  defines "sg' \<equiv> set_slot sg (role_pos ld s m k) j y"
  shows "seg_ok D ld s pre sg'" "\<And>k'. occ ld s sg' k' = (if k' = k then [y] else occ ld s sg k')"
proof -
  note o = seg_okD [OF ok]
  let ?p = "role_pos ld s m k"
  have p: "?p < 48" by (rule role_pos_less [OF o(1)])
  have jl: "j < length (sg ! ?p)" using o(4) [OF p] j(1) by simp
  have nth: "sg' ! q = (if q = ?p then (sg ! ?p)[j := y] else sg ! q)" if "q < 48" for q
    unfolding sg'_def by (rule set_slot_nth [OF o(3) p that])
  have h_same: "hits d k' (sg' ! q) = hits d k' (sg ! q)" if "q < 48" "k' \<noteq> k" for d k' q
    using nth [OF that(1)] j(3) that(2) by (auto simp: hits_def y_def intro!: filter_update_neither)
  have h_len: "length (hits d k' (sg' ! q)) = length (hits d k' (sg ! q))" if "q < 48" for d k' q
    using nth [OF that] jl by (auto simp: hits_def y_def intro!: length_filter_update)
  have oc_len: "length (occ ld s sg' k') = length (occ ld s sg k')" for k'
    unfolding occ_roles using h_len [OF role_pos_less [OF o(1)]] by simp
  have "y \<in> set (sg' ! ?p)" using nth [OF p] jl by (simp add: set_update_memI)
  then have "y \<in> set (hits (role_ver ld m) k (sg' ! ?p))" using j(2,3) by (simp add: hits_def y_def)
  then have "y \<in> set (occ ld s sg' k)" unfolding occ_roles by (cases m) auto
  moreover have "length (occ ld s sg' k) \<le> 1" unfolding oc_len by (rule o(8) [OF kp])
  ultimately have "occ ld s sg' k = [y]" by (rule single_occ)
  then show occ': "occ ld s sg' k' = (if k' = k then [y] else occ ld s sg k')" for k'
    unfolding occ_roles using h_same [OF role_pos_less [OF o(1)]] by auto
  have x_in: "sg ! ?p ! j \<in> set (sg ! ?p)" using jl by simp
  have upd: "x = y \<or> x \<in> set (sg ! q)" if "q < 48" "x \<in> set (sg' ! q)" for q x
    using nth [OF that(1)] that(2) set_update_subset_insert [of "sg ! ?p" j y] by (auto split: if_splits)
  have bo: "bucket_ok d Q (sg' ! q)" if "q < 48" "bucket_ok d Q (sg ! q)" for d Q q
    using nth [OF that(1)] that(2) bucket_ok_value [OF _ jl] by (auto simp: y_def)
  have so: "slot_ok D ld x" if "q < 48" "x \<in> set (sg' ! q)" for q x
    using upd [OF that] o(5) [OF that(1)] o(5) [OF p x_in] by (auto simp: y_def slot_ok_def)
  have mz: "migVersion x = 0" if "q < 48" "x \<in> set (sg' ! q)" "\<forall>x\<in>set (sg ! q). migVersion x = 0" for q x
  proof (cases "q = ?p")
    case True
    have "migVersion y = 0" using that(3) x_in True by (simp add: y_def)
    with upd [OF that(1,2)] that(3) show ?thesis by blast
  next
    case False
    with nth [OF that(1)] that(2,3) show ?thesis by simp
  qed
  have sp: "s + b < 48" if "b < 16" for b using o(1) that by auto
  show "seg_ok D ld s pre sg'"
    unfolding seg_ok_def
  proof (intro conjI allI impI ballI)
    show "length sg' = 48" using o(3) by (simp add: sg'_def set_slot_def)
    show "length (sg' ! q) = 16" if "q < 48" for q using nth [OF that] o(4) that p by simp
    show "slot_ok D ld x" if "q < 48" "x \<in> set (sg' ! q)" for q x by (rule so [OF that])
    show "bucket_ok ld (\<lambda>k. top_bits k (ld + 4) = pre * 16 + b) (sg' ! (s + b))" if "b < 16" for b
      by (rule bo [OF sp [OF that] o(6) [OF that]])
    show "bucket_ok (Suc ld) (\<lambda>k. top_bits k (ld + 5) = pre * 32 + i) (sg' ! main_pos s i)" if "i < 32" for i
      by (rule bo [OF main_pos_less o(7) [OF that]])
    show "length (occ ld s sg' k') \<le> 1" if "top_bits k' ld = pre" for k'
      unfolding oc_len by (rule o(8) [OF that])
    show "migVersion x = 0" if "ld = 0" "i < 32" "x \<in> set (sg' ! main_pos s i)" for i x
      by (rule mz [OF main_pos_less that(3)]) (use o(9) [OF that(1,2)] in blast)
    show "migVersion x = 0" if "ld = 1" "b < 16" "x \<in> set (sg' ! (s + b))" for b x
      by (rule mz [OF sp [OF that(2)] that(3)]) (use o(10) [OF that(1,2)] in blast)
  qed (use o(1,2) in simp_all)
qed

lemma slot_key:
  fixes n :: "'v wrert_node" and k
  defines "e \<equiv> segment_node_of n k"
  defines "x \<equiv> \<lambda>p j. segs n ! segmentPtr e ! p ! j"
  assumes ok: "node_ok D n" and p: "p = role_pos (localDepth e) (window e) m k"
    and j: "j < 16" "live (role_ver (localDepth e) m) (x p j)" "subKey (x p j) = k"
  shows "node_map n k = Some (slot_value (x p j), nodeFlag (x p j))"
proof -
  let ?e = "segment_node_of n k"
  let ?sg = "segs n ! segmentPtr ?e" and ?x = "x p j"
  note o = seg_okD [OF node_entry(5) [OF ok, of k]]
  note p = p [unfolded e_def] and j = j [unfolded e_def]
  have p48: "p < 48" unfolding p by (rule role_pos_less [OF o(1)])
  have "?x \<in> set (?sg ! p)" using j(1) o(4) [OF p48] by (simp add: x_def e_def)
  then have "?x \<in> set (hits (role_ver (localDepth ?e) m) k (?sg ! p))" using j by (simp add: hits_def)
  then have "?x \<in> set (occ (localDepth ?e) (window ?e) ?sg k)" unfolding occ_roles p by (cases m) auto
  from single_occ [OF this o(8) [OF refl]] show ?thesis
    by (simp add: node_map_def entry_map_def smap_def)
qed

lemma at_key:
  assumes ok: "node_ok D n" and a: "locate n k = AtKey p j"
  shows "node_map n k = Some (slot_value (segs n ! segmentPtr (segment_node_of n k) ! p ! j),
    nodeFlag (segs n ! segmentPtr (segment_node_of n k) ! p ! j))"
  using locate_ok(1) [OF ok a] slot_key [OF ok] by metis

text \<open>The slot that holds a sub-key gets a new value and node flag.\<close>

definition overwrite :: "'v wrert_node \<Rightarrow> u32 \<Rightarrow> 'v \<Rightarrow> bool \<Rightarrow> nat \<Rightarrow> nat \<Rightarrow> 'v wrert_node" where
  "overwrite n k v f p j =
     (let sn = segment_node_of n k; sg = segs n ! segmentPtr sn
      in n\<lparr>segs := (segs n)[segmentPtr sn := set_slot sg p j ((sg ! p ! j)\<lparr>nodeFlag := f, slot_value := v\<rparr>)]\<rparr>)"

lemma overwrite_slot:
  fixes n :: "'v wrert_node" and k
  defines "e \<equiv> segment_node_of n k"
  defines "x \<equiv> \<lambda>p j. segs n ! segmentPtr e ! p ! j"
  assumes ok: "node_ok D n" and p: "p = role_pos (localDepth e) (window e) m k"
    and j: "j < 16" "live (role_ver (localDepth e) m) (x p j)" "subKey (x p j) = k"
  shows "node_ok D (overwrite n k v f p j)" "node_map (overwrite n k v f p j) = (node_map n)(k \<mapsto> (v, f))"
proof -
  let ?e = "segment_node_of n k"
  let ?sg = "segs n ! segmentPtr ?e"
  note ne = node_entry [OF ok, of k]
  note o = seg_okD [OF ne(5)]
  note p = p [unfolded e_def] and j = j [unfolded x_def e_def]
  note sv = seg_value [OF ne(5) refl j [unfolded p], where v = v and f = f, folded p]
  have w: "overwrite n k v f p j = n\<lparr>segs := (segs n)[segmentPtr ?e :=
      set_slot ?sg p j ((?sg ! p ! j)\<lparr>nodeFlag := f, slot_value := v\<rparr>)]\<rparr>"
    by (simp add: overwrite_def Let_def)
  note u = node_update_seg [OF ok order_refl, where k = k, OF sv(1)]
  from u(1) w show "node_ok D (overwrite n k v f p j)" by simp
  show "node_map (overwrite n k v f p j) = (node_map n)(k \<mapsto> (v, f))"
  proof
    fix k'
    show "node_map (overwrite n k v f p j) k' = ((node_map n)(k \<mapsto> (v, f))) k'"
      unfolding w u(2) smap_def sv(2) using u(3) [of k'] by (auto simp: node_map_def entry_map_def smap_def)
  qed
qed

lemma overwrite_ok:
  assumes ok: "node_ok D n" and a: "locate n k = AtKey p j"
  shows "node_ok D (overwrite n k v f p j)" "node_map (overwrite n k v f p j) = (node_map n)(k \<mapsto> (v, f))"
  using locate_ok(1) [OF ok a] overwrite_slot [OF ok] by metis+

lemma set_value_overwrite:
  "set_value n k v p j = overwrite n k v (nodeFlag (segs n ! segmentPtr (segment_node_of n k) ! p ! j)) p j"
  by (simp add: set_value_def overwrite_def Let_def)

lemma set_value_ok:
  assumes "node_ok D n" and "locate n k = AtKey p j"
  shows "\<exists>w f. node_map n k = Some (w, f) \<and> node_ok D (set_value n k v p j) \<and>
    node_map (set_value n k v p j) = (node_map n)(k \<mapsto> (v, f))"
  unfolding set_value_overwrite using at_key [OF assms] overwrite_ok [OF assms] by blast

subsection \<open>Insertion\<close>

definition closed_node :: "'v wrert_node \<Rightarrow> bool" where
  "closed_node n \<longleftrightarrow> node_ok (dom (node_map n)) n"

lemma put_None_ok:
  assumes ok: "node_ok D n" and k: "k \<notin> D" and "localDepth (segment_node_of n k) \<le> 22"
  shows "\<exists>n'. put put_fuel z n k v fp nf None = Inr n' \<and> node_ok (insert k D) n' \<and>
    node_map n' = (node_map n)(k \<mapsto> (v, nf))"
proof -
  from split_for_ok [OF ok assms(3), of z] obtain n1 where
    n1: "split_for z n k = Inr n1" "node_ok D n1" "node_map n1 = node_map n" by blast
  have "24 \<le> put_fuel + localDepth (segment_node_of n1 k)" by (simp add: put_fuel_def)
  from putSegNode_ok [OF n1(2) k this, of z v fp nf] n1 show ?thesis by simp
qed

lemma node_insert_ok:
  assumes c: "closed_node n"
  shows "\<exists>n' f. node_insert put_fuel z n k v fp = Inr n' \<and> closed_node n' \<and>
    node_map n' = (node_map n)(k \<mapsto> (v, f)) \<and> f = (case node_map n k of None \<Rightarrow> False | Some (w, f) \<Rightarrow> f)"
proof -
  let ?D = "dom (node_map n)"
  have ok: "node_ok ?D n" using c by (simp add: closed_node_def)
  note nb = node_entry(6) [OF ok, of k]
  let ?e = "segment_node_of n k"
  have done_new: ?thesis if "node_map n k = None" "node_insert put_fuel z n k v fp = Inr n'" "node_ok (insert k ?D) n'"
      "node_map n' = (node_map n)(k \<mapsto> (v, False))" for n'
    using that by (intro exI [of _ n'] exI [of _ False]) (simp add: closed_node_def)
  show ?thesis
  proof (cases "locate n k")
    case (AtKey p j)
    from set_value_ok [OF ok AtKey, of v] obtain w f where
      r: "node_map n k = Some (w, f)" "node_ok ?D (set_value n k v p j)"
      "node_map (set_value n k v p j) = (node_map n)(k \<mapsto> (v, f))" by blast
    then have "insert k ?D = ?D" by (simp add: insert_absorb domI)
    with r nb AtKey show ?thesis
      by (intro exI [of _ "set_value n k v p j"] exI [of _ f]) (simp add: node_insert_def closed_node_def)
  next
    case (Vacant m p j)
    note l = locate_ok(2) [OF ok Vacant]
    then have kn: "node_map n k = None" and kD: "k \<notin> ?D" by auto
    have p: "p = role_pos (localDepth ?e) (window ?e) m k"
      and j: "find_index (\<lambda>x. \<not> live (role_ver (localDepth ?e) m) x) (segs n ! segmentPtr ?e ! p) = Some j"
      using l by blast+
    show ?thesis
      by (rule done_new [OF kn _ write_slot_ok [OF ok kD p j, of v fp False]])
        (use Vacant nb in \<open>simp add: node_insert_def\<close>)
  next
    case NoRoom
    note l = locate_ok(3) [OF ok NoRoom]
    then have kn: "node_map n k = None" and kD: "k \<notin> ?D" by auto
    have "localDepth ?e \<le> 22" by (rule full_main_bound [OF ok kD conjunct2 [OF l]])
    from put_None_ok [OF ok kD this, of z v fp False] obtain n' where
      n': "put put_fuel z n k v fp False None = Inr n'" "node_ok (insert k ?D) n'"
      "node_map n' = (node_map n)(k \<mapsto> (v, False))" by blast
    show ?thesis
      by (rule done_new [OF kn _ n'(2,3)]) (use NoRoom nb n'(1) in \<open>simp add: node_insert_def\<close>)
  qed
qed

end
