(* ===== verification/Wrert_Node_Props.thy ===== *)
theory Wrert_Node_Props
  imports Wrert_Insert
begin

text \<open>
  What the hash node of \<^verbatim>\<open>wrert/wrert_node.cpp\<close> promises: starting from a new node, any
  sequence of insertions succeeds, with all the segment splits and directory doublings it
  causes, and lookups read the last value; depths stay within the shifts' range.
\<close>

subsection \<open>A new node\<close>

lemma zero_segment_ok: "seg_ok D 0 0 0 (NewWRERTSegment z)"
proof -
  let ?sg = "NewWRERTSegment z"
  have b: "?sg ! p = replicate 16 (zero_slot z)" if "p < 48" for p by (rule zero_segment_nth [OF that])
  have nl: "\<not> live d (zero_slot z)" for d by (simp add: live_def zero_slot_def)
  have bo: "bucket_ok d Q (replicate 16 (zero_slot z))" for d Q
    using nl [of d] by (simp add: bucket_ok_def)
  have h: "hits d k (replicate 16 (zero_slot z)) = []" for d k
    using nl [of d] by (simp add: hits_def)
  have oc: "occ 0 0 ?sg k = []" for k
    using b [OF role_pos_less [of 0 0 _ k]] by (simp add: occ_roles h)
  have mp: "main_pos 0 i < 48" for i by (rule main_pos_less)
  show ?thesis
    unfolding seg_ok_def oc using b mp bo zero_slot_ok by (auto simp: NewWRERTSegment_def zero_slot_def)
qed

lemma new_node_ok: "closed_node (NewWRERTNode z depth 0)" "node_map (NewWRERTNode z depth 0) = Map.empty"
proof -
  let ?n = "NewWRERTNode z depth 0"
  have f: "globalDepth ?n = 0" "capacity ?n = 1" "directory ?n = [\<lparr>localDepth = 0, sharedBucketOffset = 0, segmentPtr = 0\<rparr>]"
    "segs ?n = [NewWRERTSegment z]" by (simp_all add: NewWRERTNode_def)
  have ok: "node_ok D ?n" for D
    unfolding node_ok_def Let_def f using zero_segment_ok [of D z] by (simp add: window_def)
  show m: "node_map ?n = Map.empty" using node_map_keys [OF ok [of "{}"]] by (simp add: fun_eq_iff)
  show "closed_node ?n" unfolding closed_node_def m by (rule ok)
qed

subsection \<open>The node as an index\<close>

definition value_node_ok :: "'v wrert_node \<Rightarrow> bool" where
  "value_node_ok n \<longleftrightarrow> closed_node n \<and> (\<forall>k w f. node_map n k = Some (w, f) \<longrightarrow> \<not> f)"

definition value_map :: "'v wrert_node \<Rightarrow> u32 \<Rightarrow> 'v option" where
  "value_map n k = map_option fst (node_map n k)"

definition node_put :: "'v \<Rightarrow> 'v wrert_node \<Rightarrow> u32 \<Rightarrow> 'v \<Rightarrow> 'v wrert_node res" where
  "node_put z n k v = node_insert put_fuel z n k v 0"

definition node_get :: "'v wrert_node \<Rightarrow> u32 \<Rightarrow> 'v option res" where
  "node_get n k = map_sum id (map_option slot_value) (getSegNode n k)"

lemma node_get_ok: "closed_node n \<Longrightarrow> node_get n k = Inr (value_map n k)"
proof -
  assume "closed_node n"
  then obtain r where "getSegNode n k = Inr r" "map_option (\<lambda>x. (slot_value x, nodeFlag x)) r = node_map n k"
    using getSegNode_correct unfolding closed_node_def by blast
  then show ?thesis
    by (auto simp: node_get_def value_map_def option.map_comp o_def simp flip: \<open>_ = node_map n k\<close>)
qed

lemma node_put_ok:
  assumes "value_node_ok n"
  shows "\<exists>n'. node_put z n k v = Inr n' \<and> value_node_ok n' \<and> value_map n' = (value_map n)(k \<mapsto> v)"
proof -
  from assms have c: "closed_node n" and nf: "\<And>k w f. node_map n k = Some (w, f) \<Longrightarrow> \<not> f"
    by (auto simp: value_node_ok_def)
  from node_insert_ok [OF c, of z k v 0] obtain n' f where
    n': "node_insert put_fuel z n k v 0 = Inr n'" "closed_node n'" "node_map n' = (node_map n)(k \<mapsto> (v, f))"
    and f: "f = (case node_map n k of None \<Rightarrow> False | Some (w, f) \<Rightarrow> f)" by blast
  have "\<not> f" using nf unfolding f by (auto split: option.splits)
  with n' nf show ?thesis by (auto simp: node_put_def value_node_ok_def value_map_def fun_eq_iff)
qed

interpretation wrert_node: index value_node_ok value_map "node_put z" node_get
proof unfold_locales
  show "value_node_ok n \<Longrightarrow> \<exists>n'. node_put z n k v = Inr n' \<and> value_node_ok n' \<and> value_map n' = (value_map n)(k \<mapsto> v)" for n k v
    by (rule node_put_ok)
  show "value_node_ok n \<Longrightarrow> node_get n k = Inr (value_map n k)" for n k
    by (rule node_get_ok) (simp add: value_node_ok_def)
qed

lemma new_value_node: "value_node_ok (NewWRERTNode z depth 0)" "value_map (NewWRERTNode z depth 0) = Map.empty"
  by (simp_all add: value_node_ok_def value_map_def fun_eq_iff new_node_ok)

text \<open>
  C2.  Starting from a new node, any sequence of insertions of 32-bit sub-keys succeeds,
  including every segment split, bucket migration and directory doubling on the way; then
  the SIMD lookup of any sub-key returns the last value inserted for it, or nothing.
\<close>

theorem wrert_node_history:
  "\<exists>n. run_puts (node_put z) (NewWRERTNode z depth 0) kvs = Inr n \<and>
     (\<forall>k. node_get n k = Inr (map_of (rev kvs) k))"
  using wrert_node.get_history [where s = "NewWRERTNode z depth 0" and z = z and kvs = kvs, OF new_value_node] by blast

text \<open>
  C12.  In every node that insertions can build, the directory has \<open>2 ^ globalDepth\<close>
  entries, the global depth is at most 23 and bounds every local depth, so no shift count of
  the index computations is negative and \<open>put\<close>'s recursion through \<open>putSegNode\<close> ends.
\<close>

theorem wrert_node_depths:
  "\<exists>n. run_puts (node_put z) (NewWRERTNode z depth 0) kvs = Inr n \<and>
     globalDepth n \<le> 23 \<and> length (directory n) = 2 ^ globalDepth n \<and> capacity n = 2 ^ globalDepth n \<and>
     list_all (\<lambda>e. localDepth e \<le> globalDepth n \<and> window e \<in> {0, 16, 32} \<and> segmentPtr e < length (segs n)) (directory n)"
proof -
  from wrert_node.get_history [where s = "NewWRERTNode z depth 0" and z = z and kvs = kvs, OF new_value_node] obtain n where
    r: "run_puts (node_put z) (NewWRERTNode z depth 0) kvs = Inr n" and "value_node_ok n" by blast
  then have ok: "node_ok (dom (node_map n)) n" by (simp add: value_node_ok_def closed_node_def)
  note o = node_okD [OF ok]
  have "list_all (\<lambda>e. localDepth e \<le> globalDepth n \<and> window e \<in> {0, 16, 32} \<and> segmentPtr e < length (segs n)) (directory n)"
    unfolding list_all_length o(3) using o(4,5) seg_okD(1) [OF o(6)] by blast
  with r o(1,2,3) show ?thesis by blast
qed

subsection \<open>Single operations\<close>

text \<open>
  C9.  \<open>putSegNode\<close> on a node that does not hold the sub-key inserts it, with its value and
  node flag, whatever its version test on 8 bits makes of empty slots, and 32 levels of
  recursion are enough.
\<close>

theorem putSegNode_inserts:
  assumes "closed_node n" and "node_map n k = None"
  shows "\<exists>n'. putSegNode put_fuel z n k v fp nf = Inr n' \<and> closed_node n' \<and>
    node_map n' = (node_map n)(k \<mapsto> (v, nf))"
proof -
  have "24 \<le> put_fuel + localDepth (segment_node_of n k)" by (simp add: put_fuel_def)
  with assms putSegNode_ok [of "dom (node_map n)" n k put_fuel z v fp nf] show ?thesis
    by (auto simp: closed_node_def domIff)
qed

theorem putSegNode_inserts_witness:
  "\<exists>n'. putSegNode put_fuel (0 :: 48 word) (NewWRERTNode 0 0 0) 7 42 0 False = Inr n' \<and> node_map n' 7 = Some (42, False)"
  using putSegNode_inserts [OF new_node_ok(1), of 0 0 7 0 42 0 False] by (auto simp: new_node_ok(2))

text \<open>
  C10.  Splitting the segment of a sub-key, through either branch of \<open>put\<close>, changes no
  lookup and makes the segment one level deeper, as long as its depth is at most 22; a full
  main bucket implies that bound.
\<close>

theorem split_keeps_map:
  assumes "closed_node n" and "localDepth (segment_node_of n k) \<le> 22"
  shows "\<exists>n'. split_for z n k = Inr n' \<and> closed_node n' \<and> node_map n' = node_map n \<and>
    localDepth (segment_node_of n' k) = Suc (localDepth (segment_node_of n k))"
  using split_for_ok [of "dom (node_map n)" n k z] assms by (auto simp: closed_node_def)

theorem split_keeps_map_witness:
  "\<exists>n'. split_for (0 :: 48 word) (NewWRERTNode 0 0 0) 7 = Inr n' \<and> localDepth (segment_node_of n' 7) = 1"
proof -
  have d: "localDepth (segment_node_of (NewWRERTNode (0 :: 48 word) 0 0) 7) = 0"
    by (simp add: segment_node_of_def NewWRERTNode_def get_segment_number_def)
  then show ?thesis
    using split_keeps_map [OF new_node_ok(1), of "0 :: 48 word" 0 7 "0 :: 48 word"] by simp metis
qed

text \<open>
  C11.  On a bucket whose live slots come first, as all buckets of a node do, the SIMD scan
  of \<open>WRERT::insert\<close> gives the result of the scalar loop it replaces.
\<close>

theorem simd_scan_is_loop:
  assumes "length b = 16"
    and "filter (\<lambda>x. validFlag x \<and> migVersion x = shared_version d) b =
         takeWhile (\<lambda>x. validFlag x \<and> migVersion x = shared_version d) b"
  shows "scan_bucket (shared_version d) k b = scan_loop (shared_version d) k b"
proof (rule scan_bucket_loop [OF assms(1)])
  have "live d = (\<lambda>x :: 'a slot. validFlag x \<and> migVersion x = shared_version d)"
    by (simp add: fun_eq_iff live_def)
  with assms(2) show "filter (live d) b = takeWhile (live d) b" by simp
qed

theorem simd_scan_is_loop_witness:
  "scan_bucket (shared_version 3) 5 (replicate 16 ((zero_slot (0 :: 48 word))\<lparr>subKey := 5, validFlag := True, migVersion := 2\<rparr>))
     = Found 0"
proof -
  let ?x = "(zero_slot (0 :: 48 word))\<lparr>subKey := 5, validFlag := True, migVersion := 2\<rparr>"
  let ?b = "replicate 16 ?x"
  have v: "migVersion ?x = shared_version 3" "validFlag ?x" by (simp_all add: shared_version_def)
  have "filter (\<lambda>x. validFlag x \<and> migVersion x = shared_version 3) ?b =
      takeWhile (\<lambda>x. validFlag x \<and> migVersion x = shared_version 3) ?b"
    using v by simp
  then have "scan_bucket (shared_version 3) 5 ?b = scan_loop (shared_version 3) 5 ?b"
    by (intro simd_scan_is_loop) simp_all
  also have "\<dots> = Found 0" by (simp add: scan_loop_def shared_version_def eval_nat_numeral)
  finally show ?thesis .
qed

end

