(* ===== verification/Wrert.thy ===== *)
theory Wrert
  imports Wrert_Node_Props
begin

text \<open>
  The tree of \<^verbatim>\<open>wrert/wrert.cpp\<close>: keys of 8 bytes are consumed 4 bytes at a time by hash
  nodes, which may skip a prefix kept in their header.  Nodes and key-value pairs live in
  persistent memory; here they are lists and a pointer is an index.  A slot's 48-bit value
  field holds a value, a pointer to a pair or, with \<open>nodeFlag\<close>, a pointer to a node; the
  model keeps them apart as \<open>payload\<close>, so that reading one as another shows as
  \<^const>\<open>WildAccess\<close>.  \<open>globalSegmentPtr\<close> is never assigned in the code and stays 0.
\<close>

subsection \<open>Slots\<close>

definition isInvalidSharedSlot :: "'v slot \<Rightarrow> nat \<Rightarrow> bool" where
  "isInvalidSharedSlot x version \<longleftrightarrow> \<not> validFlag x \<or> (version \<noteq> 0 \<and> migVersion x \<noteq> shared_version version)"

definition isInvalidMainSlot :: "'v slot \<Rightarrow> nat \<Rightarrow> bool" where
  "isInvalidMainSlot x version \<longleftrightarrow> \<not> validFlag x \<or> (version \<noteq> 0 \<and> migVersion x \<noteq> main_version version)"

subsection \<open>Header operations\<close>

definition get_subkey :: "u64 \<Rightarrow> nat \<Rightarrow> nat \<Rightarrow> u64 res" where
  "get_subkey key start len =
     (if start + len > 64 \<or> start + len = 0 \<or> len \<ge> 64 then Inl BadShift
      else Inr (drop_bit (64 - start - len) key AND mask len))"

text \<open>
  The number of whole 4-byte groups of the prefix that match; -1 for a node without prefix.
  The code means to count the matching bytes in \<open>arrayMatchLength\<close>, but increments its own
  copy of the pointer, so the caller's variable is never written.
\<close>

definition prefix_byte :: "nat \<Rightarrow> u64 \<Rightarrow> nat \<Rightarrow> u8" where
  "prefix_byte pl subkey j = ucast (drop_bit (56 - j * 8) (push_bit (64 - pl * 32) subkey) AND 0xFF)"

definition computePrefix :: "wrert_header \<Rightarrow> u64 \<Rightarrow> nat \<Rightarrow> int res" where
  "computePrefix h key start =
     (if prefixLength h = 6 then Inr (-1)
      else if prefixLength h = 0 then Inr 0
      else (case get_subkey key start (prefixLength h * 32) of
              Inl e \<Rightarrow> Inl e
            | Inr s \<Rightarrow>
                Inr (int (length (filter
                  (\<lambda>i. length (takeWhile (\<lambda>j. prefix_byte (prefixLength h) s j = prefixArray h ! j)
                                [i * 4..<min ((i + 1) * 4) 6]) = 4)
                  [0..<prefixLength h])))))"

text \<open>\<open>assignPrefix\<close> from a key, as the new prefix array.\<close>

definition assignPrefix :: "nat \<Rightarrow> u64 \<Rightarrow> nat \<Rightarrow> u8 list res" where
  "assignPrefix pl key start =
     (case get_subkey key start (pl * 32) of
        Inl e \<Rightarrow> Inl e
      | Inr s \<Rightarrow>
          if pl * 32 > 48 then Inl BadShift
          else Inr (map (\<lambda>i. ucast (drop_bit ((5 - i) * 8) (push_bit (48 - pl * 32) s) AND 0xFF)) [0..<6]))"

definition prefix_array_bits :: "u8 list \<Rightarrow> nat \<Rightarrow> nat \<Rightarrow> u64 res" where
  "prefix_array_bits a start len =
     (if start + len > length a then Inl OutOfBounds
      else Inr (fold (\<lambda>i r. push_bit 8 r OR ucast (a ! (start + i))) [0..<len] 0))"

text \<open>The loops that drop the first \<open>pm + 1\<close> groups of the prefix.\<close>

definition shift_prefix :: "nat \<Rightarrow> u8 list \<Rightarrow> u8 list" where
  "shift_prefix pm a = fold (\<lambda>j a. a[j := (if j + 4 < 6 then a ! (j + 4) else 0)]) [0..<(pm + 1) * 4] a"

subsection \<open>The tree\<close>

datatype payload = Val "48 word" | KvAt nat | NodeAt nat

text \<open>\<open>beforeAddress\<close>: the root pointer, or the slot of a node that points to the current one.\<close>

datatype link = RootLink | SlotLink nat nat nat nat

record wrert =
  root :: nat
  nodes :: "payload wrert_node list"
  pairs :: "(u64 \<times> u64) list"

datatype op_result = Success | Failed | NotFound

definition result_code :: "op_result \<Rightarrow> u64" where
  "result_code r = (case r of Failed \<Rightarrow> -1 | Success \<Rightarrow> 0 | NotFound \<Rightarrow> -2)"

definition new_node :: "payload wrert_node" where
  "new_node = NewWRERTNode (Val 0) 0 0"

definition NewWRERT :: wrert where
  "NewWRERT = \<lparr>root = 0, nodes = [new_node], pairs = []\<rparr>"

text \<open>Writing the pointer to a node through \<open>beforeAddress\<close>, as a root or as a slot.\<close>

definition relink :: "wrert \<Rightarrow> link \<Rightarrow> nat \<Rightarrow> nat \<Rightarrow> wrert res" where
  "relink T l depth i =
     (case l of
        RootLink \<Rightarrow> if depth = 0 then Inr (T\<lparr>root := i\<rparr>) else Inl WildAccess
      | SlotLink c g p j \<Rightarrow>
          if depth = 0 then Inl WildAccess
          else (let n = nodes T ! c; sg = segs n ! g
                in Inr (T\<lparr>nodes := (nodes T)[c := n\<lparr>segs := (segs n)[g :=
                     set_slot sg p j ((sg ! p ! j)\<lparr>slot_value := NodeAt i\<rparr>)]\<rparr>]\<rparr>)))"

text \<open>
  After an operation on the node at \<open>c\<close>: it changed in place, or its directory was doubled
  into a new node, which the code links in place of the old one.
\<close>

definition store_node :: "wrert \<Rightarrow> link \<Rightarrow> nat \<Rightarrow> payload wrert_node \<Rightarrow> wrert res" where
  "store_node T l c n' =
     (if globalDepth n' = globalDepth (nodes T ! c) then Inr (T\<lparr>nodes := (nodes T)[c := n']\<rparr>)
      else relink (T\<lparr>nodes := nodes T @ [n']\<rparr>) l (nodeHeaderDepth (header n')) (length (nodes T)))"

subsection \<open>Insertion\<close>

text \<open>
  Case 3, a prefix that does not match: a new node takes the matching part of the prefix,
  the new pair and the old node.  The bit position adds \<open>pm\<close> groups as bytes, and the sub-key
  of the old node is read from its prefix.  The code goes on with the pointer to the new
  node, which a doubling of its directory would leave stale.
\<close>

definition split_prefix :: "wrert \<Rightarrow> u64 \<Rightarrow> u64 \<Rightarrow> nat \<Rightarrow> nat \<Rightarrow> link \<Rightarrow> nat \<Rightarrow> wrert res" where
  "split_prefix T key v c pos l pm =
     (let n = nodes T ! c; h = header n;
          nn = new_node\<lparr>header := header_initialize (Some h) pm (nodeHeaderDepth h) (header new_node)\<rparr>;
          depth = nodeHeaderDepth h
      in case get_subkey key ((pos + pm) * 8) 32 of
           Inl e \<Rightarrow> Inl e
         | Inr s \<Rightarrow>
             (case putSegNode put_fuel (Val 0) nn (ucast s) (KvAt (length (pairs T))) 0 False of
                Inl e \<Rightarrow> Inl e
              | Inr n1 \<Rightarrow>
                  (case prefix_array_bits (prefixArray h) (pm * 4) 4 of
                     Inl e \<Rightarrow> Inl e
                   | Inr b \<Rightarrow>
                       (case putSegNode put_fuel (Val 0) n1 (ucast b) (NodeAt c) 0 True of
                          Inl e \<Rightarrow> Inl e
                        | Inr n2 \<Rightarrow>
                            if globalDepth n2 \<noteq> 0 then Inl WildAccess
                            else
                              (let h' = \<lparr>nodeHeaderDepth = (pm + depth + 1) mod 256,
                                         prefixLength = nat ((int (prefixLength h) - int (pm + depth + 1)) mod 256),
                                         prefixArray = shift_prefix pm (prefixArray h)\<rparr>
                               in relink (T\<lparr>nodes := (nodes T)[c := n\<lparr>header := h'\<rparr>] @ [n2],
                                            pairs := pairs T @ [(key, v)]\<rparr>)
                                    l depth (length (nodes T)))))))"

text \<open>A sub-key that is new to an inner node: a pair is stored unless the caller passes one.\<close>

definition insert_pair :: "wrert \<Rightarrow> u64 \<Rightarrow> u64 \<Rightarrow> nat \<Rightarrow> u32 \<Rightarrow> link \<Rightarrow> nat option \<Rightarrow> wrert res" where
  "insert_pair T key v c k l kv =
     (let (T1, i) = (case kv of Some i \<Rightarrow> (T, i)
                     | None \<Rightarrow> (T\<lparr>pairs := pairs T @ [(key, v)]\<rparr>, length (pairs T)))
      in case node_insert put_fuel (Val 0) (nodes T ! c) k (KvAt i) 0 of
           Inl e \<Rightarrow> Inl e
         | Inr n' \<Rightarrow> store_node T1 l c n')"

definition slot_at :: "payload wrert_node \<Rightarrow> nat \<Rightarrow> nat \<Rightarrow> nat \<Rightarrow> payload slot" where
  "slot_at n g p j = segs n ! g ! p ! j"

text \<open>The slot of an inner node becomes a pointer to a child.\<close>

definition set_child :: "wrert \<Rightarrow> nat \<Rightarrow> nat \<Rightarrow> nat \<Rightarrow> nat \<Rightarrow> nat \<Rightarrow> wrert" where
  "set_child T c g p j d =
     (let n = nodes T ! c; sg = segs n ! g
      in T\<lparr>nodes := (nodes T)[c := n\<lparr>segs := (segs n)[g :=
           set_slot sg p j ((sg ! p ! j)\<lparr>nodeFlag := True, slot_value := NodeAt d\<rparr>)]\<rparr>]\<rparr>)"

definition child_node :: "wrert_header \<Rightarrow> nat \<Rightarrow> payload wrert_node" where
  "child_node h pos = new_node\<lparr>header := header_initialize (Some h) 0 (pos div 4) (header new_node)\<rparr>"

text \<open>
  The loop of \<open>WRERT::insert\<close>, at node \<open>c\<close> and key byte \<open>pos\<close>.  Case 1 of the code needs
  \<open>pos + arrayMatchLength = 8\<close>, and \<open>arrayMatchLength\<close> is always 0.  The start of the prefix is
  \<open>pos << 2\<close> bits in the call of \<open>computePrefix\<close> and \<open>pos * 8\<close> bits everywhere else.
\<close>

function insert_at ::
  "wrert \<Rightarrow> u64 \<Rightarrow> u64 \<Rightarrow> nat \<Rightarrow> nat \<Rightarrow> link \<Rightarrow> nat option \<Rightarrow> (wrert \<times> op_result) res"
where
  "insert_at T key v c pos l kv =
     (if pos \<ge> 8 then Inr (T, Failed)
      else if c \<ge> length (nodes T) then Inl NullDeref
      else
        let n = nodes T ! c; h = header n in
        case computePrefix h key (pos * 4) of
          Inl e \<Rightarrow> Inl e
        | Inr pm \<Rightarrow>
            if pm = -1 then
              (case assignPrefix 1 key (pos * 8) of
                 Inl e \<Rightarrow> Inl e
               | Inr a \<Rightarrow>
                   insert_at (T\<lparr>nodes := (nodes T)[c := n\<lparr>header := h\<lparr>prefixLength := 1, prefixArray := a\<rparr>\<rparr>]\<rparr>)
                     key v c pos l kv)
            else if pm = int (prefixLength h) then
              (case get_subkey key ((pos + prefixLength h * 4) * 8) 32 of
                 Inl e \<Rightarrow> Inl e
               | Inr s \<Rightarrow>
                   let k = ucast s; pos' = pos + prefixLength h * 4 + 4 in
                   if bad_depths n k then Inl BadShift
                   else if pos' = 8 then
                     (case node_insert put_fuel (Val 0) n k (Val (ucast v)) 0 of
                        Inl e \<Rightarrow> Inl e
                      | Inr n' \<Rightarrow> map_sum id (\<lambda>T'. (T', Success)) (store_node T l c n'))
                   else
                     (case locate n k of
                        AtKey p j \<Rightarrow>
                          let g = segmentPtr (segment_node_of n k); x = slot_at n g p j in
                          (case (nodeFlag x, slot_value x) of
                             (True, NodeAt d) \<Rightarrow> insert_at T key v d pos' (SlotLink c g p j) kv
                           | (False, KvAt i) \<Rightarrow>
                               if i \<ge> length (pairs T) then Inl WildAccess
                               else if fst (pairs T ! i) = key then
                                 Inr (T\<lparr>pairs := (pairs T)[i := (key, v)]\<rparr>, Success)
                               else
                                 let d = length (nodes T);
                                     T1 = T\<lparr>nodes := nodes T @ [child_node h pos']\<rparr> in
                                 (case insert_at T1 (fst (pairs T ! i)) (snd (pairs T ! i)) d pos' RootLink (Some i) of
                                    Inl e \<Rightarrow> Inl e
                                  | Inr (T2, _) \<Rightarrow>
                                      (case insert_at T2 key v d pos' RootLink kv of
                                         Inl e \<Rightarrow> Inl e
                                       | Inr (T3, _) \<Rightarrow> Inr (set_child T3 c g p j d, Success)))
                           | _ \<Rightarrow> Inl WildAccess)
                      | _ \<Rightarrow> map_sum id (\<lambda>T'. (T', Success)) (insert_pair T key v c k l kv)))
            else if prefixLength h \<noteq> 0 \<and> pm < int (prefixLength h) then
              map_sum id (\<lambda>T'. (T', Success)) (split_prefix T key v c pos l (nat pm))
            else Inl NoReturn)"
  by pat_completeness auto

lemma computePrefix_minus_one: "computePrefix h key s = Inr (-1) \<longleftrightarrow> prefixLength h = 6"
  by (simp add: computePrefix_def split: sum.splits)

termination insert_at
proof (relation "measures [\<lambda>(T, key, v, c, pos, l, kv). 8 - pos,
    \<lambda>(T, key, v, c, pos, l, kv). if prefixLength (header (nodes T ! c)) = 6 then 1 else 0]")
qed (auto simp: computePrefix_minus_one)

definition wrert_insert :: "wrert \<Rightarrow> u64 \<Rightarrow> u64 \<Rightarrow> (wrert \<times> op_result) res" where
  "wrert_insert T key v = insert_at T key v (root T) 0 RootLink None"

subsection \<open>Lookup\<close>

text \<open>
  \<open>junk\<close> is what the uninitialised variable \<open>arrayMatchLength\<close> holds.  If it sends the code to
  the global segment of the node, the code reads through the null pointer.
\<close>

definition skip_node_prefix :: "u32 \<Rightarrow> wrert_header \<Rightarrow> u64 \<Rightarrow> nat \<Rightarrow> nat option res" where
  "skip_node_prefix junk h key pos =
     (if prefixLength h = 0 then Inr (Some pos)
      else case computePrefix h key (pos * 8) of
             Inl e \<Rightarrow> Inl e
           | Inr pm \<Rightarrow>
               if junk \<noteq> 0 \<and> of_nat pos + junk \<le> of_nat (prefixLength h * 4) then Inl NullDeref
               else if int (prefixLength h) = pm then Inr (Some (pos + prefixLength h * 4))
               else Inr None)"

function search_at :: "u32 \<Rightarrow> wrert \<Rightarrow> u64 \<Rightarrow> nat \<Rightarrow> nat \<Rightarrow> u64 res" where
  "search_at junk T key c pos =
     (if pos \<ge> 8 then Inr (result_code NotFound)
      else if c \<ge> length (nodes T) then Inl NullDeref
      else
        let n = nodes T ! c; h = header n in
        case skip_node_prefix junk h key pos of
          Inl e \<Rightarrow> Inl e
        | Inr None \<Rightarrow> Inr (result_code Failed)
        | Inr (Some pos1) \<Rightarrow>
            (case get_subkey key (pos1 * 8) 32 of
               Inl e \<Rightarrow> Inl e
             | Inr s \<Rightarrow>
                 (case getSegNode n (ucast s) of
                    Inl e \<Rightarrow> Inl e
                  | Inr None \<Rightarrow> Inr (result_code Failed)
                  | Inr (Some x) \<Rightarrow>
                      let pos2 = pos1 + (if prefixLength h = 0 then 4 else prefixLength h * 4) in
                      (case (nodeFlag x, slot_value x) of
                         (True, NodeAt d) \<Rightarrow> search_at junk T key d pos2
                       | (False, Val w) \<Rightarrow> if pos2 = 8 then Inr (ucast w) else Inl WildAccess
                       | (False, KvAt i) \<Rightarrow>
                           if pos2 = 8 \<or> i \<ge> length (pairs T) then Inl WildAccess
                           else if fst (pairs T ! i) = key then Inr (snd (pairs T ! i))
                           else Inr (result_code Failed)
                       | _ \<Rightarrow> Inl WildAccess))))"
  by pat_completeness auto

lemma skip_node_prefix_ge: "skip_node_prefix junk h key pos = Inr (Some pos') \<Longrightarrow> pos \<le> pos'"
  by (auto simp: skip_node_prefix_def split: sum.splits if_splits)

termination search_at
  by (relation "measure (\<lambda>(junk, T, key, c, pos). 8 - pos)") (auto dest!: skip_node_prefix_ge)

definition wrert_search :: "u32 \<Rightarrow> wrert \<Rightarrow> u64 \<Rightarrow> u64 res" where
  "wrert_search junk T key = search_at junk T key (root T) 0"

end
