(* ===== verification/Wrert_Tree.thy ===== *)
theory Wrert_Tree
  imports Wrert
begin

text \<open>
  The tree as a map.  Two levels suffice for 8-byte keys: the root is empty, or it skips a
  common 4-byte prefix and holds values, or it maps the upper half of keys to pairs and to
  child nodes that map the lower half to values.  This theory states the invariant and the
  abstraction, and shows that \<open>search\<close> computes the abstract map.
\<close>

subsection \<open>Halves of a key\<close>

definition top32 :: "u64 \<Rightarrow> u32" where "top32 key = ucast (drop_bit 32 key AND mask 32)"
definition low32 :: "u64 \<Rightarrow> u32" where "low32 key = ucast (key AND mask 32)"

lemma get_subkey_halves:
  "get_subkey key 0 32 = Inr (drop_bit 32 key AND mask 32)" "get_subkey key 32 32 = Inr (key AND mask 32)"
  by (simp_all add: get_subkey_def)

lemma bit_halves: "j < 32 \<Longrightarrow> bit (top32 key) j = bit key (32 + j)" "j < 32 \<Longrightarrow> bit (low32 key) j = bit key j"
  by (simp_all add: top32_def low32_def bit_ucast_iff bit_and_iff bit_drop_bit_eq bit_mask_iff)

lemma ucast_halves:
  "ucast (drop_bit 32 key AND mask 32) = top32 key" "ucast (key AND mask 32) = low32 key"
  by (simp_all only: top32_def low32_def)

lemma subkey_halves:
  obtains s t where "get_subkey key 0 32 = Inr s" "ucast s = top32 key"
    "get_subkey key 32 32 = Inr t" "ucast t = low32 key"
  using get_subkey_halves ucast_halves by blast

lemma key_halves: "top32 key = top32 key' \<Longrightarrow> low32 key = low32 key' \<Longrightarrow> key = key'"
proof (rule bit_word_eqI)
  fix i assume h: "top32 key = top32 key'" "low32 key = low32 key'" and i: "i < LENGTH(64)"
  show "bit key i = bit key' i"
  proof (cases "i < 32")
    case True
    with h(2) bit_halves(2) show ?thesis by metis
  next
    case False
    with i have "i - 32 < 32" "32 + (i - 32) = i" by simp_all
    with h(1) bit_halves(1) show ?thesis by metis
  qed
qed

subsection \<open>Prefixes of one group\<close>

definition prefix_bytes :: "u32 \<Rightarrow> u8 list" where
  "prefix_bytes t = map (\<lambda>j. ucast (drop_bit (24 - j * 8) t)) [0..<4]"

definition prefix_is :: "u32 \<Rightarrow> wrert_header \<Rightarrow> bool" where
  "prefix_is t h \<longleftrightarrow> take 4 (prefixArray h) = prefix_bytes t"

lemma byte_mask: "(0xFF :: u64) = mask 8"
  by (simp add: mask_eq_exp_minus_1)

lemma byte_bits:
  assumes "j < 4" "i < 8"
  shows "bit (ucast (drop_bit (56 - j * 8) (push_bit 32 (drop_bit 32 key AND mask 32)) AND 0xFF :: u64) :: u8) i =
      bit (top32 key) (24 - j * 8 + i)"
    "bit (ucast (drop_bit ((5 - j) * 8) (push_bit 16 (drop_bit 32 key AND mask 32)) AND 0xFF :: u64) :: u8) i =
      bit (top32 key) (24 - j * 8 + i)"
proof -
  have e: "56 - j * 8 + i = 32 + (24 - j * 8 + i)" "(5 - j) * 8 + i = 16 + (24 - j * 8 + i)" and l: "24 - j * 8 + i < 32"
    and c: "32 \<le> 56 + i - j * 8" "16 \<le> 40 + i - j * 8" "40 + i - j * 8 < 64" "56 + i - j * 8 < 64"
    using assms by auto
  show "bit (ucast (drop_bit (56 - j * 8) (push_bit 32 (drop_bit 32 key AND mask 32)) AND 0xFF :: u64) :: u8) i =
      bit (top32 key) (24 - j * 8 + i)"
    using assms l c
    by (simp add: byte_mask bit_ucast_iff bit_and_iff bit_drop_bit_eq bit_mask_iff bit_push_bit_iff e bit_halves)
  show "bit (ucast (drop_bit ((5 - j) * 8) (push_bit 16 (drop_bit 32 key AND mask 32)) AND 0xFF :: u64) :: u8) i =
      bit (top32 key) (24 - j * 8 + i)"
    using assms l c
    by (simp add: byte_mask bit_ucast_iff bit_and_iff bit_drop_bit_eq bit_mask_iff bit_push_bit_iff e bit_halves)
qed

lemma prefix_bytes_nth: "j < 4 \<Longrightarrow> i < 8 \<Longrightarrow> bit (prefix_bytes t ! j) i = bit t (24 - j * 8 + i)"
  by (simp add: prefix_bytes_def bit_ucast_iff bit_drop_bit_eq)

lemma prefix_byte_top:
  assumes j: "j < 4"
  shows "prefix_byte 1 (drop_bit 32 key AND mask 32) j = prefix_bytes (top32 key) ! j"
proof (rule bit_word_eqI)
  fix i assume "i < LENGTH(8)"
  then have i: "i < 8" by simp
  have e: "64 - 1 * 32 = (32 :: nat)" by simp
  show "bit (prefix_byte 1 (drop_bit 32 key AND mask 32) j) i = bit (prefix_bytes (top32 key) ! j) i"
    unfolding prefix_byte_def e byte_bits(1) [OF j i] prefix_bytes_nth [OF j i] ..
qed

lemma computePrefix_one:
  assumes "prefixLength h = 1" "length (prefixArray h) = 6"
  shows "computePrefix h key 0 = Inr (if prefix_is (top32 key) h then 1 else 0)"
proof -
  let ?P = "\<lambda>j. prefix_byte 1 (drop_bit 32 key AND mask 32) j = prefixArray h ! j"
  have "length (takeWhile ?P [0..<4]) = 4 \<longleftrightarrow> (\<forall>j\<in>set [0..<4]. ?P j)"
    using takeWhile_all_length [of ?P "[0..<4]"] by (simp only: length_upt diff_zero)
  also have "\<dots> \<longleftrightarrow> (\<forall>j<4. prefixArray h ! j = prefix_bytes (top32 key) ! j)"
    using prefix_byte_top by (metis atLeastLessThan_iff le0 set_upt)
  also have "\<dots> \<longleftrightarrow> prefix_is (top32 key) h"
    using assms(2) by (simp add: prefix_is_def list_eq_iff_nth_eq prefix_bytes_def del: nth_map)
  finally have P: "length (takeWhile ?P [0..<4]) = 4 \<longleftrightarrow> prefix_is (top32 key) h" .
  have u: "[0..<1] = [0 :: nat]" "[0 * 4..<min ((0 + 1) * 4) 6] = [0..<4 :: nat]" "1 * 32 = (32 :: nat)" by simp_all
  show ?thesis
    unfolding computePrefix_def assms(1) u get_subkey_halves filter.simps sum.case P
    by simp
qed

lemma take_map_upt:
  "(\<And>j. j < n \<Longrightarrow> f j = xs ! j) \<Longrightarrow> length xs = n \<Longrightarrow> n \<le> m \<Longrightarrow> take n (map f [0..<m]) = xs"
  by (rule nth_equalityI) simp_all

lemma assignPrefix_one: "\<exists>a. assignPrefix 1 key 0 = Inr a \<and> length a = 6 \<and> take 4 a = prefix_bytes (top32 key)"
proof -
  let ?f = "\<lambda>i. ucast (drop_bit ((5 - i) * 8) (push_bit 16 (drop_bit 32 key AND mask 32)) AND 0xFF) :: u8"
  have "?f j = prefix_bytes (top32 key) ! j" if j: "j < 4" for j
  proof (rule bit_word_eqI)
    fix i assume "i < LENGTH(8)"
    then have i: "i < 8" by simp
    show "bit (?f j) i = bit (prefix_bytes (top32 key) ! j) i"
      unfolding byte_bits(2) [OF j i] prefix_bytes_nth [OF j i] ..
  qed
  then have "take 4 (map ?f [0..<6]) = prefix_bytes (top32 key)"
    by (rule take_map_upt) (assumption, simp_all add: prefix_bytes_def)
  moreover have u: "1 * 32 = (32 :: nat)" "48 - 32 = (16 :: nat)" by simp_all
  have "assignPrefix 1 key 0 = Inr (map ?f [0..<6])"
    unfolding assignPrefix_def u get_subkey_halves sum.case by simp
  ultimately show ?thesis by (intro exI [of _ "map ?f [0..<6]"] conjI) (assumption, simp)
qed

lemma four_bytes:
  fixes t :: u32
  shows "ucast (push_bit 8 (push_bit 8 (push_bit 8 (ucast (ucast (drop_bit 24 t) :: u8)) OR ucast (ucast (drop_bit 16 t) :: u8)) OR
     ucast (ucast (drop_bit 8 t) :: u8)) OR ucast (ucast t :: u8) :: u64) = t" (is "ucast ?x = t")
proof (rule bit_word_eqI)
  fix i assume "i < LENGTH(32)"
  then consider "i < 8" | "8 \<le> i \<and> i < 16" | "16 \<le> i \<and> i < 24" | "24 \<le> i \<and> i < 32" by fastforce
  then show "bit (ucast ?x :: u32) i = bit t i"
    by cases (auto simp: bit_ucast_iff bit_or_iff bit_drop_bit_eq bit_push_bit_iff)
qed

lemma prefix_array_bits_one:
  assumes "length a = 6" "take 4 a = prefix_bytes t"
  shows "\<exists>b. prefix_array_bits a 0 4 = Inr b \<and> ucast b = t"
proof -
  have a: "a ! i = prefix_bytes t ! i" if "i < 4" for i using assms(2) that by (metis nth_take)
  have "[0..<4] = [0, 1, 2, 3 :: nat]" by (simp add: upt_rec numeral_eq_Suc)
  then have "ucast (fold (\<lambda>i r. push_bit 8 r OR ucast (a ! (0 + i))) [0..<4] (0 :: u64)) = t"
    using four_bytes [of t] by (simp add: a prefix_bytes_def)
  with assms show ?thesis by (simp add: prefix_array_bits_def)
qed

lemma prefix_is_inj: "length (prefixArray h) = 6 \<Longrightarrow> prefix_is t h \<Longrightarrow> prefix_is t' h \<Longrightarrow> t = t'"
  using prefix_array_bits_one [of "prefixArray h"] unfolding prefix_is_def by (metis Inr_inject)

subsection \<open>Invariant and abstraction\<close>

text \<open>A node at the last four bytes of the key holds values only.\<close>

definition leaf_ok :: "payload wrert_node \<Rightarrow> bool" where
  "leaf_ok n \<longleftrightarrow> closed_node n \<and> (\<forall>k w f. node_map n k = Some (w, f) \<longrightarrow> \<not> f \<and> (\<exists>u. w = Val u))"

definition leaf_val :: "payload wrert_node \<Rightarrow> u32 \<Rightarrow> 48 word option" where
  "leaf_val n k = (case node_map n k of Some (Val w, False) \<Rightarrow> Some w | _ \<Rightarrow> None)"

definition child_ok :: "payload wrert_node \<Rightarrow> bool" where
  "child_ok n \<longleftrightarrow> leaf_ok n \<and> prefixLength (header n) = 0 \<and> nodeHeaderDepth (header n) = 1"

text \<open>What a slot of an inner root may hold for sub-key \<open>k\<close>; \<open>small\<close> values fit 48 bits.\<close>

definition small :: "u64 \<Rightarrow> bool" where
  "small v \<longleftrightarrow> ucast (ucast v :: 48 word) = v"

definition entry_ok :: "wrert \<Rightarrow> u32 \<Rightarrow> payload \<Rightarrow> bool \<Rightarrow> bool" where
  "entry_ok T k w f \<longleftrightarrow>
     (case w of
        Val u \<Rightarrow> False
      | KvAt i \<Rightarrow> \<not> f \<and> i < length (pairs T) \<and> top32 (fst (pairs T ! i)) = k \<and> small (snd (pairs T ! i))
      | NodeAt c \<Rightarrow> f \<and> c < length (nodes T) \<and> c \<noteq> root T \<and> child_ok (nodes T ! c))"

definition inner_ok :: "wrert \<Rightarrow> payload wrert_node \<Rightarrow> bool" where
  "inner_ok T n \<longleftrightarrow> closed_node n \<and> (\<forall>k w f. node_map n k = Some (w, f) \<longrightarrow> entry_ok T k w f) \<and>
     (\<forall>k k' w f f'. node_map n k = Some (w, f) \<longrightarrow> node_map n k' = Some (w, f') \<longrightarrow> k = k')"

definition wrert_ok :: "wrert \<Rightarrow> bool" where
  "wrert_ok T \<longleftrightarrow> root T < length (nodes T) \<and>
     (let n = nodes T ! root T; h = header n in
        nodeHeaderDepth h = 0 \<and> length (prefixArray h) = 6 \<and>
        (prefixLength h = 6 \<and> closed_node n \<and> node_map n = Map.empty \<or>
         prefixLength h = 1 \<and> leaf_ok n \<and> (\<exists>t. prefix_is t h) \<or>
         prefixLength h = 0 \<and> inner_ok T n))"

definition tree_map :: "wrert \<Rightarrow> u64 \<Rightarrow> 48 word option" where
  "tree_map T key =
     (let n = nodes T ! root T; h = header n in
      if prefixLength h = 6 then None
      else if prefixLength h = 1 then (if prefix_is (top32 key) h then leaf_val n (low32 key) else None)
      else (case node_map n (top32 key) of
              Some (KvAt i, False) \<Rightarrow> if fst (pairs T ! i) = key then Some (ucast (snd (pairs T ! i))) else None
            | Some (NodeAt c, True) \<Rightarrow> leaf_val (nodes T ! c) (low32 key)
            | _ \<Rightarrow> None))"

text \<open>The answer of a lookup: \<open>Failed\<close>, or the value, which is too small to be mistaken for it.\<close>

definition answer :: "48 word option \<Rightarrow> u64" where
  "answer r = (case r of None \<Rightarrow> result_code Failed | Some w \<Rightarrow> ucast w)"

lemma answer_inj: "answer r = answer r' \<Longrightarrow> r = r'"
proof -
  have c: "ucast w \<noteq> (- 1 :: u64)" for w :: "48 word"
  proof
    assume "ucast w = (- 1 :: u64)"
    then have "bit (ucast w :: u64) 63" by simp
    then show False using bit_imp_le_length [of w 63] by (simp add: bit_ucast_iff)
  qed
  have "w = w'" if "(ucast w :: u64) = ucast w'" for w w' :: "48 word"
    using arg_cong [OF that, of uint] by (simp add: uint_up_ucast is_up word_uint_eq_iff)
  then show "answer r = answer r' \<Longrightarrow> r = r'"
    using c [symmetric] c by (auto simp: answer_def result_code_def split: option.splits)
qed

subsection \<open>Lookups\<close>

declare search_at.simps [simp del] insert_at.simps [simp del]

lemma getSegNode_cases:
  assumes "closed_node n"
  obtains "getSegNode n k = Inr None" "node_map n k = None"
  | x where "getSegNode n k = Inr (Some x)" "node_map n k = Some (slot_value x, nodeFlag x)"
proof -
  from assms getSegNode_correct [of "dom (node_map n)" n k] obtain r where
    r: "getSegNode n k = Inr r" "map_option (\<lambda>x. (slot_value x, nodeFlag x)) r = node_map n k"
    unfolding closed_node_def by blast
  then show thesis using that by (cases r) auto
qed

lemma leaf_cases:
  assumes "leaf_ok n"
  obtains "getSegNode n k = Inr None" "leaf_val n k = None"
  | x u where "getSegNode n k = Inr (Some x)" "\<not> nodeFlag x" "slot_value x = Val u" "leaf_val n k = Some u"
proof -
  have c: "closed_node n" using assms by (simp add: leaf_ok_def)
  show thesis
  proof (rule getSegNode_cases [OF c, of k])
    assume "getSegNode n k = Inr None" "node_map n k = None"
    then show thesis using that(1) by (simp add: leaf_val_def)
  next
    fix x assume x: "getSegNode n k = Inr (Some x)" "node_map n k = Some (slot_value x, nodeFlag x)"
    with assms obtain u where "\<not> nodeFlag x" "slot_value x = Val u" unfolding leaf_ok_def by blast
    with x that(2) show thesis by (simp add: leaf_val_def)
  qed
qed

lemma search_leaf:
  assumes c: "c < length (nodes T)" "leaf_ok (nodes T ! c)" and pl: "prefixLength (header (nodes T ! c)) = 0"
  shows "search_at junk T key c 4 = Inr (answer (leaf_val (nodes T ! c) (low32 key)))"
proof -
  have s: "skip_node_prefix junk (header (nodes T ! c)) key 4 = Inr (Some 4)" by (simp add: skip_node_prefix_def pl)
  obtain t where g: "get_subkey key 32 32 = Inr t" "ucast t = low32 key" by (rule subkey_halves)
  show ?thesis
    by (subst search_at.simps, rule leaf_cases [OF c(2), of "low32 key"])
      (use c pl in \<open>simp_all add: Let_def s g answer_def\<close>)
qed

lemma search_ok:
  assumes ok: "wrert_ok T" and junk: "junk = 0 \<or> 24 < junk"
  shows "wrert_search junk T key = Inr (answer (tree_map T key))"
proof -
  let ?n = "nodes T ! root T"
  let ?h = "header ?n"
  have r: "root T < length (nodes T)" and d6: "length (prefixArray ?h) = 6" using ok by (auto simp: wrert_ok_def Let_def)
  have j: "\<not> (junk \<noteq> 0 \<and> 0 + junk \<le> 24)" "\<not> (junk \<noteq> 0 \<and> 0 + junk \<le> 4)"
    using junk by (auto simp: not_le intro: less_trans [of 4 24 junk])
  obtain s0 s4 where g0: "get_subkey key 0 32 = Inr s0" "ucast s0 = top32 key"
    and g4: "get_subkey key 32 32 = Inr s4" "ucast s4 = low32 key" by (rule subkey_halves [of key])
  from ok consider (empty) "prefixLength ?h = 6"
    | (leaf) t where "prefixLength ?h = 1" "leaf_ok ?n" "prefix_is t ?h"
    | (inner) "prefixLength ?h = 0" "inner_ok T ?n"
    by (auto simp: wrert_ok_def Let_def)
  then show ?thesis
  proof cases
    case empty
    then have "skip_node_prefix junk ?h key 0 = Inr None" using j(1) by (simp add: skip_node_prefix_def computePrefix_def)
    with empty r show ?thesis
      by (subst wrert_search_def, subst search_at.simps) (simp add: Let_def tree_map_def answer_def)
  next
    case leaf
    have "skip_node_prefix junk ?h key 0 = Inr (if prefix_is (top32 key) ?h then Some 4 else None)"
      using j(2) leaf(1) computePrefix_one [OF leaf(1) d6, of key] by (simp add: skip_node_prefix_def)
    with leaf r show ?thesis
      by (subst wrert_search_def, subst search_at.simps, cases rule: leaf_cases [OF leaf(2), of "low32 key"])
        (simp_all add: Let_def g4 tree_map_def answer_def)
  next
    case inner
    have s: "skip_node_prefix junk ?h key 0 = Inr (Some 0)" by (simp add: skip_node_prefix_def inner(1))
    have cn: "closed_node ?n" using inner(2) by (simp add: inner_ok_def)
    show ?thesis
    proof (rule getSegNode_cases [OF cn, of "top32 key"])
      assume "getSegNode ?n (top32 key) = Inr None" "node_map ?n (top32 key) = None"
      with r s g0 inner(1) show ?thesis
        by (subst wrert_search_def, subst search_at.simps) (simp add: Let_def g0 tree_map_def answer_def)
    next
      fix x assume x: "getSegNode ?n (top32 key) = Inr (Some x)" "node_map ?n (top32 key) = Some (slot_value x, nodeFlag x)"
      then have e: "entry_ok T (top32 key) (slot_value x) (nodeFlag x)" using inner(2) by (auto simp: inner_ok_def)
      show ?thesis
      proof (cases "slot_value x")
        case (Val u)
        with e show ?thesis by (simp add: entry_ok_def)
      next
        case (KvAt i)
        with e r s g0 inner(1) x show ?thesis
          by (subst wrert_search_def, subst search_at.simps)
            (auto simp: Let_def g0 tree_map_def answer_def entry_ok_def small_def)
      next
        case (NodeAt c)
        with e have c: "nodeFlag x" "c < length (nodes T)" "leaf_ok (nodes T ! c)" "prefixLength (header (nodes T ! c)) = 0"
          by (auto simp: entry_ok_def child_ok_def)
        have "wrert_search junk T key = search_at junk T key c 4"
          using NodeAt c r s g0 inner(1) x
          by (subst wrert_search_def, subst search_at.simps) (simp add: Let_def g0)
        with search_leaf [OF c(2,3,4)] NodeAt c x inner(1) show ?thesis by (simp add: tree_map_def)
      qed
    qed
  qed
qed

end
