(* ===== verification/Wrert_Tree_Insert.thy ===== *)
theory Wrert_Tree_Insert
  imports Wrert_Tree
begin

text \<open>
  \<open>WRERT::insert\<close> updates the abstract map.  The theory first shows what the node operations
  do to the header and when they leave the directory alone, then how a changed node is put
  back into the tree, and then goes through the cases of the insertion loop.
\<close>

subsection \<open>Node operations and headers\<close>

text \<open>A doubled node gets a new header, with the same prefix as far as it counts.\<close>

definition kept :: "wrert_header \<Rightarrow> wrert_header \<Rightarrow> bool" where
  "kept h h' \<longleftrightarrow> prefixLength h' = prefixLength h \<and> nodeHeaderDepth h' = nodeHeaderDepth h \<and>
     (length (prefixArray h) = 6 \<longrightarrow> length (prefixArray h') = 6 \<and>
        (prefixLength h = 1 \<longrightarrow> take 4 (prefixArray h') = take 4 (prefixArray h)))"

lemma kept_refl [simp]: "kept h h"
  by (simp add: kept_def)

lemma kept_trans: "kept h h' \<Longrightarrow> kept h' h'' \<Longrightarrow> kept h h''"
  by (auto simp: kept_def)

lemma kept_initialize: "kept h (header_initialize (Some h) (prefixLength h) (nodeHeaderDepth h) zero_header)"
  by (auto simp: kept_def header_initialize_def zero_header_def min_def)

lemma split_for_kept: "split_for z n k = Inr n' \<Longrightarrow> kept (header n) (header n')"
  by (auto simp: split_for_def split_shallow_def split_deep_def Let_def kept_initialize split: if_splits sum.splits prod.splits)

lemma header_unchanged [simp]:
  "header (write_slot n k v sn fp nf m pj) = header n" "header (set_value n k v p j) = header n"
  by (simp_all add: write_slot_def set_value_def Let_def split: prod.split)

lemma put_kept:
  "putSegNode fuel z n k v fp nf = Inr n' \<Longrightarrow> kept (header n) (header n')"
  "put fuel z n k v fp nf t = Inr n' \<Longrightarrow> kept (header n) (header n')"
proof (induction fuel z n k v fp nf and fuel z n k v fp nf t arbitrary: n' and n' rule: putSegNode_put.induct)
  case (3 fuel z n k v fp nf)
  then obtain n1 where n1: "split_for z n k = Inr n1" "putSegNode fuel z n1 k v fp nf = Inr n'"
    by (auto split: sum.splits)
  have "kept (header n1) (header n')" by (rule 3(1) [OF n1])
  with split_for_kept [OF n1(1)] show ?case by (rule kept_trans)
next
  case (4 fuel z n k v fp nf main p j)
  then show ?case by auto
qed (auto simp: Let_def split: if_splits)

lemma node_insert_kept: "node_insert fuel z n k v fp = Inr n' \<Longrightarrow> kept (header n) (header n')"
  by (auto simp: node_insert_def simp del: put.simps dest: put_kept split: if_splits place.splits)

subsection \<open>Nodes with few keys are not split\<close>

lemma locate_room:
  assumes ok: "node_ok D n" and few: "card D < 16"
  shows "locate n k \<noteq> NoRoom"
proof
  assume "locate n k = NoRoom"
  from full_main_keys [OF ok conjunct2 [OF locate_ok(3) [OF ok this]]] obtain S where "S \<subseteq> D" "card S = 16" by blast
  with few card_mono [of D S] show False by simp
qed

lemma put_target_room:
  assumes ok: "node_ok D n" and k: "k \<notin> D" and few: "card D < 16" and "globalDepth n = 0"
  shows "put_target (segment_node_of n k) (segs n ! segmentPtr (segment_node_of n k)) k \<noteq> None"
proof
  assume n: "put_target (segment_node_of n k) (segs n ! segmentPtr (segment_node_of n k)) k = None"
  have "localDepth (segment_node_of n k) = 0" using node_entry(3) [OF ok, of k] assms(4) by simp
  from full_bucket_keys [OF ok put_target_ok(3) [OF ok k n this]] obtain S where "S \<subseteq> D" "card S = 16" by blast
  with few card_mono [of D S] show False by simp
qed

lemma globalDepth_updates [simp]:
  "globalDepth (write_slot n k v sn fp nf m pj) = globalDepth n" "globalDepth (set_value n k v p j) = globalDepth n"
  by (simp_all add: write_slot_def set_value_def Let_def split: prod.split)

lemma node_insert_depth:
  assumes c: "closed_node n" and few: "card (dom (node_map n)) < 16" and r: "node_insert put_fuel z n k v fp = Inr n'"
  shows "globalDepth n' = globalDepth n"
  using r locate_room [OF c [unfolded closed_node_def] few, of k]
  by (auto simp: node_insert_def split: if_splits place.splits)

lemma putSegNode_depth:
  assumes ok: "node_ok D n" and k: "k \<notin> D" and few: "card D < 16" and d: "globalDepth n = 0"
    and r: "putSegNode put_fuel z n k v fp nf = Inr n'"
  shows "globalDepth n' = 0"
proof -
  have f: "put_fuel = Suc 31" by (simp add: put_fuel_def)
  from put_target_room [OF ok k few d] obtain m p j where
    "put_target (segment_node_of n k) (segs n ! segmentPtr (segment_node_of n k)) k = Some (m, p, j)" by auto
  with r d show ?thesis unfolding f putSegNode.simps Let_def by (auto split: if_splits)
qed

subsection \<open>Insertion of a value into a leaf\<close>

lemma header_update [simp]:
  "node_map (n\<lparr>header := h\<rparr>) = node_map n" "closed_node (n\<lparr>header := h\<rparr>) = closed_node n"
  "leaf_ok (n\<lparr>header := h\<rparr>) = leaf_ok n" "leaf_val (n\<lparr>header := h\<rparr>) = leaf_val n"
proof -
  show m: "node_map (n\<lparr>header := h\<rparr>) = node_map n"
    by (simp add: fun_eq_iff node_map_def segment_node_of_def)
  show "closed_node (n\<lparr>header := h\<rparr>) = closed_node n"
    by (simp add: closed_node_def m node_ok_def)
  then show "leaf_ok (n\<lparr>header := h\<rparr>) = leaf_ok n" by (simp add: leaf_ok_def m)
  show "leaf_val (n\<lparr>header := h\<rparr>) = leaf_val n" by (simp add: leaf_val_def fun_eq_iff m)
qed

lemma leaf_insert:
  assumes ok: "leaf_ok n"
  shows "\<exists>n'. node_insert put_fuel z n k (Val u) fp = Inr n' \<and> leaf_ok n' \<and> leaf_val n' = (leaf_val n)(k \<mapsto> u) \<and>
    kept (header n) (header n') \<and> dom (node_map n') = Set.insert k (dom (node_map n))"
proof -
  from ok have c: "closed_node n" and v: "\<And>k w f. node_map n k = Some (w, f) \<Longrightarrow> \<not> f \<and> (\<exists>u. w = Val u)"
    by (auto simp: leaf_ok_def)
  from node_insert_ok [OF c, of z k "Val u" fp] obtain n' f where
    n': "node_insert put_fuel z n k (Val u) fp = Inr n'" "closed_node n'" "node_map n' = (node_map n)(k \<mapsto> (Val u, f))"
    and f: "f = (case node_map n k of None \<Rightarrow> False | Some (w, f) \<Rightarrow> f)" by blast
  have nf: "\<not> f" using v [of k] unfolding f by (auto split: option.splits)
  have "leaf_ok n'" using n'(2,3) nf v by (auto simp: leaf_ok_def)
  moreover have "leaf_val n' = (leaf_val n)(k \<mapsto> u)" using n'(3) nf by (auto simp: leaf_val_def fun_eq_iff)
  moreover have "dom (node_map n') = Set.insert k (dom (node_map n))" using n'(3) by auto
  ultimately show ?thesis using n'(1) node_insert_kept [OF n'(1)] by blast
qed

lemma insert_at_leaf:
  assumes "c < length (nodes T)" "leaf_ok (nodes T ! c)" "prefixLength (header (nodes T ! c)) = 0"
    and "node_insert put_fuel (Val 0) (nodes T ! c) (low32 key) (Val (ucast v)) 0 = Inr n'"
  shows "insert_at T key v c 4 l kv = map_sum id (\<lambda>T'. (T', Success)) (store_node T l c n')"
proof -
  obtain t where g: "get_subkey key 32 32 = Inr t" "ucast t = low32 key" by (rule subkey_halves)
  have "\<not> bad_depths (nodes T ! c) (low32 key)"
    using node_entry(6) assms(2) unfolding leaf_ok_def closed_node_def by blast
  with assms g show ?thesis
    by (subst insert_at.simps) (simp add: Let_def computePrefix_def)
qed

subsection \<open>Putting a changed node back\<close>

text \<open>Nodes other than the root stay where they are and what they are.\<close>

definition others :: "wrert \<Rightarrow> wrert \<Rightarrow> bool" where
  "others T T' \<longleftrightarrow> (\<forall>c<length (nodes T). c \<noteq> root T \<longrightarrow>
     c < length (nodes T') \<and> c \<noteq> root T' \<and> nodes T' ! c = nodes T ! c)"

lemma store_root:
  assumes "root T < length (nodes T)" "nodeHeaderDepth (header n') = 0"
  shows "\<exists>T'. store_node T RootLink (root T) n' = Inr T' \<and> root T' < length (nodes T') \<and> nodes T' ! root T' = n' \<and>
    pairs T' = pairs T \<and> others T T'"
  using assms by (auto simp: store_node_def relink_def others_def nth_append)

lemma relink_slot:
  fixes k
  defines "e \<equiv> \<lambda>T. segmentPtr (segment_node_of (nodes T ! root T) k)"
  assumes cl: "closed_node (nodes T ! root T)" and r: "root T < length (nodes T)"
    and a: "locate (nodes T ! root T) k = AtKey p j" and m: "node_map (nodes T ! root T) k = Some (w, True)" and d: "d \<noteq> 0"
  shows "\<exists>n1. relink T (SlotLink (root T) (e T) p j) d i = Inr (T\<lparr>nodes := (nodes T)[root T := n1]\<rparr>) \<and> closed_node n1 \<and>
    header n1 = header (nodes T ! root T) \<and> node_map n1 = (node_map (nodes T ! root T))(k \<mapsto> (NodeAt i, True))"
proof -
  let ?n = "nodes T ! root T"
  let ?n1 = "set_value ?n k (NodeAt i) p j"
  note ok = cl [unfolded closed_node_def]
  from set_value_ok [OF ok a, of "NodeAt i"] m have
    n1: "node_ok (dom (node_map ?n)) ?n1" "node_map ?n1 = (node_map ?n)(k \<mapsto> (NodeAt i, True))" by auto
  moreover have "dom (node_map ?n1) = dom (node_map ?n)" using n1(2) m by auto
  ultimately have "closed_node ?n1" by (simp add: closed_node_def)
  with n1(2) d show ?thesis
    by (intro exI [of _ ?n1]) (simp add: relink_def set_value_def e_def Let_def)
qed

lemma set_child_root:
  fixes k
  defines "e \<equiv> \<lambda>T. segmentPtr (segment_node_of (nodes T ! root T) k)"
  assumes cl: "closed_node (nodes T ! root T)" and a: "locate (nodes T ! root T) k = AtKey p j"
  shows "\<exists>n1. set_child T (root T) (e T) p j i = T\<lparr>nodes := (nodes T)[root T := n1]\<rparr> \<and> closed_node n1 \<and>
    header n1 = header (nodes T ! root T) \<and> node_map n1 = (node_map (nodes T ! root T))(k \<mapsto> (NodeAt i, True))"
proof -
  let ?n = "nodes T ! root T"
  let ?n1 = "overwrite ?n k (NodeAt i) True p j"
  note ok = cl [unfolded closed_node_def]
  note o = overwrite_ok [OF ok a, of "NodeAt i" True]
  have "dom (node_map ?n1) = dom (node_map ?n)" using o(2) at_key [OF ok a] by auto
  with o have "closed_node ?n1" by (simp add: closed_node_def)
  with o(2) show ?thesis
    by (intro exI [of _ ?n1]) (simp add: set_child_def overwrite_def e_def Let_def)
qed

subsection \<open>Updating an inner root\<close>

definition entry_val :: "wrert \<Rightarrow> payload \<Rightarrow> bool \<Rightarrow> u64 \<Rightarrow> 48 word option" where
  "entry_val T w f key =
     (case (w, f) of
        (KvAt i, False) \<Rightarrow> if fst (pairs T ! i) = key then Some (ucast (snd (pairs T ! i))) else None
      | (NodeAt c, True) \<Rightarrow> leaf_val (nodes T ! c) (low32 key)
      | _ \<Rightarrow> None)"

lemma tree_map_inner:
  "prefixLength (header (nodes T ! root T)) = 0 \<Longrightarrow>
   tree_map T key = (case node_map (nodes T ! root T) (top32 key) of None \<Rightarrow> None | Some (w, f) \<Rightarrow> entry_val T w f key)"
  by (auto simp: tree_map_def Let_def entry_val_def split: option.splits payload.splits bool.splits)

text \<open>An entry that is neither changed itself nor through the nodes and pairs it points to.\<close>

definition same_entry :: "wrert \<Rightarrow> wrert \<Rightarrow> payload \<Rightarrow> bool" where
  "same_entry T T' w \<longleftrightarrow>
     (case w of
        Val u \<Rightarrow> True
      | KvAt i \<Rightarrow> i < length (pairs T') \<and> pairs T' ! i = pairs T ! i
      | NodeAt c \<Rightarrow> c < length (nodes T') \<and> c \<noteq> root T' \<and> nodes T' ! c = nodes T ! c)"

lemma same_entry_ok: "same_entry T T' w \<Longrightarrow> entry_ok T k w f \<Longrightarrow> entry_ok T' k w f"
  by (auto simp: same_entry_def entry_ok_def split: payload.splits)

lemma same_entry_val: "same_entry T T' w \<Longrightarrow> entry_val T' w f = entry_val T w f"
  by (auto simp: same_entry_def entry_val_def fun_eq_iff split: payload.splits bool.splits)

lemma inner_update:
  fixes T
  defines "n \<equiv> nodes T ! root T"
  assumes ok: "wrert_ok T" and pl: "prefixLength (header n) = 0"
    and r: "root T' < length (nodes T')" and h: "header (nodes T' ! root T') = h'" "nodeHeaderDepth h' = 0"
      "length (prefixArray h') = 6" "prefixLength h' = 0"
    and c: "closed_node (nodes T' ! root T')" and m: "node_map (nodes T' ! root T') = (node_map n)(k \<mapsto> (w, f))"
    and e: "entry_ok T' k w f"
    and frame: "\<And>k' w' f'. k' \<noteq> k \<Longrightarrow> node_map n k' = Some (w', f') \<Longrightarrow> same_entry T T' w' \<and> w' \<noteq> w"
    and val: "\<And>key'. top32 key' = k \<Longrightarrow> entry_val T' w f key' = (if key' = key then Some v else tree_map T key')"
    and k: "k = top32 key"
  shows "wrert_ok T' \<and> tree_map T' = (tree_map T)(key \<mapsto> v)"
proof
  have inn: "inner_ok T n" using ok pl by (auto simp: wrert_ok_def Let_def n_def)
  have "inner_ok T' (nodes T' ! root T')"
    unfolding inner_ok_def
  proof (intro conjI allI impI)
    show "closed_node (nodes T' ! root T')" by (rule c)
    show "entry_ok T' k' w' f'" if "node_map (nodes T' ! root T') k' = Some (w', f')" for k' w' f'
      using that e frame inn same_entry_ok unfolding m inner_ok_def by (metis fun_upd_apply option.inject prod.inject)
    show "k' = k''" if "node_map (nodes T' ! root T') k' = Some (w', f')" "node_map (nodes T' ! root T') k'' = Some (w', f'')"
      for k' k'' w' f' f''
      using that frame inn unfolding m inner_ok_def by (metis fun_upd_apply option.inject prod.inject)
  qed
  with r h show "wrert_ok T'" by (simp add: wrert_ok_def)
  have pl': "prefixLength (header (nodes T' ! root T')) = 0" using h by simp
  show "tree_map T' = (tree_map T)(key \<mapsto> v)"
  proof
    fix key'
    show "tree_map T' key' = ((tree_map T)(key \<mapsto> v)) key'"
    proof (cases "top32 key' = k")
      case True
      with val show ?thesis unfolding tree_map_inner [OF pl'] m by simp
    next
      case False
      then have "key' \<noteq> key" using k by auto
      with False frame same_entry_val show ?thesis
        unfolding tree_map_inner [OF pl'] tree_map_inner [OF pl [unfolded n_def]] m n_def [symmetric]
        by (auto split: option.splits) metis
    qed
  qed
qed

subsection \<open>The cases of an inner root\<close>

text \<open>What the cases share: the root node, its sub-key for the key, and what it holds there.\<close>

definition inner_root :: "wrert \<Rightarrow> bool" where
  "inner_root T \<longleftrightarrow> wrert_ok T \<and> prefixLength (header (nodes T ! root T)) = 0"

lemma inner_rootD:
  assumes "inner_root T"
  shows "wrert_ok T" "root T < length (nodes T)" "prefixLength (header (nodes T ! root T)) = 0"
    "nodeHeaderDepth (header (nodes T ! root T)) = 0" "length (prefixArray (header (nodes T ! root T))) = 6"
    "closed_node (nodes T ! root T)" "node_ok (dom (node_map (nodes T ! root T))) (nodes T ! root T)"
    "\<And>k w f. node_map (nodes T ! root T) k = Some (w, f) \<Longrightarrow> entry_ok T k w f"
    "\<And>k k' w f f'. node_map (nodes T ! root T) k = Some (w, f) \<Longrightarrow> node_map (nodes T ! root T) k' = Some (w, f') \<Longrightarrow> k = k'"
    "\<not> bad_depths (nodes T ! root T) k"
proof -
  show w: "wrert_ok T" and pl: "prefixLength (header (nodes T ! root T)) = 0" using assms by (auto simp: inner_root_def)
  then have i: "inner_ok T (nodes T ! root T)" by (auto simp: wrert_ok_def Let_def)
  then show c: "closed_node (nodes T ! root T)" by (simp add: inner_ok_def)
  then show "node_ok (dom (node_map (nodes T ! root T))) (nodes T ! root T)" by (simp add: closed_node_def)
  from node_entry(6) [OF this] show "\<not> bad_depths (nodes T ! root T) k" .
  show "\<And>k w f. node_map (nodes T ! root T) k = Some (w, f) \<Longrightarrow> entry_ok T k w f"
    "\<And>k k' w f f'. node_map (nodes T ! root T) k = Some (w, f) \<Longrightarrow> node_map (nodes T ! root T) k' = Some (w, f') \<Longrightarrow> k = k'"
    using i unfolding inner_ok_def by blast+
qed (use assms in \<open>auto simp: inner_root_def wrert_ok_def Let_def\<close>)

lemma insert_at_child:
  fixes T key
  assumes "inner_root T"
  defines "n \<equiv> nodes T ! root T" and "g \<equiv> segmentPtr (segment_node_of (nodes T ! root T) (top32 key))"
  assumes "locate n (top32 key) = AtKey p j" "slot_value (slot_at n g p j) = NodeAt d" "nodeFlag (slot_at n g p j)"
  shows "insert_at T key v (root T) 0 l kv = insert_at T key v d 4 (SlotLink (root T) g p j) kv"
proof -
  note i = inner_rootD [OF assms(1), folded n_def]
  obtain t where "get_subkey key 0 32 = Inr t" "ucast t = top32 key" by (rule subkey_halves)
  with assms(4-) show ?thesis unfolding g_def n_def [symmetric]
    by (subst insert_at.simps) (simp add: i linorder_not_le [THEN iffD2, OF i(2)] Let_def computePrefix_def n_def [symmetric])
qed

lemma insert_at_pair:
  fixes T key
  assumes "inner_root T"
  defines "n \<equiv> nodes T ! root T" and "g \<equiv> segmentPtr (segment_node_of (nodes T ! root T) (top32 key))"
    and "d \<equiv> length (nodes T)"
  assumes "locate n (top32 key) = AtKey p j" "slot_value (slot_at n g p j) = KvAt i" "\<not> nodeFlag (slot_at n g p j)"
    "i < length (pairs T)"
  shows "insert_at T key v (root T) 0 l kv =
    (if fst (pairs T ! i) = key then Inr (T\<lparr>pairs := (pairs T)[i := (key, v)]\<rparr>, Success)
     else
       case insert_at (T\<lparr>nodes := nodes T @ [child_node (header n) 4]\<rparr>) (fst (pairs T ! i)) (snd (pairs T ! i)) d 4 RootLink (Some i) of
         Inl e \<Rightarrow> Inl e
       | Inr (T2, _) \<Rightarrow>
           (case insert_at T2 key v d 4 RootLink kv of
              Inl e \<Rightarrow> Inl e
            | Inr (T3, _) \<Rightarrow> Inr (set_child T3 (root T) g p j d, Success)))"
proof -
  note i = inner_rootD [OF assms(1), folded n_def]
  obtain t where "get_subkey key 0 32 = Inr t" "ucast t = top32 key" by (rule subkey_halves)
  with assms(5-) show ?thesis unfolding g_def n_def [symmetric] d_def
    by (subst insert_at.simps) (simp add: i linorder_not_le [THEN iffD2, OF i(2)] Let_def computePrefix_def n_def [symmetric])
qed

lemma insert_at_new:
  assumes "inner_root T" and "\<And>p j. locate (nodes T ! root T) (top32 key) \<noteq> AtKey p j"
  shows "insert_at T key v (root T) 0 l kv = map_sum id (\<lambda>T'. (T', Success)) (insert_pair T key v (root T) (top32 key) l kv)"
proof -
  note i = inner_rootD [OF assms(1)]
  obtain t where "get_subkey key 0 32 = Inr t" "ucast t = top32 key" by (rule subkey_halves)
  with assms(2) show ?thesis
    by (subst insert_at.simps) (simp add: i linorder_not_le [THEN iffD2, OF i(2)] Let_def computePrefix_def split: place.split)
qed

text \<open>A new pair.\<close>

lemma inner_new_pair:
  assumes i: "inner_root T" and s: "small v" and a: "\<And>p j. locate (nodes T ! root T) (top32 key) \<noteq> AtKey p j"
  shows "\<exists>T'. insert_at T key v (root T) 0 RootLink None = Inr (T', Success) \<and> wrert_ok T' \<and>
    tree_map T' = (tree_map T)(key \<mapsto> ucast v)"
proof -
  let ?n = "nodes T ! root T" and ?k = "top32 key" and ?i = "length (pairs T)"
  let ?T1 = "T\<lparr>pairs := pairs T @ [(key, v)]\<rparr>"
  note r = inner_rootD [OF i]
  have kn: "node_map ?n ?k = None"
    using locate_ok(2,3) [OF r(7), of ?k] a by (cases "locate ?n ?k") blast+
  from node_insert_ok [OF r(6), of "Val 0" ?k "KvAt ?i" 0] kn obtain n' where
    n': "node_insert put_fuel (Val 0) ?n ?k (KvAt ?i) 0 = Inr n'" "closed_node n'"
      "node_map n' = (node_map ?n)(?k \<mapsto> (KvAt ?i, False))" by auto
  have h: "kept (header ?n) (header n')" by (rule node_insert_kept [OF n'(1)])
  then have h': "nodeHeaderDepth (header n') = 0" "prefixLength (header n') = 0" "length (prefixArray (header n')) = 6"
    using r(3-5) by (auto simp: kept_def)
  from store_root [of ?T1 n'] r(2) h'(1) obtain T' where
    T': "store_node ?T1 RootLink (root T) n' = Inr T'" "root T' < length (nodes T')" "nodes T' ! root T' = n'"
      "pairs T' = pairs T @ [(key, v)]" "others ?T1 T'" by auto
  have frame: "same_entry T T' w' \<and> w' \<noteq> KvAt ?i" if "node_map ?n k' = Some (w', f')" for k' w' f'
    using r(8) [OF that] T'(4,5) by (auto simp: entry_ok_def same_entry_def others_def nth_append split: payload.splits)
  have none: "tree_map T key' = None" if "top32 key' = ?k" for key' using that kn by (simp add: tree_map_inner [OF r(3)])
  have "wrert_ok T' \<and> tree_map T' = (tree_map T)(key \<mapsto> ucast v)"
  proof (rule inner_update [OF r(1,3) T'(2) refl])
    show "node_map (nodes T' ! root T') = (node_map ?n)(?k \<mapsto> (KvAt ?i, False))" using n'(3) T'(3) by simp
    show "entry_ok T' ?k (KvAt ?i) False" using s T'(4) by (simp add: entry_ok_def)
    show "same_entry T T' w' \<and> w' \<noteq> KvAt ?i" if "node_map ?n k' = Some (w', f')" for k' w' f' by (rule frame [OF that])
    show "entry_val T' (KvAt ?i) False key' = (if key' = key then Some (ucast v) else tree_map T key')" if "top32 key' = ?k" for key'
      using none [OF that] by (simp add: entry_val_def T'(4))
  qed (use T'(3) h' n'(2) in simp_all)
  moreover have "insert_at T key v (root T) 0 RootLink None = Inr (T', Success)"
    unfolding insert_at_new [OF i a] using n'(1) T'(1) by (simp add: insert_pair_def)
  ultimately show ?thesis by blast
qed

text \<open>The pair of the key itself.\<close>

lemma inner_same_pair:
  assumes i: "inner_root T" and s: "small v"
    and m: "node_map (nodes T ! root T) (top32 key) = Some (KvAt q, False)" and key: "fst (pairs T ! q) = key"
  shows "wrert_ok (T\<lparr>pairs := (pairs T)[q := (key, v)]\<rparr>) \<and>
    tree_map (T\<lparr>pairs := (pairs T)[q := (key, v)]\<rparr>) = (tree_map T)(key \<mapsto> ucast v)"
proof (rule inner_update [OF inner_rootD(1,3) [OF i] _ refl])
  let ?T' = "T\<lparr>pairs := (pairs T)[q := (key, v)]\<rparr>"
  note r = inner_rootD [OF i]
  have q: "q < length (pairs T)" using r(8) [OF m] by (simp add: entry_ok_def)
  show "node_map (nodes ?T' ! root ?T') = (node_map (nodes T ! root T))(top32 key \<mapsto> (KvAt q, False))"
    using m by (simp add: fun_upd_idem)
  show "entry_ok ?T' (top32 key) (KvAt q) False" using s q by (simp add: entry_ok_def)
  show "same_entry T ?T' w' \<and> w' \<noteq> KvAt q" if "k' \<noteq> top32 key" "node_map (nodes T ! root T) k' = Some (w', f')" for k' w' f'
  proof -
    have "w' \<noteq> KvAt q" using r(9) [OF that(2)] m that(1) by blast
    then show ?thesis using r(8) [OF that(2)] by (auto simp: entry_ok_def same_entry_def split: payload.splits)
  qed
  show "entry_val ?T' (KvAt q) False key' = (if key' = key then Some (ucast v) else tree_map T key')" if "top32 key' = top32 key" for key'
    using that m key q by (simp add: entry_val_def tree_map_inner [OF r(3)])
qed (use inner_rootD [OF i] in simp_all)

text \<open>The pair of another key with the same upper half: both move to a new child.\<close>

lemma new_node_facts:
  "closed_node new_node" "node_map new_node = Map.empty" "leaf_ok new_node" "leaf_val new_node = Map.empty"
  "globalDepth new_node = 0"
  using new_node_ok [of "Val 0" 0]
  by (simp_all add: leaf_ok_def leaf_val_def fun_eq_iff flip: new_node_def)
    (simp add: new_node_def NewWRERTNode_def)

lemma child_node_ok:
  "leaf_ok (child_node h 4)" "leaf_val (child_node h 4) = Map.empty" "node_map (child_node h 4) = Map.empty"
  "prefixLength (header (child_node h 4)) = 0" "nodeHeaderDepth (header (child_node h 4)) = 1" "globalDepth (child_node h 4) = 0"
  unfolding child_node_def by (simp_all add: new_node_facts header_initialize_def)

lemma insert_new_leaf:
  assumes nT: "nodes T = ns @ [n]" and n: "child_ok n" and few: "card (dom (node_map n)) < 16"
  shows "\<exists>n'. insert_at T key v (length ns) 4 RootLink kv = Inr (T\<lparr>nodes := ns @ [n']\<rparr>, Success) \<and> child_ok n' \<and>
    leaf_val n' = (leaf_val n)(low32 key \<mapsto> ucast v) \<and> dom (node_map n') = Set.insert (low32 key) (dom (node_map n))"
proof -
  from n have l: "leaf_ok n" and h: "prefixLength (header n) = 0" "nodeHeaderDepth (header n) = 1" by (auto simp: child_ok_def)
  from leaf_insert [OF l, of "Val 0" "low32 key" "ucast v" 0] obtain n' where
    n': "node_insert put_fuel (Val 0) n (low32 key) (Val (ucast v)) 0 = Inr n'" "leaf_ok n'"
      "leaf_val n' = (leaf_val n)(low32 key \<mapsto> ucast v)" "kept (header n) (header n')"
      "dom (node_map n') = Set.insert (low32 key) (dom (node_map n))" by blast
  have nth: "nodes T ! length ns = n" using nT by simp
  have "globalDepth n' = globalDepth n" using node_insert_depth [OF _ few n'(1)] l by (simp add: leaf_ok_def)
  then have "insert_at T key v (length ns) 4 RootLink kv = Inr (T\<lparr>nodes := ns @ [n']\<rparr>, Success)"
    using insert_at_leaf [of "length ns" T key v n' RootLink kv] n'(1) l h nth nT by (simp add: store_node_def)
  with n' h show ?thesis by (auto simp: child_ok_def kept_def)
qed

lemma two_leaves:
  "\<exists>n1 n2. insert_at (T\<lparr>nodes := nodes T @ [child_node h 4]\<rparr>) ko vo (length (nodes T)) 4 RootLink kv = Inr (T\<lparr>nodes := nodes T @ [n1]\<rparr>, Success) \<and>
    insert_at (T\<lparr>nodes := nodes T @ [n1]\<rparr>) key v (length (nodes T)) 4 RootLink None = Inr (T\<lparr>nodes := nodes T @ [n2]\<rparr>, Success) \<and>
    child_ok n2 \<and> leaf_val n2 = [low32 ko \<mapsto> ucast vo, low32 key \<mapsto> ucast v]"
proof -
  let ?d = "length (nodes T)" and ?c = "child_node h 4"
  note cc = child_node_ok [of h]
  have ck: "child_ok ?c" using cc by (simp add: child_ok_def)
  from insert_new_leaf [of "T\<lparr>nodes := nodes T @ [?c]\<rparr>" "nodes T" ?c ko vo kv, OF _ ck] obtain n1 where
    n1: "insert_at (T\<lparr>nodes := nodes T @ [?c]\<rparr>) ko vo ?d 4 RootLink kv = Inr (T\<lparr>nodes := nodes T @ [n1]\<rparr>, Success)"
      "child_ok n1" "leaf_val n1 = [low32 ko \<mapsto> ucast vo]" "dom (node_map n1) = {low32 ko}"
    by (auto simp: cc)
  from insert_new_leaf [of "T\<lparr>nodes := nodes T @ [n1]\<rparr>" "nodes T" n1 key v None, OF _ n1(2)] obtain n2 where
    "insert_at (T\<lparr>nodes := nodes T @ [n1]\<rparr>) key v ?d 4 RootLink None = Inr (T\<lparr>nodes := nodes T @ [n2]\<rparr>, Success)"
      "child_ok n2" "leaf_val n2 = [low32 ko \<mapsto> ucast vo, low32 key \<mapsto> ucast v]"
    by (auto simp: n1)
  with n1(1) show ?thesis by blast
qed

lemma child_linked:
  fixes T key n2 v
  defines "n \<equiv> nodes T ! root T" and "k \<equiv> top32 key" and "d \<equiv> length (nodes T)"
  assumes i: "inner_root T" and a: "locate n k = AtKey p j" and m: "node_map n k = Some (KvAt q, False)"
    and key: "fst (pairs T ! q) \<noteq> key" and c: "child_ok n2"
      "leaf_val n2 = [low32 (fst (pairs T ! q)) \<mapsto> ucast (snd (pairs T ! q)), low32 key \<mapsto> ucast v]"
  defines "T' \<equiv> set_child (T\<lparr>nodes := nodes T @ [n2]\<rparr>) (root T) (segmentPtr (segment_node_of n k)) p j d"
  shows "inner_root T'" "tree_map T' = (tree_map T)(key \<mapsto> ucast v)"
    "node_map (nodes T' ! root T') = (node_map n)(k \<mapsto> (NodeAt d, True))" "pairs T' = pairs T" "root T' = root T"
proof -
  let ?g = "segmentPtr (segment_node_of n k)"
  define ko vo where "ko = fst (pairs T ! q)" and "vo = snd (pairs T ! q)"
  note r = inner_rootD [OF i, folded n_def]
  have q: "q < length (pairs T)" "top32 ko = k" using r(8) [OF m] by (simp_all add: entry_ok_def ko_def)
  let ?T3 = "T\<lparr>nodes := nodes T @ [n2]\<rparr>"
  have nr: "nodes ?T3 ! root ?T3 = n" using r(2) by (simp add: nth_append n_def)
  from set_child_root [of ?T3 k p j d] a r(6) obtain n3 where
    n3: "T' = ?T3\<lparr>nodes := (nodes ?T3)[root T := n3]\<rparr>" "closed_node n3"
      "header n3 = header n" "node_map n3 = (node_map n)(k \<mapsto> (NodeAt d, True))"
    unfolding nr T'_def by auto
  have nT': "nodes T' = (nodes T)[root T := n3] @ [n2]" using r(2) by (simp add: list_update_append1 n3(1))
  show ps: "pairs T' = pairs T" "root T' = root T" by (simp_all add: n3(1))
  have rt: "nodes T' ! root T' = n3" "nodes T' ! d = n2" "root T' < length (nodes T')" "length (nodes T') = Suc d"
    unfolding nT' ps using r(2) by (simp_all add: nth_append d_def)
  show map: "node_map (nodes T' ! root T') = (node_map n)(k \<mapsto> (NodeAt d, True))" unfolding rt(1) by (rule n3(4))
  have "wrert_ok T' \<and> tree_map T' = (tree_map T)(key \<mapsto> ucast v)"
  proof (rule inner_update [OF r(1,3) [unfolded n_def] rt(3) refl, folded n_def])
    show "node_map (nodes T' ! root T') = (node_map n)(k \<mapsto> (NodeAt d, True))" by (rule map)
    show "entry_ok T' k (NodeAt d) True" using c(1) rt(2,4) r(2) by (simp add: entry_ok_def ps d_def)
    show "same_entry T T' w' \<and> w' \<noteq> NodeAt d" if "node_map n k' = Some (w', f')" for k' w' f'
      using r(8) [OF that] unfolding same_entry_def nT'
      by (auto simp: entry_ok_def nth_append ps d_def split: payload.splits)
    show "entry_val T' (NodeAt d) True key' = (if key' = key then Some (ucast v) else tree_map T key')" if k': "top32 key' = k" for key'
    proof -
      have "low32 key' = low32 key \<longleftrightarrow> key' = key" "low32 key' = low32 ko \<longleftrightarrow> key' = ko"
        using k' q(2) key_halves unfolding k_def by metis+
      moreover have "entry_val T' (NodeAt d) True key' = leaf_val n2 (low32 key')"
        unfolding entry_val_def by (simp only: payload.case bool.case prod.case rt(2))
      ultimately show ?thesis
        using m k' unfolding tree_map_inner [OF r(3) [unfolded n_def]] n_def [symmetric] by (auto simp: entry_val_def c(2) ko_def vo_def)
    qed
  qed (use rt n3 r k_def in simp_all)
  then show "inner_root T'" "tree_map T' = (tree_map T)(key \<mapsto> ucast v)"
    using r(3) n3(3) by (simp_all add: inner_root_def rt(1))
qed

lemma inner_new_child:
  assumes i: "inner_root T" and a: "locate (nodes T ! root T) (top32 key) = AtKey p j"
    and m: "node_map (nodes T ! root T) (top32 key) = Some (KvAt q, False)" and key: "fst (pairs T ! q) \<noteq> key"
  shows "\<exists>T'. insert_at T key v (root T) 0 l None = Inr (T', Success) \<and> wrert_ok T' \<and>
    tree_map T' = (tree_map T)(key \<mapsto> ucast v)"
proof -
  note r = inner_rootD [OF i]
  have q: "q < length (pairs T)" using r(8) [OF m] by (simp add: entry_ok_def)
  from two_leaves [of T "header (nodes T ! root T)" "fst (pairs T ! q)" "snd (pairs T ! q)" "Some q" key v] obtain n1 n2 where
    n: "insert_at (T\<lparr>nodes := nodes T @ [child_node (header (nodes T ! root T)) 4]\<rparr>) (fst (pairs T ! q)) (snd (pairs T ! q))
        (length (nodes T)) 4 RootLink (Some q) = Inr (T\<lparr>nodes := nodes T @ [n1]\<rparr>, Success)"
      "insert_at (T\<lparr>nodes := nodes T @ [n1]\<rparr>) key v (length (nodes T)) 4 RootLink None = Inr (T\<lparr>nodes := nodes T @ [n2]\<rparr>, Success)"
      "child_ok n2" "leaf_val n2 = [low32 (fst (pairs T ! q)) \<mapsto> ucast (snd (pairs T ! q)), low32 key \<mapsto> ucast v]" by blast
  note slot = at_key [OF r(7) a, folded slot_at_def]
  show ?thesis
    using insert_at_pair [OF i a, of q] slot m q key n(1,2) child_linked(1,2) [OF i a m key n(3,4)] by (simp add: inner_root_def)
qed

text \<open>A key below an existing child.\<close>

lemma inner_child:
  assumes i: "inner_root T" and a: "locate (nodes T ! root T) (top32 key) = AtKey p j"
    and m: "node_map (nodes T ! root T) (top32 key) = Some (NodeAt c, True)"
  shows "\<exists>T'. insert_at T key v (root T) 0 l None = Inr (T', Success) \<and> wrert_ok T' \<and>
    tree_map T' = (tree_map T)(key \<mapsto> ucast v)"
proof -
  let ?n = "nodes T ! root T" and ?k = "top32 key" and ?d = "length (nodes T)"
  let ?g = "segmentPtr (segment_node_of ?n ?k)"
  note r = inner_rootD [OF i]
  have c: "c < ?d" "c \<noteq> root T" "child_ok (nodes T ! c)" using r(8) [OF m] by (simp_all add: entry_ok_def)
  then have l: "leaf_ok (nodes T ! c)" and h: "prefixLength (header (nodes T ! c)) = 0" "nodeHeaderDepth (header (nodes T ! c)) = 1"
    by (auto simp: child_ok_def)
  from leaf_insert [OF l, of "Val 0" "low32 key" "ucast v" 0] obtain n' where
    n': "node_insert put_fuel (Val 0) (nodes T ! c) (low32 key) (Val (ucast v)) 0 = Inr n'" "leaf_ok n'"
      "leaf_val n' = (leaf_val (nodes T ! c))(low32 key \<mapsto> ucast v)" "kept (header (nodes T ! c)) (header n')" by blast
  have ck: "child_ok n'" "nodeHeaderDepth (header n') = 1" using n'(2,4) h by (auto simp: child_ok_def kept_def)
  note slot = at_key [OF r(7) a, folded slot_at_def]
  have run: "insert_at T key v (root T) 0 l None =
      map_sum id (\<lambda>T'. (T', Success)) (store_node T (SlotLink (root T) ?g p j) c n')"
    using insert_at_child [OF i a, of c v l None] insert_at_leaf [OF c(1) l h(1) n'(1)] slot m by simp
  have fin: ?thesis
    if T': "store_node T (SlotLink (root T) ?g p j) c n' = Inr T'" "root T' < length (nodes T')"
      and n1: "header (nodes T' ! root T') = header ?n" "closed_node (nodes T' ! root T')"
        "node_map (nodes T' ! root T') = (node_map ?n)(?k \<mapsto> (NodeAt c', True))"
      and c': "c' < length (nodes T')" "c' \<noteq> root T'" "nodes T' ! c' = n'" "c' = c \<or> c' = ?d" and p': "pairs T' = pairs T"
      and o: "\<And>d. d < ?d \<Longrightarrow> d \<noteq> root T \<Longrightarrow> d \<noteq> c \<Longrightarrow> d < length (nodes T') \<and> d \<noteq> root T' \<and> nodes T' ! d = nodes T ! d"
    for T' c'
  proof -
    have "wrert_ok T' \<and> tree_map T' = (tree_map T)(key \<mapsto> ucast v)"
    proof (rule inner_update [OF r(1,3) T'(2) n1(1) r(4,5,3) n1(2,3) _ _ _ refl])
      show "entry_ok T' ?k (NodeAt c') True" using c' ck by (simp add: entry_ok_def)
      show "same_entry T T' w' \<and> w' \<noteq> NodeAt c'" if "k' \<noteq> ?k" "node_map ?n k' = Some (w', f')" for k' w' f'
      proof -
        have "w' \<noteq> NodeAt c" using r(9) [OF that(2)] m that(1) by blast
        with r(8) [OF that(2)] c'(4) o p' show ?thesis
          by (auto simp: entry_ok_def same_entry_def split: payload.splits)
      qed
      show "entry_val T' (NodeAt c') True key' = (if key' = key then Some (ucast v) else tree_map T key')" if "top32 key' = ?k" for key'
      proof -
        have "low32 key' = low32 key \<longleftrightarrow> key' = key" using that key_halves by metis
        with m that show ?thesis by (simp add: entry_val_def c'(3) n'(3) tree_map_inner [OF r(3)])
      qed
    qed
    with run T'(1) show ?thesis by simp
  qed
  show ?thesis
  proof (cases "globalDepth n' = globalDepth (nodes T ! c)")
    case True
    let ?T' = "T\<lparr>nodes := (nodes T)[c := n']\<rparr>"
    have "nodes ?T' ! root ?T' = ?n" using c(2) by simp
    moreover have "node_map ?n = (node_map ?n)(?k \<mapsto> (NodeAt c, True))" using m by (simp add: fun_upd_idem)
    ultimately show ?thesis
      using fin [of ?T' c] True r(2,6) c by (simp add: store_node_def)
  next
    case False
    let ?T1 = "T\<lparr>nodes := nodes T @ [n']\<rparr>"
    have nr: "nodes ?T1 ! root ?T1 = ?n" using r(2) by (simp add: nth_append)
    from relink_slot [of ?T1 ?k p j "NodeAt c" 1 ?d] r(2,6) a m obtain n1 where
      n1: "relink ?T1 (SlotLink (root T) ?g p j) 1 ?d = Inr (?T1\<lparr>nodes := (nodes ?T1)[root T := n1]\<rparr>)" "closed_node n1"
        "header n1 = header ?n" "node_map n1 = (node_map ?n)(?k \<mapsto> (NodeAt ?d, True))"
      unfolding nr by auto
    let ?T' = "?T1\<lparr>nodes := (nodes ?T1)[root T := n1]\<rparr>"
    have nT': "nodes ?T' = (nodes T)[root T := n1] @ [n']" using r(2) by (simp add: list_update_append1)
    show ?thesis
    proof (rule fin [of ?T' ?d])
      show "store_node T (SlotLink (root T) ?g p j) c n' = Inr ?T'" using False n1(1) ck(2) by (simp add: store_node_def)
    qed (use n1 r(2) c nT' in \<open>simp_all add: nth_append\<close>)
  qed
qed

subsection \<open>A root that skips a prefix\<close>

definition prefixed :: "u32 \<Rightarrow> wrert \<Rightarrow> bool" where
  "prefixed t T \<longleftrightarrow> (let h = header (nodes T ! root T) in prefixLength h = 1 \<and> prefix_is t h)"

lemma leaf_root_insert:
  assumes ok: "wrert_ok T" and pl: "prefixLength (header (nodes T ! root T)) = 1" and l: "leaf_ok (nodes T ! root T)"
    and pre: "prefix_is (top32 key) (header (nodes T ! root T))"
  shows "\<exists>T'. insert_at T key v (root T) 0 RootLink None = Inr (T', Success) \<and> wrert_ok T' \<and>
    tree_map T' = (tree_map T)(key \<mapsto> ucast v) \<and> prefixed (top32 key) T'"
proof -
  let ?n = "nodes T ! root T"
  have r: "root T < length (nodes T)" and h: "nodeHeaderDepth (header ?n) = 0" "length (prefixArray (header ?n)) = 6"
    using ok by (auto simp: wrert_ok_def Let_def)
  from leaf_insert [OF l, of "Val 0" "low32 key" "ucast v" 0] obtain n' where
    n': "node_insert put_fuel (Val 0) ?n (low32 key) (Val (ucast v)) 0 = Inr n'" "leaf_ok n'"
      "leaf_val n' = (leaf_val ?n)(low32 key \<mapsto> ucast v)" "kept (header ?n) (header n')" by blast
  have h': "nodeHeaderDepth (header n') = 0" "length (prefixArray (header n')) = 6" "prefixLength (header n') = 1"
    and pre': "\<And>t. prefix_is t (header n') \<longleftrightarrow> prefix_is t (header ?n)"
    using n'(4) h pl by (auto simp: kept_def prefix_is_def)
  from store_root [OF r h'(1)] obtain T' where
    T': "store_node T RootLink (root T) n' = Inr T'" "root T' < length (nodes T')" "nodes T' ! root T' = n'" by blast
  obtain t where g: "get_subkey key 32 32 = Inr t" "ucast t = low32 key" by (rule subkey_halves)
  have "\<not> bad_depths ?n (low32 key)" using node_entry(6) l unfolding leaf_ok_def closed_node_def by blast
  then have "insert_at T key v (root T) 0 RootLink None = Inr (T', Success)"
    using computePrefix_one [OF pl h(2), of key] pre g n'(1) T'(1) r pl
    by (subst insert_at.simps) (simp add: Let_def)
  moreover have "wrert_ok T'" using T'(2,3) h' n'(2) pre pre' by (auto simp: wrert_ok_def)
  moreover have "tree_map T' = (tree_map T)(key \<mapsto> ucast v)"
  proof
    fix key'
    show "tree_map T' key' = ((tree_map T)(key \<mapsto> ucast v)) key'"
    proof (cases "prefix_is (top32 key') (header ?n)")
      case True
      have "top32 key' = top32 key" by (rule prefix_is_inj [OF h(2) True pre])
      then have "low32 key' = low32 key \<longleftrightarrow> key' = key" using key_halves by blast
      with True show ?thesis by (simp add: tree_map_def T'(3) h'(3) pl pre' n'(3))
    next
      case False
      with pre have "key' \<noteq> key" by blast
      with False show ?thesis by (simp add: tree_map_def T'(3) h'(3) pl pre')
    qed
  qed
  moreover have "prefixed (top32 key) T'" using T'(3) h'(3) pre pre' by (simp add: prefixed_def)
  ultimately show ?thesis by blast
qed

lemma empty_root_insert:
  assumes ok: "wrert_ok T" and pl: "prefixLength (header (nodes T ! root T)) = 6"
    and n: "closed_node (nodes T ! root T)" "node_map (nodes T ! root T) = Map.empty"
  shows "\<exists>T'. insert_at T key v (root T) 0 RootLink None = Inr (T', Success) \<and> wrert_ok T' \<and>
    tree_map T' = (tree_map T)(key \<mapsto> ucast v) \<and> prefixed (top32 key) T'"
proof -
  let ?n = "nodes T ! root T"
  have r: "root T < length (nodes T)" and h: "nodeHeaderDepth (header ?n) = 0"
    using ok by (auto simp: wrert_ok_def Let_def)
  from assignPrefix_one [of key] obtain a where
    a: "assignPrefix 1 key 0 = Inr a" "length a = 6" "take 4 a = prefix_bytes (top32 key)" by blast
  let ?h1 = "(header ?n)\<lparr>prefixLength := 1, prefixArray := a\<rparr>"
  let ?T1 = "T\<lparr>nodes := (nodes T)[root T := ?n\<lparr>header := ?h1\<rparr>]\<rparr>"
  have n1: "nodes ?T1 ! root ?T1 = ?n\<lparr>header := ?h1\<rparr>" using r by simp
  have l: "leaf_ok ?n" using n by (simp add: leaf_ok_def)
  have pre: "prefix_is (top32 key) ?h1" using a(3) by (simp add: prefix_is_def)
  have ok1: "wrert_ok ?T1" unfolding wrert_ok_def n1 Let_def using r h a(2) l pre by auto
  have "tree_map ?T1 = tree_map T"
    unfolding tree_map_def n1 Let_def using n(2) pl by (auto simp: fun_eq_iff leaf_val_def)
  moreover have "insert_at T key v (root T) 0 RootLink None = insert_at ?T1 key v (root ?T1) 0 RootLink None"
    using r pl a(1) by (subst insert_at.simps) (simp add: Let_def computePrefix_def)
  moreover have "prefixLength (header (nodes ?T1 ! root ?T1)) = 1" "leaf_ok (nodes ?T1 ! root ?T1)"
      "prefix_is (top32 key) (header (nodes ?T1 ! root ?T1))"
    unfolding n1 using l pre by simp_all
  ultimately show ?thesis using leaf_root_insert [OF ok1, of key v] by metis
qed

lemma two_puts:
  assumes nn: "closed_node nn" "node_map nn = Map.empty" "globalDepth nn = 0" and k: "k \<noteq> k'"
  shows "\<exists>n1 n2. putSegNode put_fuel z nn k w 0 f = Inr n1 \<and> putSegNode put_fuel z n1 k' w' 0 f' = Inr n2 \<and>
    closed_node n2 \<and> node_map n2 = [k \<mapsto> (w, f), k' \<mapsto> (w', f')] \<and> kept (header nn) (header n2) \<and> globalDepth n2 = 0"
proof -
  have ins: "\<exists>n'. putSegNode put_fuel z n k v 0 f = Inr n' \<and> closed_node n' \<and> node_map n' = (node_map n)(k \<mapsto> (v, f)) \<and>
      kept (header n) (header n') \<and> globalDepth n' = 0"
    if "closed_node n" "node_map n k = None" "card (dom (node_map n)) < 16" "globalDepth n = 0" for n :: "'a wrert_node" and k v f
  proof -
    have ok: "node_ok (dom (node_map n)) n" using that(1) by (simp add: closed_node_def)
    have "24 \<le> put_fuel + localDepth (segment_node_of n k)" by (simp add: put_fuel_def)
    from putSegNode_ok [OF ok _ this, of z v 0 f] that(2) obtain n' where
      n': "putSegNode put_fuel z n k v 0 f = Inr n'" "node_ok (Set.insert k (dom (node_map n))) n'"
        "node_map n' = (node_map n)(k \<mapsto> (v, f))" by (auto simp: domIff)
    then have "closed_node n'" by (simp add: closed_node_def)
    with n' put_kept(1) [OF n'(1)] putSegNode_depth [OF ok _ that(3,4) n'(1)] that(2) show ?thesis by (auto simp: domIff)
  qed
  from ins [OF nn(1), of k w f] nn obtain n1 where
    n1: "putSegNode put_fuel z nn k w 0 f = Inr n1" "closed_node n1" "node_map n1 = [k \<mapsto> (w, f)]"
      "kept (header nn) (header n1)" "globalDepth n1 = 0" by auto
  from ins [OF n1(2), of k' w' f'] n1(3,5) k obtain n2 where
    "putSegNode put_fuel z n1 k' w' 0 f' = Inr n2" "closed_node n2" "node_map n2 = [k \<mapsto> (w, f), k' \<mapsto> (w', f')]"
      "kept (header n1) (header n2)" "globalDepth n2 = 0" by auto
  with n1 kept_trans show ?thesis by blast
qed

lemma split_root_insert:
  assumes ok: "wrert_ok T" and pl: "prefixLength (header (nodes T ! root T)) = 1" and l: "leaf_ok (nodes T ! root T)"
    and pt: "prefix_is t (header (nodes T ! root T))" and ne: "\<not> prefix_is (top32 key) (header (nodes T ! root T))" and s: "small v"
  shows "\<exists>T'. insert_at T key v (root T) 0 RootLink None = Inr (T', Success) \<and> wrert_ok T' \<and>
    tree_map T' = (tree_map T)(key \<mapsto> ucast v) \<and> pairs T' = pairs T @ [(key, v)] \<and>
    node_map (nodes T' ! root T') = [top32 key \<mapsto> (KvAt (length (pairs T)), False), t \<mapsto> (NodeAt (root T), True)]"
proof -
  let ?n = "nodes T ! root T" and ?k = "top32 key" and ?i = "length (pairs T)" and ?d = "length (nodes T)"
  let ?nn = "new_node\<lparr>header := header_initialize (Some (header ?n)) 0 0 (header new_node)\<rparr>"
  have r: "root T < ?d" and h: "nodeHeaderDepth (header ?n) = 0" "length (prefixArray (header ?n)) = 6"
    using ok by (auto simp: wrert_ok_def Let_def)
  have k: "?k \<noteq> t" using pt ne by blast
  obtain u where g: "get_subkey key 0 32 = Inr u" "ucast u = ?k" by (rule subkey_halves)
  from prefix_array_bits_one [OF h(2) pt [unfolded prefix_is_def]] obtain b where
    b: "prefix_array_bits (prefixArray (header ?n)) 0 4 = Inr b" "ucast b = t" by blast
  have nn: "closed_node ?nn" "node_map ?nn = Map.empty" "globalDepth ?nn = 0" by (simp_all add: new_node_facts)
  from two_puts [OF nn k, of "Val 0" "KvAt ?i" False "NodeAt (root T)" True] obtain n1 n2 where
    n2: "putSegNode put_fuel (Val 0) ?nn ?k (KvAt ?i) 0 False = Inr n1" "putSegNode put_fuel (Val 0) n1 t (NodeAt (root T)) 0 True = Inr n2"
      "closed_node n2" "node_map n2 = [?k \<mapsto> (KvAt ?i, False), t \<mapsto> (NodeAt (root T), True)]"
      "kept (header ?nn) (header n2)" "globalDepth n2 = 0" by blast
  have h2: "nodeHeaderDepth (header n2) = 0" "prefixLength (header n2) = 0" "length (prefixArray (header n2)) = 6"
    using n2(5) by (auto simp: kept_def header_initialize_def new_node_def NewWRERTNode_def zero_header_def)
  define h' where "h' = \<lparr>nodeHeaderDepth = 1, prefixLength = 0, prefixArray = shift_prefix 0 (prefixArray (header ?n))\<rparr>"
  define T' where "T' = T\<lparr>nodes := (nodes T)[root T := ?n\<lparr>header := h'\<rparr>] @ [n2], pairs := pairs T @ [(key, v)], root := ?d\<rparr>"
  have "split_prefix T key v (root T) 0 RootLink 0 = Inr T'"
    unfolding split_prefix_def T'_def h'_def using g b n2(1,2,6) h pl by (simp add: Let_def relink_def)
  then have run: "insert_at T key v (root T) 0 RootLink None = Inr (T', Success)"
    using computePrefix_one [OF pl h(2), of key] ne r pl by (subst insert_at.simps) (simp add: Let_def)
  have T': "root T' = ?d" "length (nodes T') = Suc ?d" "nodes T' ! ?d = n2" "nodes T' ! root T = ?n\<lparr>header := h'\<rparr>"
    "pairs T' = pairs T @ [(key, v)]"
    using r by (simp_all add: T'_def nth_append)
  have ck: "child_ok (?n\<lparr>header := h'\<rparr>)" using l by (simp add: child_ok_def h'_def)
  have e: "entry_ok T' ?k (KvAt ?i) False" "entry_ok T' t (NodeAt (root T)) True"
    using s r ck by (simp_all add: entry_ok_def T')
  have "inner_ok T' n2" unfolding inner_ok_def n2(4) using n2(3) e k by (auto split: if_splits)
  then have "wrert_ok T'" unfolding wrert_ok_def T'(1) Let_def T'(2,3) using h2 by simp
  moreover have "tree_map T' = (tree_map T)(key \<mapsto> ucast v)"
  proof
    fix key'
    have "tree_map T' key' = (case node_map n2 (top32 key') of None \<Rightarrow> None | Some (w, f) \<Rightarrow> entry_val T' w f key')"
      using tree_map_inner [of T' key'] h2(2) by (simp add: T'(1,3))
    also have "\<dots> = ((tree_map T)(key \<mapsto> ucast v)) key'"
    proof (cases "top32 key' = t")
      case True
      then have "key' \<noteq> key" "prefix_is (top32 key') (header ?n)" using k pt by auto
      with True show ?thesis by (simp add: n2(4) entry_val_def T'(4) tree_map_def pl)
    next
      case False
      then have "\<not> prefix_is (top32 key') (header ?n)" using prefix_is_inj [OF h(2) _ pt] by blast
      then show ?thesis using False by (auto simp: n2(4) entry_val_def T'(5) tree_map_def pl)
    qed
    finally show "tree_map T' key' = ((tree_map T)(key \<mapsto> ucast v)) key'" .
  qed
  moreover have "node_map (nodes T' ! root T') = [?k \<mapsto> (KvAt ?i, False), t \<mapsto> (NodeAt (root T), True)]"
    unfolding T'(1,3) by (rule n2(4))
  ultimately show ?thesis using run T'(5) by blast
qed

subsection \<open>All cases\<close>

lemma wrert_insert_ok:
  assumes ok: "wrert_ok T" and s: "small v"
  shows "\<exists>T'. wrert_insert T key v = Inr (T', Success) \<and> wrert_ok T' \<and> tree_map T' = (tree_map T)(key \<mapsto> ucast v)"
proof -
  let ?n = "nodes T ! root T"
  from ok consider (empty) "prefixLength (header ?n) = 6" "closed_node ?n" "node_map ?n = Map.empty"
    | (leaf) t where "prefixLength (header ?n) = 1" "leaf_ok ?n" "prefix_is t (header ?n)"
    | (inner) "inner_root T"
    by (auto simp: wrert_ok_def inner_root_def Let_def)
  then show ?thesis
    unfolding wrert_insert_def
  proof cases
    case empty
    then show "\<exists>T'. insert_at T key v (root T) 0 RootLink None = Inr (T', Success) \<and> wrert_ok T' \<and>
        tree_map T' = (tree_map T)(key \<mapsto> ucast v)"
      using empty_root_insert [OF ok, of key v] by blast
  next
    case leaf
    then show "\<exists>T'. insert_at T key v (root T) 0 RootLink None = Inr (T', Success) \<and> wrert_ok T' \<and>
        tree_map T' = (tree_map T)(key \<mapsto> ucast v)"
      using leaf_root_insert [OF ok, of key v] split_root_insert [OF ok _ _ _ _ s, of t key] by blast
  next
    case inner
    note r = inner_rootD [OF inner]
    show "\<exists>T'. insert_at T key v (root T) 0 RootLink None = Inr (T', Success) \<and> wrert_ok T' \<and>
        tree_map T' = (tree_map T)(key \<mapsto> ucast v)"
    proof (cases "\<exists>p j. locate ?n (top32 key) = AtKey p j")
      case False
      then show ?thesis using inner_new_pair [OF inner s] by blast
    next
      case True
      then obtain p j where a: "locate ?n (top32 key) = AtKey p j" by blast
      from at_key [OF r(7) a] obtain w f where m: "node_map ?n (top32 key) = Some (w, f)" by blast
      with r(8) [OF m] consider (pair) q where "w = KvAt q" "\<not> f" "q < length (pairs T)" | (child) c where "w = NodeAt c" "f"
        by (auto simp: entry_ok_def split: payload.splits)
      then show ?thesis
      proof cases
        case pair
        show ?thesis
        proof (cases "fst (pairs T ! q) = key")
          case True
          then show ?thesis
            using inner_same_pair [OF inner s, of key q] insert_at_pair [OF inner a, of q v RootLink None]
              at_key [OF r(7) a, folded slot_at_def] m pair by auto
        next
          case False
          then show ?thesis using inner_new_child [OF inner a] m pair by simp
        qed
      next
        case child
        then show ?thesis using inner_child [OF inner a] m by simp
      qed
    qed
  qed
qed

end
