(* ===== verification/Wrert_Props.thy ===== *)
theory Wrert_Props
  imports Wrert_Tree_Insert
begin

text \<open>
  The WRERT tree refines a map from 64-bit keys to 48-bit values, and two things that a
  caller may not expect: wider values are cut, and a lookup in a tree whose root has a prefix
  depends on an uninitialised variable.
\<close>

subsection \<open>The tree as an index\<close>

definition wrert_put :: "wrert \<Rightarrow> u64 \<Rightarrow> 48 word \<Rightarrow> wrert res" where
  "wrert_put T key v = map_sum id fst (wrert_insert T key (ucast v))"

text \<open>A caller takes the two negative codes as "not there".\<close>

definition wrert_get :: "wrert \<Rightarrow> u64 \<Rightarrow> 48 word option res" where
  "wrert_get T key =
     map_sum id (\<lambda>r. if r = result_code Failed \<or> r = result_code NotFound then None else Some (ucast r)) (wrert_search 0 T key)"

lemma ucast_48_64 [simp]: "ucast (ucast w :: u64) = (w :: 48 word)"
  by (rule bit_word_eqI) (simp add: bit_ucast_iff)

lemma small_ucast [simp]: "small (ucast (w :: 48 word))"
  by (simp add: small_def)

lemma answer_decode:
  "(if answer r = result_code Failed \<or> answer r = result_code NotFound then None else Some (ucast (answer r))) = r"
proof (cases r)
  case None
  then show ?thesis by (simp add: answer_def)
next
  case (Some w)
  have "answer r \<noteq> result_code Failed" using answer_inj [of r None] Some by (auto simp: answer_def)
  moreover have "answer r \<noteq> result_code NotFound"
  proof
    assume "answer r = result_code NotFound"
    then have "bit (ucast w :: u64) 63" using Some by (simp add: answer_def result_code_def)
    then show False using bit_imp_le_length [of w 63] by (simp add: bit_ucast_iff)
  qed
  ultimately show ?thesis using Some by (simp add: answer_def)
qed

lemma wrert_get_ok: "wrert_ok T \<Longrightarrow> wrert_get T key = Inr (tree_map T key)"
  by (simp add: wrert_get_def search_ok answer_decode)

lemma wrert_put_ok:
  assumes "wrert_ok T"
  shows "\<exists>T'. wrert_put T key v = Inr T' \<and> wrert_ok T' \<and> tree_map T' = (tree_map T)(key \<mapsto> v)"
  using wrert_insert_ok [OF assms small_ucast [of v], of key] by (auto simp: wrert_put_def)

interpretation wrert_tree: index wrert_ok tree_map wrert_put wrert_get
  by unfold_locales (rule wrert_put_ok, assumption, rule wrert_get_ok)

lemma NewWRERT_ok: "wrert_ok NewWRERT" "tree_map NewWRERT = Map.empty"
proof -
  have h: "prefixLength (header new_node) = 6" "nodeHeaderDepth (header new_node) = 0" "length (prefixArray (header new_node)) = 6"
    by (simp_all add: new_node_def NewWRERTNode_def header_initialize_def zero_header_def)
  then show "wrert_ok NewWRERT" by (simp add: wrert_ok_def NewWRERT_def new_node_facts)
  show "tree_map NewWRERT = Map.empty" using h by (simp add: fun_eq_iff tree_map_def NewWRERT_def)
qed

text \<open>
  C1.  Starting from \<open>NewWRERT\<close>, any sequence of insertions of 64-bit keys with values below
  \<open>2 ^ 48\<close> succeeds, through prefix splits, new child nodes, segment splits and directory
  doublings at both levels; afterwards \<open>search\<close>, when its uninitialised local
  \<open>arrayMatchLength\<close> holds 0 or more than 24, returns the last value inserted for a key and
  \<open>Failed\<close> for every other key.
\<close>

theorem wrert_history:
  assumes "junk = 0 \<or> 24 < junk"
  shows "\<exists>T. run_puts wrert_put NewWRERT kvs = Inr T \<and>
    (\<forall>key. wrert_search junk T key = Inr (answer (map_of (rev kvs) key)))"
proof -
  from wrert_tree.get_history [OF NewWRERT_ok, of kvs] obtain T where
    T: "run_puts wrert_put NewWRERT kvs = Inr T" "wrert_ok T" "tree_map T = map_of (rev kvs)" by blast
  then show ?thesis using search_ok [OF T(2) assms] by auto
qed

theorem wrert_history_witness:
  "\<exists>T. run_puts wrert_put NewWRERT [(5, 1), (6, 2), (0x100000005, 3), (5, 4)] = Inr T \<and>
    wrert_search 77 T 5 = Inr 4 \<and> wrert_search 77 T 6 = Inr 2 \<and> wrert_search 77 T 0x100000005 = Inr 3 \<and>
    wrert_search 77 T 7 = Inr (result_code Failed)"
proof -
  have "(77 :: u32) = 0 \<or> 24 < (77 :: u32)" by simp
  from wrert_history [OF this, of "[(5, 1), (6, 2), (0x100000005, 3), (5, 4)]"] show ?thesis
    by (auto simp: answer_def)
qed

text \<open>
  One insertion into any tree of the invariant: \<open>insert\<close> returns \<open>Success\<close>, never runs
  into undefined behaviour or out of fuel, and changes what \<open>search\<close> returns at its key only.
\<close>

theorem wrert_insert_search:
  assumes "wrert_ok T"
  shows "\<exists>T'. wrert_insert T key (ucast (v :: 48 word)) = Inr (T', Success) \<and> wrert_ok T' \<and>
    (\<forall>key'. wrert_search 0 T' key' = (if key' = key then Inr (ucast v) else wrert_search 0 T key'))"
proof -
  from wrert_insert_ok [OF assms small_ucast [of v], of key] obtain T' where
    T': "wrert_insert T key (ucast v) = Inr (T', Success)" "wrert_ok T'" "tree_map T' = (tree_map T)(key \<mapsto> v)" by auto
  then show ?thesis using search_ok [OF assms] search_ok [OF T'(2)] by (simp add: answer_def)
qed

theorem wrert_insert_search_witness:
  "\<exists>T'. wrert_insert NewWRERT 5 7 = Inr (T', Success) \<and> wrert_search 0 T' 5 = Inr 7"
  using wrert_insert_search [OF NewWRERT_ok(1), of 5 7] by auto

text \<open>
  The first value of a tree goes into a 48-bit field: whatever 64-bit value is inserted,
  \<open>search\<close> returns its low 48 bits, although \<open>insert\<close> reports \<open>Success\<close>.
\<close>

theorem wrert_truncates:
  "\<exists>T. wrert_insert NewWRERT key v = Inr (T, Success) \<and> wrert_search 0 T key = Inr (v AND mask 48)"
proof -
  have r: "root NewWRERT = 0" "nodes NewWRERT ! root NewWRERT = new_node" by (simp_all add: NewWRERT_def)
  have "prefixLength (header new_node) = 6" by (simp add: new_node_def NewWRERTNode_def header_initialize_def)
  then obtain T' where T': "wrert_insert NewWRERT key v = Inr (T', Success)" "wrert_ok T'"
      "tree_map T' = (tree_map NewWRERT)(key \<mapsto> ucast v)"
    using empty_root_insert [OF NewWRERT_ok(1), of key v] unfolding r(2) wrert_insert_def by (auto simp: new_node_facts)
  have "ucast (ucast v :: 48 word) = v AND mask 48"
    by (rule bit_word_eqI) (auto simp: bit_ucast_iff bit_and_iff bit_mask_iff)
  with T' show ?thesis using search_ok [OF T'(2), of 0 key] by (simp add: answer_def)
qed

text \<open>
  A lookup in a new tree reads the uninitialised \<open>arrayMatchLength\<close>: it fails properly
  when the variable happens to be 0 or above 24, and dereferences the null global segment
  otherwise.
\<close>

theorem wrert_search_uninitialised:
  "wrert_search junk NewWRERT key =
     (if junk = 0 \<or> 24 < junk then Inr (result_code Failed) else Inl NullDeref)"
proof (cases "junk = 0 \<or> 24 < junk")
  case True
  then show ?thesis using search_ok [OF NewWRERT_ok(1) True, of key] NewWRERT_ok(2) by (simp add: answer_def)
next
  case False
  then have "junk \<noteq> 0 \<and> 0 + junk \<le> 24" by (simp add: not_less)
  moreover have "prefixLength (header (nodes NewWRERT ! root NewWRERT)) = 6"
    by (simp add: NewWRERT_def new_node_def NewWRERTNode_def header_initialize_def)
  ultimately have "skip_node_prefix junk (header (nodes NewWRERT ! root NewWRERT)) key 0 = Inl NullDeref"
    by (simp add: skip_node_prefix_def computePrefix_def)
  with False show ?thesis
    by (subst wrert_search_def, subst search_at.simps) (simp add: Let_def NewWRERT_def)
qed

end
