(* ===== verification/Wrert_Scan.thy ===== *)
theory Wrert_Scan
  imports Wrert_Props
begin

text \<open>
  Range scans, full scans and the memory profile of \<^verbatim>\<open>wrert/wrert.cpp\<close>.  The scans append to
  a vector; here they return the list of what they append.  The two levels of recursion that
  8-byte keys allow are counted down by a fuel argument.
\<close>

subsection \<open>Walking the buckets\<close>

text \<open>
  \<open>bucketRangeIterate\<close>: the slots of buckets \<open>a\<close> to \<open>b\<close>; a bucket is left at the first slot
  that is invalid, has another version or belongs to a directory entry outside \<open>lo\<close> to \<open>hi\<close>.
\<close>

definition slot_in :: "9 word \<Rightarrow> nat \<Rightarrow> nat \<Rightarrow> nat \<Rightarrow> payload slot \<Rightarrow> bool" where
  "slot_in ver gd lo hi x \<longleftrightarrow> validFlag x \<and> migVersion x = ver \<and>
     lo \<le> get_segment_number (subKey x) gd \<and> get_segment_number (subKey x) gd \<le> hi"

definition bucketRangeIterate ::
  "payload segment \<Rightarrow> nat \<Rightarrow> nat \<Rightarrow> nat \<Rightarrow> nat \<times> nat \<times> 9 word \<Rightarrow> payload slot list" where
  "bucketRangeIterate sg gd lo hi r =
     (let (a, b, ver) = r in concat (map (\<lambda>i. takeWhile (slot_in ver gd lo hi) (sg ! i)) [a..<Suc b]))"

definition segment_slots ::
  "payload segment \<Rightarrow> nat \<Rightarrow> nat \<Rightarrow> nat \<Rightarrow> (nat \<times> nat \<times> 9 word) list \<Rightarrow> payload slot list" where
  "segment_slots sg gd lo hi rs = concat (map (bucketRangeIterate sg gd lo hi) rs)"

text \<open>The directory entries a scan visits: the one at \<open>i\<close>, then the first of the next block.\<close>

definition next_segment :: "payload wrert_node \<Rightarrow> nat \<Rightarrow> nat" where
  "next_segment n i = (let w = 2 ^ (globalDepth n - localDepth (directory n ! i)) in i - i mod w + w)"

lemma next_segment_gt: "i < next_segment n i"
proof -
  define w :: nat where "w = 2 ^ (globalDepth n - localDepth (directory n ! i))"
  have "0 < w" by (simp add: w_def)
  then have "i mod w < w" by (rule mod_less_divisor)
  moreover have "i mod w \<le> i" by (rule mod_less_eq_dividend)
  ultimately show ?thesis by (simp add: next_segment_def w_def [symmetric])
qed

function segment_walk :: "payload wrert_node \<Rightarrow> nat \<Rightarrow> nat \<Rightarrow> nat list" where
  "segment_walk n i final = (if final < i then [] else i # segment_walk n (next_segment n i) final)"
  by pat_completeness auto
termination
proof (relation "measure (\<lambda>(n, i, final). Suc final - i)")
  show "((n, next_segment n i, final), n, i, final) \<in> measure (\<lambda>(n, i, final). Suc final - i)" if "\<not> final < i" for n i final
    using next_segment_gt [of i n] that by simp
qed simp

declare segment_walk.simps [simp del]

subsection \<open>Full scans\<close>

text \<open>
  The prefix of the keys below a node: the bytes of the node's own prefix are meant to be
  appended to it, but byte \<open>i\<close> is shifted by \<open>4 * prefixLength - i\<close> bits.
\<close>

definition extend_prefix :: "wrert_header \<Rightarrow> u64 \<Rightarrow> u64 res" where
  "extend_prefix h prefix =
     (let m = prefixLength h * 4 in
      if prefixLength h = 0 then Inr prefix
      else if m * 8 \<ge> 64 \<or> m > length (prefixArray h) then Inl BadShift
      else Inr (fold (\<lambda>i p. p + push_bit (m - i) (ucast (prefixArray h ! i))) [0..<m] (push_bit (m * 8) prefix)))"

text \<open>The ranges of a whole segment: shared buckets with one version, main ones with the next.\<close>

definition full_ranges :: "segment_node \<Rightarrow> (nat \<times> nat \<times> 9 word) list" where
  "full_ranges sn =
     (let s = window sn; sv = shared_version (localDepth sn); mv = main_version (localDepth sn) in
      if s = 16 then [(0, s - 1, mv), (s, s + 15, sv), (s + 16, 47, mv)]
      else if s = 0 then [(0, s + 15, sv), (s + 16, 47, mv)]
      else [(0, s - 1, mv), (s, 47, sv)])"

definition same_segment :: "payload wrert_node \<Rightarrow> nat \<Rightarrow> nat \<Rightarrow> nat" where
  "same_segment n i final =
     (let sn = directory n ! i; w = 2 ^ (globalDepth n - localDepth sn) in
      if i = final \<or> segmentPtr sn = segmentPtr (directory n ! final) then final else w + (i - i mod w) - 1)"

definition node_slots :: "payload wrert_node \<Rightarrow> payload slot list" where
  "node_slots n =
     (let final = capacity n - 1 in
      concat (map (\<lambda>i. let sn = directory n ! i in
          segment_slots (segs n ! segmentPtr sn) (globalDepth n) i (same_segment n i final) (full_ranges sn))
        (segment_walk n 0 final)))"

fun scanAllNodes :: "nat \<Rightarrow> wrert \<Rightarrow> nat \<Rightarrow> nat \<Rightarrow> u64 \<Rightarrow> (u64 \<times> u64) list res" where
  "scanAllNodes 0 T c pos prefix = Inl OutOfFuel"
| "scanAllNodes (Suc fuel) T c pos prefix =
     (if c \<ge> length (nodes T) then Inl NullDeref
      else
        let n = nodes T ! c in
        case extend_prefix (header n) prefix of
          Inl e \<Rightarrow> Inl e
        | Inr p \<Rightarrow>
            let p' = push_bit 32 p; pos' = pos + prefixLength (header n) * 4 + 4 in
            collect (\<lambda>x.
                if pos' = 8 then
                  (case slot_value x of Val w \<Rightarrow> Inr [(ucast (subKey x) + p', ucast w)] | _ \<Rightarrow> Inl WildAccess)
                else
                  (case (nodeFlag x, slot_value x) of
                     (True, NodeAt d) \<Rightarrow> scanAllNodes fuel T d pos' (ucast (subKey x) + p')
                   | (False, KvAt i) \<Rightarrow> if i < length (pairs T) then Inr [pairs T ! i] else Inl WildAccess
                   | _ \<Rightarrow> Inl WildAccess))
              (node_slots n))"

definition scan_fuel :: nat where "scan_fuel = 3"

subsection \<open>Range scans\<close>

text \<open>
  The comparison of a boundary with the node's prefix, byte by byte.  \<open>None\<close> ends the scan
  of the node, \<open>Some None\<close> is a boundary that agrees with the prefix, \<open>Some (Some i)\<close> a directory
  index.  A node without prefix (length 6) makes the loops run past the array.
\<close>

definition key_byte :: "u64 \<Rightarrow> nat \<Rightarrow> u8" where
  "key_byte key i = ucast (drop_bit (64 - i * 8 - 8) key)"

definition first_mismatch_byte :: "wrert_header \<Rightarrow> u64 \<Rightarrow> nat \<Rightarrow> nat option res" where
  "first_mismatch_byte h key pos =
     (let m = prefixLength h * 4; k = length (prefixArray h) in
      case find_index (\<lambda>i. key_byte key (pos + i) \<noteq> prefixArray h ! i) [0..<min m k] of
        None \<Rightarrow> if k < m then Inl OutOfBounds else Inr None
      | Some i \<Rightarrow> Inr (Some i))"

definition left_bound :: "payload wrert_node \<Rightarrow> u64 \<Rightarrow> nat \<Rightarrow> nat option option res" where
  "left_bound n key pos = map_sum id (\<lambda>m.
     case m of
       None \<Rightarrow> Some None
     | Some i \<Rightarrow> if key_byte key (pos + i) > prefixArray (header n) ! i then None else Some (Some 0))
     (first_mismatch_byte (header n) key pos)"

definition right_bound :: "payload wrert_node \<Rightarrow> u64 \<Rightarrow> nat \<Rightarrow> nat option option res" where
  "right_bound n key pos = map_sum id (\<lambda>m.
     case m of
       None \<Rightarrow> Some None
     | Some i \<Rightarrow> if key_byte key (pos + i) > prefixArray (header n) ! i then Some (Some (capacity n - 1)) else None)
     (first_mismatch_byte (header n) key pos)"

text \<open>
  A boundary sub-key and its directory entry; when the prefix comparison has decided the
  entry, the sub-key variable keeps its initial value \<open>UINT64_MAX\<close>.
\<close>

definition scan_bound :: "payload wrert_node \<Rightarrow> u64 \<Rightarrow> nat \<Rightarrow> nat option \<Rightarrow> (u64 \<times> nat) res" where
  "scan_bound n key pos b =
     (case b of
        Some i \<Rightarrow> Inr (-1, i)
      | None \<Rightarrow> map_sum id (\<lambda>s. (s, get_segment_number (ucast s) (globalDepth n))) (get_subkey key (pos * 8) 32))"

definition scan_shared :: "u64 \<Rightarrow> segment_node \<Rightarrow> nat" where
  "scan_shared k sn = unat (drop_bit (32 - (localDepth sn + 4)) k AND mask 5) mod 16"

text \<open>The bucket ranges of a segment between two shared positions, in the order of case 3.1 or 3.2.\<close>

definition scan_ranges :: "bool \<Rightarrow> segment_node \<Rightarrow> nat \<Rightarrow> nat \<Rightarrow> (nat \<times> nat \<times> 9 word) list" where
  "scan_ranges one sn l r =
     (let s = window sn; sv = shared_version (localDepth sn); mv = main_version (localDepth sn);
          m1 = ((s + 16) mod 48 + (l mod 16) * 2) mod 48;
          m2 = ((s + 16) mod 48 + (r mod 16) * 2 + 1) mod 48
      in if l < 24 \<and> 24 < r then [(0, m2, mv), (l, r, sv), (m1, 47, mv)]
         else if one then [(l, r, sv), (m1, m2, mv)]
         else [(m1, m2, mv), (l, r, sv)])"

text \<open>The shared positions and the last directory entry for one segment of case 3.2.\<close>

definition scan_part :: "payload wrert_node \<Rightarrow> u64 \<Rightarrow> u64 \<Rightarrow> nat \<Rightarrow> nat \<Rightarrow> nat \<Rightarrow> nat \<times> nat \<times> nat" where
  "scan_part n lk rk li ri i =
     (let sn = directory n ! i; rsn = directory n ! ri; s = window sn;
          w = 2 ^ (globalDepth n - localDepth sn); hi = w + (i - i mod w) - 1;
          l = s + scan_shared lk (directory n ! li); r = s + scan_shared rk rsn;
          same = (segmentPtr sn = segmentPtr rsn)
      in if i = li then (if same then (l, r, ri) else (l, s + 15, hi))
         else if i = ri then (s, r, ri)
         else if same then (s, r, ri)
         else (s, s + 15, hi))"

definition range_slots :: "payload wrert_node \<Rightarrow> u64 \<Rightarrow> u64 \<Rightarrow> nat \<Rightarrow> nat \<Rightarrow> payload slot list" where
  "range_slots n lk rk li ri =
     (if li = ri then
        (let sn = directory n ! li; s = window sn in
         segment_slots (segs n ! segmentPtr sn) (globalDepth n) li li
           (scan_ranges True sn (s + scan_shared lk sn) (s + scan_shared rk sn)))
      else
        concat (map (\<lambda>i. let sn = directory n ! i; (l, r, hi) = scan_part n lk rk li ri i in
            segment_slots (segs n ! segmentPtr sn) (globalDepth n) i hi (scan_ranges False sn l r))
          (segment_walk n li ri)))"

text \<open>
  Slots strictly between the boundary sub-keys are reported with all their keys, slots on a
  boundary are scanned further; a pair on a boundary is reported without looking at its key.
\<close>

fun nodeScan :: "nat \<Rightarrow> u32 \<Rightarrow> wrert \<Rightarrow> nat \<Rightarrow> u64 \<Rightarrow> u64 \<Rightarrow> nat \<Rightarrow> u64 \<Rightarrow> (u64 \<times> u64) list res" where
  "nodeScan 0 junk T c leftKey rightKey pos prefix = Inl OutOfFuel"
| "nodeScan (Suc fuel) junk T c leftKey rightKey pos prefix =
     (if leftKey = rightKey then
        map_sum id (\<lambda>r. if r = result_code Failed then [] else [(leftKey, r)]) (wrert_search junk T leftKey)
      else if leftKey > rightKey then Inr []
      else if c \<ge> length (nodes T) then Inl NullDeref
      else
        let n = nodes T ! c in
        case left_bound n leftKey pos of
          Inl e \<Rightarrow> Inl e
        | Inr None \<Rightarrow> Inr []
        | Inr (Some lb) \<Rightarrow>
        (case right_bound n rightKey pos of
          Inl e \<Rightarrow> Inl e
        | Inr None \<Rightarrow> Inr []
        | Inr (Some rb) \<Rightarrow>
        (case extend_prefix (header n) prefix of
          Inl e \<Rightarrow> Inl e
        | Inr p \<Rightarrow>
            let pos1 = pos + prefixLength (header n) * 4; p' = push_bit 32 p; pos' = pos1 + 4 in
            (case (scan_bound n leftKey pos1 lb, scan_bound n rightKey pos1 rb) of
               (Inl e, _) \<Rightarrow> Inl e
             | (_, Inl e) \<Rightarrow> Inl e
             | (Inr (lk, li), Inr (rk, ri)) \<Rightarrow>
                 collect (\<lambda>x.
                     let cur = ucast (subKey x) :: u64; inside = (cur > lk \<and> cur < rk) in
                     if inside \<or> cur = lk \<or> cur = rk then
                       (if pos' = 8 then
                          (case slot_value x of Val w \<Rightarrow> Inr [(cur + p', ucast w)] | _ \<Rightarrow> Inl WildAccess)
                        else
                          (case (nodeFlag x, slot_value x) of
                             (True, NodeAt d) \<Rightarrow>
                               if inside then scanAllNodes fuel T d pos' (cur + p')
                               else nodeScan fuel junk T d leftKey rightKey pos' (cur + p')
                           | (False, KvAt i) \<Rightarrow> if i < length (pairs T) then Inr [pairs T ! i] else Inl WildAccess
                           | _ \<Rightarrow> Inl WildAccess))
                     else Inr [])
                   (range_slots n lk rk li ri)))))"

definition lookupRange :: "u32 \<Rightarrow> wrert \<Rightarrow> u64 \<Rightarrow> u64 \<Rightarrow> (u64 \<times> u64) list res" where
  "lookupRange junk T leftKey rightKey = nodeScan scan_fuel junk T (root T) leftKey rightKey 0 0"

subsection \<open>Memory profile\<close>

text \<open>Directory entries whose segment differs from the one before.\<close>

fun new_segments :: "nat option \<Rightarrow> segment_node list \<Rightarrow> segment_node list" where
  "new_segments prev [] = []"
| "new_segments prev (sn # sns) =
     (if Some (segmentPtr sn) = prev then new_segments prev sns
      else sn # new_segments (Some (segmentPtr sn)) sns)"

definition profile_slots :: "'v wrert_node \<Rightarrow> segment_node \<Rightarrow> 'v slot list" where
  "profile_slots n sn =
     (let s = window sn; sg = segs n ! segmentPtr sn in
      concat (map (\<lambda>j. takeWhile (\<lambda>x.
            if s \<le> j \<and> j < s + 16 then \<not> isInvalidSharedSlot x (localDepth sn)
            else \<not> isInvalidMainSlot x (localDepth sn)) (sg ! j)) [0..<48]))"

text \<open>\<open>position\<close> counts 32 bits per node, whatever prefix the node skips.\<close>

fun memory_profile :: "nat \<Rightarrow> wrert \<Rightarrow> nat \<Rightarrow> nat \<Rightarrow> u64 res" where
  "memory_profile 0 T c position = Inl OutOfFuel"
| "memory_profile (Suc fuel) T c position =
     (if c \<ge> length (nodes T) then Inl NullDeref
      else
        let n = nodes T ! c; pos' = position + 32; sns = new_segments None (take (capacity n) (directory n)) in
        map_sum id (\<lambda>ms. 24 + 8 * of_nat (capacity n) + of_nat (length sns) * (48 * 256) + sum_list ms)
          (collect (\<lambda>x.
              if pos' = 64 then Inr []
              else if \<not> nodeFlag x then Inr [16]
              else (case slot_value x of
                      NodeAt d \<Rightarrow> map_sum id (\<lambda>m. [m]) (memory_profile fuel T d pos')
                    | _ \<Rightarrow> Inl WildAccess))
            (concat (map (profile_slots n) sns))))"

end
