(* ===== verification/Wrert_Scan_Slots.thy ===== *)
theory Wrert_Scan_Slots
  imports Wrert_Scan
begin

text \<open>
  The slots a full scan visits are exactly the live slots of the node, each once: the three
  bucket ranges of a segment cover its 48 buckets, and the walk over the directory visits the
  first entry of every block of entries that share a segment.
\<close>

subsection \<open>One segment\<close>

definition pos_ver :: "segment_node \<Rightarrow> nat \<Rightarrow> nat" where
  "pos_ver e p = (if window e \<le> p \<and> p < window e + 16 then localDepth e else Suc (localDepth e))"

definition live_slots :: "segment_node \<Rightarrow> 'v segment \<Rightarrow> 'v slot list" where
  "live_slots e sg = concat (map (\<lambda>p. filter (live (pos_ver e p)) (sg ! p)) [0..<48])"

lemma takeWhile_cong_set: "(\<And>x. x \<in> set xs \<Longrightarrow> P x = Q x) \<Longrightarrow> takeWhile P xs = takeWhile Q xs"
  by (rule takeWhile_cong) auto

lemma split_ranges:
  "a \<le> b \<Longrightarrow> b \<le> c \<Longrightarrow> concat (map f [a..<c]) = concat (map f [a..<b]) @ concat (map f [b..<c])"
  for a b c :: nat
  by (metis concat_append map_append upt_add_eq_append le_add_diff_inverse)

lemma main_pos_outside: "s \<in> {0, 16, 32} \<Longrightarrow> i < 32 \<Longrightarrow> \<not> (s \<le> main_pos s i \<and> main_pos s i < s + 16)"
  by (auto simp: main_pos_if split: if_splits)

lemma bucket_pos_ok:
  assumes "seg_ok D (localDepth e) (window e) pre sg" "p < 48"
  shows "filter (live (pos_ver e p)) (sg ! p) = takeWhile (live (pos_ver e p)) (sg ! p)"
    "x \<in> set (sg ! p) \<Longrightarrow> live (pos_ver e p) x \<Longrightarrow>
      top_bits (subKey x) (localDepth e) = pre \<and>
      (\<exists>m. p = role_pos (localDepth e) (window e) m (subKey x) \<and> pos_ver e p = role_ver (localDepth e) m)"
proof -
  note o = seg_okD [OF assms(1)]
  have "filter (live (pos_ver e p)) (sg ! p) = takeWhile (live (pos_ver e p)) (sg ! p) \<and>
    (\<forall>x\<in>set (sg ! p). live (pos_ver e p) x \<longrightarrow> top_bits (subKey x) (localDepth e) = pre \<and>
      (\<exists>m. p = role_pos (localDepth e) (window e) m (subKey x) \<and> pos_ver e p = role_ver (localDepth e) m))"
  proof (rule position_cases [OF o(1) assms(2)])
    fix b assume b: "b < 16" "p = window e + b"
    then have v: "pos_ver e p = localDepth e" by (simp add: pos_ver_def)
    have "top_bits k (localDepth e) = pre \<and> p = role_pos (localDepth e) (window e) False k"
      if "top_bits k (localDepth e + 4) = pre * 16 + b" for k
      using that b o(2) top_bits_add [of "localDepth e" 4 k] by (simp add: role_pos_def)
    with o(6) [OF b(1)] b(2) v show ?thesis
      unfolding bucket_ok_def v by (auto simp: role_ver_def intro!: exI [of _ False])
  next
    fix i assume i: "i < 32" "p = main_pos (window e) i"
    have "\<not> (window e \<le> p \<and> p < window e + 16)"
      using main_pos_outside [OF o(1) i(1)] i(2) by simp
    then have v: "pos_ver e p = Suc (localDepth e)" by (simp add: pos_ver_def)
    have "top_bits k (localDepth e) = pre \<and> p = role_pos (localDepth e) (window e) True k"
      if "top_bits k (localDepth e + 5) = pre * 32 + i" for k
      using that i o(2) top_bits_add [of "localDepth e" 5 k] by (simp add: role_pos_def)
    with o(7) [OF i(1)] i(2) v show ?thesis
      unfolding bucket_ok_def v by (auto simp: role_ver_def intro!: exI [of _ True])
  qed
  then show "filter (live (pos_ver e p)) (sg ! p) = takeWhile (live (pos_ver e p)) (sg ! p)"
    "x \<in> set (sg ! p) \<Longrightarrow> live (pos_ver e p) x \<Longrightarrow>
      top_bits (subKey x) (localDepth e) = pre \<and>
      (\<exists>m. p = role_pos (localDepth e) (window e) m (subKey x) \<and> pos_ver e p = role_ver (localDepth e) m)"
    by blast+
qed

lemma segment_slots_live:
  assumes ok: "seg_ok D (localDepth e) (window e) pre sg"
    and rng: "\<And>k. top_bits k (localDepth e) = pre \<Longrightarrow> lo \<le> get_segment_number k gd \<and> get_segment_number k gd \<le> hi"
  shows "segment_slots sg gd lo hi (full_ranges e) = live_slots e sg"
proof -
  note o = seg_okD [OF ok]
  let ?f = "\<lambda>p. takeWhile (slot_in (shared_version (pos_ver e p)) gd lo hi) (sg ! p)"
  let ?b = "\<lambda>ver a b. concat (map (\<lambda>i. takeWhile (slot_in ver gd lo hi) (sg ! i)) [a..<b])"
  have slot: "slot_in (shared_version (pos_ver e p)) gd lo hi x = live (pos_ver e p) x" if "p < 48" "x \<in> set (sg ! p)" for p x
    using bucket_pos_ok(2) [OF ok that] rng by (auto simp: slot_in_def live_def)
  have "?f p = filter (live (pos_ver e p)) (sg ! p)" if "p < 48" for p
    using takeWhile_cong_set [of "sg ! p", OF slot [OF that]] bucket_pos_ok(1) [OF ok that] by simp
  then have live: "concat (map ?f [0..<48]) = live_slots e sg"
    unfolding live_slots_def by (intro arg_cong [of _ _ concat] map_cong) auto
  define F where "F a b = concat (map ?f [a..<b])" for a b
  define B where "B ver a b = ?b ver a b" for ver a b
  have iter: "bucketRangeIterate sg gd lo hi (a, b, ver) = B ver a (Suc b)" for a b ver
    by (simp add: bucketRangeIterate_def B_def del: upt_Suc)
  have F: "F a c = F a b @ F b c" if "a \<le> b" "b \<le> c" for a b c unfolding F_def by (rule split_ranges [OF that])
  have shared: "B (shared_version (localDepth e)) (window e) (window e + 16) = F (window e) (window e + 16)"
    unfolding B_def F_def by (intro arg_cong [of _ _ concat] map_cong) (auto simp: pos_ver_def)
  have main: "B (main_version (localDepth e)) a b = F a b"
    if "b \<le> window e \<or> window e + 16 \<le> a" for a b
    unfolding main_version_eq B_def F_def using that by (intro arg_cong [of _ _ concat] map_cong) (auto simp: pos_ver_def)
  note defs = segment_slots_def full_ranges_def iter Let_def
  from o(1) consider "window e = 0" | "window e = 16" | "window e = 32" by auto
  then have "segment_slots sg gd lo hi (full_ranges e) = F 0 48"
  proof cases
    case 1
    then show ?thesis using shared main [of 48 16] F [of 0 16 48] by (simp add: defs)
  next
    case 2
    then show ?thesis using shared main [of 16 0] main [of 48 32] F [of 0 16 48] F [of 16 32 48] by (simp add: defs)
  next
    case 3
    then show ?thesis using shared main [of 32 0] F [of 0 32 48] by (simp add: defs)
  qed
  then show ?thesis using live by (simp add: F_def)
qed

text \<open>What the live slots hold: the segment's map, every sub-key once.\<close>

lemma sum_two:
  fixes f :: "nat \<Rightarrow> nat"
  assumes "p < n" "q < n" "p \<noteq> q" "\<And>i. i < n \<Longrightarrow> i \<noteq> p \<Longrightarrow> i \<noteq> q \<Longrightarrow> f i = 0"
  shows "sum_list (map f [0..<n]) = f p + f q"
proof -
  have "sum_list (map f [0..<n]) = (\<Sum>i\<in>{0..<n}. f i)" by (simp add: sum_list_distinct_conv_sum_set)
  also have "\<dots> = (\<Sum>i\<in>{p, q}. f i)" using assms by (intro sum.mono_neutral_right) auto
  finally show ?thesis using assms(3) by simp
qed

lemma live_slots_of:
  assumes ok: "seg_ok D (localDepth e) (window e) pre sg"
  shows "x \<in> set (live_slots e sg) \<Longrightarrow> top_bits (subKey x) (localDepth e) = pre \<and>
      occ (localDepth e) (window e) sg (subKey x) = [x]"
    "distinct (map subKey (live_slots e sg))"
    "top_bits k (localDepth e) = pre \<Longrightarrow> occ (localDepth e) (window e) sg k = [x] \<Longrightarrow> x \<in> set (live_slots e sg)"
proof -
  note o = seg_okD [OF ok]
  let ?ld = "localDepth e" and ?s = "window e"
  have occ1: "x \<in> set (occ ?ld ?s sg (subKey x))" and top: "top_bits (subKey x) ?ld = pre"
    if x: "x \<in> set (live_slots e sg)" for x
  proof -
    from x obtain p where p: "p < 48" "x \<in> set (sg ! p)" "live (pos_ver e p) x" by (auto simp: live_slots_def)
    from bucket_pos_ok(2) [OF ok p] obtain m where
      m: "top_bits (subKey x) ?ld = pre" "p = role_pos ?ld ?s m (subKey x)" "pos_ver e p = role_ver ?ld m" by blast
    then have "x \<in> set (hits (role_ver ?ld m) (subKey x) (sg ! role_pos ?ld ?s m (subKey x)))"
      using p by (simp add: hits_def)
    then show "x \<in> set (occ ?ld ?s sg (subKey x))" unfolding occ_roles by (cases m) auto
    show "top_bits (subKey x) ?ld = pre" by (rule m(1))
  qed
  then show "top_bits (subKey x) ?ld = pre \<and> occ ?ld ?s sg (subKey x) = [x]" if "x \<in> set (live_slots e sg)" for x
    using top [OF that] single_occ [OF occ1 [OF that] o(8) [OF top [OF that]]] by blast
  have role: "pos_ver e (role_pos ?ld ?s m k) = role_ver ?ld m" for m k
  proof (cases m)
    case True
    have "\<not> (?s \<le> role_pos ?ld ?s True k \<and> role_pos ?ld ?s True k < ?s + 16)"
      using main_pos_outside [OF o(1), of "top_bits k (?ld + 5) mod 32"] by (simp add: role_pos_def)
    with True show ?thesis by (simp add: pos_ver_def role_ver_def)
  qed (simp add: pos_ver_def role_ver_def role_pos_def)
  show "x \<in> set (live_slots e sg)" if "occ ?ld ?s sg k = [x]" for x k
  proof -
    from that have "x \<in> set (occ ?ld ?s sg k)" by simp
    then obtain m where "x \<in> set (hits (role_ver ?ld m) k (sg ! role_pos ?ld ?s m k))" unfolding occ_roles by auto
    then show ?thesis using role [of m k] role_pos_less [OF o(1), of ?ld m k] by (auto simp: live_slots_def hits_def)
  qed
  have "length (filter (\<lambda>x. subKey x = k) (live_slots e sg)) \<le> 1" for k
  proof (cases "k \<in> subKey ` set (live_slots e sg)")
    case False
    then have "filter (\<lambda>x. subKey x = k) (live_slots e sg) = []" by (auto simp: filter_empty_conv)
    then show ?thesis by simp
  next
    case True
    with top have k: "top_bits k ?ld = pre" by blast
    let ?q = "\<lambda>m. role_pos ?ld ?s m k"
    have ne: "?q False \<noteq> ?q True"
      using main_pos_not_shared [OF o(1), of "top_bits k (?ld + 5) mod 32" "top_bits k (?ld + 4) mod 16"]
      by (simp add: role_pos_def)
    let ?h = "\<lambda>p. hits (pos_ver e p) k (sg ! p)"
    have none: "length (?h p) = 0" if p: "p < 48" "p \<noteq> ?q False" "p \<noteq> ?q True" for p
    proof -
      have "p = ?q m \<Longrightarrow> False" for m using p by (cases m) auto
      then show ?thesis using bucket_pos_ok(2) [OF ok p(1)] by (auto simp: hits_def filter_empty_conv)
    qed
    have "filter (\<lambda>x. subKey x = k) (live_slots e sg) = concat (map ?h [0..<48])"
      by (simp add: live_slots_def filter_concat hits_def o_def conj_commute)
    then have "length (filter (\<lambda>x. subKey x = k) (live_slots e sg)) = length (?h (?q False)) + length (?h (?q True))"
      using sum_two [OF role_pos_less [OF o(1)] role_pos_less [OF o(1)] ne, of "\<lambda>p. length (?h p)"] none
      by (simp add: length_concat o_def)
    also have "\<dots> = length (occ ?ld ?s sg k)" unfolding occ_roles role by simp
    finally show ?thesis using o(8) [OF k] by simp
  qed
  then show "distinct (map subKey (live_slots e sg))" by (rule distinct_map_filter)
qed

subsection \<open>The walk over the directory\<close>

text \<open>\<open>i\<close> is the first entry of its block.\<close>

definition block_width :: "'v wrert_node \<Rightarrow> nat \<Rightarrow> nat" where
  "block_width n i = 2 ^ (globalDepth n - localDepth (directory n ! i))"

definition block_start :: "'v wrert_node \<Rightarrow> nat \<Rightarrow> bool" where
  "block_start n i \<longleftrightarrow> i < 2 ^ globalDepth n \<and> i mod block_width n i = 0"

lemma next_block:
  assumes ok: "node_ok D n" and i: "block_start n i"
  shows "next_segment n i = i + block_width n i" "i + block_width n i \<le> 2 ^ globalDepth n"
    "i + block_width n i < 2 ^ globalDepth n \<Longrightarrow> block_start n (i + block_width n i)"
    "same_segment n i (2 ^ globalDepth n - 1) = i + block_width n i - 1"
proof -
  note o = node_okD [OF ok]
  let ?w = "block_width n i" and ?g = "2 ^ globalDepth n :: nat"
  have lt: "i < ?g" and m: "i mod ?w = 0" using i by (auto simp: block_start_def)
  have w: "0 < ?w" by (simp add: block_width_def)
  show nx: "next_segment n i = i + ?w" using m by (simp add: next_segment_def block_width_def Let_def)
  have "?w dvd ?g" using o(4) [OF lt] by (simp add: block_width_def le_imp_power_dvd)
  with lt m w show le: "i + ?w \<le> ?g"
    by (metis dvd_eq_mod_eq_0 dvd_imp_le less_diff_conv nat_add_left_cancel_le dvd_diff_nat le_add_diff_inverse less_imp_le zero_less_diff)
  show "block_start n (i + ?w)" if j: "i + ?w < ?g"
  proof (rule ccontr)
    let ?j = "i + ?w" and ?w' = "block_width n (i + ?w)"
    assume "\<not> block_start n ?j"
    with j have nz: "?j mod ?w' \<noteq> 0" by (simp add: block_start_def)
    have "(?j - 1) div ?w' = ?j div ?w'"
      using nz w by (metis One_nat_def Suc_pred add_gr_0 div_Suc mod_Suc neq0_conv)
    moreover have j1: "?j - 1 < ?g" using j by simp
    ultimately have e1: "directory n ! (?j - 1) = directory n ! ?j"
      using o(7) [OF j j1] unfolding block_width_def by blast
    obtain c where c: "i = c * ?w" using m by (metis mod_0_imp_dvd dvd_def mult.commute)
    have "(?j - 1) div ?w = c" using c w by (intro div_nat_eqI) (auto simp: algebra_simps)
    moreover have "i div ?w = c" using c w by (metis nonzero_mult_div_cancel_right less_not_refl)
    ultimately have e2: "directory n ! (?j - 1) = directory n ! i"
      using o(7) [OF lt j1] unfolding block_width_def by (simp only:)
    have "?w' = ?w" using e1 e2 by (simp add: block_width_def)
    with nz m show False by simp
  qed
  show "same_segment n i (?g - 1) = i + ?w - 1"
  proof (cases "i = ?g - 1 \<or> segmentPtr (directory n ! i) = segmentPtr (directory n ! (?g - 1))")
    case True
    have "(?g - 1) div ?w = i div ?w"
      using True o(8) [OF lt, of "?g - 1"] by (auto simp: block_width_def)
    then have "?g - 1 = i + (?g - 1) mod ?w" using m by (metis add.right_neutral mult_div_mod_eq)
    moreover have "(?g - 1) mod ?w < ?w" using w by simp
    ultimately have "?g - 1 = i + ?w - 1" using le lt by linarith
    with True show ?thesis by (simp add: same_segment_def Let_def)
  next
    case False
    then show ?thesis using m by (simp add: same_segment_def block_width_def Let_def)
  qed
qed

lemma entry_slots:
  assumes ok: "node_ok D n" and i: "block_start n i"
  defines "S \<equiv> live_slots (directory n ! i) (segs n ! segmentPtr (directory n ! i))"
  shows "segment_slots (segs n ! segmentPtr (directory n ! i)) (globalDepth n) i (same_segment n i (2 ^ globalDepth n - 1))
      (full_ranges (directory n ! i)) = S"
    "x \<in> set S \<Longrightarrow> i \<le> top_bits (subKey x) (globalDepth n) \<and> top_bits (subKey x) (globalDepth n) < i + block_width n i \<and>
      node_map n (subKey x) = Some (slot_value x, nodeFlag x)"
    "distinct (map subKey S)"
    "i \<le> top_bits k (globalDepth n) \<Longrightarrow> top_bits k (globalDepth n) < i + block_width n i \<Longrightarrow> node_map n k \<noteq> None \<Longrightarrow>
      k \<in> subKey ` set S"
proof -
  note o = node_okD [OF ok]
  let ?w = "block_width n i" and ?e = "directory n ! i" and ?gd = "globalDepth n"
  have lt: "i < 2 ^ ?gd" and m: "i mod ?w = 0" using i by (auto simp: block_start_def)
  have w: "0 < ?w" by (simp add: block_width_def)
  note sg = o(6) [OF lt, folded block_width_def]
  have blk: "top_bits k (localDepth ?e) = i div ?w \<longleftrightarrow> i \<le> top_bits k ?gd \<and> top_bits k ?gd < i + ?w" for k
  proof -
    have "top_bits k ?gd div ?w = top_bits k (localDepth ?e)"
      using top_bits_div [of "localDepth ?e" ?gd k] o(1) o(4) [OF lt] by (simp add: block_width_def)
    moreover have "top_bits k ?gd div ?w = i div ?w \<longleftrightarrow> i \<le> top_bits k ?gd \<and> top_bits k ?gd < i + ?w"
      using block_div [OF w, of "i div ?w" "top_bits k ?gd"] m by (metis add.right_neutral div_mult_mod_eq)
    ultimately show ?thesis by simp
  qed
  have "get_segment_number k ?gd = top_bits k ?gd" for k using o(1) by (simp add: get_segment_number_eq)
  then show "segment_slots (segs n ! segmentPtr ?e) ?gd i (same_segment n i (2 ^ ?gd - 1)) (full_ranges ?e) = S"
    unfolding S_def next_block(4) [OF ok i] using blk by (intro segment_slots_live [OF sg]) auto
  note live = live_slots_of [OF sg, folded S_def]
  show "distinct (map subKey S)" by (rule live(2))
  have ent: "segment_node_of n k = ?e" if "top_bits k (localDepth ?e) = i div ?w" for k
  proof -
    have "directory n ! top_bits k ?gd = ?e"
      using o(7) [OF lt, of "top_bits k ?gd", folded block_width_def] that node_entry(1) [OF ok, of k]
        top_bits_div [of "localDepth ?e" ?gd k] o(1) o(4) [OF lt] by (simp add: block_width_def)
    then show ?thesis using segment_node_of_eq [of n k] o(1) by simp
  qed
  show "i \<le> top_bits (subKey x) ?gd \<and> top_bits (subKey x) ?gd < i + ?w \<and>
      node_map n (subKey x) = Some (slot_value x, nodeFlag x)" if "x \<in> set S" for x
    using live(1) [OF that] blk [of "subKey x"] ent [of "subKey x"]
    by (simp add: node_map_def entry_map_def smap_def)
  show "k \<in> subKey ` set S" if "i \<le> top_bits k ?gd" "top_bits k ?gd < i + ?w" "node_map n k \<noteq> None" for k
  proof -
    have t: "top_bits k (localDepth ?e) = i div ?w" using that(1,2) blk by blast
    have "occ (localDepth ?e) (window ?e) (segs n ! segmentPtr ?e) k \<noteq> []"
      using that(3) ent [OF t] by (auto simp: node_map_def entry_map_def smap_def)
    then obtain x where x: "x \<in> set (occ (localDepth ?e) (window ?e) (segs n ! segmentPtr ?e) k)" by (meson last_in_set)
    then have "occ (localDepth ?e) (window ?e) (segs n ! segmentPtr ?e) k = [x]"
      by (rule single_occ [OF _ seg_okD(8) [OF sg t]])
    from live(3) [OF t this] x show ?thesis by (auto simp: occ_def hits_def)
  qed
qed

lemma walk_slots:
  assumes ok: "node_ok D n"
  defines "S \<equiv> \<lambda>is. concat (map (\<lambda>i. live_slots (directory n ! i) (segs n ! segmentPtr (directory n ! i))) is)"
  defines "g \<equiv> 2 ^ globalDepth n"
  shows "block_start n i \<or> i = g \<Longrightarrow>
    list_all (block_start n) (segment_walk n i (g - 1)) \<and>
    (\<forall>x\<in>set (S (segment_walk n i (g - 1))). i \<le> top_bits (subKey x) (globalDepth n) \<and>
       node_map n (subKey x) = Some (slot_value x, nodeFlag x)) \<and>
    distinct (map subKey (S (segment_walk n i (g - 1)))) \<and>
    (\<forall>k. i \<le> top_bits k (globalDepth n) \<longrightarrow> node_map n k \<noteq> None \<longrightarrow> k \<in> subKey ` set (S (segment_walk n i (g - 1))))"
proof (induction "g - i" arbitrary: i rule: less_induct)
  case less
  have gpos: "0 < g" by (simp add: g_def)
  show ?case
  proof (cases "i = g")
    case True
    then have "segment_walk n i (g - 1) = []" using gpos by (simp add: segment_walk.simps)
    moreover have "\<not> i \<le> top_bits k (globalDepth n)" for k
      using node_entry(1) [OF ok, of k] True by (simp add: g_def)
    ultimately show ?thesis by (simp add: S_def)
  next
    case False
    with less.prems have i: "block_start n i" by simp
    let ?j = "i + block_width n i"
    note nb = next_block [OF ok i, folded g_def]
    have lt: "i < g" using i by (simp add: block_start_def g_def)
    have wpos: "0 < block_width n i" by (simp add: block_width_def)
    have "?j = g \<or> block_start n ?j" using nb(2,3) by force
    with less.hyps [of ?j] lt wpos nb(2) have ih:
      "list_all (block_start n) (segment_walk n ?j (g - 1))"
      "\<And>x. x \<in> set (S (segment_walk n ?j (g - 1))) \<Longrightarrow> ?j \<le> top_bits (subKey x) (globalDepth n) \<and>
         node_map n (subKey x) = Some (slot_value x, nodeFlag x)"
      "distinct (map subKey (S (segment_walk n ?j (g - 1))))"
      "\<And>k. ?j \<le> top_bits k (globalDepth n) \<Longrightarrow> node_map n k \<noteq> None \<Longrightarrow> k \<in> subKey ` set (S (segment_walk n ?j (g - 1)))"
      by auto
    have walk: "segment_walk n i (g - 1) = i # segment_walk n ?j (g - 1)"
      using lt nb(1) by (subst segment_walk.simps) simp
    let ?L = "live_slots (directory n ! i) (segs n ! segmentPtr (directory n ! i))"
    have S: "S (segment_walk n i (g - 1)) = ?L @ S (segment_walk n ?j (g - 1))" unfolding walk S_def by simp
    note e = entry_slots(2-4) [OF ok i]
    have "distinct (map subKey (?L @ S (segment_walk n ?j (g - 1))))"
      using e(1,2) ih(2,3) by (fastforce simp: dest: leD)
    moreover have "\<forall>x\<in>set (?L @ S (segment_walk n ?j (g - 1))). i \<le> top_bits (subKey x) (globalDepth n) \<and>
        node_map n (subKey x) = Some (slot_value x, nodeFlag x)"
      using e(1) ih(2) by fastforce
    moreover have "k \<in> subKey ` set (?L @ S (segment_walk n ?j (g - 1)))"
      if "i \<le> top_bits k (globalDepth n)" "node_map n k \<noteq> None" for k
      using e(3) [OF that(1) _ that(2)] ih(4) [OF _ that(2)] by (cases "?j \<le> top_bits k (globalDepth n)") auto
    ultimately show ?thesis unfolding S using i ih(1) walk by simp
  qed
qed

text \<open>All slots a full scan of a node visits.\<close>

lemma node_slots_ok:
  assumes c: "closed_node n"
  shows "x \<in> set (node_slots n) \<Longrightarrow> node_map n (subKey x) = Some (slot_value x, nodeFlag x)"
    "distinct (map subKey (node_slots n))" "node_map n k \<noteq> None \<Longrightarrow> k \<in> subKey ` set (node_slots n)"
proof -
  note ok = c [unfolded closed_node_def]
  have "block_start n 0" by (simp add: block_start_def)
  with walk_slots [OF ok, of 0] have w:
    "list_all (block_start n) (segment_walk n 0 (2 ^ globalDepth n - 1))"
    "\<forall>x\<in>set (concat (map (\<lambda>i. live_slots (directory n ! i) (segs n ! segmentPtr (directory n ! i)))
        (segment_walk n 0 (2 ^ globalDepth n - 1)))). node_map n (subKey x) = Some (slot_value x, nodeFlag x)"
    "distinct (map subKey (concat (map (\<lambda>i. live_slots (directory n ! i) (segs n ! segmentPtr (directory n ! i)))
        (segment_walk n 0 (2 ^ globalDepth n - 1)))))"
    "\<forall>k. node_map n k \<noteq> None \<longrightarrow> k \<in> subKey ` set (concat (map (\<lambda>i. live_slots (directory n ! i) (segs n ! segmentPtr (directory n ! i)))
        (segment_walk n 0 (2 ^ globalDepth n - 1))))"
    by auto
  have "node_slots n = concat (map (\<lambda>i. live_slots (directory n ! i) (segs n ! segmentPtr (directory n ! i)))
      (segment_walk n 0 (2 ^ globalDepth n - 1)))"
    unfolding node_slots_def Let_def node_okD(2) [OF ok]
    using w(1) entry_slots(1) [OF ok] by (intro arg_cong [of _ _ concat] map_cong) (auto simp: list_all_iff)
  with w show "x \<in> set (node_slots n) \<Longrightarrow> node_map n (subKey x) = Some (slot_value x, nodeFlag x)"
    "distinct (map subKey (node_slots n))" "node_map n k \<noteq> None \<Longrightarrow> k \<in> subKey ` set (node_slots n)"
    by auto
qed

end
