(* ===== verification/Wrert_Scan_Props.thy ===== *)
theory Wrert_Scan_Props
  imports Wrert_Scan_Slots
begin

text \<open>
  What the scans of the WRERT tree report.  A full scan from a root without prefix reports
  every pair once; below a root with a prefix the keys are rebuilt wrongly, and a range scan
  that starts below that prefix and ends above it reports nothing.
\<close>

subsection \<open>Collecting results\<close>

text \<open>Groups of pairs whose keys carry the tag of their group.\<close>

lemma map_of_groups:
  assumes "distinct (map tag xs)" "\<And>x kv. x \<in> set xs \<Longrightarrow> kv \<in> set (g x) \<Longrightarrow> t (fst kv) = tag x"
  shows "x \<in> set xs \<Longrightarrow> tag x = t key \<Longrightarrow> map_of (concat (map g xs)) key = map_of (g x) key"
    "t key \<notin> tag ` set xs \<Longrightarrow> map_of (concat (map g xs)) key = None"
    "(\<And>x. x \<in> set xs \<Longrightarrow> distinct (map fst (g x))) \<Longrightarrow> distinct (map fst (concat (map g xs)))"
proof -
  have none: "map_of (g x) key = None" if "x \<in> set xs" "tag x \<noteq> t key" for x key
    using assms(2) [OF that(1)] that(2) by (force simp: map_of_eq_None_iff)
  show "t key \<notin> tag ` set xs \<Longrightarrow> map_of (concat (map g xs)) key = None"
    using none by (induction xs) (auto simp: map_add_def image_iff)
  show "x \<in> set xs \<Longrightarrow> tag x = t key \<Longrightarrow> map_of (concat (map g xs)) key = map_of (g x) key"
    using assms
  proof (induction xs)
    case (Cons y ys)
    show ?case
    proof (cases "x \<in> set ys")
      case True
      have "tag y \<notin> tag ` set ys" using Cons.prems(3) by simp
      with True Cons.prems(2) have "tag y \<noteq> t key" by (metis imageI)
      then have "map_of (g y) key = None" using Cons.prems(4) [of y] by (force simp: map_of_eq_None_iff)
      with Cons True show ?thesis by (simp add: map_add_def split: option.split)
    next
      case False
      with Cons.prems have x: "x = y" by simp
      have "key \<notin> fst ` set (concat (map g ys))" using Cons.prems x by fastforce
      then have "map_of (concat (map g ys)) key = None" by (simp add: map_of_eq_None_iff)
      with x show ?thesis by (simp add: map_add_def split: option.split)
    qed
  qed simp
  show "distinct (map fst (concat (map g xs)))" if "\<And>x. x \<in> set xs \<Longrightarrow> distinct (map fst (g x))"
    using assms that
  proof (induction xs)
    case (Cons y ys)
    have "t key = tag y" if "key \<in> fst ` set (g y)" for key using Cons.prems(2) [of y] that by auto
    moreover have "t key \<in> tag ` set ys" if "key \<in> fst ` set (concat (map g ys))" for key
      using Cons.prems(2) that by fastforce
    moreover have "tag y \<notin> tag ` set ys" using Cons.prems(1) by simp
    ultimately have "fst ` set (g y) \<inter> fst ` set (concat (map g ys)) = {}" by (metis disjoint_iff)
    with Cons show ?case by auto
  qed simp
qed

subsection \<open>Leaf nodes\<close>

definition slot_word :: "payload slot \<Rightarrow> 48 word" where
  "slot_word x = (case slot_value x of Val w \<Rightarrow> w | _ \<Rightarrow> 0)"

lemma leaf_entries:
  assumes l: "leaf_ok n"
  defines "L \<equiv> map (\<lambda>x. (subKey x, slot_word x)) (node_slots n)"
  shows "distinct (map fst L)" "map_of L = leaf_val n" "x \<in> set (node_slots n) \<Longrightarrow> slot_value x = Val (slot_word x)"
proof -
  have c: "closed_node n" using l by (simp add: leaf_ok_def)
  note s = node_slots_ok [OF c]
  show w: "slot_value x = Val (slot_word x)" if "x \<in> set (node_slots n)" for x
  proof -
    from l s(1) [OF that] obtain u where "slot_value x = Val u" unfolding leaf_ok_def by blast
    then show ?thesis by (simp add: slot_word_def)
  qed
  show d: "distinct (map fst L)" using s(2) by (simp add: L_def o_def)
  show "map_of L = leaf_val n"
  proof
    fix k
    show "map_of L k = leaf_val n k"
    proof (cases "k \<in> subKey ` set (node_slots n)")
      case True
      then obtain x where x: "x \<in> set (node_slots n)" "subKey x = k" by auto
      then have "(k, slot_word x) \<in> set L" by (auto simp: L_def)
      then have m: "map_of L k = Some (slot_word x)" using d by simp
      have "node_map n k = Some (Val (slot_word x), nodeFlag x)" using s(1) [OF x(1)] w [OF x(1)] x(2) by simp
      moreover from this have "\<not> nodeFlag x" using l unfolding leaf_ok_def by blast
      ultimately have "leaf_val n k = Some (slot_word x)" by (simp add: leaf_val_def)
      with m show ?thesis by simp
    next
      case False
      then have "map_of L k = None" by (force simp: L_def map_of_eq_None_iff)
      moreover have "node_map n k = None" using False s(3) by blast
      ultimately show ?thesis by (simp add: leaf_val_def)
    qed
  qed
qed

definition join :: "u64 \<Rightarrow> u32 \<Rightarrow> u64" where
  "join p k = ucast k + push_bit 32 p"

lemma scan_leaf:
  assumes "c < length (nodes T)" "leaf_ok (nodes T ! c)"
    and "extend_prefix (header (nodes T ! c)) prefix = Inr p" "pos + prefixLength (header (nodes T ! c)) * 4 = 4"
  shows "scanAllNodes (Suc fuel) T c pos prefix =
    Inr (map (\<lambda>(k, w). (join p k, ucast w)) (map (\<lambda>x. (subKey x, slot_word x)) (node_slots (nodes T ! c))))"
proof -
  have "collect (\<lambda>x. case slot_value x of Val w \<Rightarrow> Inr [(ucast (subKey x) + push_bit 32 p, ucast w)] | _ \<Rightarrow> Inl WildAccess)
      (node_slots (nodes T ! c)) = Inr (concat (map (\<lambda>x. [(join p (subKey x), ucast (slot_word x))]) (node_slots (nodes T ! c))))"
    by (rule collect_map) (simp add: leaf_entries(3) [OF assms(2)] join_def)
  with assms show ?thesis by (simp add: Let_def concat_map_singleton o_def)
qed

subsection \<open>A full scan from a root without prefix\<close>

lemma join_or: "join (ucast k) l = ucast l OR push_bit 32 (ucast (k :: u32))"
  unfolding join_def by (rule disjunctive_add) (auto simp: bit_ucast_iff bit_push_bit_iff dest: bit_imp_le_length)

lemma halves_join [simp]: "top32 (join (ucast k) l) = k" "low32 (join (ucast k) l) = l"
  by (rule bit_word_eqI, auto simp: join_or bit_halves bit_or_iff bit_ucast_iff bit_push_bit_iff dest: bit_imp_le_length)+

lemma join_halves: "join (ucast (top32 key)) (low32 key) = key"
  by (intro key_halves) simp_all

text \<open>What one slot of an inner root contributes.\<close>

definition entry_pairs :: "wrert \<Rightarrow> payload slot \<Rightarrow> (u64 \<times> u64) list" where
  "entry_pairs T x =
     (case slot_value x of
        KvAt i \<Rightarrow> [pairs T ! i]
      | NodeAt d \<Rightarrow> map (\<lambda>(k, w). (join (ucast (subKey x)) k, ucast w))
          (map (\<lambda>x. (subKey x, slot_word x)) (node_slots (nodes T ! d)))
      | Val w \<Rightarrow> [])"

lemma map_of_join:
  assumes "distinct (map fst L)" "top32 key = k"
  shows "map_of (map (\<lambda>(l, w). (join (ucast k) l, ucast w)) L) key = map_option ucast (map_of L (low32 key))"
  using assms(1)
proof (induction L)
  case (Cons lw L)
  obtain l w where lw: "lw = (l, w)" by (cases lw)
  have "key = join (ucast k) l \<longleftrightarrow> low32 key = l" using assms(2) join_halves [of key] halves_join(2) [of k l] by metis
  with Cons lw show ?case by auto
qed simp

lemma entry_pairs_ok:
  assumes e: "entry_ok T (subKey x) (slot_value x) (nodeFlag x)"
  shows "kv \<in> set (entry_pairs T x) \<Longrightarrow> top32 (fst kv) = subKey x" "distinct (map fst (entry_pairs T x))"
    "top32 key = subKey x \<Longrightarrow> map_of (entry_pairs T x) key = map_option ucast (entry_val T (slot_value x) (nodeFlag x) key)"
proof (atomize (full), cases "slot_value x")
  case (Val u)
  with e show "(kv \<in> set (entry_pairs T x) \<longrightarrow> top32 (fst kv) = subKey x) \<and> distinct (map fst (entry_pairs T x)) \<and>
      (top32 key = subKey x \<longrightarrow> map_of (entry_pairs T x) key = map_option ucast (entry_val T (slot_value x) (nodeFlag x) key))"
    by (simp add: entry_ok_def)
next
  case (KvAt i)
  obtain k v where kv: "pairs T ! i = (k, v)" by (cases "pairs T ! i")
  with e KvAt show "(kv \<in> set (entry_pairs T x) \<longrightarrow> top32 (fst kv) = subKey x) \<and> distinct (map fst (entry_pairs T x)) \<and>
      (top32 key = subKey x \<longrightarrow> map_of (entry_pairs T x) key = map_option ucast (entry_val T (slot_value x) (nodeFlag x) key))"
    by (auto simp: entry_ok_def entry_pairs_def entry_val_def small_def)
next
  case (NodeAt d)
  with e have l: "leaf_ok (nodes T ! d)" "nodeFlag x" by (auto simp: entry_ok_def child_ok_def)
  note le = leaf_entries(1,2) [OF l(1)]
  have "inj (\<lambda>l. join (ucast (subKey x)) l)" by (rule inj_on_inverseI [of _ low32]) simp
  then have "distinct (map fst (entry_pairs T x))"
    using le(1) NodeAt by (simp add: entry_pairs_def o_def case_prod_beta distinct_map inj_on_def)
  with NodeAt le map_of_join [OF le(1), of key "subKey x"] l(2)
  show "(kv \<in> set (entry_pairs T x) \<longrightarrow> top32 (fst kv) = subKey x) \<and> distinct (map fst (entry_pairs T x)) \<and>
      (top32 key = subKey x \<longrightarrow> map_of (entry_pairs T x) key = map_option ucast (entry_val T (slot_value x) (nodeFlag x) key))"
    by (auto simp: entry_pairs_def entry_val_def)
qed

lemma scan_inner:
  assumes i: "inner_root T"
  shows "\<exists>rs. scanAllNodes scan_fuel T (root T) 0 0 = Inr rs \<and> distinct (map fst rs) \<and>
    (\<forall>key. map_of rs key = map_option ucast (tree_map T key))"
proof -
  let ?n = "nodes T ! root T" and ?g = "entry_pairs T"
  note r = inner_rootD [OF i]
  note s = node_slots_ok [OF r(6)]
  have e: "entry_ok T (subKey x) (slot_value x) (nodeFlag x)" if "x \<in> set (node_slots ?n)" for x
    by (rule r(8) [OF s(1) [OF that]])
  have body: "(case (nodeFlag x, slot_value x) of
        (True, NodeAt d) \<Rightarrow> scanAllNodes (Suc (Suc 0)) T d 4 (ucast (subKey x) + 0)
      | (False, KvAt i) \<Rightarrow> if i < length (pairs T) then Inr [pairs T ! i] else Inl WildAccess
      | _ \<Rightarrow> Inl WildAccess) = Inr (?g x)" if x: "x \<in> set (node_slots ?n)" for x
  proof (cases "slot_value x")
    case (NodeAt d)
    with e [OF x] have d: "nodeFlag x" "d < length (nodes T)" "leaf_ok (nodes T ! d)" "prefixLength (header (nodes T ! d)) = 0"
      by (auto simp: entry_ok_def child_ok_def)
    have "extend_prefix (header (nodes T ! d)) (ucast (subKey x)) = Inr (ucast (subKey x))"
      by (simp add: extend_prefix_def d(4))
    from scan_leaf [OF d(2,3) this, of 4 "Suc 0"] d NodeAt show ?thesis by (simp add: entry_pairs_def)
  qed (use e [OF x] in \<open>auto simp: entry_ok_def entry_pairs_def\<close>)
  have run: "scanAllNodes scan_fuel T (root T) 0 0 = Inr (concat (map ?g (node_slots ?n)))"
  proof -
    have f: "scan_fuel = Suc (Suc (Suc 0))" by (simp add: scan_fuel_def)
    have p: "extend_prefix (header ?n) 0 = Inr 0" by (simp add: extend_prefix_def r(3))
    show ?thesis
      unfolding f using r(2,3) p
      by (subst scanAllNodes.simps(2)) (simp add: Let_def collect_map [OF body [simplified]] del: scanAllNodes.simps)
  qed
  let ?rs = "concat (map ?g (node_slots ?n))"
  note grp = map_of_groups [OF s(2), of ?g top32, OF entry_pairs_ok(1) [OF e]]
  have "distinct (map fst ?rs)" by (rule grp(3)) (auto intro: entry_pairs_ok(2) e)
  moreover have "map_of ?rs key = map_option ucast (tree_map T key)" for key
  proof (cases "top32 key \<in> subKey ` set (node_slots ?n)")
    case True
    then obtain x where x: "x \<in> set (node_slots ?n)" "subKey x = top32 key" by auto
    then have "map_of ?rs key = map_of (?g x) key" by (intro grp(1)) simp_all
    also have "\<dots> = map_option ucast (entry_val T (slot_value x) (nodeFlag x) key)"
      using entry_pairs_ok(3) [OF e [OF x(1)]] x(2) by simp
    also have "\<dots> = map_option ucast (tree_map T key)" using s(1) [OF x(1)] x(2) tree_map_inner [OF r(3), of key] by simp
    finally show ?thesis .
  next
    case False
    then have "node_map ?n (top32 key) = None" using s(3) by blast
    then show ?thesis using grp(2) [of key] False tree_map_inner [OF r(3), of key] by simp
  qed
  ultimately show ?thesis using run by blast
qed

lemma two_halves_inner:
  assumes ok: "wrert_ok T" and k: "tree_map T k1 \<noteq> None" "tree_map T k2 \<noteq> None" "top32 k1 \<noteq> top32 k2"
  shows "inner_root T"
proof -
  let ?h = "header (nodes T ! root T)"
  have len: "length (prefixArray ?h) = 6" using ok by (auto simp: wrert_ok_def Let_def)
  have "prefixLength ?h \<noteq> 6" using k(1) by (auto simp: tree_map_def)
  moreover have "prefixLength ?h \<noteq> 1"
  proof
    assume "prefixLength ?h = 1"
    with k(1,2) have "prefix_is (top32 k1) ?h" "prefix_is (top32 k2) ?h" by (auto simp: tree_map_def Let_def split: if_splits)
    with prefix_is_inj [OF len] k(3) show False by blast
  qed
  ultimately have "prefixLength ?h = 0" using ok by (auto simp: wrert_ok_def Let_def)
  with ok show ?thesis by (simp add: inner_root_def)
qed

lemma top32_drop: "drop_bit 32 k1 \<noteq> drop_bit 32 k2 \<Longrightarrow> top32 k1 \<noteq> top32 k2"
proof
  assume d: "drop_bit 32 k1 \<noteq> drop_bit 32 k2" and t: "top32 k1 = top32 k2"
  have "bit (drop_bit 32 k1) i = bit (drop_bit 32 k2) i" for i
  proof (cases "i < 32")
    case True
    with t bit_halves(1) [of i k1] bit_halves(1) [of i k2] show ?thesis by (simp only: bit_drop_bit_eq o_def)
  next
    case False
    then have "\<not> bit k (32 + i)" for k :: u64 using bit_imp_le_length [of k "32 + i"] by auto
    then show ?thesis by (simp only: bit_drop_bit_eq o_def)
  qed
  then have "drop_bit 32 k1 = drop_bit 32 k2" by (intro bit_word_eqI) blast
  with d show False by simp
qed

text \<open>
  C39.  When the keys put into a new tree differ in their upper halves, a full scan from the
  root reports every key with its last value, once, and no other key: the three bucket ranges
  per segment and the walk over the directory skip no live slot and repeat none.
\<close>

theorem wrert_scan_complete:
  assumes "k1 \<in> fst ` set kvs" "k2 \<in> fst ` set kvs" "drop_bit 32 k1 \<noteq> drop_bit 32 k2"
  shows "\<exists>T rs. run_puts wrert_put NewWRERT kvs = Inr T \<and> scanAllNodes scan_fuel T (root T) 0 0 = Inr rs \<and>
    distinct (map fst rs) \<and> map_of rs key = map_option ucast (map_of (rev kvs) key)"
proof -
  from wrert_tree.get_history [OF NewWRERT_ok, of kvs] obtain T where
    T: "run_puts wrert_put NewWRERT kvs = Inr T" "wrert_ok T" "tree_map T = map_of (rev kvs)" by blast
  have "map_of (rev kvs) k \<noteq> None" if "k \<in> fst ` set kvs" for k using that by (simp add: map_of_eq_None_iff)
  with assms T(3) have "inner_root T" by (intro two_halves_inner [OF T(2), of k1 k2] top32_drop) simp_all
  from scan_inner [OF this] T show ?thesis by auto
qed

theorem wrert_scan_complete_witness:
  "\<exists>T rs. run_puts wrert_put NewWRERT [(0x100000005, 7), (0x200000006, 8)] = Inr T \<and>
    scanAllNodes scan_fuel T (root T) 0 0 = Inr rs \<and> map_of rs 0x200000006 = Some 8"
proof -
  have "drop_bit 32 (0x100000005 :: u64) \<noteq> drop_bit 32 0x200000006" by simp
  from wrert_scan_complete [OF _ _ this, where kvs = "[(0x100000005, 7), (0x200000006, 8)]" and key = "0x200000006"]
  show ?thesis by simp blast
qed

subsection \<open>Scans below a prefix\<close>

text \<open>A tree built from keys with one upper half keeps its root with that prefix.\<close>

lemma prefixed_leaf:
  assumes "wrert_ok T" "prefixed t T"
  shows "prefixLength (header (nodes T ! root T)) = 1" "leaf_ok (nodes T ! root T)" "prefix_is t (header (nodes T ! root T))"
    "length (prefixArray (header (nodes T ! root T))) = 6" "root T < length (nodes T)"
  using assms by (auto simp: wrert_ok_def prefixed_def Let_def)

lemma prefixed_run:
  "wrert_ok T \<Longrightarrow> prefixed t T \<Longrightarrow> list_all (\<lambda>kv. top32 (fst kv) = t) kvs \<Longrightarrow>
   \<exists>T'. run_puts wrert_put T kvs = Inr T' \<and> wrert_ok T' \<and> prefixed t T'"
proof (induction kvs arbitrary: T)
  case (Cons kv kvs)
  obtain k v where kv: "kv = (k, v)" by (cases kv)
  note p = prefixed_leaf [OF Cons.prems(1,2)]
  have "prefix_is (top32 k) (header (nodes T ! root T))" using p(3) Cons.prems(3) kv by simp
  from leaf_root_insert [OF Cons.prems(1) p(1,2) this, of "ucast v"] obtain T1 where
    "wrert_put T k v = Inr T1" "wrert_ok T1" "prefixed t T1"
    using Cons.prems(3) kv by (auto simp: wrert_put_def wrert_insert_def)
  with Cons.IH [of T1] Cons.prems(3) kv show ?case by simp
qed simp

lemma prefixed_history:
  assumes "list_all (\<lambda>kv. top32 (fst kv) = t) ((k, v) # kvs)"
  shows "\<exists>T. run_puts wrert_put NewWRERT ((k, v) # kvs) = Inr T \<and> wrert_ok T \<and> prefixed t T"
proof -
  have r: "nodes NewWRERT ! root NewWRERT = new_node" by (simp add: NewWRERT_def)
  have "prefixLength (header new_node) = 6" by (simp add: new_node_def NewWRERTNode_def header_initialize_def)
  then obtain T1 where "wrert_put NewWRERT k v = Inr T1" "wrert_ok T1" "prefixed t T1"
    using empty_root_insert [OF NewWRERT_ok(1), of k "ucast v"] assms unfolding r
    by (auto simp: wrert_put_def wrert_insert_def new_node_facts)
  with prefixed_run [of T1 t kvs] assms show ?thesis by simp
qed

text \<open>The byte-wise comparison of a boundary with the prefix decides like the numbers do.\<close>

lemma key_byte_top: "i < 4 \<Longrightarrow> key_byte key i = prefix_bytes (top32 key) ! i"
proof (rule bit_word_eqI)
  fix b assume i: "i < 4" and "b < LENGTH(8)"
  then have b: "b < 8" by simp
  have e: "64 - i * 8 - 8 + b = 32 + (24 - i * 8 + b)" "24 - i * 8 + b < 32" using i b by auto
  then show "bit (key_byte key i) b = bit (prefix_bytes (top32 key) ! i) b"
    unfolding prefix_bytes_nth [OF i b] bit_halves(1) [OF e(2)] using b
    by (simp only: key_byte_def bit_ucast_iff bit_drop_bit_eq o_def e(1)) simp
qed

lemma base_256:
  fixes n :: nat
  shows "n = n div 16777216 * 16777216 + n div 65536 mod 256 * 65536 + n div 256 mod 256 * 256 + n mod 256"
proof -
  have "n = n div 256 * 256 + n mod 256" by (rule div_mult_mod_eq [symmetric])
  moreover have "n div 256 = n div 65536 * 256 + n div 256 mod 256"
    using div_mult_mod_eq [of "n div 256" 256] by (simp add: div_mult2_eq [symmetric])
  moreover have "n div 65536 = n div 16777216 * 256 + n div 65536 mod 256"
    using div_mult_mod_eq [of "n div 65536" 256] by (simp add: div_mult2_eq [symmetric])
  ultimately show ?thesis by linarith
qed

lemma prefix_bytes_value:
  "unat t = unat (prefix_bytes t ! 0) * 2 ^ 24 + unat (prefix_bytes t ! 1) * 2 ^ 16 +
     unat (prefix_bytes t ! 2) * 2 ^ 8 + unat (prefix_bytes t ! 3)"
proof -
  have b: "unat (prefix_bytes t ! j) = unat t div 2 ^ (24 - j * 8) mod 256" if "j < 4" for j
    using that by (simp add: prefix_bytes_def unat_drop_bit unsigned_ucast_eq take_bit_eq_mod)
  have "unat t < 2 ^ 32" by (rule unat_u32_less)
  then have n: "unat t div 2 ^ 24 mod 256 = unat t div 2 ^ 24" by (simp add: div_less_iff_less_mult)
  with base_256 [of "unat t"] b [of 0] b [of 1] b [of 2] b [of 3] show ?thesis by simp
qed

lemma first_byte_less:
  fixes x y :: u32
  assumes "\<And>j. j < i \<Longrightarrow> prefix_bytes x ! j = prefix_bytes y ! j" "i < 4" "prefix_bytes x ! i \<noteq> prefix_bytes y ! i"
  shows "prefix_bytes x ! i < prefix_bytes y ! i \<longleftrightarrow> x < y"
proof -
  have lt: "unat (b :: u8) < 256" for b using unsigned_less [of b] by simp
  have ne: "unat (prefix_bytes x ! i) \<noteq> unat (prefix_bytes y ! i)" using assms(3) unsigned_word_eqI by blast
  note vals = prefix_bytes_value [of x] prefix_bytes_value [of y]
    lt [of "prefix_bytes x ! 0"] lt [of "prefix_bytes x ! 1"] lt [of "prefix_bytes x ! 2"] lt [of "prefix_bytes x ! 3"]
    lt [of "prefix_bytes y ! 0"] lt [of "prefix_bytes y ! 1"] lt [of "prefix_bytes y ! 2"] lt [of "prefix_bytes y ! 3"]
  from assms(2) consider "i = 0" | "i = 1" | "i = 2" | "i = 3" by linarith
  then show ?thesis
    unfolding word_less_nat_alt
  proof cases
    case 1
    with vals ne show "unat (prefix_bytes x ! i) < unat (prefix_bytes y ! i) \<longleftrightarrow> unat x < unat y" by (auto; linarith)
  next
    case 2
    with vals ne assms(1) [of 0] show "unat (prefix_bytes x ! i) < unat (prefix_bytes y ! i) \<longleftrightarrow> unat x < unat y"
      by (auto; linarith)
  next
    case 3
    with vals ne assms(1) [of 0] assms(1) [of 1] show "unat (prefix_bytes x ! i) < unat (prefix_bytes y ! i) \<longleftrightarrow> unat x < unat y"
      by (auto; linarith)
  next
    case 4
    with vals ne assms(1) [of 0] assms(1) [of 1] assms(1) [of 2]
    show "unat (prefix_bytes x ! i) < unat (prefix_bytes y ! i) \<longleftrightarrow> unat x < unat y" by (auto; linarith)
  qed
qed

lemma mismatch_prefixed:
  assumes h: "prefixLength h = 1" "length (prefixArray h) = 6" "prefix_is t h" and ne: "top32 key \<noteq> t"
  shows "\<exists>i. first_mismatch_byte h key 0 = Inr (Some i) \<and> key_byte key i \<noteq> prefixArray h ! i \<and>
    (key_byte key i < prefixArray h ! i \<longleftrightarrow> top32 key < t)"
proof -
  have a: "prefixArray h ! i = prefix_bytes t ! i" if "i < 4" for i
    using h(3) that by (metis nth_take prefix_is_def)
  let ?P = "\<lambda>i. key_byte key (0 + i) \<noteq> prefixArray h ! i"
  have "find_index ?P [0..<4] \<noteq> None"
  proof
    assume "find_index ?P [0..<4] = None"
    then have "prefix_bytes (top32 key) ! i = prefix_bytes t ! i" if "i < 4" for i
      using that a [OF that] key_byte_top [OF that, of key] by simp
    from this [of 0] this [of 1] this [of 2] this [of 3] have "unat (top32 key) = unat t"
      using prefix_bytes_value [of "top32 key"] prefix_bytes_value [of t] by simp
    with ne unsigned_word_eqI show False by blast
  qed
  then obtain i where i: "find_index ?P [0..<4] = Some i" by (cases "find_index ?P [0..<4]") blast+
  from find_index_SomeD [OF i] have p: "i < 4" "?P i" "\<And>j. j < i \<Longrightarrow> \<not> ?P j" by auto
  have eq: "prefix_bytes (top32 key) ! j = prefix_bytes t ! j" if "j < i" for j
    using p(3) [OF that] key_byte_top [of j key] a [of j] that p(1) by simp
  have "prefix_bytes (top32 key) ! i \<noteq> prefix_bytes t ! i" using p(2) key_byte_top [OF p(1), of key] a [OF p(1)] by simp
  from first_byte_less [OF eq p(1) this] p(1,2) a [OF p(1)] key_byte_top [OF p(1), of key] i h(1,2)
  show ?thesis by (intro exI [of _ i]) (simp add: first_mismatch_byte_def Let_def)
qed

lemma unat_top32: "unat (top32 k) = unat (drop_bit 32 k)"
proof -
  have "unat k < 2 ^ 64" using unsigned_less [of k] by simp
  then have "unat k div 2 ^ 32 < 2 ^ 32" by (simp add: div_less_iff_less_mult)
  then show ?thesis
    by (simp add: top32_def unsigned_ucast_eq take_bit_eq_mod unat_drop_bit unat_and_mask)
qed

lemma top32_less: "drop_bit 32 a < drop_bit 32 b \<longleftrightarrow> top32 a < top32 b" "drop_bit 32 a = drop_bit 32 b \<longleftrightarrow> top32 a = top32 b"
proof -
  show "drop_bit 32 a < drop_bit 32 b \<longleftrightarrow> top32 a < top32 b" by (simp only: word_less_nat_alt unat_top32)
  show "drop_bit 32 a = drop_bit 32 b \<longleftrightarrow> top32 a = top32 b" using unsigned_word_eqI unat_top32 by metis
qed

lemma extend_one: "prefixLength h = 1 \<Longrightarrow> length (prefixArray h) = 6 \<Longrightarrow>
  extend_prefix h p = Inr (fold (\<lambda>i p. p + push_bit (4 - i) (ucast (prefixArray h ! i))) [0..<4] (push_bit 32 p))"
  by (simp add: extend_prefix_def Let_def)

lemma scan_outside_prefix:
  assumes ok: "wrert_ok T" "prefixed t T" and b: "top32 l < t" "t < top32 r"
  shows "lookupRange junk T l r = Inr []"
proof -
  let ?n = "nodes T ! root T"
  note p = prefixed_leaf [OF ok]
  have lr: "l < r"
  proof (rule ccontr)
    assume "\<not> l < r"
    then have "unat r div 2 ^ 32 \<le> unat l div 2 ^ 32" by (intro div_le_mono) (simp add: not_less word_le_nat_alt)
    then have "top32 r \<le> top32 l" by (simp only: word_le_nat_alt unat_top32 unat_drop_bit)
    with b show False by (meson less_trans not_le)
  qed
  from mismatch_prefixed [OF p(1,4,3), of l] b(1) obtain i where
    "first_mismatch_byte (header ?n) l 0 = Inr (Some i)" "key_byte l i < prefixArray (header ?n) ! i" by auto
  then have lb: "left_bound ?n l 0 = Inr (Some (Some 0))" by (simp add: left_bound_def not_less_iff_gr_or_eq)
  from mismatch_prefixed [OF p(1,4,3), of r] b(2) obtain j where
    "first_mismatch_byte (header ?n) r 0 = Inr (Some j)" "prefixArray (header ?n) ! j < key_byte r j"
    by (auto simp: less_imp_not_less neq_iff)
  then have rb: "right_bound ?n r 0 = Inr (Some (Some (capacity ?n - 1)))" by (simp add: right_bound_def)
  have cur: "\<not> (ucast k > (- 1 :: u64))" "ucast k \<noteq> (- 1 :: u64)" for k :: u32
  proof -
    show "\<not> (ucast k > (- 1 :: u64))" by (metis not_less word_n1_ge)
    show "ucast k \<noteq> (- 1 :: u64)"
    proof
      assume "ucast k = (- 1 :: u64)"
      then have "bit (ucast k :: u64) 63" by simp
      then show False using bit_imp_le_length [of k 63] by (simp add: bit_ucast_iff)
    qed
  qed
  have coll: "collect f xs = Inr []" if "\<And>x. x \<in> set xs \<Longrightarrow> f x = Inr []" for f :: "payload slot \<Rightarrow> (u64 \<times> u64) list res" and xs
    using collect_map [of xs f "\<lambda>x. []"] that by simp
  have f: "scan_fuel = Suc (Suc (Suc 0))" by (simp add: scan_fuel_def)
  show ?thesis
    unfolding lookupRange_def f
    using lr lb rb extend_one [OF p(1,4), of 0] p(5)
    by (subst nodeScan.simps(2)) (simp add: Let_def scan_bound_def less_imp_neq less_imp_not_less not_le cur coll
        del: nodeScan.simps scanAllNodes.simps)
qed

text \<open>
  When all keys share their upper half, a range that starts below that half and ends above
  it contains every key of the tree, and yet the range scan reports nothing: a left boundary
  below the prefix sets the left directory entry but leaves the left sub-key at its initial
  value \<open>UINT64_MAX\<close>, and no sub-key lies above it.
\<close>

theorem wrert_scan_misses:
  assumes "list_all (\<lambda>kv. drop_bit 32 (fst kv) = p) ((k, v) # kvs)" "drop_bit 32 l < p" "p < drop_bit 32 r"
  shows "\<exists>T. run_puts wrert_put NewWRERT ((k, v) # kvs) = Inr T \<and> lookupRange junk T l r = Inr []"
proof -
  have p: "p = drop_bit 32 k" using assms(1) by simp
  then have "list_all (\<lambda>kv. top32 (fst kv) = top32 k) ((k, v) # kvs)"
    using assms(1) by (simp only: p top32_less(2))
  from prefixed_history [OF this] obtain T where
    T: "run_puts wrert_put NewWRERT ((k, v) # kvs) = Inr T" "wrert_ok T" "prefixed (top32 k) T" by blast
  from assms(2,3) have "top32 l < top32 k" "top32 k < top32 r" by (simp_all only: p top32_less)
  from scan_outside_prefix [OF T(2,3) this] T(1) show ?thesis by blast
qed

theorem wrert_scan_misses_witness:
  "\<exists>T. run_puts wrert_put NewWRERT [(0x200000005, 7)] = Inr T \<and> lookupRange 0 T 0x100000000 0x300000000 = Inr []"
proof -
  have "list_all (\<lambda>kv. drop_bit 32 (fst kv) = 2) [(0x200000005 :: u64, 7 :: 48 word)]" "drop_bit 32 (0x100000000 :: u64) < 2"
    "2 < drop_bit 32 (0x300000000 :: u64)" by simp_all
  from wrert_scan_misses [OF this] show ?thesis .
qed

text \<open>
  A full scan of a tree whose root has a prefix rebuilds the keys wrongly, already for a
  tree of one pair: the key \<open>2 ^ 32 + a\<close> is reported as \<open>2 ^ 33 + a\<close>.
\<close>

theorem wrert_scan_wrong_key:
  "\<exists>T. wrert_put NewWRERT (2 ^ 32 + ucast (a :: u32)) w = Inr T \<and>
    scanAllNodes scan_fuel T (root T) 0 0 = Inr [(2 ^ 33 + ucast a, ucast w)]"
proof -
  let ?k = "2 ^ 32 + ucast a :: u64"
  have k: "?k = join (ucast (1 :: u32)) a" by (simp add: join_def)
  then have t: "top32 ?k = 1" "low32 ?k = a" by (simp_all only: halves_join)
  from prefixed_history [of 1 ?k w "[]"] wrert_tree.get_history [OF NewWRERT_ok, of "[(?k, w)]"] t obtain T where
    T: "wrert_put NewWRERT ?k w = Inr T" "wrert_ok T" "prefixed 1 T" "tree_map T = [?k \<mapsto> w]"
    by (auto split: sum.splits)
  let ?n = "nodes T ! root T"
  note p = prefixed_leaf [OF T(2,3)]
  have m: "leaf_val ?n l = (if l = a then Some w else None)" for l
  proof -
    have h: "top32 (join (ucast (1 :: u32)) l) = 1" "low32 (join (ucast (1 :: u32)) l) = l" by (rule halves_join)+
    have "tree_map T (join (ucast (1 :: u32)) l) = leaf_val ?n l" using p(1,3) h by (simp add: tree_map_def Let_def)
    moreover have "join (ucast (1 :: u32)) l = ?k \<longleftrightarrow> l = a" unfolding k by (metis halves_join(2))
    ultimately show ?thesis using T(4) by (auto simp: fun_upd_def split: if_splits)
  qed
  let ?L = "map (\<lambda>x. (subKey x, slot_word x)) (node_slots ?n)"
  note le = leaf_entries(1,2) [OF p(2)]
  have e: "(l, u) \<in> set ?L \<longleftrightarrow> l = a \<and> u = w" for l u
    by (simp only: map_of_eq_Some_iff [OF le(1), symmetric] le(2) m) auto
  have "set ?L = {(a, w)}"
  proof (rule set_eqI)
    fix x show "x \<in> set ?L \<longleftrightarrow> x \<in> {(a, w)}" using e [of "fst x" "snd x"] by (simp only: prod.collapse) (auto simp: prod_eq_iff)
  qed
  moreover have "distinct ?L" using le(1) unfolding distinct_map by (rule conjunct1)
  then have "length ?L = card (set ?L)" by (simp only: distinct_card)
  ultimately have "length ?L = 1" "set ?L = {(a, w)}" by (simp_all only: card.empty card_insert_if) simp_all
  then have L: "?L = [(a, w)]" by (cases ?L) (simp_all only: length_Cons list.set, auto)
  have b: "take 4 (prefixArray (header ?n)) = [0, 0, 0, 1]" using p(3) by (simp add: prefix_is_def prefix_bytes_def upt_rec)
  have pa: "prefixArray (header ?n) ! i = [0, 0, 0, 1] ! i" if "i < 4" for i using that b nth_take by metis
  have "extend_prefix (header ?n) 0 = Inr 2"
    unfolding extend_one [OF p(1,4)] using pa [of 0] pa [of 1] pa [of 2] pa [of 3] by (simp add: numeral_eq_Suc)
  from scan_leaf [OF p(5,2) this, of 0 "Suc (Suc 0)"] p(1) T(1) show ?thesis
    unfolding scan_fuel_def by (simp add: L join_def numeral_eq_Suc)
qed

end
