(* ===== verification/Wrert_Recovery.thy ===== *)
theory Wrert_Recovery
  imports Wrert
begin

text \<open>
  Recovery after a restart, \<^verbatim>\<open>recoveryTree\<close> and \<^verbatim>\<open>recoveryAllNodes\<close> of \<^verbatim>\<open>wrert/wrert.cpp\<close>.

  The pool is mapped at another address than before, so every pointer has to be moved; the
  directories, which a crash can leave half updated, and stale node headers are repaired on
  the way.  Here memory is explicit: a \<open>pm\<close> maps the addresses at which the pool is mapped now
  to the nodes, segments and pairs there, and pointers are numbers, those of directory entries
  and slots cut to 48 bits.
\<close>

subsection \<open>Memory\<close>

record pm_node =
  pm_header :: wrert_header
  pm_capacity :: nat
  pm_depth :: nat
  pm_entries :: "segment_node list"

record pm =
  base_ptr :: u64
  root_ptr :: u64
  pm_nodes :: "u64 \<Rightarrow> pm_node option"
  pm_segs :: "u64 \<Rightarrow> 48 word segment option"
  pm_pairs :: "u64 \<Rightarrow> (u64 \<times> u64) option"

text \<open>The address the pool is mapped at now, and the one it was mapped at before.\<close>

type_synonym bases = "u64 \<times> u64"

definition reloc :: "bases \<Rightarrow> u64 \<Rightarrow> u64" where
  "reloc B p = fst B + (p - snd B)"

definition field48 :: "u64 \<Rightarrow> u64" where
  "field48 p = p AND mask 48"

definition move_entry :: "bases \<Rightarrow> segment_node \<Rightarrow> segment_node" where
  "move_entry B e = e\<lparr>segmentPtr := unat (field48 (reloc B (of_nat (segmentPtr e))))\<rparr>"

definition seg_addr :: "segment_node \<Rightarrow> u64" where
  "seg_addr e = of_nat (segmentPtr e)"

subsection \<open>The directory\<close>

text \<open>
  The entries of the group that starts at \<open>i\<close> and ends before \<open>hi\<close>: each pointer is moved, and
  an entry deeper than the first one becomes a copy of it.
\<close>

definition mend_entry :: "bases \<Rightarrow> segment_node \<Rightarrow> segment_node \<Rightarrow> segment_node" where
  "mend_entry B lead e = (if localDepth lead < localDepth e then lead else move_entry B e)"

definition mend_group :: "bases \<Rightarrow> nat \<Rightarrow> nat \<Rightarrow> segment_node list \<Rightarrow> segment_node list" where
  "mend_group B i hi es =
     (let lead = move_entry B (es ! i) in
      map (\<lambda>j. if j = i then lead else if i < j \<and> j < hi then mend_entry B lead (es ! j) else es ! j)
        [0..<length es])"

definition group_end :: "nat \<Rightarrow> nat \<Rightarrow> nat \<Rightarrow> nat" where
  "group_end gd ld i = (let stride = 2 ^ (gd - ld) in i - i mod stride + stride)"

lemma group_end_greater: "i < group_end gd ld i"
proof -
  have "i mod 2 ^ (gd - ld) < 2 ^ (gd - ld)" by simp
  then show ?thesis unfolding group_end_def Let_def by (metis add.commute add_less_cancel_left le_add_diff_inverse2 mod_less_eq_dividend)
qed

subsection \<open>Segments\<close>

definition stop_slot :: "nat \<Rightarrow> nat \<Rightarrow> nat \<Rightarrow> 'v slot \<Rightarrow> bool" where
  "stop_slot w version j x =
     (if w \<le> j \<and> j < w + 16 then isInvalidSharedSlot x version else isInvalidMainSlot x version)"

text \<open>
  One slot: nothing at the last level, where slots hold values; else its pointer is moved, the
  keys of the first two pairs are noted and a child node is recovered.
\<close>

definition recover_slot ::
  "(pm \<Rightarrow> u64 \<Rightarrow> pm res) \<Rightarrow> bases \<Rightarrow> nat \<Rightarrow> u64 \<Rightarrow> 48 word segment \<Rightarrow> nat \<Rightarrow> nat \<Rightarrow> pm \<times> u64 list \<Rightarrow> (pm \<times> u64 list) res"
where
  "recover_slot child B pos sp sg j k st =
     (let (m, leaf) = st; x = sg ! j ! k;
          v = field48 (reloc B (ucast (slot_value x)));
          m' = m\<lparr>pm_segs := (pm_segs m)(sp \<mapsto> set_slot sg j k (x\<lparr>slot_value := ucast v\<rparr>))\<rparr>
      in if pos = 64 then Inr (m, leaf)
         else if nodeFlag x then map_sum id (\<lambda>m''. (m'', leaf)) (child m' v)
         else if length leaf = 2 then Inr (m', leaf)
         else (case pm_pairs m' v of
                 None \<Rightarrow> Inl WildAccess
               | Some (key, _) \<Rightarrow> Inr (m', leaf @ [key])))"

fun recover_slots ::
  "(pm \<Rightarrow> u64 \<Rightarrow> pm res) \<Rightarrow> bases \<Rightarrow> nat \<Rightarrow> segment_node \<Rightarrow> nat \<Rightarrow> nat list \<Rightarrow> pm \<times> u64 list \<Rightarrow> (pm \<times> u64 list) res"
where
  "recover_slots child B pos e j [] st = Inr st"
| "recover_slots child B pos e j (k # ks) st =
     (case pm_segs (fst st) (seg_addr e) of
        None \<Rightarrow> Inl WildAccess
      | Some sg \<Rightarrow>
          if stop_slot (window e) (localDepth e) j (sg ! j ! k) then Inr st
          else (case recover_slot child B pos (seg_addr e) sg j k st of
                  Inl u \<Rightarrow> Inl u
                | Inr st' \<Rightarrow> recover_slots child B pos e j ks st'))"

fun recover_buckets ::
  "(pm \<Rightarrow> u64 \<Rightarrow> pm res) \<Rightarrow> bases \<Rightarrow> nat \<Rightarrow> segment_node \<Rightarrow> nat list \<Rightarrow> pm \<times> u64 list \<Rightarrow> (pm \<times> u64 list) res"
where
  "recover_buckets child B pos e [] st = Inr st"
| "recover_buckets child B pos e (j # js) st =
     (case recover_slots child B pos e j [0..<16] st of
        Inl u \<Rightarrow> Inl u
      | Inr st' \<Rightarrow> recover_buckets child B pos e js st')"

subsection \<open>Nodes\<close>

text \<open>
  The loop over the directory of the node at \<open>np\<close>.  After a group it goes on behind it;
  \<open>skip\<close> is 1 where the loop header increments \<^verbatim>\<open>i\<close> once more.
\<close>

function recover_dir ::
  "(pm \<Rightarrow> u64 \<Rightarrow> pm res) \<Rightarrow> bases \<Rightarrow> nat \<Rightarrow> nat \<Rightarrow> u64 \<Rightarrow> nat \<Rightarrow> nat \<Rightarrow> nat \<Rightarrow> pm \<times> u64 list \<Rightarrow> (pm \<times> u64 list) res"
where
  "recover_dir child B skip pos np gd cap i st =
     (if cap \<le> i then Inr st
      else case pm_nodes (fst st) np of
        None \<Rightarrow> Inl WildAccess
      | Some n \<Rightarrow>
          let es = pm_entries n; ld = localDepth (es ! i); hi = group_end gd ld i in
          if length es \<le> i then Inl OutOfBounds
          else if gd < ld \<or> 64 \<le> gd - ld then Inl BadShift
          else if length es < hi then Inl OutOfBounds
          else
            let m' = (fst st)\<lparr>pm_nodes := (pm_nodes (fst st))(np \<mapsto> n\<lparr>pm_entries := mend_group B i hi es\<rparr>)\<rparr>;
                e = move_entry B (es ! i)
            in case (if seg_addr e = 0 then Inr (m', snd st)
                     else recover_buckets child B pos e [0..<48] (m', snd st)) of
                 Inl u \<Rightarrow> Inl u
               | Inr st' \<Rightarrow> recover_dir child B skip pos np gd cap (hi + skip) st')"
  by pat_completeness auto

termination
  by (relation "measure (\<lambda>(child, B, skip, pos, np, gd, cap, i, st). cap - i)")
    (use group_end_greater in \<open>auto simp: not_le intro!: diff_less_mono2 trans_less_add1\<close>)

text \<open>
  A header whose depth is not the one on the path is rebuilt from two keys of the node.
  \<open>__builtin_clzll(0)\<close> is undefined like a shift by the width.
\<close>

definition clz64 :: "u64 \<Rightarrow> nat" where
  "clz64 x = length (takeWhile (\<lambda>i. \<not> bit x (63 - i)) [0..<64])"

definition computeCommonPrefix :: "u64 \<Rightarrow> u64 \<Rightarrow> nat \<Rightarrow> nat res" where
  "computeCommonPrefix key1 key2 start =
     (if start > 8 then Inl BadShift
      else
        let x = (key1 AND mask ((8 - start) * 8)) XOR (key2 AND mask ((8 - start) * 8)) in
        if x = 0 then Inl BadShift else Inr (clz64 x div 8 - start))"

definition mend_header :: "nat \<Rightarrow> u64 list \<Rightarrow> wrert_header \<Rightarrow> wrert_header res" where
  "mend_header nhd leaf h =
     (if nodeHeaderDepth h = nhd \<or> length leaf \<noteq> 2 then Inr h
      else case computeCommonPrefix (leaf ! 0) (leaf ! 1) (nhd * 4) of
        Inl u \<Rightarrow> Inl u
      | Inr c \<Rightarrow>
          let pl = c div 4; h' = h\<lparr>nodeHeaderDepth := nhd mod 256, prefixLength := pl\<rparr> in
          if pl = 0 then Inr h'
          else map_sum id (\<lambda>a. h'\<lparr>prefixArray := a\<rparr>) (assignPrefix pl (leaf ! 1) (nhd * 4 * 8)))"

definition recover_node ::
  "(nat \<Rightarrow> nat \<Rightarrow> pm \<Rightarrow> u64 \<Rightarrow> pm res) \<Rightarrow> bases \<Rightarrow> nat \<Rightarrow> nat \<Rightarrow> nat \<Rightarrow> pm \<Rightarrow> u64 \<Rightarrow> pm res"
where
  "recover_node child B skip pos nhd m np =
     (case pm_nodes m np of
        None \<Rightarrow> Inl WildAccess
      | Some n \<Rightarrow>
          let pl = prefixLength (pm_header n); pos' = pos + pl * 32 + 32 in
          case recover_dir (child pos' (nhd + pl + 1)) B skip pos' np (pm_depth n) (pm_capacity n) 0 (m, []) of
            Inl u \<Rightarrow> Inl u
          | Inr (m', leaf) \<Rightarrow>
              (case pm_nodes m' np of
                 None \<Rightarrow> Inl WildAccess
               | Some n' \<Rightarrow>
                   map_sum id (\<lambda>h. m'\<lparr>pm_nodes := (pm_nodes m')(np \<mapsto> n'\<lparr>pm_header := h\<rparr>)\<rparr>)
                     (mend_header nhd leaf (pm_header n'))))"

text \<open>The loop of \<open>recoveryAllNodes\<close> has both \<^verbatim>\<open>i = buddyIndex\<close> and \<^verbatim>\<open>i++\<close>.\<close>

fun recoveryAllNodes :: "nat \<Rightarrow> bases \<Rightarrow> nat \<Rightarrow> nat \<Rightarrow> pm \<Rightarrow> u64 \<Rightarrow> pm res" where
  "recoveryAllNodes 0 B pos nhd m np = Inl OutOfFuel"
| "recoveryAllNodes (Suc f) B pos nhd m np = recover_node (recoveryAllNodes f B) B 1 pos nhd m np"

definition recoveryTree :: "nat \<Rightarrow> u64 \<Rightarrow> pm \<Rightarrow> pm res" where
  "recoveryTree fuel new m =
     (let B = (new, base_ptr m);
          m' = m\<lparr>base_ptr := new, root_ptr := reloc B (root_ptr m)\<rparr>
      in recover_node (recoveryAllNodes fuel B) B 0 0 0 m' (root_ptr m'))"

subsection \<open>A crash while a split updates the directory\<close>

text \<open>
  The node that \<open>split_shallow\<close> leaves when the machine stops in the first round of the loop
  over the directory, after the stores to the new half's entry and before those to the old one.
\<close>

definition split_interrupted :: "'v \<Rightarrow> 'v wrert_node \<Rightarrow> nat \<Rightarrow> nat \<Rightarrow> 'v wrert_node res" where
  "split_interrupted z n idx s =
     (let sn = directory n ! idx;
          num = 2 ^ (globalDepth n - localDepth sn);
          tmp = num div 2;
          start = idx - idx mod num;
          mid = start + tmp;
          e = directory n ! mid
      in case split_segment z (\<lambda>k. get_segment_number k (globalDepth n) \<ge> mid)
                (\<lambda>k. get_segment_number k (globalDepth n) < mid) (localDepth sn) s s
                (segs n ! segmentPtr sn) of
           Inl u \<Rightarrow> Inl u
         | Inr (new, old) \<Rightarrow>
             Inr (n\<lparr>directory := (directory n)[mid := e\<lparr>localDepth := localDepth e + 1, segmentPtr := length (segs n)\<rparr>],
                    segs := (segs n)[segmentPtr sn := old] @ [new]\<rparr>))"

end
