(* ===== verification/Wrert_Recovery_Props.thy ===== *)
theory Wrert_Recovery_Props
  imports Wrert_Recovery
begin

text \<open>
  What recovery does: on a root of the last level it only repairs and moves the directory, so
  when that is intact it answers every lookup as before; a half finished split is undone although
  the new segment already holds its keys; the directory of a node below the root is left with
  stale pointers; and a crash in the middle of a prefix split makes it follow values as pointers.
\<close>

subsection \<open>Moving pointers\<close>

lemma reloc_back [simp]: "reloc (b, a) (reloc (a, b) p) = p"
  by (simp add: reloc_def)

lemma field48_small: "p < 2 ^ 48 \<Longrightarrow> field48 p = p"
  by (simp add: field48_def word_unat_eq_iff unat_and_mask word_less_nat_alt)

lemma seg_addr_move: "reloc B (seg_addr e) < 2 ^ 48 \<Longrightarrow> seg_addr (move_entry B e) = reloc B (seg_addr e)"
  by (simp add: seg_addr_def move_entry_def field48_small)

lemma move_entry_simps [simp]:
  "localDepth (move_entry B e) = localDepth e" "window (move_entry B e) = window e"
  by (simp_all add: move_entry_def window_def)

lemma length_mend_group [simp]: "length (mend_group B i hi es) = length es"
  by (simp add: mend_group_def Let_def)

lemma nth_mend_group:
  "j < length es \<Longrightarrow> mend_group B i hi es ! j =
    (if j = i then move_entry B (es ! i) else if i < j \<and> j < hi then mend_entry B (move_entry B (es ! i)) (es ! j) else es ! j)"
  by (simp add: mend_group_def Let_def)

subsection \<open>Nodes of the last level\<close>

lemma recover_slots_last:
  "pm_segs (fst st) (seg_addr e) \<noteq> None \<Longrightarrow> recover_slots child B 64 e j ks st = Inr st"
  by (induction ks) (auto simp: recover_slot_def Let_def split: prod.splits)

lemma recover_buckets_last:
  "pm_segs (fst st) (seg_addr e) \<noteq> None \<Longrightarrow> recover_buckets child B 64 e js st = Inr st"
  by (induction js) (auto simp: recover_slots_last)

text \<open>The directory loop alone.\<close>

function mend_dir :: "bases \<Rightarrow> nat \<Rightarrow> nat \<Rightarrow> nat \<Rightarrow> nat \<Rightarrow> segment_node list \<Rightarrow> segment_node list" where
  "mend_dir B skip gd cap i es =
     (if cap \<le> i then es
      else let hi = group_end gd (localDepth (es ! i)) i in mend_dir B skip gd cap (hi + skip) (mend_group B i hi es))"
  by pat_completeness auto
termination
  by (relation "measure (\<lambda>(B, skip, gd, cap, i, es). cap - i)")
    (use group_end_greater in \<open>auto simp: not_le intro!: diff_less_mono2 trans_less_add1\<close>)

declare mend_dir.simps [simp del] recover_dir.simps [simp del]

definition dir_shape :: "nat \<Rightarrow> segment_node list \<Rightarrow> bool" where
  "dir_shape gd es \<longleftrightarrow> gd < 64 \<and> length es = 2 ^ gd \<and> (\<forall>e\<in>set es. localDepth e \<le> gd)"

lemma group_end_le:
  assumes "ld \<le> gd" "i < 2 ^ gd"
  shows "group_end gd ld i \<le> 2 ^ gd"
proof -
  let ?w = "2 ^ (gd - ld) :: nat"
  have d: "(2 :: nat) ^ gd = ?w * 2 ^ ld" using assms(1) by (simp flip: power_add)
  then have "i div ?w < 2 ^ ld" using assms(2) by (intro less_mult_imp_div_less) (simp add: mult.commute)
  then have "Suc (i div ?w) * ?w \<le> 2 ^ ld * ?w" by (intro mult_le_mono1) simp
  moreover have "i - i mod ?w + ?w = Suc (i div ?w) * ?w" by (simp add: minus_mod_eq_div_mult)
  ultimately show ?thesis unfolding group_end_def Let_def d by (simp add: mult.commute)
qed

lemma dir_shape_mend:
  assumes "dir_shape gd es" "i < 2 ^ gd"
  shows "dir_shape gd (mend_group B i hi es)"
proof -
  have "localDepth (mend_group B i hi es ! j) \<le> gd" if "j < 2 ^ gd" for j
    using assms that by (auto simp: dir_shape_def nth_mend_group mend_entry_def)
  then show ?thesis using assms(1) by (auto simp: dir_shape_def in_set_conv_nth)
qed

lemma recover_dir_last:
  assumes "dir_shape gd (pm_entries n)" "pm_nodes (fst st) np = Some n" "cap = 2 ^ gd"
    and "\<And>j. i \<le> j \<Longrightarrow> j < 2 ^ gd \<Longrightarrow> pm_segs (fst st) (seg_addr (move_entry B (pm_entries n ! j))) \<noteq> None"
  shows "recover_dir child B skip 64 np gd cap i st =
    Inr ((fst st)\<lparr>pm_nodes := (pm_nodes (fst st))(np \<mapsto> n\<lparr>pm_entries := mend_dir B skip gd cap i (pm_entries n)\<rparr>)\<rparr>, snd st)"
  using assms
proof (induction "cap - i" arbitrary: i n st rule: less_induct)
  case less
  let ?es = "pm_entries n"
  show ?case
  proof (cases "cap \<le> i")
    case True
    then show ?thesis using less.prems(2)
      by (cases st) (simp add: recover_dir.simps mend_dir.simps map_upd_triv fun_upd_idem)
  next
    case False
    then have i: "i < 2 ^ gd" using less.prems(3) by simp
    let ?ld = "localDepth (?es ! i)"
    let ?hi = "group_end gd ?ld i"
    have ld: "?ld \<le> gd" and len: "length ?es = 2 ^ gd" and gd: "gd < 64"
      using less.prems(1) i by (auto simp: dir_shape_def)
    have hi: "i < ?hi" "?hi \<le> 2 ^ gd" using group_end_greater group_end_le [OF ld i] by blast+
    let ?n = "n\<lparr>pm_entries := mend_group B i ?hi ?es\<rparr>"
    let ?m = "(fst st)\<lparr>pm_nodes := (pm_nodes (fst st))(np \<mapsto> ?n)\<rparr>"
    have seg: "pm_segs (fst st) (seg_addr (move_entry B (?es ! i))) \<noteq> None" using less.prems(4) [of i] i by simp
    have "recover_dir child B skip 64 np gd cap i st = recover_dir child B skip 64 np gd cap (?hi + skip) (?m, snd st)"
      using False less.prems(2) ld len gd i hi seg recover_buckets_last [of "(?m, snd st)" "move_entry B (?es ! i)"]
      by (subst recover_dir.simps) (auto simp: Let_def not_less)
    also have "\<dots> = Inr (?m\<lparr>pm_nodes := (pm_nodes ?m)(np \<mapsto> ?n\<lparr>pm_entries := mend_dir B skip gd cap (?hi + skip) (pm_entries ?n)\<rparr>)\<rparr>, snd st)"
    proof (rule less.hyps [of "?hi + skip" ?n "(?m, snd st)", unfolded fst_conv snd_conv])
      show "cap - (?hi + skip) < cap - i" using False hi by simp
      show "dir_shape gd (pm_entries ?n)" using dir_shape_mend [OF less.prems(1) i] by simp
      show "pm_segs ?m (seg_addr (move_entry B (pm_entries ?n ! j))) \<noteq> None" if "?hi + skip \<le> j" "j < 2 ^ gd" for j
        using less.prems(4) [of j] that hi len by (simp add: nth_mend_group)
    qed (use less.prems(3) in simp_all)
    also have "\<dots> = Inr ((fst st)\<lparr>pm_nodes := (pm_nodes (fst st))(np \<mapsto> n\<lparr>pm_entries := mend_dir B skip gd cap i ?es\<rparr>)\<rparr>, snd st)"
      using False by (simp add: mend_dir.simps [of B skip gd cap i] Let_def)
    finally show ?thesis .
  qed
qed

lemma recover_node_last:
  assumes "pm_nodes m np = Some n" "pos + prefixLength (pm_header n) * 32 = 32"
    "dir_shape (pm_depth n) (pm_entries n)" "pm_capacity n = 2 ^ pm_depth n"
    and "\<And>e. e \<in> set (pm_entries n) \<Longrightarrow> pm_segs m (seg_addr (move_entry B e)) \<noteq> None"
  shows "recover_node child B skip pos nhd m np =
    Inr (m\<lparr>pm_nodes := (pm_nodes m)(np \<mapsto> n\<lparr>pm_entries := mend_dir B skip (pm_depth n) (2 ^ pm_depth n) 0 (pm_entries n)\<rparr>)\<rparr>)"
proof -
  have "recover_dir c B skip 64 np (pm_depth n) (2 ^ pm_depth n) 0 (m, []) =
      Inr (m\<lparr>pm_nodes := (pm_nodes m)(np \<mapsto> n\<lparr>pm_entries := mend_dir B skip (pm_depth n) (2 ^ pm_depth n) 0 (pm_entries n)\<rparr>)\<rparr>, [])" for c
    using recover_dir_last [OF assms(3), of "(m, [])" np "2 ^ pm_depth n" 0 B c skip] assms(1,3,5)
    by (simp add: dir_shape_def)
  with assms(1,2,4) show ?thesis by (simp add: recover_node_def mend_header_def Let_def)
qed

subsection \<open>Intact directories\<close>

definition dir_groups :: "nat \<Rightarrow> segment_node list \<Rightarrow> bool" where
  "dir_groups gd es \<longleftrightarrow> dir_shape gd es \<and>
     (\<forall>i<2 ^ gd. \<forall>j<2 ^ gd. j div 2 ^ (gd - localDepth (es ! i)) = i div 2 ^ (gd - localDepth (es ! i)) \<longrightarrow> es ! j = es ! i)"

lemma dir_groupsD:
  assumes "dir_groups gd es"
  shows "dir_shape gd es" "length es = 2 ^ gd" "\<And>i. i < 2 ^ gd \<Longrightarrow> localDepth (es ! i) \<le> gd"
    "\<And>i j. i < 2 ^ gd \<Longrightarrow> j < 2 ^ gd \<Longrightarrow>
      j div 2 ^ (gd - localDepth (es ! i)) = i div 2 ^ (gd - localDepth (es ! i)) \<Longrightarrow> es ! j = es ! i"
  using assms unfolding dir_groups_def dir_shape_def by (blast, blast, metis nth_mem, blast)

lemma pred_div: "h mod w \<noteq> 0 \<Longrightarrow> (h - 1) div w = h div w" for h w :: nat
  by (cases h) (simp_all add: div_Suc)

lemma group_endD:
  assumes g: "dir_groups gd es" and i: "i < 2 ^ gd" "i mod 2 ^ (gd - localDepth (es ! i)) = 0"
  defines "hi \<equiv> group_end gd (localDepth (es ! i)) i"
  shows "hi < 2 ^ gd \<Longrightarrow> hi mod 2 ^ (gd - localDepth (es ! hi)) = 0" "\<And>j. i \<le> j \<Longrightarrow> j < hi \<Longrightarrow> es ! j = es ! i"
proof -
  let ?w = "2 ^ (gd - localDepth (es ! i)) :: nat"
  have hi: "hi = i + ?w" using i(2) by (simp add: hi_def group_end_def)
  have le: "hi \<le> 2 ^ gd" unfolding hi_def using dir_groupsD(3) [OF g i(1)] i(1) by (rule group_end_le)
  show same: "es ! j = es ! i" if "i \<le> j" "j < hi" for j
  proof -
    have "j div ?w = i div ?w"
      using that i(2) block_div [of ?w "i div ?w" j] div_mult_mod_eq [of i ?w] unfolding hi by simp
    then show ?thesis using dir_groupsD(4) [OF g i(1)] that(2) le by simp
  qed
  show "hi mod 2 ^ (gd - localDepth (es ! hi)) = 0" if h: "hi < 2 ^ gd"
  proof (rule ccontr)
    let ?v = "2 ^ (gd - localDepth (es ! hi)) :: nat"
    assume n: "hi mod ?v \<noteq> 0"
    then have "(hi - 1) div ?v = hi div ?v" by (rule pred_div)
    from dir_groupsD(4) [OF g h _ this] h have "es ! (hi - 1) = es ! hi" by linarith
    moreover have "es ! (hi - 1) = es ! i"
    proof (rule same)
      have "1 \<le> ?w" by simp
      then show "i \<le> hi - 1" "hi - 1 < hi" unfolding hi by linarith+
    qed
    ultimately have "?v = ?w" by simp
    with n i(2) show False by (simp add: hi)
  qed
qed

text \<open>An entry of a group, but not its first one, may already belong to a deeper segment.\<close>

definition half_done :: "nat \<Rightarrow> segment_node list \<Rightarrow> segment_node list \<Rightarrow> nat \<Rightarrow> bool" where
  "half_done gd es0 es j \<longleftrightarrow> es ! j = es0 ! j \<or>
     (j mod 2 ^ (gd - localDepth (es0 ! j)) \<noteq> 0 \<and> localDepth (es0 ! j) < localDepth (es ! j))"

lemma mend_dir_groups_from:
  assumes g: "dir_groups gd es0" and "i \<le> 2 ^ gd" "i < 2 ^ gd \<Longrightarrow> i mod 2 ^ (gd - localDepth (es0 ! i)) = 0"
    "length es = 2 ^ gd" "\<And>j. j < i \<Longrightarrow> es ! j = move_entry B (es0 ! j)" "\<And>j. i \<le> j \<Longrightarrow> j < 2 ^ gd \<Longrightarrow> half_done gd es0 es j"
  shows "mend_dir B 0 gd (2 ^ gd) i es = map (move_entry B) es0"
  using assms(2-)
proof (induction "2 ^ gd - i" arbitrary: i es rule: less_induct)
  case less
  note len = dir_groupsD(2) [OF g]
  show ?case
  proof (cases "2 ^ gd \<le> i")
    case True
    then have "es = map (move_entry B) es0" using less.prems len by (intro nth_equalityI) simp_all
    with True show ?thesis by (simp add: mend_dir.simps)
  next
    case False
    then have i: "i < 2 ^ gd" by simp
    note b = less.prems(2) [OF i]
    let ?hi = "group_end gd (localDepth (es0 ! i)) i"
    note ge = group_endD [OF g i b]
    have hi: "i < ?hi" "?hi \<le> 2 ^ gd"
      using group_end_greater group_end_le [OF dir_groupsD(3) [OF g i] i] by blast+
    have e: "es ! i = es0 ! i" using less.prems(5) [OF order_refl i] b by (simp add: half_done_def)
    have "mend_dir B 0 gd (2 ^ gd) i es = mend_dir B 0 gd (2 ^ gd) ?hi (mend_group B i ?hi es)"
      using False e by (subst mend_dir.simps) (simp add: Let_def)
    also have "\<dots> = map (move_entry B) es0"
    proof (rule less.hyps)
      show "mend_group B i ?hi es ! j = move_entry B (es0 ! j)" if "j < ?hi" for j
      proof (cases "j < i")
        case True
        with that less.prems(3,4) hi show ?thesis by (simp add: nth_mend_group)
      next
        case False
        then have "half_done gd es0 es j" "es0 ! j = es0 ! i" using less.prems(5) [of j] ge(2) [of j] that hi by simp_all
        then have "mend_entry B (move_entry B (es0 ! i)) (es ! j) = move_entry B (es0 ! j)"
          by (auto simp: half_done_def mend_entry_def)
        with False that less.prems(3) hi e \<open>es0 ! j = es0 ! i\<close> show ?thesis by (simp add: nth_mend_group)
      qed
      show "half_done gd es0 (mend_group B i ?hi es) j" if "?hi \<le> j" "j < 2 ^ gd" for j
        using that less.prems(3,5) hi by (simp add: nth_mend_group half_done_def)
    qed (use hi i ge(1) less.prems(3) in simp_all)
    finally show ?thesis .
  qed
qed

lemma mend_dir_half_done:
  "dir_groups gd es0 \<Longrightarrow> length es = 2 ^ gd \<Longrightarrow> (\<And>j. j < 2 ^ gd \<Longrightarrow> half_done gd es0 es j) \<Longrightarrow>
   mend_dir B 0 gd (2 ^ gd) 0 es = map (move_entry B) es0"
  by (intro mend_dir_groups_from) simp_all

lemma mend_dir_groups: "dir_groups gd es \<Longrightarrow> mend_dir B 0 gd (2 ^ gd) 0 es = map (move_entry B) es"
  using dir_groupsD(2) [of gd es] by (intro mend_dir_half_done) (simp_all add: half_done_def)

text \<open>A node as the lookup sees it, each entry with its own copy of the segment.\<close>

definition node_view :: "pm \<Rightarrow> pm_node \<Rightarrow> 48 word wrert_node" where
  "node_view m n =
     \<lparr>header = pm_header n, capacity = pm_capacity n, globalDepth = pm_depth n,
      directory = map (\<lambda>i. (pm_entries n ! i)\<lparr>segmentPtr := i\<rparr>) [0..<length (pm_entries n)],
      segs = map (\<lambda>e. case pm_segs m (seg_addr e) of None \<Rightarrow> [] | Some sg \<Rightarrow> sg) (pm_entries n)\<rparr>"

definition root_get :: "pm \<Rightarrow> u32 \<Rightarrow> 48 word slot option res" where
  "root_get m k = (case pm_nodes m (root_ptr m) of None \<Rightarrow> Inl WildAccess | Some n \<Rightarrow> getSegNode (node_view m n) k)"

text \<open>The pool of \<open>m\<close>, whose pointers are those of its last mapping, mapped at \<open>new\<close>.\<close>

definition remap :: "u64 \<Rightarrow> pm \<Rightarrow> pm" where
  "remap new m =
     (let back = reloc (base_ptr m, new) in
      m\<lparr>pm_nodes := pm_nodes m \<circ> back, pm_segs := pm_segs m \<circ> back, pm_pairs := pm_pairs m \<circ> back\<rparr>)"

text \<open>
  What recovery makes of a root at the last level: lookups answer as if its directory had been
  \<open>es0\<close>, the one whose groups are intact.
\<close>

lemma recovery_half_done:
  assumes root: "pm_nodes m (root_ptr m) = Some n" "prefixLength (pm_header n) = 1" "nodeHeaderDepth (pm_header n) = 0"
    and dir: "dir_groups (pm_depth n) es0" "dir_shape (pm_depth n) (pm_entries n)" "pm_capacity n = 2 ^ pm_depth n"
      "\<And>j. j < 2 ^ pm_depth n \<Longrightarrow> half_done (pm_depth n) es0 (pm_entries n) j"
    and segs: "\<And>e. e \<in> set es0 \<union> set (pm_entries n) \<Longrightarrow> pm_segs m (seg_addr e) \<noteq> None \<and> reloc (new, base_ptr m) (seg_addr e) < 2 ^ 48"
  shows "\<exists>m'. recoveryTree fuel new (remap new m) = Inr m' \<and> base_ptr m' = new \<and>
    (\<forall>k. root_get m' k = getSegNode (node_view m (n\<lparr>pm_entries := es0\<rparr>)) k)"
proof -
  let ?B = "(new, base_ptr m)"
  let ?n = "n\<lparr>pm_entries := map (move_entry ?B) es0\<rparr>"
  let ?m = "(remap new m)\<lparr>base_ptr := new, root_ptr := reloc ?B (root_ptr m)\<rparr>"
  let ?m' = "?m\<lparr>pm_nodes := (pm_nodes ?m)(root_ptr ?m \<mapsto> ?n)\<rparr>"
  have moved: "pm_segs ?m (seg_addr (move_entry ?B e)) = pm_segs m (seg_addr e)" if "e \<in> set es0 \<union> set (pm_entries n)" for e
    using segs [OF that] by (simp add: seg_addr_move remap_def Let_def)
  have mend: "mend_dir ?B 0 (pm_depth n) (2 ^ pm_depth n) 0 (pm_entries n) = map (move_entry ?B) es0"
    using dir(2) by (intro mend_dir_half_done [OF dir(1) _ dir(4)]) (simp_all add: dir_shape_def)
  have r: "recoveryTree fuel new (remap new m) = Inr ?m'"
  proof -
    have "recover_node c ?B 0 0 0 ?m (root_ptr ?m) = Inr ?m'" for c
      using recover_node_last [of ?m "root_ptr ?m" n 0 ?B c 0 0] root dir(2,3) segs moved mend
      by (simp add: remap_def Let_def)
    moreover have "base_ptr (remap new m) = base_ptr m" "root_ptr (remap new m) = root_ptr m"
      by (simp_all add: remap_def Let_def)
    ultimately show ?thesis by (simp add: recoveryTree_def Let_def)
  qed
  have "node_view ?m' ?n = node_view m (n\<lparr>pm_entries := es0\<rparr>)"
    using moved by (simp add: node_view_def move_entry_def cong: map_cong)
  then have "root_get ?m' k = getSegNode (node_view m (n\<lparr>pm_entries := es0\<rparr>)) k" for k
    by (simp add: root_get_def)
  with r show ?thesis by (intro exI [of _ ?m']) simp
qed

text \<open>
  C36.  A tree whose keys share their upper half, so that its root is at the last level and its
  slots hold values, with an intact directory, mapped at another address below \<open>2 ^ 48\<close>: recovery
  succeeds and afterwards every lookup in the root finds what it found before.
\<close>

theorem wrert_recovery_moves:
  assumes root: "pm_nodes m (root_ptr m) = Some n" "prefixLength (pm_header n) = 1" "nodeHeaderDepth (pm_header n) = 0"
    and dir: "dir_groups (pm_depth n) (pm_entries n)" "pm_capacity n = 2 ^ pm_depth n"
    and segs: "\<And>e. e \<in> set (pm_entries n) \<Longrightarrow> pm_segs m (seg_addr e) \<noteq> None \<and> reloc (new, base_ptr m) (seg_addr e) < 2 ^ 48"
  shows "\<exists>m'. recoveryTree fuel new (remap new m) = Inr m' \<and> base_ptr m' = new \<and> (\<forall>k. root_get m' k = root_get m k)"
  using recovery_half_done [OF root dir(1) dir_groupsD(1) [OF dir(1)] dir(2), of new fuel] segs root(1)
  by (simp add: half_done_def root_get_def)

definition ex_pool :: "pm_node \<Rightarrow> (u64 \<Rightarrow> 48 word segment option) \<Rightarrow> pm" where
  "ex_pool n ss = \<lparr>base_ptr = 0x1000, root_ptr = 0x2000, pm_nodes = [0x2000 \<mapsto> n], pm_segs = ss, pm_pairs = Map.empty\<rparr>"

definition ex_node :: "nat \<Rightarrow> nat \<Rightarrow> nat \<Rightarrow> segment_node list \<Rightarrow> pm_node" where
  "ex_node d pl gd es =
     \<lparr>pm_header = \<lparr>nodeHeaderDepth = d, prefixLength = pl, prefixArray = replicate 6 0\<rparr>,
      pm_capacity = 2 ^ gd, pm_depth = gd, pm_entries = es\<rparr>"

lemma ex_pool_simps [simp]:
  "base_ptr (ex_pool n ss) = 0x1000" "root_ptr (ex_pool n ss) = 0x2000" "pm_nodes (ex_pool n ss) = [0x2000 \<mapsto> n]"
  "pm_segs (ex_pool n ss) = ss" "pm_pairs (ex_pool n ss) = Map.empty"
  by (simp_all add: ex_pool_def)

lemma ex_node_simps [simp]:
  "nodeHeaderDepth (pm_header (ex_node d pl gd es)) = d" "prefixLength (pm_header (ex_node d pl gd es)) = pl"
  "pm_capacity (ex_node d pl gd es) = 2 ^ gd" "pm_depth (ex_node d pl gd es) = gd" "pm_entries (ex_node d pl gd es) = es"
  by (simp_all add: ex_node_def)

definition ex_entry :: "nat \<Rightarrow> nat \<Rightarrow> segment_node" where
  "ex_entry ld p = \<lparr>localDepth = ld, sharedBucketOffset = 0, segmentPtr = p\<rparr>"

lemma ex_entry_simps [simp]: "localDepth (ex_entry ld p) = ld" "seg_addr (ex_entry ld p) = of_nat p" "window (ex_entry ld p) = 0"
  by (simp_all add: ex_entry_def seg_addr_def window_def)

lemma ex_dir_single: "dir_groups 0 [ex_entry 0 p]"
  by (simp add: dir_groups_def dir_shape_def)

text \<open>A key in the first slot of its shared bucket.\<close>

lemma getSegNode_first:
  fixes n :: "'v wrert_node" and k
  defines "e \<equiv> segment_node_of n k"
  defines "sg \<equiv> segs n ! segmentPtr e"
  assumes "\<not> bad_depths n k" "sg ! shared_position e k = x # xs" "live (localDepth e) x" "subKey x = k"
  shows "getSegNode n k = Inr (Some x)"
proof -
  have "find_key (shared_version (localDepth e)) (main_version (localDepth e)) k (sg ! shared_position e k) (sg ! main_position e k) 0 = Some (False, 0)"
    using assms(4-6) by (simp add: find_key_def lane_key_match lanes_def)
  with assms(3,4) show ?thesis by (simp add: getSegNode_def Let_def e_def sg_def)
qed

definition ex_slot :: "48 word slot" where
  "ex_slot = \<lparr>subKey = 5, migVersion = 511, validFlag = True, nodeFlag = False, fingerprint = 0, slot_value = 7\<rparr>"

definition ex_seg :: "48 word segment" where
  "ex_seg = set_slot (NewWRERTSegment 0) 0 0 ex_slot"

lemma ex_seg_nth: "ex_seg ! 0 = ex_slot # replicate 15 (zero_slot 0)" "0 < j \<Longrightarrow> j < 48 \<Longrightarrow> ex_seg ! j ! 0 = zero_slot 0"
proof -
  have "replicate 16 (zero_slot 0) = zero_slot (0 :: 48 word) # replicate 15 (zero_slot 0)" by (simp add: eval_nat_numeral)
  then show "ex_seg ! 0 = ex_slot # replicate 15 (zero_slot 0)" by (simp add: ex_seg_def set_slot_def NewWRERTSegment_def)
  show "0 < j \<Longrightarrow> j < 48 \<Longrightarrow> ex_seg ! j ! 0 = zero_slot 0" by (simp add: ex_seg_def set_slot_def NewWRERTSegment_def)
qed

definition ex_moved :: pm where
  "ex_moved = ex_pool (ex_node 0 1 0 [ex_entry 0 0x3000]) [0x3000 \<mapsto> ex_seg]"

lemma ex_moved_get: "root_get ex_moved 5 = Inr (Some ex_slot)"
proof -
  let ?n = "node_view ex_moved (ex_node 0 1 0 [ex_entry 0 0x3000])"
  have "getSegNode ?n 5 = Inr (Some ex_slot)"
  proof (rule getSegNode_first)
    have e: "segment_node_of ?n 5 = (ex_entry 0 0x3000)\<lparr>segmentPtr := 0\<rparr>"
      by (simp add: segment_node_of_def node_view_def get_segment_number_def)
    have w: "shared_position ((ex_entry 0 0x3000)\<lparr>segmentPtr := 0\<rparr>) 5 = 0"
      by (simp add: shared_position_def window_def shared_bucket_index_def ex_entry_def)
    show "segs ?n ! segmentPtr (segment_node_of ?n 5) ! shared_position (segment_node_of ?n 5) 5 = ex_slot # replicate 15 (zero_slot 0)"
      unfolding e w by (simp add: node_view_def ex_moved_def ex_seg_nth)
    show "\<not> bad_depths ?n 5" "live (localDepth (segment_node_of ?n 5)) ex_slot" "subKey ex_slot = 5"
      unfolding bad_depths_def e by (simp_all add: node_view_def live_def ex_slot_def shared_version_def)
  qed
  then show ?thesis by (simp add: root_get_def ex_moved_def)
qed

theorem wrert_recovery_moves_witness:
  "root_get ex_moved 5 = Inr (Some ex_slot) \<and>
   (\<exists>m'. recoveryTree 0 0x9000 (remap 0x9000 ex_moved) = Inr m' \<and> base_ptr m' = 0x9000 \<and> root_get m' 5 = Inr (Some ex_slot))"
proof -
  have "\<exists>m'. recoveryTree 0 0x9000 (remap 0x9000 ex_moved) = Inr m' \<and> base_ptr m' = 0x9000 \<and> (\<forall>k. root_get m' k = root_get ex_moved k)"
    by (rule wrert_recovery_moves [where n = "ex_node 0 1 0 [ex_entry 0 0x3000]"])
      (use ex_dir_single in \<open>auto simp: reloc_def ex_moved_def\<close>)
  then show ?thesis using ex_moved_get by auto
qed

subsection \<open>Entries that are skipped\<close>

lemma mend_dir_below: "j < i \<Longrightarrow> j < length es \<Longrightarrow> mend_dir B skip gd cap i es ! j = es ! j"
proof (induction "cap - i" arbitrary: i es rule: less_induct)
  case less
  let ?hi = "group_end gd (localDepth (es ! i)) i"
  note g = group_end_greater [of i gd "localDepth (es ! i)"]
  show ?case
  proof (cases "cap \<le> i")
    case False
    have "mend_dir B skip gd cap (?hi + skip) (mend_group B i ?hi es) ! j = mend_group B i ?hi es ! j"
      by (rule less.hyps) (use False g less.prems in simp_all)
    then show ?thesis using False less.prems by (subst mend_dir.simps) (simp add: Let_def nth_mend_group)
  qed (simp add: mend_dir.simps)
qed

text \<open>
  In a node below the root, whose first directory entry does not share its segment, the
  second entry keeps the pointer of the old mapping: the loop steps over it.
\<close>

theorem wrert_recovery_skips:
  assumes node: "pm_nodes m np = Some n" "prefixLength (pm_header n) = 0"
    and dir: "dir_groups (pm_depth n) (pm_entries n)" "pm_capacity n = 2 ^ pm_depth n"
      "localDepth (pm_entries n ! 0) = pm_depth n" "0 < pm_depth n"
    and segs: "\<And>e. e \<in> set (pm_entries n) \<Longrightarrow> pm_segs m (seg_addr (move_entry B e)) \<noteq> None"
  shows "\<exists>m' n'. recoveryAllNodes (Suc fuel) B 32 nhd m np = Inr m' \<and> pm_nodes m' np = Some n' \<and>
    pm_entries n' ! 0 = move_entry B (pm_entries n ! 0) \<and> pm_entries n' ! 1 = pm_entries n ! 1"
proof -
  let ?gd = "pm_depth n" and ?es = "pm_entries n"
  let ?es' = "mend_dir B 1 ?gd (2 ^ ?gd) 0 ?es"
  have l: "1 < length ?es" using one_less_power [of "2 :: nat", OF _ dir(4)] dir_groupsD(2) [OF dir(1)] by simp
  have "?es' = mend_dir B 1 ?gd (2 ^ ?gd) 2 (mend_group B 0 1 ?es)"
    using dir(3) by (subst mend_dir.simps) (simp add: Let_def group_end_def numeral_2_eq_2)
  moreover have "?es \<noteq> []" using l by auto
  ultimately have "?es' ! 0 = move_entry B (?es ! 0)" "?es' ! 1 = ?es ! 1"
    using l by (simp_all add: mend_dir_below nth_mend_group)
  moreover have "recoveryAllNodes (Suc fuel) B 32 nhd m np = Inr (m\<lparr>pm_nodes := (pm_nodes m)(np \<mapsto> n\<lparr>pm_entries := ?es'\<rparr>)\<rparr>)"
    using recover_node_last [of m np n 32 B "recoveryAllNodes fuel B" 1 nhd] node dir(2) segs dir_groupsD(1) [OF dir(1)]
    by simp
  ultimately show ?thesis by simp
qed

lemma ex_dir_pair: "dir_groups 1 [ex_entry 1 p, ex_entry 1 q]"
proof -
  have "i < 2 \<longleftrightarrow> i = 0 \<or> i = 1" for i :: nat by auto
  then show ?thesis by (auto simp: dir_groups_def dir_shape_def nth_Cons')
qed

theorem wrert_recovery_skips_witness:
  "\<exists>m' n'. recoveryAllNodes 1 (0x9000, 0x1000) 32 1
      (ex_pool (ex_node 1 0 1 [ex_entry 1 0x3000, ex_entry 1 0x6000]) [0xB000 \<mapsto> NewWRERTSegment 0, 0xE000 \<mapsto> NewWRERTSegment 0])
      0x2000 = Inr m' \<and> pm_nodes m' 0x2000 = Some n' \<and> segmentPtr (pm_entries n' ! 0) = 0xB000 \<and> segmentPtr (pm_entries n' ! 1) = 0x6000"
proof -
  let ?B = "(0x9000, 0x1000) :: bases"
  let ?n = "ex_node 1 0 1 [ex_entry 1 0x3000, ex_entry 1 0x6000]"
  let ?m = "ex_pool ?n [0xB000 \<mapsto> NewWRERTSegment 0, 0xE000 \<mapsto> NewWRERTSegment 0]"
  have "\<exists>m' n'. recoveryAllNodes (Suc 0) ?B 32 1 ?m 0x2000 = Inr m' \<and> pm_nodes m' 0x2000 = Some n' \<and>
    pm_entries n' ! 0 = move_entry ?B (pm_entries ?n ! 0) \<and> pm_entries n' ! 1 = pm_entries ?n ! 1"
    by (rule wrert_recovery_skips)
      (use ex_dir_pair in \<open>auto simp: seg_addr_move reloc_def\<close>)
  then show ?thesis by (force simp: move_entry_def ex_entry_def reloc_def field48_small)
qed

subsection \<open>A crash in a prefix split\<close>

lemma recover_slots_wild:
  assumes sg: "pm_segs m (seg_addr e) = Some sg" and x: "\<not> stop_slot (window e) (localDepth e) j (sg ! j ! 0)" "\<not> nodeFlag (sg ! j ! 0)"
    "pm_pairs m (field48 (reloc B (ucast (slot_value (sg ! j ! 0))))) = None" and pos: "pos \<noteq> 64"
  shows "recover_slots child B pos e j [0..<16] (m, []) = Inl WildAccess"
proof -
  have "[0..<16] = 0 # [1..<16]" by (simp add: upt_rec)
  with assms show ?thesis by (simp add: recover_slot_def Let_def)
qed

lemma recover_buckets_wild:
  assumes sg: "pm_segs m (seg_addr e) = Some sg" and pos: "pos \<noteq> 64"
    and x: "\<And>j. j \<in> set js \<Longrightarrow> \<not> stop_slot (window e) (localDepth e) j (sg ! j ! 0) \<Longrightarrow>
      \<not> nodeFlag (sg ! j ! 0) \<and> pm_pairs m (field48 (reloc B (ucast (slot_value (sg ! j ! 0))))) = None"
    and ex: "\<exists>j\<in>set js. \<not> stop_slot (window e) (localDepth e) j (sg ! j ! 0)"
  shows "recover_buckets child B pos e js (m, []) = Inl WildAccess"
  using x ex
proof (induction js)
  case (Cons j js)
  show ?case
  proof (cases "stop_slot (window e) (localDepth e) j (sg ! j ! 0)")
    case True
    have "[0..<16] = 0 # [1..<16]" by (simp add: upt_rec)
    with sg True have "recover_slots child B pos e j [0..<16] (m, []) = Inr (m, [])" by simp
    with Cons True show ?thesis by simp
  next
    case False
    with recover_slots_wild [OF sg False _ _ pos] Cons.prems(1) show ?thesis by simp
  qed
qed simp

text \<open>
  C37.  A prefix split stores the shortened header of the old root before it stores the pointer to
  the new one.  If the machine stops in between, recovery takes the values of the old root for
  pointers to pairs and reads through them.
\<close>

theorem wrert_recovery_wild:
  assumes root: "pm_nodes m (reloc (new, base_ptr m) (root_ptr m)) = Some n"
    "pm_header n = \<lparr>nodeHeaderDepth = 1, prefixLength = 0, prefixArray = a\<rparr>"
    and dir: "dir_groups (pm_depth n) (pm_entries n)" "pm_capacity n = 2 ^ pm_depth n"
    and e: "e = move_entry (new, base_ptr m) (pm_entries n ! 0)" "pm_segs m (seg_addr e) = Some sg" "seg_addr e \<noteq> 0"
    and slots: "\<And>j. j < 48 \<Longrightarrow> \<not> stop_slot (window e) (localDepth e) j (sg ! j ! 0) \<Longrightarrow>
      \<not> nodeFlag (sg ! j ! 0) \<and> pm_pairs m (field48 (reloc (new, base_ptr m) (ucast (slot_value (sg ! j ! 0))))) = None"
    and some: "\<exists>j<48. \<not> stop_slot (window e) (localDepth e) j (sg ! j ! 0)"
  shows "recoveryTree fuel new m = Inl WildAccess"
proof -
  let ?B = "(new, base_ptr m)"
  let ?m = "m\<lparr>base_ptr := new, root_ptr := reloc ?B (root_ptr m)\<rparr>"
  let ?gd = "pm_depth n" and ?es = "pm_entries n"
  have ld: "localDepth (?es ! 0) \<le> ?gd" "?gd < 64" "length ?es = 2 ^ ?gd"
    using dir_groupsD(1) [OF dir(1), unfolded dir_shape_def] dir_groupsD(3) [OF dir(1), of 0] by simp_all
  have hi: "group_end ?gd (localDepth (?es ! 0)) 0 \<le> 2 ^ ?gd" by (rule group_end_le [OF ld(1)]) simp
  have b: "recover_buckets c ?B 32 e [0..<48] (?m\<lparr>pm_nodes := f\<rparr>, []) = Inl WildAccess" for c f
  proof (rule recover_buckets_wild)
    show "pm_segs (?m\<lparr>pm_nodes := f\<rparr>) (seg_addr e) = Some sg" using e(2) by simp
    show "\<exists>j\<in>set [0..<48]. \<not> stop_slot (window e) (localDepth e) j (sg ! j ! 0)" using some by force
    show "\<not> nodeFlag (sg ! j ! 0) \<and> pm_pairs (?m\<lparr>pm_nodes := f\<rparr>) (field48 (reloc ?B (ucast (slot_value (sg ! j ! 0))))) = None"
      if "j \<in> set [0..<48]" "\<not> stop_slot (window e) (localDepth e) j (sg ! j ! 0)" for j
      using slots [OF _ that(2)] that(1) by (simp del: set_upt add: set_upt)
  qed simp
  have "?es \<noteq> []" "\<not> 64 \<le> ?gd - localDepth (?es ! 0)" using ld by auto
  then have "recover_dir c ?B 0 32 (root_ptr ?m) ?gd (2 ^ ?gd) 0 (?m, []) = Inl WildAccess" for c
    using root ld hi b e by (subst recover_dir.simps) (simp add: Let_def)
  then show ?thesis using root dir(2) by (simp add: recoveryTree_def recover_node_def Let_def)
qed

theorem wrert_recovery_wild_witness:
  "recoveryTree 1 0x9000 \<lparr>base_ptr = 0x1000, root_ptr = 0x2000, pm_nodes = [0xA000 \<mapsto> ex_node 1 0 0 [ex_entry 0 0x3000]],
     pm_segs = [0xB000 \<mapsto> ex_seg], pm_pairs = Map.empty\<rparr> = Inl WildAccess"
proof -
  let ?n = "ex_node 1 0 0 [ex_entry 0 0x3000]"
  have "\<not> nodeFlag (ex_seg ! j ! 0)" if "j < 48" for j
    using ex_seg_nth that by (cases "j = 0") (simp_all add: zero_slot_def ex_slot_def)
  moreover have "\<not> stop_slot 0 0 0 (ex_seg ! 0 ! 0)"
    by (simp add: ex_seg_nth ex_slot_def stop_slot_def isInvalidSharedSlot_def)
  moreover have "seg_addr (move_entry (0x9000, 0x1000) (ex_entry 0 0x3000)) = 0xB000"
    by (simp add: seg_addr_move reloc_def)
  ultimately show ?thesis
    by (intro wrert_recovery_wild [where n = ?n and e = "move_entry (0x9000, 0x1000) (ex_entry 0 0x3000)" and sg = ex_seg and a = "replicate 6 0"])
      (use ex_dir_single in \<open>auto simp: reloc_def ex_node_def intro!: exI [of _ 0]\<close>)
qed

end
