(* ===== verification/Wrert_Recovery_Split.thy ===== *)
theory Wrert_Recovery_Split
  imports Wrert_Recovery_Props
begin

text \<open>
  A crash in the middle of a segment split.  Recovery finds an entry that is deeper than the
  first one of its group and takes the split back, in the directory only: the buckets of the
  old segment have been rewritten by then, and the new segment is forgotten.
\<close>

subsection \<open>A node in memory\<close>

definition seg_place :: "nat \<Rightarrow> nat" where
  "seg_place i = 0x10000 * (i + 1)"

definition pool_of :: "48 word wrert_node \<Rightarrow> pm" where
  "pool_of n =
     \<lparr>base_ptr = 0x1000, root_ptr = 0x2000,
      pm_nodes = [0x2000 \<mapsto> \<lparr>pm_header = header n, pm_capacity = capacity n, pm_depth = globalDepth n,
        pm_entries = map (\<lambda>e. e\<lparr>segmentPtr := seg_place (segmentPtr e)\<rparr>) (directory n)\<rparr>],
      pm_segs = map_of (map (\<lambda>i. (of_nat (seg_place i), segs n ! i)) [0..<length (segs n)]),
      pm_pairs = Map.empty\<rparr>"

lemma segment_number_less: "get_segment_number k gd < 2 ^ gd"
  unfolding get_segment_number_def unat_and_mask by simp

lemma getSegNode_cong:
  assumes "globalDepth n = globalDepth n'" "localDepth (segment_node_of n k) = localDepth (segment_node_of n' k)"
    "window (segment_node_of n k) = window (segment_node_of n' k)"
    "segs n ! segmentPtr (segment_node_of n k) = segs n' ! segmentPtr (segment_node_of n' k)"
  shows "getSegNode n k = getSegNode n' k"
  unfolding getSegNode_def bad_depths_def Let_def shared_position_def main_position_def assms by (rule refl)

definition placed :: "segment_node \<Rightarrow> segment_node" where
  "placed e = e\<lparr>segmentPtr := seg_place (segmentPtr e)\<rparr>"

lemma placed_simps [simp]:
  "localDepth (placed e) = localDepth e" "window (placed e) = window e" "seg_addr (placed e) = of_nat (seg_place (segmentPtr e))"
  by (simp_all add: placed_def window_def seg_addr_def)

definition root_in_pool :: "48 word wrert_node \<Rightarrow> pm_node" where
  "root_in_pool n =
     \<lparr>pm_header = header n, pm_capacity = capacity n, pm_depth = globalDepth n, pm_entries = map placed (directory n)\<rparr>"

lemma root_in_pool_simps [simp]:
  "pm_header (root_in_pool n) = header n" "pm_capacity (root_in_pool n) = capacity n" "pm_depth (root_in_pool n) = globalDepth n"
  "pm_entries (root_in_pool n) = map placed (directory n)"
  by (simp_all add: root_in_pool_def)

lemma pool_of_simps [simp]:
  "base_ptr (pool_of n) = 0x1000" "root_ptr (pool_of n) = 0x2000" "pm_nodes (pool_of n) = [0x2000 \<mapsto> root_in_pool n]"
  by (simp_all add: pool_of_def root_in_pool_def placed_def [abs_def])

lemma pool_of_seg:
  assumes "length (segs n) < 2 ^ 40" "i < length (segs n)"
  shows "pm_segs (pool_of n) (of_nat (seg_place i)) = Some (segs n ! i)"
proof -
  have u: "unat (of_nat (seg_place j) :: u64) = seg_place j" if "j < length (segs n)" for j
    using assms(1) that unfolding unat_of_nat by (simp add: seg_place_def)
  have "inj_on (\<lambda>j. of_nat (seg_place j) :: u64) {..<length (segs n)}"
  proof (rule inj_onI)
    fix i j assume "i \<in> {..<length (segs n)}" "j \<in> {..<length (segs n)}" "(of_nat (seg_place i) :: u64) = of_nat (seg_place j)"
    then have "seg_place i = seg_place j" using u by (metis lessThan_iff)
    then show "i = j" by (simp add: seg_place_def)
  qed
  then have "distinct (map fst (map (\<lambda>i. (of_nat (seg_place i) :: u64, segs n ! i)) [0..<length (segs n)]))"
    by (simp add: distinct_map o_def atLeast0LessThan)
  moreover have "(of_nat (seg_place i), segs n ! i) \<in> set (map (\<lambda>i. (of_nat (seg_place i), segs n ! i)) [0..<length (segs n)])"
    using assms(2) by force
  ultimately show ?thesis by (simp add: pool_of_def)
qed

text \<open>The root in the pool, with any directory of the right length, answers like the node.\<close>

lemma view_get:
  assumes "length (segs n) < 2 ^ 40" "length es = 2 ^ globalDepth n" "\<And>e. e \<in> set es \<Longrightarrow> segmentPtr e < length (segs n)"
  shows "getSegNode (node_view (pool_of n) ((root_in_pool n)\<lparr>pm_entries := map placed es\<rparr>)) k = getSegNode (n\<lparr>directory := es\<rparr>) k"
proof -
  let ?i = "get_segment_number k (globalDepth n)"
  have i: "?i < length es" using segment_number_less assms(2) by simp
  then have "segmentPtr (es ! ?i) < length (segs n)" using assms(3) by simp
  from pool_of_seg [OF assms(1) this] i show ?thesis
    by (intro getSegNode_cong) (simp_all add: node_view_def segment_node_of_def window_def placed_def seg_addr_def)
qed

subsection \<open>Recovery after an interrupted split\<close>

lemma interrupted_middle:
  fixes gd ld idx :: nat
  assumes "ld < gd" "idx < 2 ^ gd"
  defines "num \<equiv> 2 ^ (gd - ld)"
  defines "mid \<equiv> idx - idx mod num + num div 2"
  shows "mid < 2 ^ gd" "mid div num = idx div num" "mid mod num \<noteq> 0"
proof -
  obtain d where d: "gd - ld = Suc d" using assms(1) by (metis Suc_diff_Suc)
  then have num: "num = 2 * 2 ^ d" by (simp add: num_def)
  have mid: "mid = idx div num * num + 2 ^ d" by (simp add: mid_def num minus_mod_eq_div_mult)
  have lt: "(2 :: nat) ^ d < num" by (simp add: num)
  have md: "mid mod num = 2 ^ d" "mid div num = idx div num"
    using lt unfolding mid by (simp_all add: add.commute)
  then show "mid div num = idx div num" "mid mod num \<noteq> 0" by simp_all
  have "(2 :: nat) ^ gd = 2 ^ ld * num" using assms(1) by (simp add: num_def flip: power_add)
  moreover from this have "Suc (idx div num) \<le> 2 ^ ld" using assms(2) by (intro Suc_leI less_mult_imp_div_less) simp
  then have "Suc (idx div num) * num \<le> 2 ^ ld * num" by (rule mult_le_mono1)
  moreover have "mid < Suc (idx div num) * num" using lt by (simp add: mid)
  ultimately show "mid < 2 ^ gd" by simp
qed

lemma dir_groups_placed: "dir_groups gd es \<Longrightarrow> dir_groups gd (map placed es)"
proof -
  assume g: "dir_groups gd es"
  note d = dir_groupsD [OF g]
  have "dir_shape gd (map placed es)" using d(1) by (auto simp: dir_shape_def)
  moreover have "map placed es ! j = map placed es ! i"
    if "i < 2 ^ gd" "j < 2 ^ gd" "j div 2 ^ (gd - localDepth (map placed es ! i)) = i div 2 ^ (gd - localDepth (map placed es ! i))" for i j
    using that d(2) d(4) [of i j] by simp
  ultimately show "dir_groups gd (map placed es)" unfolding dir_groups_def by blast
qed

text \<open>
  C38.  A segment split of a root at the last level is interrupted after its first store to the
  directory.  Until recovery, lookups go to both halves; recovery succeeds and takes the split
  back in the directory only, so that every lookup of a key of the group goes to the old segment,
  whose buckets the split has rewritten, and the new segment is forgotten.
\<close>

theorem wrert_recovery_undoes_split:
  assumes split: "split_interrupted z n idx s = Inr n'"
    and dir: "dir_groups (globalDepth n) (directory n)" "capacity n = 2 ^ globalDepth n"
    and idx: "idx < 2 ^ globalDepth n" "localDepth (directory n ! idx) < globalDepth n"
    and head: "prefixLength (header n) = 1" "nodeHeaderDepth (header n) = 0"
    and ptrs: "\<forall>e\<in>set (directory n). segmentPtr e < length (segs n)"
    and room: "length (segs n) < 2 ^ 39" "\<forall>i\<le>length (segs n). reloc (new, 0x1000) (of_nat (seg_place i)) < 2 ^ 48"
  shows "(\<forall>k. root_get (pool_of n') k = getSegNode n' k) \<and>
    (\<exists>m'. recoveryTree fuel new (remap new (pool_of n')) = Inr m' \<and>
      (\<forall>k. root_get m' k = getSegNode (n'\<lparr>directory := directory n\<rparr>) k))"
proof -
  let ?gd = "globalDepth n" and ?es0 = "directory n"
  let ?num = "2 ^ (?gd - localDepth (?es0 ! idx)) :: nat"
  let ?mid = "idx - idx mod ?num + ?num div 2"
  let ?e = "?es0 ! ?mid"
  from split obtain old new_s where n': "n' = n\<lparr>directory := ?es0[?mid := ?e\<lparr>localDepth := localDepth ?e + 1, segmentPtr := length (segs n)\<rparr>],
      segs := (segs n)[segmentPtr (?es0 ! idx) := old] @ [new_s]\<rparr>"
    by (auto simp: split_interrupted_def Let_def split: sum.splits)
  note mid = interrupted_middle [OF idx(2,1)]
  note g = dir_groupsD [OF dir(1)]
  have e: "?e = ?es0 ! idx" by (rule g(4) [OF idx(1) mid(1,2)])
  have len: "length (segs n') = Suc (length (segs n))" "length (directory n') = 2 ^ ?gd" "globalDepth n' = ?gd"
    "header n' = header n" "capacity n' = capacity n" by (simp_all add: n' g(2))
  have sub: "e \<in> set (directory n') \<Longrightarrow> segmentPtr e < length (segs n')" for e
    using ptrs set_update_subset_insert [of ?es0] unfolding len(1) by (force simp: n' less_SucI)
  have sub0: "e \<in> set ?es0 \<Longrightarrow> segmentPtr e < length (segs n')" for e using ptrs len(1) by (auto intro: less_SucI)
  have small: "length (segs n') < 2 ^ 40" using room(1) len(1) by simp
  have view: "getSegNode (node_view (pool_of n') ((root_in_pool n')\<lparr>pm_entries := map placed es\<rparr>)) k = getSegNode (n'\<lparr>directory := es\<rparr>) k"
    if "es = directory n' \<or> es = ?es0" for es k
    by (rule view_get [OF small]) (use that len(2,3) g(2) sub sub0 in auto)
  have own: "root_in_pool n' = (root_in_pool n')\<lparr>pm_entries := map placed (directory n')\<rparr>" by (simp add: root_in_pool_def)
  have "root_get (pool_of n') k = getSegNode (node_view (pool_of n') (root_in_pool n')) k" for k by (simp add: root_get_def)
  also have "\<dots> k = getSegNode (n'\<lparr>directory := directory n'\<rparr>) k" for k by (subst own) (rule view, simp)
  finally have "root_get (pool_of n') k = getSegNode n' k" for k by simp
  moreover have "\<exists>m'. recoveryTree fuel new (remap new (pool_of n')) = Inr m' \<and> base_ptr m' = new \<and>
    (\<forall>k. root_get m' k = getSegNode (node_view (pool_of n') ((root_in_pool n')\<lparr>pm_entries := map placed ?es0\<rparr>)) k)"
  proof (rule recovery_half_done)
    have "localDepth e' \<le> ?gd" if "e' \<in> set (directory n')" for e'
    proof -
      from that have "e' \<in> insert (?e\<lparr>localDepth := localDepth ?e + 1, segmentPtr := length (segs n)\<rparr>) (set ?es0)"
        using set_update_subset_insert [of ?es0 ?mid] by (auto simp: n')
      with g(1) idx(2) e show ?thesis by (auto simp: dir_shape_def)
    qed
    then show "dir_shape (pm_depth (root_in_pool n')) (pm_entries (root_in_pool n'))"
      using g(1) len by (auto simp: dir_shape_def)
    show "half_done (pm_depth (root_in_pool n')) (map placed ?es0) (pm_entries (root_in_pool n')) j"
      if "j < 2 ^ pm_depth (root_in_pool n')" for j
    proof -
      have j: "j < 2 ^ ?gd" using that len(3) by simp
      show ?thesis
      proof (cases "j = ?mid")
        case True
        have "directory n' ! ?mid = ?e\<lparr>localDepth := localDepth ?e + 1, segmentPtr := length (segs n)\<rparr>"
          using mid(1) g(2) by (simp add: n')
        then have "localDepth (map placed ?es0 ! ?mid) < localDepth (pm_entries (root_in_pool n') ! ?mid)"
          using mid(1) g(2) len(2) by simp
        moreover have "map placed ?es0 ! ?mid = placed (?es0 ! idx)" using mid(1) g(2) e by simp
        ultimately show ?thesis using mid(3) unfolding half_done_def True len(3) root_in_pool_simps by simp
      next
        case False
        then show ?thesis using j g(2) len(2) by (simp add: half_done_def n')
      qed
    qed
    show "pm_segs (pool_of n') (seg_addr e) \<noteq> None \<and> reloc (new, base_ptr (pool_of n')) (seg_addr e) < 2 ^ 48"
      if "e \<in> set (map placed ?es0) \<union> set (pm_entries (root_in_pool n'))" for e
    proof -
      from that sub sub0 obtain e' where "e = placed e'" "segmentPtr e' < length (segs n')" by auto
      with room(2) pool_of_seg [OF small] len(1) show ?thesis by simp
    qed
  qed (use head dir len dir_groups_placed in simp_all)
  ultimately show ?thesis using view [of ?es0] by (auto simp: len)
qed

subsection \<open>An example\<close>

text \<open>
  Two sub-keys of the upper half of the key space, whose segment has depth 1 in a directory of
  depth 2; the first is in a shared bucket and goes to the old segment, the second is in the
  main bucket that receives the first one.
\<close>

definition low_slot :: "48 word slot" where
  "low_slot = \<lparr>subKey = 0x80000000, migVersion = 0, validFlag = True, nodeFlag = False, fingerprint = 0, slot_value = 1\<rparr>"

definition high_slot :: "48 word slot" where
  "high_slot = \<lparr>subKey = 0xC0000000, migVersion = 1, validFlag = True, nodeFlag = False, fingerprint = 0, slot_value = 2\<rparr>"

definition full_seg :: "48 word segment" where
  "full_seg = set_slot (set_slot (NewWRERTSegment 0) 0 0 low_slot) 32 0 high_slot"

definition two_key_node :: "48 word wrert_node" where
  "two_key_node =
     \<lparr>header = \<lparr>nodeHeaderDepth = 0, prefixLength = 1, prefixArray = replicate 6 0\<rparr>, capacity = 4, globalDepth = 2,
      directory = [ex_entry 2 0, ex_entry 2 1, ex_entry 1 2, ex_entry 1 2],
      segs = [NewWRERTSegment 0, NewWRERTSegment 0, full_seg]\<rparr>"

lemma slot_versions: "live 1 low_slot" "live 2 high_slot" "\<not> live d (zero_slot z)"
  by (simp_all add: live_def low_slot_def high_slot_def shared_version_def zero_slot_def)

lemma zero_seg_ok:
  assumes "s \<in> {0, 16, 32}" "ld \<le> 23"
  shows "seg_ok D ld s pre (NewWRERTSegment z)" "occ ld s (NewWRERTSegment z) k = []"
proof -
  have z: "NewWRERTSegment z ! p = replicate 16 (zero_slot z)" if "p < 48" for p by (rule zero_segment_nth [OF that])
  have b: "bucket_ok d Q (replicate 16 (zero_slot z))" for d Q
    by (auto simp: bucket_ok_def slot_versions filter_empty_conv takeWhile_eq_Nil_iff)
  have p: "s + b < 48" if "b < 16" for b using assms(1) that by auto
  show o: "occ ld s (NewWRERTSegment z) k = []" for k
    using z main_pos_less shared_pos_less [OF assms(1)]
    by (simp add: occ_def sbucket_def mbucket_def hits_def slot_versions filter_empty_conv)
  show "seg_ok D ld s pre (NewWRERTSegment z)"
    unfolding seg_ok_def using assms z b p o main_pos_less
    by (auto simp: NewWRERTSegment_def zero_slot_ok) (auto simp: zero_slot_def)
qed

lemma key_bits:
  "top_bits 0x80000000 1 = 1" "top_bits 0x80000000 5 = 16" "top_bits 0x80000000 6 = 32" "top_bits 0x80000000 7 = 64" "top_bits 0x80000000 2 = 2"
  "top_bits 0xC0000000 1 = 1" "top_bits 0xC0000000 5 = 24" "top_bits 0xC0000000 6 = 48" "top_bits 0xC0000000 7 = 96" "top_bits 0xC0000000 2 = 3"
  by (simp_all add: top_bits_def)

lemma first_dead: "find_index (\<lambda>x. \<not> live d x) (replicate 16 (zero_slot z)) = Some 0"
  by (simp add: find_index_eq_Some_iff slot_versions)

lemma full_seg_ok: "seg_ok {0x80000000, 0xC0000000} 1 0 1 full_seg" "occ 1 0 full_seg 0xC0000000 = [high_slot]"
proof -
  note One_nat_def [simp del]
  let ?Z = "NewWRERTSegment 0 :: 48 word segment"
  let ?A = "set_slot ?Z 0 0 low_slot"
  have z: "seg_ok {} 1 0 1 ?Z" "\<And>k. occ 1 0 ?Z k = []" by (rule zero_seg_ok; simp)+
  have r: "role_pos 1 0 False 0x80000000 = 0" "role_pos 1 0 True 0xC0000000 = 32"
    by (simp_all add: role_pos_def key_bits main_pos_def)
  have v: "role_ver 1 False = 1" "role_ver 1 True = 2" by (simp_all add: role_ver_def)
  have f: "find_index (\<lambda>x. \<not> live (role_ver 1 False) x) (?Z ! role_pos 1 0 False 0x80000000) = Some 0"
    by (simp add: r zero_segment_nth first_dead)
  have y: "subKey low_slot = 0x80000000" "live (role_ver 1 False) low_slot" "subKey high_slot = 0xC0000000" "live (role_ver 1 True) high_slot"
    using slot_versions by (simp_all add: v) (simp_all add: low_slot_def high_slot_def)
  note w = seg_write [OF z(1) key_bits(1) z(2) f y(1,2), unfolded r]
  have a: "occ 1 0 ?A 0xC0000000 = []" using w(1) [of "0xC0000000"] z(2) by simp
  have "find_index (\<lambda>x. \<not> live (role_ver 1 True) x) (?A ! role_pos 1 0 True 0xC0000000) = Some 0"
    by (simp add: r set_slot_def NewWRERTSegment_def first_dead)
  note u = seg_write [OF w(2) key_bits(6) a this y(3,4), unfolded r, folded full_seg_def]
  from u show "seg_ok {0x80000000, 0xC0000000} 1 0 1 full_seg" "occ 1 0 full_seg 0xC0000000 = [high_slot]"
    by (simp_all add: insert_commute)
qed

lemma two_key_node_ok: "node_ok {0x80000000, 0xC0000000} two_key_node"
proof -
  have four: "i < 4 \<longleftrightarrow> i = 0 \<or> i = 1 \<or> i = 2 \<or> i = 3" for i :: nat by auto
  have z: "seg_ok D 2 0 pre (NewWRERTSegment 0 :: 48 word segment)" for D pre by (rule zero_seg_ok) simp_all
  show ?thesis
    unfolding node_ok_def Let_def using full_seg_ok(1) z
    by (simp add: two_key_node_def four nth_Cons' ex_entry_def [THEN arg_cong [where f = segmentPtr]] One_nat_def [symmetric] del: One_nat_def)
qed

subsection \<open>The split\<close>

definition old_seg :: "48 word segment" where
  "old_seg = set_slot full_seg 32 0 (new_ver 2 low_slot)"

definition new_seg :: "48 word segment" where
  "new_seg = take 16 (drop 32 full_seg) @ drop 16 (NewWRERTSegment 0)"

lemma full_seg_nth:
  "full_seg ! 0 = low_slot # replicate 15 (zero_slot 0)" "full_seg ! 32 = high_slot # replicate 15 (zero_slot 0)"
  "p \<noteq> 0 \<Longrightarrow> p \<noteq> 32 \<Longrightarrow> p < 48 \<Longrightarrow> full_seg ! p = replicate 16 (zero_slot 0)" "length full_seg = 48"
proof -
  have "replicate 16 (zero_slot 0) = zero_slot (0 :: 48 word) # replicate 15 (zero_slot 0)" by (simp add: eval_nat_numeral)
  then show "full_seg ! 0 = low_slot # replicate 15 (zero_slot 0)" "full_seg ! 32 = high_slot # replicate 15 (zero_slot 0)"
    by (simp_all add: full_seg_def set_slot_def NewWRERTSegment_def)
  show "p \<noteq> 0 \<Longrightarrow> p \<noteq> 32 \<Longrightarrow> p < 48 \<Longrightarrow> full_seg ! p = replicate 16 (zero_slot 0)" "length full_seg = 48"
    by (simp_all add: full_seg_def set_slot_def NewWRERTSegment_def)
qed

lemma split_full_seg:
  assumes "lo 0x80000000"
  shows "split_segment 0 hi lo 1 0 0 full_seg = Inr (new_seg, old_seg)"
proof -
  note One_nat_def [simp del]
  have tl: "takeWhile (live 1) (replicate n (zero_slot (0 :: 48 word))) = []" for n
    by (simp add: takeWhile_eq_Nil_iff slot_versions)
  have up: "concat (map (takeWhile (live 1)) (take 8 (drop 8 full_seg))) = []"
    using tl by (auto simp: in_set_conv_nth full_seg_nth slot_versions)
  have buf: "take 8 (drop 0 full_seg) = full_seg ! 0 # map (\<lambda>i. full_seg ! Suc i) [0..<7]"
    by (intro nth_equalityI) (auto simp: full_seg_nth nth_Cons split: nat.splits)
  have "concat (map (takeWhile (live 1)) (take 8 (drop 0 full_seg))) = [low_slot]"
    unfolding buf using tl by (auto simp: full_seg_nth slot_versions)
  moreover have "main_bucket_index 0x80000000 2 = 0" "subKey low_slot = 0x80000000"
    by (simp_all add: main_bucket_index_eq key_bits low_slot_def)
  ultimately have b: "mig_buckets lo (shared_version 1) 2 16 (take 8 full_seg) (replicate 32 0, full_seg) =
      Inr ((replicate 32 0)[0 := Suc 0], old_seg)"
    using assms by (subst mig_buckets_place) (simp add: calcBucketPosition_def old_seg_def)
  have "mig_buckets hi (shared_version 1) 2 0 (take 8 (drop 8 full_seg)) st = Inr st" for st
    by (subst mig_buckets_place) (simp only: up filter.simps place_all.simps)
  with b show ?thesis by (simp add: split_segment_def Let_def new_seg_def)
qed

lemma split_interrupted_node:
  "split_interrupted 0 two_key_node 3 0 = Inr (two_key_node\<lparr>directory := [ex_entry 2 0, ex_entry 2 1, ex_entry 1 2, ex_entry 2 3],
     segs := [NewWRERTSegment 0, NewWRERTSegment 0, old_seg, new_seg]\<rparr>)"
proof -
  have u: "(directory two_key_node)[3 := x] = [ex_entry 2 0, ex_entry 2 1, ex_entry 1 2, x]"
    "(segs two_key_node)[2 := y] @ [z] = [NewWRERTSegment 0, NewWRERTSegment 0, y, z]" for x y z
    by (simp_all add: two_key_node_def eval_nat_numeral)
  note One_nat_def [simp del]
  have g: "get_segment_number 0x80000000 2 = 2" by (simp add: get_segment_number_eq key_bits)
  have n: "directory two_key_node ! 3 = ex_entry 1 2" "globalDepth two_key_node = 2" "segs two_key_node ! 2 = full_seg"
    "length (segs two_key_node) = 3" by (simp_all add: two_key_node_def)
  have e: "(ex_entry 1 2)\<lparr>localDepth := 2, segmentPtr := 3\<rparr> = ex_entry 2 3" "segmentPtr (ex_entry 1 2) = 2"
    by (simp_all add: ex_entry_def)
  show ?thesis
    using g by (simp add: split_interrupted_def Let_def n e u split_full_seg)
qed

subsection \<open>Lookups\<close>

lemma getSegNode_absent:
  fixes n :: "'v wrert_node" and k
  defines "e \<equiv> segment_node_of n k"
  defines "sg \<equiv> segs n ! segmentPtr e"
  assumes "\<not> bad_depths n k" "\<And>x. x \<in> set (sg ! shared_position e k) \<Longrightarrow> \<not> live (localDepth e) x"
    "\<And>x. x \<in> set (sg ! main_position e k) \<Longrightarrow> \<not> live (Suc (localDepth e)) x"
  shows "getSegNode n k = Inr None"
proof -
  have "find_index (lane (key_match (shared_version d) k)) (lanes i b) = None" if "\<And>x. x \<in> set b \<Longrightarrow> \<not> live d x" for d i b
    using that by (auto simp: lane_key_match lanes_def dest!: in_set_takeD in_set_dropD)
  from this [OF assms(4)] this [OF assms(5)]
  have "find_key (shared_version (localDepth e)) (main_version (localDepth e)) k (sg ! shared_position e k) (sg ! main_position e k) i = None" for i
    by (simp only: find_key_def main_version_eq option.case option.map)
  with assms(3) show ?thesis by (simp add: getSegNode_def Let_def e_def sg_def)
qed

lemma high_positions:
  "get_segment_number 0xC0000000 2 = 3" "shared_bucket_index 0xC0000000 2 = 0"
  "shared_bucket_index 0xC0000000 1 = 8" "main_bucket_index 0xC0000000 1 = 16"
  by (simp_all add: get_segment_number_eq shared_bucket_index_eq main_bucket_index_eq key_bits One_nat_def [symmetric] del: One_nat_def)

lemma ex_entry_ptr: "segmentPtr (ex_entry ld p) = p"
  by (simp add: ex_entry_def)

lemma high_key: "subKey high_slot = 0xC0000000"
  by (simp add: high_slot_def)

lemma old_seg_nth: "old_seg ! 8 = replicate 16 (zero_slot 0)" "old_seg ! 32 = new_ver 2 low_slot # replicate 15 (zero_slot 0)"
  by (simp_all add: old_seg_def set_slot_def full_seg_nth)

lemma new_seg_nth: "new_seg ! 0 = high_slot # replicate 15 (zero_slot 0)"
  by (simp add: new_seg_def nth_append full_seg_nth)

theorem wrert_recovery_undoes_split_witness:
  "node_ok {0x80000000, 0xC0000000} two_key_node \<and>
   (\<exists>n m'. split_interrupted 0 two_key_node 3 0 = Inr n \<and> root_get (pool_of n) 0xC0000000 = Inr (Some high_slot) \<and>
      recoveryTree 0 0x100000000 (remap 0x100000000 (pool_of n)) = Inr m' \<and> root_get m' 0xC0000000 = Inr None)"
proof -
  let ?n = "two_key_node\<lparr>directory := [ex_entry 2 0, ex_entry 2 1, ex_entry 1 2, ex_entry 2 3],
     segs := [NewWRERTSegment 0, NewWRERTSegment 0, old_seg, new_seg]\<rparr>"
  have four: "i < 4 \<longleftrightarrow> i = 0 \<or> i = 1 \<or> i = 2 \<or> i = 3" "i \<le> 3 \<longleftrightarrow> i = 0 \<or> i = 1 \<or> i = 2 \<or> i = 3" for i :: nat by auto
  have n: "globalDepth two_key_node = 2" "directory two_key_node = [ex_entry 2 0, ex_entry 2 1, ex_entry 1 2, ex_entry 1 2]"
    "capacity two_key_node = 4" "length (segs two_key_node) = 3" "header two_key_node = \<lparr>nodeHeaderDepth = 0, prefixLength = 1, prefixArray = replicate 6 0\<rparr>"
    by (simp_all add: two_key_node_def)
  have "(\<forall>k. root_get (pool_of ?n) k = getSegNode ?n k) \<and>
    (\<exists>m'. recoveryTree 0 0x100000000 (remap 0x100000000 (pool_of ?n)) = Inr m' \<and>
      (\<forall>k. root_get m' k = getSegNode (?n\<lparr>directory := directory two_key_node\<rparr>) k))"
    by (rule wrert_recovery_undoes_split [OF split_interrupted_node])
      (auto simp: n dir_groups_def dir_shape_def four nth_Cons' ex_entry_ptr seg_place_def reloc_def)
  moreover have "getSegNode ?n 0xC0000000 = Inr (Some high_slot)"
    by (rule getSegNode_first)
      (simp_all add: bad_depths_def segment_node_of_def two_key_node_def high_positions shared_position_def new_seg_nth
        slot_versions ex_entry_ptr high_key)
  moreover have "getSegNode (?n\<lparr>directory := directory two_key_node\<rparr>) 0xC0000000 = Inr None"
    by (rule getSegNode_absent)
      (auto simp: bad_depths_def segment_node_of_def two_key_node_def high_positions high_positions(3,4) [unfolded One_nat_def] zero_slot_def shared_position_def main_position_def
        calcBucketPosition_def old_seg_nth ex_entry_ptr slot_versions live_def main_version_eq shared_version_def)
  ultimately show ?thesis using split_interrupted_node two_key_node_ok by auto
qed

end
