(* ===== verification/Roart_Node.thy ===== *)
theory Roart_Node
  imports Prelude
begin

text \<open>
  The four node layouts of \<^verbatim>\<open>roart/roart_node.cpp\<close> and \<^verbatim>\<open>roart/roart_node.h\<close>, without
  \<^verbatim>\<open>ZENTRY\<close>, which the build does not define: inserting, changing, finding, removing and listing
  children, and the growth, compaction and shrinking between layouts.

  A value of type \<open>'a body\<close> is a node without its header: its arrays, and the fields \<open>count\<close>
  and \<open>compactCount\<close> of class \<^verbatim>\<open>N\<close>.  Slots of the three small layouts are handed out in
  order and are not reused when their child is removed; a null pointer is \<open>None\<close>.  The lock
  operations around these functions are in \<open>Roart_Lock\<close>.
\<close>

subsection \<open>Layouts\<close>

datatype 'a layout =
    N4 "u8 list" "'a option list"      \<comment> \<open>keys, children\<close>
  | N16 "u8 list" "'a option list"     \<comment> \<open>keys with their sign bit flipped, children\<close>
  | N48 "nat list" "'a option list"    \<comment> \<open>childIndex, 48 for absent; children\<close>
  | N256 "'a option list"

datatype 'a body = Body (layout: "'a layout") (count: nat) (compactCount: nat)

definition capacity :: "'a layout \<Rightarrow> nat" where
  "capacity l = (case l of N4 _ _ \<Rightarrow> 4 | N16 _ _ \<Rightarrow> 16 | N48 _ _ \<Rightarrow> 48 | N256 _ \<Rightarrow> 256)"

text \<open>The counters are 16 bits wide.\<close>

definition inc16 :: "nat \<Rightarrow> nat" where "inc16 c = (c + 1) mod 65536"
definition dec16 :: "nat \<Rightarrow> nat" where "dec16 c = (c + 65535) mod 65536"

definition flipSign :: "u8 \<Rightarrow> u8" where "flipSign k = k XOR 128"

definition new_N4 :: "'a body" where "new_N4 = Body (N4 (replicate 4 0) (replicate 4 None)) 0 0"
definition new_N16 :: "'a body" where "new_N16 = Body (N16 (replicate 16 0) (replicate 16 None)) 0 0"
definition new_N48 :: "'a body" where "new_N48 = Body (N48 (replicate 256 48) (replicate 48 None)) 0 0"
definition new_N256 :: "'a body" where "new_N256 = Body (N256 (replicate 256 None)) 0 0"

subsection \<open>Finding a child\<close>

text \<open>
  The first of \<open>m\<close> slots with key \<open>k\<close> and a child: a loop in N4, a SIMD comparison whose mask
  is walked from its lowest bit in N16.
\<close>

definition key_slot :: "u8 list \<Rightarrow> 'a option list \<Rightarrow> nat \<Rightarrow> u8 \<Rightarrow> nat option" where
  "key_slot ks cs m k = find_index (\<lambda>i. cs ! i \<noteq> None \<and> ks ! i = k) [0..<m]"

text \<open>Reads stay inside the arrays; the guard makes the functions of the tree total.\<close>

definition at_slot :: "'a option list \<Rightarrow> nat \<Rightarrow> 'a option" where
  "at_slot cs i = (if i < length cs then cs ! i else None)"

lemma at_slot_in: "i < length cs \<Longrightarrow> at_slot cs i = cs ! i"
  by (simp add: at_slot_def)

definition N4_getChild :: "u8 list \<Rightarrow> 'a option list \<Rightarrow> u8 \<Rightarrow> 'a option" where
  "N4_getChild ks cs k = (case key_slot ks cs 4 k of None \<Rightarrow> None | Some i \<Rightarrow> at_slot cs i)"

definition N16_getChild :: "u8 list \<Rightarrow> 'a option list \<Rightarrow> u8 \<Rightarrow> 'a option" where
  "N16_getChild ks cs k = (case key_slot ks cs 16 (flipSign k) of None \<Rightarrow> None | Some i \<Rightarrow> at_slot cs i)"

definition N48_getChild :: "nat list \<Rightarrow> 'a option list \<Rightarrow> u8 \<Rightarrow> 'a option" where
  "N48_getChild ci cs k = (if ci ! unat k = 48 then None else at_slot cs (ci ! unat k))"

definition N256_getChild :: "'a option list \<Rightarrow> u8 \<Rightarrow> 'a option" where
  "N256_getChild cs k = at_slot cs (unat k)"

definition getChild :: "'a body \<Rightarrow> u8 \<Rightarrow> 'a option" where
  "getChild b k =
     (case layout b of
        N4 ks cs \<Rightarrow> N4_getChild ks cs k
      | N16 ks cs \<Rightarrow> N16_getChild ks cs k
      | N48 ci cs \<Rightarrow> N48_getChild ci cs k
      | N256 cs \<Rightarrow> N256_getChild cs k)"

lemmas getChild_defs = getChild_def N4_getChild_def N16_getChild_def N48_getChild_def N256_getChild_def

definition getChildPos :: "u8 list \<Rightarrow> 'a option list \<Rightarrow> nat \<Rightarrow> u8 \<Rightarrow> nat option" where
  "getChildPos ks cs cc k = key_slot ks cs cc (flipSign k)"

subsection \<open>Inserting and changing\<close>

text \<open>\<open>None\<close> is the result \<^verbatim>\<open>false\<close>: no free slot at the end.\<close>

definition N4_insert :: "u8 list \<Rightarrow> 'a option list \<Rightarrow> nat \<Rightarrow> nat \<Rightarrow> u8 \<Rightarrow> 'a \<Rightarrow> 'a body option" where
  "N4_insert ks cs c cc k x =
     (if cc = 4 then None else Some (Body (N4 (ks[cc := k]) (cs[cc := Some x])) (inc16 c) (inc16 cc)))"

definition N16_insert :: "u8 list \<Rightarrow> 'a option list \<Rightarrow> nat \<Rightarrow> nat \<Rightarrow> u8 \<Rightarrow> 'a \<Rightarrow> 'a body option" where
  "N16_insert ks cs c cc k x =
     (if cc = 16 then None else Some (Body (N16 (ks[cc := flipSign k]) (cs[cc := Some x])) (inc16 c) (inc16 cc)))"

definition N48_insert :: "nat list \<Rightarrow> 'a option list \<Rightarrow> nat \<Rightarrow> nat \<Rightarrow> u8 \<Rightarrow> 'a \<Rightarrow> 'a body option" where
  "N48_insert ci cs c cc k x =
     (if cc = 48 then None else Some (Body (N48 (ci[unat k := cc]) (cs[cc := Some x])) (inc16 c) (inc16 cc)))"

definition N256_insert :: "'a option list \<Rightarrow> nat \<Rightarrow> nat \<Rightarrow> u8 \<Rightarrow> 'a \<Rightarrow> 'a body option" where
  "N256_insert cs c cc k x = Some (Body (N256 (cs[unat k := Some x])) (inc16 c) cc)"

definition n_insert :: "'a body \<Rightarrow> u8 \<Rightarrow> 'a \<Rightarrow> 'a body option" where
  "n_insert b k x =
     (case layout b of
        N4 ks cs \<Rightarrow> N4_insert ks cs (count b) (compactCount b) k x
      | N16 ks cs \<Rightarrow> N16_insert ks cs (count b) (compactCount b) k x
      | N48 ci cs \<Rightarrow> N48_insert ci cs (count b) (compactCount b) k x
      | N256 cs \<Rightarrow> N256_insert cs (count b) (compactCount b) k x)"

lemmas n_insert_defs = n_insert_def N4_insert_def N16_insert_def N48_insert_def N256_insert_def

text \<open>N4 does nothing when the key is missing, N16 and N48 assert that it is there.\<close>

definition N4_change :: "u8 list \<Rightarrow> 'a option list \<Rightarrow> nat \<Rightarrow> u8 \<Rightarrow> 'a \<Rightarrow> 'a layout res" where
  "N4_change ks cs cc k x =
     Inr (N4 ks (case key_slot ks cs cc k of None \<Rightarrow> cs | Some i \<Rightarrow> cs[i := Some x]))"

definition N16_change :: "u8 list \<Rightarrow> 'a option list \<Rightarrow> nat \<Rightarrow> u8 \<Rightarrow> 'a \<Rightarrow> 'a layout res" where
  "N16_change ks cs cc k x =
     (case getChildPos ks cs cc k of None \<Rightarrow> Inl Exited | Some i \<Rightarrow> Inr (N16 ks (cs[i := Some x])))"

definition N48_change :: "nat list \<Rightarrow> 'a option list \<Rightarrow> u8 \<Rightarrow> 'a \<Rightarrow> 'a layout res" where
  "N48_change ci cs k x =
     (if ci ! unat k = 48 then Inl Exited else Inr (N48 ci (cs[ci ! unat k := Some x])))"

definition N256_change :: "'a option list \<Rightarrow> u8 \<Rightarrow> 'a \<Rightarrow> 'a layout res" where
  "N256_change cs k x = Inr (N256 (cs[unat k := Some x]))"

definition n_change :: "'a body \<Rightarrow> u8 \<Rightarrow> 'a \<Rightarrow> 'a body res" where
  "n_change b k x =
     map_sum id (\<lambda>l. Body l (count b) (compactCount b))
       (case layout b of
          N4 ks cs \<Rightarrow> N4_change ks cs (compactCount b) k x
        | N16 ks cs \<Rightarrow> N16_change ks cs (compactCount b) k x
        | N48 ci cs \<Rightarrow> N48_change ci cs k x
        | N256 cs \<Rightarrow> N256_change cs k x)"

lemmas n_change_defs = n_change_def N4_change_def N16_change_def N48_change_def N256_change_def

subsection \<open>Removing\<close>

text \<open>
  \<open>Inr None\<close> is \<^verbatim>\<open>false\<close>: in N4 the key is missing, in the others so few children are left that
  the node should shrink, unless \<open>force\<close>.
\<close>

definition N4_remove :: "u8 list \<Rightarrow> 'a option list \<Rightarrow> nat \<Rightarrow> u8 \<Rightarrow> 'a layout option res" where
  "N4_remove ks cs cc k = Inr (map_option (\<lambda>i. N4 ks (cs[i := None])) (key_slot ks cs cc k))"

definition N16_remove :: "u8 list \<Rightarrow> 'a option list \<Rightarrow> nat \<Rightarrow> nat \<Rightarrow> u8 \<Rightarrow> bool \<Rightarrow> 'a layout option res" where
  "N16_remove ks cs c cc k force =
     (if c \<le> 3 \<and> \<not> force then Inr None
      else (case getChildPos ks cs cc k of
              None \<Rightarrow> Inl Exited
            | Some i \<Rightarrow>
                let cs' = cs[i := None] in
                if N16_getChild ks cs' k = None then Inr (Some (N16 ks cs')) else Inl Exited))"

definition N48_remove :: "nat list \<Rightarrow> 'a option list \<Rightarrow> nat \<Rightarrow> u8 \<Rightarrow> bool \<Rightarrow> 'a layout option res" where
  "N48_remove ci cs c k force =
     (if c \<le> 12 \<and> \<not> force then Inr None
      else if ci ! unat k = 48 then Inl Exited
      else Inr (Some (N48 ci (cs[ci ! unat k := None]))))"

definition N256_remove :: "'a option list \<Rightarrow> nat \<Rightarrow> u8 \<Rightarrow> bool \<Rightarrow> 'a layout option res" where
  "N256_remove cs c k force =
     (if c \<le> 37 \<and> \<not> force then Inr None else Inr (Some (N256 (cs[unat k := None]))))"

definition n_remove :: "'a body \<Rightarrow> u8 \<Rightarrow> bool \<Rightarrow> 'a body option res" where
  "n_remove b k force =
     map_sum id (map_option (\<lambda>l. Body l (dec16 (count b)) (compactCount b)))
       (case layout b of
          N4 ks cs \<Rightarrow> N4_remove ks cs (compactCount b) k
        | N16 ks cs \<Rightarrow> N16_remove ks cs (count b) (compactCount b) k force
        | N48 ci cs \<Rightarrow> N48_remove ci cs (count b) k force
        | N256 cs \<Rightarrow> N256_remove cs (count b) k force)"

lemmas n_remove_defs = n_remove_def N4_remove_def N16_remove_def N48_remove_def N256_remove_def

subsection \<open>Listing children\<close>

definition slot_entries :: "(u8 \<Rightarrow> u8) \<Rightarrow> u8 list \<Rightarrow> 'a option list \<Rightarrow> nat \<Rightarrow> (u8 \<times> 'a) list" where
  "slot_entries f ks cs m =
     concat (map (\<lambda>i. case at_slot cs i of None \<Rightarrow> [] | Some c \<Rightarrow> [(f (ks ! i), c)]) [0..<m])"

definition index_entries :: "nat list \<Rightarrow> 'a option list \<Rightarrow> nat list \<Rightarrow> (u8 \<times> 'a) list" where
  "index_entries ci cs bs =
     concat (map (\<lambda>j. if ci ! j = 48 then []
                       else case at_slot cs (ci ! j) of None \<Rightarrow> [] | Some c \<Rightarrow> [(of_nat j, c)]) bs)"

definition array_entries :: "'a option list \<Rightarrow> nat list \<Rightarrow> (u8 \<times> 'a) list" where
  "array_entries cs bs =
     concat (map (\<lambda>j. case at_slot cs j of None \<Rightarrow> [] | Some c \<Rightarrow> [(of_nat j, c)]) bs)"

text \<open>The children in the order of \<open>copyTo\<close>.\<close>

definition entries :: "'a body \<Rightarrow> (u8 \<times> 'a) list" where
  "entries b =
     (case layout b of
        N4 ks cs \<Rightarrow> slot_entries (\<lambda>k. k) ks cs (compactCount b)
      | N16 ks cs \<Rightarrow> slot_entries flipSign ks cs (compactCount b)
      | N48 ci cs \<Rightarrow> index_entries ci cs [0..<256]
      | N256 cs \<Rightarrow> array_entries cs [0..<256])"

text \<open>The children of a range of bytes; the small layouts sort them by their keys.\<close>

definition inside :: "u8 \<Rightarrow> u8 \<Rightarrow> u8 \<times> 'a \<Rightarrow> bool" where
  "inside lo hi e \<longleftrightarrow> lo \<le> fst e \<and> fst e \<le> hi"

definition N4_getChildren :: "u8 list \<Rightarrow> 'a option list \<Rightarrow> u8 \<Rightarrow> u8 \<Rightarrow> (u8 \<times> 'a) list" where
  "N4_getChildren ks cs lo hi = sort_key fst (filter (inside lo hi) (slot_entries (\<lambda>k. k) ks cs 4))"

definition N16_getChildren :: "u8 list \<Rightarrow> 'a option list \<Rightarrow> nat \<Rightarrow> u8 \<Rightarrow> u8 \<Rightarrow> (u8 \<times> 'a) list" where
  "N16_getChildren ks cs cc lo hi = sort_key fst (filter (inside lo hi) (slot_entries flipSign ks cs cc))"

definition N48_getChildren :: "nat list \<Rightarrow> 'a option list \<Rightarrow> u8 \<Rightarrow> u8 \<Rightarrow> (u8 \<times> 'a) list" where
  "N48_getChildren ci cs lo hi = index_entries ci cs [unat lo..<Suc (unat hi)]"

definition N256_getChildren :: "'a option list \<Rightarrow> u8 \<Rightarrow> u8 \<Rightarrow> (u8 \<times> 'a) list" where
  "N256_getChildren cs lo hi = array_entries cs [unat lo..<Suc (unat hi)]"

definition getChildren :: "'a body \<Rightarrow> u8 \<Rightarrow> u8 \<Rightarrow> (u8 \<times> 'a) list" where
  "getChildren b lo hi =
     (case layout b of
        N4 ks cs \<Rightarrow> N4_getChildren ks cs lo hi
      | N16 ks cs \<Rightarrow> N16_getChildren ks cs (compactCount b) lo hi
      | N48 ci cs \<Rightarrow> N48_getChildren ci cs lo hi
      | N256 cs \<Rightarrow> N256_getChildren cs lo hi)"

lemmas getChildren_defs =
  getChildren_def N4_getChildren_def N16_getChildren_def N48_getChildren_def N256_getChildren_def inside_def

text \<open>The number of children, counted up to 3.\<close>

definition count_loop :: "bool list \<Rightarrow> nat" where
  "count_loop here = fold (\<lambda>h n. if n < 3 \<and> h then Suc n else n) here 0"

definition N4_getCount :: "'a option list \<Rightarrow> nat \<Rightarrow> nat" where
  "N4_getCount cs cc = count_loop (map (\<lambda>i. at_slot cs i \<noteq> None) [0..<cc])"

definition N16_getCount :: "'a option list \<Rightarrow> nat \<Rightarrow> nat" where
  "N16_getCount cs cc = count_loop (map (\<lambda>i. at_slot cs i \<noteq> None) [0..<cc])"

definition N48_getCount :: "nat list \<Rightarrow> 'a option list \<Rightarrow> nat" where
  "N48_getCount ci cs = count_loop (map (\<lambda>i. ci ! i \<noteq> 48 \<and> at_slot cs (ci ! i) \<noteq> None) [0..<256])"

definition N256_getCount :: "'a option list \<Rightarrow> nat" where
  "N256_getCount cs = count_loop (map (\<lambda>i. at_slot cs i \<noteq> None) [0..<256])"

definition getCount :: "'a body \<Rightarrow> nat" where
  "getCount b =
     (case layout b of
        N4 ks cs \<Rightarrow> N4_getCount cs (compactCount b)
      | N16 ks cs \<Rightarrow> N16_getCount cs (compactCount b)
      | N48 ci cs \<Rightarrow> N48_getCount ci cs
      | N256 cs \<Rightarrow> N256_getCount cs)"

definition child_slots :: "'a body \<Rightarrow> 'a option list" where
  "child_slots b = (case layout b of N4 ks cs \<Rightarrow> cs | N16 ks cs \<Rightarrow> cs | N48 ci cs \<Rightarrow> cs | N256 cs \<Rightarrow> cs)"

definition live_children :: "'a body \<Rightarrow> 'a list" where
  "live_children b = concat (map (\<lambda>c. case c of None \<Rightarrow> [] | Some x \<Rightarrow> [x]) (child_slots b))"

text \<open>The first child that is a leaf; without one, the last child.\<close>

definition getAnyChild :: "('a \<Rightarrow> bool) \<Rightarrow> 'a body \<Rightarrow> 'a option" where
  "getAnyChild leaf b =
     (let cs = live_children b in
      case find_index leaf cs of
        Some i \<Rightarrow> Some (cs ! i)
      | None \<Rightarrow> if cs = [] then None else Some (last cs))"

text \<open>The first child under another key, for N4 only.\<close>

definition getSecondChild :: "'a body \<Rightarrow> u8 \<Rightarrow> ('a \<times> u8) option res" where
  "getSecondChild b k =
     (case layout b of
        N4 ks cs \<Rightarrow>
          Inr (map_option (\<lambda>i. (the (cs ! i), ks ! i))
                 (find_index (\<lambda>i. cs ! i \<noteq> None \<and> ks ! i \<noteq> k) [0..<compactCount b]))
      | _ \<Rightarrow> Inl Exited)"

subsection \<open>Changing the layout\<close>

text \<open>The result of \<open>insert\<close> is ignored: a child that does not fit is dropped.\<close>

definition insert_or_drop :: "'a body \<Rightarrow> u8 \<Rightarrow> 'a \<Rightarrow> 'a body" where
  "insert_or_drop b k x = (case n_insert b k x of None \<Rightarrow> b | Some b' \<Rightarrow> b')"

definition copyTo :: "'a body \<Rightarrow> 'a body \<Rightarrow> 'a body" where
  "copyTo b new = fold (\<lambda>(k, c) n. insert_or_drop n k c) (entries b) new"

definition copy_insert :: "'a body \<Rightarrow> 'a body \<Rightarrow> u8 \<Rightarrow> 'a \<Rightarrow> 'a body" where
  "copy_insert new b k x = insert_or_drop (copyTo b new) k x"

definition insert_or_grow :: "'a body \<Rightarrow> 'a body \<Rightarrow> u8 \<Rightarrow> 'a \<Rightarrow> 'a body" where
  "insert_or_grow big b k x = (case n_insert b k x of Some b' \<Rightarrow> b' | None \<Rightarrow> copy_insert big b k x)"

text \<open>
  The node after an insertion: the same one, a compacted copy when removed children have used
  up its slots, or one of the next layout; the caller stores it in the parent.
\<close>

definition insertAndUnlock :: "'a body \<Rightarrow> u8 \<Rightarrow> 'a \<Rightarrow> 'a body" where
  "insertAndUnlock b k x =
     (case layout b of
        N4 ks cs \<Rightarrow>
          if compactCount b = 4 \<and> count b \<le> 3 then copy_insert new_N4 b k x else insert_or_grow new_N16 b k x
      | N16 ks cs \<Rightarrow>
          if compactCount b = 16 \<and> count b \<le> 14 then copy_insert new_N16 b k x else insert_or_grow new_N48 b k x
      | N48 ci cs \<Rightarrow>
          if compactCount b = 48 \<and> count b \<noteq> 48 then copy_insert new_N48 b k x else insert_or_grow new_N256 b k x
      | N256 cs \<Rightarrow> insert_or_drop b k x)"

text \<open>Without a parent, at the root, children are removed by force; shrinking needs the parent.\<close>

definition removeAndShrink :: "'a body \<Rightarrow> 'a body \<Rightarrow> u8 \<Rightarrow> bool \<Rightarrow> 'a body res" where
  "removeAndShrink small b k root =
     (case n_remove b k root of
        Inl e \<Rightarrow> Inl e
      | Inr (Some b') \<Rightarrow> Inr b'
      | Inr None \<Rightarrow>
          if root then Inl NullDeref
          else (case n_remove b k True of
                  Inl e \<Rightarrow> Inl e
                | Inr None \<Rightarrow> Inr (copyTo b small)
                | Inr (Some b') \<Rightarrow> Inr (copyTo b' small)))"

definition removeAndUnlock :: "'a body \<Rightarrow> u8 \<Rightarrow> bool \<Rightarrow> 'a body res" where
  "removeAndUnlock b k root =
     (case layout b of
        N4 ks cs \<Rightarrow> map_sum id (\<lambda>r. case r of None \<Rightarrow> b | Some b' \<Rightarrow> b') (n_remove b k False)
      | N16 ks cs \<Rightarrow> removeAndShrink new_N4 b k root
      | N48 ci cs \<Rightarrow> removeAndShrink new_N16 b k root
      | N256 cs \<Rightarrow> removeAndShrink new_N48 b k root)"

subsection \<open>Rebuilding the counters\<close>

text \<open>
  \<open>rebuild_node\<close> recomputes the two counters from the children.  As in the source,
  \<open>compactCount\<close> is the index of the last child, not the number of slots up to it.
\<close>

definition rebuild_counts :: "'a body \<Rightarrow> 'a body" where
  "rebuild_counts b =
     (let cs = child_slots b; used = filter (\<lambda>i. cs ! i \<noteq> None) [0..<length cs] in
      Body (layout b) (length used) (if used = [] then 0 else last used))"

end
