(* ===== verification/Roart.thy ===== *)
theory Roart
  imports Roart_Node
begin

text \<open>
  The persistent adaptive radix tree of \<^verbatim>\<open>roart/roart.cpp\<close>, without \<^verbatim>\<open>LEAF_ARRAY\<close> and
  \<^verbatim>\<open>KEY_INLINE\<close>, which the build does not define: lookup, insertion, update, removal, range
  lookup and the memory profile, as one thread executes them.

  A node is a tagged leaf, with the bytes of its key and its 8-byte value, or a header with a
  \<open>body\<close>.  Every node is reached through one pointer, so what an operation stores in the parent
  is the node it returns.  With one thread every lock is free when it is taken, and a version
  read before has changed only when the same operation has repaired the node's prefix in
  between; then the code starts again from the root.
\<close>

subsection \<open>Nodes and keys\<close>

record rhead =
  level :: nat
  prefixCount :: nat
  prefix_bytes :: "u8 list"      \<comment> \<open>four of them; those the code leaves uninitialised are 0\<close>

datatype rnode =
    RLeaf "u8 list" u64          \<comment> \<open>key, value\<close>
  | RNode rhead "rnode body"

definition is_leaf :: "rnode \<Rightarrow> bool" where
  "is_leaf n = (case n of RLeaf k v \<Rightarrow> True | RNode h b \<Rightarrow> False)"

lemma is_leaf_simps [simp]: "is_leaf (RLeaf k v)" "\<not> is_leaf (RNode h b)"
  by (simp_all add: is_leaf_def)

definition key_bytes :: "u64 \<Rightarrow> u8 list" where
  "key_bytes key = map (\<lambda>i. ucast (drop_bit ((7 - i) * 8) key AND 255)) [0..<8]"

record roart_key =
  k_value :: u64
  key_len :: nat
  val_len :: nat
  k_key :: u64
  fkey :: "u8 list"

definition ROART_KEY :: "u64 \<Rightarrow> nat \<Rightarrow> u64 \<Rightarrow> roart_key" where
  "ROART_KEY k len v = \<lparr>k_value = v, key_len = len, val_len = 8, k_key = k, fkey = key_bytes k\<rparr>"

definition checkKey :: "u8 list \<Rightarrow> nat \<Rightarrow> u8 list \<Rightarrow> bool" where
  "checkKey lk len fk \<longleftrightarrow> length lk = len \<and> take len lk = take len fk"

definition new_roart :: rnode where
  "new_roart = RNode \<lparr>level = 0, prefixCount = 0, prefix_bytes = replicate 4 0\<rparr> new_N256"

text \<open>\<open>setPrefix\<close>: at most four of the bytes are stored.\<close>

definition setPrefix :: "rhead \<Rightarrow> u8 list \<Rightarrow> nat \<Rightarrow> rhead" where
  "setPrefix h bs len =
     h\<lparr>prefixCount := len, prefix_bytes := take (min len 4) bs @ replicate (4 - min len 4) 0\<rparr>"

definition new_head :: "nat \<Rightarrow> u8 list \<Rightarrow> nat \<Rightarrow> rhead" where
  "new_head lev bs len = setPrefix \<lparr>level = lev, prefixCount = 0, prefix_bytes = replicate 4 0\<rparr> bs len"

lemma child_slots_size: "Some x \<in> set (child_slots b) \<Longrightarrow> f x < size_body f b"
proof (cases b)
  case (Body l c cc)
  assume "Some x \<in> set (child_slots b)"
  then have "size_option f (Some x) \<le> size_layout f l"
    using size_list_estimation' [of "Some x" "child_slots b" "size_option f (Some x)" "size_option f"]
    by (cases l) (auto simp: Body child_slots_def)
  then show ?thesis by (simp add: Body)
qed

lemma live_children_size: "x \<in> set (live_children b) \<Longrightarrow> f x < size_body f b"
  by (rule child_slots_size) (auto simp: live_children_def split: option.splits)

lemma getAnyChild_in: "getAnyChild leaf b = Some x \<Longrightarrow> x \<in> set (live_children b)"
  by (auto simp: getAnyChild_def Let_def split: option.splits if_splits dest: find_index_SomeD)

text \<open>The key of the leaf found by following \<open>getAnyChild\<close>; a node without children is an assertion.\<close>

function getAnyChildTid :: "rnode \<Rightarrow> u8 list res" where
  "getAnyChildTid (RLeaf k v) = Inr k"
| "getAnyChildTid (RNode h b) =
     (case getAnyChild is_leaf b of None \<Rightarrow> Inl Exited | Some c \<Rightarrow> getAnyChildTid c)"
  by pat_completeness auto
termination
  by (relation "measure size") (auto dest!: getAnyChild_in live_children_size [where f = size] simp: less_SucI)

subsection \<open>Prefixes\<close>

datatype check = NoMatch | OptimisticMatch nat | Match nat

text \<open>\<open>checkPrefix\<close> and \<open>mycheckPrefix\<close>: only the stored bytes are compared.\<close>

definition checkPrefix :: "rhead \<Rightarrow> nat \<Rightarrow> u8 list \<Rightarrow> nat \<Rightarrow> check" where
  "checkPrefix h len fk lv =
     (if len \<le> level h then NoMatch
      else if prefixCount h + lv < level h then OptimisticMatch (level h)
      else if prefixCount h > 0 then
        (let i0 = (lv + prefixCount h) - level h; m = min (prefixCount h) 4;
             j = first_from (\<lambda>i. prefix_bytes h ! i \<noteq> fk ! (lv + (i - i0))) i0 m
         in if j < m then NoMatch
            else if prefixCount h > 4 then OptimisticMatch (level h)
            else Match (lv + (j - i0)))
      else Match lv)"

datatype pessimistic = PMatch nat | PNoMatch nat u8 "u8 list" | SkippedLevel

text \<open>
  \<open>checkPrefixPessimistic\<close> and \<open>mycheckPrefixPessimistic\<close>.  A prefix that does not fit the
  levels, as a crash can leave it, is rebuilt from a leaf; \<open>True\<close> says that this happened.
  Bytes past the stored four come from a leaf.
\<close>

definition recover_prefix :: "rhead \<Rightarrow> rnode body \<Rightarrow> nat \<Rightarrow> (rhead \<times> bool) res" where
  "recover_prefix h b lv =
     (if prefixCount h + lv = level h then Inr (h, False)
      else
        (let d = (if level h > lv then level h - lv else lv - level h) in
         case getAnyChildTid (RNode h b) of
           Inl e \<Rightarrow> Inl e
         | Inr kr \<Rightarrow>
             if lv + min d 4 > length kr then Inl OutOfBounds
             else Inr (setPrefix h (drop lv kr) d, True)))"

definition compare_prefix :: "rhead \<Rightarrow> rnode body \<Rightarrow> u8 list \<Rightarrow> nat \<Rightarrow> pessimistic res" where
  "compare_prefix h b fk lv =
     (let pc = prefixCount h; i0 = (lv + pc) - level h in
      case (if pc > 4 \<and> i0 < pc then getAnyChildTid (RNode h b) else Inr []) of
        Inl e \<Rightarrow> Inl e
      | Inr kt \<Rightarrow>
          (let cur = (\<lambda>i. if i \<ge> 4 then kt ! (lv + (i - i0)) else prefix_bytes h ! i);
               j = first_from (\<lambda>i. cur i \<noteq> fk ! (lv + (i - i0))) i0 pc;
               lv' = lv + (j - i0)
           in if kt \<noteq> [] \<and> level h > length kt then Inl OutOfBounds
              else if j < pc then
                Inr (PNoMatch lv' (cur j)
                  (if pc > 4 then map (\<lambda>i. kt ! (lv' + i + 1)) [0..<min (pc - (lv' - lv) - 1) 4]
                   else map (\<lambda>i. prefix_bytes h ! (j + i + 1)) [0..<pc - j - 1]))
              else Inr (PMatch lv')))"

definition checkPrefixPessimistic ::
  "rhead \<Rightarrow> rnode body \<Rightarrow> u8 list \<Rightarrow> nat \<Rightarrow> (rhead \<times> bool \<times> pessimistic) res" where
  "checkPrefixPessimistic h b fk lv =
     (case recover_prefix h b lv of
        Inl e \<Rightarrow> Inl e
      | Inr (h', fixed) \<Rightarrow>
          if prefixCount h' + lv < level h' then Inr (h', fixed, SkippedLevel)
          else map_sum id (\<lambda>r. (h', fixed, r)) (compare_prefix h' b fk lv))"

text \<open>The prefix of a node that replaces its parent: the parent's, the byte, its own.\<close>

definition addPrefixBefore :: "rhead \<Rightarrow> rhead \<Rightarrow> u8 \<Rightarrow> rhead" where
  "addPrefixBefore h hn k =
     (let c = min 4 (prefixCount hn + 1); m = min (prefixCount h) (4 - c);
          p1 = take c (prefix_bytes h) @ take m (prefix_bytes h) @ drop (c + m) (prefix_bytes h);
          n = min c (prefixCount hn);
          p2 = take n (prefix_bytes hn) @ drop n p1;
          p3 = (if prefixCount hn < 4 then p2[c - 1 := k] else p2)
      in h\<lparr>prefixCount := prefixCount h + prefixCount hn + 1, prefix_bytes := p3\<rparr>)"

subsection \<open>Lookup\<close>

lemma at_slot_child: "at_slot cs i = Some x \<Longrightarrow> Some x \<in> set cs"
  by (auto simp: at_slot_def split: if_splits) (metis nth_mem)

lemma getChild_in: "getChild b k = Some x \<Longrightarrow> Some x \<in> set (child_slots b)"
  by (auto simp: getChild_defs child_slots_def at_slot_child split: layout.splits option.splits if_splits)

lemma getChild_size: "getChild b k = Some x \<Longrightarrow> f x < size_body f b"
  by (rule child_slots_size [OF getChild_in])

text \<open>
  \<open>ROART::get\<close>: the key of the leaf is compared only when bytes have been skipped or are left.
\<close>

function get_from :: "rnode \<Rightarrow> u8 list \<Rightarrow> nat \<Rightarrow> bool \<Rightarrow> u64 option" where
  "get_from (RLeaf k v) fk lv opt = None"
| "get_from (RNode h b) fk lv opt =
     (let below = (\<lambda>lv' opt'.
        if 8 \<le> lv' then None
        else case getChild b (fk ! lv') of
               None \<Rightarrow> None
             | Some (RLeaf k v) \<Rightarrow>
                 if lv' < 7 \<or> opt' then if checkKey k 8 fk then Some v else None else Some v
             | Some (RNode h' b') \<Rightarrow> get_from (RNode h' b') fk (Suc lv') opt')
      in case checkPrefix h 8 fk lv of
           NoMatch \<Rightarrow> None
         | OptimisticMatch lv' \<Rightarrow> below lv' True
         | Match lv' \<Rightarrow> below lv' opt)"
  by pat_completeness auto
termination
  by (relation "measure (\<lambda>(n, _). size n)") (auto dest!: getChild_size [where f = size] simp: less_SucI)

definition roart_get :: "rnode \<Rightarrow> u64 \<Rightarrow> u64" where
  "roart_get root key = or_null (get_from root (key_bytes key) 0 False)"

subsection \<open>Insertion\<close>

datatype result = Success | NotFound | Existed | UnSuccess

text \<open>The node to store, with the result, or with the prefixes repaired so far: start again.\<close>

datatype outcome = Finish rnode result | Restart rnode

text \<open>A new N4 with two children.\<close>

definition two_leaves :: "rhead \<Rightarrow> u8 \<Rightarrow> rnode \<Rightarrow> u8 \<Rightarrow> rnode \<Rightarrow> rnode" where
  "two_leaves h k x k' x' = RNode h (insert_or_drop (insert_or_drop new_N4 k x) k' x')"

text \<open>The leaf met on the way has another key: the bytes the keys share become a prefix.\<close>

definition roart_split_leaf :: "u8 list \<Rightarrow> u64 \<Rightarrow> u8 list \<Rightarrow> u64 \<Rightarrow> nat \<Rightarrow> rnode res" where
  "roart_split_leaf lk old fk v lv =
     (let pl = first_from (\<lambda>i. lk ! (lv + i) \<noteq> fk ! (lv + i)) 0 (min 8 (length lk) - lv);
          at = lv + pl
      in if length lk = 8 \<and> at = 8 then Inr (RLeaf lk v)
         else if at \<ge> 8 \<or> at \<ge> length lk then Inl OutOfBounds
         else Inr (two_leaves (new_head at (drop lv fk) pl) (fk ! at) (RLeaf fk v) (lk ! at) (RLeaf lk old)))"

definition same_key :: "u8 list \<Rightarrow> u8 list \<Rightarrow> nat \<Rightarrow> bool" where
  "same_key lk fk lv \<longleftrightarrow>
     length lk = 8 \<and> lv + first_from (\<lambda>i. lk ! (lv + i) \<noteq> fk ! (lv + i)) 0 (min 8 (length lk) - lv) = 8"

text \<open>The prefix leaves the key: a new N4 above the node takes the part they share.\<close>

definition roart_split_prefix :: "rhead \<Rightarrow> rnode body \<Rightarrow> u8 list \<Rightarrow> u64 \<Rightarrow> nat \<Rightarrow> nat \<Rightarrow> u8 \<Rightarrow> u8 list \<Rightarrow> rnode" where
  "roart_split_prefix h b fk v lv nl nk rest =
     two_leaves (h\<lparr>level := nl, prefixCount := nl - lv\<rparr>) (fk ! nl) (RLeaf fk v) nk
       (RNode (setPrefix h rest (prefixCount h - ((nl - lv) + 1))) b)"

text \<open>Growing or compacting a node stores the new one in its parent.\<close>

definition needs_parent :: "'a body \<Rightarrow> bool" where
  "needs_parent b \<longleftrightarrow> capacity (layout b) \<noteq> 256 \<and> compactCount b = capacity (layout b)"

definition at_child :: "rhead \<Rightarrow> rnode body \<Rightarrow> u8 \<Rightarrow> rnode \<Rightarrow> rnode res" where
  "at_child h b k c = map_sum id (RNode h) (n_change b k c)"

function put_from :: "rnode \<Rightarrow> u8 list \<Rightarrow> u64 \<Rightarrow> nat \<Rightarrow> bool \<Rightarrow> outcome res" where
  "put_from (RLeaf k w) fk v lv root = Inl WildAccess"
| "put_from (RNode h b) fk v lv root =
     (case checkPrefixPessimistic h b fk lv of
        Inl e \<Rightarrow> Inl e
      | Inr (h', fixed, SkippedLevel) \<Rightarrow> Inr (Restart (RNode h' b))
      | Inr (h', fixed, PNoMatch nl nk rest) \<Rightarrow>
          if nl \<ge> 8 then Inl Exited
          else if fixed then Inr (Restart (RNode h' b))
          else if root then Inl NullDeref
          else Inr (Finish (roart_split_prefix h' b fk v lv nl nk rest) Success)
      | Inr (h', fixed, PMatch nl) \<Rightarrow>
          if nl \<ge> 8 then Inl Exited
          else
            let k = fk ! nl in
            case getChild b k of
              None \<Rightarrow>
                if fixed then Inr (Restart (RNode h' b))
                else if root \<and> needs_parent b then Inl NullDeref
                else Inr (Finish (RNode h' (insertAndUnlock b k (RLeaf fk v))) Success)
            | Some (RLeaf lk w) \<Rightarrow>
                if fixed then Inr (Restart (RNode h' b))
                else (case roart_split_leaf lk w fk v (Suc nl) of
                        Inl e \<Rightarrow> Inl e
                      | Inr c \<Rightarrow>
                          map_sum id (\<lambda>n. Finish n (if same_key lk fk (Suc nl) then Existed else Success))
                            (at_child h' b k c))
            | Some (RNode ch cb) \<Rightarrow>
                (case put_from (RNode ch cb) fk v (Suc nl) False of
                   Inl e \<Rightarrow> Inl e
                 | Inr (Finish c r) \<Rightarrow> map_sum id (\<lambda>n. Finish n r) (at_child h' b k c)
                 | Inr (Restart c) \<Rightarrow> map_sum id Restart (at_child h' b k c)))"
  by pat_completeness auto
termination
  by (relation "measure (\<lambda>(n, _). size n)") (auto dest!: getChild_size [where f = size] simp: less_SucI)

fun put_loop :: "nat \<Rightarrow> rnode \<Rightarrow> u8 list \<Rightarrow> u64 \<Rightarrow> (rnode \<times> result) res" where
  "put_loop fuel root fk v =
     (case put_from root fk v 0 True of
        Inl e \<Rightarrow> Inl e
      | Inr (Finish n r) \<Rightarrow> Inr (n, r)
      | Inr (Restart n) \<Rightarrow> (case fuel of 0 \<Rightarrow> Inl OutOfFuel | Suc fuel' \<Rightarrow> put_loop fuel' n fk v))"

text \<open>One restart is enough: it finds every prefix on its way repaired.\<close>

definition roart_put :: "rnode \<Rightarrow> u64 \<Rightarrow> u64 \<Rightarrow> (rnode \<times> result) res" where
  "roart_put root key v = put_loop 1 root (key_bytes key) v"

subsection \<open>Update and removal\<close>

text \<open>\<open>ROART::update\<close>: a new leaf replaces the one with the same key.\<close>

function update_from :: "rnode \<Rightarrow> roart_key \<Rightarrow> nat \<Rightarrow> (rnode \<times> result) res" where
  "update_from (RLeaf lk w) k lv = Inl WildAccess"
| "update_from (RNode h b) k lv =
     (let below = (\<lambda>lv'.
        if lv' \<ge> length (fkey k) then Inl OutOfBounds
        else
          let nodeKey = fkey k ! lv' in
          case getChild b nodeKey of
            None \<Rightarrow> Inr (RNode h b, NotFound)
          | Some (RLeaf lk w) \<Rightarrow>
              if \<not> checkKey lk (key_len k) (fkey k) then Inr (RNode h b, NotFound)
              else map_sum id (\<lambda>n. (n, Success))
                     (at_child h b nodeKey (RLeaf (take (key_len k) (fkey k)) (k_value k)))
          | Some (RNode ch cb) \<Rightarrow>
              (case update_from (RNode ch cb) k (Suc lv') of
                 Inl e \<Rightarrow> Inl e
               | Inr (c, r) \<Rightarrow> map_sum id (\<lambda>n. (n, r)) (at_child h b nodeKey c)))
      in case checkPrefix h (key_len k) (fkey k) lv of
           NoMatch \<Rightarrow> Inr (RNode h b, NotFound)
         | OptimisticMatch lv' \<Rightarrow> below lv'
         | Match lv' \<Rightarrow> below lv')"
  by pat_completeness auto
termination
  by (relation "measure (\<lambda>(n, _). size n)") (auto dest!: getChild_size [where f = size] simp: less_SucI)

definition roart_update :: "rnode \<Rightarrow> roart_key \<Rightarrow> (rnode \<times> result) res" where
  "roart_update root k = update_from root k 0"

text \<open>
  The leaf is below the node: with one other child left, that child takes the node's place,
  an inner one with the prefix of the node before its own.
\<close>

definition remove_child :: "rhead \<Rightarrow> rnode body \<Rightarrow> u8 \<Rightarrow> bool \<Rightarrow> rnode res" where
  "remove_child h b k root =
     (if \<not> root \<and> getCount b = 1 then Inl Exited
      else if \<not> root \<and> getCount b = 2 then
        (case getSecondChild b k of
           Inl e \<Rightarrow> Inl e
         | Inr None \<Rightarrow> Inl NullDeref
         | Inr (Some (RLeaf lk w, k2)) \<Rightarrow> Inr (RLeaf lk w)
         | Inr (Some (RNode ch cb, k2)) \<Rightarrow> Inr (RNode (addPrefixBefore ch h k2) cb))
      else map_sum id (RNode h) (removeAndUnlock b k root))"

function remove_from :: "rnode \<Rightarrow> roart_key \<Rightarrow> nat \<Rightarrow> bool \<Rightarrow> (rnode \<times> result) res" where
  "remove_from (RLeaf lk w) k lv root = Inl WildAccess"
| "remove_from (RNode h b) k lv root =
     (let below = (\<lambda>lv'.
        if lv' \<ge> length (fkey k) then Inl OutOfBounds
        else
          let nodeKey = fkey k ! lv' in
          case getChild b nodeKey of
            None \<Rightarrow> Inr (RNode h b, NotFound)
          | Some (RLeaf lk w) \<Rightarrow>
              if \<not> checkKey lk (key_len k) (fkey k) then Inr (RNode h b, NotFound)
              else map_sum id (\<lambda>n. (n, Success)) (remove_child h b nodeKey root)
          | Some (RNode ch cb) \<Rightarrow>
              (case remove_from (RNode ch cb) k (Suc lv') False of
                 Inl e \<Rightarrow> Inl e
               | Inr (c, r) \<Rightarrow> map_sum id (\<lambda>n. (n, r)) (at_child h b nodeKey c)))
      in case checkPrefix h (key_len k) (fkey k) lv of
           NoMatch \<Rightarrow> Inr (RNode h b, NotFound)
         | OptimisticMatch lv' \<Rightarrow> below lv'
         | Match lv' \<Rightarrow> below lv')"
  by pat_completeness auto
termination
  by (relation "measure (\<lambda>(n, _). size n)") (auto dest!: getChild_size [where f = size] simp: less_SucI)

definition roart_remove :: "rnode \<Rightarrow> roart_key \<Rightarrow> (rnode \<times> result) res" where
  "roart_remove root k = remove_from root k 0 True"

subsection \<open>Range lookup\<close>

text \<open>\<open>key_keylen_lt\<close>: lexicographic, from byte \<open>lv\<close> on.\<close>

definition key_lt :: "u8 list \<Rightarrow> u8 list \<Rightarrow> nat \<Rightarrow> bool" where
  "key_lt a b lv =
     (let m = min (length a) (length b); j = first_from (\<lambda>i. a ! i \<noteq> b ! i) lv m in
      if j < m then a ! j < b ! j else length a < length b)"

text \<open>The results so far, and the leaf at which the result array was full.\<close>

type_synonym found = "(u8 list \<times> u64) list \<times> (u8 list \<times> u64) option"

fun walk :: "('a \<Rightarrow> found \<Rightarrow> found res) \<Rightarrow> 'a list \<Rightarrow> found \<Rightarrow> found res" where
  "walk f [] st = Inr st"
| "walk f (x # xs) st =
     (case f x st of
        Inl e \<Rightarrow> Inl e
      | Inr st' \<Rightarrow> if snd st' \<noteq> None then Inr st' else walk f xs st')"

lemma walk_cong [fundef_cong]:
  "xs = ys \<Longrightarrow> st = st' \<Longrightarrow> (\<And>x s. x \<in> set ys \<Longrightarrow> f x s = g x s) \<Longrightarrow> walk f xs st = walk g ys st'"
proof (induction xs arbitrary: ys st st')
  case (Cons x xs)
  have ys: "ys = x # xs" using Cons.prems(1) by simp
  have fx: "f x st' = g x st'" using Cons.prems(3) by (simp add: ys)
  have "walk f xs s = walk g xs s" for s using Cons.IH [of xs s s] Cons.prems(3) by (simp add: ys)
  with fx show ?case by (auto simp: ys Cons.prems(2) split: sum.splits)
qed auto

lemma at_slot_child': "Some x = at_slot cs i \<Longrightarrow> Some x \<in> set cs"
  by (metis at_slot_child)

lemma slot_entries_child: "(k, x) \<in> set (slot_entries f ks cs m) \<Longrightarrow> Some x \<in> set cs"
  by (auto simp: slot_entries_def intro: at_slot_child split: option.splits)

lemma index_entries_child: "(k, x) \<in> set (index_entries ci cs bs) \<Longrightarrow> Some x \<in> set cs"
  by (auto simp: index_entries_def intro: at_slot_child split: option.splits if_splits)

lemma array_entries_child: "(k, x) \<in> set (array_entries cs bs) \<Longrightarrow> Some x \<in> set cs"
  by (auto simp: array_entries_def intro: at_slot_child split: option.splits)

lemma getChildren_child: "(k, x) \<in> set (getChildren b lo hi) \<Longrightarrow> Some x \<in> set (child_slots b)"
  by (auto simp: getChildren_defs child_slots_def Let_def simp del: upt_Suc split: layout.splits
      dest: slot_entries_child index_entries_child array_entries_child)

lemma getChildren_size: "(k, x) \<in> set (getChildren b lo hi) \<Longrightarrow> f x < size_body f b"
  by (rule child_slots_size [OF getChildren_child])

text \<open>All leaves below a node.\<close>

function copy_node :: "nat \<Rightarrow> rnode \<Rightarrow> found \<Rightarrow> found res" where
  "copy_node lim (RLeaf k v) st =
     Inr (if length (fst st) = lim then (fst st, Some (k, v)) else (fst st @ [(k, v)], snd st))"
| "copy_node lim (RNode h b) st = walk (\<lambda>(k, n) st. copy_node lim n st) (getChildren b 0 255) st"
  by pat_completeness auto
termination
  by (relation "measure (\<lambda>(lim, n, st). size n)") (auto dest!: getChildren_size [where f = size] simp: less_SucI)

text \<open>
  The prefix of a node against a bound: \<open>i0\<close> is the first of its bytes that belongs here.  The
  key of a leaf is loaded when the comparison passes the stored bytes.
\<close>

definition prefix_byte_at :: "rhead \<Rightarrow> rnode body \<Rightarrow> nat \<Rightarrow> (nat \<Rightarrow> u8 \<Rightarrow> bool) \<Rightarrow> (nat \<times> u8) option res" where
  "prefix_byte_at h b lv stop =
     (let pc = prefixCount h; i0 = (lv + pc) - level h; m = min pc 4;
          j0 = first_from (\<lambda>i. stop (lv + (i - i0)) (prefix_bytes h ! i)) i0 m
      in case (if m \<le> j0 \<and> j0 < pc then getAnyChildTid (RNode h b) else Inr []) of
           Inl e \<Rightarrow> Inl e
         | Inr kt \<Rightarrow>
             (let cur = (\<lambda>i. if i \<ge> 4 then kt ! (lv + (i - i0)) else prefix_bytes h ! i);
                  j = first_from (\<lambda>i. stop (lv + (i - i0)) (cur i)) i0 pc
              in if kt \<noteq> [] \<and> level h > length kt then Inl OutOfBounds
                 else Inr (if j < pc then Some (lv + (j - i0), cur j) else None)))"

datatype compare = Smaller | Equal nat | Bigger | CompareSkipped

definition byte_or :: "u8 list \<Rightarrow> u8 \<Rightarrow> nat \<Rightarrow> u8" where
  "byte_or fk d lv = (if length fk > lv then fk ! lv else d)"

text \<open>The level after the prefix; nothing is skipped when the node starts no later than its prefix says.\<close>

definition level_after :: "rhead \<Rightarrow> nat \<Rightarrow> nat" where
  "level_after h lv = max lv (level h)"

definition checkPrefixCompare :: "rhead \<Rightarrow> rnode body \<Rightarrow> u8 list \<Rightarrow> nat \<Rightarrow> compare res" where
  "checkPrefixCompare h b fk lv =
     (if prefixCount h + lv < level h then Inr CompareSkipped
      else if prefixCount h = 0 then Inr (Equal lv)
      else map_sum id (\<lambda>r. case r of
               None \<Rightarrow> Equal (level_after h lv)
             | Some (l, c) \<Rightarrow> if c < byte_or fk 0 l then Smaller else Bigger)
             (prefix_byte_at h b lv (\<lambda>l c. c \<noteq> byte_or fk 0 l)))"

datatype equals = BothMatch nat | Contained | EqualsNoMatch | EqualsSkipped

definition checkPrefixEquals :: "rhead \<Rightarrow> rnode body \<Rightarrow> nat \<Rightarrow> u8 list \<Rightarrow> u8 list \<Rightarrow> equals res" where
  "checkPrefixEquals h b lv start end' =
     (if prefixCount h + lv < level h then Inr EqualsSkipped
      else if prefixCount h = 0 then Inr (BothMatch lv)
      else map_sum id (\<lambda>r. case r of
               None \<Rightarrow> BothMatch (level_after h lv)
             | Some (l, c) \<Rightarrow>
                 if byte_or start 0 l < c \<and> c < byte_or end' 0 l then Contained else EqualsNoMatch)
             (prefix_byte_at h b lv
                (\<lambda>l c. byte_or start 0 l < c \<and> c < byte_or end' 0 l \<or> c < byte_or start 0 l \<or> byte_or end' 0 l < c)))"

text \<open>
  The children from the byte of \<open>start\<close> on, and up to the byte of \<open>end\<close>; the first or last of
  them is searched further.  A skipped level starts the lookup again, for ever when there is
  no other thread.
\<close>

function findStart :: "nat \<Rightarrow> u8 list \<Rightarrow> rnode \<Rightarrow> nat \<Rightarrow> found \<Rightarrow> found res" where
  "findStart lim start (RLeaf k v) lv st =
     (if key_lt k start lv then Inr st else copy_node lim (RLeaf k v) st)"
| "findStart lim start (RNode h b) lv st =
     (case checkPrefixCompare h b start lv of
        Inl e \<Rightarrow> Inl e
      | Inr Bigger \<Rightarrow> copy_node lim (RNode h b) st
      | Inr Smaller \<Rightarrow> Inr st
      | Inr CompareSkipped \<Rightarrow> Inl NoReturn
      | Inr (Equal lv') \<Rightarrow>
          (let startLevel = byte_or start 0 lv' in
           walk (\<lambda>(k, n) st.
                   if k = startLevel then findStart lim start n (Suc lv') st
                   else if k > startLevel then copy_node lim n st
                   else Inr st)
             (getChildren b startLevel 255) st))"
  by pat_completeness auto
termination
  by (relation "measure (\<lambda>(lim, start, n, lv, st). size n)")
    (auto dest!: getChildren_size [where f = size] simp: less_SucI)

function findEnd :: "nat \<Rightarrow> u8 list \<Rightarrow> rnode \<Rightarrow> nat \<Rightarrow> found \<Rightarrow> found res" where
  "findEnd lim end' (RLeaf k v) lv st =
     (if key_lt k end' lv then copy_node lim (RLeaf k v) st else Inr st)"
| "findEnd lim end' (RNode h b) lv st =
     (case checkPrefixCompare h b end' lv of
        Inl e \<Rightarrow> Inl e
      | Inr Smaller \<Rightarrow> copy_node lim (RNode h b) st
      | Inr Bigger \<Rightarrow> Inr st
      | Inr CompareSkipped \<Rightarrow> Inl NoReturn
      | Inr (Equal lv') \<Rightarrow>
          (let endLevel = byte_or end' 255 lv' in
           walk (\<lambda>(k, n) st.
                   if k = endLevel then findEnd lim end' n (Suc lv') st
                   else if k < endLevel then copy_node lim n st
                   else Inr st)
             (getChildren b 0 endLevel) st))"
  by pat_completeness auto
termination
  by (relation "measure (\<lambda>(lim, end', n, lv, st). size n)")
    (auto dest!: getChildren_size [where f = size] simp: less_SucI)

text \<open>
  The way down while both bounds have the same byte.  The code does not ask whether the next
  node is a leaf.
\<close>

function range_from :: "nat \<Rightarrow> u8 list \<Rightarrow> u8 list \<Rightarrow> rnode \<Rightarrow> nat \<Rightarrow> found res" where
  "range_from lim start end' (RLeaf k v) lv = Inl WildAccess"
| "range_from lim start end' (RNode h b) lv =
     (case checkPrefixEquals h b lv start end' of
        Inl e \<Rightarrow> Inl e
      | Inr EqualsSkipped \<Rightarrow> Inl NoReturn
      | Inr EqualsNoMatch \<Rightarrow> Inr ([], None)
      | Inr Contained \<Rightarrow> copy_node lim (RNode h b) ([], None)
      | Inr (BothMatch lv') \<Rightarrow>
          (let startLevel = byte_or start 0 lv'; endLevel = byte_or end' 255 lv' in
           if startLevel \<noteq> endLevel then
             walk (\<lambda>(k, n) st.
                     if k = startLevel then findStart lim start n (Suc lv') st
                     else if startLevel < k \<and> k < endLevel then copy_node lim n st
                     else if k = endLevel then findEnd lim end' n (Suc lv') st
                     else Inr st)
               (getChildren b startLevel endLevel) ([], None)
           else (case getChild b startLevel of
                   None \<Rightarrow> Inr ([], None)
                 | Some n \<Rightarrow> range_from lim start end' n (Suc lv'))))"
  by pat_completeness auto
termination
  by (relation "measure (\<lambda>(lim, start, end', n, lv). size n)")
    (auto dest!: getChild_size [where f = size] simp: less_SucI)

definition roart_lookupRange :: "rnode \<Rightarrow> u8 list \<Rightarrow> u8 list \<Rightarrow> nat \<Rightarrow> found res" where
  "roart_lookupRange root start end' lim =
     (if \<not> key_lt start end' 0 then Inr ([], None) else range_from lim start end' root 0)"

text \<open>
  \<open>ROART::scan\<close> as it stands: the loop that would turn the leaves into results is commented
  out, so the vector it returns is empty.  \<open>can_alloc\<close> says how long an array of pointers the
  machine can allocate.
\<close>

definition roart_scan :: "(u64 \<Rightarrow> bool) \<Rightarrow> rnode \<Rightarrow> u64 \<Rightarrow> u64 \<Rightarrow> u64 \<Rightarrow> (u64 \<times> u64) list res" where
  "roart_scan can_alloc root mn mx sz =
     (let n = (if sz \<noteq> 0 then sz else mx - mn) in
      if \<not> can_alloc n then Inl Exited
      else map_sum id (\<lambda>_. []) (roart_lookupRange root (key_bytes mn) (key_bytes mx) (unat n)))"

subsection \<open>Memory\<close>

text \<open>The sizes of the classes are parameters; the memory of the keys and values is not counted.\<close>

function roart_memory_profile :: "(rnode layout \<Rightarrow> u64) \<Rightarrow> u64 \<Rightarrow> rnode \<Rightarrow> u64" where
  "roart_memory_profile node_size leaf_size (RLeaf k v) = leaf_size"
| "roart_memory_profile node_size leaf_size (RNode h b) =
     node_size (layout b) +
     sum_list (map (\<lambda>(k, n). roart_memory_profile node_size leaf_size n) (getChildren b 0 255))"
  by pat_completeness auto
termination
  by (relation "measure (\<lambda>(ns, ls, n). size n)") (auto dest!: getChildren_size [where f = size] simp: less_SucI)

subsection \<open>Crashes\<close>

text \<open>
  The images of a node's place an insertion can leave in persistent memory.  Every store is
  flushed before the next one: the key byte or index entry of a free slot before the child,
  new nodes before the pointer to them, the pointer to a new parent before the shortened
  prefix.  The counters are not flushed, so an image may have any.  The lock word of a node is in
  DRAM and has the type by which the code dispatches; an image takes it to have been made anew
  from the persistent \<open>type\<close> of the node, as \<open>check_generation\<close> does, which only the build with
  \<^verbatim>\<open>INSTANT_RESTART\<close> calls.
\<close>

definition slot_images :: "rnode body \<Rightarrow> u8 \<Rightarrow> rnode \<Rightarrow> rnode layout list" where
  "slot_images b k x =
     (let cc = compactCount b in
      layout b #
      (case layout b of
         N4 ks cs \<Rightarrow> if cc = 4 then [] else [N4 (ks[cc := k]) cs]
       | N16 ks cs \<Rightarrow> if cc = 16 then [] else [N16 (ks[cc := flipSign k]) cs]
       | N48 ci cs \<Rightarrow> if cc = 48 then [] else [N48 (ci[unat k := cc]) cs]
       | N256 cs \<Rightarrow> []) @
      [layout (insertAndUnlock b k x)])"

function put_images :: "rnode \<Rightarrow> u8 list \<Rightarrow> u64 \<Rightarrow> nat \<Rightarrow> nat \<Rightarrow> nat \<Rightarrow> rnode list" where
  "put_images (RLeaf k w) fk v lv c cc = [RLeaf k w]"
| "put_images (RNode h b) fk v lv c cc =
     RNode h b #
     (case checkPrefixPessimistic h b fk lv of
        Inl e \<Rightarrow> []
      | Inr (h', fixed, SkippedLevel) \<Rightarrow> [RNode h' b]
      | Inr (h', fixed, PNoMatch nl nk rest) \<Rightarrow>
          RNode h' b #
          (if nl \<ge> 8 then []
           else [two_leaves (h'\<lparr>level := nl, prefixCount := nl - lv\<rparr>) (fk ! nl) (RLeaf fk v) nk (RNode h' b),
                 roart_split_prefix h' b fk v lv nl nk rest])
      | Inr (h', fixed, PMatch nl) \<Rightarrow>
          RNode h' b #
          (if nl \<ge> 8 then []
           else
             let k = fk ! nl; with = (\<lambda>x. case at_child h' b k x of Inl e \<Rightarrow> [] | Inr n \<Rightarrow> [n]) in
             case getChild b k of
               None \<Rightarrow> map (\<lambda>l. RNode h' (Body l c cc)) (slot_images b k (RLeaf fk v))
             | Some (RLeaf lk w) \<Rightarrow>
                 (case roart_split_leaf lk w fk v (Suc nl) of Inl e \<Rightarrow> [] | Inr x \<Rightarrow> with x)
             | Some (RNode ch cb) \<Rightarrow>
                 concat (map with (put_images (RNode ch cb) fk v (Suc nl) c cc))))"
  by pat_completeness auto
termination
  by (relation "measure (\<lambda>(n, _). size n)") (auto dest!: getChild_size [where f = size] simp: less_SucI)

end
