(* ===== verification/Roart_Kids.thy ===== *)
theory Roart_Kids
  imports Roart_Node
begin

text \<open>
  The layouts of ROART as finite maps: what insertion, change, removal, growth, compaction
  and shrinking do to \<^const>\<open>getChild\<close>, under the invariant \<open>body_ok\<close> that the node operations
  keep.
\<close>

subsection \<open>The invariant\<close>

definition keyed_ok :: "nat \<Rightarrow> u8 list \<Rightarrow> 'a option list \<Rightarrow> nat \<Rightarrow> bool" where
  "keyed_ok n ks cs cc \<longleftrightarrow>
     length ks = n \<and> length cs = n \<and> cc \<le> n \<and> (\<forall>i<n. cc \<le> i \<longrightarrow> cs ! i = None) \<and>
     (\<forall>i<n. \<forall>j<n. cs ! i \<noteq> None \<longrightarrow> cs ! j \<noteq> None \<longrightarrow> ks ! i = ks ! j \<longrightarrow> i = j)"

definition indexed_ok :: "nat list \<Rightarrow> 'a option list \<Rightarrow> nat \<Rightarrow> bool" where
  "indexed_ok ci cs cc \<longleftrightarrow>
     length ci = 256 \<and> length cs = 48 \<and> cc \<le> 48 \<and> (\<forall>i<48. cc \<le> i \<longrightarrow> cs ! i = None) \<and>
     (\<forall>j<256. ci ! j \<noteq> 48 \<longrightarrow> ci ! j < cc) \<and>
     (\<forall>i<256. \<forall>j<256. ci ! i = ci ! j \<longrightarrow> ci ! i \<noteq> 48 \<longrightarrow> i = j) \<and>
     (\<forall>i<48. cs ! i \<noteq> None \<longrightarrow> i \<in> set ci)"

definition layout_ok :: "'a layout \<Rightarrow> nat \<Rightarrow> bool" where
  "layout_ok l cc =
     (case l of N4 ks cs \<Rightarrow> keyed_ok 4 ks cs cc | N16 ks cs \<Rightarrow> keyed_ok 16 ks cs cc
      | N48 ci cs \<Rightarrow> indexed_ok ci cs cc | N256 cs \<Rightarrow> length cs = 256)"

definition body_ok :: "'a body \<Rightarrow> bool" where
  "body_ok b \<longleftrightarrow> layout_ok (layout b) (compactCount b) \<and> count b = card (dom (getChild b))"

definition has_room :: "'a body \<Rightarrow> bool" where
  "has_room b \<longleftrightarrow> capacity (layout b) = 256 \<or> compactCount b < capacity (layout b)"

lemma flipSign_flipSign [simp]: "flipSign (flipSign k) = k"
  by (simp add: flipSign_def xor.assoc)

lemma flipSign_eq [simp]: "flipSign k = flipSign k' \<longleftrightarrow> k = k'"
  by (metis flipSign_flipSign)

lemma unat_u8_less [simp]: "unat (k :: u8) < 256"
  using unsigned_less [of k] by simp

lemma unat_u8_eq [simp]: "unat (k :: u8) = unat k' \<longleftrightarrow> k = k'"
  by (simp add: word_unat_eq_iff)

lemma unat_of_nat_u8: "j < 256 \<Longrightarrow> unat (of_nat j :: u8) = j"
  by (simp add: unat_of_nat)

lemma of_nat_u8_eq: "j < 256 \<Longrightarrow> (of_nat j :: u8) = k \<longleftrightarrow> j = unat k"
  by (metis unat_of_nat_u8 unat_u8_eq)

subsection \<open>Keyed layouts\<close>

lemma keyed_free: "keyed_ok n ks cs cc \<Longrightarrow> i < n \<Longrightarrow> cs ! i \<noteq> None \<Longrightarrow> i < cc"
  unfolding keyed_ok_def by (meson not_le)

lemma keyed_inj:
  "keyed_ok n ks cs cc \<Longrightarrow> i < n \<Longrightarrow> j < n \<Longrightarrow> cs ! i \<noteq> None \<Longrightarrow> cs ! j \<noteq> None \<Longrightarrow> ks ! i = ks ! j \<Longrightarrow> i = j"
  unfolding keyed_ok_def by blast

lemma key_slot_iff:
  assumes "keyed_ok n ks cs cc" "cc \<le> m" "m \<le> n"
  shows "key_slot ks cs m k = Some i \<longleftrightarrow> i < n \<and> cs ! i \<noteq> None \<and> ks ! i = k"
proof
  assume "key_slot ks cs m k = Some i"
  from find_index_SomeD [OF this [unfolded key_slot_def]] assms(3)
  show "i < n \<and> cs ! i \<noteq> None \<and> ks ! i = k" by auto
next
  assume i: "i < n \<and> cs ! i \<noteq> None \<and> ks ! i = k"
  then have im: "i < m" using keyed_free [OF assms(1), of i] assms(2) by simp
  have "\<not> (cs ! j \<noteq> None \<and> ks ! j = k)" if j: "j < i" for j
    using keyed_inj [OF assms(1), of j i] i j by auto
  with i im show "key_slot ks cs m k = Some i"
    unfolding key_slot_def find_index_eq_Some_iff by simp
qed

text \<open>The map of a keyed layout, read through a renaming \<open>f\<close> of its keys.\<close>

definition keyed_find :: "u8 list \<Rightarrow> 'a option list \<Rightarrow> nat \<Rightarrow> u8 \<Rightarrow> 'a option" where
  "keyed_find ks cs m k = (case key_slot ks cs m k of None \<Rightarrow> None | Some i \<Rightarrow> at_slot cs i)"

lemma keyed_find_iff:
  assumes "keyed_ok n ks cs cc" "cc \<le> m" "m \<le> n"
  shows "keyed_find ks cs m k = Some x \<longleftrightarrow> (\<exists>i<n. cs ! i = Some x \<and> ks ! i = k)"
proof
  assume "keyed_find ks cs m k = Some x"
  then obtain i where i: "key_slot ks cs m k = Some i" "at_slot cs i = Some x"
    by (auto simp: keyed_find_def split: option.splits)
  from i(1) key_slot_iff [OF assms] have "i < n" "ks ! i = k" by simp_all
  moreover from this(1) assms(1) i(2) have "cs ! i = Some x" by (simp add: keyed_ok_def at_slot_in)
  ultimately show "\<exists>i<n. cs ! i = Some x \<and> ks ! i = k" by blast
next
  assume "\<exists>i<n. cs ! i = Some x \<and> ks ! i = k"
  then obtain i where i: "i < n" "cs ! i = Some x" "ks ! i = k" by blast
  then have "key_slot ks cs m k = Some i" unfolding key_slot_iff [OF assms] by simp
  with i assms(1) show "keyed_find ks cs m k = Some x" by (simp add: keyed_find_def keyed_ok_def at_slot_in)
qed

lemma keyed_find_None:
  assumes "keyed_ok n ks cs cc" "cc \<le> m" "m \<le> n"
  shows "keyed_find ks cs m k = None \<longleftrightarrow> (\<forall>i<n. ks ! i = k \<longrightarrow> cs ! i = None)"
  using keyed_find_iff [OF assms, of k] by (metis not_None_eq)

lemma map_eqI: "(\<And>k x. m k = Some x \<longleftrightarrow> m' k = Some x) \<Longrightarrow> m = m'"
  by (metis ext not_None_eq)

lemma keyed_insert:
  assumes ok: "keyed_ok n ks cs cc" and c: "cc < n" and m: "cc \<le> m" "m \<le> n" "Suc cc \<le> m'" "m' \<le> n"
    and new: "keyed_find ks cs m k = None"
  shows "keyed_ok n (ks[cc := k]) (cs[cc := Some x]) (Suc cc)"
    "keyed_find (ks[cc := k]) (cs[cc := Some x]) m' = (keyed_find ks cs m)(k \<mapsto> x)"
proof -
  note o = ok [unfolded keyed_ok_def]
  note n = new [unfolded keyed_find_None [OF ok m(1,2)], rule_format]
  show ok': "keyed_ok n (ks[cc := k]) (cs[cc := Some x]) (Suc cc)"
    unfolding keyed_ok_def using o c n by (auto simp: nth_list_update)
  show "keyed_find (ks[cc := k]) (cs[cc := Some x]) m' = (keyed_find ks cs m)(k \<mapsto> x)"
  proof (rule map_eqI)
    fix k' y
    show "keyed_find (ks[cc := k]) (cs[cc := Some x]) m' k' = Some y \<longleftrightarrow> ((keyed_find ks cs m)(k \<mapsto> x)) k' = Some y"
      using o c n unfolding keyed_find_iff [OF ok' m(3,4)] fun_upd_apply
      by (auto simp: nth_list_update keyed_find_iff [OF ok m(1,2)]) (metis less_irrefl option.distinct(1) order_refl)+
  qed
qed

lemma keyed_change:
  assumes ok: "keyed_ok n ks cs cc" and m: "cc \<le> m" "m \<le> n" and i: "i < n" "cs ! i \<noteq> None"
  shows "keyed_ok n ks (cs[i := y]) cc"
    "keyed_find ks (cs[i := y]) m = (keyed_find ks cs m)(ks ! i := y)"
proof -
  note o = ok [unfolded keyed_ok_def]
  show ok': "keyed_ok n ks (cs[i := y]) cc"
    unfolding keyed_ok_def using o i by (auto simp: nth_list_update)
  show "keyed_find ks (cs[i := y]) m = (keyed_find ks cs m)(ks ! i := y)"
  proof (rule map_eqI)
    fix k' x
    show "keyed_find ks (cs[i := y]) m k' = Some x \<longleftrightarrow> ((keyed_find ks cs m)(ks ! i := y)) k' = Some x"
      using o i unfolding keyed_find_iff [OF ok' m] fun_upd_apply
      by (auto simp: nth_list_update keyed_find_iff [OF ok m])
  qed
qed

lemma in_slot_entries:
  "(k, x) \<in> set (slot_entries f ks cs m) \<longleftrightarrow> (\<exists>i<m. at_slot cs i = Some x \<and> f (ks ! i) = k)"
  by (induction m) (auto simp: slot_entries_def less_Suc_eq split: option.splits)

lemma slot_entries_set:
  assumes ok: "keyed_ok n ks cs cc" and m: "cc \<le> m" "m \<le> n"
  shows "set (slot_entries f ks cs m) = {(f k, x) | k x. keyed_find ks cs m k = Some x}"
proof -
  have "m \<le> length cs" using ok m by (simp add: keyed_ok_def)
  have cc: "i < m" if "i < n" "cs ! i = Some x" for i x
    using keyed_free [OF ok that(1)] that(2) m(1) by simp
  have "i < m \<and> at_slot cs i = Some x \<longleftrightarrow> i < n \<and> cs ! i = Some x" for i x
    using cc [of i x] m(2) \<open>m \<le> length cs\<close> by (auto simp: at_slot_def)
  then have "(k, x) \<in> set (slot_entries f ks cs m) \<longleftrightarrow> (\<exists>k'. f k' = k \<and> keyed_find ks cs m k' = Some x)" for k x
    unfolding in_slot_entries keyed_find_iff [OF ok m] by blast
  then show ?thesis by auto
qed

lemma slot_entries_distinct:
  assumes ok: "keyed_ok n ks cs cc" and m: "m \<le> n" and f: "inj f"
  shows "distinct (map fst (slot_entries f ks cs m))"
  using m
proof (induction m)
  case 0
  then show ?case by (simp add: slot_entries_def)
next
  case (Suc m)
  have e: "slot_entries f ks cs (Suc m) =
      slot_entries f ks cs m @ (case cs ! m of None \<Rightarrow> [] | Some c \<Rightarrow> [(f (ks ! m), c)])"
    using Suc.prems ok by (simp add: slot_entries_def keyed_ok_def at_slot_in)
  have "f (ks ! m) \<notin> fst ` set (slot_entries f ks cs m)" if c: "cs ! m \<noteq> None"
  proof
    assume "f (ks ! m) \<in> fst ` set (slot_entries f ks cs m)"
    then obtain i where i: "i < m" "cs ! i \<noteq> None" "f (ks ! m) = f (ks ! i)"
      by (auto simp: in_slot_entries at_slot_def split: if_splits)
    with f have "ks ! m = ks ! i" by (simp add: inj_eq)
    with keyed_inj [OF ok, of m i] c i Suc.prems show False by simp
  qed
  with Suc e show ?case by (auto split: option.splits)
qed

subsection \<open>Layouts indexed by the byte\<close>

definition byte_entries :: "(u8 \<Rightarrow> 'a option) \<Rightarrow> nat list \<Rightarrow> (u8 \<times> 'a) list" where
  "byte_entries m bs = concat (map (\<lambda>j. case m (of_nat j) of None \<Rightarrow> [] | Some c \<Rightarrow> [(of_nat j, c)]) bs)"

lemma byte_entries_simps [simp]:
  "byte_entries m [] = []"
  "byte_entries m (j # bs) =
     (case m (of_nat j) of None \<Rightarrow> [] | Some c \<Rightarrow> [(of_nat j, c)]) @ byte_entries m bs"
  by (simp_all add: byte_entries_def)

lemma in_byte_entries:
  "(k, x) \<in> set (byte_entries m bs) \<longleftrightarrow> m k = Some x \<and> k \<in> of_nat ` set bs"
  by (induction bs) (auto split: option.splits)

lemma byte_entries_all: "set (byte_entries m [0..<256]) = {(k, x). m k = Some x}"
proof -
  have "k \<in> of_nat ` set [0..<256]" for k :: u8
    by (rule image_eqI [of _ _ "unat k"]) (simp_all add: unat_u8_less [of k, simplified])
  then show ?thesis by (auto simp: in_byte_entries)
qed

lemma byte_entries_sorted:
  "sorted_wrt (<) bs \<Longrightarrow> (\<And>j. j \<in> set bs \<Longrightarrow> j < 256) \<Longrightarrow> sorted_wrt (<) (map fst (byte_entries m bs))"
proof (induction bs)
  case (Cons j bs)
  have "of_nat j < k" if "k \<in> fst ` set (byte_entries m bs)" for k
  proof -
    from that obtain i where i: "i \<in> set bs" "k = of_nat i" by (auto simp: in_byte_entries)
    with Cons.prems have "j < i" "i < 256" "j < 256" by auto
    then show ?thesis using i(2) by (simp add: word_less_nat_alt unat_of_nat_u8)
  qed
  with Cons show ?case by (auto split: option.splits)
qed simp

lemma byte_entries_distinct:
  "sorted_wrt (<) bs \<Longrightarrow> (\<And>j. j \<in> set bs \<Longrightarrow> j < 256) \<Longrightarrow> distinct (map fst (byte_entries m bs))"
  using byte_entries_sorted [of bs m] by (auto simp: strict_sorted_iff)

definition indexed_find :: "nat list \<Rightarrow> 'a option list \<Rightarrow> u8 \<Rightarrow> 'a option" where
  "indexed_find ci cs k = (if ci ! unat k = 48 then None else at_slot cs (ci ! unat k))"

lemma byte_entries_cong:
  "(\<And>j. j \<in> set bs \<Longrightarrow> m (of_nat j) = m' j) \<Longrightarrow>
   byte_entries m bs = concat (map (\<lambda>j. case m' j of None \<Rightarrow> [] | Some c \<Rightarrow> [(of_nat j, c)]) bs)"
  unfolding byte_entries_def by (intro arg_cong [where f = concat] map_cong) auto

lemma index_entries_bytes: "(\<And>j. j \<in> set bs \<Longrightarrow> j < 256) \<Longrightarrow> index_entries ci cs bs = byte_entries (indexed_find ci cs) bs"
  unfolding index_entries_def
  by (subst byte_entries_cong [where m' = "\<lambda>j. if ci ! j = 48 then None else at_slot cs (ci ! j)"])
    (auto simp: indexed_find_def unat_of_nat_u8 intro!: arg_cong [where f = concat] map_cong)

lemma array_entries_bytes: "(\<And>j. j \<in> set bs \<Longrightarrow> j < 256) \<Longrightarrow> array_entries cs bs = byte_entries (\<lambda>k. at_slot cs (unat k)) bs"
  unfolding array_entries_def
  by (subst byte_entries_cong [where m' = "at_slot cs"]) (auto simp: unat_of_nat_u8)

lemma indexed_insert:
  assumes ok: "indexed_ok ci cs cc" and c: "cc < 48" and new: "indexed_find ci cs k = None"
  shows "indexed_ok (ci[unat k := cc]) (cs[cc := Some x]) (Suc cc)"
    "indexed_find (ci[unat k := cc]) (cs[cc := Some x]) = (indexed_find ci cs)(k \<mapsto> x)"
proof -
  note o = ok [unfolded indexed_ok_def]
  have lt: "ci ! j < cc" if "j < 256" "ci ! j \<noteq> 48" for j using o that by blast
  show "indexed_ok (ci[unat k := cc]) (cs[cc := Some x]) (Suc cc)"
    unfolding indexed_ok_def
  proof (intro conjI allI impI)
    show "length (ci[unat k := cc]) = 256" "length (cs[cc := Some x]) = 48" "Suc cc \<le> 48"
      using o c by simp_all
    show "(cs[cc := Some x]) ! i = None" if "i < 48" "Suc cc \<le> i" for i using o that by simp
    show "(ci[unat k := cc]) ! j < Suc cc" if "j < 256" "(ci[unat k := cc]) ! j \<noteq> 48" for j
      using o that lt [of j] by (simp add: nth_list_update less_SucI split: if_splits)
    fix i j assume "i < 256" "j < 256" "(ci[unat k := cc]) ! i = (ci[unat k := cc]) ! j" "(ci[unat k := cc]) ! i \<noteq> 48"
    then show "i = j"
      using o lt [of i] lt [of j] by (auto simp: nth_list_update split: if_splits)
  next
    fix i assume i: "i < 48" "(cs[cc := Some x]) ! i \<noteq> None"
    show "i \<in> set (ci[unat k := cc])"
    proof (cases "i = cc")
      case True
      with o show ?thesis by (simp add: set_update_memI)
    next
      case False
      with o i have "i \<in> set ci" "cs ! i \<noteq> None" by auto
      then obtain j where j: "j < 256" "ci ! j = i" using o by (auto simp: in_set_conv_nth)
      with \<open>cs ! i \<noteq> None\<close> new i(1) o have "j \<noteq> unat k" by (auto simp: indexed_find_def at_slot_def)
      with j o have "ci[unat k := cc] ! j = i" "j < length (ci[unat k := cc])" by simp_all
      then show ?thesis by (metis nth_mem)
    qed
  qed
  show "indexed_find (ci[unat k := cc]) (cs[cc := Some x]) = (indexed_find ci cs)(k \<mapsto> x)"
  proof
    fix k' :: u8
    have "ci ! unat k' \<noteq> cc" using lt [OF unat_u8_less, of k'] c by linarith
    then show "indexed_find (ci[unat k := cc]) (cs[cc := Some x]) k' = ((indexed_find ci cs)(k \<mapsto> x)) k'"
      using o c by (auto simp: indexed_find_def nth_list_update at_slot_def)
  qed
qed

lemma indexed_change:
  assumes ok: "indexed_ok ci cs cc" and p: "ci ! unat k \<noteq> 48"
  shows "indexed_ok ci (cs[ci ! unat k := y]) cc"
    "indexed_find ci (cs[ci ! unat k := y]) = (indexed_find ci cs)(k := y)"
proof -
  note o = ok [unfolded indexed_ok_def]
  have pc: "ci ! unat k < cc" using o p by simp
  show "indexed_ok ci (cs[ci ! unat k := y]) cc"
    unfolding indexed_ok_def using o pc by (auto simp: nth_list_update split: if_splits)
  show "indexed_find ci (cs[ci ! unat k := y]) = (indexed_find ci cs)(k := y)"
  proof
    fix k'
    have "ci ! unat k' = ci ! unat k \<Longrightarrow> k' = k" using o p by (metis unat_u8_eq unat_u8_less)
    moreover have "ci ! unat k < 48" using o pc by linarith
    ultimately show "indexed_find ci (cs[ci ! unat k := y]) k' = ((indexed_find ci cs)(k := y)) k'"
      using o by (auto simp: indexed_find_def p nth_list_update at_slot_def)
  qed
qed

lemma array_update: "length cs = 256 \<Longrightarrow> (\<lambda>k'. at_slot (cs[unat k := y]) (unat k')) = (\<lambda>k' :: u8. at_slot cs (unat k'))(k := y)"
  by (rule ext) (simp add: nth_list_update at_slot_def)

subsection \<open>The map of a node\<close>

lemma getChild_cases:
  "getChild b = (case layout b of
     N4 ks cs \<Rightarrow> keyed_find ks cs 4
   | N16 ks cs \<Rightarrow> keyed_find ks cs 16 \<circ> flipSign
   | N48 ci cs \<Rightarrow> indexed_find ci cs
   | N256 cs \<Rightarrow> (\<lambda>k. at_slot cs (unat k)))"
  by (rule ext) (auto simp: getChild_defs keyed_find_def indexed_find_def split: layout.splits)

lemma flip_upd: "(m(flipSign k := y)) \<circ> flipSign = (m \<circ> flipSign)(k := y)"
  by (auto simp: fun_eq_iff)

lemma finite_bytes: "finite (A :: u8 set)"
  by (rule finite_subset [OF subset_UNIV]) simp

lemma card_upd: "m k = None \<Longrightarrow> card (dom (m(k \<mapsto> x) :: u8 \<Rightarrow> 'a option)) = Suc (card (dom m))"
  by (simp add: domIff finite_bytes)

lemma card_bytes: "card (A :: u8 set) \<le> 256"
  using card_mono [OF finite_bytes subset_UNIV, of A] by (simp add: card_word)

lemma inc16_small [simp]: "c \<le> 256 \<Longrightarrow> inc16 c = Suc c"
  by (simp add: inc16_def)

lemma dec16_small [simp]: "0 < c \<Longrightarrow> c \<le> 256 \<Longrightarrow> dec16 c = c - 1"
  by (simp add: dec16_def mod_if)

text \<open>Facts about the map of a node in each layout.\<close>

lemma body_ok_layout: "body_ok b \<Longrightarrow> layout_ok (layout b) (compactCount b)"
  by (simp add: body_ok_def)

lemma count_le: "body_ok b \<Longrightarrow> count b \<le> 256"
  by (simp add: body_ok_def card_bytes)

lemma body_okI: "layout_ok l c \<Longrightarrow> n = card (dom (getChild (Body l n c))) \<Longrightarrow> body_ok (Body l n c)"
  by (simp add: body_ok_def)

text \<open>A new child under a new byte.\<close>

lemma n_insert_ok:
  assumes ok: "body_ok b" and new: "getChild b k = None" and room: "has_room b"
  shows "\<exists>b'. n_insert b k x = Some b' \<and> body_ok b' \<and> getChild b' = (getChild b)(k \<mapsto> x) \<and>
    capacity (layout b') = capacity (layout b) \<and>
    (capacity (layout b) < 256 \<longrightarrow> compactCount b' = Suc (compactCount b))"
proof -
  obtain l c cc where b: "b = Body l c cc" by (cases b)
  have c: "c = card (dom (getChild b))" "c \<le> 256" using ok count_le [OF ok] by (simp_all add: body_ok_def b)
  have lay: "layout_ok l cc" using body_ok_layout [OF ok] b by simp
  have fin: ?thesis
    if "n_insert b k x = Some (Body l' (Suc c) cc')" "layout_ok l' cc'" "getChild (Body l' (Suc c) cc') = (getChild b)(k \<mapsto> x)"
      "capacity l' = capacity l" "capacity l < 256 \<longrightarrow> cc' = Suc cc" for l' cc'
  proof (intro exI [of _ "Body l' (Suc c) cc'"] conjI)
    show "body_ok (Body l' (Suc c) cc')"
      using that(2) unfolding body_ok_def that(3) card_upd [of "getChild b" k x, OF new] c(1) [symmetric] by simp
    show "capacity (layout (Body l' (Suc c) cc')) = capacity (layout b)"
      "capacity (layout b) < 256 \<longrightarrow> compactCount (Body l' (Suc c) cc') = Suc (compactCount b)"
      using that(4,5) by (simp_all add: b)
  qed (rule that)+
  show ?thesis
  proof (cases l)
    case (N4 ks cs)
    with lay have k: "keyed_ok 4 ks cs cc" by (simp add: layout_ok_def)
    from room N4 b have cc: "cc < 4" by (simp add: has_room_def capacity_def)
    from new N4 b have n: "keyed_find ks cs 4 k = None" by (simp add: getChild_cases)
    note i = keyed_insert [OF k cc _ _ _ _ n, of 4]
    show ?thesis
      by (rule fin [of "N4 (ks[cc := k]) (cs[cc := Some x])" "Suc cc"])
        (use i c(2) cc in \<open>simp_all add: n_insert_defs b N4 layout_ok_def getChild_cases capacity_def\<close>)
  next
    case (N16 ks cs)
    with lay have k: "keyed_ok 16 ks cs cc" by (simp add: layout_ok_def)
    from room N16 b have cc: "cc < 16" by (simp add: has_room_def capacity_def)
    from new N16 b have n: "keyed_find ks cs 16 (flipSign k) = None" by (simp add: getChild_cases)
    note i = keyed_insert [OF k cc _ _ _ _ n, of 16]
    show ?thesis
      by (rule fin [of "N16 (ks[cc := flipSign k]) (cs[cc := Some x])" "Suc cc"])
        (use i c(2) cc in \<open>simp_all add: n_insert_defs b N16 layout_ok_def getChild_cases capacity_def flip_upd\<close>)
  next
    case (N48 ci cs)
    with lay have k: "indexed_ok ci cs cc" by (simp add: layout_ok_def)
    from room N48 b have cc: "cc < 48" by (simp add: has_room_def capacity_def)
    from new N48 b have n: "indexed_find ci cs k = None" by (simp add: getChild_cases)
    note i = indexed_insert [OF k cc n]
    show ?thesis
      by (rule fin [of "N48 (ci[unat k := cc]) (cs[cc := Some x])" "Suc cc"])
        (use i c(2) cc in \<open>simp_all add: n_insert_defs b N48 layout_ok_def getChild_cases capacity_def\<close>)
  next
    case (N256 cs)
    with lay have k: "length cs = 256" by (simp add: layout_ok_def)
    show ?thesis
      by (rule fin [of "N256 (cs[unat k := Some x])" cc])
        (use k c(2) in \<open>simp_all add: n_insert_defs b N256 layout_ok_def getChild_cases array_update capacity_def\<close>)
  qed
qed

text \<open>Another pointer at a byte that has one.\<close>

lemma dom_upd_Some: "m k = Some y \<Longrightarrow> dom (m(k \<mapsto> x)) = dom m"
  by (auto simp: dom_def)

lemma key_slot_Some:
  assumes "keyed_ok n ks cs cc" "cc \<le> n" "keyed_find ks cs n k = Some y"
  shows "\<exists>i<n. key_slot ks cs cc k = Some i \<and> key_slot ks cs n k = Some i \<and> cs ! i = Some y \<and> ks ! i = k"
proof -
  from assms(3) keyed_find_iff [OF assms(1,2) order_refl] obtain i where
    i: "i < n" "cs ! i = Some y" "ks ! i = k" by blast
  then have "key_slot ks cs cc k = Some i" "key_slot ks cs n k = Some i"
    using key_slot_iff [OF assms(1) order_refl assms(2)] key_slot_iff [OF assms(1) assms(2) order_refl] by auto
  with i show ?thesis by blast
qed

lemma n_change_ok:
  assumes ok: "body_ok b" and old: "getChild b k = Some y"
  shows "\<exists>b'. n_change b k x = Inr b' \<and> body_ok b' \<and> getChild b' = (getChild b)(k \<mapsto> x) \<and>
    capacity (layout b') = capacity (layout b) \<and> count b' = count b \<and> compactCount b' = compactCount b"
proof -
  obtain l c cc where b: "b = Body l c cc" by (cases b)
  have c: "c = card (dom (getChild b))" using ok by (simp add: body_ok_def b)
  have lay: "layout_ok l cc" using body_ok_layout [OF ok] b by simp
  have fin: ?thesis
    if "n_change b k x = Inr (Body l' c cc)" "layout_ok l' cc" "getChild (Body l' c cc) = (getChild b)(k \<mapsto> x)"
      "capacity l' = capacity l" for l'
  proof (intro exI [of _ "Body l' c cc"] conjI)
    show "body_ok (Body l' c cc)"
      using that(2) c unfolding body_ok_def that(3) dom_upd_Some [of "getChild b", OF old] by simp
  qed (use that b in auto)
  show ?thesis
  proof (cases l)
    case (N4 ks cs)
    with lay have k: "keyed_ok 4 ks cs cc" by (simp add: layout_ok_def)
    then have cc: "cc \<le> 4" by (simp add: keyed_ok_def)
    from old N4 b have n: "keyed_find ks cs 4 k = Some y" by (simp add: getChild_cases)
    from key_slot_Some [OF k cc n] obtain i where i: "i < 4" "key_slot ks cs cc k = Some i" "cs ! i = Some y" "ks ! i = k" by blast
    show ?thesis
      by (rule fin [of "N4 ks (cs[i := Some x])"])
        (use i keyed_change [OF k cc order_refl i(1), of "Some x"] in \<open>simp_all add: n_change_defs b N4 layout_ok_def getChild_cases capacity_def\<close>)
  next
    case (N16 ks cs)
    with lay have k: "keyed_ok 16 ks cs cc" by (simp add: layout_ok_def)
    then have cc: "cc \<le> 16" by (simp add: keyed_ok_def)
    from old N16 b have n: "keyed_find ks cs 16 (flipSign k) = Some y" by (simp add: getChild_cases)
    from key_slot_Some [OF k cc n] obtain i where
      i: "i < 16" "key_slot ks cs cc (flipSign k) = Some i" "cs ! i = Some y" "ks ! i = flipSign k" by blast
    show ?thesis
      by (rule fin [of "N16 ks (cs[i := Some x])"])
        (use i keyed_change [OF k cc order_refl i(1), of "Some x"] in
          \<open>simp_all add: n_change_defs getChildPos_def b N16 layout_ok_def getChild_cases capacity_def flip_upd\<close>)
  next
    case (N48 ci cs)
    with lay have k: "indexed_ok ci cs cc" by (simp add: layout_ok_def)
    from old N48 b have n: "indexed_find ci cs k = Some y" by (simp add: getChild_cases)
    then have p: "ci ! unat k \<noteq> 48" by (simp add: indexed_find_def split: if_splits)
    show ?thesis
      by (rule fin [of "N48 ci (cs[ci ! unat k := Some x])"])
        (use p indexed_change [OF k p, of "Some x"] in \<open>simp_all add: n_change_defs b N48 layout_ok_def getChild_cases capacity_def\<close>)
  next
    case (N256 cs)
    with lay have k: "length cs = 256" by (simp add: layout_ok_def)
    show ?thesis
      by (rule fin [of "N256 (cs[unat k := Some x])"])
        (use k in \<open>simp_all add: n_change_defs b N256 layout_ok_def getChild_cases array_update capacity_def\<close>)
  qed
qed

text \<open>How few children a layout may have before it shrinks.\<close>

definition threshold :: "'a layout \<Rightarrow> nat" where
  "threshold l = (case l of N4 _ _ \<Rightarrow> 0 | N16 _ _ \<Rightarrow> 3 | N48 _ _ \<Rightarrow> 12 | N256 _ \<Rightarrow> 37)"

lemma card_remove: "m k = Some y \<Longrightarrow> card (dom (m(k := None) :: u8 \<Rightarrow> 'a option)) = card (dom m) - 1"
  by (simp add: domIff finite_bytes)

lemma n_remove_ok:
  assumes ok: "body_ok b" and old: "getChild b k = Some y" and f: "force \<or> threshold (layout b) < count b"
  shows "\<exists>b'. n_remove b k force = Inr (Some b') \<and> body_ok b' \<and> getChild b' = (getChild b)(k := None) \<and>
    capacity (layout b') = capacity (layout b)"
proof -
  obtain l c cc where b: "b = Body l c cc" by (cases b)
  have c: "c = card (dom (getChild b))" using ok by (simp add: body_ok_def b)
  moreover have "card (dom (getChild b)) \<noteq> 0" using old by (auto simp: finite_bytes)
  ultimately have c0: "0 < c" "c \<le> 256" using card_bytes by auto
  have lay: "layout_ok l cc" using body_ok_layout [OF ok] b by simp
  have fin: ?thesis
    if "n_remove b k force = Inr (Some (Body l' (c - 1) cc))" "layout_ok l' cc"
      "getChild (Body l' (c - 1) cc) = (getChild b)(k := None)" "capacity l' = capacity l" for l'
  proof (intro exI [of _ "Body l' (c - 1) cc"] conjI)
    show "body_ok (Body l' (c - 1) cc)"
      using that(2) c unfolding body_ok_def that(3) card_remove [of "getChild b", OF old] by simp
  qed (use that b in auto)
  show ?thesis
  proof (cases l)
    case (N4 ks cs)
    with lay have k: "keyed_ok 4 ks cs cc" by (simp add: layout_ok_def)
    then have cc: "cc \<le> 4" by (simp add: keyed_ok_def)
    from old N4 b have n: "keyed_find ks cs 4 k = Some y" by (simp add: getChild_cases)
    from key_slot_Some [OF k cc n] obtain i where i: "i < 4" "key_slot ks cs cc k = Some i" "cs ! i = Some y" "ks ! i = k" by blast
    show ?thesis
      by (rule fin [of "N4 ks (cs[i := None])"])
        (use i c0 keyed_change [OF k cc order_refl i(1), of None] in \<open>simp_all add: n_remove_defs b N4 layout_ok_def getChild_cases capacity_def\<close>)
  next
    case (N16 ks cs)
    with lay have k: "keyed_ok 16 ks cs cc" by (simp add: layout_ok_def)
    then have cc: "cc \<le> 16" by (simp add: keyed_ok_def)
    from old N16 b have n: "keyed_find ks cs 16 (flipSign k) = Some y" by (simp add: getChild_cases)
    from key_slot_Some [OF k cc n] obtain i where
      i: "i < 16" "key_slot ks cs cc (flipSign k) = Some i" "cs ! i = Some y" "ks ! i = flipSign k" by blast
    note ch = keyed_change [OF k cc order_refl i(1), of None]
    have g: "getChild (Body (N16 ks (cs[i := None])) (c - 1) cc) = (getChild b)(k := None)"
      using i ch by (simp add: b N16 getChild_cases flip_upd)
    have "N16_getChild ks (cs[i := None]) k = getChild (Body (N16 ks (cs[i := None])) (c - 1) cc) k"
      by (simp add: getChild_def)
    then have "N16_getChild ks (cs[i := None]) k = None" by (simp only: g fun_upd_same)
    then show ?thesis using i c0 f ch
      by (intro fin [of "N16 ks (cs[i := None])", OF _ _ g])
        (auto simp: n_remove_defs getChildPos_def b N16 layout_ok_def capacity_def threshold_def)
  next
    case (N48 ci cs)
    with lay have k: "indexed_ok ci cs cc" by (simp add: layout_ok_def)
    from old N48 b have n: "indexed_find ci cs k = Some y" by (simp add: getChild_cases)
    then have p: "ci ! unat k \<noteq> 48" by (simp add: indexed_find_def split: if_splits)
    show ?thesis
      by (rule fin [of "N48 ci (cs[ci ! unat k := None])"])
        (use p f c0 indexed_change [OF k p, of None] in
          \<open>auto simp: n_remove_defs b N48 layout_ok_def getChild_cases capacity_def threshold_def\<close>)
  next
    case (N256 cs)
    with lay have k: "length cs = 256" by (simp add: layout_ok_def)
    show ?thesis
      by (rule fin [of "N256 (cs[unat k := None])"])
        (use k f c0 in \<open>auto simp: n_remove_defs b N256 layout_ok_def getChild_cases array_update capacity_def threshold_def\<close>)
  qed
qed

subsection \<open>Copying a node\<close>

lemma entries_props:
  assumes ok: "body_ok b"
  shows "set (entries b) = {(k, x). getChild b k = Some x}" "distinct (map fst (entries b))"
proof -
  obtain l c cc where b: "b = Body l c cc" by (cases b)
  have lay: "layout_ok l cc" using body_ok_layout [OF ok] b by simp
  have all: "sorted_wrt (<) [0..<256::nat]" "\<And>j. j \<in> set [0..<256::nat] \<Longrightarrow> j < 256" by simp_all
  have "set (entries b) = {(k, x). getChild b k = Some x} \<and> distinct (map fst (entries b))"
  proof (cases l)
    case (N4 ks cs)
    with lay have k: "keyed_ok 4 ks cs cc" by (simp add: layout_ok_def)
    then have cc: "cc \<le> 4" by (simp add: keyed_ok_def)
    have "keyed_find ks cs cc = keyed_find ks cs 4"
      using keyed_find_iff [OF k order_refl cc] keyed_find_iff [OF k cc order_refl] by (intro map_eqI) simp
    then show ?thesis
      using slot_entries_set [OF k order_refl cc] slot_entries_distinct [OF k cc, of "\<lambda>k. k"]
      by (simp add: entries_def b N4 getChild_cases)
  next
    case (N16 ks cs)
    with lay have k: "keyed_ok 16 ks cs cc" by (simp add: layout_ok_def)
    then have cc: "cc \<le> 16" by (simp add: keyed_ok_def)
    have "keyed_find ks cs cc = keyed_find ks cs 16"
      using keyed_find_iff [OF k order_refl cc] keyed_find_iff [OF k cc order_refl] by (intro map_eqI) simp
    moreover have "inj flipSign" by (simp add: inj_def)
    moreover have "{(flipSign k, x) |k x. keyed_find ks cs 16 k = Some x} = {(k, x). keyed_find ks cs 16 (flipSign k) = Some x}"
      by (auto) (metis flipSign_flipSign)
    ultimately show ?thesis
      using slot_entries_set [OF k order_refl cc, of flipSign] slot_entries_distinct [OF k cc, of flipSign]
      by (simp add: entries_def b N16 getChild_cases)
  next
    case (N48 ci cs)
    then show ?thesis
      using byte_entries_all [of "indexed_find ci cs"] byte_entries_distinct [OF all, of "indexed_find ci cs"]
      using index_entries_bytes [of "[0..<256]" ci cs] by (simp add: entries_def b getChild_cases)
  next
    case (N256 cs)
    then show ?thesis
      using byte_entries_all [of "\<lambda>k. at_slot cs (unat k)"] byte_entries_distinct [OF all, of "\<lambda>k. at_slot cs (unat k)"]
      using array_entries_bytes [of "[0..<256]" cs] by (simp add: entries_def b getChild_cases)
  qed
  then show "set (entries b) = {(k, x). getChild b k = Some x}" "distinct (map fst (entries b))" by simp_all
qed

lemma entries_map: "body_ok b \<Longrightarrow> map_of (entries b) = getChild b"
  using entries_props [of b] by (intro map_eqI) (simp add: map_of_eq_Some_iff)

lemma entries_length: "body_ok b \<Longrightarrow> length (entries b) = count b"
proof -
  assume ok: "body_ok b"
  have "dom (getChild b) = set (map fst (entries b))"
    by (simp add: entries_map [OF ok, symmetric] dom_map_of_conv_image_fst)
  then show ?thesis
    using distinct_card [OF entries_props(2) [OF ok]] ok by (simp add: body_ok_def)
qed

abbreviation insert_fold :: "(u8 \<times> 'a) list \<Rightarrow> 'a body \<Rightarrow> 'a body" where
  "insert_fold \<equiv> fold (\<lambda>(k, c) n. insert_or_drop n k c)"

lemma capacity_le: "capacity l \<le> 256"
  by (simp add: capacity_def split: layout.splits)

lemma insert_all:
  "body_ok n \<Longrightarrow> distinct (map fst es) \<Longrightarrow> (\<And>k. k \<in> fst ` set es \<Longrightarrow> getChild n k = None) \<Longrightarrow>
   capacity (layout n) = 256 \<or> compactCount n + length es \<le> capacity (layout n) \<Longrightarrow>
   body_ok (insert_fold es n) \<and> getChild (insert_fold es n) = getChild n ++ map_of es \<and>
   capacity (layout (insert_fold es n)) = capacity (layout n) \<and>
   (capacity (layout n) < 256 \<longrightarrow> compactCount (insert_fold es n) = compactCount n + length es)"
proof (induction es arbitrary: n)
  case Nil
  then show ?case by simp
next
  case (Cons e es)
  obtain k x where e: "e = (k, x)" by (cases e)
  have "has_room n" using Cons.prems(4) by (auto simp: has_room_def)
  with n_insert_ok [OF Cons.prems(1), of k x] Cons.prems(3) [of k] e obtain n1 where
    n1: "n_insert n k x = Some n1" "body_ok n1" "getChild n1 = (getChild n)(k \<mapsto> x)"
      "capacity (layout n1) = capacity (layout n)" "capacity (layout n) < 256 \<longrightarrow> compactCount n1 = Suc (compactCount n)"
    by auto
  from Cons.prems(2) e have d: "distinct (map fst es)" "k \<notin> fst ` set es" by auto
  have none: "getChild n1 k' = None" if "k' \<in> fst ` set es" for k'
    using that d(2) Cons.prems(3) [of k'] n1(3) by auto
  have room: "capacity (layout n1) = 256 \<or> compactCount n1 + length es \<le> capacity (layout n1)"
    using n1(4,5) Cons.prems(4) capacity_le [of "layout n"] by auto
  have m: "(getChild n)(k \<mapsto> x) ++ map_of es = getChild n ++ map_of (e # es)"
  proof
    fix k'
    have "map_of es k = None" using d(2) by (simp add: map_of_eq_None_iff)
    then show "((getChild n)(k \<mapsto> x) ++ map_of es) k' = (getChild n ++ map_of (e # es)) k'"
      by (cases "k' = k"; cases "map_of es k'") (simp_all add: e map_add_def)
  qed
  have f: "insert_fold (e # es) n = insert_fold es n1" using n1(1) by (simp add: insert_or_drop_def e)
  have "compactCount n1 + length es = compactCount n + length (e # es)" if "capacity (layout n) < 256"
    using n1(5) that by simp
  with Cons.IH [OF n1(2) d(1) none room] show ?case unfolding f n1(3,4) m by presburger
qed

text \<open>An empty node of a layout.\<close>

definition fresh :: "'a body \<Rightarrow> bool" where
  "fresh b \<longleftrightarrow> body_ok b \<and> getChild b = Map.empty \<and> compactCount b = 0"

lemma fresh_new [simp]: "fresh new_N4" "fresh new_N16" "fresh new_N48" "fresh new_N256"
proof -
  have k: "keyed_ok n (replicate n 0) (replicate n None) 0" for n by (simp add: keyed_ok_def)
  have f: "keyed_find (replicate n 0) (replicate n None) n = Map.empty" for n :: nat
    by (rule ext) (simp add: keyed_find_None [OF k])
  show "fresh new_N4" "fresh new_N16" "fresh new_N48" "fresh new_N256"
    by (simp_all add: fresh_def body_ok_def layout_ok_def new_N4_def new_N16_def new_N48_def new_N256_def
        getChild_cases k f indexed_ok_def indexed_find_def fun_eq_iff o_def at_slot_def)
qed

lemma capacity_new [simp]:
  "capacity (layout new_N4) = 4" "capacity (layout new_N16) = 16" "capacity (layout new_N48) = 48" "capacity (layout new_N256) = 256"
  by (simp_all add: capacity_def new_N4_def new_N16_def new_N48_def new_N256_def)

lemma copyTo_ok:
  assumes ok: "body_ok b" and new: "fresh new" and cap: "count b \<le> capacity (layout new)"
  shows "body_ok (copyTo b new)" "getChild (copyTo b new) = getChild b"
    "capacity (layout (copyTo b new)) = capacity (layout new)"
    "capacity (layout new) < 256 \<Longrightarrow> compactCount (copyTo b new) = count b"
  using insert_all [of new "entries b"] entries_props(2) [OF ok] entries_length [OF ok] entries_map [OF ok] new cap
  by (auto simp: copyTo_def fresh_def)

lemma copy_insert_ok:
  assumes ok: "body_ok b" and new: "fresh new" and cap: "count b < capacity (layout new)" and k: "getChild b k = None"
  shows "body_ok (copy_insert new b k x)" "getChild (copy_insert new b k x) = (getChild b)(k \<mapsto> x)"
    "capacity (layout (copy_insert new b k x)) = capacity (layout new)"
proof -
  note c = copyTo_ok [OF ok new less_imp_le [OF cap]]
  have "has_room (copyTo b new)"
    using c(3,4) cap capacity_le [of "layout new"] by (cases "capacity (layout new) < 256") (auto simp: has_room_def)
  from n_insert_ok [OF c(1) _ this, of k x] c(2) k obtain b' where
    "n_insert (copyTo b new) k x = Some b'" "body_ok b'" "getChild b' = (getChild b)(k \<mapsto> x)"
    "capacity (layout b') = capacity (layout new)" using c(3) by auto
  then show "body_ok (copy_insert new b k x)" "getChild (copy_insert new b k x) = (getChild b)(k \<mapsto> x)"
    "capacity (layout (copy_insert new b k x)) = capacity (layout new)"
    by (simp_all add: copy_insert_def insert_or_drop_def)
qed

subsection \<open>Insertion and removal with growth, compaction and shrinking\<close>

lemma count_capacity: "body_ok b \<Longrightarrow> capacity (layout b) < 256 \<Longrightarrow> count b \<le> compactCount b \<and> compactCount b \<le> capacity (layout b)"
proof -
  assume ok: "body_ok b" and cap: "capacity (layout b) < 256"
  obtain l c cc where b: "b = Body l c cc" by (cases b)
  have lay: "layout_ok l cc" using body_ok_layout [OF ok] b by simp
  have c: "c = card (dom (getChild b))" using ok by (simp add: body_ok_def b)
  have slots: "c \<le> cc" if "inj_on f (dom (getChild b))" "f ` dom (getChild b) \<subseteq> {..<cc}" for f :: "u8 \<Rightarrow> nat"
    using card_inj_on_le [OF that finite_lessThan] c by simp
  have keyed: "c \<le> cc" if k: "keyed_ok n ks cs cc" and g: "getChild b = keyed_find ks cs n \<circ> f" "inj f" for n ks cs f
  proof -
    let ?s = "\<lambda>k. the (key_slot ks cs n (f k))"
    have cc: "cc \<le> n" using k by (simp add: keyed_ok_def)
    have s: "?s k < cc \<and> ks ! ?s k = f k" if "k \<in> dom (getChild b)" for k
    proof -
      from that g(1) obtain y where "keyed_find ks cs n (f k) = Some y" by (auto simp: dom_def)
      from key_slot_Some [OF k cc this] obtain i where "i < n" "key_slot ks cs n (f k) = Some i" "cs ! i = Some y" "ks ! i = f k"
        by blast
      with keyed_free [OF k, of i] show ?thesis by simp
    qed
    have "inj_on ?s (dom (getChild b))"
    proof (rule inj_onI)
      fix x y assume "x \<in> dom (getChild b)" "y \<in> dom (getChild b)" "?s x = ?s y"
      then have "f x = f y" using s [of x] s [of y] by metis
      then show "x = y" using g(2) by (simp add: inj_eq)
    qed
    then show ?thesis by (rule slots) (use s in blast)
  qed
  show ?thesis
  proof (cases l)
    case (N4 ks cs)
    with lay have k: "keyed_ok 4 ks cs cc" by (simp add: layout_ok_def)
    have "c \<le> cc" by (rule keyed [OF k, of "\<lambda>x. x"]) (simp_all add: b N4 getChild_cases o_def)
    with k show ?thesis by (simp add: b N4 capacity_def keyed_ok_def)
  next
    case (N16 ks cs)
    with lay have k: "keyed_ok 16 ks cs cc" by (simp add: layout_ok_def)
    have "c \<le> cc" by (rule keyed [OF k, of flipSign]) (simp_all add: b N16 getChild_cases inj_def)
    with k show ?thesis by (simp add: b N16 capacity_def keyed_ok_def)
  next
    case (N48 ci cs)
    with lay have k: "indexed_ok ci cs cc" by (simp add: layout_ok_def)
    have d: "ci ! unat x \<noteq> 48" if "x \<in> dom (getChild b)" for x
      using that by (auto simp: b N48 getChild_cases indexed_find_def split: if_splits)
    have "c \<le> cc"
    proof (rule slots [of "\<lambda>x. ci ! unat x"])
      show "inj_on (\<lambda>x. ci ! unat x) (dom (getChild b))"
        using k d unfolding indexed_ok_def by (intro inj_onI) (metis unat_u8_eq unat_u8_less)
      show "(\<lambda>x. ci ! unat x) ` dom (getChild b) \<subseteq> {..<cc}"
        using k d unfolding indexed_ok_def image_subset_iff by simp
    qed
    with k show ?thesis by (simp add: b N48 capacity_def indexed_ok_def)
  next
    case (N256 cs)
    with cap b show ?thesis by (simp add: capacity_def)
  qed
qed

text \<open>The layouts with few children have been left: what a node that is not the root keeps.\<close>

definition enough :: "'a body \<Rightarrow> bool" where
  "enough b \<longleftrightarrow> threshold (layout b) \<le> count b"

lemma threshold_capacity:
  "threshold l = (if capacity l = 4 then 0 else if capacity l = 16 then 3 else if capacity l = 48 then 12 else 37)"
  by (simp add: threshold_def capacity_def split: layout.splits)

lemma n_insert_full: "\<not> has_room b \<Longrightarrow> body_ok b \<Longrightarrow> n_insert b k x = None"
  using body_ok_layout [of b]
  by (cases "layout b") (auto simp: has_room_def capacity_def n_insert_defs layout_ok_def keyed_ok_def indexed_ok_def)

lemma insert_or_grow_ok:
  assumes ok: "body_ok b" and k: "getChild b k = None" and new: "fresh big" and big: "count b < capacity (layout big)"
  shows "body_ok (insert_or_grow big b k x)" "getChild (insert_or_grow big b k x) = (getChild b)(k \<mapsto> x)"
    "capacity (layout (insert_or_grow big b k x)) = (if has_room b then capacity (layout b) else capacity (layout big))"
proof (atomize (full), cases "has_room b")
  case True
  with n_insert_ok [OF ok k True, of x]
  show "body_ok (insert_or_grow big b k x) \<and> getChild (insert_or_grow big b k x) = (getChild b)(k \<mapsto> x) \<and>
    capacity (layout (insert_or_grow big b k x)) = (if has_room b then capacity (layout b) else capacity (layout big))"
    by (auto simp: insert_or_grow_def)
next
  case False
  with n_insert_full [OF False ok] copy_insert_ok [OF ok new big k, of x]
  show "body_ok (insert_or_grow big b k x) \<and> getChild (insert_or_grow big b k x) = (getChild b)(k \<mapsto> x) \<and>
    capacity (layout (insert_or_grow big b k x)) = (if has_room b then capacity (layout b) else capacity (layout big))"
    by (simp add: insert_or_grow_def)
qed

lemma insertAndUnlock_ok:
  assumes ok: "body_ok b" and k: "getChild b k = None"
  shows "body_ok (insertAndUnlock b k x)" "getChild (insertAndUnlock b k x) = (getChild b)(k \<mapsto> x)"
    "enough b \<Longrightarrow> enough (insertAndUnlock b k x)"
proof -
  have full: "count b = capacity (layout b)" if "\<not> has_room b" "\<not> (compactCount b = capacity (layout b) \<and> count b \<noteq> capacity (layout b))"
    using that count_capacity [OF ok] capacity_le [of "layout b"] by (cases "capacity (layout b) < 256") (auto simp: has_room_def)
  have main: "body_ok (insertAndUnlock b k x) \<and> getChild (insertAndUnlock b k x) = (getChild b)(k \<mapsto> x) \<and>
      (enough b \<longrightarrow> threshold (layout (insertAndUnlock b k x)) \<le> Suc (count b))"
  proof (cases "layout b")
    case (N4 ks cs)
    then have c: "capacity (layout b) = 4" by (simp add: capacity_def)
    show ?thesis
    proof (cases "compactCount b = 4 \<and> count b \<le> 3")
      case True
      with N4 copy_insert_ok [OF ok fresh_new(1) _ k, of x] show ?thesis
        by (simp add: insertAndUnlock_def threshold_capacity)
    next
      case False
      have "count b < 16" using count_capacity [OF ok] c by simp
      with insert_or_grow_ok [OF ok k fresh_new(2), of x] N4 False c full show ?thesis
        by (auto simp: insertAndUnlock_def threshold_capacity)
    qed
  next
    case (N16 ks cs)
    then have c: "capacity (layout b) = 16" by (simp add: capacity_def)
    show ?thesis
    proof (cases "compactCount b = 16 \<and> count b \<le> 14")
      case True
      with N16 copy_insert_ok [OF ok fresh_new(2) _ k, of x] c show ?thesis
        by (simp add: insertAndUnlock_def threshold_capacity enough_def)
    next
      case False
      have le: "count b \<le> compactCount b" "compactCount b \<le> 16" using count_capacity [OF ok] c by simp_all
      then have "\<not> has_room b \<Longrightarrow> 15 \<le> count b" using False c by (auto simp: has_room_def)
      with insert_or_grow_ok [OF ok k fresh_new(3), of x] N16 False c le show ?thesis
        by (auto simp: insertAndUnlock_def threshold_capacity enough_def)
    qed
  next
    case (N48 ci cs)
    then have c: "capacity (layout b) = 48" by (simp add: capacity_def)
    show ?thesis
    proof (cases "compactCount b = 48 \<and> count b \<noteq> 48")
      case True
      have "count b < 48" using True count_capacity [OF ok] c by simp
      with True N48 copy_insert_ok [OF ok fresh_new(3) _ k, of x] c show ?thesis
        by (simp add: insertAndUnlock_def threshold_capacity enough_def)
    next
      case False
      have le: "count b \<le> compactCount b" "compactCount b \<le> 48" using count_capacity [OF ok] c by simp_all
      then have "\<not> has_room b \<Longrightarrow> count b = 48" using False c by (auto simp: has_room_def)
      with insert_or_grow_ok [OF ok k fresh_new(4), of x] N48 False c le show ?thesis
        by (auto simp: insertAndUnlock_def threshold_capacity enough_def)
    qed
  next
    case (N256 cs)
    then have c: "capacity (layout b) = 256" by (simp add: capacity_def)
    then have "has_room b" by (simp add: has_room_def)
    with n_insert_ok [OF ok k, of x] N256 c show ?thesis
      by (auto simp: insertAndUnlock_def insert_or_drop_def threshold_capacity enough_def)
  qed
  then show "body_ok (insertAndUnlock b k x)" "getChild (insertAndUnlock b k x) = (getChild b)(k \<mapsto> x)" by simp_all
  with main card_upd [of "getChild b", OF k] ok show "enough b \<Longrightarrow> enough (insertAndUnlock b k x)"
    by (simp add: enough_def body_ok_def)
qed

lemma removeAndShrink_ok:
  assumes ok: "body_ok b" and k: "getChild b k = Some y" and new: "fresh small"
    and small: "threshold (layout b) \<le> Suc (capacity (layout small))" and pos: "threshold (layout b) \<noteq> 0"
    and low: "Suc (threshold (layout small)) \<le> threshold (layout b)" and e: "\<not> root \<Longrightarrow> enough b"
  shows "\<exists>b'. removeAndShrink small b k root = Inr b' \<and> body_ok b' \<and> getChild b' = (getChild b)(k := None) \<and>
    (\<not> root \<longrightarrow> enough b')"
proof (cases "root \<or> threshold (layout b) < count b")
  case True
  from n_remove_ok [OF ok k True] obtain b' where
    b': "n_remove b k root = Inr (Some b')" "body_ok b'" "getChild b' = (getChild b)(k := None)"
    "capacity (layout b') = capacity (layout b)" by blast
  have "threshold (layout b') = threshold (layout b)" by (simp add: threshold_capacity b'(4))
  moreover have "count b' = count b - 1"
    using b'(2) ok card_remove [of "getChild b", OF k] by (simp add: body_ok_def b'(3))
  ultimately have "enough b'" if "\<not> root" using that True by (simp add: enough_def)
  with b' show ?thesis by (simp add: removeAndShrink_def)
next
  case False
  then have c: "count b = threshold (layout b)" "\<not> root" using e by (simp_all add: enough_def)
  have r: "n_remove b k root = Inr None"
    using c pos by (cases "layout b") (auto simp: n_remove_defs threshold_def)
  from n_remove_ok [OF ok k, of True] obtain b' where
    b': "n_remove b k True = Inr (Some b')" "body_ok b'" "getChild b' = (getChild b)(k := None)" by blast
  have cb: "count b' = count b - 1"
    using b'(2) ok card_remove [of "getChild b", OF k] by (simp add: body_ok_def b'(3))
  have le: "count b' \<le> capacity (layout small)" using cb c(1) small by simp
  note cp = copyTo_ok [OF b'(2) new le]
  have "threshold (layout (copyTo b' small)) = threshold (layout small)" by (simp add: threshold_capacity cp(3))
  moreover have "count (copyTo b' small) = count b'" using cp(1,2) b'(2) by (simp add: body_ok_def)
  ultimately have "enough (copyTo b' small)" using cb c(1) low by (simp add: enough_def)
  then show ?thesis using c cp r b' by (simp add: removeAndShrink_def)
qed

lemma removeAndUnlock_ok:
  assumes ok: "body_ok b" and k: "getChild b k = Some y" and e: "\<not> root \<Longrightarrow> enough b"
  shows "\<exists>b'. removeAndUnlock b k root = Inr b' \<and> body_ok b' \<and> getChild b' = (getChild b)(k := None) \<and>
    (\<not> root \<longrightarrow> enough b')"
proof (cases "layout b")
  case (N4 ks cs)
  have "0 < count b" using ok k card_gt_0_iff [of "dom (getChild b)"] by (auto simp: body_ok_def finite_bytes)
  with N4 n_remove_ok [OF ok k, of False] obtain b' where
    "n_remove b k False = Inr (Some b')" "body_ok b'" "getChild b' = (getChild b)(k := None)" "capacity (layout b') = 4"
    by (auto simp: threshold_def capacity_def)
  with N4 show ?thesis by (simp add: removeAndUnlock_def enough_def threshold_capacity)
next
  case (N16 ks cs)
  then show ?thesis using removeAndShrink_ok [OF ok k fresh_new(1) _ _ _ e]
    by (simp add: removeAndUnlock_def threshold_capacity) (simp add: capacity_def)
next
  case (N48 ci cs)
  then show ?thesis using removeAndShrink_ok [OF ok k fresh_new(2) _ _ _ e]
    by (simp add: removeAndUnlock_def threshold_capacity) (simp add: capacity_def)
next
  case (N256 cs)
  then show ?thesis using removeAndShrink_ok [OF ok k fresh_new(3) _ _ _ e]
    by (simp add: removeAndUnlock_def threshold_capacity) (simp add: capacity_def)
qed

subsection \<open>Listing children\<close>

lemma count_loop_eq: "count_loop here = min 3 (length (filter (\<lambda>h. h) here))"
proof -
  have "fold (\<lambda>h n. if n < 3 \<and> h then Suc n else n) here n = min 3 (n + length (filter (\<lambda>h. h) here))" if "n \<le> 3" for n
    using that by (induction here arbitrary: n) auto
  then show ?thesis by (simp add: count_loop_def)
qed

lemma length_concat_entries:
  "length (concat (map (\<lambda>i. case g i of None \<Rightarrow> [] | Some c \<Rightarrow> [(h i, c)]) is)) = length (filter (\<lambda>i. g i \<noteq> None) is)"
  by (induction "is") (auto split: option.splits)

lemma getCount_ok: "body_ok b \<Longrightarrow> getCount b = min 3 (count b)"
proof -
  have "length (index_entries ci cs js) = length (filter (\<lambda>j. ci ! j \<noteq> 48 \<and> at_slot cs (ci ! j) \<noteq> None) js)"
    for ci and cs :: "'a option list" and js
    unfolding index_entries_def by (induction js) (auto split: option.splits)
  then have "getCount b = min 3 (length (entries b))"
    by (cases "layout b") (simp_all add: getCount_def N4_getCount_def N16_getCount_def N48_getCount_def N256_getCount_def
        count_loop_eq entries_def slot_entries_def array_entries_def length_concat_entries filter_map o_def del: upt_Suc)
  then show "body_ok b \<Longrightarrow> getCount b = min 3 (count b)" by (simp add: entries_length)
qed

lemma sort_key_strict: "distinct (map f xs) \<Longrightarrow> sorted_wrt (<) (map f (sort_key f xs))"
  by (simp add: strict_sorted_iff distinct_map)

lemma getChildren_ok:
  assumes ok: "body_ok b"
  shows "set (getChildren b lo hi) = {(k, x). getChild b k = Some x \<and> lo \<le> k \<and> k \<le> hi}"
    "sorted_wrt (<) (map fst (getChildren b lo hi))"
proof -
  obtain l c cc where b: "b = Body l c cc" by (cases b)
  have lay: "layout_ok l cc" using body_ok_layout [OF ok] b by simp
  have range: "sorted_wrt (<) [unat lo..<Suc (unat hi)]" by (rule sorted_wrt_upt)
  have lt: "j < 256" if "j \<in> set [unat lo..<Suc (unat hi)]" for j
    using that unat_u8_less [of hi] by (simp only: set_upt atLeastLessThan_iff) linarith
  have im: "k \<in> of_nat ` set [unat lo..<Suc (unat hi)] \<longleftrightarrow> lo \<le> k \<and> k \<le> hi" for k :: u8
  proof
    assume "k \<in> of_nat ` set [unat lo..<Suc (unat hi)]"
    then obtain j where j: "j \<in> set [unat lo..<Suc (unat hi)]" "k = of_nat j" by blast
    then show "lo \<le> k \<and> k \<le> hi" using lt [OF j(1)] by (auto simp: word_le_nat_alt unat_of_nat_u8)
  next
    assume "lo \<le> k \<and> k \<le> hi"
    then have "unat k \<in> set [unat lo..<Suc (unat hi)]" by (auto simp: word_le_nat_alt less_Suc_eq_le simp del: upt_Suc)
    then show "k \<in> of_nat ` set [unat lo..<Suc (unat hi)]" by (rule rev_image_eqI) simp
  qed
  have bytes: "set (byte_entries m [unat lo..<Suc (unat hi)]) = {(k, x). m k = Some x \<and> lo \<le> k \<and> k \<le> hi}"
    "sorted_wrt (<) (map fst (byte_entries m [unat lo..<Suc (unat hi)]))" for m :: "u8 \<Rightarrow> 'a option"
    using byte_entries_sorted [OF range lt, of m] im by (auto simp: in_byte_entries simp del: upt_Suc set_upt)
  have main: "set (getChildren b lo hi) = {(k, x). getChild b k = Some x \<and> lo \<le> k \<and> k \<le> hi} \<and>
    sorted_wrt (<) (map fst (getChildren b lo hi))"
  proof (cases l)
    case (N4 ks cs)
    with lay have k: "keyed_ok 4 ks cs cc" by (simp add: layout_ok_def)
    then have cc: "cc \<le> 4" by (simp add: keyed_ok_def)
    have "distinct (map fst (filter P (slot_entries (\<lambda>k. k) ks cs 4)))" for P
      using slot_entries_distinct [OF k order_refl, of "\<lambda>k. k"] by (simp add: distinct_map_filter)
    from sort_key_strict [OF this] slot_entries_set [OF k cc order_refl, of "\<lambda>k. k"] show ?thesis
      by (auto simp: getChildren_defs b N4 getChild_cases)
  next
    case (N16 ks cs)
    with lay have k: "keyed_ok 16 ks cs cc" by (simp add: layout_ok_def)
    have i: "inj flipSign" by (simp add: inj_def)
    have cc: "cc \<le> 16" using k by (simp add: keyed_ok_def)
    have d: "distinct (map fst (filter P (slot_entries flipSign ks cs cc)))" for P
      using slot_entries_distinct [OF k cc i] by (simp add: distinct_map_filter)
    have s: "set (slot_entries flipSign ks cs cc) = {(k, x). getChild b k = Some x}"
      using entries_props(1) [OF ok] by (simp add: entries_def b N16)
    show ?thesis using sort_key_strict [OF d] s by (auto simp: getChildren_defs b N16)
  next
    case (N48 ci cs)
    show ?thesis
      using bytes [of "indexed_find ci cs"] index_entries_bytes [of "[unat lo..<Suc (unat hi)]" ci cs, OF lt]
      by (simp add: getChildren_defs b N48 getChild_cases del: upt_Suc)
  next
    case (N256 cs)
    show ?thesis
      using bytes [of "\<lambda>k. at_slot cs (unat k)"] array_entries_bytes [of "[unat lo..<Suc (unat hi)]" cs, OF lt]
      by (simp add: getChildren_defs b N256 getChild_cases del: upt_Suc)
  qed
  then show "set (getChildren b lo hi) = {(k, x). getChild b k = Some x \<and> lo \<le> k \<and> k \<le> hi}"
    "sorted_wrt (<) (map fst (getChildren b lo hi))" by simp_all
qed

lemma child_slots_ok:
  assumes ok: "body_ok b"
  shows "Some x \<in> set (child_slots b) \<longleftrightarrow> (\<exists>k. getChild b k = Some x)"
proof -
  obtain l c cc where b: "b = Body l c cc" by (cases b)
  have lay: "layout_ok l cc" using body_ok_layout [OF ok] b by simp
  show ?thesis
  proof (cases l)
    case (N4 ks cs)
    with lay have k: "keyed_ok 4 ks cs cc" by (simp add: layout_ok_def)
    then have "cc \<le> 4" "length cs = 4" by (simp_all add: keyed_ok_def)
    with keyed_find_iff [OF k, of 4] show ?thesis
      by (auto simp: b N4 child_slots_def getChild_cases in_set_conv_nth)
  next
    case (N16 ks cs)
    with lay have k: "keyed_ok 16 ks cs cc" by (simp add: layout_ok_def)
    then have "cc \<le> 16" "length cs = 16" by (simp_all add: keyed_ok_def)
    with keyed_find_iff [OF k, of 16] show ?thesis
      by (auto simp: b N16 child_slots_def getChild_cases in_set_conv_nth) (metis flipSign_flipSign)
  next
    case (N48 ci cs)
    with lay have k: "indexed_ok ci cs cc" by (simp add: layout_ok_def)
    show ?thesis
    proof
      assume "Some x \<in> set (child_slots b)"
      then obtain i where i: "i < 48" "cs ! i = Some x" using k by (auto simp: b N48 child_slots_def indexed_ok_def in_set_conv_nth)
      then obtain j where "j < 256" "ci ! j = i" using k by (auto simp: indexed_ok_def in_set_conv_nth)
      with i k have "getChild b (of_nat j) = Some x"
        by (simp add: b N48 getChild_cases indexed_find_def unat_of_nat_u8 indexed_ok_def at_slot_in)
      then show "\<exists>k. getChild b k = Some x" by blast
    next
      assume "\<exists>k. getChild b k = Some x"
      then obtain q :: u8 where "at_slot cs (ci ! unat q) = Some x"
        by (auto simp: b N48 getChild_cases indexed_find_def split: if_splits)
      then show "Some x \<in> set (child_slots b)"
        by (auto simp: b N48 child_slots_def at_slot_def split: if_splits) (metis nth_mem)
    qed
  next
    case (N256 cs)
    with lay have "length cs = 256" by (simp add: layout_ok_def)
    then show ?thesis
      by (auto simp: b N256 child_slots_def getChild_cases in_set_conv_nth at_slot_in)
        (metis unat_of_nat_u8, metis unat_u8_less)
  qed
qed

lemma getAnyChild_ok:
  assumes ok: "body_ok b" and ne: "getChild b k \<noteq> None"
  shows "\<exists>q x. getAnyChild leaf b = Some x \<and> getChild b q = Some x"
proof -
  let ?cs = "live_children b"
  have cs: "x \<in> set ?cs \<longleftrightarrow> (\<exists>k. getChild b k = Some x)" for x
    unfolding child_slots_ok [OF ok, symmetric] live_children_def by (force split: option.splits)
  with ne have ne: "?cs \<noteq> []" by (metis empty_iff empty_set not_None_eq)
  have "\<exists>x\<in>set ?cs. getAnyChild leaf b = Some x"
  proof (cases "find_index leaf ?cs")
    case None
    then have "getAnyChild leaf b = Some (last ?cs)" using ne by (simp add: getAnyChild_def Let_def del: find_index_None)
    with ne show ?thesis by (intro bexI [of _ "last ?cs"]) simp_all
  next
    case (Some i)
    from find_index_SomeD [OF this] have "?cs ! i \<in> set ?cs" by simp
    with Some show ?thesis by (auto simp: getAnyChild_def)
  qed
  with cs show ?thesis by blast
qed

text \<open>With two children the second one is the other one.\<close>

lemma getSecondChild_ok:
  assumes ok: "body_ok b" and n4: "capacity (layout b) = 4" and q: "getChild b q = Some x" "q \<noteq> k"
  shows "\<exists>q x. getSecondChild b k = Inr (Some (x, q)) \<and> getChild b q = Some x \<and> q \<noteq> k"
proof -
  obtain l c cc where b: "b = Body l c cc" by (cases b)
  then obtain ks cs where l: "l = N4 ks cs" using n4 by (cases l) (simp_all add: capacity_def)
  have k: "keyed_ok 4 ks cs cc" using body_ok_layout [OF ok] b l by (simp add: layout_ok_def)
  then have cc: "cc \<le> 4" by (simp add: keyed_ok_def)
  from q(1) keyed_find_iff [OF k cc order_refl] obtain i where i: "i < 4" "cs ! i = Some x" "ks ! i = q"
    by (auto simp: b l getChild_cases)
  then have "i < cc" using keyed_free [OF k, of i] by simp
  with i q(2) have "find_index (\<lambda>i. cs ! i \<noteq> None \<and> ks ! i \<noteq> k) [0..<cc] \<noteq> None" by auto
  then obtain j where j: "find_index (\<lambda>i. cs ! i \<noteq> None \<and> ks ! i \<noteq> k) [0..<cc] = Some j" by blast
  from find_index_SomeD [OF j] have d: "j < cc" "cs ! j \<noteq> None" "ks ! j \<noteq> k" by auto
  then have "getChild b (ks ! j) = cs ! j"
    using keyed_find_iff [OF k cc order_refl, of "ks ! j"] cc by (force simp: b l getChild_cases)
  with d j show ?thesis by (auto simp: getSecondChild_def b l)
qed

end
