(* ===== verification/Roart_Map.thy ===== *)
theory Roart_Map
  imports Roart Roart_Kids
begin

text \<open>
  The tree of \<^verbatim>\<open>roart/roart.cpp\<close> as a finite map from the 8 bytes of a key, and the
  correctness of lookup.  \<open>rmap n\<close> follows the bytes at the levels of the nodes and looks at no
  prefix.  The invariant \<open>rtree Q p n\<close> of a node reached through the bytes \<open>p\<close> says that every
  key below it begins with \<open>p\<close> and with the bytes the node skips, and that the stored prefix,
  unless it is too short for the levels, is part of them; \<open>Q\<close> is what else every node satisfies.
  Nothing here depends on the counters of the nodes.
\<close>

subsection \<open>The map of a tree\<close>

function rmap :: "rnode \<Rightarrow> u8 list \<Rightarrow> u64 option" where
  "rmap (RLeaf k v) fk = (if fk = k then Some v else None)"
| "rmap (RNode h b) fk = (case getChild b (fk ! level h) of None \<Rightarrow> None | Some c \<Rightarrow> rmap c fk)"
  by pat_completeness auto
termination
  by (relation "measure (\<lambda>(n, _). size n)") (auto dest!: getChild_size [where f = size] simp: less_SucI)

text \<open>\<open>P\<close> are the bytes that lead to the children, the first \<open>d\<close> of them to the node.\<close>

definition head_ok :: "nat \<Rightarrow> rhead \<Rightarrow> u8 list \<Rightarrow> bool" where
  "head_ok d h P \<longleftrightarrow>
     length P = level h \<and> d \<le> level h \<and> level h \<le> 7 \<and> length (prefix_bytes h) = 4 \<and>
     (level h \<le> d + prefixCount h \<longrightarrow>
        prefixCount h \<le> level h \<and>
        (\<forall>i<min (prefixCount h) 4. prefix_bytes h ! i = P ! (level h - prefixCount h + i)))"

function rtree :: "(nat \<Rightarrow> rhead \<Rightarrow> rnode body \<Rightarrow> bool) \<Rightarrow> u8 list \<Rightarrow> rnode \<Rightarrow> bool" where
  "rtree Q p (RLeaf k v) = (length k = 8 \<and> take (length p) k = p)"
| "rtree Q p (RNode h b) =
     (\<exists>P. take (length p) P = p \<and> head_ok (length p) h P \<and> Q (length p) h b \<and>
        (\<forall>k c. getChild b k = Some c \<longrightarrow> rtree Q (P @ [k]) c))"
  by pat_completeness auto
termination
  by (relation "measure (\<lambda>(_, _, n). size n)") (auto dest!: getChild_size [where f = size] simp: less_SucI)

declare rtree.simps(2) [simp del]

lemma rtreeE:
  assumes "rtree Q p (RNode h b)"
  obtains P where "take (length p) P = p" "head_ok (length p) h P" "Q (length p) h b"
    "\<And>k c. getChild b k = Some c \<Longrightarrow> rtree Q (P @ [k]) c"
  using assms unfolding rtree.simps by blast

lemma rtreeI:
  "take (length p) P = p \<Longrightarrow> head_ok (length p) h P \<Longrightarrow> Q (length p) h b \<Longrightarrow>
   (\<And>k c. getChild b k = Some c \<Longrightarrow> rtree Q (P @ [k]) c) \<Longrightarrow> rtree Q p (RNode h b)"
  unfolding rtree.simps by blast

lemma head_okD:
  assumes "head_ok d h P"
  shows "length P = level h" "d \<le> level h" "level h \<le> 7" "length (prefix_bytes h) = 4"
    "level h \<le> d + prefixCount h \<Longrightarrow> prefixCount h \<le> level h"
    "level h \<le> d + prefixCount h \<Longrightarrow> i < prefixCount h \<Longrightarrow> i < 4 \<Longrightarrow>
       prefix_bytes h ! i = P ! (level h - prefixCount h + i)"
  using assms unfolding head_ok_def by auto

lemma rtree_mono: "rtree Q p n \<Longrightarrow> (\<And>d h b. Q d h b \<Longrightarrow> Q' d h b) \<Longrightarrow> rtree Q' p n"
proof (induction n arbitrary: p rule: measure_induct_rule [where f = size])
  case (less n)
  show ?case
  proof (cases n)
    case (RLeaf k v)
    with less.prems show ?thesis by simp
  next
    case (RNode h b)
    from less.prems(1) [unfolded RNode] show ?thesis
    proof (rule rtreeE)
      fix P assume P: "take (length p) P = p" "head_ok (length p) h P" "Q (length p) h b"
        "\<And>k c. getChild b k = Some c \<Longrightarrow> rtree Q (P @ [k]) c"
      show ?thesis unfolding RNode
      proof (rule rtreeI [OF P(1,2)])
        show "Q' (length p) h b" using P(3) less.prems(2) by blast
        show "rtree Q' (P @ [k]) c" if "getChild b k = Some c" for k c
          using less.IH [OF _ P(4) [OF that] less.prems(2)] getChild_size [OF that, of size] RNode by simp
      qed
    qed
  qed
qed

lemma take_length_Suc: "length fk = 8 \<Longrightarrow> level h \<le> 7 \<Longrightarrow> take (Suc (level h)) fk = P @ [k] \<Longrightarrow> length P = level h \<Longrightarrow>
    take (level h) fk = P \<and> fk ! level h = k"
  by (simp add: take_Suc_conv_app_nth)

text \<open>The keys of a tree have 8 bytes and begin with the bytes on the way.\<close>

lemma rmap_keys:
  "rtree Q p n \<Longrightarrow> rmap n fk = Some v \<Longrightarrow> length fk = 8 \<and> take (length p) fk = p"
proof (induction n arbitrary: p rule: measure_induct_rule [where f = size])
  case (less n)
  show ?case
  proof (cases n)
    case (RLeaf k w)
    with less.prems show ?thesis by (auto split: if_splits)
  next
    case (RNode h b)
    from less.prems(1) [unfolded RNode] obtain P where P: "take (length p) P = p" "head_ok (length p) h P" "Q (length p) h b"
      "\<And>k c. getChild b k = Some c \<Longrightarrow> rtree Q (P @ [k]) c" unfolding rtree.simps by blast
    note hd = head_okD [OF P(2)]
    from less.prems(2) RNode obtain c where c: "getChild b (fk ! level h) = Some c" "rmap c fk = Some v"
      by (auto split: option.splits)
    from less.IH [OF _ P(4) [OF c(1)] c(2)] getChild_size [OF c(1), of size] RNode
    have f: "length fk = 8" "take (Suc (level h)) fk = P @ [fk ! level h]" using hd(1) by auto
    with take_length_Suc [OF f(1) hd(3) f(2) hd(1)] have t: "take (level h) fk = P" by simp
    then have "take (length p) fk = take (length p) P" using hd(2) by (metis min.absorb1 take_take)
    with P(1) f(1) show ?thesis by simp
  qed
qed

lemma rmap_path:
  assumes "length P = level h" "level h \<le> 7" "\<And>k c. getChild b k = Some c \<Longrightarrow> rtree Q (P @ [k]) c"
    and "rmap (RNode h b) fk = Some v"
  shows "length fk = 8" "take (level h) fk = P"
proof -
  from assms(4) obtain c where c: "getChild b (fk ! level h) = Some c" "rmap c fk = Some v"
    by (auto split: option.splits)
  from rmap_keys [OF assms(3) [OF c(1)] c(2)] assms(1)
  have f: "length fk = 8" "take (Suc (level h)) fk = P @ [fk ! level h]" by auto
  with take_length_Suc [OF f(1) assms(2) f(2) assms(1)] show "length fk = 8" "take (level h) fk = P" by simp_all
qed

lemma rmap_other:
  assumes "length P = level h" "level h \<le> 7" "\<And>k c. getChild b k = Some c \<Longrightarrow> rtree Q (P @ [k]) c"
    and "take (level h) fk \<noteq> P"
  shows "rmap (RNode h b) fk = None"
  using rmap_path [OF assms(1,2), of b Q fk] assms(3,4) by (metis not_None_eq)

subsection \<open>Prefixes\<close>

text \<open>A counting loop that stops at the first difference of two lists.\<close>

lemma take_eq_nth: "n \<le> length xs \<Longrightarrow> n \<le> length ys \<Longrightarrow> take n xs = take n ys \<longleftrightarrow> (\<forall>i<n. xs ! i = ys ! i)"
  by (metis nth_take_lemma nth_take)

lemma first_from_hit: "first_from q i m < m \<Longrightarrow> i \<le> first_from q i m \<and> q (first_from q i m)"
  using first_from_props [of i q m] by blast

lemma first_from_miss: "\<not> first_from q i m < m \<Longrightarrow> i \<le> j \<Longrightarrow> j < m \<Longrightarrow> \<not> q j"
  using first_from_props [of i q m] by (meson less_le_trans not_less)

lemma first_from_before: "i \<le> j \<Longrightarrow> j < first_from q i m \<Longrightarrow> \<not> q j"
  using first_from_props [of i q m] by blast

lemma first_from_top: "\<not> first_from q i m < m \<Longrightarrow> i \<le> m \<Longrightarrow> first_from q i m = m"
  using first_from_props [of i q m] by (simp add: max_def split: if_splits)

lemma checkPrefix_ok:
  assumes h: "head_ok d h P" and fk: "length fk = 8"
  shows "case checkPrefix h 8 fk d of
      NoMatch \<Rightarrow> take (level h) fk \<noteq> P
    | OptimisticMatch lv \<Rightarrow> lv = level h
    | Match lv \<Rightarrow> lv = level h \<and> (take d fk = take d P \<longrightarrow> take (level h) fk = P)"
proof -
  note hd = head_okD [OF h]
  let ?L = "level h" and ?pc = "prefixCount h"
  define i0 where "i0 = d + ?pc - ?L"
  define m where "m = min ?pc 4"
  define q where "q = (\<lambda>i. prefix_bytes h ! i \<noteq> fk ! (d + (i - i0)))"
  define j where "j = first_from q i0 m"
  have PL: "length P = ?L" using hd(1) .
  show ?thesis
  proof (cases "?pc + d < ?L")
    case True
    then show ?thesis using hd(3) by (simp add: checkPrefix_def)
  next
    case False
    then have c: "?pc \<le> ?L" "?L \<le> d + ?pc" using hd(5) by simp_all
    have q: "q i \<longleftrightarrow> P ! (?L - ?pc + i) \<noteq> fk ! (?L - ?pc + i)" if "i0 \<le> i" "i < m" for i
    proof -
      have "d + (i - i0) = ?L - ?pc + i" using that(1) c unfolding i0_def by simp
      then show ?thesis using hd(6) [OF c(2), of i] that(2) by (simp add: q_def m_def)
    qed
    have r: "checkPrefix h 8 fk d =
        (if 0 < ?pc then if j < m then NoMatch else if 4 < ?pc then OptimisticMatch ?L else Match (d + (j - i0)) else Match d)"
      using False hd(3) by (simp add: checkPrefix_def Let_def i0_def m_def q_def j_def)
    consider "0 < ?pc" "j < m" | "4 < ?pc" "\<not> j < m" | "0 < ?pc" "?pc \<le> 4" "\<not> j < m" | "?pc = 0" by linarith
    then show ?thesis
    proof cases
      case 1
      from first_from_hit [of q i0 m] 1(2) have ji: "i0 \<le> j" "q j" by (simp_all add: j_def)
      with q [OF ji(1) 1(2)] have "P ! (?L - ?pc + j) \<noteq> fk ! (?L - ?pc + j)" by simp
      moreover have "?L - ?pc + j < ?L" using 1 c unfolding m_def by linarith
      ultimately have "take ?L fk \<noteq> P" by (metis nth_take)
      with r 1 show ?thesis by simp
    next
      case 2
      with r show ?thesis by simp
    next
      case 3
      have m: "m = ?pc" using 3 by (simp add: m_def)
      have i0m: "i0 \<le> m" using m hd(2) unfolding i0_def by simp
      have jm: "j = m" using first_from_top [of q i0 m] 3(3) i0m by (simp add: j_def)
      have l: "d + (j - i0) = ?L" using jm m c hd(2) unfolding i0_def by simp
      have "take ?L fk = P" if e: "take d fk = take d P"
      proof -
        have "fk ! i = P ! i" if i: "i < ?L" for i
        proof (cases "i < d")
          case True
          with e show ?thesis by (metis nth_take)
        next
          case False
          define i' where "i' = i - (?L - ?pc)"
          have i': "i0 \<le> i'" "i' < m" "?L - ?pc + i' = i"
            using False i c m hd(2) unfolding i'_def i0_def by auto
          from first_from_miss [of q i0 m i'] 3(3) i'(1,2) have "\<not> q i'" by (simp add: j_def)
          with q [OF i'(1,2)] i'(3) show ?thesis by simp
        qed
        then show ?thesis using PL fk hd(3) take_eq_nth [of ?L fk P] by simp
      qed
      with r 3 l show ?thesis by simp
    next
      case 4
      then have "d = ?L" using c hd(2) by simp
      with r 4 PL show ?thesis by simp
    qed
  qed
qed

subsection \<open>Lookup\<close>

lemma get_from_ok:
  "rtree Q p n \<Longrightarrow> \<not> is_leaf n \<Longrightarrow> length fk = 8 \<Longrightarrow> opt \<or> take (length p) fk = p \<Longrightarrow>
   get_from n fk (length p) opt = rmap n fk"
proof (induction n arbitrary: p opt rule: measure_induct_rule [where f = size])
  case (less n)
  then obtain h b where n: "n = RNode h b" by (cases n) auto
  from less.prems(1) [unfolded n] obtain P where P: "take (length p) P = p" "head_ok (length p) h P" "Q (length p) h b"
    "\<And>k c. getChild b k = Some c \<Longrightarrow> rtree Q (P @ [k]) c" unfolding rtree.simps by blast
  note hd = head_okD [OF P(2)]
  define below where "below lv' opt' = (if 8 \<le> lv' then None
        else case getChild b (fk ! lv') of
               None \<Rightarrow> None
             | Some (RLeaf k v) \<Rightarrow>
                 if lv' < 7 \<or> opt' then if checkKey k 8 fk then Some v else None else Some v
             | Some (RNode h' b') \<Rightarrow> get_from (RNode h' b') fk (Suc lv') opt')" for lv' opt'
  have g: "get_from n fk (length p) opt = (case checkPrefix h 8 fk (length p) of
           NoMatch \<Rightarrow> None | OptimisticMatch lv' \<Rightarrow> below lv' True | Match lv' \<Rightarrow> below lv' opt)"
    by (simp add: n below_def Let_def split: check.split)
  have down: "below (level h) opt' = rmap n fk" if o: "opt' \<or> take (level h) fk = P" for opt'
  proof (cases "getChild b (fk ! level h)")
    case None
    with hd(3) show ?thesis by (simp add: below_def n)
  next
    case (Some c)
    note ct = P(4) [OF Some]
    show ?thesis
    proof (cases c)
      case (RLeaf k v)
      with ct hd(1) have k: "length k = 8" "take (Suc (level h)) k = P @ [fk ! level h]" by simp_all
      have "k = fk" if nl: "\<not> (level h < 7 \<or> opt')"
      proof -
        from nl o hd(3) have l: "level h = 7" "take 7 fk = P" by auto
        then have "take (Suc 7) fk = P @ [fk ! 7]" using less.prems(3) take_Suc_conv_app_nth [of 7 fk] by simp
        with k less.prems(3) l(1) show ?thesis by simp
      qed
      with k Some RLeaf hd(3) less.prems(3) show ?thesis by (auto simp: below_def n checkKey_def)
    next
      case (RNode h' b')
      have "opt' \<or> take (length (P @ [fk ! level h])) fk = P @ [fk ! level h]"
        using o hd(1,3) less.prems(3) by (auto simp: take_Suc_conv_app_nth)
      from less.IH [OF _ ct _ less.prems(3) this] getChild_size [OF Some, of size] RNode n hd(1) Some hd(3)
      show ?thesis by (simp add: below_def)
    qed
  qed
  show ?case
  proof (cases "checkPrefix h 8 fk (length p)")
    case NoMatch
    with checkPrefix_ok [OF P(2) less.prems(3)] have "take (level h) fk \<noteq> P" by simp
    from rmap_other [OF hd(1,3) P(4) this] NoMatch g n show ?thesis by simp
  next
    case (OptimisticMatch lv)
    with checkPrefix_ok [OF P(2) less.prems(3)] down [of True] g show ?thesis by simp
  next
    case (Match lv)
    with checkPrefix_ok [OF P(2) less.prems(3)] have m: "lv = level h" "take (length p) fk = take (length p) P \<longrightarrow> take (level h) fk = P"
      by simp_all
    with P(1) less.prems(4) down [of opt] g Match show ?thesis by auto
  qed
qed

end
