(* ===== verification/Roart_Insert.thy ===== *)
theory Roart_Insert
  imports Roart_Map
begin

text \<open>
  Insertion into the tree of \<^verbatim>\<open>roart/roart.cpp\<close>: it updates the map at one key, keeps the
  invariant, and starts again at most once.  The flag \<open>s\<close> of the invariant says whether every
  prefix fits the levels, as in a tree no crash has touched; without it prefixes may be stale
  and insertion repairs those on its way.
\<close>

subsection \<open>The invariant of the nodes\<close>

definition node_ok :: "bool \<Rightarrow> nat \<Rightarrow> rhead \<Rightarrow> rnode body \<Rightarrow> bool" where
  "node_ok s d h b \<longleftrightarrow>
     (s \<longrightarrow> d + prefixCount h = level h) \<and> body_ok b \<and>
     (if d = 0 then level h = 0 \<and> prefixCount h = 0 \<and> capacity (layout b) = 256
      else 2 \<le> count b \<and> enough b)"

lemma rnode_okD:
  assumes "node_ok s d h b"
  shows "s \<Longrightarrow> d + prefixCount h = level h" "body_ok b"
    "d = 0 \<Longrightarrow> level h = 0" "d = 0 \<Longrightarrow> prefixCount h = 0" "d = 0 \<Longrightarrow> capacity (layout b) = 256"
    "0 < d \<Longrightarrow> 2 \<le> count b" "0 < d \<Longrightarrow> enough b"
  using assms by (auto simp: node_ok_def split: if_splits)

text \<open>The leaf at the end of \<open>getAnyChild\<close> is one of the node's keys.\<close>

lemma getAnyChildTid_ok:
  "rtree (node_ok s) p n \<Longrightarrow> p \<noteq> [] \<Longrightarrow> \<exists>k v. getAnyChildTid n = Inr k \<and> rmap n k = Some v"
proof (induction n arbitrary: p rule: measure_induct_rule [where f = size])
  case (less n)
  show ?case
  proof (cases n)
    case (RLeaf k v)
    then show ?thesis by simp
  next
    case (RNode h b)
    from less.prems(1) [unfolded RNode] obtain P where P: "take (length p) P = p" "head_ok (length p) h P"
      "node_ok s (length p) h b" "\<And>k c. getChild b k = Some c \<Longrightarrow> rtree (node_ok s) (P @ [k]) c"
      unfolding rtree.simps by blast
    note hd = head_okD [OF P(2)]
    from rnode_okD [OF P(3)] less.prems(2) have ok: "body_ok b" "0 < card (dom (getChild b))"
      by (simp_all add: body_ok_def)
    then obtain q0 where "getChild b q0 \<noteq> None" by (metis card.empty domIff empty_iff less_irrefl subsetI subset_antisym)
    from getAnyChild_ok [OF ok(1) this] obtain q c where c: "getAnyChild is_leaf b = Some c" "getChild b q = Some c" by blast
    from less.IH [OF _ P(4) [OF c(2)]] getChild_size [OF c(2), of size] RNode obtain k v where
      k: "getAnyChildTid c = Inr k" "rmap c k = Some v" by auto
    from rmap_keys [OF P(4) [OF c(2)] k(2)] hd(1) have "length k = 8" "take (Suc (level h)) k = P @ [q]" by auto
    with take_length_Suc [OF this(1) hd(3) this(2) hd(1)] have "k ! level h = q" by simp
    with k c RNode show ?thesis by auto
  qed
qed

subsection \<open>Repairing and comparing prefixes\<close>

lemma prefix_fits:
  assumes "length P = level h" "d \<le> level h" "level h \<le> 7" "length bs \<ge> min (level h - d) 4"
    and "\<And>i. i < min (level h - d) 4 \<Longrightarrow> bs ! i = P ! (d + i)"
  shows "head_ok d (setPrefix h bs (level h - d)) P"
    and "d + prefixCount (setPrefix h bs (level h - d)) = level h"
    and "level (setPrefix h bs (level h - d)) = level h"
  using assms by (auto simp: head_ok_def setPrefix_def nth_append)

lemma recover_prefix_ok:
  assumes t: "rtree (node_ok s) p (RNode h b)" and P: "take (length p) P = p" "head_ok (length p) h P"
      "node_ok s (length p) h b" "\<And>k c. getChild b k = Some c \<Longrightarrow> rtree (node_ok s) (P @ [k]) c"
  shows "\<exists>h'. recover_prefix h b (length p) = Inr (h', prefixCount h + length p \<noteq> level h) \<and>
    head_ok (length p) h' P \<and> length p + prefixCount h' = level h \<and> level h' = level h \<and>
    node_ok s (length p) h' b \<and> (prefixCount h + length p = level h \<longrightarrow> h' = h)"
proof (cases "prefixCount h + length p = level h")
  case True
  with P show ?thesis by (simp add: recover_prefix_def add.commute)
next
  case False
  note hd = head_okD [OF P(2)] and no = rnode_okD [OF P(3)]
  from no(3,4) False have p: "p \<noteq> []" by auto
  from getAnyChildTid_ok [OF t p] obtain k v where k: "getAnyChildTid (RNode h b) = Inr k" "rmap (RNode h b) k = Some v" by blast
  from rmap_path [OF hd(1,3) P(4) k(2)] have kl: "length k = 8" "take (level h) k = P" by simp_all
  let ?d = "length p" and ?L = "level h"
  have e: "(if ?L > ?d then ?L - ?d else ?d - ?L) = ?L - ?d" using hd(2) by simp
  have le: "\<not> length k < ?d + min (?L - ?d) 4" using kl(1) hd(2,3) by simp
  have bs: "drop ?d k ! i = P ! (?d + i)" if "i < min (?L - ?d) 4" for i
  proof -
    have "?d + i < ?L" "?d \<le> length k" using that kl(1) hd(2,3) by auto
    moreover have "P ! (?d + i) = k ! (?d + i)" using kl(2) calculation(1) by (metis nth_take)
    ultimately show ?thesis by simp
  qed
  have len: "min (?L - ?d) 4 \<le> length (drop ?d k)" using kl(1) hd(2,3) by simp
  note f = prefix_fits [OF hd(1,2,3) len bs]
  have "recover_prefix h b ?d = Inr (setPrefix h (drop ?d k) (?L - ?d), True)"
    using False k(1) e le by (simp add: recover_prefix_def Let_def)
  moreover have "node_ok s ?d (setPrefix h (drop ?d k) (?L - ?d)) b"
    using no f(2,3) p by (simp add: node_ok_def)
  ultimately show ?thesis using f False by auto
qed

text \<open>
  Comparing all the bytes \<open>P\<close> from position \<open>d\<close> up to the level \<open>L\<close>: the key has them, or
  where it leaves them and the bytes after that.
\<close>

definition verdict_ok :: "nat \<Rightarrow> nat \<Rightarrow> u8 list \<Rightarrow> u8 list \<Rightarrow> pessimistic \<Rightarrow> bool" where
  "verdict_ok d L P fk r \<longleftrightarrow>
     (case r of
        PMatch l \<Rightarrow> l = L \<and> take L fk = P
      | PNoMatch l k rest \<Rightarrow>
          d \<le> l \<and> l < L \<and> take l fk = take l P \<and> fk ! l \<noteq> P ! l \<and> k = P ! l \<and>
          length rest \<ge> min (L - Suc l) 4 \<and> (\<forall>i<min (L - Suc l) 4. rest ! i = P ! (Suc l + i))
      | SkippedLevel \<Rightarrow> False)"

lemma compare_prefix_ok:
  assumes h: "head_ok d h P" "d + prefixCount h = level h" and fk: "length fk = 8" "take d fk = take d P"
    and kt: "4 < prefixCount h \<Longrightarrow> \<exists>k. getAnyChildTid (RNode h b) = Inr k \<and> length k = 8 \<and> take (level h) k = P"
  shows "\<exists>r. compare_prefix h b fk d = Inr r \<and> verdict_ok d (level h) P fk r"
proof -
  note hd = head_okD [OF h(1)]
  let ?pc = "prefixCount h" and ?L = "level h"
  have dl: "?L = d + ?pc" using h(2) by simp
  obtain kt where ld: "(if 4 < ?pc \<and> d + ?pc - ?L < ?pc then getAnyChildTid (RNode h b) else Inr []) = Inr kt"
    and k4: "4 < ?pc \<Longrightarrow> length kt = 8 \<and> take ?L kt = P" and k0: "\<not> 4 < ?pc \<Longrightarrow> kt = []"
    using kt dl by (cases "4 < ?pc") auto
  define cur where "cur = (\<lambda>i. if 4 \<le> i then kt ! (d + i) else prefix_bytes h ! i)"
  have cur: "cur i = P ! (d + i)" if i: "i < ?pc" for i
  proof (cases "4 \<le> i")
    case True
    then have "take ?L kt = P" "d + i < ?L" using i k4 dl by auto
    with True show ?thesis by (metis cur_def nth_take)
  next
    case False
    with hd(6) [of i] i dl show ?thesis by (simp add: cur_def)
  qed
  define j where "j = first_from (\<lambda>i. cur i \<noteq> fk ! (d + i)) 0 ?pc"
  have nb: "\<not> (kt \<noteq> [] \<and> length kt < ?L)" using k4 k0 hd(3) by (cases "4 < ?pc") auto
  have r: "compare_prefix h b fk d = Inr (if j < ?pc then
      PNoMatch (d + j) (cur j)
        (if 4 < ?pc then map (\<lambda>i. kt ! (d + j + i + 1)) [0..<min (?pc - j - 1) 4]
         else map (\<lambda>i. prefix_bytes h ! (j + i + 1)) [0..<?pc - j - 1])
      else PMatch (d + j))"
    unfolding compare_prefix_def Let_def dl using ld nb by (simp add: dl cur_def j_def)
  have same: "fk ! i = P ! i" if "i < d" for i using fk(2) that by (metis nth_take)
  have upto: "fk ! i = P ! i" if i: "i < d + j" "j \<le> ?pc" for i
  proof (cases "i < d")
    case True
    then show ?thesis by (rule same)
  next
    case False
    define i' where "i' = i - d"
    have i': "i = d + i'" "i' < j" using False i unfolding i'_def by simp_all
    with first_from_before [of 0 i' "\<lambda>i. cur i \<noteq> fk ! (d + i)" ?pc] cur [of i'] i(2) show ?thesis by (simp add: j_def)
  qed
  show ?thesis
  proof (cases "j < ?pc")
    case True
    from first_from_hit [of "\<lambda>i. cur i \<noteq> fk ! (d + i)" 0 ?pc] True have ne: "cur j \<noteq> fk ! (d + j)" by (simp add: j_def)
    let ?rest = "if 4 < ?pc then map (\<lambda>i. kt ! (d + j + i + 1)) [0..<min (?pc - j - 1) 4]
         else map (\<lambda>i. prefix_bytes h ! (j + i + 1)) [0..<?pc - j - 1]"
    have len: "length ?rest \<ge> min (?L - Suc (d + j)) 4" using dl True by auto
    have rest: "?rest ! i = P ! (Suc (d + j) + i)" if i: "i < min (?L - Suc (d + j)) 4" for i
    proof (cases "4 < ?pc")
      case t: True
      have "d + j + i + 1 < ?L" using i unfolding min_less_iff_conj by linarith
      with k4 t have "kt ! (d + j + i + 1) = P ! (d + j + i + 1)" by (metis nth_take)
      with t i dl show ?thesis by simp
    next
      case False
      have "j + i + 1 < ?pc" "j + i + 1 < 4" using i dl False by auto
      with hd(6) [of "j + i + 1"] dl have "prefix_bytes h ! (j + i + 1) = P ! (d + (j + i + 1))" by simp
      with False i dl show ?thesis by (simp add: add.assoc)
    qed
    have "take (d + j) fk = take (d + j) P"
      using upto True dl hd(1,3) fk(1) by (subst take_eq_nth) auto
    moreover have "fk ! (d + j) \<noteq> P ! (d + j)" using ne cur [OF True] by simp
    ultimately show ?thesis using r True dl len rest cur [OF True] by (simp add: verdict_ok_def del: upt_Suc)
  next
    case False
    with first_from_top [of "\<lambda>i. cur i \<noteq> fk ! (d + i)" 0 ?pc] have "j = ?pc" by (simp add: j_def)
    moreover from this have "take ?L fk = P"
      using upto dl hd(1,3) fk(1) take_eq_nth [of ?L fk P] by simp
    ultimately show ?thesis using r dl by (simp add: verdict_ok_def)
  qed
qed

subsection \<open>New nodes\<close>

lemma two_leaves_ok:
  assumes "k \<noteq> k'"
  shows "\<exists>b. two_leaves h k x k' x' = RNode h b \<and> body_ok b \<and> count b = 2 \<and> enough b \<and>
    getChild b = [k \<mapsto> x, k' \<mapsto> x']"
proof -
  have n: "body_ok (new_N4 :: rnode body)" "getChild (new_N4 :: rnode body) = Map.empty" "compactCount (new_N4 :: rnode body) = 0"
    using fresh_new(1) [where 'a = rnode] by (simp_all add: fresh_def)
  have "has_room (new_N4 :: rnode body)" by (simp add: has_room_def n(3))
  from n_insert_ok [OF n(1) _ this, of k x] n obtain b1 where
    b1: "n_insert new_N4 k x = Some b1" "body_ok b1" "getChild b1 = [k \<mapsto> x]" "capacity (layout b1) = 4" "compactCount b1 = 1"
    by auto
  have "has_room b1" by (simp add: has_room_def b1)
  from n_insert_ok [OF b1(2) _ this, of k' x'] b1 assms obtain b2 where
    b2: "n_insert b1 k' x' = Some b2" "body_ok b2" "getChild b2 = [k \<mapsto> x, k' \<mapsto> x']" "capacity (layout b2) = 4"
    by auto
  have "count b2 = 2" using b2(2,3) assms by (simp add: body_ok_def)
  with b1(1) b2 show ?thesis
    by (auto simp: two_leaves_def insert_or_drop_def enough_def threshold_capacity)
qed

text \<open>Where two keys of 8 bytes first differ.\<close>

lemma first_difference:
  assumes l: "length lk = 8" "length fk = 8" and t: "take lv lk = take lv fk" and ne: "lk \<noteq> fk" and lv: "lv \<le> 8"
  defines "at \<equiv> lv + first_from (\<lambda>i. lk ! (lv + i) \<noteq> fk ! (lv + i)) 0 (8 - lv)"
  shows "lv \<le> at" "at < 8" "take at lk = take at fk" "lk ! at \<noteq> fk ! at"
proof -
  let ?q = "\<lambda>i. lk ! (lv + i) \<noteq> fk ! (lv + i)"
  let ?j = "first_from ?q 0 (8 - lv)"
  show "lv \<le> at" by (simp add: at_def)
  have below: "lk ! i = fk ! i" if i: "i < at" for i
  proof (cases "i < lv")
    case True
    with t show ?thesis by (metis nth_take)
  next
    case False
    with i first_from_before [of 0 "i - lv" ?q "8 - lv"] show ?thesis by (simp add: at_def)
  qed
  have "?j < 8 - lv"
  proof (rule ccontr)
    assume "\<not> ?thesis"
    with below lv have "lk ! i = fk ! i" if "i < 8" for i using that by (simp add: at_def)
    with l ne show False by (metis nth_equalityI)
  qed
  then show at: "at < 8" by (simp add: at_def)
  from first_from_hit [OF \<open>?j < 8 - lv\<close>] show "lk ! at \<noteq> fk ! at" by (simp add: at_def)
  show "take at lk = take at fk" using below at l take_eq_nth [of at lk fk] by simp
qed

lemma new_head_simps [simp]: "level (new_head l bs n) = l" "prefixCount (new_head l bs n) = n"
  by (simp_all add: new_head_def setPrefix_def)

lemma new_head_ok:
  assumes "length fk = 8" "d \<le> at" "at \<le> 7"
  shows "head_ok d (new_head at (drop d fk) (at - d)) (take at fk)"
proof -
  have len: "min (at - d) 4 \<le> length (drop d fk)" using assms by simp
  have bs: "drop d fk ! i = take at fk ! (d + i)" if "i < min (at - d) 4" for i
  proof -
    have "d + i < at" using that assms(2) by linarith
    then show ?thesis using assms(1) assms(2,3) by simp
  qed
  show ?thesis
    using prefix_fits(1) [of "take at fk" "\<lparr>level = at, prefixCount = 0, prefix_bytes = replicate 4 0\<rparr>" d "drop d fk"] assms len bs
    by (simp add: new_head_def)
qed

lemma split_leaf_node_ok:
  assumes l: "length lk = 8" "length fk = 8" and t: "take (length p) lk = p" "take (length p) fk = p" and p: "p \<noteq> []" "length p \<le> 8"
  shows "\<exists>n. roart_split_leaf lk w fk v (length p) = Inr n \<and> rtree (node_ok s) p n \<and> rmap n = (rmap (RLeaf lk w))(fk \<mapsto> v)"
    and "same_key lk fk (length p) \<longleftrightarrow> lk = fk"
proof -
  let ?lv = "length p" and ?q = "\<lambda>i. lk ! (length p + i) \<noteq> fk ! (length p + i)"
  let ?j = "first_from ?q 0 (8 - ?lv)"
  have e: "lk = fk \<Longrightarrow> ?j = 8 - ?lv" by (rule first_from_unique) auto
  show same: "same_key lk fk ?lv \<longleftrightarrow> lk = fk"
  proof (cases "lk = fk")
    case True
    with e l p(2) show ?thesis by (simp add: same_key_def)
  next
    case False
    have "take ?lv lk = take ?lv fk" using t by simp
    from first_difference(2) [OF l this False p(2)] False l p(2) show ?thesis by (simp add: same_key_def)
  qed
  show "\<exists>n. roart_split_leaf lk w fk v ?lv = Inr n \<and> rtree (node_ok s) p n \<and> rmap n = (rmap (RLeaf lk w))(fk \<mapsto> v)"
  proof (cases "lk = fk")
    case True
    then show ?thesis using e l p(2) t
      by (intro exI [of _ "RLeaf lk v"]) (auto simp: roart_split_leaf_def Let_def)
  next
    case False
    note f = first_difference [OF l _ False p(2)]
    define at where "at = ?lv + ?j"
    have at: "?lv \<le> at" "at < 8" "take at lk = take at fk" "lk ! at \<noteq> fk ! at" using f t by (simp_all add: at_def)
    let ?h = "new_head at (drop ?lv fk) (at - ?lv)"
    from two_leaves_ok [OF at(4) [symmetric], of ?h "RLeaf fk v" "RLeaf lk w"] obtain b where
      b: "two_leaves ?h (fk ! at) (RLeaf fk v) (lk ! at) (RLeaf lk w) = RNode ?h b" "body_ok b" "count b = 2" "enough b"
      "getChild b = [fk ! at \<mapsto> RLeaf fk v, lk ! at \<mapsto> RLeaf lk w]" by blast
    have s: "roart_split_leaf lk w fk v ?lv = Inr (RNode ?h b)"
      using at(2) l b(1) by (simp add: roart_split_leaf_def Let_def at_def)
    have "rtree (node_ok s) p (RNode ?h b)"
    proof (rule rtreeI [of p "take at fk"])
      show "take ?lv (take at fk) = p" using t(2) at(1) by (simp add: min_def)
      show "head_ok ?lv ?h (take at fk)" using new_head_ok [OF l(2) at(1)] at(2) by simp
      show "node_ok s ?lv ?h b" using b p(1) at(1) by (simp add: node_ok_def)
      fix k c assume "getChild b k = Some c"
      with b(5) consider "k = lk ! at" "c = RLeaf lk w" | "k = fk ! at" "c = RLeaf fk v" by (auto split: if_splits)
      then show "rtree (node_ok s) (take at fk @ [k]) c"
        using l at(2,3) by cases (simp_all add: take_Suc_conv_app_nth min_def)
    qed
    moreover have "rmap (RNode ?h b) = (rmap (RLeaf lk w))(fk \<mapsto> v)"
      using b(5) False at(4) by (auto simp: fun_eq_iff)
    ultimately show ?thesis using s by blast
  qed
qed

end
