(* ===== verification/Roart_Put.thy ===== *)
theory Roart_Put
  imports Roart_Insert
begin

text \<open>
  \<^verbatim>\<open>ROART::put\<close> refines the update of a map.  One step down is \<open>put_from\<close>; the lemmas here put
  the results of the node operations together with the invariant \<open>rtree (node_ok s)\<close> of the
  tree, whose flag \<open>s\<close> is \<open>False\<close> for a tree a crash may have left with stale prefixes.
\<close>

subsection \<open>One child exchanged or added\<close>

lemma node_ok_change:
  assumes "node_ok s d h b" "level h' = level h" "prefixCount h' = prefixCount h \<or> d + prefixCount h' = level h"
    and "body_ok b'" "capacity (layout b') = capacity (layout b)" "count b' = count b"
  shows "node_ok s d h' b'"
  using assms by (auto simp: node_ok_def enough_def threshold_capacity split: if_splits)

lemma insert_256:
  "body_ok b \<Longrightarrow> getChild b k = None \<Longrightarrow> capacity (layout b) = 256 \<Longrightarrow> capacity (layout (insertAndUnlock b k x)) = 256"
  using n_insert_ok [of b k x]
  by (cases "layout b") (auto simp: capacity_def insertAndUnlock_def insert_or_drop_def has_room_def)

lemma node_ok_insert:
  assumes n: "node_ok s d h b" and h': "level h' = level h" "prefixCount h' = prefixCount h \<or> d + prefixCount h' = level h"
    and k: "getChild b k = None"
  shows "node_ok s d h' (insertAndUnlock b k x)"
proof -
  note no = rnode_okD [OF n]
  note i = insertAndUnlock_ok [OF no(2) k, of x]
  have "count (insertAndUnlock b k x) = Suc (count b)"
    using i(1,2) no(2) card_upd [of "getChild b", OF k] by (simp add: body_ok_def)
  with n h' i insert_256 [OF no(2) k, of x] show ?thesis by (auto simp: node_ok_def split: if_splits)
qed

lemma rtree_child:
  assumes P: "take (length p) P = p" "head_ok (length p) h' P" "node_ok s (length p) h' b'"
    and b: "\<And>k c. getChild b k = Some c \<Longrightarrow> rtree (node_ok s) (P @ [k]) c"
    and b': "getChild b' = (getChild b)(k \<mapsto> c)" and c: "rtree (node_ok s) (P @ [k]) c"
  shows "rtree (node_ok s) p (RNode h' b')"
  using P b c by (intro rtreeI [of p P]) (auto simp: b' split: if_splits)

lemma rmap_child:
  assumes "getChild b' = (getChild b)(k \<mapsto> c)" "level h' = level h" "fk ! level h = k"
    and "rmap c = (case getChild b k of None \<Rightarrow> Map.empty | Some c' \<Rightarrow> rmap c')(fk := y)"
  shows "rmap (RNode h' b') = (rmap (RNode h b))(fk := y)"
proof
  fix fk'
  show "rmap (RNode h' b') fk' = ((rmap (RNode h b))(fk := y)) fk'"
    using assms by (cases "fk' ! level h = k") (auto split: option.splits)
qed

lemma rmap_child_same:
  assumes "getChild b' = (getChild b)(k \<mapsto> c)" "level h' = level h" "getChild b k = Some c'" "rmap c = rmap c'"
  shows "rmap (RNode h' b') = rmap (RNode h b)"
proof
  fix fk'
  show "rmap (RNode h' b') fk' = rmap (RNode h b) fk'"
    using assms by (cases "fk' ! level h = k") auto
qed

lemma rmap_head: "level h' = level h \<Longrightarrow> rmap (RNode h' b) = rmap (RNode h b)"
  by (simp add: fun_eq_iff)

subsection \<open>The prefix of the node on the way\<close>

lemma checkPrefixPessimistic_ok:
  assumes t: "rtree (node_ok s) p (RNode h b)" and fk: "length fk = 8" "take (length p) fk = p"
    and P: "take (length p) P = p" "head_ok (length p) h P" "node_ok s (length p) h b"
      "\<And>k c. getChild b k = Some c \<Longrightarrow> rtree (node_ok s) (P @ [k]) c"
  shows "\<exists>h' r. checkPrefixPessimistic h b fk (length p) = Inr (h', prefixCount h + length p \<noteq> level h, r) \<and>
    head_ok (length p) h' P \<and> length p + prefixCount h' = level h \<and> level h' = level h \<and>
    node_ok s (length p) h' b \<and> rtree (node_ok s) p (RNode h' b) \<and>
    (prefixCount h + length p = level h \<longrightarrow> h' = h) \<and>
    verdict_ok (length p) (level h) P fk r"
proof -
  from recover_prefix_ok [OF t P] obtain h' where
    h': "recover_prefix h b (length p) = Inr (h', prefixCount h + length p \<noteq> level h)" "head_ok (length p) h' P"
      "length p + prefixCount h' = level h" "level h' = level h" "node_ok s (length p) h' b"
      "prefixCount h + length p = level h \<Longrightarrow> h' = h" by blast
  have t': "rtree (node_ok s) p (RNode h' b)" using rtreeI [of p P, OF P(1) h'(2,5) P(4)] .
  have kt: "\<exists>k. getAnyChildTid (RNode h' b) = Inr k \<and> length k = 8 \<and> take (level h') k = P" if "4 < prefixCount h'"
  proof -
    have "p \<noteq> []" using that rnode_okD(4) [OF h'(5)] by auto
    from getAnyChildTid_ok [OF t' this] obtain k v where
      k: "getAnyChildTid (RNode h' b) = Inr k" "rmap (RNode h b) k = Some v" using rmap_head [OF h'(4)] by metis
    with rmap_path [OF head_okD(1,3) [OF P(2)] P(4) k(2)] h'(4) show ?thesis by auto
  qed
  have "take (length p) fk = take (length p) P" using P(1) fk(2) by simp
  from compare_prefix_ok [OF h'(2) _ fk(1) this kt] h'(3,4) obtain r where
    "compare_prefix h' b fk (length p) = Inr r" "verdict_ok (length p) (level h) P fk r" by auto
  with h' t' show ?thesis by (simp add: checkPrefixPessimistic_def add.commute)
qed

subsection \<open>A new node above\<close>

lemma split_prefix_ok:
  assumes fk: "length fk = 8" "take (length p) fk = p" and p: "p \<noteq> []"
    and P: "take (length p) P = p" "head_ok (length p) h P" "node_ok s (length p) h b"
      "\<And>k c. getChild b k = Some c \<Longrightarrow> rtree (node_ok s) (P @ [k]) c"
    and d: "length p + prefixCount h = level h"
    and l: "length p \<le> l" "l < level h" "take l fk = take l P" "fk ! l \<noteq> P ! l"
    and rest: "length rest \<ge> min (level h - Suc l) 4" "\<forall>i<min (level h - Suc l) 4. rest ! i = P ! (Suc l + i)"
  shows "rtree (node_ok s) p (roart_split_prefix h b fk v (length p) l (P ! l) rest)"
    "rmap (roart_split_prefix h b fk v (length p) l (P ! l) rest) = (rmap (RNode h b))(fk \<mapsto> v)"
proof -
  note hd = head_okD [OF P(2)] and no = rnode_okD [OF P(3)]
  let ?h2 = "h\<lparr>level := l, prefixCount := l - length p\<rparr>"
  let ?h1 = "setPrefix h rest (prefixCount h - ((l - length p) + 1))"
  let ?low = "RNode ?h1 b"
  from two_leaves_ok [OF l(4), of ?h2 "RLeaf fk v" ?low] obtain b2 where
    b2: "two_leaves ?h2 (fk ! l) (RLeaf fk v) (P ! l) ?low = RNode ?h2 b2" "body_ok b2" "count b2 = 2" "enough b2"
      "getChild b2 = [fk ! l \<mapsto> RLeaf fk v, P ! l \<mapsto> ?low]" by blast
  have s: "roart_split_prefix h b fk v (length p) l (P ! l) rest = RNode ?h2 b2"
    using b2(1) by (simp add: roart_split_prefix_def)
  have pc: "prefixCount h - ((l - length p) + 1) = level h - Suc l" using d l(1,2) by simp
  have lP: "Suc l \<le> length P" using l(2) hd(1) by simp
  then have tk: "take l P @ [P ! l] = take (Suc l) P" by (simp add: take_Suc_conv_app_nth)
  have f: "head_ok (Suc l) ?h1 P" "Suc l + prefixCount ?h1 = level h" "level ?h1 = level h"
    unfolding pc using prefix_fits [of P h "Suc l" rest] hd(1,3) l(2) rest by simp_all
  have low: "rtree (node_ok s) (take (Suc l) P) ?low"
  proof (rule rtreeI [of _ P])
    show "take (length (take (Suc l) P)) P = take (Suc l) P" "head_ok (length (take (Suc l) P)) ?h1 P"
      using lP f(1) by (simp_all add: min_absorb2)
    show "node_ok s (length (take (Suc l) P)) ?h1 b"
      using no(2,6,7) p f(2,3) lP by (simp add: node_ok_def min_absorb2)
  qed (rule P(4))
  have "head_ok (length p) ?h2 (take l P)"
  proof -
    have "prefix_bytes h ! i = P ! (length p + i)" if "i < l - length p" "i < 4" for i
    proof -
      have "level h - prefixCount h = length p" "i < prefixCount h" using d l(2) that(1) by linarith+
      with hd(6) [of i] that(2) d show ?thesis by simp
    qed
    with hd(1,3,4) l(1,2) show ?thesis by (auto simp: head_ok_def)
  qed
  moreover have "take (length p) (take l P) = p" using P(1) l(1) by (simp add: min_absorb1)
  moreover have "node_ok s (length p) ?h2 b2" using b2(2,3,4) p l(1) by (simp add: node_ok_def)
  moreover have "rtree (node_ok s) (take l P @ [k]) c" if c: "getChild b2 k = Some c" for k c
  proof -
    from c b2(5) consider "k = P ! l" "c = ?low" | "k = fk ! l" "c = RLeaf fk v" by (auto split: if_splits)
    then show ?thesis
    proof cases
      case 1
      with low tk show ?thesis by simp
    next
      case 2
      have "take (Suc l) fk = take l P @ [fk ! l]" using fk(1) l(2,3) hd(3) by (simp add: take_Suc_conv_app_nth)
      with 2 fk(1) lP show ?thesis by (simp add: min_absorb2)
    qed
  qed
  ultimately show "rtree (node_ok s) p (roart_split_prefix h b fk v (length p) l (P ! l) rest)"
    unfolding s by (intro rtreeI [of p "take l P"])
  have fP: "fk' ! l = P ! l" if "rmap (RNode h b) fk' = Some w" for fk' w
    using rmap_path(2) [OF hd(1,3) P(4) that] l(2) by (metis nth_take)
  show "rmap (roart_split_prefix h b fk v (length p) l (P ! l) rest) = (rmap (RNode h b))(fk \<mapsto> v)"
  proof
    fix fk'
    have eq: "rmap ?low fk' = rmap (RNode h b) fk'" using rmap_head [OF f(3), of b] by metis
    have "rmap (RNode ?h2 b2) fk' = (if fk' ! l = P ! l then rmap ?low fk' else if fk' = fk then Some v else None)"
      using l(4) by (auto simp: b2(5))
    with eq fP [of fk'] l(4) show "rmap (roart_split_prefix h b fk v (length p) l (P ! l) rest) fk' = ((rmap (RNode h b))(fk \<mapsto> v)) fk'"
      unfolding s by (cases "rmap (RNode h b) fk'") auto
  qed
qed

subsection \<open>Insertion\<close>

declare put_from.simps(2) [simp del]

lemma map_sum_Inr: "map_sum id f r = Inr y \<longleftrightarrow> (\<exists>x. r = Inr x \<and> y = f x)"
    "Inr y = map_sum id f r \<longleftrightarrow> (\<exists>x. r = Inr x \<and> y = f x)"
  by (cases r; auto)+

text \<open>What an attempt to insert returns, at the node reached through \<open>p\<close>.\<close>

definition put_outcome_ok :: "bool \<Rightarrow> u8 list \<Rightarrow> rnode \<Rightarrow> u8 list \<Rightarrow> u64 \<Rightarrow> outcome \<Rightarrow> bool" where
  "put_outcome_ok s p n fk v r \<longleftrightarrow>
     (case r of
        Finish n' q \<Rightarrow> \<not> is_leaf n' \<and> rtree (node_ok s) p n' \<and> rmap n' = (rmap n)(fk \<mapsto> v) \<and>
          q = (if rmap n fk = None then Success else Existed)
      | Restart n' \<Rightarrow> \<not> s \<and> \<not> is_leaf n' \<and> rtree (node_ok s) p n' \<and> rmap n' = rmap n \<and>
          (\<forall>n''. put_from n' fk v (length p) (p = []) \<noteq> Inr (Restart n'')))"

lemma put_from_prefix:
  assumes "checkPrefixPessimistic h b fk lv = Inr (h', fixed, PMatch nl)" "nl < 8"
  shows "put_from (RNode h b) fk v lv root =
    (case getChild b (fk ! nl) of
       None \<Rightarrow> if fixed then Inr (Restart (RNode h' b)) else if root \<and> needs_parent b then Inl NullDeref
               else Inr (Finish (RNode h' (insertAndUnlock b (fk ! nl) (RLeaf fk v))) Success)
     | Some (RLeaf lk w) \<Rightarrow>
         if fixed then Inr (Restart (RNode h' b))
         else (case roart_split_leaf lk w fk v (Suc nl) of
                 Inl e \<Rightarrow> Inl e
               | Inr c \<Rightarrow> map_sum id (\<lambda>n. Finish n (if same_key lk fk (Suc nl) then Existed else Success))
                            (at_child h' b (fk ! nl) c))
     | Some (RNode ch cb) \<Rightarrow>
         (case put_from (RNode ch cb) fk v (Suc nl) False of
            Inl e \<Rightarrow> Inl e
          | Inr (Finish c r) \<Rightarrow> map_sum id (\<lambda>n. Finish n r) (at_child h' b (fk ! nl) c)
          | Inr (Restart c) \<Rightarrow> map_sum id Restart (at_child h' b (fk ! nl) c)))"
  using assms by (simp add: Let_def put_from.simps)

lemma put_from_differs:
  assumes "checkPrefixPessimistic h b fk lv = Inr (h', fixed, PNoMatch nl nk rest)" "nl < 8"
  shows "put_from (RNode h b) fk v lv root =
    (if fixed then Inr (Restart (RNode h' b)) else if root then Inl NullDeref
     else Inr (Finish (roart_split_prefix h' b fk v lv nl nk rest) Success))"
  using assms by (simp add: put_from.simps)

lemma verdict_match: "verdict_ok d L P fk r \<Longrightarrow> take L fk = P \<Longrightarrow> r = PMatch L"
  by (auto simp: verdict_ok_def split: pessimistic.splits)

lemma verdict_differs:
  assumes "verdict_ok d L P fk r" "take L fk \<noteq> P"
  obtains l rest where "r = PNoMatch l (P ! l) rest" "d \<le> l" "l < L" "take l fk = take l P" "fk ! l \<noteq> P ! l"
    "length rest \<ge> min (L - Suc l) 4" "\<forall>i<min (L - Suc l) 4. rest ! i = P ! (Suc l + i)"
  using assms by (auto simp: verdict_ok_def split: pessimistic.splits)

text \<open>A node whose prefix fits starts nothing again, unless a node below does.\<close>

lemma no_restart:
  assumes t: "rtree (node_ok s) p (RNode h b)" and fk: "length fk = 8" "take (length p) fk = p"
    and P: "take (length p) P = p" "head_ok (length p) h P" "node_ok s (length p) h b"
      "\<And>k c. getChild b k = Some c \<Longrightarrow> rtree (node_ok s) (P @ [k]) c"
    and d: "length p + prefixCount h = level h"
    and below: "\<And>ch cb. take (level h) fk = P \<Longrightarrow> getChild b (fk ! level h) = Some (RNode ch cb) \<Longrightarrow>
      \<forall>n. put_from (RNode ch cb) fk v (Suc (level h)) False \<noteq> Inr (Restart n)"
  shows "put_from (RNode h b) fk v (length p) root \<noteq> Inr (Restart n)"
proof -
  note hd = head_okD [OF P(2)]
  from checkPrefixPessimistic_ok [OF t fk P] d obtain r where
    r: "checkPrefixPessimistic h b fk (length p) = Inr (h, False, r)" "verdict_ok (length p) (level h) P fk r"
    by (auto simp: add.commute)
  show ?thesis
  proof (cases "take (level h) fk = P")
    case True
    have l8: "level h < 8" using hd(3) by simp
    note pf = put_from_prefix [OF r(1) [unfolded verdict_match [OF r(2) True]] l8, of v root]
    show ?thesis
    proof (cases "getChild b (fk ! level h)")
      case None
      with pf show ?thesis by simp
    next
      case (Some c)
      show ?thesis
      proof (cases c)
        case (RLeaf lk w)
        with pf Some show ?thesis by (simp add: map_sum_Inr split: sum.split)
      next
        case (RNode ch cb)
        from below [OF True] Some RNode have "\<not> (\<exists>c'. put_from (RNode ch cb) fk v (Suc (level h)) False = Inr (Restart c'))"
          by blast
        then consider e where "put_from (RNode ch cb) fk v (Suc (level h)) False = Inl e"
          | c' q where "put_from (RNode ch cb) fk v (Suc (level h)) False = Inr (Finish c' q)"
          by (metis outcome.exhaust sum.exhaust)
        then show ?thesis using pf Some RNode by cases (simp_all add: map_sum_Inr)
      qed
    qed
  next
    case False
    from verdict_differs [OF r(2) False] obtain l rest where "r = PNoMatch l (P ! l) rest" "l < level h" .
    with put_from_differs [OF r(1) [unfolded \<open>r = _\<close>]] hd(3) show ?thesis by simp
  qed
qed

lemma at_child_ok:
  assumes P: "take (length p) P = p" "head_ok (length p) h P" "node_ok s (length p) h b"
      "\<And>k c. getChild b k = Some c \<Longrightarrow> rtree (node_ok s) (P @ [k]) c"
    and k: "getChild b k = Some y" and c: "rtree (node_ok s) (P @ [k]) c"
  shows "\<exists>b'. at_child h b k c = Inr (RNode h b') \<and> getChild b' = (getChild b)(k \<mapsto> c) \<and>
    rtree (node_ok s) p (RNode h b') \<and> node_ok s (length p) h b'"
proof -
  from n_change_ok [OF rnode_okD(2) [OF P(3)] k, of c] obtain b' where
    b': "n_change b k c = Inr b'" "body_ok b'" "getChild b' = (getChild b)(k \<mapsto> c)"
      "capacity (layout b') = capacity (layout b)" "count b' = count b" by blast
  have n: "node_ok s (length p) h b'" using node_ok_change [OF P(3)] b'(2,4,5) by simp
  from rtree_child [OF P(1,2) n P(4) b'(3) c] b' n show ?thesis by (simp add: at_child_def)
qed

lemma take_level: "length P = level h \<Longrightarrow> level h \<le> 7 \<Longrightarrow> length fk = 8 \<Longrightarrow> take (level h) fk = P \<Longrightarrow>
    take (length (P @ [fk ! level h])) fk = P @ [fk ! level h]"
  by (auto simp: take_Suc_conv_app_nth)

lemma put_from_ok:
  "rtree (node_ok s) p n \<Longrightarrow> \<not> is_leaf n \<Longrightarrow> length fk = 8 \<Longrightarrow> take (length p) fk = p \<Longrightarrow>
   \<exists>r. put_from n fk v (length p) (p = []) = Inr r \<and> put_outcome_ok s p n fk v r"
proof (induction n arbitrary: p rule: measure_induct_rule [where f = size])
  case (less n)
  then obtain h b where n: "n = RNode h b" by (cases n) auto
  note t = less.prems(1) [unfolded n] and fk = less.prems(3,4)
  from t obtain P where P: "take (length p) P = p" "head_ok (length p) h P" "node_ok s (length p) h b"
    "\<And>k c. getChild b k = Some c \<Longrightarrow> rtree (node_ok s) (P @ [k]) c" by (rule rtreeE) blast
  note hd = head_okD [OF P(2)] and no = rnode_okD [OF P(3)]
  let ?fixed = "prefixCount h + length p \<noteq> level h"
  from checkPrefixPessimistic_ok [OF t fk P] obtain h' r where
    c: "checkPrefixPessimistic h b fk (length p) = Inr (h', ?fixed, r)" "verdict_ok (length p) (level h) P fk r"
    and h': "head_ok (length p) h' P" "length p + prefixCount h' = level h" "level h' = level h"
      "node_ok s (length p) h' b" "rtree (node_ok s) p (RNode h' b)" "\<not> ?fixed \<Longrightarrow> h' = h" by blast
  have ns: "?fixed \<Longrightarrow> \<not> s" using no(1) by (auto simp: add.commute)
  have restart: "put_outcome_ok s p n fk v (Restart (RNode h' b))"
    if f: "?fixed" and b: "\<And>ch cb. take (level h) fk = P \<Longrightarrow> getChild b (fk ! level h) \<noteq> Some (RNode ch cb)"
  proof -
    have "put_from (RNode h' b) fk v (length p) (p = []) \<noteq> Inr (Restart m)" for m
      by (rule no_restart [OF h'(5) fk P(1) h'(1,4) P(4) h'(2) [folded h'(3)]]) (use h'(3) b in auto)
    with ns [OF f] h'(5) rmap_head [OF h'(3), of b] show ?thesis by (simp add: put_outcome_ok_def n)
  qed
  show ?case
  proof (cases "take (level h) fk = P")
    case False
    from verdict_differs [OF c(2) False] obtain l rest where
      l: "r = PNoMatch l (P ! l) rest" "length p \<le> l" "l < level h" "take l fk = take l P" "fk ! l \<noteq> P ! l"
      "length rest \<ge> min (level h - Suc l) 4" "\<forall>i<min (level h - Suc l) 4. rest ! i = P ! (Suc l + i)" by blast
    have p: "p \<noteq> []" using l(3) no(3) by auto
    have "l < 8" using l(3) hd(3) by simp
    note pd = put_from_differs [OF c(1) [unfolded l(1)] this, of v "p = []", folded n]
    show ?thesis
    proof (cases ?fixed)
      case True
      with restart False pd show ?thesis by simp
    next
      case f: False
      have d: "length p + prefixCount h = level h" using f by (simp add: add.commute)
      have none: "rmap n fk = None" using rmap_other [OF hd(1,3) P(4) False] n by simp
      note s = split_prefix_ok [OF fk p P d l(2-7), of v]
      have nl: "\<not> is_leaf (roart_split_prefix h b fk v (length p) l (P ! l) rest)"
        by (simp add: roart_split_prefix_def two_leaves_def)
      have "put_from n fk v (length p) (p = []) = Inr (Finish (roart_split_prefix h b fk v (length p) l (P ! l) rest) Success)"
        using pd f p h'(6) by simp
      with s none nl show ?thesis by (simp add: put_outcome_ok_def n)
    qed
  next
    case m: True
    have l8: "level h < 8" using hd(3) by simp
    let ?k = "fk ! level h"
    note pf = put_from_prefix [OF c(1) [unfolded verdict_match [OF c(2) m]] l8, of v "p = []", folded n]
    have r0: "\<not> (p = [] \<and> needs_parent b)" using no(5) by (auto simp: needs_parent_def)
    note tl = take_level [OF hd(1,3) fk(1) m]
    show ?thesis
    proof (cases "getChild b ?k")
      case None
      show ?thesis
      proof (cases ?fixed)
        case True
        with pf None restart show ?thesis by simp
      next
        case False
        note i = insertAndUnlock_ok(2) [OF no(2) None, of "RLeaf fk v"]
        have "rtree (node_ok s) p (RNode h (insertAndUnlock b ?k (RLeaf fk v)))"
          using rtree_child [OF P(1,2) node_ok_insert [OF P(3) _ _ None] P(4) i] fk(1) tl by simp
        moreover have "rmap (RNode h (insertAndUnlock b ?k (RLeaf fk v))) = (rmap n)(fk \<mapsto> v)"
          unfolding n by (rule rmap_child [OF i]) (auto simp: None)
        moreover have "rmap n fk = None" by (simp add: n None)
        ultimately show ?thesis using pf None False r0 h'(6) by (auto simp: put_outcome_ok_def)
      qed
    next
      case (Some c')
      show ?thesis
      proof (cases c')
        case (RLeaf lk w)
        show ?thesis
        proof (cases ?fixed)
          case True
          with pf Some RLeaf restart show ?thesis by simp
        next
          case False
          have q: "P @ [?k] \<noteq> []" "length (P @ [?k]) \<le> 8" using hd(1,3) by simp_all
          have "length lk = 8" "take (length (P @ [?k])) lk = P @ [?k]" using P(4) [OF Some] RLeaf by simp_all
          note sl = split_leaf_node_ok [OF this(1) fk(1) this(2) tl q]
          from sl(1) [of w v s] hd(1) obtain x where
            x: "roart_split_leaf lk w fk v (Suc (level h)) = Inr x" "rtree (node_ok s) (P @ [?k]) x" "rmap x = (rmap c')(fk \<mapsto> v)"
            by (auto simp: RLeaf)
          have same: "same_key lk fk (Suc (level h)) \<longleftrightarrow> lk = fk" using sl(2) hd(1) by simp
          from at_child_ok [OF P Some x(2)] obtain b' where
            b': "at_child h b ?k x = Inr (RNode h b')" "getChild b' = (getChild b)(?k \<mapsto> x)" "rtree (node_ok s) p (RNode h b')" by blast
          have "rmap (RNode h b') = (rmap n)(fk \<mapsto> v)"
            unfolding n by (rule rmap_child [OF b'(2)]) (simp_all add: Some x(3))
          moreover have "rmap n fk = None \<longleftrightarrow> lk \<noteq> fk" by (auto simp: n Some RLeaf)
          ultimately show ?thesis using pf Some RLeaf False b'(1,3) x(1) h'(6) same by (auto simp: put_outcome_ok_def)
        qed
      next
        case c': (RNode ch cb)
        have sz: "size c' < size n" using getChild_size [OF Some, of size] by (simp add: n)
        have "\<not> is_leaf c'" "P @ [?k] \<noteq> []" by (simp_all add: c')
        with less.IH [OF sz P(4) [OF Some] _ fk(1) tl] hd(1) obtain o' where
          o': "put_from c' fk v (Suc (level h)) False = Inr o'" "put_outcome_ok s (P @ [?k]) c' fk v o'" by auto
        note P' = P(1) h'(1,4) P(4)
        show ?thesis
        proof (cases o')
          case (Finish c q)
          with o'(2) have c: "rtree (node_ok s) (P @ [?k]) c" "rmap c = (rmap c')(fk \<mapsto> v)"
            "q = (if rmap c' fk = None then Success else Existed)" by (simp_all add: put_outcome_ok_def)
          from at_child_ok [OF P' Some c(1)] obtain b' where
            b': "at_child h' b ?k c = Inr (RNode h' b')" "getChild b' = (getChild b)(?k \<mapsto> c)" "rtree (node_ok s) p (RNode h' b')" by blast
          have "rmap (RNode h' b') = (rmap n)(fk \<mapsto> v)"
            unfolding n by (rule rmap_child [OF b'(2) h'(3)]) (simp_all add: Some c(2))
          moreover have "rmap n fk = rmap c' fk" by (simp add: n Some)
          ultimately show ?thesis using pf Some c' Finish o'(1) b'(1,3) c(3) by (auto simp: put_outcome_ok_def)
        next
          case (Restart c)
          with o'(2) hd(1) have c: "\<not> s" "\<not> is_leaf c" "rtree (node_ok s) (P @ [?k]) c" "rmap c = rmap c'"
            "\<forall>m. put_from c fk v (Suc (level h)) False \<noteq> Inr (Restart m)" by (auto simp: put_outcome_ok_def)
          from at_child_ok [OF P' Some c(3)] obtain b' where
            b': "at_child h' b ?k c = Inr (RNode h' b')" "getChild b' = (getChild b)(?k \<mapsto> c)" "rtree (node_ok s) p (RNode h' b')"
              "node_ok s (length p) h' b'" by blast
          have "rmap (RNode h' b') = rmap n"
            unfolding n by (rule rmap_child_same [OF b'(2) h'(3) Some c(4)])
          moreover have "put_from (RNode h' b') fk v (length p) (p = []) \<noteq> Inr (Restart m)" for m
            by (rule no_restart [OF b'(3) fk P(1) h'(1) b'(4) _ h'(2) [folded h'(3)]])
              (use b'(2) h'(3) P(4) c(3,5) in \<open>auto split: if_splits\<close>)
          ultimately show ?thesis using pf Some c' Restart o'(1) b'(1,3) c(1) by (auto simp: put_outcome_ok_def)
        qed
      qed
    qed
  qed
qed

subsection \<open>The tree\<close>

definition roart_ok :: "bool \<Rightarrow> rnode \<Rightarrow> bool" where
  "roart_ok s root \<longleftrightarrow> \<not> is_leaf root \<and> rtree (node_ok s) [] root"

definition roart_map :: "rnode \<Rightarrow> u64 \<rightharpoonup> u64" where
  "roart_map root = (\<lambda>key. rmap root (key_bytes key))"

lemma length_key_bytes [simp]: "length (key_bytes key) = 8"
  by (simp add: key_bytes_def)

lemma key_bytes_inj [simp]: "key_bytes a = key_bytes b \<longleftrightarrow> a = b"
proof
  assume e: "key_bytes a = key_bytes b"
  show "a = b"
  proof (rule bit_word_eqI)
    fix n assume n: "n < LENGTH(64)"
    define i where "i = 7 - n div 8"
    have i: "i < 8" "n = (7 - i) * 8 + n mod 8" using n by (auto simp: i_def)
    have b: "bit (key_bytes k ! i) (n mod 8) = bit k n" for k
    proof -
      have "key_bytes k ! i = ucast (drop_bit ((7 - i) * 8) k AND 255)" using i(1) by (simp add: key_bytes_def del: upt_Suc)
      moreover have m: "(255 :: u64) = mask 8" by (simp add: mask_eq_exp_minus_1)
      have "n mod 8 < 8" by simp
      ultimately show ?thesis using i unfolding m by (simp only: bit_simps) auto
    qed
    from b [of a] b [of b] e show "bit a n = bit b n" by simp
  qed
qed simp

lemma roart_map_upd: "rmap n' = (rmap n)(key_bytes key := y) \<Longrightarrow> roart_map n' = (roart_map n)(key := y)"
  by (auto simp: roart_map_def fun_eq_iff)

lemma put_loop_ok:
  assumes "roart_ok s root" "length fk = 8"
  shows "\<exists>root'. put_loop 1 root fk v = Inr (root', if rmap root fk = None then Success else Existed) \<and>
    roart_ok s root' \<and> rmap root' = (rmap root)(fk \<mapsto> v)"
proof -
  note ok = assms(1) [unfolded roart_ok_def]
  from put_from_ok [of s "[]" root fk v] ok assms(2) obtain r where
    r: "put_from root fk v 0 True = Inr r" "put_outcome_ok s [] root fk v r" by auto
  show ?thesis
  proof (cases r)
    case (Finish n q)
    with r show ?thesis by (auto simp: put_outcome_ok_def roart_ok_def)
  next
    case (Restart n)
    with r have n: "\<not> is_leaf n" "rtree (node_ok s) [] n" "rmap n = rmap root"
      "\<forall>m. put_from n fk v 0 True \<noteq> Inr (Restart m)" by (auto simp: put_outcome_ok_def)
    from put_from_ok [OF n(2,1), of fk v] assms(2) obtain r' where
      r': "put_from n fk v 0 True = Inr r'" "put_outcome_ok s [] n fk v r'" by auto
    with n(4) obtain n' q where "r' = Finish n' q" by (cases r') auto
    with r r' Restart n(3) show ?thesis by (auto simp: put_outcome_ok_def roart_ok_def)
  qed
qed

lemma new_root_ok: "roart_ok s new_roart" "roart_map new_roart = Map.empty"
proof -
  have n: "body_ok (new_N256 :: rnode body)" "getChild (new_N256 :: rnode body) = Map.empty"
    by (simp_all add: fresh_new(4) [unfolded fresh_def])
  have "rtree (node_ok s) [] new_roart"
    unfolding new_roart_def by (rule rtreeI [of "[]" "[]"]) (simp_all add: n head_ok_def node_ok_def)
  then show "roart_ok s new_roart" by (simp add: roart_ok_def new_roart_def)
  show "roart_map new_roart = Map.empty" by (simp add: roart_map_def new_roart_def n)
qed

end
