(* ===== verification/Roart_Remove.thy ===== *)
theory Roart_Remove
  imports Roart_Put
begin

text \<open>
  \<^verbatim>\<open>ROART::update\<close> and \<^verbatim>\<open>ROART::remove\<close> refine the update of a map.  Both go down without
  looking at more of a prefix than is stored and compare the key of the leaf.  Removal needs
  prefixes that fit the levels: it joins the prefix of a node to that of its last child, and
  what it joins there is not compared with the levels.
\<close>

subsection \<open>Update\<close>

lemma checkPrefix_cases:
  assumes h: "head_ok d h P" and fk: "length fk = 8"
    and c: "\<And>k c. getChild b k = Some c \<Longrightarrow> rtree Q (P @ [k]) c"
  obtains "checkPrefix h 8 fk d = NoMatch" "rmap (RNode h b) fk = None"
    | "checkPrefix h 8 fk d = OptimisticMatch (level h)" | "checkPrefix h 8 fk d = Match (level h)"
proof (cases "checkPrefix h 8 fk d")
  case NoMatch
  with checkPrefix_ok [OF h fk] have "take (level h) fk \<noteq> P" by simp
  from rmap_other [OF head_okD(1,3) [OF h] c this] NoMatch show thesis by (rule that(1) [rotated])
qed (use checkPrefix_ok [OF h fk] that in auto)

lemma checkKey_eq: "length lk = 8 \<Longrightarrow> length fk = 8 \<Longrightarrow> checkKey lk 8 fk \<longleftrightarrow> lk = fk"
  by (simp add: checkKey_def)

lemma update_from_eq:
  assumes "checkPrefix h (key_len k) (fkey k) lv \<in> {OptimisticMatch l, Match l}" "l < length (fkey k)"
  shows "update_from (RNode h b) k lv =
    (case getChild b (fkey k ! l) of
       None \<Rightarrow> Inr (RNode h b, NotFound)
     | Some (RLeaf lk w) \<Rightarrow>
         if \<not> checkKey lk (key_len k) (fkey k) then Inr (RNode h b, NotFound)
         else map_sum id (\<lambda>n. (n, Success)) (at_child h b (fkey k ! l) (RLeaf (take (key_len k) (fkey k)) (k_value k)))
     | Some (RNode ch cb) \<Rightarrow>
         (case update_from (RNode ch cb) k (Suc l) of
            Inl e \<Rightarrow> Inl e
          | Inr (c, r) \<Rightarrow> map_sum id (\<lambda>n. (n, r)) (at_child h b (fkey k ! l) c)))"
  using assms by (auto simp: Let_def)

declare update_from.simps(2) [simp del]

lemma update_from_ok:
  assumes k: "length (fkey k) = 8" "key_len k = 8"
  shows "rtree (node_ok s) p n \<Longrightarrow> \<not> is_leaf n \<Longrightarrow>
    \<exists>n' q. update_from n k (length p) = Inr (n', q) \<and> rtree (node_ok s) p n' \<and> \<not> is_leaf n' \<and>
      (if rmap n (fkey k) = None then q = NotFound \<and> rmap n' = rmap n
       else q = Success \<and> rmap n' = (rmap n)(fkey k \<mapsto> k_value k))"
proof (induction n arbitrary: p rule: measure_induct_rule [where f = size])
  case (less n)
  then obtain h b where n: "n = RNode h b" by (cases n) auto
  from less.prems(1) [unfolded n] obtain P where P: "take (length p) P = p" "head_ok (length p) h P" "node_ok s (length p) h b"
    "\<And>k c. getChild b k = Some c \<Longrightarrow> rtree (node_ok s) (P @ [k]) c" by (rule rtreeE) blast
  note hd = head_okD [OF P(2)]
  let ?fk = "fkey k"
  let ?k = "?fk ! level h"
  show ?case
  proof (cases "checkPrefix h 8 ?fk (length p) = NoMatch")
    case True
    with checkPrefix_cases [OF P(2) k(1) P(4)] have "rmap n ?fk = None" by (auto simp: n)
    with True less.prems show ?thesis by (simp add: n k(2) update_from.simps)
  next
    case False
    with checkPrefix_cases [OF P(2) k(1) P(4)]
    have "checkPrefix h (key_len k) ?fk (length p) \<in> {OptimisticMatch (level h), Match (level h)}" by (auto simp: k(2))
    note u = update_from_eq [OF this, of b, folded n]
    have l8: "level h < length ?fk" using hd(3) k(1) by simp
    show ?thesis
    proof (cases "getChild b ?k")
      case None
      with u [OF l8] less.prems show ?thesis by (simp add: n)
    next
      case (Some c)
      show ?thesis
      proof (cases c)
        case (RLeaf lk w)
        have lk: "length lk = 8" "take (Suc (length P)) lk = P @ [?k]" using P(4) [OF Some] by (simp_all add: RLeaf)
        show ?thesis
        proof (cases "lk = ?fk")
          case False
          with u [OF l8] Some RLeaf less.prems k checkKey_eq [OF lk(1) k(1)] show ?thesis by (simp add: n)
        next
          case True
          have "rtree (node_ok s) (P @ [?k]) (RLeaf ?fk (k_value k))" using lk True by simp
          from at_child_ok [OF P Some this] obtain b' where
            b': "at_child h b ?k (RLeaf ?fk (k_value k)) = Inr (RNode h b')" "getChild b' = (getChild b)(?k \<mapsto> RLeaf ?fk (k_value k))"
              "rtree (node_ok s) p (RNode h b')" by blast
          have "rmap (RNode h b') = (rmap n)(?fk \<mapsto> k_value k)"
            unfolding n by (rule rmap_child [OF b'(2)]) (auto simp: Some RLeaf True fun_eq_iff)
          moreover have "rmap n ?fk \<noteq> None" by (simp add: n Some RLeaf True)
          ultimately show ?thesis using u [OF l8] Some RLeaf True k checkKey_eq [OF lk(1) k(1)] b'(1,3) by simp
        qed
      next
        case c: (RNode ch cb)
        have sz: "size c < size n" using getChild_size [OF Some, of size] by (simp add: n)
        have "\<not> is_leaf c" by (simp add: c)
        from less.IH [OF sz P(4) [OF Some] this] hd(1) obtain c' q where
          c': "update_from c k (Suc (level h)) = Inr (c', q)" "rtree (node_ok s) (P @ [?k]) c'"
            "if rmap c ?fk = None then q = NotFound \<and> rmap c' = rmap c
             else q = Success \<and> rmap c' = (rmap c)(?fk \<mapsto> k_value k)" by auto
        from at_child_ok [OF P Some c'(2)] obtain b' where
          b': "at_child h b ?k c' = Inr (RNode h b')" "getChild b' = (getChild b)(?k \<mapsto> c')" "rtree (node_ok s) p (RNode h b')" by blast
        have m: "rmap n ?fk = rmap c ?fk" by (simp add: n Some)
        have "if rmap c ?fk = None then rmap (RNode h b') = rmap n else rmap (RNode h b') = (rmap n)(?fk \<mapsto> k_value k)"
          unfolding n using c'(3) rmap_child_same [OF b'(2) _ Some, of h h] rmap_child [OF b'(2), of h h ?fk "Some (k_value k)"] Some
          by (auto split: if_splits)
        with u [OF l8] Some c c'(1,3) b'(1,3) m show ?thesis by (auto split: if_splits)
      qed
    qed
  qed
qed

subsection \<open>Joining prefixes\<close>

text \<open>The bytes \<open>P\<close> lead to the node, \<open>P'\<close> begins with them and the byte of the child that replaces it.\<close>

lemma head_ok_changed:
  "head_ok d (h\<lparr>prefixCount := n, prefix_bytes := bs\<rparr>) P \<longleftrightarrow>
     length P = level h \<and> d \<le> level h \<and> level h \<le> 7 \<and> length bs = 4 \<and>
     (level h \<le> d + n \<longrightarrow> n \<le> level h \<and> (\<forall>i<min n 4. bs ! i = P ! (level h - n + i)))"
  by (simp add: head_ok_def)

lemma addPrefixBefore_ok:
  assumes h: "head_ok d h P" "d + prefixCount h = level h"
    and ch: "head_ok (Suc (level h)) ch P'" "Suc (level h) + prefixCount ch = level ch"
    and P': "take (Suc (level h)) P' = P @ [k]"
  shows "head_ok d (addPrefixBefore ch h k) P'" "level (addPrefixBefore ch h k) = level ch"
    "d + prefixCount (addPrefixBefore ch h k) = level ch"
proof -
  note hd = head_okD [OF h(1)] and hc = head_okD [OF ch(1)]
  let ?p = "prefixCount h" and ?q = "prefixCount ch"
  let ?c = "min 4 (?p + 1)"
  let ?m = "min ?q (4 - ?c)"
  let ?p1 = "take ?c (prefix_bytes ch) @ take ?m (prefix_bytes ch) @ drop (?c + ?m) (prefix_bytes ch)"
  let ?n = "min ?c ?p"
  let ?p2 = "take ?n (prefix_bytes h) @ drop ?n ?p1"
  let ?p3 = "if ?p < 4 then ?p2[?c - 1 := k] else ?p2"
  have a: "addPrefixBefore ch h k = ch\<lparr>prefixCount := ?q + ?p + 1, prefix_bytes := ?p3\<rparr>"
    by (simp add: addPrefixBefore_def Let_def)
  show "level (addPrefixBefore ch h k) = level ch" "d + prefixCount (addPrefixBefore ch h k) = level ch"
    using h(2) ch(2) by (simp_all add: a)
  have l1: "length ?p1 = 4" using hc(4) by auto
  have "length (take n xs @ drop n ys) = 4" if "length xs = 4" "length ys = 4" for n and xs ys :: "u8 list"
    using that by simp
  from this [OF hd(4) l1] have "length ?p2 = 4" .
  moreover have "length (if b then xs[i := k] else xs) = 4" if "length xs = 4" for b i and xs :: "u8 list"
    using that by simp
  ultimately have l3: "length ?p3 = 4" by blast
  have PP: "P' ! (d + i) = (if i < ?p then P ! (d + i) else k)" if "i < ?p + 1" for i
  proof -
    have "P' ! (d + i) = (P @ [k]) ! (d + i)" unfolding P' [symmetric] using that h(2) by simp
    then show ?thesis using that h(2) hd(1) by (auto simp: nth_append)
  qed
  have hb: "prefix_bytes h ! i = P ! (d + i)" if "i < ?p" "i < 4" for i
  proof -
    have "level h - prefixCount h = d" using h(2) by simp
    with hd(6) [of i] that h(2) show ?thesis by simp
  qed
  have cb: "prefix_bytes ch ! i = P' ! (d + (?p + 1 + i))" if "i < ?q" "i < 4" for i
  proof -
    have "level ch - ?q + i = d + (?p + 1 + i)" using h(2) ch(2) by simp
    with hc(6) [of i] that ch(2) show ?thesis by simp
  qed
  have bytes: "?p3 ! i = P' ! (d + i)" if i: "i < ?q + ?p + 1" "i < 4" for i
  proof -
    consider "i < ?p" | "i = ?p" | "?p < i" by linarith
    then show ?thesis
    proof cases
      case 1
      then have "?p3 ! i = prefix_bytes h ! i" using i hd(4) by (auto simp: nth_append nth_list_update)
      with hb [OF 1 i(2)] PP [of i] 1 show ?thesis by simp
    next
      case 2
      then have "?p3 ! i = k" using i(2) hd(4) hc(4) by (simp add: nth_append)
      with PP [of i] 2 show ?thesis by simp
    next
      case 3
      define i' where "i' = i - (?p + 1)"
      have i': "i = ?p + 1 + i'" "?c = ?p + 1" using 3 i(2) unfolding i'_def by auto
      then have "?p3 ! i = ?p1 ! i" using i(2) 3 hd(4) l1 by (simp add: nth_append nth_list_update)
      also have "\<dots> = prefix_bytes ch ! i'" using i i' hc(4) by (auto simp: nth_append min_def)
      also have "\<dots> = P' ! (d + i)" using cb [of i'] i i' by simp
      finally show ?thesis .
    qed
  qed
  have "level ch - (?q + ?p + 1) = d" "?q + ?p + 1 \<le> level ch" "d \<le> level ch" using h(2) ch(2) by simp_all
  with bytes l3 hc(1,3) show "head_ok d (addPrefixBefore ch h k) P'" unfolding a head_ok_changed min_less_iff_conj by metis
qed

subsection \<open>Removal\<close>

lemma removeAndUnlock_256:
  assumes "body_ok b" "getChild b k = Some y" "capacity (layout b) = 256"
  shows "\<exists>b'. removeAndUnlock b k True = Inr b' \<and> capacity (layout b') = 256"
  using n_remove_ok [OF assms(1,2), of True] assms(3)
  by (cases "layout b") (auto simp: capacity_def removeAndUnlock_def removeAndShrink_def)

text \<open>Taking out the leaf of the key \<open>fk\<close>.\<close>

lemma rmap_taken:
  assumes "getChild b' = (getChild b)(fk ! level h := None)" "getChild b (fk ! level h) = Some (RLeaf fk w)"
  shows "rmap (RNode h b') = (rmap (RNode h b))(fk := None)"
proof
  fix fk'
  show "rmap (RNode h b') fk' = ((rmap (RNode h b))(fk := None)) fk'"
    using assms by (cases "fk' ! level h = fk ! level h") auto
qed

lemma remove_child_ok:
  assumes P: "take (length p) P = p" "head_ok (length p) h P" "node_ok True (length p) h b"
      "\<And>k c. getChild b k = Some c \<Longrightarrow> rtree (node_ok True) (P @ [k]) c"
    and k: "getChild b (fk ! level h) = Some (RLeaf fk w)"
  shows "\<exists>n'. remove_child h b (fk ! level h) (p = []) = Inr n' \<and> rtree (node_ok True) p n' \<and>
    (p = [] \<longrightarrow> \<not> is_leaf n') \<and> rmap n' = (rmap (RNode h b))(fk := None)"
proof -
  note hd = head_okD [OF P(2)] and no = rnode_okD [OF P(3)]
  let ?k = "fk ! level h" and ?root = "p = []"
  have gc: "getCount b = min 3 (count b)" using getCount_ok [OF no(2)] .
  have n1: "\<not> (\<not> ?root \<and> getCount b = 1)" using gc no(6) by auto
  show ?thesis
  proof (cases "\<not> ?root \<and> count b = 2")
    case True
    then have gc2: "\<not> ?root \<and> getCount b = 2" using gc by simp
    have n4: "capacity (layout b) = 4"
      using no(7) True by (auto simp: enough_def threshold_def capacity_def split: layout.splits)
    have c2: "card (dom (getChild b)) = 2" using True no(2) by (simp add: body_ok_def)
    have "\<not> dom (getChild b) \<subseteq> {?k}"
    proof
      assume "dom (getChild b) \<subseteq> {?k}"
      from card_mono [OF _ this] c2 show False by simp
    qed
    then obtain q0 where q0: "q0 \<in> dom (getChild b)" "q0 \<noteq> ?k" by blast
    then obtain x0 where "getChild b q0 = Some x0" by blast
    from getSecondChild_ok [OF no(2) n4 this q0(2)] obtain q x where
      q: "getSecondChild b ?k = Inr (Some (x, q))" "getChild b q = Some x" "q \<noteq> ?k" by blast
    have only: "getChild b j = None" if "j \<noteq> q" "j \<noteq> ?k" for j
    proof (rule ccontr)
      assume "getChild b j \<noteq> None"
      then have "{j, q, ?k} \<subseteq> dom (getChild b)" using q(2) k by auto
      then have "card {j, q, ?k} \<le> 2" using card_mono [OF finite_bytes] c2 by metis
      with that q(3) show False by simp
    qed
    have x: "rtree (node_ok True) (P @ [q]) x" using P(4) [OF q(2)] .
    have m: "rmap x fk' = ((rmap (RNode h b))(fk := None)) fk'" for fk'
    proof -
      have "fk' ! level h = q" if "rmap x fk' = Some v" for v
      proof -
        from rmap_keys [OF x that] hd(1) have "length fk' = 8" "take (Suc (level h)) fk' = P @ [q]" by simp_all
        with take_length_Suc [OF this(1) hd(3) this(2) hd(1)] show ?thesis by simp
      qed
      then show ?thesis using q(2,3) k only [of "fk' ! level h"]
        by (cases "rmap x fk'"; cases "fk' ! level h = ?k"; cases "fk' ! level h = q") auto
    qed
    show ?thesis
    proof (cases x)
      case (RLeaf lk v)
      have "length lk = 8 \<and> take (Suc (level h)) lk = P @ [q]" using x RLeaf hd(1) by simp
      then have "take (level h) lk = P" using take_length_Suc [of lk h P q] hd(1,3) by simp
      then have "take (length p) lk = p" using P(1) hd(2) by (metis min.absorb1 take_take)
      with x m q(1) gc2 RLeaf show ?thesis by (auto simp: remove_child_def fun_eq_iff)
    next
      case (RNode ch cb)
      from x [unfolded RNode] obtain P' where P': "take (length (P @ [q])) P' = P @ [q]" "head_ok (length (P @ [q])) ch P'"
        "node_ok True (length (P @ [q])) ch cb" "\<And>k c. getChild cb k = Some c \<Longrightarrow> rtree (node_ok True) (P' @ [k]) c"
        by (rule rtreeE) blast
      have l: "length (P @ [q]) = Suc (level h)" using hd(1) by simp
      note nc = rnode_okD [OF P'(3) [unfolded l]]
      note ap = addPrefixBefore_ok [OF P(2) no(1) [OF TrueI] P'(2) [unfolded l] nc(1) [OF TrueI] P'(1) [unfolded l]]
      have tp: "take (length p) P' = p"
      proof -
        have "take (level h) P' = P" using arg_cong [OF P'(1), of "take (level h)"] l hd(1) by (simp add: min_def)
        then show ?thesis using P(1) hd(2) by (metis min.absorb1 take_take)
      qed
      have "node_ok True (length p) (addPrefixBefore ch h q) cb"
        using ap(2,3) nc(2,6,7) True by (simp add: node_ok_def)
      from rtreeI [OF tp ap(1) this P'(4)] have "rtree (node_ok True) p (RNode (addPrefixBefore ch h q) cb)" .
      moreover have "rmap (RNode (addPrefixBefore ch h q) cb) = (rmap (RNode h b))(fk := None)"
        using m rmap_head [OF ap(2), of cb] RNode by (simp add: fun_eq_iff)
      ultimately show ?thesis using q(1) gc2 RNode True by (simp add: remove_child_def)
    qed
  next
    case False
    then have gc2: "\<not> (\<not> ?root \<and> getCount b = 2)" using gc by auto
    have "\<not> ?root \<Longrightarrow> enough b" using no(7) by simp
    from removeAndUnlock_ok [OF no(2) k this] obtain b' where
      b': "removeAndUnlock b ?k ?root = Inr b'" "body_ok b'" "getChild b' = (getChild b)(?k := None)" "\<not> ?root \<Longrightarrow> enough b'"
      by auto
    have cb: "count b' = count b - 1" using b'(2,3) no(2) card_remove [of "getChild b", OF k] by (simp add: body_ok_def)
    have "node_ok True (length p) h b'"
    proof (cases ?root)
      case True
      from removeAndUnlock_256 [OF no(2) k] b'(1) True no(5) have "capacity (layout b') = 256" by simp
      with True P(3) b'(2) show ?thesis by (simp add: node_ok_def)
    next
      case r: False
      with False no(6) have "3 \<le> count b" by auto
      with r P(3) b' cb show ?thesis by (simp add: node_ok_def)
    qed
    then have "rtree (node_ok True) p (RNode h b')"
      using P(1,2,4) by (intro rtreeI [of p P]) (auto simp: b'(3) split: if_splits)
    moreover have "rmap (RNode h b') = (rmap (RNode h b))(fk := None)" by (rule rmap_taken [OF b'(3) k])
    moreover have "remove_child h b ?k ?root = Inr (RNode h b')" using b'(1) n1 gc2 by (auto simp: remove_child_def)
    ultimately show ?thesis using is_leaf_simps(2) by blast
  qed
qed

lemma remove_from_eq:
  assumes "checkPrefix h (key_len k) (fkey k) lv \<in> {OptimisticMatch l, Match l}" "l < length (fkey k)"
  shows "remove_from (RNode h b) k lv root =
    (case getChild b (fkey k ! l) of
       None \<Rightarrow> Inr (RNode h b, NotFound)
     | Some (RLeaf lk w) \<Rightarrow>
         if \<not> checkKey lk (key_len k) (fkey k) then Inr (RNode h b, NotFound)
         else map_sum id (\<lambda>n. (n, Success)) (remove_child h b (fkey k ! l) root)
     | Some (RNode ch cb) \<Rightarrow>
         (case remove_from (RNode ch cb) k (Suc l) False of
            Inl e \<Rightarrow> Inl e
          | Inr (c, r) \<Rightarrow> map_sum id (\<lambda>n. (n, r)) (at_child h b (fkey k ! l) c)))"
  using assms by (auto simp: Let_def)

declare remove_from.simps(2) [simp del]

lemma remove_from_ok:
  assumes k: "length (fkey k) = 8" "key_len k = 8"
  shows "rtree (node_ok True) p n \<Longrightarrow> \<not> is_leaf n \<Longrightarrow>
    \<exists>n'. remove_from n k (length p) (p = []) = Inr (n', if rmap n (fkey k) = None then NotFound else Success) \<and>
      rtree (node_ok True) p n' \<and> (p = [] \<longrightarrow> \<not> is_leaf n') \<and> rmap n' = (rmap n)(fkey k := None)"
proof (induction n arbitrary: p rule: measure_induct_rule [where f = size])
  case (less n)
  then obtain h b where n: "n = RNode h b" by (cases n) auto
  from less.prems(1) [unfolded n] obtain P where P: "take (length p) P = p" "head_ok (length p) h P" "node_ok True (length p) h b"
    "\<And>k c. getChild b k = Some c \<Longrightarrow> rtree (node_ok True) (P @ [k]) c" by (rule rtreeE) blast
  note hd = head_okD [OF P(2)]
  let ?fk = "fkey k"
  let ?k = "?fk ! level h"
  have unchanged: "rmap n ?fk = None \<Longrightarrow> rmap n = (rmap n)(?fk := None)" by auto
  show ?case
  proof (cases "checkPrefix h 8 ?fk (length p) = NoMatch")
    case True
    with checkPrefix_cases [OF P(2) k(1) P(4)] have "rmap n ?fk = None" by (auto simp: n)
    moreover from True have "remove_from n k (length p) (p = []) = Inr (n, NotFound)"
      by (simp add: n k(2) remove_from.simps)
    ultimately show ?thesis using less.prems unchanged by simp
  next
    case False
    with checkPrefix_cases [OF P(2) k(1) P(4)]
    have "checkPrefix h (key_len k) ?fk (length p) \<in> {OptimisticMatch (level h), Match (level h)}" by (auto simp: k(2))
    moreover have l8: "level h < length ?fk" using hd(3) k(1) by simp
    ultimately have r: "remove_from n k (length p) root =
      (case getChild b ?k of
         None \<Rightarrow> Inr (n, NotFound)
       | Some (RLeaf lk w) \<Rightarrow>
           if \<not> checkKey lk (key_len k) ?fk then Inr (n, NotFound)
           else map_sum id (\<lambda>n. (n, Success)) (remove_child h b ?k root)
       | Some (RNode ch cb) \<Rightarrow>
           (case remove_from (RNode ch cb) k (Suc (level h)) False of
              Inl e \<Rightarrow> Inl e
            | Inr (c, r) \<Rightarrow> map_sum id (\<lambda>n. (n, r)) (at_child h b ?k c)))" for root
      unfolding n by (rule remove_from_eq)
    show ?thesis
    proof (cases "getChild b ?k")
      case None
      then have "rmap n ?fk = None" by (simp add: n)
      with r None less.prems unchanged show ?thesis by simp
    next
      case (Some c)
      show ?thesis
      proof (cases c)
        case (RLeaf lk w)
        have lk: "length lk = 8" using P(4) [OF Some] by (simp add: RLeaf)
        show ?thesis
        proof (cases "lk = ?fk")
          case False
          then have "rmap n ?fk = None" by (simp add: n Some RLeaf)
          with False r Some RLeaf less.prems k checkKey_eq [OF lk k(1)] unchanged show ?thesis by simp
        next
          case True
          from remove_child_ok [OF P Some [unfolded RLeaf True]] obtain n' where
            n': "remove_child h b ?k (p = []) = Inr n'" "rtree (node_ok True) p n'" "p = [] \<longrightarrow> \<not> is_leaf n'"
              "rmap n' = (rmap n)(?fk := None)" by (auto simp: n)
          have "rmap n ?fk \<noteq> None" by (simp add: n Some RLeaf True)
          moreover have "remove_from n k (length p) (p = []) = Inr (n', Success)"
            using n'(1) r [of "p = []"] Some RLeaf True k checkKey_eq [OF lk k(1)] by simp
          ultimately show ?thesis using n' by auto
        qed
      next
        case c: (RNode ch cb)
        have sz: "size c < size n" using getChild_size [OF Some, of size] by (simp add: n)
        have "\<not> is_leaf c" by (simp add: c)
        have "length (P @ [?k]) = Suc (level h)" "(P @ [?k] = []) = False" using hd(1) by simp_all
        from less.IH [OF sz P(4) [OF Some] \<open>\<not> is_leaf c\<close>, unfolded this] obtain c' where
          c': "remove_from c k (Suc (level h)) False = Inr (c', if rmap c ?fk = None then NotFound else Success)"
            "rtree (node_ok True) (P @ [?k]) c'" "rmap c' = (rmap c)(?fk := None)" by blast
        from at_child_ok [OF P Some c'(2)] obtain b' where
          b': "at_child h b ?k c' = Inr (RNode h b')" "getChild b' = (getChild b)(?k \<mapsto> c')" "rtree (node_ok True) p (RNode h b')" by blast
        have "rmap (RNode h b') = (rmap n)(?fk := None)"
          unfolding n by (rule rmap_child [OF b'(2)]) (simp_all add: Some c'(3))
        moreover have "rmap n ?fk = rmap c ?fk" by (simp add: n Some)
        then have "remove_from n k (length p) (p = []) = Inr (RNode h b', if rmap n ?fk = None then NotFound else Success)"
          using r [of "p = []"] Some c c'(1) b'(1) by simp
        ultimately show ?thesis using b'(3) is_leaf_simps(2) by blast
      qed
    qed
  qed
qed

end
