(* ===== verification/Roart_Crash.thy ===== *)
theory Roart_Crash
  imports Roart_Put
begin

text \<open>
  Insertion into the tree of \<^verbatim>\<open>roart/roart.cpp\<close> is atomic with respect to crashes: every image
  of \<open>put_images\<close>, whatever the counters of the node, reads as the tree before or after the
  insertion.
\<close>

subsection \<open>The images of a slot\<close>

lemma getChild_layout: "getChild (Body (layout b) c cc) = getChild b"
  by (rule ext) (simp add: getChild_defs)

lemma keyed_key_only:
  assumes ok: "keyed_ok n ks cs cc" and c: "cc < n"
  shows "keyed_find (ks[cc := k]) cs n = keyed_find ks cs n"
proof -
  have free: "cs ! cc = None" using ok c by (simp add: keyed_ok_def)
  have ok': "keyed_ok n (ks[cc := k]) cs cc"
    unfolding keyed_ok_def
  proof (intro conjI allI impI)
    fix i j assume "i < n" "j < n" "cs ! i \<noteq> None" "cs ! j \<noteq> None" "(ks[cc := k]) ! i = (ks[cc := k]) ! j"
    moreover from this free have "i \<noteq> cc" "j \<noteq> cc" by auto
    ultimately show "i = j" using keyed_inj [OF ok, of i j] by simp
  qed (use ok in \<open>auto simp: keyed_ok_def\<close>)
  have cc: "cc \<le> n" using c by simp
  show ?thesis
  proof (rule map_eqI)
    fix k' x
    show "keyed_find (ks[cc := k]) cs n k' = Some x \<longleftrightarrow> keyed_find ks cs n k' = Some x"
      unfolding keyed_find_iff [OF ok' cc order_refl] keyed_find_iff [OF ok cc order_refl]
      using free by (metis nth_list_update_neq option.distinct(1))
  qed
qed

lemma indexed_index_only:
  assumes ok: "indexed_ok ci cs cc" and c: "cc < 48" and new: "indexed_find ci cs k = None"
  shows "indexed_find (ci[unat k := cc]) cs = indexed_find ci cs"
proof
  fix k'
  have "cs ! cc = None" "length ci = 256" "length cs = 48" using ok c by (simp_all add: indexed_ok_def)
  then show "indexed_find (ci[unat k := cc]) cs k' = indexed_find ci cs k'"
    using new c by (cases "k' = k") (auto simp: indexed_find_def at_slot_def)
qed

lemma slot_images_ok:
  assumes ok: "body_ok b" and k: "getChild b k = None" and l: "l \<in> set (slot_images b k x)"
  shows "getChild (Body l c cc) = getChild b \<or> getChild (Body l c cc) = (getChild b)(k \<mapsto> x)"
proof -
  note lo = body_ok_layout [OF ok]
  from l consider "l = layout b" | "l = layout (insertAndUnlock b k x)"
    | ks cs where "layout b = N4 ks cs" "compactCount b \<noteq> 4" "l = N4 (ks[compactCount b := k]) cs"
    | ks cs where "layout b = N16 ks cs" "compactCount b \<noteq> 16" "l = N16 (ks[compactCount b := flipSign k]) cs"
    | ci cs where "layout b = N48 ci cs" "compactCount b \<noteq> 48" "l = N48 (ci[unat k := compactCount b]) cs"
    by (auto simp: slot_images_def Let_def split: layout.splits if_splits)
  then show ?thesis
  proof cases
    case 1
    then show ?thesis by (simp add: getChild_layout)
  next
    case 2
    then show ?thesis using insertAndUnlock_ok(2) [OF ok k] by (simp add: getChild_layout)
  next
    case 3
    then show ?thesis using lo keyed_key_only [of 4 ks cs "compactCount b" k]
      by (auto simp: layout_ok_def getChild_cases keyed_ok_def)
  next
    case 4
    then show ?thesis using lo keyed_key_only [of 16 ks cs "compactCount b" "flipSign k"]
      by (auto simp: layout_ok_def getChild_cases keyed_ok_def)
  next
    case 5
    have "indexed_find ci cs k = None" using k 5(1) by (simp add: getChild_cases)
    from indexed_index_only [OF _ _ this, of "compactCount b"] lo 5 show ?thesis
      by (auto simp: layout_ok_def getChild_cases indexed_ok_def)
  qed
qed

subsection \<open>The images of the tree\<close>

abbreviation any_node :: "nat \<Rightarrow> rhead \<Rightarrow> rnode body \<Rightarrow> bool" where
  "any_node \<equiv> (\<lambda>_ _ _. True)"

lemma rtree_any: "rtree Q p n \<Longrightarrow> rtree any_node p n"
  by (rule rtree_mono) simp_all

definition image_ok :: "u8 list \<Rightarrow> rnode \<Rightarrow> u8 list \<Rightarrow> u64 \<Rightarrow> rnode \<Rightarrow> bool" where
  "image_ok p n fk v n' \<longleftrightarrow>
     rtree any_node p n' \<and> \<not> is_leaf n' \<and> (rmap n' = rmap n \<or> rmap n' = (rmap n)(fk \<mapsto> v))"

text \<open>The pointer to a new parent is stored while the node below still has its long prefix.\<close>

lemma unshortened_ok:
  assumes fk: "length fk = 8" "take (length p) fk = p"
    and P: "take (length p) P = p" "head_ok (length p) h P"
      "\<And>k c. getChild b k = Some c \<Longrightarrow> rtree any_node (P @ [k]) c"
    and d: "length p + prefixCount h = level h"
    and l: "length p \<le> l" "l < level h" "take l fk = take l P" "fk ! l \<noteq> P ! l"
  shows "image_ok p (RNode h b) fk v
    (two_leaves (h\<lparr>level := l, prefixCount := l - length p\<rparr>) (fk ! l) (RLeaf fk v) (P ! l) (RNode h b))"
proof -
  note hd = head_okD [OF P(2)]
  let ?h2 = "h\<lparr>level := l, prefixCount := l - length p\<rparr>"
  from two_leaves_ok [OF l(4), of ?h2 "RLeaf fk v" "RNode h b"] obtain b2 where
    b2: "two_leaves ?h2 (fk ! l) (RLeaf fk v) (P ! l) (RNode h b) = RNode ?h2 b2"
      "getChild b2 = [fk ! l \<mapsto> RLeaf fk v, P ! l \<mapsto> RNode h b]" by blast
  have lP: "Suc l \<le> length P" using l(2) hd(1) by simp
  then have tk: "take l P @ [P ! l] = take (Suc l) P" by (simp add: take_Suc_conv_app_nth)
  have h1: "head_ok (Suc l) h P" using hd d l(2) P(2) by (simp add: head_ok_def)
  have h2: "head_ok (length p) ?h2 (take l P)"
  proof -
    have "prefix_bytes h ! i = P ! (length p + i)" if "i < l - length p" "i < 4" for i
    proof -
      have "level h - prefixCount h = length p" "i < prefixCount h" using d l(2) that(1) by linarith+
      with hd(6) [of i] that(2) d show ?thesis by simp
    qed
    with hd(1,3,4) l(1,2) show ?thesis by (auto simp: head_ok_def)
  qed
  have "rtree any_node p (RNode ?h2 b2)"
  proof (rule rtreeI [OF _ h2])
    show "take (length p) (take l P) = p" using P(1) l(1) by (simp add: min_absorb1)
    fix k c assume "getChild b2 k = Some c"
    with b2(2) consider "k = P ! l" "c = RNode h b" | "k = fk ! l" "c = RLeaf fk v" by (auto split: if_splits)
    then show "rtree any_node (take l P @ [k]) c"
    proof cases
      case 1
      have "rtree any_node (take (Suc l) P) (RNode h b)"
        by (rule rtreeI [of _ P]) (use h1 lP P(3) in \<open>simp_all add: min_absorb2\<close>)
      with 1 tk show ?thesis by simp
    next
      case 2
      have "take (Suc l) fk = take l P @ [fk ! l]" using fk(1) l(2,3) hd(3) by (simp add: take_Suc_conv_app_nth)
      with 2 fk(1) lP show ?thesis by (simp add: min_absorb2)
    qed
  qed simp
  moreover have "rmap (RNode ?h2 b2) = (rmap (RNode h b))(fk \<mapsto> v)"
  proof
    fix fk'
    have "fk' ! l = P ! l" if "rmap (RNode h b) fk' = Some w" for w
      using rmap_path(2) [OF hd(1,3) P(3) that] l(2) by (metis nth_take)
    moreover have "rmap (RNode ?h2 b2) fk' = (if fk' ! l = P ! l then rmap (RNode h b) fk' else if fk' = fk then Some v else None)"
      using l(4) by (auto simp: b2(2))
    ultimately show "rmap (RNode ?h2 b2) fk' = ((rmap (RNode h b))(fk \<mapsto> v)) fk'"
      using l(4) by (cases "rmap (RNode h b) fk'") auto
  qed
  ultimately show ?thesis using b2(1) by (simp add: image_ok_def)
qed

lemma put_images_match:
  assumes "checkPrefixPessimistic h b fk lv = Inr (h', fixed, PMatch nl)" "nl < 8"
  shows "put_images (RNode h b) fk v lv c cc = RNode h b # RNode h' b #
    (let k = fk ! nl; with = (\<lambda>x. case at_child h' b k x of Inl e \<Rightarrow> [] | Inr n \<Rightarrow> [n]) in
     case getChild b k of
       None \<Rightarrow> map (\<lambda>l. RNode h' (Body l c cc)) (slot_images b k (RLeaf fk v))
     | Some (RLeaf lk w) \<Rightarrow>
         (case roart_split_leaf lk w fk v (Suc nl) of Inl e \<Rightarrow> [] | Inr x \<Rightarrow> with x)
     | Some (RNode ch cb) \<Rightarrow> concat (map with (put_images (RNode ch cb) fk v (Suc nl) c cc)))"
  using assms by simp

lemma put_images_differs:
  assumes "checkPrefixPessimistic h b fk lv = Inr (h', fixed, PNoMatch nl nk rest)" "nl < 8"
  shows "put_images (RNode h b) fk v lv c cc = [RNode h b, RNode h' b,
    two_leaves (h'\<lparr>level := nl, prefixCount := nl - lv\<rparr>) (fk ! nl) (RLeaf fk v) nk (RNode h' b),
    roart_split_prefix h' b fk v lv nl nk rest]"
  using assms by simp

declare put_images.simps(2) [simp del]

text \<open>A child replaced by an image of it.\<close>

lemma image_child:
  assumes P: "take (length p) P = p" "head_ok (length p) h' P" "level h' = level h" "body_ok b"
      "\<And>k c. getChild b k = Some c \<Longrightarrow> rtree any_node (P @ [k]) c"
    and k: "getChild b (fk ! level h) = Some y"
    and x: "rtree any_node (P @ [fk ! level h]) x" "rmap x = rmap y \<or> rmap x = (rmap y)(fk \<mapsto> v)"
    and m: "at_child h' b (fk ! level h) x = Inr n'"
  shows "image_ok p (RNode h b) fk v n'"
proof -
  from n_change_ok [OF P(4) k, of x] m obtain b' where
    b': "n' = RNode h' b'" "getChild b' = (getChild b)(fk ! level h \<mapsto> x)" by (auto simp: at_child_def)
  have "rtree any_node p n'" unfolding b'(1)
    using P(5) x(1) by (intro rtreeI [OF P(1,2)]) (auto simp: b'(2) split: if_splits)
  moreover have "rmap n' = rmap (RNode h b) \<or> rmap n' = (rmap (RNode h b))(fk \<mapsto> v)"
    using x(2) rmap_child_same [OF b'(2) P(3) k] rmap_child [OF b'(2) P(3), of fk "Some v"] k
    by (auto simp: b'(1))
  ultimately show ?thesis by (simp add: image_ok_def b'(1))
qed

lemma put_images_ok:
  "rtree (node_ok s) p n \<Longrightarrow> \<not> is_leaf n \<Longrightarrow> length fk = 8 \<Longrightarrow> take (length p) fk = p \<Longrightarrow>
   n' \<in> set (put_images n fk v (length p) c cc) \<Longrightarrow> image_ok p n fk v n'"
proof (induction n arbitrary: p n' rule: measure_induct_rule [where f = size])
  case (less n)
  then obtain h b where n: "n = RNode h b" by (cases n) auto
  note t = less.prems(1) [unfolded n] and fk = less.prems(3,4)
  from t obtain P where P: "take (length p) P = p" "head_ok (length p) h P" "node_ok s (length p) h b"
    "\<And>k c. getChild b k = Some c \<Longrightarrow> rtree (node_ok s) (P @ [k]) c" by (rule rtreeE) blast
  note hd = head_okD [OF P(2)] and no = rnode_okD [OF P(3)]
  from checkPrefixPessimistic_ok [OF t fk P] obtain h' fixed r where
    c: "checkPrefixPessimistic h b fk (length p) = Inr (h', fixed, r)" "verdict_ok (length p) (level h) P fk r"
    and h': "head_ok (length p) h' P" "length p + prefixCount h' = level h" "level h' = level h"
      "node_ok s (length p) h' b" "rtree (node_ok s) p (RNode h' b)" by blast
  have old: "image_ok p n fk v (RNode h b)" "image_ok p n fk v (RNode h' b)"
    using rtree_any [OF t] rtree_any [OF h'(5)] rmap_head [OF h'(3), of b] by (simp_all add: image_ok_def n)
  have any: "rtree any_node (P @ [k]) c" if "getChild b k = Some c" for k c using rtree_any [OF P(4) [OF that]] .
  show ?case
  proof (cases "take (level h) fk = P")
    case False
    from verdict_differs [OF c(2) False] obtain l rest where
      l: "r = PNoMatch l (P ! l) rest" "length p \<le> l" "l < level h" "take l fk = take l P" "fk ! l \<noteq> P ! l"
      "length rest \<ge> min (level h - Suc l) 4" "\<forall>i<min (level h - Suc l) 4. rest ! i = P ! (Suc l + i)" by blast
    have p: "p \<noteq> []" using l(3) no(3) by auto
    have l8: "l < 8" using l(3) hd(3) by simp
    note l' = l(2) l(3) [folded h'(3)] l(4,5)
    note d = h'(2) [folded h'(3)]
    note s = split_prefix_ok [OF fk p P(1) h'(1,4) P(4) d l' l(6,7) [folded h'(3)], of v]
    have "rmap (RNode h' b) = rmap n" using rmap_head [OF h'(3)] by (simp add: n fun_eq_iff)
    with s rtree_any [OF s(1)] have "image_ok p n fk v (roart_split_prefix h' b fk v (length p) l (P ! l) rest)"
      by (simp add: image_ok_def roart_split_prefix_def two_leaves_def)
    moreover have "image_ok p n fk v
        (two_leaves (h'\<lparr>level := l, prefixCount := l - length p\<rparr>) (fk ! l) (RLeaf fk v) (P ! l) (RNode h' b))"
      using unshortened_ok [OF fk P(1) h'(1) any d l', of b v] unfolding image_ok_def \<open>rmap (RNode h' b) = rmap n\<close>
      by blast
    ultimately show ?thesis
      using less.prems(5) put_images_differs [OF c(1) [unfolded l(1)] l8, where v = v] old by (auto simp: n)
  next
    case m: True
    have l8: "level h < 8" using hd(3) by simp
    let ?k = "fk ! level h"
    let ?with = "\<lambda>x. case at_child h' b ?k x of Inl e \<Rightarrow> [] | Inr n \<Rightarrow> [n]"
    note im = put_images_match [OF c(1) [unfolded verdict_match [OF c(2) m]] l8, where v = v, folded n]
    note child = image_child [OF P(1) h'(1,3) no(2) any, of fk _ _ v, folded n]
    have new: ?thesis if "x \<in> set (?with y)" "n' = x" "getChild b ?k = Some z"
      "rtree any_node (P @ [?k]) y" "rmap y = rmap z \<or> rmap y = (rmap z)(fk \<mapsto> v)" for x y z
      using that child by (auto split: sum.splits)
    show ?thesis
    proof (cases "n' = n \<or> n' = RNode h' b")
      case True
      with old [folded n] show ?thesis by auto
    next
      case nn: False
      note tl = take_level [OF hd(1,3) fk(1) m]
      show ?thesis
      proof (cases "getChild b ?k")
        case None
        from less.prems(5) nn im None obtain l where
          l: "n' = RNode h' (Body l c cc)" "l \<in> set (slot_images b ?k (RLeaf fk v))" by (auto simp: Let_def)
        from slot_images_ok [OF no(2) None l(2), of c cc] show ?thesis
        proof
          assume g: "getChild (Body l c cc) = getChild b"
          have "rtree any_node p n'" unfolding l(1) using any by (intro rtreeI [OF P(1) h'(1)]) (auto simp: g)
          then show ?thesis by (simp add: image_ok_def l(1) n g h'(3) fun_eq_iff)
        next
          assume g: "getChild (Body l c cc) = (getChild b)(?k \<mapsto> RLeaf fk v)"
          have "rtree any_node p n'" unfolding l(1) using any fk(1) tl
            by (intro rtreeI [OF P(1) h'(1)]) (auto simp: g split: if_splits)
          moreover have "rmap n' = (rmap n)(fk \<mapsto> v)" unfolding l(1) n by (rule rmap_child [OF g h'(3)]) (auto simp: None)
          ultimately show ?thesis by (simp add: image_ok_def l(1))
        qed
      next
        case (Some z)
        show ?thesis
        proof (cases z)
          case (RLeaf lk w)
          have q: "P @ [?k] \<noteq> []" "length (P @ [?k]) \<le> 8" using hd(1,3) by simp_all
          have "length lk = 8" "take (length (P @ [?k])) lk = P @ [?k]" using any [OF Some] RLeaf by simp_all
          from split_leaf_node_ok(1) [OF this(1) fk(1) this(2) tl q, of w v s] hd(1) obtain x where
            x: "roart_split_leaf lk w fk v (Suc (level h)) = Inr x" "rtree (node_ok s) (P @ [?k]) x" "rmap x = (rmap z)(fk \<mapsto> v)"
            by (auto simp: RLeaf)
          from less.prems(5) nn im Some RLeaf x(1) have "n' \<in> set (?with x)" by (auto simp: Let_def)
          from new [OF this refl Some rtree_any [OF x(2)]] x(3) show ?thesis by blast
        next
          case z: (RNode ch cb)
          from less.prems(5) nn im Some z obtain y where
            y: "y \<in> set (put_images z fk v (Suc (level h)) c cc)" "n' \<in> set (?with y)" by (auto simp: Let_def)
          have sz: "size z < size n" using getChild_size [OF Some, of size] by (simp add: n)
          have "\<not> is_leaf z" by (simp add: z)
          from less.IH [OF sz P(4) [OF Some] this fk(1) tl, of y] y(1) hd(1) have "image_ok (P @ [?k]) z fk v y" by simp
          with new [OF y(2) refl Some] show ?thesis by (simp add: image_ok_def)
        qed
      qed
    qed
  qed
qed

end
