(* ===== verification/Roart_Props.thy ===== *)
theory Roart_Props
  imports Roart_Remove Roart_Crash Index
begin

text \<open>
  The properties of the tree of \<^verbatim>\<open>roart/roart.cpp\<close>: it is a dictionary under any sequence of
  insertions, updates and removals, its nodes keep their children through every change of
  layout, insertion is atomic under crashes, and the rebuilding of the counters after a
  restart is one short.
\<close>

subsection \<open>The dictionary\<close>

definition roart_put8 :: "rnode \<Rightarrow> u64 \<Rightarrow> u64 \<Rightarrow> rnode res" where
  "roart_put8 root key v = map_sum id fst (roart_put root key v)"

definition roart_upd8 :: "rnode \<Rightarrow> u64 \<Rightarrow> u64 \<Rightarrow> rnode res" where
  "roart_upd8 root key v = map_sum id fst (roart_update root (ROART_KEY key 8 v))"

definition roart_del8 :: "rnode \<Rightarrow> u64 \<Rightarrow> rnode res" where
  "roart_del8 root key = map_sum id fst (roart_remove root (ROART_KEY key 8 0))"

definition roart_get8 :: "rnode \<Rightarrow> u64 \<Rightarrow> u64 option res" where
  "roart_get8 root key = Inr (get_from root (key_bytes key) 0 False)"

lemma roart_get_get8: "roart_get8 root key = Inr x \<Longrightarrow> roart_get root key = or_null x"
  by (simp add: roart_get8_def roart_get_def)

lemma ROART_KEY_simps [simp]:
  "fkey (ROART_KEY key len v) = key_bytes key" "key_len (ROART_KEY key len v) = len" "k_value (ROART_KEY key len v) = v"
  by (simp_all add: ROART_KEY_def)

declare put_loop.simps [simp del]

lemma put_loop_more:
  assumes "put_loop 1 root fk v = Inr x"
  shows "put_loop (Suc m) root fk v = Inr x"
proof (cases "put_from root fk v 0 True")
  case (Inl e)
  with assms show ?thesis by (simp add: put_loop.simps [of _ root])
next
  case (Inr r)
  show ?thesis
  proof (cases r)
    case (Finish n q)
    with assms Inr show ?thesis by (simp add: put_loop.simps [of _ root])
  next
    case (Restart n)
    with assms Inr have n: "put_loop 0 n fk v = Inr x" by (simp add: put_loop.simps [of _ root])
    then obtain n' q where "put_from n fk v 0 True = Inr (Finish n' q)"
      by (auto simp: put_loop.simps [of 0 n] split: sum.splits outcome.splits)
    with n have "put_loop m n fk v = Inr x" by (simp add: put_loop.simps [of _ n])
    with Restart Inr show ?thesis by (simp add: put_loop.simps [of _ root])
  qed
qed

lemma roart_put_ok:
  assumes "roart_ok s root"
  shows "\<exists>root'. roart_put root key v = Inr (root', if roart_map root key = None then Success else Existed) \<and>
    roart_ok s root' \<and> roart_map root' = (roart_map root)(key \<mapsto> v)"
proof -
  from put_loop_ok [OF assms length_key_bytes] obtain root' where
    r: "put_loop 1 root (key_bytes key) v = Inr (root', if rmap root (key_bytes key) = None then Success else Existed)"
      "roart_ok s root'" "rmap root' = (rmap root)(key_bytes key \<mapsto> v)" by blast
  from roart_map_upd [OF r(3)] r(1,2) show ?thesis by (simp add: roart_put_def roart_map_def)
qed

lemma roart_get_ok: "roart_ok s root \<Longrightarrow> get_from root (key_bytes key) 0 False = roart_map root key"
  using get_from_ok [of "node_ok s" "[]" root "key_bytes key" False] by (simp add: roart_ok_def roart_map_def)

lemma roart_update_ok:
  assumes "roart_ok s root"
  shows "\<exists>root'. roart_update root (ROART_KEY key 8 v) = Inr (root', if roart_map root key = None then NotFound else Success) \<and>
    roart_ok s root' \<and> roart_map root' = (if roart_map root key = None then roart_map root else (roart_map root)(key \<mapsto> v))"
proof -
  let ?k = "ROART_KEY key 8 v"
  from update_from_ok [of ?k s "[]" root] assms obtain root' q where
    r: "update_from root ?k 0 = Inr (root', q)" "roart_ok s root'"
      "if rmap root (key_bytes key) = None then q = NotFound \<and> rmap root' = rmap root
       else q = Success \<and> rmap root' = (rmap root)(key_bytes key \<mapsto> v)" by (auto simp: roart_ok_def)
  show ?thesis
  proof (cases "rmap root (key_bytes key) = None")
    case True
    with r show ?thesis by (simp add: roart_update_def roart_map_def)
  next
    case False
    with r have "rmap root' = (rmap root)(key_bytes key \<mapsto> v)" by simp
    from roart_map_upd [OF this] r False show ?thesis by (simp add: roart_update_def) (simp add: roart_map_def)
  qed
qed

lemma roart_remove_ok:
  assumes "roart_ok True root"
  shows "\<exists>root'. roart_remove root (ROART_KEY key 8 v) = Inr (root', if roart_map root key = None then NotFound else Success) \<and>
    roart_ok True root' \<and> roart_map root' = (roart_map root)(key := None)"
proof -
  let ?k = "ROART_KEY key 8 v"
  from remove_from_ok [of ?k "[]" root] assms obtain root' where
    r: "remove_from root ?k 0 True = Inr (root', if rmap root (key_bytes key) = None then NotFound else Success)"
      "roart_ok True root'" "rmap root' = (rmap root)(key_bytes key := None)" by (auto simp: roart_ok_def)
  from roart_map_upd [OF r(3)] r(1,2) show ?thesis by (simp add: roart_remove_def roart_map_def)
qed

interpretation roart: dict "roart_ok True" roart_map roart_put8 roart_get8 roart_upd8 roart_del8
proof unfold_locales
  fix s :: rnode and k v
  assume s: "roart_ok True s"
  show "\<exists>s'. roart_put8 s k v = Inr s' \<and> roart_ok True s' \<and> roart_map s' = (roart_map s)(k \<mapsto> v)"
    using roart_put_ok [OF s, of k v] by (auto simp: roart_put8_def)
  show "roart_get8 s k = Inr (roart_map s k)" by (simp add: roart_get8_def roart_get_ok [OF s])
  show "\<exists>s'. roart_upd8 s k v = Inr s' \<and> roart_ok True s' \<and>
      roart_map s' = (if roart_map s k = None then roart_map s else (roart_map s)(k \<mapsto> v))"
    using roart_update_ok [OF s, of k v] by (auto simp: roart_upd8_def)
  show "\<exists>s'. roart_del8 s k = Inr s' \<and> roart_ok True s' \<and> roart_map s' = (roart_map s)(k := None)"
    using roart_remove_ok [OF s, of k 0] by (auto simp: roart_del8_def)
qed

text \<open>With stale prefixes, as a crash leaves them, insertion and lookup still satisfy the contract.\<close>

interpretation roart_stale: index "roart_ok False" roart_map roart_put8 roart_get8
proof unfold_locales
  fix s :: rnode and k v
  assume s: "roart_ok False s"
  show "\<exists>s'. roart_put8 s k v = Inr s' \<and> roart_ok False s' \<and> roart_map s' = (roart_map s)(k \<mapsto> v)"
    using roart_put_ok [OF s, of k v] by (auto simp: roart_put8_def)
  show "roart_get8 s k = Inr (roart_map s k)" by (simp add: roart_get8_def roart_get_ok [OF s])
qed

text \<open>
  C7.  Any sequence of insertions, updates and removals on a new tree ends, without a failed
  assertion and without a restart that does not succeed; afterwards a lookup returns what the
  same operations on a map leave at the key, or 0, the code's null.
\<close>

theorem roart_history:
  "\<exists>root. run_ops (run_op roart_put8 roart_upd8 roart_del8) new_roart ops = Inr root \<and>
     (\<forall>key. roart_get root key = or_null (foldl apply_op Map.empty ops key))"
proof -
  from roart.ops_history [OF new_root_ok, of ops] obtain root where
    "run_ops (run_op roart_put8 roart_upd8 roart_del8) new_roart ops = Inr root"
    "\<forall>key. roart_get8 root key = Inr (foldl apply_op Map.empty ops key)" by blast
  then show ?thesis using roart_get_get8 by blast
qed

text \<open>
  C15.  Insertion into a tree of the invariant, also one in which prefixes do not fit the levels
  any more, returns after at most one restart, says whether the key was there, and changes the
  map at that key only.
\<close>

theorem roart_put_restarts_once:
  assumes "roart_ok s root" "0 < fuel"
  shows "\<exists>root'. put_loop fuel root (key_bytes key) v = Inr (root', if roart_map root key = None then Success else Existed) \<and>
    roart_ok s root' \<and> roart_get root' key = v \<and> (\<forall>key'. key' \<noteq> key \<longrightarrow> roart_get root' key' = roart_get root key')"
proof -
  from roart_put_ok [OF assms(1), of key v] obtain root' where
    r: "roart_put root key v = Inr (root', if roart_map root key = None then Success else Existed)"
      "roart_ok s root'" "roart_map root' = (roart_map root)(key \<mapsto> v)" by blast
  from assms(2) obtain m where "fuel = Suc m" by (cases fuel) auto
  with put_loop_more [OF r(1) [unfolded roart_put_def]] have
    "put_loop fuel root (key_bytes key) v = Inr (root', if roart_map root key = None then Success else Existed)" by simp
  then show ?thesis using roart_get_ok [OF r(2)] roart_get_ok [OF assms(1)] r(2,3) by (simp add: roart_get_def)
qed

theorem roart_put_restarts_once_witness:
  "\<exists>root'. put_loop 1 new_roart (key_bytes 5) 7 = Inr (root', Success) \<and> roart_get root' 5 = 7"
  using roart_put_restarts_once [OF new_root_ok(1) [of True] zero_less_one, of 5 7] by (auto simp: new_root_ok(2))

lemma single_key: "\<exists>root. roart_ok True root \<and> roart_map root = [5 \<mapsto> 7]"
  using roart_put_ok [OF new_root_ok(1) [of True], of 5 7] by (auto simp: new_root_ok(2))

text \<open>
  C16.  Removal from a tree whose prefixes fit returns, says whether the key was there, and takes
  exactly that key out: nodes shrink, and a node left with one child is replaced by it, with the
  joined prefix.
\<close>

theorem roart_remove_exact:
  assumes "roart_ok True root"
  shows "\<exists>root'. roart_remove root (ROART_KEY key 8 v) = Inr (root', if roart_map root key = None then NotFound else Success) \<and>
    roart_ok True root' \<and> roart_get root' key = 0 \<and> (\<forall>key'. key' \<noteq> key \<longrightarrow> roart_get root' key' = roart_get root key')"
proof -
  from roart_remove_ok [OF assms, of key v] obtain root' where
    r: "roart_remove root (ROART_KEY key 8 v) = Inr (root', if roart_map root key = None then NotFound else Success)"
      "roart_ok True root'" "roart_map root' = (roart_map root)(key := None)" by blast
  then show ?thesis using roart_get_ok [OF r(2)] roart_get_ok [OF assms] by (simp add: roart_get_def)
qed

theorem roart_remove_exact_witness:
  "\<exists>root root'. roart_get root 5 = 7 \<and> roart_remove root (ROART_KEY 5 8 0) = Inr (root', Success) \<and> roart_get root' 5 = 0"
proof -
  from single_key obtain root where root: "roart_ok True root" "roart_map root = [5 \<mapsto> 7]" by blast
  have "roart_get root 5 = 7" using roart_get_ok [OF root(1), of 5] root(2) by (simp add: roart_get_def)
  with roart_remove_exact [OF root(1), of 5 0] root(2) show ?thesis by auto
qed

text \<open>
  An update returns, reports a key that is not there and leaves the tree as it is for
  lookups, and otherwise changes the value of that key only.
\<close>

theorem roart_update_exact:
  assumes "roart_ok s root"
  shows "\<exists>root'. roart_update root (ROART_KEY key 8 v) = Inr (root', if roart_map root key = None then NotFound else Success) \<and>
    roart_ok s root' \<and>
    (\<forall>key'. roart_get root' key' = (if key' = key \<and> roart_map root key \<noteq> None then v else roart_get root key'))"
proof -
  from roart_update_ok [OF assms, of key v] obtain root' where
    r: "roart_update root (ROART_KEY key 8 v) = Inr (root', if roart_map root key = None then NotFound else Success)"
      "roart_ok s root'" "roart_map root' = (if roart_map root key = None then roart_map root else (roart_map root)(key \<mapsto> v))"
    by blast
  then show ?thesis using roart_get_ok [OF r(2)] roart_get_ok [OF assms] by (auto simp: roart_get_def)
qed

theorem roart_update_exact_witness:
  "\<exists>root root'. roart_get root 5 = 7 \<and> roart_update root (ROART_KEY 5 8 9) = Inr (root', Success) \<and> roart_get root' 5 = 9"
proof -
  from single_key obtain root where root: "roart_ok True root" "roart_map root = [5 \<mapsto> 7]" by blast
  have "roart_get root 5 = 7" using roart_get_ok [OF root(1), of 5] root(2) by (simp add: roart_get_def)
  with roart_update_exact [OF root(1), of 5 9] root(2) show ?thesis by auto
qed

subsection \<open>Crashes\<close>

text \<open>
  C8.  Every image that an insertion into a tree of the invariant can leave in persistent memory,
  with any counters in the node it was filling, answers all lookups as the tree before the
  insertion, or all of them as the tree after it.  An image is read once the lock word of every
  node, which is in DRAM and carries the type by which lookups dispatch, has been made anew from the
  persistent \<open>type\<close> of the node.
\<close>

theorem roart_crash_atomic:
  assumes "roart_ok s root" "img \<in> set (put_images root (key_bytes key) v 0 c cc)"
  shows "(\<forall>key'. roart_get img key' = roart_get root key') \<or>
    (\<forall>key'. roart_get img key' = (if key' = key then v else roart_get root key'))"
proof -
  from put_images_ok [of s "[]" root "key_bytes key"] assms have i: "image_ok [] root (key_bytes key) v img"
    by (simp add: roart_ok_def)
  then have g: "get_from img (key_bytes key') 0 False = rmap img (key_bytes key')" for key'
    using get_from_ok [of any_node "[]" img "key_bytes key'" False] by (simp add: image_ok_def)
  have "get_from root (key_bytes key') 0 False = rmap root (key_bytes key')" for key'
    using roart_get_ok [OF assms(1)] by (simp add: roart_map_def)
  with g i show ?thesis by (auto simp: image_ok_def roart_get_def)
qed

text \<open>
  A prefix split that a crash cuts short.  Keys 5 and 6 share seven bytes, 0x105 leaves the prefix
  of their node at the sixth; the new parent is stored, the node below still has its long prefix.
\<close>

definition root_over :: "rnode \<Rightarrow> rnode" where
  "root_over c = RNode \<lparr>level = 0, prefixCount = 0, prefix_bytes = replicate 4 0\<rparr>
     (Body (N256 ((replicate 256 None)[0 := Some c])) 1 0)"

definition two_keys :: rnode where
  "two_keys = RNode \<lparr>level = 7, prefixCount = 6, prefix_bytes = replicate 4 0\<rparr>
     (Body (N4 [6, 5, 0, 0] [Some (RLeaf (key_bytes 6) 8), Some (RLeaf (key_bytes 5) 7), None, None]) 2 2)"

definition torn_split :: rnode where
  "torn_split = RNode \<lparr>level = 6, prefixCount = 5, prefix_bytes = replicate 4 0\<rparr>
     (Body (N4 [1, 0, 0, 0] [Some (RLeaf (key_bytes 0x105) 9), Some two_keys, None, None]) 2 2)"

lemma example_bytes:
  "key_bytes 5 = [0, 0, 0, 0, 0, 0, 0, 5]" "key_bytes 6 = [0, 0, 0, 0, 0, 0, 0, 6]"
  "key_bytes 0x105 = [0, 0, 0, 0, 0, 0, 1, 5]"
  by (simp_all add: key_bytes_def upt_rec)

lemma example_lists:
  "replicate 4 x = [x, x, x, x]" "[0..<4] = [0, Suc 0, Suc (Suc 0), Suc (Suc (Suc 0))]"
  "2 = Suc (Suc 0)" "5 = Suc (Suc (Suc (Suc (Suc 0))))" "6 = Suc (Suc (Suc (Suc (Suc (Suc 0)))))"
  "7 = Suc (Suc (Suc (Suc (Suc (Suc (Suc 0))))))"
  by (simp_all add: numeral_eq_Suc upt_rec)

lemmas example_defs = root_over_def two_keys_def torn_split_def example_bytes example_lists
  checkPrefixPessimistic_def recover_prefix_def compare_prefix_def new_N256_def new_N4_def getChild_cases
  at_slot_def needs_parent_def capacity_def insertAndUnlock_def insert_or_drop_def n_insert_defs inc16_def
  roart_split_leaf_def at_child_def n_change_defs two_leaves_def new_head_def setPrefix_def first_from.simps
  same_key_def checkPrefix_def checkKey_def keyed_find_def key_slot_def

lemma two_keys_put:
  "roart_put new_roart 5 7 = Inr (root_over (RLeaf (key_bytes 5) 7), Success)"
  "roart_put (root_over (RLeaf (key_bytes 5) 7)) 6 8 = Inr (root_over two_keys, Success)"
  by (simp_all add: roart_put_def new_roart_def put_loop.simps put_from.simps(2) example_defs)

lemma two_keys_ok: "roart_ok True (root_over two_keys)"
proof -
  have "roart_ok True (root_over (RLeaf (key_bytes 5) 7))"
    using roart_put_ok [OF new_root_ok(1) [of True], of 5 7] by (auto simp: two_keys_put)
  from roart_put_ok [OF this, of 6 8] show ?thesis by (auto simp: two_keys_put)
qed

lemma two_keys_leaf:
  "getAnyChild is_leaf (Body (N4 ks [Some (RLeaf a x), Some (RLeaf b y), None, None]) c cc) = Some (RLeaf a x)"
  by (simp add: getAnyChild_def live_children_def child_slots_def)

lemma torn_split_image: "root_over torn_split \<in> set (put_images (root_over two_keys) (key_bytes 0x105) 9 0 3 2)"
  by (simp add: put_images.simps two_keys_leaf example_defs)

lemma torn_split_get: "roart_get (root_over torn_split) 0x105 = 9" "roart_get (root_over two_keys) 0x105 = 0"
  by (simp_all add: roart_get_def get_from.simps example_defs)

lemma two_keys_get: "roart_get (root_over two_keys) 5 = 7" "roart_get (root_over two_keys) 6 = 8"
  by (simp_all add: roart_get_def get_from.simps example_defs)

theorem roart_crash_atomic_witness:
  "root_over torn_split \<in> set (put_images (root_over two_keys) (key_bytes 0x105) 9 0 3 2) \<and>
   roart_get (root_over torn_split) 5 = 7 \<and> roart_get (root_over torn_split) 6 = 8 \<and>
   (\<forall>key'. roart_get (root_over torn_split) key' = (if key' = 0x105 then 9 else roart_get (root_over two_keys) key'))"
proof -
  have "\<forall>key'. roart_get (root_over torn_split) key' = (if key' = 0x105 then 9 else roart_get (root_over two_keys) key')"
    using roart_crash_atomic [OF two_keys_ok torn_split_image] torn_split_get by auto
  then show ?thesis using torn_split_image two_keys_get by simp
qed

subsection \<open>Rebuilding the counters\<close>

text \<open>
  C17.  \<open>rebuild_node\<close> sets \<open>compactCount\<close> to the index of the last child, so the next insertion
  into a NODE4 or NODE16 takes the slot of that child, which is lost.
\<close>

theorem roart_rebuild_loses_child:
  assumes ok: "body_ok b" and n: "capacity (layout b) \<le> 16" and c: "0 < count b"
  shows "\<exists>k0. getChild b k0 \<noteq> None \<and>
    (\<forall>k x. k \<noteq> k0 \<longrightarrow> (\<exists>b'. n_insert (rebuild_counts b) k x = Some b' \<and> getChild b' k0 = None))"
proof -
  note lo = body_ok_layout [OF ok]
  define cs where "cs = child_slots b"
  let ?used = "filter (\<lambda>i. cs ! i \<noteq> None) [0..<length cs]"
  have "dom (getChild b) \<noteq> {}" using ok c by (auto simp: body_ok_def)
  then obtain q y where "getChild b q = Some y" by blast
  then have "Some y \<in> set cs" using child_slots_ok [OF ok, of y] by (auto simp: cs_def)
  then have ne: "?used \<noteq> []" by (force simp: in_set_conv_nth filter_empty_conv)
  define j where "j = last ?used"
  have "j \<in> set ?used" unfolding j_def using ne by (rule last_in_set)
  then have j: "j < length cs" "cs ! j \<noteq> None" by auto
  have r: "rebuild_counts b = Body (layout b) (length ?used) j"
    using ne by (simp add: rebuild_counts_def Let_def cs_def [symmetric] j_def)
  have main: "\<exists>k0. keyed_find ks cs m k0 \<noteq> None \<and> (\<forall>k x. k \<noteq> k0 \<longrightarrow> keyed_find (ks[j := k]) (cs[j := Some x]) m k0 = None)"
    if k: "keyed_ok m ks cs (compactCount b)" for ks m
  proof (intro exI conjI allI impI)
    note o = k [unfolded keyed_ok_def]
    have cc: "compactCount b \<le> m" using o by blast
    show "keyed_find ks cs m (ks ! j) \<noteq> None"
      using j o keyed_find_None [OF k cc order_refl] by auto
    fix k x assume "k \<noteq> ks ! j"
    then have "\<not> (cs[j := Some x] ! i \<noteq> None \<and> ks[j := k] ! i = ks ! j)" if "i < m" for i
      using keyed_inj [OF k that, of j] that j o by (cases "i = j") auto
    then have "key_slot (ks[j := k]) (cs[j := Some x]) m (ks ! j) = None"
      unfolding key_slot_def find_index_None by auto
    then show "keyed_find (ks[j := k]) (cs[j := Some x]) m (ks ! j) = None" by (simp add: keyed_find_def)
  qed
  show ?thesis
  proof (cases "layout b")
    case (N4 ks cs')
    then have e: "cs' = cs" by (simp add: cs_def child_slots_def)
    from main [of 4 ks] lo N4 e obtain k0 where
      k0: "keyed_find ks cs 4 k0 \<noteq> None" "\<And>k x. k \<noteq> k0 \<Longrightarrow> keyed_find (ks[j := k]) (cs[j := Some x]) 4 k0 = None"
      by (auto simp: layout_ok_def)
    have "j \<noteq> 4" using j(1) lo N4 e by (simp add: layout_ok_def keyed_ok_def)
    with N4 e k0 show ?thesis
      by (intro exI [of _ k0]) (auto simp: r n_insert_defs getChild_cases)
  next
    case (N16 ks cs')
    then have e: "cs' = cs" by (simp add: cs_def child_slots_def)
    from main [of 16 ks] lo N16 e obtain k0 where
      k0: "keyed_find ks cs 16 k0 \<noteq> None" "\<And>k x. k \<noteq> k0 \<Longrightarrow> keyed_find (ks[j := k]) (cs[j := Some x]) 16 k0 = None"
      by (auto simp: layout_ok_def)
    have "j \<noteq> 16" using j(1) lo N16 e by (simp add: layout_ok_def keyed_ok_def)
    moreover have "flipSign k \<noteq> k0" if "k \<noteq> flipSign k0" for k using that by (metis flipSign_flipSign)
    ultimately show ?thesis using N16 e k0
      by (intro exI [of _ "flipSign k0"]) (auto simp: r n_insert_defs getChild_cases)
  qed (use n in \<open>simp_all add: capacity_def\<close>)
qed

theorem roart_rebuild_loses_child_witness:
  "\<exists>b :: nat body. \<exists>k0. getChild b k0 \<noteq> None \<and> (\<exists>b'. n_insert (rebuild_counts b) (k0 + 1) 9 = Some b' \<and> getChild b' k0 = None)"
proof -
  have f: "fresh (new_N4 :: nat body)" by simp
  then have "body_ok (new_N4 :: nat body)" "getChild (new_N4 :: nat body) 3 = None" "has_room (new_N4 :: nat body)"
    by (simp_all add: fresh_def has_room_def)
  from n_insert_ok [OF this, of 8] obtain b :: "nat body" where
    b: "body_ok b" "getChild b = (getChild new_N4)(3 \<mapsto> 8)" "capacity (layout b) = capacity (layout (new_N4 :: nat body))" by blast
  have "dom (getChild b) \<noteq> {}" by (auto simp: b(2))
  then have "0 < count b" using b(1) by (simp add: body_ok_def card_gt_0_iff finite_bytes)
  moreover have "capacity (layout b) \<le> 16" by (simp add: b(3))
  ultimately obtain k0 where k0: "getChild b k0 \<noteq> None"
    "\<forall>k x. k \<noteq> k0 \<longrightarrow> (\<exists>b'. n_insert (rebuild_counts b) k x = Some b' \<and> getChild b' k0 = None)"
    using roart_rebuild_loses_child [OF b(1)] by blast
  have "k0 + 1 \<noteq> k0" by simp
  with k0 show ?thesis by blast
qed

end
