(* ===== verification/Roart_Range.thy ===== *)
theory Roart_Range
  imports Roart_Props
begin

text \<open>
  Range lookup in the tree of \<^verbatim>\<open>roart/roart.cpp\<close>.  \<open>leaves\<close> lists a tree from left to right.
  Copying a node appends its leaves up to the limit, and the searches for the two bounds append
  those on the right side of the bound.  When the bounds differ in their first byte the lookup
  reports exactly the keys between them, in ascending order; when they agree in it the code
  compares prefixes with both bounds at once and can lose keys, or take a leaf for a node.
\<close>

subsection \<open>The order of keys\<close>

definition before :: "u8 list \<Rightarrow> u8 list \<Rightarrow> bool" where
  "before a b \<longleftrightarrow> (\<exists>j<8. take j a = take j b \<and> a ! j < b ! j)"

lemma key_lt_before:
  assumes l: "length a = 8" "length b = 8" and t: "take lv a = take lv b" and lv: "lv \<le> 8"
  shows "key_lt a b lv \<longleftrightarrow> before a b"
proof -
  let ?q = "\<lambda>i. a ! i \<noteq> b ! i"
  let ?j = "first_from ?q lv 8"
  have same: "a ! i = b ! i" if "i < ?j" for i
  proof (cases "i < lv")
    case True
    with t show ?thesis by (metis nth_take)
  next
    case False
    with first_from_before [of lv i ?q 8] that show ?thesis by simp
  qed
  have k: "key_lt a b lv \<longleftrightarrow> ?j < 8 \<and> a ! ?j < b ! ?j" using l by (simp add: key_lt_def Let_def)
  show ?thesis unfolding k
  proof
    assume j: "?j < 8 \<and> a ! ?j < b ! ?j"
    have "take ?j a = take ?j b" using same j l by (subst take_eq_nth) auto
    with j show "before a b" unfolding before_def by blast
  next
    assume "before a b"
    then obtain i where i: "i < 8" "take i a = take i b" "a ! i < b ! i" unfolding before_def by blast
    have "?j = i"
    proof (rule ccontr)
      assume "?j \<noteq> i"
      then consider "i < ?j" | "?j < i" by linarith
      then show False
      proof cases
        case 1
        with same [OF 1] i(3) show False by simp
      next
        case 2
        with i(1) have "?j < 8" by simp
        from first_from_hit [OF this] have "a ! ?j \<noteq> b ! ?j" by simp
        with arg_cong [OF i(2), of "\<lambda>xs. xs ! ?j"] 2 show False by simp
      qed
    qed
    with i show "?j < 8 \<and> a ! ?j < b ! ?j" by simp
  qed
qed

text \<open>Keys that begin with the bytes \<open>P\<close>, against a key that leaves \<open>P\<close> at position \<open>l\<close>.\<close>

lemma before_differs:
  assumes "take n a = P" "l < n" "length a = 8" "length P = n" "take l b = take l P" "b ! l \<noteq> P ! l"
  shows "before a b \<longleftrightarrow> P ! l < b ! l" "before b a \<longleftrightarrow> b ! l < P ! l"
proof -
  have "min 8 n = n" using assms(1,3,4) by auto
  then have n8: "n \<le> 8" by linarith
  have e: "a ! i = P ! i" if "i < n" for i using assms(1) that by (metis nth_take)
  have b: "b ! i = P ! i" if "i < l" for i using assms(5) that by (metis nth_take)
  have t: "take l a = take l b" using assms(1,2,5) by (metis min.absorb1 less_imp_le take_take)
  have first: "j = l" if "take j a = take j b" "a ! j \<noteq> b ! j" for j
  proof (rule ccontr)
    assume "j \<noteq> l"
    then consider "j < l" | "l < j" by linarith
    then show False
    proof cases
      case 1
      with e [of j] b [of j] assms(2) that(2) show False by simp
    next
      case 2
      with that(1) have "a ! l = b ! l" by (metis nth_take)
      with e [OF assms(2)] assms(6) show False by simp
    qed
  qed
  have l8: "l < 8" using assms(2) n8 by simp
  show "before a b \<longleftrightarrow> P ! l < b ! l"
    unfolding before_def using first t l8 e [OF assms(2)] by (metis less_irrefl)
  show "before b a \<longleftrightarrow> b ! l < P ! l"
    unfolding before_def using first t l8 e [OF assms(2)] by (metis less_irrefl)
qed

text \<open>Keys are compared as numbers.\<close>

definition top_bytes :: "nat \<Rightarrow> u64 \<Rightarrow> nat" where
  "top_bytes j x = unat x div 2 ^ (64 - 8 * j)"

lemma key_bytes_nth: "j < 8 \<Longrightarrow> unat (key_bytes x ! j) = unat x div 2 ^ (56 - 8 * j) mod 256"
proof -
  assume j: "j < 8"
  have m: "(255 :: u64) = mask 8" by (simp add: mask_eq_exp_minus_1)
  have "unat (drop_bit ((7 - j) * 8) x AND 255) = unat x div 2 ^ ((7 - j) * 8) mod 256"
    unfolding m by (simp add: unat_drop_bit_mask)
  moreover have "(7 - j) * 8 = 56 - 8 * j" by simp
  moreover have "key_bytes x ! j = ucast (drop_bit ((7 - j) * 8) x AND 255)" using j by (simp add: key_bytes_def del: upt_Suc)
  ultimately show ?thesis by (simp add: unsigned_ucast_eq take_bit_eq_mod)
qed

lemma top_bytes_Suc: "j < 8 \<Longrightarrow> top_bytes (Suc j) x = 256 * top_bytes j x + unat (key_bytes x ! j)"
proof -
  assume j: "j < 8"
  have e: "(2::nat) ^ (64 - 8 * j) = 2 ^ (56 - 8 * j) * 256"
  proof -
    have "64 - 8 * j = (56 - 8 * j) + 8" using j by simp
    then show ?thesis by (simp only: power_add) simp
  qed
  have s: "64 - 8 * Suc j = 56 - 8 * j" by simp
  have m: "(a :: nat) = 256 * (a div 256) + a mod 256" for a by simp
  have "top_bytes (Suc j) x = unat x div 2 ^ (56 - 8 * j)" unfolding top_bytes_def s ..
  also have "\<dots> = 256 * (unat x div 2 ^ (56 - 8 * j) div 256) + unat x div 2 ^ (56 - 8 * j) mod 256" by (rule m)
  also have "unat x div 2 ^ (56 - 8 * j) div 256 = top_bytes j x" unfolding top_bytes_def e by (rule div_mult2_eq [symmetric])
  finally show ?thesis unfolding key_bytes_nth [OF j] .
qed

lemma top_bytes_eq: "j \<le> 8 \<Longrightarrow> take j (key_bytes x) = take j (key_bytes y) \<Longrightarrow> top_bytes j x = top_bytes j y"
proof (induction j)
  case 0
  have "top_bytes 0 x = 0" for x using unat_u64_less [of x] by (simp add: top_bytes_def)
  then show ?case by simp
next
  case (Suc j)
  then have "take j (key_bytes x) = take j (key_bytes y)" "key_bytes x ! j = key_bytes y ! j"
    by (metis lessI min.absorb1 less_imp_le take_take, metis lessI nth_take)
  with Suc top_bytes_Suc [of j x] top_bytes_Suc [of j y] show ?case by simp
qed

lemma before_less: "before (key_bytes x) (key_bytes y) \<Longrightarrow> x < y"
proof -
  assume "before (key_bytes x) (key_bytes y)"
  then obtain j where j: "j < 8" "take j (key_bytes x) = take j (key_bytes y)" "key_bytes x ! j < key_bytes y ! j"
    unfolding before_def by blast
  then have "top_bytes (Suc j) x < top_bytes (Suc j) y"
    using top_bytes_Suc [OF j(1)] top_bytes_eq [OF _ j(2)] by (simp add: word_less_nat_alt)
  then have "unat x < unat y" unfolding top_bytes_def by (metis div_le_mono leD linorder_not_le)
  then show ?thesis by (simp add: word_less_nat_alt)
qed

lemma before_total: "length a = 8 \<Longrightarrow> length b = 8 \<Longrightarrow> a \<noteq> b \<Longrightarrow> before a b \<or> before b a"
proof -
  assume l: "length a = 8" "length b = 8" and ne: "a \<noteq> b"
  from first_difference [OF l, of 0] ne obtain j where "j < 8" "take j a = take j b" "a ! j \<noteq> b ! j" by auto
  then show ?thesis unfolding before_def by (metis linorder_neqE)
qed

lemma before_iff: "before (key_bytes x) (key_bytes y) \<longleftrightarrow> x < y"
  using before_less [of x y] before_less [of y x] before_total [of "key_bytes x" "key_bytes y"]
  by (metis key_bytes_inj length_key_bytes less_irrefl less_asym)

lemma key_bytes_onto: "length fk = 8 \<Longrightarrow> \<exists>k. fk = key_bytes k"
proof -
  assume fk: "length fk = 8"
  have "finite {xs :: u8 list. length xs = 8}" using finite_lists_length_eq [of "UNIV :: u8 set" 8] finite_bytes by simp
  moreover have "range key_bytes \<subseteq> {xs. length xs = 8}" by auto
  moreover have "card (range key_bytes) = card {xs :: u8 list. length xs = 8}"
  proof -
    have "card (range key_bytes) = 2 ^ 64" by (subst card_image) (auto intro: injI simp: card_word)
    moreover have "card {xs :: u8 list. length xs = 8} = 2 ^ 64"
      using card_lists_length_eq [of "UNIV :: u8 set" 8] by (simp add: card_word)
    ultimately show ?thesis by simp
  qed
  ultimately have "range key_bytes = {xs. length xs = 8}" by (rule card_subset_eq)
  with fk show ?thesis by blast
qed

subsection \<open>The leaves of a tree\<close>

function leaves :: "rnode \<Rightarrow> (u8 list \<times> u64) list" where
  "leaves (RLeaf k v) = [(k, v)]"
| "leaves (RNode h b) = concat (map (\<lambda>(k, n). leaves n) (getChildren b 0 255))"
  by pat_completeness auto
termination
  by (relation "measure size") (auto dest!: getChildren_size [where f = size] simp: less_SucI)

abbreviation ok_tree :: "u8 list \<Rightarrow> rnode \<Rightarrow> bool" where
  "ok_tree \<equiv> rtree (node_ok True)"

lemma byte_max: "k \<le> (255 :: u8)"
proof -
  have "unat k \<le> 255" using unat_u8_less [of k] by linarith
  then show ?thesis by (simp add: word_le_nat_alt)
qed

lemma kids_of: "body_ok b \<Longrightarrow> (k, x) \<in> set (getChildren b 0 255) \<longleftrightarrow> getChild b k = Some x"
proof -
  show "body_ok b \<Longrightarrow> ?thesis" using getChildren_ok(1) [of b 0 255] byte_max by auto
qed

text \<open>Part of the children: two ascending lists of the same pairs are equal.\<close>

lemma ascending_unique:
  assumes "sorted_wrt (<) (map fst xs)" "sorted_wrt (<) (map fst ys)" "set xs = (set ys :: ('a :: linorder \<times> 'b) set)"
  shows "xs = ys"
proof -
  from assms(1,2) have s: "sorted (map fst xs)" "distinct (map fst xs)" "sorted (map fst ys)" "distinct (map fst ys)"
    by (simp_all add: strict_sorted_iff)
  then have "map fst xs = map fst ys" using assms(3) by (metis map_sorted_distinct_set_unique set_map sorted_distinct_set_unique)
  moreover have "inj_on fst (set xs \<union> set ys)" using s(2) assms(3) by (simp add: distinct_map)
  ultimately show ?thesis by (rule map_inj_on)
qed

lemma getChildren_filter:
  assumes "body_ok (b :: rnode body)"
  shows "getChildren b lo hi = filter (\<lambda>(k, n). lo \<le> k \<and> k \<le> hi) (getChildren b 0 255)"
proof (rule ascending_unique)
  show "sorted_wrt (<) (map fst (getChildren b lo hi))" by (rule getChildren_ok(2) [OF assms])
  have "sorted_wrt (<) (map fst (filter P xs))" if "sorted_wrt (<) (map fst xs)" for P and xs :: "(u8 \<times> rnode) list"
    using that by (simp add: sorted_wrt_map sorted_wrt_filter)
  from this [OF getChildren_ok(2) [OF assms]]
  show "sorted_wrt (<) (map fst (filter (\<lambda>(k, n). lo \<le> k \<and> k \<le> hi) (getChildren b 0 255)))" .
  show "set (getChildren b lo hi) = set (filter (\<lambda>(k, n). lo \<le> k \<and> k \<le> hi) (getChildren b 0 255))"
    using getChildren_ok(1) [OF assms, of lo hi] kids_of [OF assms] by auto
qed

text \<open>The leaves are the map, in ascending order.\<close>

lemma leaves_ok:
  "ok_tree p n \<Longrightarrow> set (leaves n) = {(k, v). rmap n k = Some v} \<and> sorted_wrt before (map fst (leaves n))"
proof (induction n arbitrary: p rule: measure_induct_rule [where f = size])
  case (less n)
  show ?case
  proof (cases n)
    case (RLeaf k v)
    then show ?thesis by (auto split: if_splits)
  next
    case (RNode h b)
    from less.prems [unfolded RNode] obtain P where P: "take (length p) P = p" "head_ok (length p) h P" "node_ok True (length p) h b"
      "\<And>k c. getChild b k = Some c \<Longrightarrow> ok_tree (P @ [k]) c" by (rule rtreeE) blast
    note hd = head_okD [OF P(2)]
    note ok = rnode_okD(2) [OF P(3)]
    have ih: "set (leaves c) = {(k, v). rmap c k = Some v} \<and> sorted_wrt before (map fst (leaves c))"
      if "getChild b k = Some c" for k c
      using less.IH [OF _ P(4) [OF that]] getChild_size [OF that, of size] RNode by simp
    have key: "length fk = 8 \<and> take (level h) fk = P \<and> fk ! level h = k" if "getChild b k = Some c" "rmap c fk = Some v" for k c fk v
    proof -
      from rmap_keys [OF P(4) [OF that(1)] that(2)] hd(1) have "length fk = 8" "take (Suc (level h)) fk = P @ [k]" by simp_all
      with take_length_Suc [OF this(1) hd(3) this(2) hd(1)] show ?thesis by simp
    qed
    have "set (leaves n) = (\<Union>(k, c) \<in> set (getChildren b 0 255). set (leaves c))" by (auto simp: RNode)
    also have "\<dots> = {(fk, v). \<exists>k c. getChild b k = Some c \<and> rmap c fk = Some v}"
      using ih kids_of [OF ok] by fastforce
    also have "\<dots> = {(fk, v). rmap n fk = Some v}"
    proof -
      have "(\<exists>k c. getChild b k = Some c \<and> rmap c fk = Some v) \<longleftrightarrow> rmap n fk = Some v" for fk v
      proof
        assume "\<exists>k c. getChild b k = Some c \<and> rmap c fk = Some v"
        then obtain k c where c: "getChild b k = Some c" "rmap c fk = Some v" by blast
        with key [OF c] show "rmap n fk = Some v" by (simp add: RNode)
      next
        assume "rmap n fk = Some v"
        then show "\<exists>k c. getChild b k = Some c \<and> rmap c fk = Some v" by (auto simp: RNode split: option.splits)
      qed
      then show ?thesis by simp
    qed
    finally have 1: "set (leaves n) = {(fk, v). rmap n fk = Some v}" .
    have between: "before x y" if c: "getChild b k = Some c" "getChild b k' = Some c'" "k < k'"
      and x: "x \<in> fst ` set (leaves c)" and y: "y \<in> fst ` set (leaves c')" for k c k' c' x y
    proof -
      from x ih [OF c(1)] obtain v where "rmap c x = Some v" by auto
      from key [OF c(1) this] have x: "take (level h) x = P" "x ! level h = k" by simp_all
      from y ih [OF c(2)] obtain v' where "rmap c' y = Some v'" by auto
      from key [OF c(2) this] have y: "take (level h) y = P" "y ! level h = k'" by simp_all
      have "take (level h) x = take (level h) y \<and> x ! level h < y ! level h" using x y c(3) by (simp only: simp_thms)
      moreover have "level h < 8" using hd(3) by simp
      ultimately show ?thesis unfolding before_def by blast
    qed
    have "sorted_wrt before (map fst (concat (map (\<lambda>(k, n). leaves n) es)))"
      if "sorted_wrt (<) (map fst es)" "set es \<subseteq> set (getChildren b 0 255)" for es
      using that
    proof (induction es)
      case (Cons e es)
      obtain k c where e: "e = (k, c)" by (cases e)
      have c: "getChild b k = Some c" using Cons.prems(2) kids_of [OF ok] e by simp
      have "before x y" if "x \<in> fst ` set (leaves c)" "(k', c') \<in> set es" "y \<in> fst ` set (leaves c')" for x k' c' y
      proof (rule between [OF c _ _ that(1,3)])
        show "getChild b k' = Some c'" using Cons.prems(2) kids_of [OF ok] that(2) by auto
        show "k < k'" using Cons.prems(1) e that(2) by (force simp: image_iff)
      qed
      with Cons ih [OF c] show ?case by (force simp: e sorted_wrt_append)
    qed simp
    with 1 getChildren_ok(2) [OF ok] show ?thesis by (simp add: RNode)
  qed
qed

subsection \<open>Filling the result array\<close>

fun fill :: "nat \<Rightarrow> (u8 list \<times> u64) list \<Rightarrow> found \<Rightarrow> found" where
  "fill lim [] st = st"
| "fill lim (x # xs) st =
     (if snd st \<noteq> None then st
      else if length (fst st) = lim then (fst st, Some x) else fill lim xs (fst st @ [x], None))"

lemma fill_full: "snd st \<noteq> None \<Longrightarrow> fill lim xs st = st"
  by (cases xs) auto

lemma fill_append: "fill lim (xs @ ys) st = fill lim ys (fill lim xs st)"
  by (induction lim xs st rule: fill.induct) (auto simp: fill_full)

lemma fill_take:
  "length acc \<le> lim \<Longrightarrow> fill lim xs (acc, None) =
    (take lim (acc @ xs), if lim < length (acc @ xs) then Some ((acc @ xs) ! lim) else None)"
proof (induction xs arbitrary: acc)
  case (Cons x xs)
  show ?case
  proof (cases "length acc = lim")
    case False
    with Cons.prems Cons.IH [of "acc @ [x]"] show ?thesis by simp
  qed (simp add: nth_append)
qed simp

lemma walk_fill:
  assumes "\<And>x st. x \<in> set xs \<Longrightarrow> snd st = None \<Longrightarrow> f x st = Inr (fill lim (g x) st)" "snd st = None"
  shows "walk f xs st = Inr (fill lim (concat (map g xs)) st)"
  using assms
proof (induction xs arbitrary: st)
  case (Cons x xs)
  have f: "f x st = Inr (fill lim (g x) st)" using Cons.prems by simp
  show ?case
  proof (cases "snd (fill lim (g x) st) = None")
    case True
    with Cons.IH [OF _ True] Cons.prems(1) f show ?thesis by (simp add: fill_append)
  next
    case False
    with f show ?thesis by (simp add: fill_append fill_full)
  qed
qed simp

lemma copy_node_fill: "snd st = None \<Longrightarrow> copy_node lim n st = Inr (fill lim (leaves n) st)"
proof (induction n arbitrary: st rule: measure_induct_rule [where f = size])
  case (less n)
  show ?case
  proof (cases n)
    case (RLeaf k v)
    with less.prems show ?thesis by (cases st) auto
  next
    case (RNode h b)
    have "(case x of (k, n) \<Rightarrow> \<lambda>st. copy_node lim n st) st = Inr (fill lim (case x of (k, n) \<Rightarrow> leaves n) st)"
      if "x \<in> set (getChildren b 0 255)" "snd st = None" for x st
      using less.IH [of "snd x"] that getChildren_size [of "fst x" "snd x" b 0 255 size] RNode by (cases x) (auto simp: less_SucI)
    from walk_fill [OF this less.prems] RNode show ?thesis by simp
  qed
qed

subsection \<open>Prefixes against a bound\<close>

lemma prefix_byte_at_ok:
  assumes h: "head_ok d h P" "d + prefixCount h = level h"
    and kt: "4 < prefixCount h \<Longrightarrow> \<exists>k. getAnyChildTid (RNode h b) = Inr k \<and> length k = 8 \<and> take (level h) k = P"
  shows "\<exists>r. prefix_byte_at h b d stop = Inr r \<and>
    (case r of
       None \<Rightarrow> \<forall>l. d \<le> l \<longrightarrow> l < level h \<longrightarrow> \<not> stop l (P ! l)
     | Some (l, c) \<Rightarrow> d \<le> l \<and> l < level h \<and> c = P ! l \<and> stop l c \<and> (\<forall>i. d \<le> i \<longrightarrow> i < l \<longrightarrow> \<not> stop i (P ! i)))"
proof -
  note hd = head_okD [OF h(1)]
  let ?pc = "prefixCount h"
  define m where "m = min ?pc 4"
  define j0 where "j0 = first_from (\<lambda>i. stop (d + i) (prefix_bytes h ! i)) 0 m"
  have dl: "level h = d + ?pc" using h(2) by simp
  have load: "4 < ?pc" if "m \<le> j0 \<and> j0 < ?pc" using that by (auto simp: m_def)
  obtain kt where k: "(if m \<le> j0 \<and> j0 < ?pc then getAnyChildTid (RNode h b) else Inr []) = Inr kt"
    "m \<le> j0 \<and> j0 < ?pc \<Longrightarrow> length kt = 8 \<and> take (level h) kt = P" "\<not> (m \<le> j0 \<and> j0 < ?pc) \<Longrightarrow> kt = []"
    using kt load by (cases "m \<le> j0 \<and> j0 < ?pc") auto
  define cur where "cur = (\<lambda>i. if 4 \<le> i then kt ! (d + i) else prefix_bytes h ! i)"
  define j where "j = first_from (\<lambda>i. stop (d + i) (cur i)) 0 ?pc"
  have cur: "cur i = P ! (d + i)" if i: "i < ?pc" "i < 4 \<or> m \<le> j0 \<and> j0 < ?pc" for i
  proof (cases "4 \<le> i")
    case True
    with i k(2) dl have "take (level h) kt = P" "d + i < level h" by auto
    with True show ?thesis by (metis cur_def nth_take)
  next
    case False
    with hd(6) [of i] i dl show ?thesis by (simp add: cur_def)
  qed
  have all: "cur i = P ! (d + i)" if i: "i \<le> j" "i < ?pc" for i
  proof (cases "i < 4 \<or> m \<le> j0 \<and> j0 < ?pc")
    case False
    then have "m = 4" "j0 < 4" using i(2) first_from_top [of "\<lambda>i. stop (d + i) (prefix_bytes h ! i)" 0 m]
      by (auto simp: m_def j0_def)
    with first_from_hit [of "\<lambda>i. stop (d + i) (prefix_bytes h ! i)" 0 m] have "stop (d + j0) (cur j0)"
      by (simp add: j0_def cur_def)
    moreover have "j0 < i" "j0 < j" using \<open>j0 < 4\<close> False i(1) by auto
    ultimately show ?thesis using first_from_before [of 0 j0 "\<lambda>i. stop (d + i) (cur i)" ?pc] by (simp add: j_def)
  qed (use cur i in blast)
  have len: "\<not> (kt \<noteq> [] \<and> length kt < level h)" using k(2,3) hd(3) by (cases "m \<le> j0 \<and> j0 < ?pc") auto
  have r: "prefix_byte_at h b d stop = Inr (if j < ?pc then Some (d + j, cur j) else None)"
    unfolding prefix_byte_at_def Let_def using k(1) len
    by (simp add: dl m_def j0_def cur_def j_def cong: if_cong)
  have below: "\<not> stop i (P ! i)" if i: "d \<le> i" "i < d + j" "j \<le> ?pc" for i
  proof -
    define i' where "i' = i - d"
    have i': "i = d + i'" "i' < j" using i unfolding i'_def by auto
    with first_from_before [of 0 i' "\<lambda>i. stop (d + i) (cur i)" ?pc] all [of i'] i(3) show ?thesis by (simp add: j_def)
  qed
  show ?thesis
  proof (cases "j < ?pc")
    case True
    with first_from_hit [of "\<lambda>i. stop (d + i) (cur i)" 0 ?pc] all [of j] have "stop (d + j) (P ! (d + j))" by (simp add: j_def)
    with r True below dl all [of j] show ?thesis by auto
  next
    case False
    with first_from_top [of "\<lambda>i. stop (d + i) (cur i)" 0 ?pc] have "j = ?pc" by (simp add: j_def)
    with r below dl show ?thesis by simp
  qed
qed

definition bound_ok :: "nat \<Rightarrow> nat \<Rightarrow> u8 list \<Rightarrow> u8 list \<Rightarrow> compare \<Rightarrow> bool" where
  "bound_ok d L P fk r \<longleftrightarrow>
     (case r of
        Equal l \<Rightarrow> l = L \<and> take L fk = P
      | Smaller \<Rightarrow> \<exists>l<L. take l fk = take l P \<and> P ! l < fk ! l
      | Bigger \<Rightarrow> \<exists>l<L. take l fk = take l P \<and> fk ! l < P ! l
      | CompareSkipped \<Rightarrow> False)"

lemma checkPrefixCompare_ok:
  assumes t: "ok_tree p (RNode h b)" and P: "take (length p) P = p" "head_ok (length p) h P" "node_ok True (length p) h b"
      "\<And>k c. getChild b k = Some c \<Longrightarrow> ok_tree (P @ [k]) c"
    and fk: "length fk = 8" "take (length p) fk = p"
  shows "\<exists>r. checkPrefixCompare h b fk (length p) = Inr r \<and> bound_ok (length p) (level h) P fk r"
proof -
  note hd = head_okD [OF P(2)] and no = rnode_okD [OF P(3)]
  let ?d = "length p" and ?stop = "\<lambda>l c. c \<noteq> byte_or fk 0 l"
  have d: "?d + prefixCount h = level h" using no(1) by simp
  have kt: "\<exists>k. getAnyChildTid (RNode h b) = Inr k \<and> length k = 8 \<and> take (level h) k = P" if "4 < prefixCount h"
  proof -
    have "p \<noteq> []" using that no(4) by auto
    from getAnyChildTid_ok [OF t this] obtain k v where
      "getAnyChildTid (RNode h b) = Inr k" "rmap (RNode h b) k = Some v" by blast
    with rmap_path [OF hd(1,3) P(4)] show ?thesis by blast
  qed
  have byte: "byte_or fk 0 l = fk ! l" if "l < level h" for l using that hd(3) fk(1) by (simp add: byte_or_def)
  have pre: "fk ! i = P ! i" if "i < ?d" for i using P(1) fk(2) that by (metis nth_take)
  have upto: "take l fk = take l P" if "l \<le> level h" "\<forall>i. ?d \<le> i \<longrightarrow> i < l \<longrightarrow> P ! i = fk ! i" for l
  proof -
    have "\<forall>i<l. fk ! i = P ! i" using pre that(2) by (metis not_le)
    then show ?thesis using that(1) hd(1,3) fk(1) by (subst take_eq_nth) auto
  qed
  show ?thesis
  proof (cases "prefixCount h = 0")
    case True
    then have "?d = level h" using d by simp
    with True d fk(2) P(1) hd(1) show ?thesis by (simp add: checkPrefixCompare_def bound_ok_def)
  next
    case False
    from prefix_byte_at_ok [OF P(2) d kt, of ?stop] obtain r where
      r: "prefix_byte_at h b ?d ?stop = Inr r"
      "case r of None \<Rightarrow> \<forall>l. ?d \<le> l \<longrightarrow> l < level h \<longrightarrow> \<not> ?stop l (P ! l)
       | Some (l, c) \<Rightarrow> ?d \<le> l \<and> l < level h \<and> c = P ! l \<and> ?stop l c \<and> (\<forall>i. ?d \<le> i \<longrightarrow> i < l \<longrightarrow> \<not> ?stop i (P ! i))"
      by blast
    have c: "checkPrefixCompare h b fk ?d = Inr (case r of None \<Rightarrow> Equal (level_after h ?d)
        | Some (l, c) \<Rightarrow> if c < byte_or fk 0 l then Smaller else Bigger)"
      using False d r(1) by (simp add: checkPrefixCompare_def)
    show ?thesis
    proof (cases r)
      case None
      with r(2) byte upto [of "level h"] hd(1) have "take (level h) fk = P" by simp
      with c None d show ?thesis by (simp add: bound_ok_def level_after_def)
    next
      case (Some lc)
      then obtain l where l: "r = Some (l, P ! l)" "l < level h" "P ! l \<noteq> byte_or fk 0 l"
        "\<forall>i. ?d \<le> i \<longrightarrow> i < l \<longrightarrow> \<not> ?stop i (P ! i)" using r(2) by (cases lc) auto
      have "take l fk = take l P" using upto [of l] l(2,4) byte by simp
      moreover have "P ! l \<noteq> fk ! l" using l(2,3) byte by simp
      ultimately show ?thesis using c l(1,2) byte by (auto simp: bound_ok_def)
    qed
  qed
qed

subsection \<open>The searches for the bounds\<close>

abbreviation from_key :: "u8 list \<Rightarrow> (u8 list \<times> u64) list \<Rightarrow> (u8 list \<times> u64) list" where
  "from_key start xs \<equiv> filter (\<lambda>(k, v). \<not> before k start) xs"

abbreviation below_key :: "u8 list \<Rightarrow> (u8 list \<times> u64) list \<Rightarrow> (u8 list \<times> u64) list" where
  "below_key end' xs \<equiv> filter (\<lambda>(k, v). before k end') xs"

text \<open>The keys below a node, when the bound leaves the bytes \<open>P\<close> at position \<open>l\<close>.\<close>

lemma leaves_side:
  assumes t: "ok_tree Q n" and Q: "l < length Q" "take l fk = take l Q" "fk ! l \<noteq> Q ! l" and kv: "(k, v) \<in> set (leaves n)"
  shows "before k fk \<longleftrightarrow> Q ! l < fk ! l"
proof -
  from kv leaves_ok [OF t] have "rmap n k = Some v" by simp
  from rmap_keys [OF t this] have "length k = 8" "take (length Q) k = Q" by simp_all
  from before_differs(1) [OF this(2) Q(1) this(1) refl Q(2,3)] show ?thesis .
qed

lemma bound_child:
  assumes P: "length P = level h" "take (level h) fk = P" "fk ! level h \<noteq> k" "length fk = 8" "level h \<le> 7"
    and t: "ok_tree (P @ [k]) n" and kv: "(x, v) \<in> set (leaves n)"
  shows "before x fk \<longleftrightarrow> k < fk ! level h"
proof -
  have "take (level h) fk = take (level h) (P @ [k])" using P(1,2) by simp
  with leaves_side [OF t _ this _ kv] P(1,3) show ?thesis by (simp add: nth_append)
qed

lemma concat_map_filter: "concat (map g (filter Q xs)) = concat (map (\<lambda>x. if Q x then g x else []) xs)"
  by (induction xs) auto

lemma filter_leaves: "filter F (leaves (RNode h b)) = concat (map (\<lambda>(k, n). filter F (leaves n)) (getChildren b 0 255))"
  by (simp add: filter_concat o_def case_prod_unfold)

text \<open>Walking over the children between two bytes, when the others contribute nothing.\<close>

lemma walk_children:
  assumes b: "body_ok b" and st: "snd st = None"
    and f: "\<And>k n st. getChild b k = Some n \<Longrightarrow> lo \<le> k \<Longrightarrow> k \<le> hi \<Longrightarrow> snd st = None \<Longrightarrow>
      f (k, n) st = Inr (fill lim (filter F (leaves n)) st)"
    and out: "\<And>k n. getChild b k = Some n \<Longrightarrow> \<not> (lo \<le> k \<and> k \<le> hi) \<Longrightarrow> filter F (leaves n) = []"
  shows "walk f (getChildren b lo hi) st = Inr (fill lim (filter F (leaves (RNode h b))) st)"
proof -
  let ?g = "\<lambda>(k, n). filter F (leaves n)" and ?Q = "\<lambda>(k, n). lo \<le> k \<and> k \<le> hi"
  have "f x st = Inr (fill lim (?g x) st)" if x: "x \<in> set (getChildren b lo hi)" "snd st = None" for x st
  proof -
    obtain k n where e: "x = (k, n)" by (cases x)
    have "getChild b k = Some n" "lo \<le> k" "k \<le> hi" using x(1) getChildren_ok(1) [OF b, of lo hi] by (simp_all add: e)
    from f [OF this x(2)] show ?thesis by (simp add: e)
  qed
  from walk_fill [OF this st]
  have "walk f (getChildren b lo hi) st = Inr (fill lim (concat (map ?g (getChildren b lo hi))) st)" .
  moreover have "concat (map ?g (getChildren b lo hi)) = filter F (leaves (RNode h b))"
    unfolding getChildren_filter [OF b, of lo hi] concat_map_filter filter_leaves
  proof (intro arg_cong [where f = concat] map_cong refl)
    fix x assume "x \<in> set (getChildren b 0 255)"
    moreover obtain k n where e: "x = (k, n)" by (cases x)
    ultimately have "getChild b k = Some n" using kids_of [OF b] by simp
    from out [OF this] show "(if ?Q x then ?g x else []) = ?g x" by (auto simp: e)
  qed
  ultimately show ?thesis by simp
qed

lemma node_side:
  assumes t: "ok_tree p (RNode h b)" and P: "take (length p) P = p" "head_ok (length p) h P" "node_ok True (length p) h b"
      "\<And>k c. getChild b k = Some c \<Longrightarrow> ok_tree (P @ [k]) c"
    and fk: "length fk = 8" and l: "l < level h" "take l fk = take l P" "fk ! l \<noteq> P ! l" and kv: "(k, v) \<in> set (leaves (RNode h b))"
  shows "before k fk \<longleftrightarrow> P ! l < fk ! l"
proof -
  note hd = head_okD [OF P(2)]
  from kv leaves_ok [OF t] have "rmap (RNode h b) k = Some v" by blast
  from rmap_path [OF hd(1,3) P(4) this] have k: "length k = 8" "take (level h) k = P" by blast+
  from before_differs(1) [OF k(2) l(1) k(1) hd(1) l(2,3)] show ?thesis .
qed

lemma findStart_ok:
  "ok_tree p n \<Longrightarrow> length start = 8 \<Longrightarrow> take (length p) start = p \<Longrightarrow> length p \<le> 8 \<Longrightarrow> snd st = None \<Longrightarrow>
   findStart lim start n (length p) st = Inr (fill lim (from_key start (leaves n)) st)"
proof (induction n arbitrary: p st rule: measure_induct_rule [where f = size])
  case (less n)
  note fk = less.prems(2,3)
  show ?case
  proof (cases n)
    case (RLeaf k v)
    have k: "length k = 8" "take (length p) k = p" using less.prems(1) by (simp_all add: RLeaf)
    have "key_lt k start (length p) \<longleftrightarrow> before k start" using key_lt_before [OF k(1) fk(1)] k(2) fk(2) less.prems(4) by simp
    with less.prems(5) show ?thesis by (cases st) (simp add: RLeaf)
  next
    case (RNode h b)
    note t = less.prems(1) [unfolded RNode]
    from t obtain P where P: "take (length p) P = p" "head_ok (length p) h P" "node_ok True (length p) h b"
      "\<And>k c. getChild b k = Some c \<Longrightarrow> ok_tree (P @ [k]) c" by (rule rtreeE) blast
    note hd = head_okD [OF P(2)] and ok = rnode_okD(2) [OF P(3)]
    from checkPrefixCompare_ok [OF t P fk] obtain r where
      r: "checkPrefixCompare h b start (length p) = Inr r" "bound_ok (length p) (level h) P start r" by blast
    have side: "before k start \<longleftrightarrow> P ! l < start ! l"
      if "l < level h" "take l start = take l P" "start ! l \<noteq> P ! l" "(k, v) \<in> set (leaves n)" for l k v
      by (rule node_side [OF t P fk(1) that(1,2,3) that(4) [unfolded RNode]])
    show ?thesis
    proof (cases r)
      case Smaller
      with r(2) obtain l where l: "l < level h" "take l start = take l P" "P ! l < start ! l" by (auto simp: bound_ok_def)
      have "from_key start (leaves n) = []" using side [OF l(1,2)] l(3) by (auto simp: filter_empty_conv)
      with r(1) Smaller show ?thesis by (simp add: RNode)
    next
      case Bigger
      with r(2) obtain l where l: "l < level h" "take l start = take l P" "start ! l < P ! l" by (auto simp: bound_ok_def)
      have "from_key start (leaves n) = leaves n" using side [OF l(1,2)] l(3) by (force simp: filter_id_conv)
      with r(1) Bigger copy_node_fill [OF less.prems(5), of lim n] show ?thesis by (simp add: RNode)
    next
      case CompareSkipped
      with r(2) show ?thesis by (simp add: bound_ok_def)
    next
      case (Equal l)
      with r(2) have l: "l = level h" "take (level h) start = P" by (simp_all add: bound_ok_def)
      let ?s = "start ! level h"
      let ?f = "\<lambda>(k, n) st. if k = ?s then findStart lim start n (Suc (level h)) st
                 else if k > ?s then copy_node lim n st else Inr st"
      have bs: "byte_or start 0 (level h) = ?s" using fk(1) hd(3) by (simp add: byte_or_def)
      have w: "walk ?f (getChildren b ?s 255) st = Inr (fill lim (from_key start (leaves n)) st)"
        unfolding RNode
      proof (rule walk_children [OF ok less.prems(5)])
        fix k c and st' :: found assume c: "getChild b k = Some c" "?s \<le> k" "snd st' = None"
        show "?f (k, c) st' = Inr (fill lim (from_key start (leaves c)) st')"
        proof (cases "k = ?s")
          case True
          have "take (length (P @ [k])) start = P @ [k]" using take_level [OF hd(1,3) fk(1) l(2)] True by simp
          from less.IH [OF _ P(4) [OF c(1)] fk(1) this _ c(3)] getChild_size [OF c(1), of size] RNode hd(1,3) True
          show ?thesis by simp
        next
          case False
          then have "k > ?s" using c(2) by simp
          moreover have "from_key start (leaves c) = leaves c"
            using bound_child [OF hd(1) l(2) _ fk(1) hd(3) P(4) [OF c(1)]] False \<open>k > ?s\<close> by (force simp: filter_id_conv)
          ultimately show ?thesis using False copy_node_fill [OF c(3)] by simp
        qed
      next
        fix k c assume c: "getChild b k = Some c" "\<not> (?s \<le> k \<and> k \<le> 255)"
        from c(2) byte_max [of k] have "k < ?s" by simp
        then show "from_key start (leaves c) = []"
          using bound_child [OF hd(1) l(2) _ fk(1) hd(3) P(4) [OF c(1)]] by (force simp: filter_empty_conv)
      qed
      show ?thesis using r(1) Equal l(1) bs w by (simp add: RNode Let_def)
    qed
  qed
qed

lemma findEnd_ok:
  "ok_tree p n \<Longrightarrow> length fk = 8 \<Longrightarrow> take (length p) fk = p \<Longrightarrow> length p \<le> 8 \<Longrightarrow> snd st = None \<Longrightarrow>
   findEnd lim fk n (length p) st = Inr (fill lim (below_key fk (leaves n)) st)"
proof (induction n arbitrary: p st rule: measure_induct_rule [where f = size])
  case (less n)
  note fk = less.prems(2,3)
  show ?case
  proof (cases n)
    case (RLeaf k v)
    have k: "length k = 8" "take (length p) k = p" using less.prems(1) by (simp_all add: RLeaf)
    have "key_lt k fk (length p) \<longleftrightarrow> before k fk" using key_lt_before [OF k(1) fk(1)] k(2) fk(2) less.prems(4) by simp
    with less.prems(5) show ?thesis by (cases st) (simp add: RLeaf)
  next
    case (RNode h b)
    note t = less.prems(1) [unfolded RNode]
    from t obtain P where P: "take (length p) P = p" "head_ok (length p) h P" "node_ok True (length p) h b"
      "\<And>k c. getChild b k = Some c \<Longrightarrow> ok_tree (P @ [k]) c" by (rule rtreeE) blast
    note hd = head_okD [OF P(2)] and ok = rnode_okD(2) [OF P(3)]
    from checkPrefixCompare_ok [OF t P fk] obtain r where
      r: "checkPrefixCompare h b fk (length p) = Inr r" "bound_ok (length p) (level h) P fk r" by blast
    have side: "before k fk \<longleftrightarrow> P ! l < fk ! l"
      if "l < level h" "take l fk = take l P" "fk ! l \<noteq> P ! l" "(k, v) \<in> set (leaves n)" for l k v
      by (rule node_side [OF t P fk(1) that(1,2,3) that(4) [unfolded RNode]])
    show ?thesis
    proof (cases r)
      case Smaller
      with r(2) obtain l where l: "l < level h" "take l fk = take l P" "P ! l < fk ! l" by (auto simp: bound_ok_def)
      have "below_key fk (leaves n) = leaves n" using side [OF l(1,2)] l(3) by (force simp: filter_id_conv)
      with r(1) Smaller copy_node_fill [OF less.prems(5), of lim n] show ?thesis by (simp add: RNode)
    next
      case Bigger
      with r(2) obtain l where l: "l < level h" "take l fk = take l P" "fk ! l < P ! l" by (auto simp: bound_ok_def)
      have "below_key fk (leaves n) = []" using side [OF l(1,2)] l(3) by (auto simp: filter_empty_conv)
      with r(1) Bigger show ?thesis by (simp add: RNode)
    next
      case CompareSkipped
      with r(2) show ?thesis by (simp add: bound_ok_def)
    next
      case (Equal l)
      with r(2) have l: "l = level h" "take (level h) fk = P" by (simp_all add: bound_ok_def)
      let ?e = "fk ! level h"
      let ?f = "\<lambda>(k, n) st. if k = ?e then findEnd lim fk n (Suc (level h)) st
                 else if k < ?e then copy_node lim n st else Inr st"
      have bs: "byte_or fk 255 (level h) = ?e" using fk(1) hd(3) by (simp add: byte_or_def)
      have w: "walk ?f (getChildren b 0 ?e) st = Inr (fill lim (below_key fk (leaves n)) st)"
        unfolding RNode
      proof (rule walk_children [OF ok less.prems(5)])
        fix k c and st' :: found assume c: "getChild b k = Some c" "k \<le> ?e" "snd st' = None"
        show "?f (k, c) st' = Inr (fill lim (below_key fk (leaves c)) st')"
        proof (cases "k = ?e")
          case True
          have "take (length (P @ [k])) fk = P @ [k]" using take_level [OF hd(1,3) fk(1) l(2)] True by simp
          from less.IH [OF _ P(4) [OF c(1)] fk(1) this _ c(3)] getChild_size [OF c(1), of size] RNode hd(1,3) True
          show ?thesis by simp
        next
          case False
          then have "k < ?e" using c(2) by simp
          moreover have "below_key fk (leaves c) = leaves c"
            using bound_child [OF hd(1) l(2) _ fk(1) hd(3) P(4) [OF c(1)]] False \<open>k < ?e\<close> by (force simp: filter_id_conv)
          ultimately show ?thesis using False copy_node_fill [OF c(3)] by simp
        qed
      next
        fix k c assume c: "getChild b k = Some c" "\<not> (0 \<le> k \<and> k \<le> ?e)"
        from c(2) have "?e < k" by simp
        then show "below_key fk (leaves c) = []"
          using bound_child [OF hd(1) l(2) _ fk(1) hd(3) P(4) [OF c(1)]] by (force simp: filter_empty_conv)
      qed
      show ?thesis using r(1) Equal l(1) bs w by (simp add: RNode Let_def)
    qed
  qed
qed

subsection \<open>The range\<close>

text \<open>The leaves as pairs of numbers.\<close>

definition pairs_in :: "rnode \<Rightarrow> u64 \<Rightarrow> u64 \<Rightarrow> (u64 \<times> u64) list \<Rightarrow> bool" where
  "pairs_in root x y kvs \<longleftrightarrow>
     sorted_wrt (<) (map fst kvs) \<and> set kvs = {(k, v). roart_map root k = Some v \<and> x \<le> k \<and> k < y}"

abbreviation as_leaf :: "u64 \<times> u64 \<Rightarrow> u8 list \<times> u64" where
  "as_leaf \<equiv> (\<lambda>(k, v). (key_bytes k, v))"

lemma key_lists: "(\<And>fk v. (fk, v) \<in> set xs \<Longrightarrow> length fk = 8) \<Longrightarrow> \<exists>kvs. xs = map as_leaf kvs"
proof (induction xs)
  case (Cons e xs)
  obtain fk v where e: "e = (fk, v)" by (cases e)
  then have "length fk = 8" using Cons.prems [of fk v] by simp
  then obtain k where "fk = key_bytes k" using key_bytes_onto by blast
  moreover obtain kvs where "xs = map as_leaf kvs" using Cons.IH Cons.prems by (metis list.set_intros(2))
  ultimately have "e # xs = map as_leaf ((k, v) # kvs)" by (simp add: e)
  then show ?case by (rule exI)
qed simp

lemma leaves_pairs:
  assumes "roart_ok True root"
  shows "\<exists>kvs. filter (\<lambda>(k, v). \<not> before k (key_bytes x) \<and> before k (key_bytes y)) (leaves root) = map as_leaf kvs \<and>
    pairs_in root x y kvs"
proof -
  have t: "ok_tree [] root" using assms by (simp add: roart_ok_def)
  note l = leaves_ok [OF t]
  have "\<exists>all. leaves root = map as_leaf all"
    by (rule key_lists) (use rmap_keys [OF t] l in blast)
  then obtain all where all: "leaves root = map as_leaf all" by blast
  let ?in = "\<lambda>(k, v). x \<le> k \<and> k < (y :: u64)"
  have "filter (\<lambda>(k, v). \<not> before k (key_bytes x) \<and> before k (key_bytes y)) (leaves root) = map as_leaf (filter ?in all)"
    unfolding all filter_map by (intro arg_cong [where f = "map as_leaf"] filter_cong) (auto simp: before_iff)
  moreover have "pairs_in root x y (filter ?in all)"
  proof -
    have s: "sorted_wrt (<) (map fst all)"
    proof -
      have "map fst (leaves root) = map key_bytes (map fst all)" by (simp add: all o_def case_prod_unfold)
      with l have "sorted_wrt before (map key_bytes (map fst all))" by simp
      then have "sorted_wrt (\<lambda>a b. before (key_bytes a) (key_bytes b)) (map fst all)" unfolding sorted_wrt_map .
      then show ?thesis unfolding before_iff .
    qed
    have m: "(k, v) \<in> set all \<longleftrightarrow> roart_map root k = Some v" for k v
    proof -
      have "(k, v) \<in> set all \<longleftrightarrow> (key_bytes k, v) \<in> set (leaves root)" unfolding all by force
      then show ?thesis using l by (simp add: roart_map_def)
    qed
    from s have "sorted_wrt (<) (map fst (filter ?in all))" by (simp add: sorted_wrt_map sorted_wrt_filter)
    with m show ?thesis by (auto simp: pairs_in_def)
  qed
  ultimately show ?thesis by blast
qed

lemma range_walk:
  assumes ok: "roart_ok True root" and xy: "length start = 8" "length end' = 8" "start ! 0 < end' ! 0"
  shows "roart_lookupRange root start end' lim =
    Inr (fill lim (filter (\<lambda>(k, v). \<not> before k start \<and> before k end') (leaves root)) ([], None))"
proof -
  from ok obtain h b where n: "root = RNode h b" by (cases root) (auto simp: roart_ok_def)
  have t: "ok_tree [] (RNode h b)" using ok by (simp add: roart_ok_def n)
  from t obtain P where P: "take (length ([] :: u8 list)) P = []" "head_ok 0 h P" "node_ok True 0 h b"
    "\<And>k c. getChild b k = Some c \<Longrightarrow> ok_tree (P @ [k]) c" unfolding rtree.simps list.size(3) by blast
  note hd = head_okD [OF P(2)] and no = rnode_okD [OF P(3)]
  have l0: "level h = 0" "prefixCount h = 0" using no(3,4) by simp_all
  then have P0: "P = []" using hd(1) by simp
  let ?x = "start ! 0" and ?y = "end' ! 0" and ?F = "\<lambda>(k, v :: u64). \<not> before k start \<and> before k end'"
  let ?f = "\<lambda>(k, n) st. if k = ?x then findStart lim start n (Suc 0) st
                     else if ?x < k \<and> k < ?y then copy_node lim n st
                     else if k = ?y then findEnd lim end' n (Suc 0) st
                     else Inr st"
  have bs: "before a start \<longleftrightarrow> k < ?x" if "getChild b k = Some c" "k \<noteq> ?x" "(a, v) \<in> set (leaves c)" for k c a v
    using bound_child [OF hd(1) _ _ xy(1) hd(3) P(4) [OF that(1)] that(3)] that(2) by (simp add: l0 P0)
  have be: "before a end' \<longleftrightarrow> k < ?y" if "getChild b k = Some c" "k \<noteq> ?y" "(a, v) \<in> set (leaves c)" for k c a v
    using bound_child [OF hd(1) _ _ xy(2) hd(3) P(4) [OF that(1)] that(3)] that(2) by (simp add: l0 P0)
  have "walk ?f (getChildren b ?x ?y) ([], None) = Inr (fill lim (filter ?F (leaves (RNode h b))) ([], None))"
  proof (rule walk_children [OF no(2)])
    fix k c and st :: found assume c: "getChild b k = Some c" "?x \<le> k" "k \<le> ?y" "snd st = None"
    have tc: "ok_tree [k] c" using P(4) [OF c(1)] P0 by simp
    consider "k = ?x" | "k = ?y" "k \<noteq> ?x" | "k \<noteq> ?x" "k \<noteq> ?y" by blast
    then show "?f (k, c) st = Inr (fill lim (filter ?F (leaves c)) st)"
    proof cases
      case 1
      have "filter ?F (leaves c) = from_key start (leaves c)"
        using be [OF c(1)] xy(3) 1 by (intro filter_cong) auto
      moreover have "take (length [k]) start = [k]" using 1 xy(1) by (cases start) auto
      ultimately show ?thesis using findStart_ok [OF tc xy(1), of st lim] c(4) 1 by simp
    next
      case 2
      have "filter ?F (leaves c) = below_key end' (leaves c)"
        using bs [OF c(1)] xy(3) 2 by (intro filter_cong) auto
      moreover have "take (length [k]) end' = [k]" using 2 xy(2) by (cases end') auto
      ultimately show ?thesis using findEnd_ok [OF tc xy(2), of st lim] c(4) 2 by simp
    next
      case 3
      then have k: "?x < k" "k < ?y" using c(2,3) by simp_all
      have "filter ?F (leaves c) = leaves c"
        using bs [OF c(1) 3(1)] be [OF c(1) 3(2)] k by (force simp: filter_id_conv)
      with k 3 copy_node_fill [OF c(4), of lim c] show ?thesis by simp
    qed
  next
    fix k c assume c: "getChild b k = Some c" "\<not> (?x \<le> k \<and> k \<le> ?y)"
    then consider "k < ?x" | "?y < k" by (auto simp: not_le)
    then show "filter ?F (leaves c) = []"
    proof cases
      case 1
      then have "k \<noteq> ?x" by simp
      with bs [OF c(1)] 1 show ?thesis by (force simp: filter_empty_conv)
    next
      case 2
      then have "k \<noteq> ?y" "\<not> k < ?y" by simp_all
      with be [OF c(1)] show ?thesis by (force simp: filter_empty_conv)
    qed
  qed simp
  moreover have "key_lt start end' 0"
  proof -
    have "before start end'" unfolding before_def using xy(3) by (intro exI [of _ 0]) simp
    then show ?thesis using key_lt_before [OF xy(1,2), of 0] by simp
  qed
  moreover have "?x \<noteq> ?y" using xy(3) by simp
  ultimately show ?thesis
    using xy(1,2) l0 by (simp add: n roart_lookupRange_def checkPrefixEquals_def byte_or_def Let_def)
qed

end
