(* ===== verification/Roart_Range_Props.thy ===== *)
theory Roart_Range_Props
  imports Roart_Range
begin

text \<open>
  What the range lookup of \<^verbatim>\<open>roart/roart.cpp\<close> returns: exactly the keys of the range, in
  order, when the bounds differ in their first byte; nothing, or an access through a leaf, for
  some ranges whose bounds share it.
\<close>

text \<open>
  C18.  With bounds that differ in their first byte the range lookup of a tree whose prefixes fit
  returns the keys from the first bound up to below the second one, in increasing order, as many
  as the result array holds, and the leaf at which it was full.
\<close>

theorem roart_range_exact:
  assumes "roart_ok True root" "key_bytes x ! 0 < key_bytes y ! 0"
  shows "\<exists>kvs. sorted_wrt (<) (map fst kvs) \<and>
    set kvs = {(k, v). roart_map root k = Some v \<and> x \<le> k \<and> k < y} \<and>
    roart_lookupRange root (key_bytes x) (key_bytes y) lim =
      Inr (map as_leaf (take lim kvs), if lim < length kvs then Some (as_leaf (kvs ! lim)) else None)"
proof -
  from leaves_pairs [OF assms(1)] obtain kvs where
    kvs: "filter (\<lambda>(k, v). \<not> before k (key_bytes x) \<and> before k (key_bytes y)) (leaves root) = map as_leaf kvs"
      "pairs_in root x y kvs" by blast
  have "roart_lookupRange root (key_bytes x) (key_bytes y) lim = Inr (fill lim (map as_leaf kvs) ([], None))"
    using range_walk [OF assms(1) length_key_bytes length_key_bytes assms(2), of lim] kvs(1) by simp
  with kvs(2) show ?thesis
    by (intro exI [of _ kvs]) (simp add: fill_take take_map pairs_in_def)
qed

theorem roart_range_exact_witness:
  "\<exists>root. roart_lookupRange root (key_bytes 0) (key_bytes (2 ^ 60)) 4 = Inr ([(key_bytes 5, 7)], None)"
proof -
  from single_key obtain root where root: "roart_ok True root" "roart_map root = [5 \<mapsto> 7]" by blast
  have "key_bytes 0 ! 0 < key_bytes (2 ^ 60) ! 0" by (simp add: key_bytes_def)
  from roart_range_exact [OF root(1) this, of 4] obtain kvs where
    kvs: "sorted_wrt (<) (map fst kvs)" "set kvs = {(k, v). roart_map root k = Some v \<and> 0 \<le> k \<and> k < 2 ^ 60}"
      "roart_lookupRange root (key_bytes 0) (key_bytes (2 ^ 60)) 4 =
        Inr (map as_leaf (take 4 kvs), if 4 < length kvs then Some (as_leaf (kvs ! 4)) else None)"
    by blast
  have s: "set kvs = {(5, 7)}" unfolding kvs(2) root(2) by (auto split: if_splits)
  have "kvs = [(5, 7)]"
  proof (cases kvs)
    case (Cons a as)
    moreover have "as = []"
      using kvs(1) s Cons by (cases as) auto
    ultimately show ?thesis using s by auto
  qed (use s in simp)
  with kvs(3) show ?thesis by (intro exI [of _ root]) simp
qed

lemma key_bytes_1: "key_bytes 0x0001100000000000 = [0, 1, 16, 0, 0, 0, 0, 0]" by (simp add: key_bytes_def upt_rec)
lemma key_bytes_2: "key_bytes 0x0001110000000000 = [0, 1, 17, 0, 0, 0, 0, 0]" by (simp add: key_bytes_def upt_rec)
lemma key_bytes_3: "key_bytes 0x0001090000000000 = [0, 1, 9, 0, 0, 0, 0, 0]" by (simp add: key_bytes_def upt_rec)
lemma key_bytes_4: "key_bytes 0x0005000000000000 = [0, 5, 0, 0, 0, 0, 0, 0]" by (simp add: key_bytes_def upt_rec)

lemmas key_bytes_ex = key_bytes_1 key_bytes_2 key_bytes_3 key_bytes_4

definition ex_head :: rhead where
  "ex_head = \<lparr>level = 0, prefixCount = 0, prefix_bytes = replicate 4 0\<rparr>"

definition ex_root :: "rnode \<Rightarrow> rnode" where
  "ex_root n = RNode ex_head (Body (N256 ((replicate 256 None)[0 := Some n])) 1 0)"

definition ex_pair :: rnode where
  "ex_pair = RNode \<lparr>level = 2, prefixCount = 1, prefix_bytes = [1, 0, 0, 0]\<rparr>
     (Body (N4 [17, 16, 0, 0] [Some (RLeaf [0, 1, 17, 0, 0, 0, 0, 0] 2), Some (RLeaf [0, 1, 16, 0, 0, 0, 0, 0] 1), None, None]) 2 2)"

lemma ex_put_1: "roart_put8 new_roart 0x0001100000000000 1 = Inr (ex_root (RLeaf (key_bytes 0x0001100000000000) 1))"
  by (simp add: roart_put8_def roart_put_def put_loop.simps put_from.simps new_roart_def key_bytes_ex checkPrefixPessimistic_def
      recover_prefix_def compare_prefix_def Let_def first_from.simps getChild_cases new_N256_def at_slot_def needs_parent_def capacity_def
      insertAndUnlock_def insert_or_drop_def n_insert_defs ex_root_def ex_head_def inc16_def)

lemma replicate_4: "replicate 4 x = [x, x, x, x]" "replicate 3 x = [x, x, x]"
  by (simp_all add: eval_nat_numeral)

lemma ex_first:
  "first_from (\<lambda>i. [1, 16 :: u8, 0, 0, 0, 0, 0] ! i \<noteq> [1, 17, 0, 0, 0, 0, 0] ! i) 0 (Suc (Suc (Suc (Suc (Suc (Suc (Suc 0))))))) = Suc 0"
  by (simp add: first_from.simps [of _ 0] first_from.simps [of _ "Suc 0"])

lemma ex_split: "roart_split_leaf [0, 1, 16, 0, 0, 0, 0, 0] 1 [0, 1, 17, 0, 0, 0, 0, 0] 2 1 = Inr ex_pair"
  by (simp add: roart_split_leaf_def ex_first Let_def two_leaves_def insert_or_drop_def n_insert_defs new_N4_def
      new_head_def setPrefix_def inc16_def ex_pair_def replicate_4)

lemma ex_put_2: "roart_put8 (ex_root (RLeaf (key_bytes 0x0001100000000000) 1)) 0x0001110000000000 2 = Inr (ex_root ex_pair)"
  using ex_split
  by (simp add: roart_put8_def roart_put_def put_loop.simps put_from.simps ex_root_def ex_head_def key_bytes_ex checkPrefixPessimistic_def
      recover_prefix_def compare_prefix_def Let_def first_from.simps getChild_cases at_slot_def at_child_def n_change_defs)

text \<open>
  When the bounds share a byte on the way down, the stored prefix of the next node is
  compared with the second bound as if the bytes before it did not count: after two insertions
  the range lookup finds none of the two keys of its range.
\<close>

theorem roart_range_loses:
  "\<exists>root. run_ops (run_op roart_put8 roart_upd8 roart_del8) new_roart
       [Put 0x0001100000000000 1, Put 0x0001110000000000 2] = Inr root \<and>
     roart_get root 0x0001100000000000 = 1 \<and> roart_get root 0x0001110000000000 = 2 \<and>
     roart_lookupRange root (key_bytes 0x0001090000000000) (key_bytes 0x0005000000000000) 10 = Inr ([], None)"
proof (intro exI conjI)
  let ?ops = "[Put 0x0001100000000000 1, Put 0x0001110000000000 2] :: (u64, u64) op list"
  show r: "run_ops (run_op roart_put8 roart_upd8 roart_del8) new_roart ?ops = Inr (ex_root ex_pair)"
    by (simp add: ex_put_1 ex_put_2)
  from roart.ops_history [OF new_root_ok, of ?ops] r have
    "\<forall>key. roart_get8 (ex_root ex_pair) key = Inr (foldl apply_op Map.empty ?ops key)" by simp
  then show "roart_get (ex_root ex_pair) 0x0001100000000000 = 1" "roart_get (ex_root ex_pair) 0x0001110000000000 = 2"
    by (simp_all add: roart_get_get8)
  show "roart_lookupRange (ex_root ex_pair) (key_bytes 0x0001090000000000) (key_bytes 0x0005000000000000) 10 = Inr ([], None)"
    by (simp add: roart_lookupRange_def key_bytes_ex key_lt_def Let_def first_from.simps [of _ 0] first_from.simps [of _ "Suc 0"]
        ex_root_def ex_head_def ex_pair_def checkPrefixEquals_def byte_or_def getChild_cases at_slot_def
        prefix_byte_at_def level_after_def getChildren_defs slot_entries_def upt_rec)
qed

text \<open>
  A key whose leaf hangs below the root under the first byte that both bounds have sends the
  range lookup into the leaf as if it were a node.
\<close>

theorem roart_range_leaf:
  assumes "key_bytes x ! 0 = key_bytes k ! 0" "key_bytes y ! 0 = key_bytes k ! 0" "x < y"
  shows "\<exists>root. roart_put8 new_roart k v = Inr root \<and> roart_lookupRange root (key_bytes x) (key_bytes y) lim = Inl WildAccess"
proof (intro exI conjI)
  let ?n = "RNode ex_head (Body (N256 ((replicate 256 None)[unat (key_bytes k ! 0) := Some (RLeaf (key_bytes k) v)])) 1 0)"
  show "roart_put8 new_roart k v = Inr ?n"
    by (simp add: roart_put8_def roart_put_def put_loop.simps put_from.simps new_roart_def checkPrefixPessimistic_def
      recover_prefix_def compare_prefix_def Let_def first_from.simps [of _ 0 0] getChild_cases new_N256_def at_slot_def needs_parent_def
      capacity_def insertAndUnlock_def insert_or_drop_def n_insert_defs ex_head_def inc16_def)
  have "key_lt (key_bytes x) (key_bytes y) 0"
    using assms(3) key_lt_before [OF length_key_bytes length_key_bytes, of 0] by (simp add: before_iff)
  then show "roart_lookupRange ?n (key_bytes x) (key_bytes y) lim = Inl WildAccess"
    using assms(1,2) by (simp add: roart_lookupRange_def ex_head_def checkPrefixEquals_def byte_or_def getChild_cases at_slot_def Let_def)
qed

theorem roart_range_leaf_witness:
  "\<exists>root. roart_put8 new_roart 5 7 = Inr root \<and> roart_lookupRange root (key_bytes 1) (key_bytes 9) 10 = Inl WildAccess"
proof -
  have "key_bytes 1 ! 0 = key_bytes 5 ! 0" "key_bytes 9 ! 0 = key_bytes 5 ! 0" by (simp_all add: key_bytes_def)
  from roart_range_leaf [OF this] show ?thesis by simp
qed

end
