(* ===== verification/Roart_Lock.thy ===== *)
theory Roart_Lock
  imports Prelude Machine
begin

text \<open>
  The version lock of \<^verbatim>\<open>roart/roart_node.cpp\<close>: one 64-bit word per node, with the node type in
  its upper bits, a version above two flag bits, 2 for locked and 1 for obsolete.  Any number
  of threads takes steps in any order; a thread's program counter says which atomic access it
  makes next and holds the value it has read.  The word starts at \<open>0b100\<close> plus the type.
\<close>

subsection \<open>The word\<close>

definition isLocked :: "u64 \<Rightarrow> bool" where
  "isLocked version \<longleftrightarrow> version AND 2 = 2"

definition isObsolete :: "u64 \<Rightarrow> bool" where
  "isObsolete version \<longleftrightarrow> version AND 1 = 1"

definition convertTypeToVersion :: "nat \<Rightarrow> u64" where
  "convertTypeToVersion t = push_bit 60 (of_nat t)"

definition getType :: "u64 \<Rightarrow> nat" where
  "getType w = unat (drop_bit 60 w)"

definition readVersionOrRestart :: "u64 \<Rightarrow> u64 \<Rightarrow> bool" where
  "readVersionOrRestart startRead w \<longleftrightarrow> startRead = w"

subsection \<open>Threads\<close>

datatype lock_pc =
    Outside
  | Waiting            \<comment> \<open>in \<open>writeLockOrRestart\<close>, before a load\<close>
  | Swapping u64       \<comment> \<open>the version loaded was neither locked nor obsolete\<close>
  | Writing
  | Reading u64        \<comment> \<open>with a version from \<open>getVersion\<close>\<close>
  | Validated u64      \<comment> \<open>\<open>readVersionOrRestart\<close> returned true\<close>
  | Restarting

record lock_state =
  lock_word :: u64
  pcs :: "nat \<Rightarrow> lock_pc"

definition lock_start :: "lock_state \<Rightarrow> bool" where
  "lock_start s \<longleftrightarrow> (\<exists>t<8. lock_word s = 4 + convertTypeToVersion t) \<and> pcs s = (\<lambda>_. Outside)"

definition goto :: "lock_state \<Rightarrow> nat \<Rightarrow> lock_pc \<Rightarrow> lock_state" where
  "goto s i p = s\<lparr>pcs := (pcs s)(i := p)\<rparr>"

definition swap_to :: "lock_state \<Rightarrow> nat \<Rightarrow> u64 \<Rightarrow> lock_pc \<Rightarrow> lock_state" where
  "swap_to s i w p = s\<lparr>lock_word := w, pcs := (pcs s)(i := p)\<rparr>"

lemma goto_simps [simp]: "lock_word (goto s i p) = lock_word s" "pcs (goto s i p) = (pcs s)(i := p)"
  by (simp_all add: goto_def)

lemma swap_to_simps [simp]: "lock_word (swap_to s i w p) = w" "pcs (swap_to s i w p) = (pcs s)(i := p)"
  by (simp_all add: swap_to_def)

text \<open>A weak compare-and-swap may fail although the word has the expected value.\<close>

inductive lock_step :: "lock_state \<Rightarrow> lock_state \<Rightarrow> bool" where
  call_write: "pcs s i = Outside \<Longrightarrow> lock_step s (goto s i Waiting)"
| load_obsolete: "pcs s i = Waiting \<Longrightarrow> \<not> isLocked (lock_word s) \<Longrightarrow> isObsolete (lock_word s) \<Longrightarrow>
    lock_step s (goto s i Restarting)"
| load_free: "pcs s i = Waiting \<Longrightarrow> \<not> isLocked (lock_word s) \<Longrightarrow> \<not> isObsolete (lock_word s) \<Longrightarrow>
    lock_step s (goto s i (Swapping (lock_word s)))"
| swap_ok: "pcs s i = Swapping (lock_word s) \<Longrightarrow> lock_step s (swap_to s i (lock_word s + 2) Writing)"
| swap_fail: "pcs s i = Swapping v \<Longrightarrow> lock_step s (goto s i Waiting)"
| unlock: "pcs s i = Writing \<Longrightarrow> lock_step s (swap_to s i (lock_word s + 2) Outside)"
| unlock_obsolete: "pcs s i = Writing \<Longrightarrow> lock_step s (swap_to s i (lock_word s + 3) Outside)"
| get_version: "pcs s i = Outside \<Longrightarrow> lock_step s (goto s i (Reading (lock_word s)))"
| validate: "pcs s i = Reading v \<Longrightarrow> readVersionOrRestart v (lock_word s) \<Longrightarrow> lock_step s (goto s i (Validated v))"
| validate_fail: "pcs s i = Reading v \<Longrightarrow> \<not> readVersionOrRestart v (lock_word s) \<Longrightarrow> lock_step s (goto s i Restarting)"
| lock_version: "pcs s i = Reading (lock_word s) \<Longrightarrow> \<not> isLocked (lock_word s) \<Longrightarrow> \<not> isObsolete (lock_word s) \<Longrightarrow>
    lock_step s (swap_to s i (lock_word s + 2) Writing)"
| lock_version_fail: "pcs s i = Reading v \<Longrightarrow> isLocked v \<or> isObsolete v \<or> v \<noteq> lock_word s \<Longrightarrow>
    lock_step s (goto s i Restarting)"
| continue_read: "pcs s i = Validated v \<Longrightarrow> lock_step s (goto s i (Reading v))"
| leave: "pcs s i \<in> {Restarting, Validated v} \<Longrightarrow> lock_step s (goto s i Outside)"

inductive_cases lock_stepE: "lock_step s t"

subsection \<open>Mutual exclusion\<close>

definition low2 :: "u64 \<Rightarrow> nat" where
  "low2 w = unat w mod 4"

lemma low2_add: "low2 (w + 2) = (low2 w + 2) mod 4" "low2 (w + 3) = (low2 w + 3) mod 4"
proof -
  have "low2 (w + n) = (low2 w + unat n) mod 4" for n :: u64
    unfolding low2_def by (simp add: unat_word_ariths mod_mod_cancel mod_add_left_eq)
  from this [of 2] this [of 3] show "low2 (w + 2) = (low2 w + 2) mod 4" "low2 (w + 3) = (low2 w + 3) mod 4" by simp_all
qed

lemma flags_low2: "isLocked w \<longleftrightarrow> low2 w \<in> {2, 3}" "isObsolete w \<longleftrightarrow> low2 w \<in> {1, 3}"
proof -
  have "isLocked w \<longleftrightarrow> bit w 1"
  proof
    assume "isLocked w"
    then have "bit (w AND 2) 1 = bit (2 :: u64) 1" by (simp add: isLocked_def)
    then show "bit w 1" by (simp add: bit_simps)
  next
    assume "bit w 1"
    then show "isLocked w" unfolding isLocked_def by (intro bit_eqI) (auto simp: bit_simps bit_2_iff)
  qed
  also have "\<dots> \<longleftrightarrow> bit (unat w) 1" by (simp add: bit_unsigned_iff)
  also have "\<dots> \<longleftrightarrow> odd (unat w div 2)" by (simp add: bit_iff_odd)
  finally show "isLocked w \<longleftrightarrow> low2 w \<in> {2, 3}" by (simp add: low2_def) presburger
  have "isObsolete w \<longleftrightarrow> unat (w AND 1) = 1" by (simp add: isObsolete_def word_unat_eq_iff)
  also have "unat (w AND 1) = unat w mod 2" using unat_and_mask [of w 1] by simp
  finally show "isObsolete w \<longleftrightarrow> low2 w \<in> {1, 3}" by (simp add: low2_def) presburger
qed

definition lock_inv :: "lock_state \<Rightarrow> bool" where
  "lock_inv s \<longleftrightarrow>
     low2 (lock_word s) \<noteq> 3 \<and>
     (\<forall>i j. pcs s i = Writing \<longrightarrow> pcs s j = Writing \<longrightarrow> i = j) \<and>
     ((\<exists>i. pcs s i = Writing) \<longleftrightarrow> low2 (lock_word s) = 2) \<and>
     (\<forall>i v. pcs s i = Swapping v \<longrightarrow> low2 v = 0)"

lemma low2_cases: "low2 w = 0 \<or> low2 w = 1 \<or> low2 w = 2 \<or> low2 w = 3"
  unfolding low2_def by presburger

lemma free_low2: "\<not> isLocked w \<Longrightarrow> \<not> isObsolete w \<Longrightarrow> low2 w = 0"
  using low2_cases [of w] by (auto simp: flags_low2)

lemma lock_invD:
  assumes "lock_inv s"
  shows "low2 (lock_word s) \<noteq> 3" "\<And>i j. pcs s i = Writing \<Longrightarrow> pcs s j = Writing \<Longrightarrow> i = j"
    "\<And>i. pcs s i = Writing \<Longrightarrow> low2 (lock_word s) = 2" "low2 (lock_word s) = 2 \<Longrightarrow> \<exists>i. pcs s i = Writing"
    "\<And>i v. pcs s i = Swapping v \<Longrightarrow> low2 v = 0"
  using assms unfolding lock_inv_def by blast+

text \<open>The three kinds of step: a thread moves on, takes the lock, or gives it back.\<close>

lemma goto_inv:
  assumes "lock_inv s" "pcs s i \<noteq> Writing" "p \<noteq> Writing" "\<And>v. p = Swapping v \<Longrightarrow> low2 v = 0"
  shows "lock_inv (goto s i p)"
proof -
  note o = lock_invD [OF assms(1)]
  have w: "pcs (goto s i p) j = Writing \<longleftrightarrow> pcs s j = Writing" for j using assms(2,3) by simp
  have "low2 v = 0" if "pcs (goto s i p) j = Swapping v" for j v
    using that assms(4) [of v] o(5) [of j v] by (auto split: if_splits)
  with o w show ?thesis unfolding lock_inv_def by (metis goto_simps(1))
qed

lemma take_inv:
  assumes "lock_inv s" "low2 (lock_word s) = 0"
  shows "lock_inv (swap_to s i (lock_word s + 2) Writing)"
proof -
  note o = lock_invD [OF assms(1)]
  have none: "pcs s j \<noteq> Writing" for j using o(3) [of j] assms(2) by auto
  have "pcs (swap_to s i (lock_word s + 2) Writing) j = Writing \<longleftrightarrow> j = i" for j using none by simp
  moreover have "low2 v = 0" if "pcs (swap_to s i (lock_word s + 2) Writing) j = Swapping v" for j v
    using that o(5) [of j v] by (auto split: if_splits)
  ultimately show ?thesis unfolding lock_inv_def by (simp add: low2_add assms(2))
qed

lemma give_back_inv:
  assumes "lock_inv s" "pcs s i = Writing" "d = 2 \<or> d = 3"
  shows "lock_inv (swap_to s i (lock_word s + d) Outside)"
proof -
  note o = lock_invD [OF assms(1)]
  have none: "pcs (swap_to s i (lock_word s + d) Outside) j \<noteq> Writing" for j using o(2) [OF assms(2)] by auto
  moreover have "low2 v = 0" if "pcs (swap_to s i (lock_word s + d) Outside) j = Swapping v" for j v
    using that o(5) [of j v] by (auto split: if_splits)
  moreover have "low2 (lock_word s + d) = 0 \<or> low2 (lock_word s + d) = 1"
    using assms(3) o(3) [OF assms(2)] by (auto simp: low2_add)
  ultimately show ?thesis unfolding lock_inv_def by auto
qed

lemma lock_step_inv: "lock_step s t \<Longrightarrow> lock_inv s \<Longrightarrow> lock_inv t"
proof (induction rule: lock_step.induct)
  case (swap_ok s i)
  then show ?case using lock_invD(5) [of s i] by (intro take_inv) auto
next
  case (lock_version s i)
  then show ?case by (intro take_inv) (simp_all add: free_low2)
qed (auto intro!: goto_inv give_back_inv simp: free_low2)

lemma lock_start_inv:
  assumes "lock_start s"
  shows "lock_inv s"
proof -
  from assms obtain t where t: "t < 8" "lock_word s = 4 + convertTypeToVersion t" "pcs s = (\<lambda>_. Outside)"
    by (auto simp: lock_start_def)
  have "t \<in> {0, 1, 2, 3, 4, 5, 6, 7}" using t(1) by auto
  then have "low2 (lock_word s) = 0" by (auto simp: t(2) low2_def convertTypeToVersion_def)
  then show ?thesis by (simp add: lock_inv_def t(3))
qed

interpretation roart_lock: machine lock_start lock_step lock_inv
  by unfold_locales (auto intro: lock_start_inv lock_step_inv)

text \<open>
  C26.  In every state that any number of threads can reach, taking and giving back the lock of a
  node in any order, at most one thread is between its lock and its unlock, and the lock bit is
  set exactly when one is; a locked node is never marked obsolete.
\<close>

theorem roart_lock_exclusive:
  assumes "lock_start s" "lock_step\<^sup>*\<^sup>* s t"
  shows "(isLocked (lock_word t) \<longleftrightarrow> (\<exists>i. pcs t i = Writing)) \<and>
    (\<forall>i j. pcs t i = Writing \<and> pcs t j = Writing \<longrightarrow> i = j) \<and>
    \<not> (isLocked (lock_word t) \<and> isObsolete (lock_word t))"
proof -
  note o = lock_invD [OF roart_lock.reachable_inv [OF assms]]
  have "isLocked (lock_word t) \<longleftrightarrow> low2 (lock_word t) = 2" using o(1) by (auto simp: flags_low2)
  moreover have "(\<exists>i. pcs t i = Writing) \<longleftrightarrow> low2 (lock_word t) = 2" using o(3,4) by blast
  moreover have "low2 (lock_word t) = 2 \<Longrightarrow> \<not> isObsolete (lock_word t)" by (simp add: flags_low2)
  ultimately show ?thesis using o(2) by blast
qed

definition fresh_lock :: lock_state where
  "fresh_lock = \<lparr>lock_word = 4, pcs = (\<lambda>_. Outside)\<rparr>"

lemma fresh_lock_start: "lock_start fresh_lock"
  unfolding lock_start_def fresh_lock_def by (intro conjI exI [of _ 0]) (simp_all add: convertTypeToVersion_def)

text \<open>A thread that finds the word free gets the lock in two of its steps.\<close>

lemma free_lock_taken:
  assumes "pcs s i = Waiting" "low2 (lock_word s) = 0"
  shows "\<exists>t. lock_step\<^sup>*\<^sup>* s t \<and> pcs t i = Writing"
proof -
  let ?a = "goto s i (Swapping (lock_word s))"
  let ?b = "swap_to ?a i (lock_word ?a + 2) Writing"
  have "lock_step s ?a" by (rule load_free) (use assms in \<open>simp_all add: flags_low2\<close>)
  moreover have "lock_step ?a ?b" by (rule swap_ok) simp
  ultimately have "lock_step\<^sup>*\<^sup>* s ?b" by (meson converse_rtranclp_into_rtranclp rtranclp.rtrancl_refl)
  then show ?thesis by (intro exI [of _ ?b]) simp
qed

lemma fresh_lock_taken: "\<exists>t. lock_step\<^sup>*\<^sup>* fresh_lock t \<and> pcs t 0 = Writing"
proof -
  let ?a = "goto fresh_lock 0 Waiting"
  have "lock_step fresh_lock ?a" by (rule call_write) (simp add: fresh_lock_def)
  moreover from free_lock_taken [of ?a 0] obtain t where "lock_step\<^sup>*\<^sup>* ?a t" "pcs t 0 = Writing"
    by (auto simp: low2_def fresh_lock_def)
  ultimately show ?thesis by (meson converse_rtranclp_into_rtranclp)
qed

theorem roart_lock_exclusive_witness:
  "\<exists>t. lock_step\<^sup>*\<^sup>* fresh_lock t \<and> pcs t 0 = Writing \<and> isLocked (lock_word t) \<and> \<not> isObsolete (lock_word t) \<and>
    (\<forall>j. pcs t j = Writing \<longrightarrow> j = 0)"
proof -
  from fresh_lock_taken obtain t where t: "lock_step\<^sup>*\<^sup>* fresh_lock t" "pcs t 0 = Writing" by blast
  with roart_lock_exclusive [OF fresh_lock_start t(1)] show ?thesis by blast
qed

subsection \<open>Versions\<close>

text \<open>Runs with the number of their steps that change the word.\<close>

inductive lock_runs :: "nat \<Rightarrow> lock_state \<Rightarrow> lock_state \<Rightarrow> bool" where
  runs_none: "lock_runs 0 s s"
| runs_step: "lock_runs n s t \<Longrightarrow> lock_step t u \<Longrightarrow>
    lock_runs (if lock_word u = lock_word t then n else Suc n) s u"

lemma lock_runs_steps: "lock_runs n s t \<Longrightarrow> lock_step\<^sup>*\<^sup>* s t"
  by (induction rule: lock_runs.induct) auto

lemma lock_runs_append: "lock_runs m t u \<Longrightarrow> lock_runs n s t \<Longrightarrow> lock_runs (n + m) s u"
proof (induction rule: lock_runs.induct)
  case (runs_step m t u v)
  from lock_runs.runs_step [OF runs_step.IH [OF runs_step.prems] runs_step.hyps(2)] show ?case by (simp split: if_splits)
qed simp

lemma lock_step_word:
  "lock_step s t \<Longrightarrow> lock_word t = lock_word s \<or> lock_word t = lock_word s + 2 \<or> lock_word t = lock_word s + 3"
  by (induction rule: lock_step.induct) auto

lemma lock_runs_word: "lock_runs n s t \<Longrightarrow> \<exists>d. lock_word t = lock_word s + of_nat d \<and> 2 * n \<le> d \<and> d \<le> 3 * n"
proof (induction rule: lock_runs.induct)
  case (runs_none s)
  then show ?case by (intro exI [of _ 0]) simp
next
  case (runs_step n s t u)
  then obtain d where d: "lock_word t = lock_word s + of_nat d" "2 * n \<le> d" "d \<le> 3 * n" by blast
  from lock_step_word [OF runs_step.hyps(2)]
  consider "lock_word u = lock_word t" | "lock_word u = lock_word t + 2" | "lock_word u = lock_word t + 3" by blast
  then show ?case
  proof cases
    case 1
    with d show ?thesis by auto
  next
    case 2
    with d show ?thesis by (intro exI [of _ "d + 2"]) simp
  next
    case 3
    with d show ?thesis by (intro exI [of _ "d + 3"]) simp
  qed
qed

lemma of_nat_u64_zero: "(of_nat d :: u64) = 0 \<Longrightarrow> d < 2 ^ 64 \<Longrightarrow> d = 0"
  by (simp add: word_unat_eq_iff unsigned_of_nat take_bit_eq_mod)

text \<open>
  C27.  A version that was read while the node was not locked and that validates later means that
  no thread had the lock in between, whatever the threads did, as long as the word was changed
  fewer than \<open>2 ^ 62\<close> times.
\<close>

theorem roart_lock_validates:
  assumes "lock_start s" "lock_step\<^sup>*\<^sup>* s t" "\<not> isLocked (lock_word t)"
    and "lock_runs m t u" "lock_runs n u v" "m + n < 2 ^ 62"
    and "readVersionOrRestart (lock_word t) (lock_word v)"
  shows "lock_word u = lock_word t \<and> (\<forall>j. pcs u j \<noteq> Writing)"
proof -
  from lock_runs_word [OF lock_runs_append [OF assms(5,4)]] obtain d where
    d: "lock_word v = lock_word t + of_nat d" "2 * (m + n) \<le> d" "d \<le> 3 * (m + n)" by blast
  have "(of_nat d :: u64) = 0" using d(1) assms(7) by (simp add: readVersionOrRestart_def)
  then have "d = 0" using d(3) assms(6) by (intro of_nat_u64_zero) simp_all
  then have "m = 0" using d(2) by simp
  with lock_runs_word [OF assms(4)] have w: "lock_word u = lock_word t" by auto
  have "lock_inv u" using roart_lock.run_inv [OF lock_runs_steps [OF assms(4)] roart_lock.reachable_inv [OF assms(1,2)]] .
  from lock_invD(3) [OF this] w assms(3) show ?thesis by (auto simp: flags_low2)
qed

text \<open>
  Thread 1 takes and gives back the lock; then thread 0 reads the version, thread 1 comes back and
  loads the free word, and thread 0 validates.
\<close>

theorem roart_lock_validates_witness:
  "\<exists>t u v. lock_step\<^sup>*\<^sup>* fresh_lock t \<and> lock_word t = 8 \<and> lock_runs 0 t u \<and> lock_runs 0 u v \<and>
    pcs u 0 = Reading 8 \<and> pcs u 1 = Swapping 8 \<and> pcs v 0 = Validated 8 \<and> (\<forall>j. pcs u j \<noteq> Writing)"
proof -
  let ?a = "goto fresh_lock 1 Waiting"
  let ?b = "goto ?a 1 (Swapping (lock_word ?a))"
  let ?c = "swap_to ?b 1 (lock_word ?b + 2) Writing"
  let ?t = "swap_to ?c 1 (lock_word ?c + 2) Outside"
  let ?d = "goto ?t 0 (Reading (lock_word ?t))"
  let ?e = "goto ?d 1 Waiting"
  let ?u = "goto ?e 1 (Swapping (lock_word ?e))"
  let ?v = "goto ?u 0 (Validated 8)"
  have w: "lock_word fresh_lock = 4" "pcs fresh_lock j = Outside" for j by (simp_all add: fresh_lock_def)
  have f: "\<not> isLocked 4" "\<not> isObsolete 4" "\<not> isLocked 8" "\<not> isObsolete 8" by (simp_all add: flags_low2 low2_def)
  have "lock_step fresh_lock ?a" by (rule call_write) (simp add: w)
  moreover have "lock_step ?a ?b" by (rule load_free) (simp_all add: w f)
  moreover have "lock_step ?b ?c" by (rule swap_ok) simp
  moreover have "lock_step ?c ?t" by (rule unlock) simp
  ultimately have t: "lock_step\<^sup>*\<^sup>* fresh_lock ?t" by (meson rtranclp.intros)
  have "lock_step ?t ?d" by (rule get_version) (simp add: w)
  moreover have "lock_step ?d ?e" by (rule call_write) simp
  moreover have "lock_step ?e ?u" by (rule load_free) (simp_all add: w f)
  ultimately have u: "lock_runs 0 ?t ?u"
    using runs_step [OF runs_step [OF runs_step [OF runs_none]], of ?t ?d ?e ?u] by simp
  have "lock_step ?u ?v" by (rule validate) (simp_all add: w readVersionOrRestart_def)
  then have v: "lock_runs 0 ?u ?v" using runs_step [OF runs_none, of ?u ?v] by simp
  have "\<not> isLocked (lock_word ?t)" "readVersionOrRestart (lock_word ?t) (lock_word ?v)"
    by (simp_all add: w f readVersionOrRestart_def)
  from roart_lock_validates [OF fresh_lock_start t this(1) u v _ this(2)] have "\<forall>j. pcs ?u j \<noteq> Writing" by simp
  with t u v show ?thesis by (intro exI [of _ ?t] exI [of _ ?u] exI [of _ ?v]) (simp add: w)
qed

text \<open>
  C28.  The type of a node, in the top bits of its word, stays what it was as long as the word has
  been changed fewer than \<open>2 ^ 58\<close> times: until then the version does not run into it.
\<close>

theorem roart_lock_type:
  assumes "t < 8" "lock_word s = 4 + convertTypeToVersion t" "lock_runs n s u" "n < 2 ^ 58"
  shows "getType (lock_word u) = t"
proof -
  from lock_runs_word [OF assms(3)] obtain d where d: "lock_word u = lock_word s + of_nat d" "d \<le> 3 * n" by blast
  have "t \<in> {0, 1, 2, 3, 4, 5, 6, 7}" using assms(1) by auto
  then have c: "unat (convertTypeToVersion t) = t * 2 ^ 60" by (auto simp: convertTypeToVersion_def)
  have "unat (lock_word u) = 4 + t * 2 ^ 60 + d"
    using d assms(1,4) by (simp add: assms(2) unat_word_ariths c unsigned_of_nat take_bit_eq_mod)
  moreover have "4 + d < 2 ^ 60" using d(2) assms(4) by simp
  ultimately show ?thesis by (simp add: getType_def unat_drop_bit)
qed

theorem roart_lock_type_witness:
  "\<exists>u. lock_step fresh_lock u \<and> pcs u 0 = Waiting \<and> getType (lock_word u) = 0"
proof -
  let ?u = "goto fresh_lock 0 Waiting"
  have s: "lock_step fresh_lock ?u" by (rule call_write) (simp add: fresh_lock_def)
  have "lock_runs 0 fresh_lock ?u" using runs_step [OF runs_none s] by simp
  from roart_lock_type [of 0 fresh_lock, OF _ _ this] s show ?thesis
    by (intro exI [of _ ?u]) (simp add: fresh_lock_def convertTypeToVersion_def)
qed

subsection \<open>Progress\<close>

text \<open>
  C29.  No state that threads can reach is a deadlock: from each of them some thread can go on so
  that a thread waiting for the lock either gets it or learns that the node is obsolete.
\<close>

theorem roart_lock_progress:
  assumes "lock_start s" "lock_step\<^sup>*\<^sup>* s t" "pcs t i = Waiting"
  shows "\<exists>u. lock_step\<^sup>*\<^sup>* t u \<and> pcs u i \<in> {Writing, Restarting}"
proof -
  note o = lock_invD [OF roart_lock.reachable_inv [OF assms(1,2)]]
  consider "low2 (lock_word t) = 0" | "low2 (lock_word t) = 1" | j where "low2 (lock_word t) = 2" "pcs t j = Writing"
    using low2_cases [of "lock_word t"] o(1,4) by metis
  then show ?thesis
  proof cases
    case 1
    from free_lock_taken [OF assms(3) 1] show ?thesis by blast
  next
    case 2
    then have "lock_step t (goto t i Restarting)" by (intro load_obsolete) (use assms(3) in \<open>simp_all add: flags_low2\<close>)
    then show ?thesis by (intro exI [of _ "goto t i Restarting"]) auto
  next
    case 3
    let ?u = "swap_to t j (lock_word t + 2) Outside"
    have "lock_step t ?u" by (rule unlock [OF 3(2)])
    moreover have "pcs ?u i = Waiting" "low2 (lock_word ?u) = 0" using assms(3) 3 by (auto simp: low2_add)
    then obtain v where v: "lock_step\<^sup>*\<^sup>* ?u v" "pcs v i = Writing" using free_lock_taken by blast
    ultimately have "lock_step\<^sup>*\<^sup>* t v" by (meson converse_rtranclp_into_rtranclp)
    with v(2) show ?thesis by (intro exI [of _ v]) simp
  qed
qed

theorem roart_lock_progress_witness:
  "\<exists>u. lock_step\<^sup>*\<^sup>* (goto fresh_lock 3 Waiting) u \<and> pcs u 3 \<in> {Writing, Restarting}"
proof -
  have "lock_step fresh_lock (goto fresh_lock 3 Waiting)" by (rule call_write) (simp add: fresh_lock_def)
  from roart_lock_progress [OF fresh_lock_start r_into_rtranclp [of lock_step, OF this]] show ?thesis by simp
qed

end
