(* ===== verification/Wrert_Lock.thy ===== *)
theory Wrert_Lock
  imports Prelude Machine
begin

text \<open>
  The reader-writer lock of \<^verbatim>\<open>YCSB-C/wrert/wrert_rwlock.h\<close>, with which the concurrent build of
  WRERT protects directories, segments and buckets.  One 32-bit word holds the writer flag and
  the number of readers.  A fixed list of threads takes atomic steps in any order.  A pool maps
  the address of an object to one of \<open>2 ^ 16\<close> locks, so two objects can share a lock; \<open>Nested\<close>
  is a reader that asks for a second object's lock and gets the one it holds already.
\<close>

subsection \<open>The word\<close>

definition WRITER_FLAG :: u32 where "WRITER_FLAG = 0x80000000"
definition READER_MASK :: u32 where "READER_MASK = 0x7FFFFFFF"

definition hash_ptr :: "u64 \<Rightarrow> u64" where
  "hash_ptr p = drop_bit (64 - 16) (p * 11400714819323198485)"

subsection \<open>Threads\<close>

datatype rw_pc =
    Idle
  | ReadTry | ReadSwap u32 | Reader
  | Nested | NestedSwap u32 | Twice
  | WriteTry | WriteOr | Drain | Writer

record rw_state =
  rw_word :: u32
  rw_pcs :: "rw_pc list"

definition rw_start :: "rw_state \<Rightarrow> bool" where
  "rw_start s \<longleftrightarrow> rw_word s = 0 \<and> set (rw_pcs s) \<subseteq> {Idle} \<and> length (rw_pcs s) < 2 ^ 30"

definition at :: "rw_state \<Rightarrow> nat \<Rightarrow> rw_pc \<Rightarrow> bool" where
  "at s i p \<longleftrightarrow> i < length (rw_pcs s) \<and> rw_pcs s ! i = p"

definition move :: "rw_state \<Rightarrow> nat \<Rightarrow> u32 \<Rightarrow> rw_pc \<Rightarrow> rw_state" where
  "move s i w p = s\<lparr>rw_word := w, rw_pcs := (rw_pcs s)[i := p]\<rparr>"

definition writer_in :: "u32 \<Rightarrow> bool" where
  "writer_in w \<longleftrightarrow> w AND WRITER_FLAG \<noteq> 0"

inductive rw_step :: "rw_state \<Rightarrow> rw_state \<Rightarrow> bool" where
  read_call: "at s i Idle \<Longrightarrow> rw_step s (move s i (rw_word s) ReadTry)"
| read_load: "at s i ReadTry \<Longrightarrow> \<not> writer_in (rw_word s) \<Longrightarrow> rw_step s (move s i (rw_word s) (ReadSwap (rw_word s)))"
| read_swap: "at s i (ReadSwap (rw_word s)) \<Longrightarrow> rw_step s (move s i (rw_word s + 1) Reader)"
| read_swap_fail: "at s i (ReadSwap v) \<Longrightarrow> rw_step s (move s i (rw_word s) ReadTry)"
| read_unlock: "at s i Reader \<Longrightarrow> rw_step s (move s i (rw_word s - 1) Idle)"
| nested_call: "at s i Reader \<Longrightarrow> rw_step s (move s i (rw_word s) Nested)"
| nested_load: "at s i Nested \<Longrightarrow> \<not> writer_in (rw_word s) \<Longrightarrow> rw_step s (move s i (rw_word s) (NestedSwap (rw_word s)))"
| nested_swap: "at s i (NestedSwap (rw_word s)) \<Longrightarrow> rw_step s (move s i (rw_word s + 1) Twice)"
| nested_swap_fail: "at s i (NestedSwap v) \<Longrightarrow> rw_step s (move s i (rw_word s) Nested)"
| nested_unlock: "at s i Twice \<Longrightarrow> rw_step s (move s i (rw_word s - 1) Reader)"
| write_call: "at s i Idle \<Longrightarrow> rw_step s (move s i (rw_word s) WriteTry)"
| write_load: "at s i WriteTry \<Longrightarrow> \<not> writer_in (rw_word s) \<Longrightarrow> rw_step s (move s i (rw_word s) WriteOr)"
| write_or: "at s i WriteOr \<Longrightarrow>
    rw_step s (move s i (rw_word s OR WRITER_FLAG) (if writer_in (rw_word s) then WriteTry else Drain))"
| write_enter: "at s i Drain \<Longrightarrow> rw_word s AND READER_MASK = 0 \<Longrightarrow> rw_step s (move s i (rw_word s) Writer)"
| write_unlock: "at s i Writer \<Longrightarrow> rw_step s (move s i (rw_word s AND NOT WRITER_FLAG) Idle)"

inductive_cases rw_stepE: "rw_step s t"

subsection \<open>What the word counts\<close>

fun reads :: "rw_pc \<Rightarrow> nat" where
  "reads Reader = 1"
| "reads Nested = 1"
| "reads (NestedSwap v) = 1"
| "reads Twice = 2"
| "reads _ = 0"

definition holds :: "rw_pc \<Rightarrow> nat" where
  "holds p = (if p = Drain \<or> p = Writer then 1 else 0)"

definition total :: "(rw_pc \<Rightarrow> nat) \<Rightarrow> rw_state \<Rightarrow> nat" where
  "total f s = sum_list (map f (rw_pcs s))"

lemma holds_simps [simp]:
  "holds Drain = 1" "holds Writer = 1" "p \<noteq> Drain \<Longrightarrow> p \<noteq> Writer \<Longrightarrow> holds p = 0"
  by (simp_all add: holds_def)

lemma move_simps [simp]: "rw_word (move s i w p) = w" "rw_pcs (move s i w p) = (rw_pcs s)[i := p]"
  by (simp_all add: move_def)

lemma total_move: "at s i q \<Longrightarrow> total f (move s i w p) + f q = total f s + f p"
proof -
  have "sum_list (map f (xs[i := p])) + f (xs ! i) = sum_list (map f xs) + f p" if "i < length xs" for xs
    using that by (induction xs arbitrary: i) (auto split: nat.splits)
  then show "at s i q \<Longrightarrow> ?thesis" by (auto simp: at_def total_def)
qed

lemma total_at: "at s i q \<Longrightarrow> f q \<le> total f s"
  unfolding at_def total_def by (metis elem_le_sum_list length_map nth_map)

lemma total_two: "at s i p \<Longrightarrow> at s j q \<Longrightarrow> i \<noteq> j \<Longrightarrow> f Idle = 0 \<Longrightarrow> f p + f q \<le> total f s"
proof -
  assume a: "at s i p" "at s j q" "i \<noteq> j" "f Idle = 0"
  then have "at (move s i (rw_word s) Idle) j q" by (simp add: at_def)
  from total_at [OF this, of f] total_move [OF a(1), of f "rw_word s" Idle] a(4) show ?thesis by simp
qed

lemma at_move: "at (move s i w p) j q \<longleftrightarrow> (if j = i then i < length (rw_pcs s) \<and> q = p else at s j q)"
  by (auto simp: at_def)

definition rw_inv :: "rw_state \<Rightarrow> bool" where
  "rw_inv s \<longleftrightarrow>
     length (rw_pcs s) < 2 ^ 30 \<and> total holds s \<le> 1 \<and>
     unat (rw_word s) = total reads s + total holds s * 2 ^ 31 \<and>
     (\<forall>i. at s i Writer \<longrightarrow> total reads s = 0) \<and>
     (\<forall>i v. at s i (ReadSwap v) \<or> at s i (NestedSwap v) \<longrightarrow> unat v < 2 ^ 31)"

lemma rw_invD:
  assumes "rw_inv s"
  shows "length (rw_pcs s) < 2 ^ 30" "total holds s \<le> 1"
    "unat (rw_word s) = total reads s + total holds s * 2 ^ 31"
    "\<And>i. at s i Writer \<Longrightarrow> total reads s = 0"
    "\<And>i v. at s i (ReadSwap v) \<Longrightarrow> unat v < 2 ^ 31" "\<And>i v. at s i (NestedSwap v) \<Longrightarrow> unat v < 2 ^ 31"
  using assms unfolding rw_inv_def by blast+

lemma total_reads_bound: "total reads s \<le> 2 * length (rw_pcs s)"
proof -
  have r: "reads p \<le> 2" for p by (cases p) auto
  have "sum_list (map reads xs) \<le> 2 * length xs" for xs
  proof (induction xs)
    case (Cons a xs)
    with r [of a] show ?case by simp
  qed simp
  then show ?thesis by (simp add: total_def)
qed

lemma total_reads_less: "rw_inv s \<Longrightarrow> total reads s < 2 ^ 31"
  using total_reads_bound [of s] rw_invD(1) [of s] by simp

lemma flag_and_bit: "bit (w AND WRITER_FLAG) k \<longleftrightarrow> k = 31 \<and> bit w 31"
proof -
  have "WRITER_FLAG = push_bit 31 1" by (simp add: WRITER_FLAG_def)
  then have "bit WRITER_FLAG k \<longleftrightarrow> k = 31" unfolding \<open>WRITER_FLAG = push_bit 31 1\<close> bit_push_bit_iff by (auto simp: bit_1_iff)
  then show ?thesis by (auto simp: bit_and_iff)
qed

lemma flag_bit: "writer_in w \<longleftrightarrow> bit w 31"
  using bit_eq_iff [of "w AND WRITER_FLAG" 0] by (auto simp: writer_in_def flag_and_bit)

lemma writer_in_unat: "writer_in w \<longleftrightarrow> 2 ^ 31 \<le> unat w"
proof -
  have "bit w 31 \<longleftrightarrow> bit (unat w) 31" by (simp add: bit_unsigned_iff)
  also have "\<dots> \<longleftrightarrow> odd (unat w div 2 ^ 31)" by (rule bit_iff_odd)
  finally have "writer_in w \<longleftrightarrow> odd (unat w div 2 ^ 31)" by (simp add: flag_bit)
  moreover have "unat w div 2 ^ 31 < 2" using unsigned_less [of w] by (intro less_mult_imp_div_less) simp
  moreover have "2 ^ 31 \<le> unat w \<longleftrightarrow> 0 < unat w div 2 ^ 31" by (simp only: div_greater_zero_iff) simp
  moreover have "odd d \<longleftrightarrow> 0 < d" if "d < 2" for d :: nat using that by (cases d) auto
  ultimately show ?thesis by metis
qed

lemma readers_unat: "unat (w AND READER_MASK) = unat w mod 2 ^ 31"
proof -
  have "READER_MASK = mask 31" by (simp add: READER_MASK_def mask_eq_exp_minus_1)
  show ?thesis unfolding \<open>READER_MASK = mask 31\<close> by (rule unat_and_mask)
qed

lemma clear_unat: "unat (w AND NOT WRITER_FLAG) = unat w mod 2 ^ 31"
proof -
  have "NOT WRITER_FLAG = READER_MASK" by (simp add: WRITER_FLAG_def READER_MASK_def)
  then show ?thesis by (simp add: readers_unat)
qed

lemma set_unat: "unat (w OR WRITER_FLAG) = (if writer_in w then unat w else unat w + 2 ^ 31)"
proof (cases "writer_in w")
  case True
  have "writer_in WRITER_FLAG" by (simp add: writer_in_def WRITER_FLAG_def)
  with True have "w AND WRITER_FLAG = WRITER_FLAG" using flag_and_bit [of w] flag_and_bit [of WRITER_FLAG]
    by (simp add: bit_eq_iff flag_bit)
  then have "w OR WRITER_FLAG = w" using word_plus_and_or [of w WRITER_FLAG] by simp
  with True show ?thesis by simp
next
  case False
  then have "w OR WRITER_FLAG = w + WRITER_FLAG" using word_plus_and_or [of w WRITER_FLAG] by (simp add: writer_in_def)
  with False show ?thesis by (simp add: writer_in_unat WRITER_FLAG_def unat_word_ariths)
qed

subsection \<open>The invariant\<close>

lemma move_inv:
  assumes "rw_inv s" "at s i q" "total holds (move s i w p) \<le> 1"
    "unat w = total reads (move s i w p) + total holds (move s i w p) * 2 ^ 31"
    "\<And>j. at (move s i w p) j Writer \<Longrightarrow> total reads (move s i w p) = 0"
    "\<And>v. p = ReadSwap v \<or> p = NestedSwap v \<Longrightarrow> unat v < 2 ^ 31"
  shows "rw_inv (move s i w p)"
  using assms rw_invD(1,5,6) [OF assms(1)] unfolding rw_inv_def by (auto simp: at_move)

lemma stay_inv:
  assumes "rw_inv s" "at s i q" "reads p = reads q" "holds p = holds q" "p \<noteq> Writer"
    "\<And>v. p = ReadSwap v \<or> p = NestedSwap v \<Longrightarrow> unat v < 2 ^ 31"
  shows "rw_inv (move s i (rw_word s) p)"
proof -
  note o = rw_invD [OF assms(1)]
  have t: "total reads (move s i (rw_word s) p) = total reads s" "total holds (move s i (rw_word s) p) = total holds s"
    using total_move [OF assms(2), of reads "rw_word s" p] total_move [OF assms(2), of holds "rw_word s" p] assms(3,4) by simp_all
  show ?thesis
    by (rule move_inv [OF assms(1,2)]) (use t o assms(5,6) in \<open>auto simp: at_move split: if_splits\<close>)
qed

lemma enter_inv:
  assumes "rw_inv s" "at s i q" "unat (rw_word s) < 2 ^ 31" "reads p = reads q + 1" "holds p = 0" "holds q = 0"
    "\<And>v. p \<noteq> ReadSwap v \<and> p \<noteq> NestedSwap v"
  shows "rw_inv (move s i (rw_word s + 1) p)"
proof -
  note o = rw_invD [OF assms(1)]
  let ?t = "move s i (rw_word s + 1) p"
  have none: "total holds s = 0" using o(3) assms(3) by simp
  have t: "total reads ?t = total reads s + 1" "total holds ?t = 0"
    using total_move [OF assms(2), of reads "rw_word s + 1" p] total_move [OF assms(2), of holds "rw_word s + 1" p] assms(4-6) none
    by simp_all
  have "unat (rw_word s + 1) = unat (rw_word s) + 1" using assms(3) by (simp add: unat_word_ariths)
  moreover have "\<not> at ?t j Writer" for j using total_at [of ?t j Writer holds] t(2) by auto
  ultimately show ?thesis using o t none assms(7) by (intro move_inv [OF assms(1,2)]) auto
qed

lemma leave_inv:
  assumes "rw_inv s" "at s i q" "reads q = reads p + 1" "holds p = 0" "holds q = 0"
    "\<And>v. p \<noteq> ReadSwap v \<and> p \<noteq> NestedSwap v"
  shows "rw_inv (move s i (rw_word s - 1) p)"
proof -
  note o = rw_invD [OF assms(1)]
  let ?t = "move s i (rw_word s - 1) p"
  have t: "total reads ?t + 1 = total reads s" "total holds ?t = total holds s"
    using total_move [OF assms(2), of reads "rw_word s - 1" p] total_move [OF assms(2), of holds "rw_word s - 1" p] assms(3-5)
    by simp_all
  have "1 \<le> rw_word s" using o(3) t(1) by (simp add: word_le_nat_alt)
  then have "unat (rw_word s - 1) = unat (rw_word s) - 1" by (simp add: unat_sub)
  moreover have "\<not> at ?t j Writer" for j
  proof
    assume w: "at ?t j Writer"
    then have "j \<noteq> i" using assms(4) by (auto simp: at_move)
    with w have "at s j Writer" by (simp add: at_move)
    from o(4) [OF this] t(1) show False by simp
  qed
  ultimately show ?thesis using o t assms(6) by (intro move_inv [OF assms(1,2)]) auto
qed

lemma rw_step_inv: "rw_step s t \<Longrightarrow> rw_inv s \<Longrightarrow> rw_inv t"
proof (induction rule: rw_step.induct)
  case (read_swap s i)
  then show ?case using rw_invD(5) [OF read_swap.prems read_swap.hyps] by (intro enter_inv) auto
next
  case (nested_swap s i)
  then show ?case using rw_invD(6) [OF nested_swap.prems nested_swap.hyps] by (intro enter_inv) auto
next
  case (read_unlock s i)
  then show ?case by (intro leave_inv) auto
next
  case (nested_unlock s i)
  then show ?case by (intro leave_inv) auto
next
  case (write_or s i)
  note o = rw_invD [OF write_or.prems]
  show ?case
  proof (cases "writer_in (rw_word s)")
    case True
    then have "rw_word s OR WRITER_FLAG = rw_word s" by (simp add: word_unat_eq_iff set_unat)
    with True show ?thesis using stay_inv [OF write_or.prems write_or.hyps, of WriteTry] by simp
  next
    case False
    let ?t = "move s i (rw_word s OR WRITER_FLAG) Drain"
    have none: "total holds s = 0" using False o(3) by (auto simp: writer_in_unat)
    have t: "total reads ?t = total reads s" "total holds ?t = 1"
      using total_move [OF write_or.hyps, of reads _ Drain] total_move [OF write_or.hyps, of holds _ Drain] none by simp_all
    have "\<not> at ?t j Writer" for j
      using total_at [of s j Writer holds] none by (auto simp: at_move split: if_splits)
    then show ?thesis using False o none t by (simp add: set_unat) (intro move_inv [OF write_or.prems write_or.hyps], auto simp: set_unat)
  qed
next
  case (write_enter s i)
  note o = rw_invD [OF write_enter.prems]
  have "unat (rw_word s) mod 2 ^ 31 = 0" unfolding readers_unat [symmetric] write_enter.hyps(2) by simp
  with o(3) total_reads_less [OF write_enter.prems] have z: "total reads s = 0" by simp
  have "total reads (move s i (rw_word s) Writer) = 0" "total holds (move s i (rw_word s) Writer) = total holds s"
    using total_move [OF write_enter.hyps(1), of reads "rw_word s" Writer] total_move [OF write_enter.hyps(1), of holds "rw_word s" Writer] z
    by simp_all
  with o z show ?case by (intro move_inv [OF write_enter.prems write_enter.hyps(1)]) auto
next
  case (write_unlock s i)
  note o = rw_invD [OF write_unlock.prems]
  let ?t = "move s i (rw_word s AND NOT WRITER_FLAG) Idle"
  have "total holds s = 1" using total_at [OF write_unlock.hyps, of holds] o(2) by simp
  moreover have "total reads ?t = total reads s" "total holds ?t + 1 = total holds s"
    using total_move [OF write_unlock.hyps, of reads _ Idle] total_move [OF write_unlock.hyps, of holds _ Idle] by simp_all
  moreover have "unat (rw_word s AND NOT WRITER_FLAG) = total reads s"
    using o(3) total_reads_less [OF write_unlock.prems] by (simp add: clear_unat)
  ultimately show ?case using o(4) [OF write_unlock.hyps] by (intro move_inv [OF write_unlock.prems write_unlock.hyps]) auto
qed (auto intro!: stay_inv simp: writer_in_unat)

lemma rw_start_inv:
  assumes "rw_start s"
  shows "rw_inv s"
proof -
  have i: "rw_pcs s ! i = Idle" if "i < length (rw_pcs s)" for i using assms nth_mem [OF that] by (auto simp: rw_start_def)
  have "total f s = 0" if "f Idle = 0" for f
    using assms that by (auto simp: rw_start_def total_def sum_list_eq_0_iff)
  then have "total reads s = 0" "total holds s = 0" by simp_all
  with assms i show ?thesis by (auto simp: rw_inv_def rw_start_def at_def)
qed

interpretation wrert_lock: machine rw_start rw_step rw_inv
  by unfold_locales (auto intro: rw_start_inv rw_step_inv)

subsection \<open>Mutual exclusion\<close>

text \<open>
  C23.  In every state that threads can reach through the lock of the concurrent WRERT, a thread
  that is between its \<open>write_lock\<close> and its \<open>write_unlock\<close> is alone: no other thread holds the lock
  as a writer, is waiting for the readers to drain, or is between a \<open>read_lock\<close> and its
  \<open>read_unlock\<close>; and the word is exactly the writer flag.
\<close>

theorem wrert_lock_exclusive:
  assumes "rw_start s" "rw_step\<^sup>*\<^sup>* s t" "at t i Writer"
  shows "rw_word t = WRITER_FLAG \<and> (\<forall>j p. at t j p \<longrightarrow> j \<noteq> i \<longrightarrow> p \<notin> {Writer, Drain, Reader, Nested, Twice})"
proof -
  note inv = wrert_lock.reachable_inv [OF assms(1,2)]
  note o = rw_invD [OF inv]
  have r: "total reads t = 0" by (rule o(4) [OF assms(3)])
  have h: "total holds t = 1" using total_at [OF assms(3), of holds] o(2) by simp
  have "p \<notin> {Writer, Drain, Reader, Nested, Twice}" if "at t j p" "j \<noteq> i" for j p
    using total_at [OF that(1), of reads] total_two [OF that(1) assms(3) that(2), of holds] r h by auto
  moreover have "rw_word t = WRITER_FLAG" using o(3) r h by (simp add: word_unat_eq_iff WRITER_FLAG_def)
  ultimately show ?thesis by blast
qed

definition rw_idle :: "nat \<Rightarrow> rw_state" where
  "rw_idle n = \<lparr>rw_word = 0, rw_pcs = replicate n Idle\<rparr>"

lemma rw_idle_start: "n < 2 ^ 30 \<Longrightarrow> rw_start (rw_idle n)"
  by (auto simp: rw_start_def rw_idle_def)

subsection \<open>Progress\<close>

text \<open>From a free word each call gets its lock within three steps.\<close>

lemma rw_then: "rw_step s t \<Longrightarrow> rw_step\<^sup>*\<^sup>* t u \<Longrightarrow> rw_step\<^sup>*\<^sup>* s u"
  by (rule converse_rtranclp_into_rtranclp)

lemma free_write:
  assumes "at s i WriteTry" "rw_word s = 0"
  shows "\<exists>t. rw_step\<^sup>*\<^sup>* s t \<and> at t i Writer"
proof -
  let ?a = "move s i (rw_word s) WriteOr"
  let ?b = "move ?a i (rw_word ?a OR WRITER_FLAG) (if writer_in (rw_word ?a) then WriteTry else Drain)"
  let ?c = "move ?b i (rw_word ?b) Writer"
  have n: "\<not> writer_in 0" by (simp add: writer_in_def)
  have a: "rw_step s ?a" by (rule write_load) (use assms n in simp_all)
  have b: "rw_step ?a ?b" by (rule write_or) (use assms in \<open>simp add: at_move at_def\<close>)
  have c: "rw_step ?b ?c" by (rule write_enter) (use assms n in \<open>simp_all add: at_move at_def WRITER_FLAG_def READER_MASK_def\<close>)
  have "rw_step\<^sup>*\<^sup>* s ?c" by (rule rw_then [OF a rw_then [OF b rw_then [OF c rtranclp.rtrancl_refl]]])
  moreover have "at ?c i Writer" using assms(1) by (simp add: at_def)
  ultimately show ?thesis by blast
qed

lemma free_read:
  assumes "at s i ReadTry" "rw_word s = 0"
  shows "\<exists>t. rw_step\<^sup>*\<^sup>* s t \<and> at t i Reader"
proof -
  let ?a = "move s i (rw_word s) (ReadSwap (rw_word s))"
  let ?b = "move ?a i (rw_word ?a + 1) Reader"
  have a: "rw_step s ?a" by (rule read_load) (use assms in \<open>simp_all add: writer_in_def\<close>)
  have b: "rw_step ?a ?b" by (rule read_swap) (use assms in \<open>simp add: at_move at_def\<close>)
  have "rw_step\<^sup>*\<^sup>* s ?b" by (rule rw_then [OF a rw_then [OF b rtranclp.rtrancl_refl]])
  moreover have "at ?b i Reader" using assms(1) by (simp add: at_def)
  ultimately show ?thesis by blast
qed

definition no_nesting :: "rw_state \<Rightarrow> bool" where
  "no_nesting s \<longleftrightarrow> (\<forall>i v. \<not> at s i Nested \<and> \<not> at s i (NestedSwap v))"

lemma total_pos: "0 < total f s \<Longrightarrow> \<exists>i p. at s i p \<and> 0 < f p"
proof -
  have "0 < sum_list (map f xs) \<Longrightarrow> \<exists>x \<in> set xs. 0 < f x" for xs by (induction xs) auto
  moreover assume "0 < total f s"
  ultimately obtain x where x: "x \<in> set (rw_pcs s)" "0 < f x" by (auto simp: total_def)
  then obtain i where "i < length (rw_pcs s)" "rw_pcs s ! i = x" by (auto simp: in_set_conv_nth)
  with x(2) show ?thesis by (auto simp: at_def)
qed

text \<open>
  While someone holds the lock and no reader waits for a second read lock, a holder can give up a
  read lock, enter, or unlock; threads that wait stay where they are.
\<close>

definition keeps_waiting :: "rw_state \<Rightarrow> rw_state \<Rightarrow> bool" where
  "keeps_waiting s t \<longleftrightarrow> (\<forall>j. \<forall>p \<in> {ReadTry, WriteTry}. at s j p \<longrightarrow> at t j p)"

lemma release_step:
  assumes "rw_inv s" "no_nesting s" "rw_word s \<noteq> 0"
  shows "\<exists>t. rw_step\<^sup>+\<^sup>+ s t \<and> no_nesting t \<and> keeps_waiting s t \<and> total reads t + total holds t < total reads s + total holds s"
proof -
  note o = rw_invD [OF assms(1)]
  have one: "\<exists>t. rw_step\<^sup>+\<^sup>+ s t \<and> no_nesting t \<and> keeps_waiting s t \<and> total reads t + total holds t < total reads s + total holds s"
    if m: "rw_step\<^sup>+\<^sup>+ s (move s i w p)" and i: "at s i q" "q \<noteq> ReadTry" "q \<noteq> WriteTry" "reads p + holds p < reads q + holds q"
      "\<And>v. p \<noteq> Nested \<and> p \<noteq> NestedSwap v" for i w p q
  proof (intro exI conjI)
    show "no_nesting (move s i w p)" using assms(2) i(5) by (auto simp: no_nesting_def at_move)
    show "keeps_waiting s (move s i w p)" using i(1-3) by (auto simp: keeps_waiting_def at_def nth_list_update)
    show "total reads (move s i w p) + total holds (move s i w p) < total reads s + total holds s"
      using total_move [OF i(1), of reads w p] total_move [OF i(1), of holds w p] i(4) by simp
  qed (rule m)
  show ?thesis
  proof (cases "total reads s = 0")
    case False
    then obtain i p where p: "at s i p" "0 < reads p" using total_pos by blast
    then have "p = Reader \<or> p = Twice" using assms(2) by (cases p) (auto simp: no_nesting_def)
    then show ?thesis
    proof
      assume "p = Reader"
      with p(1) show ?thesis by (intro one [OF tranclp.r_into_trancl [of rw_step, OF read_unlock] p(1)]) simp_all
    next
      assume "p = Twice"
      with p(1) show ?thesis by (intro one [OF tranclp.r_into_trancl [of rw_step, OF nested_unlock] p(1)]) simp_all
    qed
  next
    case True
    have "0 < total holds s" using o(3) True assms(3) by (cases "total holds s") (auto simp: unat_eq_0)
    then obtain i p where p: "at s i p" "0 < holds p" using total_pos by blast
    then have "p = Writer \<or> p = Drain" by (auto simp: holds_def split: if_splits)
    then show ?thesis
    proof
      assume "p = Writer"
      with p(1) show ?thesis by (intro one [OF tranclp.r_into_trancl [of rw_step, OF write_unlock] p(1)]) simp_all
    next
      assume d: "p = Drain"
      let ?a = "move s i (rw_word s) Writer"
      have "total holds s = 1" using \<open>0 < total holds s\<close> o(2) by simp
      then have "unat (rw_word s AND READER_MASK) = 0" using o(3) True by (simp only: readers_unat) simp
      then have a: "rw_step s ?a" using p(1) d by (intro write_enter) (simp_all add: unat_eq_0)
      have b: "rw_step ?a (move ?a i (rw_word ?a AND NOT WRITER_FLAG) Idle)"
        by (rule write_unlock) (use p(1) in \<open>simp add: at_def\<close>)
      have "move ?a i (rw_word ?a AND NOT WRITER_FLAG) Idle = move s i (rw_word s AND NOT WRITER_FLAG) Idle" by (simp add: move_def)
      with a b have "rw_step\<^sup>+\<^sup>+ s (move s i (rw_word s AND NOT WRITER_FLAG) Idle)" by (metis tranclp.simps)
      from one [OF this p(1)] d show ?thesis by simp
    qed
  qed
qed

lemma release_all:
  "rw_inv s \<Longrightarrow> no_nesting s \<Longrightarrow> \<exists>t. rw_step\<^sup>*\<^sup>* s t \<and> rw_word t = 0 \<and> keeps_waiting s t"
proof (induction "total reads s + total holds s" arbitrary: s rule: less_induct)
  case less
  show ?case
  proof (cases "rw_word s = 0")
    case True
    then show ?thesis by (intro exI [of _ s]) (simp add: keeps_waiting_def)
  next
    case False
    from release_step [OF less.prems False] obtain t where t: "rw_step\<^sup>+\<^sup>+ s t" "no_nesting t" "keeps_waiting s t"
      "total reads t + total holds t < total reads s + total holds s" by blast
    from t(1) have st: "rw_step\<^sup>*\<^sup>* s t" by (rule tranclp_into_rtranclp)
    from less.hyps [OF t(4) wrert_lock.run_inv [OF st less.prems(1)] t(2)] obtain u where
      u: "rw_step\<^sup>*\<^sup>* t u" "rw_word u = 0" "keeps_waiting t u" by blast
    have "keeps_waiting s u" using t(3) u(3) by (simp add: keeps_waiting_def)
    with rtranclp_trans [OF st u(1)] u(2) show ?thesis by blast
  qed
qed

text \<open>
  C24.  As long as no reader is waiting for a second lock of the same pool slot, a thread that calls
  \<open>read_lock\<close> or \<open>write_lock\<close> can get it: from every state that threads can reach there is a run
  in which it does.
\<close>

theorem wrert_lock_progress:
  assumes "rw_start s" "rw_step\<^sup>*\<^sup>* s t" "no_nesting t" "at t i p" "p \<in> {ReadTry, WriteTry}"
  shows "\<exists>u. rw_step\<^sup>*\<^sup>* t u \<and> at u i (if p = ReadTry then Reader else Writer)"
proof -
  from release_all [OF wrert_lock.reachable_inv [OF assms(1,2)] assms(3)] obtain u where
    u: "rw_step\<^sup>*\<^sup>* t u" "rw_word u = 0" "keeps_waiting t u" by blast
  have "at u i p" using u(3) assms(4,5) by (auto simp: keeps_waiting_def)
  then have "\<exists>v. rw_step\<^sup>*\<^sup>* u v \<and> at v i (if p = ReadTry then Reader else Writer)"
    using free_read [OF _ u(2), of i] free_write [OF _ u(2), of i] assms(5) by auto
  then show ?thesis using u(1) by (meson rtranclp_trans)
qed

text \<open>Two threads, one that wants to read and one that wants to write, on a lock nobody has used.\<close>

definition two_waiting :: rw_state where
  "two_waiting = move (move (rw_idle 2) 0 0 ReadTry) 1 0 WriteTry"

lemma two_waiting_reached: "rw_step\<^sup>*\<^sup>* (rw_idle 2) two_waiting"
proof -
  have "rw_step (rw_idle 2) (move (rw_idle 2) 0 0 ReadTry)"
    using read_call [of "rw_idle 2" 0] by (simp add: rw_idle_def at_def)
  moreover have "rw_step (move (rw_idle 2) 0 0 ReadTry) two_waiting"
    using write_call [of "move (rw_idle 2) 0 0 ReadTry" 1] by (simp add: rw_idle_def at_def two_waiting_def)
  ultimately show ?thesis by (meson rw_then rtranclp.rtrancl_refl)
qed

lemma two_waiting_at [simp]: "at two_waiting 0 ReadTry" "at two_waiting 1 WriteTry" "at two_waiting (Suc 0) WriteTry"
  by (simp_all add: two_waiting_def rw_idle_def at_def)

lemma two_waiting_word: "rw_word two_waiting = 0"
  by (simp add: two_waiting_def)

lemma two_waiting_no_nesting: "no_nesting two_waiting"
proof -
  have "rw_pcs two_waiting = [ReadTry, WriteTry]" by (simp add: two_waiting_def rw_idle_def numeral_2_eq_2)
  then show ?thesis by (auto simp: no_nesting_def at_def nth_Cons' split: if_splits)
qed

theorem wrert_lock_progress_witness:
  "(\<exists>u. rw_step\<^sup>*\<^sup>* two_waiting u \<and> at u 0 Reader) \<and> (\<exists>u. rw_step\<^sup>*\<^sup>* two_waiting u \<and> at u 1 Writer)"
  using wrert_lock_progress [OF rw_idle_start two_waiting_reached two_waiting_no_nesting, of 0 ReadTry]
    wrert_lock_progress [OF rw_idle_start two_waiting_reached two_waiting_no_nesting, of 1 WriteTry] by simp

theorem wrert_lock_exclusive_witness:
  "\<exists>t. rw_step\<^sup>*\<^sup>* two_waiting t \<and> at t 1 Writer \<and> rw_word t = WRITER_FLAG \<and> \<not> at t 0 Reader"
proof -
  obtain t where t: "rw_step\<^sup>*\<^sup>* two_waiting t" "at t 1 Writer"
    using free_write [OF two_waiting_at(2)] by (auto simp: two_waiting_word)
  from wrert_lock_exclusive [OF rw_idle_start rtranclp_trans [OF two_waiting_reached t(1)] t(2)]
  have "rw_word t = WRITER_FLAG" "\<not> at t 0 Reader" by auto
  with t show ?thesis by blast
qed

subsection \<open>A deadlock\<close>

definition crossed :: rw_state where
  "crossed = \<lparr>rw_word = WRITER_FLAG + 1, rw_pcs = [Nested, Drain]\<rparr>"

lemma crossed_reached: "rw_step\<^sup>*\<^sup>* (rw_idle 2) crossed"
proof -
  let ?s = "\<lambda>w ps. \<lparr>rw_word = w, rw_pcs = ps\<rparr>"
  have p: "rw_idle 2 = ?s 0 [Idle, Idle]" by (simp add: rw_idle_def numeral_2_eq_2)
  have a: "rw_step (?s 0 [Idle, Idle]) (?s 0 [ReadTry, Idle])"
    using read_call [of "?s 0 [Idle, Idle]" 0] by (simp add: at_def move_def)
  have b: "rw_step (?s 0 [ReadTry, Idle]) (?s 0 [ReadSwap 0, Idle])"
    using read_load [of "?s 0 [ReadTry, Idle]" 0] by (simp add: at_def move_def writer_in_def)
  have c: "rw_step (?s 0 [ReadSwap 0, Idle]) (?s 1 [Reader, Idle])"
    using read_swap [of "?s 0 [ReadSwap 0, Idle]" 0] by (simp add: at_def move_def)
  have d: "rw_step (?s 1 [Reader, Idle]) (?s 1 [Reader, WriteTry])"
    using write_call [of "?s 1 [Reader, Idle]" 1] by (simp add: at_def move_def)
  have e: "rw_step (?s 1 [Reader, WriteTry]) (?s 1 [Reader, WriteOr])"
    using write_load [of "?s 1 [Reader, WriteTry]" 1] by (simp add: at_def move_def writer_in_def WRITER_FLAG_def)
  have f: "rw_step (?s 1 [Reader, WriteOr]) (?s (WRITER_FLAG + 1) [Reader, Drain])"
    using write_or [of "?s 1 [Reader, WriteOr]" 1] by (simp add: at_def move_def writer_in_def WRITER_FLAG_def)
  have g: "rw_step (?s (WRITER_FLAG + 1) [Reader, Drain]) crossed"
    using nested_call [of "?s (WRITER_FLAG + 1) [Reader, Drain]" 0] by (simp add: at_def move_def crossed_def)
  show ?thesis unfolding p
    by (rule rw_then [OF a rw_then [OF b rw_then [OF c rw_then [OF d rw_then [OF e rw_then [OF f rw_then [OF g rtranclp.rtrancl_refl]]]]]]])
qed

lemma crossed_at: "at crossed i p \<Longrightarrow> i = 0 \<and> p = Nested \<or> i = 1 \<and> p = Drain"
  by (auto simp: at_def crossed_def less_Suc_eq)

text \<open>
  C25.  Two directories can share a lock of the pool.  A reader that goes from one to the other while
  a writer waits for it never gets there: the reader spins on the writer flag, the writer spins
  on the reader count, and no step of either changes anything any more.
\<close>

theorem wrert_lock_deadlock:
  "hash_ptr 0x7f0000000080 = hash_ptr 0x7f0000321400 \<and>
   rw_step\<^sup>*\<^sup>* (rw_idle 2) crossed \<and> at crossed 0 Nested \<and> at crossed 1 Drain \<and> (\<nexists>t. rw_step crossed t)"
proof (intro conjI)
  show "hash_ptr 0x7f0000000080 = hash_ptr 0x7f0000321400" by (simp add: hash_ptr_def)
  have w: "writer_in (rw_word crossed)" "rw_word crossed AND READER_MASK \<noteq> 0"
    by (simp_all add: crossed_def writer_in_def WRITER_FLAG_def READER_MASK_def)
  show "\<nexists>t. rw_step crossed t"
  proof
    assume "\<exists>t. rw_step crossed t"
    then obtain t where "rw_step crossed t" ..
    then show False by (cases rule: rw_step.cases) (use w in \<open>auto dest: crossed_at\<close>)
  qed
qed (rule crossed_reached, simp_all add: at_def crossed_def)

end
