(* ===== verification/Ert_Node.thy ===== *)
theory Ert_Node
  imports Prelude
begin

text \<open>
  The hash node of \<^verbatim>\<open>ert/ERT_node_int.cpp\<close> and \<^verbatim>\<open>ert/ERT_node_int.h\<close>: an extendible hash table
  over 32-bit sub-keys.  A directory of \<open>2 ^ global_depth\<close> entries points to segments of 256
  buckets with 4 slots; the low byte of a sub-key selects the bucket, its top bits the entry.
  A split copies slots to a new segment and leaves them where they were as well: a slot whose
  top bits are not those of its segment counts as free.

  Nodes, segments and pairs are shared through pointers and kept in stores; a pointer is an
  index.  The value of a slot is a 64-bit word, which is a value, a pointer to a pair or a
  pointer to a node.  Memory fresh from the allocator is zero.
\<close>

subsection \<open>Macros\<close>

definition GET_SUBKEY :: "u64 \<Rightarrow> nat \<Rightarrow> nat \<Rightarrow> u64 res" where
  "GET_SUBKEY key start len =
     (if start + len > 64 \<or> start + len = 0 \<or> len \<ge> 64 then Inl BadShift
      else Inr (drop_bit (64 - start - len) key AND mask len))"

definition GET_SEG_NUM :: "u64 \<Rightarrow> nat \<Rightarrow> nat" where
  "GET_SEG_NUM k depth = unat (drop_bit (32 - depth) k AND mask depth)"

definition GET_BUCKET_NUM :: "u64 \<Rightarrow> nat" where
  "GET_BUCKET_NUM k = unat (k AND mask 8)"

definition REMOVE_NODE_FLAG :: "u64 \<Rightarrow> u64" where
  "REMOVE_NODE_FLAG k = k AND mask 56"

definition PUT_KEY_VALUE_FLAG :: "u64 \<Rightarrow> u64" where
  "PUT_KEY_VALUE_FLAG k = k OR push_bit 56 1"

definition GET_NODE_FLAG :: "u64 \<Rightarrow> bool" where
  "GET_NODE_FLAG k \<longleftrightarrow> drop_bit 56 k \<noteq> 0"

subsection \<open>Slots, segments and nodes\<close>

datatype ert_value = Plain u64 | PairPtr nat | NodePtr nat

record ert_slot =
  subkey :: u64
  val :: ert_value

record ert_segment =
  depth :: nat
  bucket :: "ert_slot list list"

record ert_header =
  len :: nat
  hdepth :: nat
  array :: "u8 list"

text \<open>
  \<open>treeNodeValues\<close> points to a block for two pairs.  The allocator rounds the block up to a cache
  line, which has room for four.
\<close>

record ert_node =
  header :: ert_header
  global_depth :: nat
  dir :: "nat list"
  treeNodeValues :: "(u64 \<times> u64) list option"

record ert =
  root :: nat
  nodes :: "ert_node list"
  segs :: "ert_segment list"
  pairs :: "(u64 \<times> u64) list"

definition empty_slot :: ert_slot where
  "empty_slot = \<lparr>subkey = 0, val = Plain 0\<rparr>"

definition NewERTIntSegment :: "nat \<Rightarrow> ert_segment" where
  "NewERTIntSegment d = \<lparr>depth = d, bucket = replicate 256 (replicate 4 empty_slot)\<rparr>"

text \<open>A new node and the segments of its directory.\<close>

definition NewERTIntNode :: "ert \<Rightarrow> nat \<Rightarrow> nat \<Rightarrow> ert \<times> nat" where
  "NewERTIntNode st headerDepth globalDepth =
     (let n = \<lparr>header = \<lparr>len = 7, hdepth = headerDepth mod 256, array = replicate 6 0\<rparr>, global_depth = globalDepth,
               dir = [length (segs st)..<length (segs st) + 2 ^ globalDepth],
               treeNodeValues = Some (replicate 4 (0, 0))\<rparr>
      in (st\<lparr>nodes := nodes st @ [n], segs := segs st @ replicate (2 ^ globalDepth) (NewERTIntSegment globalDepth)\<rparr>,
          length (nodes st)))"

subsection \<open>Headers\<close>

definition key_byte :: "u64 \<Rightarrow> nat \<Rightarrow> u8" where
  "key_byte w i = ucast (drop_bit (56 - i * 8) w AND 0xFF)"

definition computePrefix :: "ert_header \<Rightarrow> u64 \<Rightarrow> nat \<Rightarrow> nat res" where
  "computePrefix h key startPos =
     (if len h = 0 then Inr 0
      else (case GET_SUBKEY key startPos 32 of
              Inl e \<Rightarrow> Inl e
            | Inr s \<Rightarrow>
                Inr (length (takeWhile (\<lambda>i. key_byte (push_bit 32 s) i = array h ! i)
                  [0..<(if len h mod 4 = 0 then len h else len h div 4)]))))"

definition assign :: "ert_header \<Rightarrow> u64 \<Rightarrow> nat \<Rightarrow> ert_header res" where
  "assign h key startPos =
     (case GET_SUBKEY key (startPos * 8) (len h * 8) of
        Inl e \<Rightarrow> Inl e
      | Inr s \<Rightarrow>
          if len h > 6 then Inl BadShift
          else Inr (h\<lparr>array := map (\<lambda>i. ucast (drop_bit ((5 - i) * 8) (push_bit (48 - len h * 8) s) AND 0xFF)) [0..<6]\<rparr>))"

definition header_init :: "ert_header \<Rightarrow> ert_header \<Rightarrow> nat \<Rightarrow> nat \<Rightarrow> ert_header" where
  "header_init h old length' d = h\<lparr>array := take length' (array old) @ drop length' (array h), hdepth := d, len := length'\<rparr>"

subsection \<open>Buckets\<close>

definition bucket_get :: "ert_slot list \<Rightarrow> u64 \<Rightarrow> (ert_value \<times> bool) option" where
  "bucket_get b key =
     (case find_index (\<lambda>s. key = REMOVE_NODE_FLAG (subkey s)) b of
        None \<Rightarrow> None
      | Some i \<Rightarrow> Some (val (b ! i), GET_NODE_FLAG (subkey (b ! i))))"

definition free_slot :: "u64 \<Rightarrow> nat \<Rightarrow> ert_slot \<Rightarrow> bool" where
  "free_slot key d s \<longleftrightarrow>
     (REMOVE_NODE_FLAG (subkey s) = 0 \<and> val s = Plain 0) \<or>
     GET_SEG_NUM key d \<noteq> GET_SEG_NUM (REMOVE_NODE_FLAG (subkey s)) d"

definition findPlace :: "ert_slot list \<Rightarrow> u64 \<Rightarrow> nat \<Rightarrow> nat option" where
  "findPlace b key d =
     (case find_index (\<lambda>s. key = REMOVE_NODE_FLAG (subkey s)) b of
        Some i \<Rightarrow> Some i
      | None \<Rightarrow> find_index (free_slot key d) b)"

subsection \<open>Reading a node\<close>

definition seg_of :: "ert_node \<Rightarrow> u64 \<Rightarrow> nat" where
  "seg_of n k = dir n ! GET_SEG_NUM k (global_depth n)"

definition node_bucket :: "ert \<Rightarrow> nat \<Rightarrow> u64 \<Rightarrow> ert_slot list" where
  "node_bucket st c k = bucket (segs st ! seg_of (nodes st ! c) k) ! GET_BUCKET_NUM k"

definition node_get :: "ert \<Rightarrow> nat \<Rightarrow> u64 \<Rightarrow> (ert_value \<times> bool) option" where
  "node_get st c k = bucket_get (node_bucket st c k) k"

subsection \<open>Insertion into a node\<close>

text \<open>Where the pointer to the current node is: the root, a local variable, or the value of a slot.\<close>

datatype before_address = RootPtr | LocalPtr | SlotPtr nat nat nat

definition set_slot :: "ert \<Rightarrow> nat \<Rightarrow> nat \<Rightarrow> nat \<Rightarrow> ert_slot \<Rightarrow> ert" where
  "set_slot st g b i x =
     st\<lparr>segs := (segs st)[g := (segs st ! g)\<lparr>bucket := (bucket (segs st ! g))[b := (bucket (segs st ! g) ! b)[i := x]]\<rparr>]\<rparr>"

text \<open>
  \<open>beforeAddress\<close> is the address of a pointer when the header depth is 0, and is used as the
  address of a slot otherwise.  The caller passes the address of the slot's value, so that
  the store hits the word behind it, the sub-key of the next slot.  \<open>addr\<close> gives the address at
  which a node is; it is the allocator's choice.
\<close>

definition link :: "(nat \<Rightarrow> u64) \<Rightarrow> ert \<Rightarrow> before_address \<Rightarrow> nat \<Rightarrow> nat \<Rightarrow> ert res" where
  "link addr st beforeAddress hdep c =
     (case beforeAddress of
        RootPtr \<Rightarrow> if hdep = 0 then Inr (st\<lparr>root := c\<rparr>) else Inl WildAccess
      | LocalPtr \<Rightarrow> if hdep = 0 then Inr st else Inl WildAccess
      | SlotPtr g b i \<Rightarrow>
          if hdep = 0 then Inr (set_slot st g b i ((bucket (segs st ! g) ! b ! i)\<lparr>val := NodePtr c\<rparr>))
          else let (b', i') = (if i < 3 then (b, i + 1) else (b + 1, 0))
               in if b' < 256 then Inr (set_slot st g b' i' ((bucket (segs st ! g) ! b' ! i')\<lparr>subkey := addr c\<rparr>))
                  else Inl OutOfBounds)"

text \<open>The slots of a bucket that move to the new segment, compacted.\<close>

definition migrate :: "nat \<Rightarrow> nat \<Rightarrow> ert_slot list \<Rightarrow> ert_slot list" where
  "migrate gd mid b =
     (let moved = filter (\<lambda>s. mid \<le> GET_SEG_NUM (REMOVE_NODE_FLAG (subkey s)) gd) b
      in moved @ replicate (4 - length moved) empty_slot)"

definition split_segment :: "ert \<Rightarrow> nat \<Rightarrow> nat \<Rightarrow> ert" where
  "split_segment st c dir_index =
     (let n = nodes st ! c; g = dir n ! dir_index; sg = segs st ! g;
          stride = 2 ^ (global_depth n - depth sg);
          left = dir_index - dir_index mod stride; mid = left + stride div 2; right = left + stride;
          new_seg = (NewERTIntSegment (depth sg + 1))\<lparr>bucket := map (migrate (global_depth n) mid) (bucket sg)\<rparr>
      in st\<lparr>nodes := (nodes st)[c := n\<lparr>dir := map (\<lambda>i. if mid \<le> i \<and> i < right then length (segs st) else dir n ! i)
                                           [0..<length (dir n)]\<rparr>],
            segs := (segs st)[g := sg\<lparr>depth := depth sg + 1\<rparr>] @ [new_seg]\<rparr>)"

text \<open>The new node of a doubled directory; its \<open>treeNodeValues\<close> is never set.\<close>

definition double_directory :: "ert_node \<Rightarrow> ert_node" where
  "double_directory n =
     \<lparr>header = header_init \<lparr>len = 0, hdepth = 0, array = replicate 6 0\<rparr> (header n) (len (header n)) (hdepth (header n)),
      global_depth = global_depth n + 1, dir = map (\<lambda>i. dir n ! (i div 2)) [0..<2 * length (dir n)], treeNodeValues = None\<rparr>"

definition store_slot :: "ert_slot \<Rightarrow> u64 \<Rightarrow> ert_value \<Rightarrow> bool \<Rightarrow> ert_slot" where
  "store_slot s k v kv =
     (if subkey s = k \<and> k \<noteq> 0 then s\<lparr>val := v\<rparr>
      else \<lparr>subkey = (if kv then PUT_KEY_VALUE_FLAG k else REMOVE_NODE_FLAG k), val = v\<rparr>)"

text \<open>\<open>ERTIntNode::put\<close>.  The result is the state and the node that the recursion ended in.\<close>

fun put :: "nat \<Rightarrow> (nat \<Rightarrow> u64) \<Rightarrow> ert \<Rightarrow> nat \<Rightarrow> u64 \<Rightarrow> ert_value \<Rightarrow> bool \<Rightarrow> before_address \<Rightarrow> (ert \<times> nat) res" where
  "put 0 addr st c k v kv beforeAddress = Inl OutOfFuel"
| "put (Suc fuel) addr st c k v kv beforeAddress =
     (let n = nodes st ! c; g = seg_of n k; b = GET_BUCKET_NUM k
      in case findPlace (node_bucket st c k) k (depth (segs st ! g)) of
           Some i \<Rightarrow> Inr (set_slot st g b i (store_slot (bucket (segs st ! g) ! b ! i) k v kv), c)
         | None \<Rightarrow>
             if depth (segs st ! g) < global_depth n
             then put fuel addr (split_segment st c (GET_SEG_NUM k (global_depth n))) c k v kv beforeAddress
             else let c' = length (nodes st); n' = double_directory n
                  in case link addr (st\<lparr>nodes := nodes st @ [n']\<rparr>) beforeAddress (hdepth (header n')) c' of
                       Inl e \<Rightarrow> Inl e
                     | Inr st' \<Rightarrow> put fuel addr st' c' k v kv beforeAddress)"

definition put_fuel :: nat where "put_fuel = 64"

end
