(* ===== verification/Ert.thy ===== *)
theory Ert
  imports Ert_Node
begin

text \<open>
  The tree of \<^verbatim>\<open>ert/ERT_int.cpp\<close>: keys of 8 bytes are consumed 4 bytes at a time.  The root may
  skip a 4-byte prefix; other nodes store a prefix length but never use it.
\<close>

definition NewExtendibleRadixTreeInt :: ert where
  "NewExtendibleRadixTreeInt = fst (NewERTIntNode \<lparr>root = 0, nodes = [], segs = [], pairs = []\<rparr> 0 0)"

subsection \<open>Search\<close>

text \<open>Comparing \<open>n\<close> bytes of a prefix; the array has 6.\<close>

definition isSame :: "u8 list \<Rightarrow> u64 \<Rightarrow> nat \<Rightarrow> nat \<Rightarrow> bool res" where
  "isSame a key2 pos n =
     (case GET_SUBKEY key2 pos (n * 8) of
        Inl e \<Rightarrow> Inl e
      | Inr s \<Rightarrow>
          let m = length (takeWhile (\<lambda>i. key_byte (push_bit (64 - n * 8) s) i = a ! i) [0..<min n 6])
          in if m < min n 6 then Inr False else if n \<le> 6 then Inr True else Inl OutOfBounds)"

definition read_pair :: "ert \<Rightarrow> ert_value \<Rightarrow> (u64 \<times> u64) res" where
  "read_pair st v =
     (case v of PairPtr i \<Rightarrow> Inr (pairs st ! i) | NodePtr _ \<Rightarrow> Inl WildAccess
      | Plain w \<Rightarrow> if w = 0 then Inl NullDeref else Inl WildAccess)"

definition read_node :: "ert_value \<Rightarrow> nat res" where
  "read_node v =
     (case v of NodePtr c \<Rightarrow> Inr c | PairPtr _ \<Rightarrow> Inl WildAccess
      | Plain w \<Rightarrow> if w = 0 then Inl NullDeref else Inl WildAccess)"

definition plain :: "ert_value \<Rightarrow> u64 res" where
  "plain v = (case v of Plain w \<Rightarrow> Inr w | _ \<Rightarrow> Inl WildAccess)"

text \<open>
  The prefix of a node: \<open>Inr (Inl r)\<close> is an early return of \<open>r\<close>, \<open>Inr (Inr pos)\<close> the position
  behind it.  Past 8 bytes the code indexes \<open>treeNodeValues\<close> with the key's length in bits
  subtracted from one in bytes, which is negative.
\<close>

definition skip_prefix :: "ert_header \<Rightarrow> u64 \<Rightarrow> nat \<Rightarrow> (u64 + nat) res" where
  "skip_prefix h key pos =
     (if len h div 4 = 0 then Inr (Inr pos)
      else if 8 - int pos \<le> int (len h) then Inl OutOfBounds
      else (case isSame (array h) key (pos * 8) (len h) of
              Inl e \<Rightarrow> Inl e
            | Inr same \<Rightarrow> if same then Inr (Inr (pos + len h)) else Inr (Inl 0)))"

lemma skip_prefix_le: "skip_prefix h key pos = Inr (Inr p) \<Longrightarrow> pos \<le> p"
  by (auto simp: skip_prefix_def split: if_splits sum.splits)

function search_at :: "ert \<Rightarrow> nat \<Rightarrow> nat \<Rightarrow> u64 \<Rightarrow> u64 res" where
  "search_at st c pos key =
     (if 8 \<le> pos then Inr 0
      else (case skip_prefix (header (nodes st ! c)) key pos of
              Inl e \<Rightarrow> Inl e
            | Inr (Inl r) \<Rightarrow> Inr r
            | Inr (Inr p) \<Rightarrow>
                (case GET_SUBKEY key (p * 8) 32 of
                   Inl e \<Rightarrow> Inl e
                 | Inr k \<Rightarrow>
                     (case node_get st c k of
                        None \<Rightarrow> Inr (- 1)
                      | Some (next, kv) \<Rightarrow>
                          if next = Plain (- 1) then Inr (- 1)
                          else if kv
                          then if p + 4 = 8 then plain next
                               else (case read_pair st next of
                                       Inl e \<Rightarrow> Inl e
                                     | Inr (a, v) \<Rightarrow> if key = a then Inr v else Inr 0)
                          else if 8 \<le> p + 4 then Inr 0
                          else (case read_node next of Inl e \<Rightarrow> Inl e | Inr d \<Rightarrow> search_at st d (p + 4) key)))))"
  by pat_completeness auto
termination
  by (relation "measure (\<lambda>(st, c, pos, key). 8 - pos)") (auto dest: skip_prefix_le)

declare search_at.simps [simp del]

definition Search :: "ert \<Rightarrow> u64 \<Rightarrow> u64 res" where
  "Search st key = search_at st (root st) 0 key"

subsection \<open>Insertion\<close>

text \<open>The slot of a bucket with a sub-key, 4 if there is none, and what it holds.\<close>

definition slot_index :: "ert_slot list \<Rightarrow> u64 \<Rightarrow> nat" where
  "slot_index b k = (case find_index (\<lambda>s. k = REMOVE_NODE_FLAG (subkey s)) b of None \<Rightarrow> 4 | Some i \<Rightarrow> i)"

definition next_value :: "ert_slot list \<Rightarrow> u64 \<Rightarrow> ert_value" where
  "next_value b k = (if slot_index b k < 4 then val (b ! slot_index b k) else Plain 0)"

text \<open>
  Four bytes of the prefix from \<open>m\<close>, read as a little-endian integer.  Behind the prefix array
  comes \<open>global_depth\<close>.
\<close>

definition GET_32BITS :: "ert_node \<Rightarrow> nat \<Rightarrow> u64" where
  "GET_32BITS n m =
     (let a = array (header n) @ [of_nat (global_depth n)]
      in ucast (a ! m) OR push_bit 8 (ucast (a ! (m + 1))) OR push_bit 16 (ucast (a ! (m + 2))) OR push_bit 24 (ucast (a ! (m + 3))))"

text \<open>
  The loop that copies \<open>treeNodeValues\<close> reads one pair behind its block, which is the \<open>junk\<close> of
  the next allocation.
\<close>

definition copy_values :: "(u64 \<times> u64) \<Rightarrow> nat \<Rightarrow> nat \<Rightarrow> (u64 \<times> u64) list option \<Rightarrow> (u64 \<times> u64) list \<Rightarrow> (u64 \<times> u64) list res" where
  "copy_values junk l m old new =
     (case old of
        None \<Rightarrow> Inl NullDeref
      | Some vs \<Rightarrow> Inr (fold (\<lambda>j ws. ws[j + m - l := (vs @ [junk]) ! j]) [l - m..<l + 1] new))"

text \<open>Shortening the header of the node below a new one.\<close>

definition shorten :: "ert_header \<Rightarrow> nat \<Rightarrow> nat \<Rightarrow> ert_header" where
  "shorten h m newdepth =
     h\<lparr>hdepth := (newdepth + m div 4 + 1) mod 256,
       len := nat ((int (len h) - int (m + newdepth + 1)) mod 256),
       array := map (\<lambda>i. if i < 6 - m then array h ! (i + m) else array h ! i) [0..<6]\<rparr>"

text \<open>A prefix that does not match: a new node takes the pair and the current node.\<close>

definition split_prefix ::
  "(nat \<Rightarrow> u64) \<Rightarrow> (u64 \<times> u64) \<Rightarrow> ert \<Rightarrow> nat \<Rightarrow> nat \<Rightarrow> nat \<Rightarrow> u64 \<Rightarrow> u64 \<Rightarrow> before_address \<Rightarrow> nat \<Rightarrow> ert res" where
  "split_prefix addr junk st c pos m key value beforeAddress headerDepth =
     (let h = header (nodes st ! c);
          (st1, c1) = NewERTIntNode st headerDepth 0;
          n1 = nodes st1 ! c1
      in case copy_values junk (len h) m (treeNodeValues (nodes st ! c)) (the (treeNodeValues n1)) of
           Inl e \<Rightarrow> Inl e
         | Inr vs \<Rightarrow>
             (case GET_SUBKEY key (if pos + m mod 4 \<noteq> 0 then 0 else m) 32 of
                Inl e \<Rightarrow> Inl e
              | Inr k \<Rightarrow>
                  let st2 = st1\<lparr>nodes := (nodes st1)[c1 := n1\<lparr>header := header_init (header n1) h m (hdepth h),
                                                              treeNodeValues := Some vs\<rparr>],
                                pairs := pairs st1 @ [(key, value)]\<rparr>
                  in case put put_fuel addr st2 c1 k (PairPtr (length (pairs st1))) True LocalPtr of
                       Inl e \<Rightarrow> Inl e
                     | Inr (st3, c3) \<Rightarrow>
                         (case put put_fuel addr st3 c3 (GET_32BITS (nodes st3 ! c) m) (NodePtr c) False LocalPtr of
                            Inl e \<Rightarrow> Inl e
                          | Inr (st4, c4) \<Rightarrow>
                              let h4 = header (nodes st4 ! c4); n = nodes st4 ! c;
                                  st5 = st4\<lparr>nodes := (nodes st4)[c := n\<lparr>header :=
                                          shorten (header n) m (hdepth h4)\<rparr>]\<rparr>
                              in link addr st5 beforeAddress (hdepth h4) c4)))"

text \<open>
  One turn of the loop of \<open>Insert\<close>: it returns, goes on at a node, or makes a child for two
  pairs whose keys agree so far.
\<close>

datatype turn =
    Done ert
  | GoOn ert nat nat before_address nat
  | NewChild ert nat nat nat nat nat "u64 \<times> u64"

definition in_bucket :: "(nat \<Rightarrow> u64) \<Rightarrow> ert \<Rightarrow> nat \<Rightarrow> nat \<Rightarrow> u64 \<Rightarrow> u64 \<Rightarrow> u64 \<Rightarrow> before_address \<Rightarrow> nat \<Rightarrow> turn res" where
  "in_bucket addr st c pos k key value beforeAddress headerDepth =
     (let g = seg_of (nodes st ! c) k; b = GET_BUCKET_NUM k; bk = node_bucket st c k;
          next = next_value bk k; i = slot_index bk k
      in if pos = 8 then
           if next = Plain 0 then map_sum id (Done \<circ> fst) (put put_fuel addr st c k (Plain value) True beforeAddress)
           else Inr (Done (set_slot st g b i ((bk ! i)\<lparr>val := Plain value\<rparr>)))
         else if next = Plain 0 then
           map_sum id (Done \<circ> fst) (put put_fuel addr (st\<lparr>pairs := pairs st @ [(key, value)]\<rparr>) c k
             (PairPtr (length (pairs st))) True beforeAddress)
         else if GET_NODE_FLAG (subkey (bk ! i)) then
           (case next of
              PairPtr q \<Rightarrow>
                let (prekey, prevalue) = pairs st ! q
                in if key = prekey then Inr (Done (st\<lparr>pairs := (pairs st)[q := (prekey, value)]\<rparr>))
                   else let (st1, c1) = NewERTIntNode st (headerDepth + 1) 0
                        in Inr (NewChild st1 c1 pos g b i (prekey, prevalue))
            | _ \<Rightarrow> Inl WildAccess)
         else (case read_node next of
                 Inl e \<Rightarrow> Inl e
               | Inr d \<Rightarrow> Inr (GoOn st d pos (SlotPtr g b i) (hdepth (header (nodes st ! d))))))"

definition insert_turn ::
  "(nat \<Rightarrow> u64) \<Rightarrow> (u64 \<times> u64) \<Rightarrow> ert \<Rightarrow> nat \<Rightarrow> nat \<Rightarrow> u64 \<Rightarrow> u64 \<Rightarrow> before_address \<Rightarrow> nat \<Rightarrow> turn res" where
  "insert_turn addr junk st c pos key value beforeAddress headerDepth =
     (let n = nodes st ! c; h = header n
      in if len h > 6
         then (case assign (h\<lparr>len := if pos = 0 then 4 else 0\<rparr>) key pos of
                 Inl e \<Rightarrow> Inl e
               | Inr h' \<Rightarrow> Inr (GoOn (st\<lparr>nodes := (nodes st)[c := n\<lparr>header := h'\<rparr>]\<rparr>) c pos beforeAddress headerDepth))
         else (case computePrefix h key (pos * 8) of
                 Inl e \<Rightarrow> Inl e
               | Inr m \<Rightarrow>
                   if pos + m = 8 then
                     (case treeNodeValues n of
                        None \<Rightarrow> Inl NullDeref
                      | Some vs \<Rightarrow>
                          if m \<le> len h \<and> len h - m < 2
                          then Inr (Done (st\<lparr>nodes := (nodes st)[c := n\<lparr>treeNodeValues := Some (vs[len h - m := (key, value)])\<rparr>]\<rparr>))
                          else Inl OutOfBounds)
                   else if m div 4 \<noteq> len h div 4
                   then map_sum id Done (split_prefix addr junk st c pos m key value beforeAddress headerDepth)
                   else let p = pos + (if len h mod 4 = 0 then len h else len h div 4)
                        in case GET_SUBKEY key (p * 8) 32 of
                             Inl e \<Rightarrow> Inl e
                           | Inr k \<Rightarrow> in_bucket addr st c (p + 4) k key value beforeAddress headerDepth))"

fun insert_at ::
  "nat \<Rightarrow> (nat \<Rightarrow> u64) \<Rightarrow> (u64 \<times> u64) \<Rightarrow> ert \<Rightarrow> nat \<Rightarrow> nat \<Rightarrow> u64 \<Rightarrow> u64 \<Rightarrow> before_address \<Rightarrow> nat \<Rightarrow> ert res" where
  "insert_at 0 addr junk st c pos key value beforeAddress headerDepth = Inl OutOfFuel"
| "insert_at (Suc fuel) addr junk st c pos key value beforeAddress headerDepth =
     (if 8 \<le> pos then Inr st
      else (case insert_turn addr junk st c pos key value beforeAddress headerDepth of
              Inl e \<Rightarrow> Inl e
            | Inr (Done st') \<Rightarrow> Inr st'
            | Inr (GoOn st' c' pos' beforeAddress' d) \<Rightarrow> insert_at fuel addr junk st' c' pos' key value beforeAddress' d
            | Inr (NewChild st1 c1 pos' g b i kv) \<Rightarrow>
                (case insert_at fuel addr junk st1 c1 pos' (fst kv) (snd kv) RootPtr (hdepth (header (nodes st1 ! c1))) of
                   Inl e \<Rightarrow> Inl e
                 | Inr st2 \<Rightarrow>
                     (case insert_at fuel addr junk st2 c1 pos' key value RootPtr (hdepth (header (nodes st2 ! c1))) of
                        Inl e \<Rightarrow> Inl e
                      | Inr st3 \<Rightarrow>
                          let x = bucket (segs st3 ! g) ! b ! i
                          in Inr (set_slot st3 g b i \<lparr>subkey = REMOVE_NODE_FLAG (subkey x), val = NodePtr c1\<rparr>)))))"

definition insert_fuel :: nat where "insert_fuel = 8"

definition Insert :: "(nat \<Rightarrow> u64) \<Rightarrow> (u64 \<times> u64) \<Rightarrow> ert \<Rightarrow> u64 \<Rightarrow> u64 \<Rightarrow> ert res" where
  "Insert addr junk st key value =
     insert_at insert_fuel addr junk st (root st) 0 key value RootPtr (hdepth (header (nodes st ! root st)))"

end
