(* ===== verification/Ert_Map.thy ===== *)
theory Ert_Map
  imports Ert_Node
begin

text \<open>
  A node of ERT that holds values as a map from sub-keys: what a bucket, a segment and a
  directory look like, what splits do to them, and that \<open>put\<close> updates the map at one key.
\<close>

subsection \<open>Sub-keys\<close>

definition sub32 :: "u64 \<Rightarrow> bool" where
  "sub32 k \<longleftrightarrow> unat k < 2 ^ 32"

lemma sub32_bit: "sub32 k \<Longrightarrow> bit k n \<Longrightarrow> n < 32"
proof -
  assume "sub32 k" "bit k n"
  then have "unat (k AND mask 32) = unat k" unfolding unat_and_mask by (simp add: sub32_def)
  then have "k AND mask 32 = k" by (simp add: word_unat_eq_iff)
  with \<open>bit k n\<close> show "n < 32" by (metis bit_and_iff bit_mask_iff)
qed

lemma sub32_0 [simp]: "sub32 0"
  by (simp add: sub32_def)

lemma seg_num: "sub32 k \<Longrightarrow> d \<le> 32 \<Longrightarrow> GET_SEG_NUM k d = unat k div 2 ^ (32 - d)"
proof -
  assume a: "sub32 k" "d \<le> 32"
  have "(2 :: nat) ^ 32 = 2 ^ (32 - d) * 2 ^ d" using a(2) by (simp flip: power_add)
  then have "unat k div 2 ^ (32 - d) < 2 ^ d" using a(1) by (intro less_mult_imp_div_less) (simp add: sub32_def mult.commute)
  then show ?thesis by (simp add: GET_SEG_NUM_def unat_drop_bit_mask)
qed

lemma seg_num_less: "GET_SEG_NUM k d < 2 ^ d"
  by (simp add: GET_SEG_NUM_def unat_and_mask)

lemma seg_num_div: "sub32 k \<Longrightarrow> d \<le> e \<Longrightarrow> e \<le> 32 \<Longrightarrow> GET_SEG_NUM k e div 2 ^ (e - d) = GET_SEG_NUM k d"
  by (simp add: seg_num flip: div_mult2_eq power_add)

lemma seg_num_0 [simp]: "GET_SEG_NUM k 0 = 0"
  using seg_num_less [of k 0] by simp

lemma seg_num_zero [simp]: "GET_SEG_NUM 0 d = 0"
  by (simp add: GET_SEG_NUM_def)

lemma bucket_num: "GET_BUCKET_NUM k = unat k mod 256"
  by (simp add: GET_BUCKET_NUM_def unat_and_mask)

lemma bucket_num_less: "GET_BUCKET_NUM k < 256"
  by (simp add: bucket_num)

lemma put_bit: "bit (PUT_KEY_VALUE_FLAG k) n \<longleftrightarrow> bit k n \<or> n = 56"
  unfolding PUT_KEY_VALUE_FLAG_def bit_or_iff bit_push_bit_iff by (auto simp: bit_1_iff)

lemma remove_put [simp]: "sub32 k \<Longrightarrow> REMOVE_NODE_FLAG (PUT_KEY_VALUE_FLAG k) = k"
  unfolding REMOVE_NODE_FLAG_def
  by (rule bit_eqI) (auto simp: bit_and_iff bit_mask_iff put_bit dest: sub32_bit)

lemma remove_0 [simp]: "REMOVE_NODE_FLAG 0 = 0"
  by (simp add: REMOVE_NODE_FLAG_def)

lemma remove_sub [simp]: "sub32 k \<Longrightarrow> REMOVE_NODE_FLAG k = k"
  unfolding REMOVE_NODE_FLAG_def by (rule bit_eqI) (auto simp: bit_simps dest: sub32_bit)

lemma flag_put [simp]: "GET_NODE_FLAG (PUT_KEY_VALUE_FLAG k)"
proof -
  have "bit (drop_bit 56 (PUT_KEY_VALUE_FLAG k)) 0" by (simp add: put_bit bit_drop_bit_eq)
  then show ?thesis by (auto simp: GET_NODE_FLAG_def)
qed

lemma flag_sub [simp]: "sub32 k \<Longrightarrow> \<not> GET_NODE_FLAG k"
proof -
  assume "sub32 k"
  then have "drop_bit 56 k = 0" by (intro bit_eqI) (auto simp: bit_simps dest: sub32_bit)
  then show ?thesis by (simp add: GET_NODE_FLAG_def)
qed

lemma put_flag_ne: "sub32 k \<Longrightarrow> sub32 j \<Longrightarrow> PUT_KEY_VALUE_FLAG j \<noteq> k"
  using flag_put [of j] flag_sub [of k] by metis

text \<open>Sub-keys that agree in their low byte and top bits.\<close>

lemma agree_bound:
  assumes "finite A" "\<And>k. k \<in> A \<Longrightarrow> sub32 k \<and> GET_BUCKET_NUM k = b \<and> GET_SEG_NUM k d = t" "d \<le> 24"
  shows "card A \<le> 2 ^ (24 - d)"
proof -
  let ?f = "\<lambda>k. unat k div 256 mod 2 ^ (24 - d)"
  have "inj_on ?f A"
  proof (rule inj_onI)
    fix j k assume jk: "j \<in> A" "k \<in> A" "?f j = ?f k"
    have s: "unat x div 256 div 2 ^ (24 - d) = t" if "x \<in> A" for x
    proof -
      have "(256 :: nat) * 2 ^ (24 - d) = 2 ^ (32 - d)"
        using assms(3) power_add [of "2 :: nat" 8 "24 - d"] by simp
      with assms(2) [OF that] assms(3) show ?thesis by (auto simp: seg_num simp flip: div_mult2_eq)
    qed
    have "unat j div 256 = unat k div 256" using s [OF jk(1)] s [OF jk(2)] jk(3) by (metis div_mod_decomp)
    moreover have "unat j mod 256 = unat k mod 256" using assms(2) [OF jk(1)] assms(2) [OF jk(2)] by (simp add: bucket_num)
    ultimately show "j = k" by (metis div_mod_decomp word_unat_eq_iff)
  qed
  moreover have "?f ` A \<subseteq> {..<2 ^ (24 - d)}" by auto
  ultimately have "card A \<le> card {..<2 ^ (24 - d) :: nat}" by (intro card_inj_on_le) auto
  then show ?thesis by simp
qed

subsection \<open>Buckets\<close>

definition slot_for :: "u64 \<times> u64 \<Rightarrow> ert_slot" where
  "slot_for p = \<lparr>subkey = PUT_KEY_VALUE_FLAG (fst p), val = Plain (snd p)\<rparr>"

definition fill :: "(u64 \<times> u64) list \<Rightarrow> ert_slot list" where
  "fill kvs = map slot_for kvs @ replicate (4 - length kvs) empty_slot"

definition entries_ok :: "nat \<Rightarrow> (u64 \<times> u64) list \<Rightarrow> bool" where
  "entries_ok b kvs \<longleftrightarrow>
     length kvs \<le> 4 \<and> distinct (map fst kvs) \<and> (\<forall>(k, v)\<in>set kvs. sub32 k \<and> GET_BUCKET_NUM k = b \<and> v \<noteq> 0)"

definition bucket_ok :: "nat \<Rightarrow> ert_slot list \<Rightarrow> bool" where
  "bucket_ok b bk \<longleftrightarrow> (\<exists>kvs. entries_ok b kvs \<and> bk = fill kvs)"

lemma fill_length [simp]: "length kvs \<le> 4 \<Longrightarrow> length (fill kvs) = 4"
  by (simp add: fill_def)

lemma slot_for_simps [simp]:
  "subkey (slot_for p) = PUT_KEY_VALUE_FLAG (fst p)" "val (slot_for p) = Plain (snd p)"
  by (simp_all add: slot_for_def)

lemma empty_slot_simps [simp]: "subkey empty_slot = 0" "val empty_slot = Plain 0"
  by (simp_all add: empty_slot_def)

lemma find_index_app:
  "find_index p (xs @ ys) = (case find_index p xs of Some i \<Rightarrow> Some i | None \<Rightarrow> map_option ((+) (length xs)) (find_index p ys))"
proof -
  have "(+) 0 = (id :: nat \<Rightarrow> nat)" "\<And>n :: nat. (\<lambda>x. Suc (n + x)) = (+) (Suc n)" by auto
  then show ?thesis
    by (induction xs) (simp_all add: option.map_comp comp_def option.map_id split: option.split del: find_index_None)
qed

lemma find_index_map: "find_index p (map f xs) = find_index (p \<circ> f) xs"
  by (induction xs) auto

lemma find_index_replicate: "find_index p (replicate n x) = (if p x \<and> n \<noteq> 0 then Some 0 else None)"
  by (cases n) auto

lemma find_index_key:
  assumes "entries_ok b kvs" "sub32 k"
  shows "find_index (\<lambda>s. k = REMOVE_NODE_FLAG (subkey s)) (fill kvs) =
    (case find_index (\<lambda>p. fst p = k) kvs of
       Some i \<Rightarrow> Some i
     | None \<Rightarrow> if k = 0 \<and> length kvs < 4 then Some (length kvs) else None)"
proof -
  have "find_index ((\<lambda>s. k = REMOVE_NODE_FLAG (subkey s)) \<circ> slot_for) kvs = find_index (\<lambda>p. fst p = k) kvs"
    by (rule find_index_cong_set) (use assms in \<open>auto simp: entries_ok_def\<close>)
  then show ?thesis unfolding fill_def find_index_app find_index_map find_index_replicate
    by (auto split: option.split simp del: find_index_None)
qed

lemma find_index_map_of: "find_index (\<lambda>p. fst p = k) kvs = Some i \<Longrightarrow> map_of kvs k = Some (snd (kvs ! i))"
  by (induction kvs arbitrary: i) auto

lemma find_index_map_of_None: "find_index (\<lambda>p. fst p = k) kvs = None \<longleftrightarrow> map_of kvs k = None"
  by (auto simp: map_of_eq_None_iff)

lemma bucket_get_fill:
  assumes "entries_ok b kvs" "sub32 k"
  shows "bucket_get (fill kvs) k =
    (case map_of kvs k of
       Some v \<Rightarrow> Some (Plain v, True)
     | None \<Rightarrow> if k = 0 \<and> length kvs < 4 then Some (Plain 0, False) else None)"
proof (cases "find_index (\<lambda>p. fst p = k) kvs")
  case None
  then have "map_of kvs k = None" by (simp only: find_index_map_of_None)
  with None show ?thesis unfolding bucket_get_def find_index_key [OF assms]
    by (simp add: fill_def nth_append del: find_index_None)
next
  case (Some i)
  from find_index_SomeD [OF Some] have "fill kvs ! i = slot_for (kvs ! i)" by (simp add: fill_def nth_append)
  with Some show ?thesis unfolding bucket_get_def find_index_key [OF assms] by (simp add: find_index_map_of)
qed

lemma entries_okD:
  assumes "entries_ok b kvs"
  shows "length kvs \<le> 4" "distinct (map fst kvs)"
    "\<And>i. i < length kvs \<Longrightarrow> sub32 (fst (kvs ! i))" "\<And>i. i < length kvs \<Longrightarrow> GET_BUCKET_NUM (fst (kvs ! i)) = b"
    "\<And>i. i < length kvs \<Longrightarrow> snd (kvs ! i) \<noteq> 0"
  using assms unfolding entries_ok_def by (auto simp: case_prod_beta)

lemma fill_nth: "length kvs \<le> 4 \<Longrightarrow> i < 4 \<Longrightarrow> fill kvs ! i = (if i < length kvs then slot_for (kvs ! i) else empty_slot)"
  by (simp add: fill_def nth_append)

lemma free_slot_fill:
  assumes "entries_ok b kvs" "i < 4"
  shows "free_slot k d (fill kvs ! i) \<longleftrightarrow> (i < length kvs \<longrightarrow> GET_SEG_NUM (fst (kvs ! i)) d \<noteq> GET_SEG_NUM k d)"
  using assms entries_okD(1,3,5) [OF assms(1)] by (auto simp: fill_nth free_slot_def)

definition place :: "(u64 \<times> u64) list \<Rightarrow> nat \<Rightarrow> u64 \<times> u64 \<Rightarrow> (u64 \<times> u64) list" where
  "place kvs i p = (if i < length kvs then kvs[i := p] else kvs @ [p])"

lemma findPlace_Some:
  assumes "entries_ok b kvs" "sub32 k" "findPlace (fill kvs) k d = Some i"
  shows "i \<le> length kvs" "i < 4"
    "i < length kvs \<Longrightarrow> fst (kvs ! i) = k \<or> k \<notin> fst ` set kvs \<and> GET_SEG_NUM (fst (kvs ! i)) d \<noteq> GET_SEG_NUM k d"
    "i = length kvs \<Longrightarrow> k \<notin> fst ` set kvs"
proof -
  note o = entries_okD [OF assms(1)]
  have "i \<le> length kvs \<and> i < 4 \<and>
    (i < length kvs \<longrightarrow> fst (kvs ! i) = k \<or> k \<notin> fst ` set kvs \<and> GET_SEG_NUM (fst (kvs ! i)) d \<noteq> GET_SEG_NUM k d) \<and>
    (i = length kvs \<longrightarrow> k \<notin> fst ` set kvs)"
  proof (cases "find_index (\<lambda>p. fst p = k) kvs")
    case (Some j)
    with assms(3) have "i = j" unfolding findPlace_def find_index_key [OF assms(1,2)] by simp
    with find_index_SomeD [OF Some] o(1) show ?thesis by simp
  next
    case None
    then have k: "k \<notin> fst ` set kvs" by auto
    show ?thesis
    proof (cases "k = 0 \<and> length kvs < 4")
      case True
      with assms(3) None have "i = length kvs" unfolding findPlace_def find_index_key [OF assms(1,2)]
        by (simp del: find_index_None)
      with True k show ?thesis by simp
    next
      case False
      with assms(3) None have f: "find_index (free_slot k d) (fill kvs) = Some i"
        unfolding findPlace_def find_index_key [OF assms(1,2)] by (simp split: if_splits)
      note fi = find_index_SomeD [OF f, unfolded fill_length [OF o(1)]]
      have "free_slot k d (fill kvs ! length kvs)" if "length kvs < 4" using free_slot_fill [OF assms(1) that] by simp
      then have "i \<le> length kvs" using fi by (meson leI le_less_trans less_imp_le)
      then show ?thesis using fi k free_slot_fill [OF assms(1), of i k d] by auto
    qed
  qed
  then show "i \<le> length kvs" "i < 4"
    "i < length kvs \<Longrightarrow> fst (kvs ! i) = k \<or> k \<notin> fst ` set kvs \<and> GET_SEG_NUM (fst (kvs ! i)) d \<noteq> GET_SEG_NUM k d"
    "i = length kvs \<Longrightarrow> k \<notin> fst ` set kvs" by auto
qed

lemma findPlace_None:
  assumes "entries_ok b kvs" "sub32 k" "findPlace (fill kvs) k d = None"
  shows "length kvs = 4" "k \<notin> fst ` set kvs" "\<And>p. p \<in> set kvs \<Longrightarrow> GET_SEG_NUM (fst p) d = GET_SEG_NUM k d"
proof -
  note o = entries_okD [OF assms(1)]
  have n: "find_index (\<lambda>p. fst p = k) kvs = None" "find_index (free_slot k d) (fill kvs) = None"
    using assms(3) unfolding findPlace_def find_index_key [OF assms(1,2)] by (simp_all split: option.splits if_splits del: find_index_None)
  from n(1) show "k \<notin> fst ` set kvs" by auto
  have f: "\<not> free_slot k d (fill kvs ! i)" if "i < 4" for i using n(2) nth_mem [of i "fill kvs"] that o(1) by simp
  show l: "length kvs = 4" using f [of "length kvs"] free_slot_fill [OF assms(1), of "length kvs" k d] o(1) by (cases "length kvs = 4") auto
  fix p assume "p \<in> set kvs"
  then obtain i where i: "i < length kvs" "kvs ! i = p" by (auto simp: in_set_conv_nth)
  with f [of i] free_slot_fill [OF assms(1), of i k d] l show "GET_SEG_NUM (fst p) d = GET_SEG_NUM k d" by auto
qed

lemma store_place:
  assumes "entries_ok b kvs" "sub32 k" "i \<le> length kvs" "i < 4"
  shows "(fill kvs)[i := store_slot (fill kvs ! i) k (Plain v) True] = fill (place kvs i (k, v))"
proof -
  note o = entries_okD [OF assms(1)]
  have "store_slot (fill kvs ! i) k (Plain v) True = slot_for (k, v)"
    using fill_nth [OF o(1) assms(4)] put_flag_ne [OF assms(2) o(3)] by (auto simp: store_slot_def slot_for_def)
  moreover have "(fill kvs)[i := x] = fill kvs1"
    if "x = slot_for p" "kvs1 = place kvs i p" for x p kvs1
  proof (rule nth_equalityI)
    have l1: "length kvs1 \<le> 4" using that assms(3,4) o(1) by (auto simp: place_def)
    show "length ((fill kvs)[i := x]) = length (fill kvs1)" using l1 o(1) by simp
    fix j assume "j < length ((fill kvs)[i := x])"
    then have "j < 4" using o(1) by simp
    then show "(fill kvs)[i := x] ! j = fill kvs1 ! j"
      using that assms(3,4) o(1) l1 fill_nth [OF o(1), of j] fill_nth [OF l1, of j]
      by (auto simp: place_def nth_list_update nth_append)
  qed
  ultimately show ?thesis by blast
qed

lemma place_ok:
  assumes "entries_ok b kvs" "sub32 k" "GET_BUCKET_NUM k = b" "v \<noteq> 0" "findPlace (fill kvs) k d = Some i"
  shows "entries_ok b (place kvs i (k, v))"
proof -
  note o = entries_okD [OF assms(1)] and f = findPlace_Some [OF assms(1,2,5)]
  show ?thesis
  proof (cases "i < length kvs")
    case True
    have "distinct ((map fst kvs)[i := k])" using f(3) [OF True]
    proof
      assume "fst (kvs ! i) = k"
      then have "(map fst kvs)[i := k] = map fst kvs" using True by (metis list_update_id nth_map)
      with o(2) show ?thesis by simp
    qed (use o(2) in \<open>auto intro: distinct_list_update\<close>)
    moreover have "sub32 x \<and> GET_BUCKET_NUM x = b \<and> y \<noteq> 0" if "(x, y) \<in> set (kvs[i := (k, v)])" for x y
      using that set_update_subset_insert [of kvs i "(k, v)"] assms unfolding entries_ok_def by auto
    ultimately show ?thesis using True o(1) by (auto simp: place_def entries_ok_def map_update)
  next
    case False
    then have "i = length kvs" using f(1) by simp
    with f(2,4) assms show ?thesis by (auto simp: place_def entries_ok_def)
  qed
qed

lemma map_of_update_key:
  assumes "distinct (map fst kvs)" "i < length kvs" "k = fst (kvs ! i) \<or> k \<notin> fst ` set kvs"
  shows "map_of (kvs[i := (k, v)]) = (map_of kvs)(fst (kvs ! i) := None, k \<mapsto> v)"
  using assms
proof (induction kvs arbitrary: i)
  case (Cons a kvs)
  show ?case
  proof (cases i)
    case 0
    with Cons.prems show ?thesis by (cases a) (auto simp: fun_eq_iff map_of_eq_None_iff)
  next
    case (Suc j)
    have "fst a \<noteq> fst (kvs ! j)" using Cons.prems Suc by (metis distinct.simps(2) length_Cons list.simps(9) nth_map nth_mem Suc_less_eq length_map)
    moreover have "fst a \<noteq> k" using Cons.prems(3) Suc calculation by auto
    ultimately show ?thesis using Cons.IH [of j] Cons.prems Suc by (cases a) (auto simp: fun_eq_iff)
  qed
qed simp

lemma map_of_place:
  assumes "entries_ok b kvs" "sub32 k" "findPlace (fill kvs) k d = Some i" "GET_SEG_NUM k' d = GET_SEG_NUM k d"
  shows "map_of (place kvs i (k, v)) k' = ((map_of kvs)(k \<mapsto> v)) k'"
proof (cases "i < length kvs")
  case True
  with map_of_update_key [OF entries_okD(2) [OF assms(1)] True, of k v] findPlace_Some(3) [OF assms(1-3) True] assms(4)
  show ?thesis by (auto simp: place_def)
next
  case False
  with findPlace_Some(4) [OF assms(1-3)] findPlace_Some(1) [OF assms(1-3)]
  have "map_of kvs k = None" "place kvs i (k, v) = kvs @ [(k, v)]" by (auto simp: place_def map_of_eq_None_iff)
  then show ?thesis by (auto simp: map_add_def split: option.splits)
qed

subsection \<open>Nodes\<close>

definition seg_ok :: "ert_segment \<Rightarrow> bool" where
  "seg_ok sg \<longleftrightarrow> length (bucket sg) = 256 \<and> (\<forall>b<256. bucket_ok b (bucket sg ! b))"

definition depth_at :: "ert \<Rightarrow> nat \<Rightarrow> nat \<Rightarrow> nat" where
  "depth_at st c i = depth (segs st ! (dir (nodes st ! c) ! i))"

definition node_ok :: "ert \<Rightarrow> nat \<Rightarrow> bool" where
  "node_ok st c \<longleftrightarrow>
     (let n = nodes st ! c; G = global_depth n
      in c < length (nodes st) \<and> G \<le> 24 \<and> length (dir n) = 2 ^ G \<and>
         (\<forall>i<2 ^ G. dir n ! i < length (segs st) \<and> depth_at st c i \<le> G \<and> seg_ok (segs st ! (dir n ! i)) \<and>
            (\<forall>j<2 ^ G. dir n ! j = dir n ! i \<longleftrightarrow> j div 2 ^ (G - depth_at st c i) = i div 2 ^ (G - depth_at st c i))))"

lemma ert_node_okD:
  assumes "node_ok st c"
  defines "G \<equiv> global_depth (nodes st ! c)"
  shows "c < length (nodes st)" "G \<le> 24" "length (dir (nodes st ! c)) = 2 ^ G"
    "\<And>i. i < 2 ^ G \<Longrightarrow> dir (nodes st ! c) ! i < length (segs st)" "\<And>i. i < 2 ^ G \<Longrightarrow> depth_at st c i \<le> G"
    "\<And>i. i < 2 ^ G \<Longrightarrow> seg_ok (segs st ! (dir (nodes st ! c) ! i))"
    "\<And>i j. i < 2 ^ G \<Longrightarrow> j < 2 ^ G \<Longrightarrow> dir (nodes st ! c) ! j = dir (nodes st ! c) ! i \<longleftrightarrow>
       j div 2 ^ (G - depth_at st c i) = i div 2 ^ (G - depth_at st c i)"
  using assms unfolding node_ok_def Let_def by blast+

lemma ert_node_okI:
  assumes "c < length (nodes st)" "global_depth (nodes st ! c) = G" "G \<le> 24" "length (dir (nodes st ! c)) = 2 ^ G"
    "\<And>i. i < 2 ^ G \<Longrightarrow> dir (nodes st ! c) ! i < length (segs st)" "\<And>i. i < 2 ^ G \<Longrightarrow> depth_at st c i \<le> G"
    "\<And>i. i < 2 ^ G \<Longrightarrow> seg_ok (segs st ! (dir (nodes st ! c) ! i))"
    "\<And>i j. i < 2 ^ G \<Longrightarrow> j < 2 ^ G \<Longrightarrow> dir (nodes st ! c) ! j = dir (nodes st ! c) ! i \<longleftrightarrow>
       j div 2 ^ (G - depth_at st c i) = i div 2 ^ (G - depth_at st c i)"
  shows "node_ok st c"
  unfolding node_ok_def Let_def using assms by blast

text \<open>The map of a node that holds values.\<close>

definition bucket_map :: "ert_slot list \<Rightarrow> u64 \<Rightarrow> u64 option" where
  "bucket_map bk k = (case bucket_get bk k of Some (Plain v, True) \<Rightarrow> Some v | _ \<Rightarrow> None)"

definition node_map :: "ert \<Rightarrow> nat \<Rightarrow> u64 \<Rightarrow> u64 option" where
  "node_map st c k = (if sub32 k then bucket_map (node_bucket st c k) k else None)"

lemma bucket_map_fill: "entries_ok b kvs \<Longrightarrow> sub32 k \<Longrightarrow> bucket_map (fill kvs) k = map_of kvs k"
  by (auto simp: bucket_map_def bucket_get_fill split: option.splits)

text \<open>The entry, the segment and the bucket of a sub-key.\<close>

lemma ert_node_entry:
  assumes "node_ok st c" "sub32 k"
  defines "n \<equiv> nodes st ! c" and "i \<equiv> GET_SEG_NUM k (global_depth (nodes st ! c))"
  shows "i < 2 ^ global_depth n" "seg_of n k = dir n ! i" "depth (segs st ! seg_of n k) = depth_at st c i"
    "depth (segs st ! seg_of n k) \<le> global_depth n" "seg_of n k < length (segs st)" "seg_ok (segs st ! seg_of n k)"
    "sub32 k' \<Longrightarrow> seg_of n k' = seg_of n k \<longleftrightarrow>
       GET_SEG_NUM k' (depth (segs st ! seg_of n k)) = GET_SEG_NUM k (depth (segs st ! seg_of n k))"
proof -
  note o = ert_node_okD [OF assms(1), folded n_def]
  show i: "i < 2 ^ global_depth n" by (simp add: i_def n_def seg_num_less)
  show s: "seg_of n k = dir n ! i" by (simp add: seg_of_def i_def n_def)
  show d: "depth (segs st ! seg_of n k) = depth_at st c i" by (simp add: depth_at_def s flip: n_def)
  show "depth (segs st ! seg_of n k) \<le> global_depth n" using o(5) [OF i] d by simp
  show "seg_of n k < length (segs st)" "seg_ok (segs st ! seg_of n k)" using o(4,6) [OF i] s by simp_all
  assume k': "sub32 k'"
  have "seg_of n k' = seg_of n k \<longleftrightarrow> GET_SEG_NUM k' (global_depth n) div 2 ^ (global_depth n - depth_at st c i) =
    i div 2 ^ (global_depth n - depth_at st c i)"
    using o(7) [OF i seg_num_less [of k']] by (simp add: seg_of_def i_def n_def)
  also have "\<dots> \<longleftrightarrow> GET_SEG_NUM k' (depth_at st c i) = GET_SEG_NUM k (depth_at st c i)"
    using o(2) o(5) [OF i] k' assms(2) by (simp add: i_def seg_num_div flip: n_def)
  finally show "seg_of n k' = seg_of n k \<longleftrightarrow>
       GET_SEG_NUM k' (depth (segs st ! seg_of n k)) = GET_SEG_NUM k (depth (segs st ! seg_of n k))" by (simp add: d)
qed

lemma node_bucket_ok:
  assumes "node_ok st c" "sub32 k"
  shows "bucket_ok (GET_BUCKET_NUM k) (node_bucket st c k)"
  using ert_node_entry(6) [OF assms] bucket_num_less [of k] by (simp add: node_bucket_def seg_ok_def)

subsection \<open>Storing into a bucket\<close>

lemma set_slot_simps [simp]:
  "nodes (set_slot st g b i x) = nodes st" "root (set_slot st g b i x) = root st" "pairs (set_slot st g b i x) = pairs st"
  by (simp_all add: set_slot_def)

lemma set_slot_segs:
  "g < length (segs st) \<Longrightarrow> segs (set_slot st g b i x) ! g' =
     (if g' = g then (segs st ! g)\<lparr>bucket := (bucket (segs st ! g))[b := (bucket (segs st ! g) ! b)[i := x]]\<rparr> else segs st ! g')"
  "length (segs (set_slot st g b i x)) = length (segs st)"
  by (simp_all add: set_slot_def)

lemma put_store:
  assumes "node_ok st c" "sub32 k" "v \<noteq> 0"
  defines "g \<equiv> seg_of (nodes st ! c) k" and "b \<equiv> GET_BUCKET_NUM k"
  assumes "findPlace (node_bucket st c k) k (depth (segs st ! g)) = Some i"
  defines "st' \<equiv> set_slot st g b i (store_slot (bucket (segs st ! g) ! b ! i) k (Plain v) True)"
  shows "node_ok st' c" "node_map st' c = (node_map st c)(k \<mapsto> v)"
proof -
  note o = ert_node_okD [OF assms(1)] and e = ert_node_entry [OF assms(1,2), folded g_def]
  have b: "b < 256" by (simp add: b_def bucket_num_less)
  obtain kvs where kvs: "entries_ok b kvs" "node_bucket st c k = fill kvs"
    using node_bucket_ok [OF assms(1,2)] by (auto simp: bucket_ok_def b_def)
  have bk: "bucket (segs st ! g) ! b = fill kvs" using kvs(2) by (simp add: node_bucket_def g_def b_def)
  note f = findPlace_Some [OF kvs(1) assms(2), of "depth (segs st ! g)" i, folded kvs(2), OF assms(6)]
  have new: "(fill kvs)[i := store_slot (fill kvs ! i) k (Plain v) True] = fill (place kvs i (k, v))"
    by (rule store_place [OF kvs(1) assms(2) f(1,2)])
  have ok: "entries_ok b (place kvs i (k, v))"
    by (rule place_ok [OF kvs(1) assms(2) _ assms(3)]) (use assms(6) kvs(2) in \<open>simp_all add: b_def\<close>)
  have sg: "segs st' ! g' = (if g' = g then (segs st ! g)\<lparr>bucket := (bucket (segs st ! g))[b := fill (place kvs i (k, v))]\<rparr>
      else segs st ! g')" for g'
    unfolding st'_def set_slot_segs(1) [OF e(5)] by (simp add: bk new)
  have st': "nodes st' = nodes st" "length (segs st') = length (segs st)" by (simp_all add: st'_def set_slot_segs)
  have dep: "depth (segs st' ! g') = depth (segs st ! g')" for g' by (simp add: sg)
  then have dat: "depth_at st' c j = depth_at st c j" for j by (simp add: depth_at_def st')
  have sok: "seg_ok (segs st' ! g')" if "seg_ok (segs st ! g')" for g'
  proof (cases "g' = g")
    case True
    then show ?thesis using that b ok by (auto simp: sg seg_ok_def nth_list_update bucket_ok_def)
  qed (use that in \<open>simp add: sg\<close>)
  show "node_ok st' c"
    by (rule ert_node_okI [OF _ refl]) (use o sok in \<open>simp_all add: st' dat\<close>)
  show "node_map st' c = (node_map st c)(k \<mapsto> v)"
  proof
    fix k'
    show "node_map st' c k' = ((node_map st c)(k \<mapsto> v)) k'"
    proof (cases "sub32 k'")
      case s: True
      have nb: "node_bucket st' c k' =
        (if seg_of (nodes st ! c) k' = g \<and> GET_BUCKET_NUM k' = b then fill (place kvs i (k, v)) else node_bucket st c k')"
        using e(6) b by (auto simp: node_bucket_def st' sg nth_list_update seg_ok_def)
      show ?thesis
      proof (cases "seg_of (nodes st ! c) k' = g \<and> GET_BUCKET_NUM k' = b")
        case True
        then have "GET_SEG_NUM k' (depth (segs st ! g)) = GET_SEG_NUM k (depth (segs st ! g))"
          using e(7) [OF s] by (simp add: g_def)
        from map_of_place [OF kvs(1) assms(2) _ this, of i v] assms(6) kvs(2)
        have "map_of (place kvs i (k, v)) k' = ((map_of kvs)(k \<mapsto> v)) k'" by simp
        moreover have "node_bucket st c k' = fill kvs" using True bk by (simp add: node_bucket_def)
        ultimately show ?thesis using True s nb bucket_map_fill [OF ok s] bucket_map_fill [OF kvs(1) s]
          by (simp add: node_map_def)
      next
        case False
        then have "k' \<noteq> k" by (auto simp: g_def b_def)
        with trans [OF nb if_not_P [OF False]] s show ?thesis by (simp add: node_map_def)
      qed
    qed (use assms(2) in \<open>auto simp: node_map_def\<close>)
  qed
qed

subsection \<open>Splitting a segment\<close>

lemma filter_fill:
  assumes "entries_ok b kvs" "0 < mid"
  shows "migrate gd mid (fill kvs) = fill (filter (\<lambda>p. mid \<le> GET_SEG_NUM (fst p) gd) kvs)"
proof -
  note o = entries_okD [OF assms(1)]
  have "filter (\<lambda>s. mid \<le> GET_SEG_NUM (REMOVE_NODE_FLAG (subkey s)) gd) (map slot_for kvs) =
    map slot_for (filter (\<lambda>p. mid \<le> GET_SEG_NUM (fst p) gd) kvs)"
    unfolding filter_map by (intro arg_cong [of _ _ "map slot_for"] filter_cong) (use assms(1) in \<open>auto simp: entries_ok_def\<close>)
  moreover have "filter (\<lambda>s. mid \<le> GET_SEG_NUM (REMOVE_NODE_FLAG (subkey s)) gd) (replicate m empty_slot) = []" for m
    using assms(2) by (auto simp: filter_empty_conv)
  ultimately show ?thesis by (simp add: migrate_def fill_def Let_def)
qed

lemma entries_filter: "entries_ok b kvs \<Longrightarrow> entries_ok b (filter P kvs)"
  by (auto simp: entries_ok_def distinct_map_filter intro: order_trans [OF length_filter_le])

lemma map_of_filter_key: "P k \<Longrightarrow> map_of (filter (\<lambda>p. P (fst p)) kvs) k = map_of kvs k"
  by (induction kvs) auto

text \<open>Which half of a block of entries an index is in.\<close>

lemma block_bounds:
  fixes i j h :: nat
  assumes "mid = i - i mod 2 ^ Suc h + 2 ^ h"
  shows "mid \<le> j \<and> j < mid + 2 ^ h \<longleftrightarrow> j div 2 ^ h = 2 * (i div 2 ^ Suc h) + 1"
proof -
  have "i - i mod 2 ^ Suc h = (i div 2 ^ Suc h) * 2 ^ Suc h" by (rule minus_mod_eq_div_mult)
  then have m: "mid = (2 * (i div 2 ^ Suc h) + 1) * 2 ^ h" using assms by (simp add: algebra_simps)
  have d: "j div q = t \<longleftrightarrow> t * q \<le> j \<and> j < Suc t * q" if "0 < q" for q t
    using less_eq_div_iff_mult_less_eq [OF that, of t j] div_less_iff_less_mult [OF that, of j "Suc t"]
    by (auto simp: less_Suc_eq_le)
  show ?thesis unfolding d [OF zero_less_power [OF zero_less_numeral]] m by (simp add: algebra_simps)
qed

lemma split_ok:
  assumes "node_ok st c" "sub32 k"
  defines "G \<equiv> global_depth (nodes st ! c)" and "g \<equiv> seg_of (nodes st ! c) k"
  assumes "depth (segs st ! g) < G"
  defines "st' \<equiv> split_segment st c (GET_SEG_NUM k G)"
  shows "node_ok st' c" "node_map st' c = node_map st c"
    "depth (segs st' ! seg_of (nodes st' ! c) k) = depth (segs st ! g) + 1"
    "global_depth (nodes st' ! c) = G" "header (nodes st' ! c) = header (nodes st ! c)"
    "treeNodeValues (nodes st' ! c) = treeNodeValues (nodes st ! c)" "root st' = root st" "pairs st' = pairs st"
proof -
  define n where "n = nodes st ! c"
  define i where "i = GET_SEG_NUM k G"
  define d where "d = depth (segs st ! g)"
  define h where "h = G - d - 1"
  define mid where "mid = i - i mod 2 ^ Suc h + 2 ^ h"
  define sg where "sg = segs st ! g"
  define new where "new = (NewERTIntSegment (d + 1))\<lparr>bucket := map (migrate G mid) (bucket sg)\<rparr>"
  note o = ert_node_okD [OF assms(1), folded G_def n_def] and e = ert_node_entry [OF assms(1,2), folded n_def G_def g_def i_def]
  have h: "G - d = Suc h" "d < G" using assms(5) by (simp_all add: h_def d_def)
  have gn: "g = dir n ! i" "g < length (segs st)" using e(2,5) by (simp_all add: g_def n_def)
  have st': "st' = st\<lparr>nodes := (nodes st)[c := n\<lparr>dir := map (\<lambda>j. if mid \<le> j \<and> j < mid + 2 ^ h then length (segs st) else dir n ! j)
      [0..<length (dir n)]\<rparr>], segs := (segs st)[g := sg\<lparr>depth := d + 1\<rparr>] @ [new]\<rparr>"
  proof -
    have a: "global_depth n = G" "depth sg = d" by (simp_all add: G_def n_def sg_def d_def)
    have b: "(2 :: nat) ^ (G - d) = 2 ^ Suc h" by (simp only: h(1))
    have "x + 2 ^ Suc h = x + 2 ^ h + 2 ^ h" for x :: nat by simp
    then have c: "i - i mod 2 ^ Suc h + 2 ^ Suc h = mid + 2 ^ h" "(2 :: nat) ^ Suc h div 2 = 2 ^ h" by (simp_all only: mid_def) simp
    show ?thesis
      unfolding st'_def split_segment_def Let_def i_def [symmetric] n_def [symmetric] gn(1) [symmetric] sg_def [symmetric]
        a b c mid_def [symmetric] new_def ..
  qed
  have up: "mid \<le> j \<and> j < mid + 2 ^ h \<longleftrightarrow> j div 2 ^ h = 2 * (i div 2 ^ Suc h) + 1" for j
    by (rule block_bounds [OF mid_def])
  have nd: "nodes st' ! c = n\<lparr>dir := map (\<lambda>j. if mid \<le> j \<and> j < mid + 2 ^ h then length (segs st) else dir n ! j) [0..<length (dir n)]\<rparr>"
    using o(1) by (simp add: st')
  have dir': "dir (nodes st' ! c) ! j = (if mid \<le> j \<and> j < mid + 2 ^ h then length (segs st) else dir n ! j)" if "j < 2 ^ G" for j
    using that o(3) by (simp add: nd)
  have segs': "segs st' ! x = (if x = length (segs st) then new else if x = g then sg\<lparr>depth := d + 1\<rparr> else segs st ! x)"
    if "x \<le> length (segs st)" for x
    using that gn(2) by (auto simp: st' nth_append nth_list_update)
  show G': "global_depth (nodes st' ! c) = G" "header (nodes st' ! c) = header (nodes st ! c)"
    "treeNodeValues (nodes st' ! c) = treeNodeValues (nodes st ! c)" "root st' = root st" "pairs st' = pairs st"
    using o(1) by (simp_all add: st' G_def n_def)
  have block: "dir n ! j = g \<longleftrightarrow> j div 2 ^ Suc h = i div 2 ^ Suc h" if "j < 2 ^ G" for j
    using o(7) [OF e(1) that] e(3) gn(1) h(1) by (simp add: d_def)
  have halves': "j div 2 ^ Suc h = j div 2 ^ h div 2" for j :: nat
    unfolding power_Suc mult.commute [of 2] div_mult2_eq ..
  then have halves: "j div (2 * 2 ^ h) = j div 2 ^ h div 2" for j :: nat by simp
  have dep': "depth_at st' c j = (if dir n ! j = g then d + 1 else depth_at st c j)" if j: "j < 2 ^ G" for j
  proof (cases "mid \<le> j \<and> j < mid + 2 ^ h")
    case True
    then have "dir n ! j = g" using up [of j] by (simp add: block [OF j] halves)
    with True show ?thesis by (simp add: depth_at_def dir' [OF j] segs' new_def NewERTIntSegment_def)
  next
    case False
    have "dir (nodes st' ! c) ! j = dir n ! j" using dir' [OF j] if_not_P [OF False] by (rule trans)
    with o(4) [OF j] show ?thesis by (simp add: depth_at_def segs' sg_def d_def flip: n_def)
  qed
  obtain kv where kv: "\<And>b. b < 256 \<Longrightarrow> entries_ok b (kv b) \<and> bucket sg ! b = fill (kv b)" "length (bucket sg) = 256"
    using e(6) unfolding seg_ok_def bucket_ok_def sg_def by metis
  have mid: "0 < mid" unfolding mid_def by (rule add_nonneg_pos) simp_all
  have new_b: "bucket new ! b = fill (filter (\<lambda>p. mid \<le> GET_SEG_NUM (fst p) G) (kv b))" if "b < 256" for b
    using kv(1) [OF that] kv(2) that filter_fill [OF _ mid, of b "kv b" G] by (simp add: new_def)
  have "seg_ok new" using kv entries_filter new_b unfolding seg_ok_def bucket_ok_def
    by (metis (no_types, lifting) new_def ert_segment.select_convs(2) ert_segment.update_convs(2) ert_segment.surjective length_map)
  moreover have "seg_ok (sg\<lparr>depth := d + 1\<rparr>)" using e(6) by (simp add: seg_ok_def sg_def)
  ultimately have sok: "seg_ok (segs st' ! (dir (nodes st' ! c) ! j))" if "j < 2 ^ G" for j
    using o(4,6) [OF that] by (simp add: dir' [OF that] segs')
  show "node_ok st' c"
  proof (rule ert_node_okI [OF _ G'(1) o(2) _ _ _ sok])
    fix j :: nat assume j: "j < 2 ^ G"
    have "length (segs st') = Suc (length (segs st))" by (simp add: st')
    with o(4) [OF j] show "dir (nodes st' ! c) ! j < length (segs st')" by (simp add: dir' [OF j] less_SucI)
    show "depth_at st' c j \<le> G" using o(5) [OF j] h(2) by (simp add: dep' [OF j])
  next
    fix y x :: nat assume y: "y < 2 ^ G" and x: "x < 2 ^ G"
    have hd: "G - Suc d = h" using h by simp
    consider "y div 2 ^ h = 2 * (i div 2 ^ Suc h) + 1" | "y div 2 ^ h \<noteq> 2 * (i div 2 ^ Suc h) + 1" "dir n ! y = g" | "dir n ! y \<noteq> g" by blast
    then show "dir (nodes st' ! c) ! x = dir (nodes st' ! c) ! y \<longleftrightarrow> x div 2 ^ (G - depth_at st' c y) = y div 2 ^ (G - depth_at st' c y)"
    proof cases
      case 1
      then have "dir n ! y = g" by (simp add: block [OF y] halves)
      with 1 o(4) [OF x] show ?thesis by (auto simp: dep' [OF y] hd dir' [OF x] dir' [OF y] up)
    next
      case 2
      then have b: "y div 2 ^ h div 2 = i div 2 ^ Suc h" by (simp only: block [OF y] halves' [of y])
      have half: "a div 2 = b \<and> a \<noteq> 2 * b + 1 \<longleftrightarrow> a = 2 * b" for a b :: nat by presburger
      with b 2(1) have y2: "y div 2 ^ h = 2 * (i div 2 ^ Suc h)" by blast
      have "dir n ! x = g \<longleftrightarrow> x div 2 ^ h div 2 = i div 2 ^ Suc h" by (simp only: block [OF x] halves')
      then have "dir n ! x = g \<and> x div 2 ^ h \<noteq> 2 * (i div 2 ^ Suc h) + 1 \<longleftrightarrow> x div 2 ^ h = 2 * (i div 2 ^ Suc h)"
        using half by blast
      with 2 y2 gn(2) show ?thesis by (auto simp: dep' [OF y] hd dir' [OF x] dir' [OF y] up)
    next
      case 3
      have yn: "y div 2 ^ h \<noteq> 2 * (i div 2 ^ Suc h) + 1" using 3 by (auto simp: block [OF y] halves)
      have xn: "dir n ! x = g" if "x div 2 ^ h = 2 * (i div 2 ^ Suc h) + 1" using that by (simp add: block [OF x] halves)
      have "x div 2 ^ (G - depth_at st c y) = y div 2 ^ (G - depth_at st c y) \<longleftrightarrow> dir n ! x = dir n ! y" using o(7) [OF y x] by simp
      then show ?thesis using 3 yn xn o(4) [OF y] by (auto simp: dep' [OF y] dir' [OF x] dir' [OF y] up)
    qed
  next
    show "c < length (nodes st')" using o(1) by (simp add: st')
    show "length (dir (nodes st' ! c)) = 2 ^ G" unfolding nd using o(3) by simp
  qed
  have seg': "seg_of (nodes st' ! c) k' =
      (if mid \<le> GET_SEG_NUM k' G \<and> GET_SEG_NUM k' G < mid + 2 ^ h then length (segs st) else seg_of n k')" for k'
    using dir' [OF seg_num_less] by (simp add: seg_of_def G' flip: G_def n_def) (simp add: G_def n_def)
  show "depth (segs st' ! seg_of (nodes st' ! c) k) = depth (segs st ! g) + 1"
    using gn by (simp add: seg' segs' new_def NewERTIntSegment_def g_def d_def n_def)
  show "node_map st' c = node_map st c"
  proof
    fix k'
    show "node_map st' c k' = node_map st c k'"
    proof (cases "sub32 k'")
      case s: True
      let ?b = "GET_BUCKET_NUM k'"
      let ?j = "GET_SEG_NUM k' G"
      have b: "?b < 256" by (rule bucket_num_less)
      have j: "?j < 2 ^ G" by (rule seg_num_less)
      show ?thesis
      proof (cases "mid \<le> ?j \<and> ?j < mid + 2 ^ h")
        case True
        then have "dir n ! ?j = g" using up [of ?j] by (simp add: block [OF j] halves)
        then have "node_bucket st c k' = fill (kv ?b)" using kv(1) [OF b] by (simp add: node_bucket_def seg_of_def sg_def n_def G_def)
        moreover have "node_bucket st' c k' = fill (filter (\<lambda>p. mid \<le> GET_SEG_NUM (fst p) G) (kv ?b))"
          using True new_b [OF b] by (simp add: node_bucket_def seg' segs')
        moreover have "entries_ok ?b (kv ?b)" using kv(1) [OF b] ..
        ultimately show ?thesis using True s map_of_filter_key [of "\<lambda>x. mid \<le> GET_SEG_NUM x G" k' "kv ?b"]
            bucket_map_fill [OF _ s, of ?b] bucket_map_fill [OF entries_filter s, of ?b]
          by (simp add: node_map_def)
      next
        case False
        then have "seg_of (nodes st' ! c) k' = seg_of n k'" by (simp only: seg' if_False)
        moreover have "seg_of n k' < length (segs st)" using ert_node_entry(5) [OF assms(1) s] by (simp add: n_def)
        ultimately have "node_bucket st' c k' = node_bucket st c k'" by (simp add: node_bucket_def segs' sg_def n_def)
        then show ?thesis by (simp add: node_map_def)
      qed
    qed (simp add: node_map_def)
  qed
qed

subsection \<open>Doubling the directory\<close>

lemma double_ok:
  assumes "node_ok st c" "global_depth (nodes st ! c) < 24"
  defines "c' \<equiv> length (nodes st)" and "st' \<equiv> st\<lparr>nodes := nodes st @ [double_directory (nodes st ! c)]\<rparr>"
  shows "node_ok st' c'" "node_map st' c' = node_map st c"
    "seg_of (nodes st' ! c') k = seg_of (nodes st ! c) k \<or> \<not> sub32 k"
proof -
  define n where "n = nodes st ! c"
  define G where "G = global_depth n"
  note o = ert_node_okD [OF assms(1), folded n_def G_def]
  have n': "nodes st' ! c' = double_directory n" by (simp add: st'_def c'_def n_def)
  have G': "global_depth (nodes st' ! c') = G + 1" by (simp add: n' double_directory_def G_def)
  have dir': "dir (nodes st' ! c') ! i = dir n ! (i div 2)" if "i < 2 ^ (G + 1)" for i
    using that o(3) by (simp add: n' double_directory_def)
  have dep': "depth_at st' c' i = depth_at st c (i div 2)" if "i < 2 ^ (G + 1)" for i
    using dir' [OF that] by (simp add: depth_at_def n_def st'_def)
  have half: "i div 2 < 2 ^ G" if "i < 2 ^ (G + 1)" for i :: nat using that by auto
  show "node_ok st' c'"
  proof (rule ert_node_okI [OF _ G'])
    fix i j :: nat assume i: "i < 2 ^ (G + 1)" and j: "j < 2 ^ (G + 1)"
    let ?w = "G - depth_at st c (i div 2)"
    have w: "G + 1 - depth_at st' c' i = Suc ?w" using o(5) [OF half [OF i]] by (simp add: dep' [OF i])
    have "x div 2 ^ Suc ?w = x div 2 div 2 ^ ?w" for x :: nat by (simp add: div_mult2_eq)
    then show "dir (nodes st' ! c') ! j = dir (nodes st' ! c') ! i \<longleftrightarrow>
      j div 2 ^ (G + 1 - depth_at st' c' i) = i div 2 ^ (G + 1 - depth_at st' c' i)"
      unfolding w dir' [OF i] dir' [OF j] using o(7) [OF half [OF i] half [OF j]] by simp
  next
    fix i :: nat assume i: "i < 2 ^ (G + 1)"
    note oi = o(4,5,6) [OF half [OF i]]
    have "length (segs st') = length (segs st)" by (simp add: st'_def)
    with oi(1) show "dir (nodes st' ! c') ! i < length (segs st')" by (simp add: dir' [OF i])
    show "depth_at st' c' i \<le> G + 1" using oi(2) by (simp add: dep' [OF i])
    have "segs st' = segs st" by (simp add: st'_def)
    with oi(3) show "seg_ok (segs st' ! (dir (nodes st' ! c') ! i))" by (simp add: dir' [OF i])
  qed (use o assms(2) in \<open>simp_all add: n' double_directory_def c'_def st'_def n_def G_def\<close>)
  have seg': "seg_of (nodes st' ! c') k = seg_of (nodes st ! c) k" if "sub32 k" for k
    using dir' [OF seg_num_less] seg_num_div [OF that, of G "G + 1"] o(2) by (simp add: seg_of_def G' flip: n_def G_def)
  then show "seg_of (nodes st' ! c') k = seg_of (nodes st ! c) k \<or> \<not> sub32 k" by blast
  show "node_map st' c' = node_map st c"
    by (rule ext) (simp add: node_map_def node_bucket_def seg', simp add: st'_def)
qed

subsection \<open>Insertion\<close>

text \<open>A full bucket holds four other sub-keys with the same low byte and top bits.\<close>

lemma full_depth:
  assumes "node_ok st c" "sub32 k" "findPlace (node_bucket st c k) k (depth (segs st ! seg_of (nodes st ! c) k)) = None"
  shows "depth (segs st ! seg_of (nodes st ! c) k) \<le> 21"
proof -
  let ?d = "depth (segs st ! seg_of (nodes st ! c) k)"
  let ?b = "GET_BUCKET_NUM k"
  obtain kvs where kvs: "entries_ok ?b kvs" "node_bucket st c k = fill kvs"
    using node_bucket_ok [OF assms(1,2)] by (auto simp: bucket_ok_def)
  note f = findPlace_None [OF kvs(1) assms(2) assms(3) [unfolded kvs(2)]]
  have d: "?d \<le> 24" using ert_node_entry(4) [OF assms(1,2)] ert_node_okD(2) [OF assms(1)] by simp
  have "card (insert k (fst ` set kvs)) = 5"
    using f(1,2) entries_okD(2) [OF kvs(1)] distinct_card [of "map fst kvs"] by simp
  moreover have "card (insert k (fst ` set kvs)) \<le> 2 ^ (24 - ?d)"
    by (rule agree_bound [OF _ _ d, of _ ?b]) (use f(3) kvs(1) assms(2) in \<open>auto simp: entries_ok_def\<close>)
  ultimately have "5 \<le> (2 :: nat) ^ (24 - ?d)" by simp
  moreover have "(2 :: nat) ^ (24 - ?d) \<le> 4" if "22 \<le> ?d"
    using that power_increasing [of "24 - ?d" 2 "2 :: nat"] by simp
  ultimately show ?thesis by linarith
qed

text \<open>
  \<open>put\<close> on the root, whose pointer follows the doubling of its directory.  The header is copied,
  the table of values is not.
\<close>

lemma other_fields [simp]:
  "node_ok (st\<lparr>root := r\<rparr>) = node_ok st" "node_ok (st\<lparr>pairs := ps\<rparr>) = node_ok st"
  "node_map (st\<lparr>root := r\<rparr>) = node_map st" "node_map (st\<lparr>pairs := ps\<rparr>) = node_map st"
  by (simp_all add: fun_eq_iff node_ok_def depth_at_def node_map_def node_bucket_def)

definition values_ok :: "ert_node \<Rightarrow> bool" where
  "values_ok n \<longleftrightarrow> (case treeNodeValues n of None \<Rightarrow> 0 < global_depth n | Some vs \<Rightarrow> global_depth n = 0 \<and> length vs = 4)"

definition copies :: "ert_header \<Rightarrow> bool" where
  "copies H \<longleftrightarrow> hdepth H = 0 \<and> header_init \<lparr>len = 0, hdepth = 0, array = replicate 6 0\<rparr> H (len H) 0 = H"

lemma put_root:
  assumes "node_ok st c" "root st = c" "header (nodes st ! c) = H" "copies H" "values_ok (nodes st ! c)" "sub32 k" "v \<noteq> 0"
    and "2 * (24 - depth (segs st ! seg_of (nodes st ! c) k)) +
         (if depth (segs st ! seg_of (nodes st ! c) k) < global_depth (nodes st ! c) then 0 else 1) < fuel"
  shows "\<exists>st' c'. put fuel addr st c k (Plain v) True RootPtr = Inr (st', c') \<and> root st' = c' \<and> node_ok st' c' \<and>
    node_map st' c' = (node_map st c)(k \<mapsto> v) \<and> header (nodes st' ! c') = H \<and> values_ok (nodes st' ! c')"
  using assms
proof (induction fuel arbitrary: st c)
  case (Suc fuel)
  let ?n = "nodes st ! c"
  let ?g = "seg_of ?n k"
  let ?d = "depth (segs st ! ?g)"
  let ?G = "global_depth ?n"
  note e = ert_node_entry [OF Suc.prems(1,6)]
  show ?case
  proof (cases "findPlace (node_bucket st c k) k ?d")
    case (Some i)
    from put_store [OF Suc.prems(1,6,7) Some] Suc.prems(2,3,5) Some show ?thesis by (simp add: Let_def fun_upd_def)
  next
    case None
    have d: "?d \<le> 21" by (rule full_depth [OF Suc.prems(1,6) None])
    then have d24: "24 - ?d = Suc (23 - ?d)" by simp
    show ?thesis
    proof (cases "?d < ?G")
      case True
      let ?st = "split_segment st c (GET_SEG_NUM k ?G)"
      note s = split_ok [OF Suc.prems(1,6) True]
      have "\<exists>st' c'. put fuel addr ?st c k (Plain v) True RootPtr = Inr (st', c') \<and> root st' = c' \<and> node_ok st' c' \<and>
        node_map st' c' = (node_map ?st c)(k \<mapsto> v) \<and> header (nodes st' ! c') = H \<and> values_ok (nodes st' ! c')"
      proof (rule Suc.IH [OF s(1)])
        show "values_ok (nodes ?st ! c)" using Suc.prems(5) by (simp add: values_ok_def s(4,6) split: option.splits)
      qed (use Suc.prems True d24 in \<open>simp_all add: s(3-7)\<close>)
      with None True s(2) show ?thesis by (simp add: Let_def fun_upd_def)
    next
      case False
      let ?c = "length (nodes st)"
      let ?st = "st\<lparr>nodes := nodes st @ [double_directory ?n], root := ?c\<rparr>"
      have G: "?G = ?d" using False e(4) by simp
      then have G24: "?G < 24" using d by simp
      note o = double_ok [OF Suc.prems(1) G24]
      have k: "node_ok ?st ?c" "node_map ?st ?c = node_map st c" "seg_of (nodes ?st ! ?c) k = ?g"
        using o(1,2) o(3) [of k] Suc.prems(6) by simp_all
      have h: "header (double_directory ?n) = H" "hdepth H = 0" using Suc.prems(3,4) by (simp_all add: double_directory_def copies_def)
      have n: "global_depth (double_directory ?n) = ?G + 1" "treeNodeValues (double_directory ?n) = None" by (simp_all add: double_directory_def)
      then have "\<exists>st' c'. put fuel addr ?st ?c k (Plain v) True RootPtr = Inr (st', c') \<and> root st' = c' \<and> node_ok st' c' \<and>
        node_map st' c' = (node_map ?st ?c)(k \<mapsto> v) \<and> header (nodes st' ! c') = H \<and> values_ok (nodes st' ! c')"
        using Suc.prems(4,6-8) h G k(3) by (intro Suc.IH [OF k(1)]) (simp_all add: values_ok_def)
      with None False h k(2) show ?thesis by (simp add: Let_def link_def fun_upd_def)
    qed
  qed
qed simp

end
