(* ===== verification/Ert_Props.thy ===== *)
theory Ert_Props
  imports Ert Ert_Map Index
begin

text \<open>
  What the tree of \<^verbatim>\<open>ert/ERT_int.cpp\<close> does.  As long as all keys share their upper half, the root
  skips that half and the tree is a map.  When a key with another upper half comes, the old keys
  are hung below a new root under a sub-key of the wrong byte order.
\<close>

subsection \<open>The halves of a key\<close>

definition upper :: "u64 \<Rightarrow> u64" where "upper k = drop_bit 32 k AND mask 32"
definition lower :: "u64 \<Rightarrow> u64" where "lower k = k AND mask 32"

lemma sub32_halves [simp]: "sub32 (upper k)" "sub32 (lower k)"
  by (simp_all add: sub32_def upper_def lower_def unat_and_mask)

lemma halves_eq: "upper k = upper j \<Longrightarrow> lower k = lower j \<Longrightarrow> k = j"
proof (rule bit_word_eqI)
  fix n assume a: "upper k = upper j" "lower k = lower j" and n: "n < LENGTH(64)"
  show "bit k n = bit j n"
  proof (cases "n < 32")
    case True
    from a(2) have "bit (lower k) n = bit (lower j) n" by simp
    with True show ?thesis by (simp add: lower_def bit_and_iff bit_mask_iff)
  next
    case False
    from a(1) have "bit (upper k) (n - 32) = bit (upper j) (n - 32)" by simp
    moreover have "n - 32 < 32" using n by simp
    ultimately show ?thesis using False by (simp add: upper_def bit_and_iff bit_mask_iff bit_drop_bit_eq)
  qed
qed

lemma subkey_0: "GET_SUBKEY k 0 32 = Inr (upper k)"
  by (simp add: GET_SUBKEY_def upper_def)

lemma subkey_32: "GET_SUBKEY k 32 32 = Inr (lower k)"
  by (simp add: GET_SUBKEY_def lower_def)

text \<open>The bytes of an upper half.\<close>

definition half_byte :: "u64 \<Rightarrow> nat \<Rightarrow> u8" where
  "half_byte h i = key_byte (push_bit 32 h) i"

lemma bit_byte: "bit (ucast (w AND 0xFF :: u64) :: u8) m \<longleftrightarrow> m < 8 \<and> bit w m"
proof -
  have e: "(0xFF :: u64) = mask 8" by (simp add: mask_eq_exp_minus_1)
  show ?thesis unfolding e by (auto simp: bit_ucast_iff bit_and_iff bit_mask_iff)
qed

lemma half_byte_bit: "i < 4 \<Longrightarrow> bit (half_byte h i) m \<longleftrightarrow> m < 8 \<and> bit h (24 - i * 8 + m)"
  unfolding half_byte_def key_byte_def bit_byte by (auto simp: bit_drop_bit_eq bit_push_bit_iff)

lemma half_bytes_eq:
  assumes "sub32 h" "sub32 h'" "\<And>i. i < 4 \<Longrightarrow> half_byte h i = half_byte h' i"
  shows "h = h'"
proof (rule bit_word_eqI)
  fix n assume "n < LENGTH(64)"
  show "bit h n = bit h' n"
  proof (cases "n < 32")
    case True
    let ?i = "3 - n div 8"
    have i: "?i < 4" "24 - ?i * 8 + n mod 8 = n" using True by presburger+
    from assms(3) [OF i(1)] have "bit (half_byte h ?i) (n mod 8) = bit (half_byte h' ?i) (n mod 8)" by simp
    with i show ?thesis by (simp add: half_byte_bit)
  qed (use sub32_bit [OF assms(1)] sub32_bit [OF assms(2)] in blast)
qed

subsection \<open>Trees whose keys share the upper half\<close>

definition root_header :: "u64 \<Rightarrow> ert_header" where
  "root_header h = \<lparr>len = 4, hdepth = 0, array = [half_byte h 0, half_byte h 1, half_byte h 2, half_byte h 3, 0, 0]\<rparr>"

lemma root_header_simps [simp]:
  "len (root_header h) = 4" "hdepth (root_header h) = 0" "copies (root_header h)"
  by (auto simp: root_header_def copies_def header_init_def numeral_2_eq_2)

lemma root_header_byte [simp]: "i < 4 \<Longrightarrow> array (root_header h) ! i = half_byte h i"
proof -
  assume "i < 4"
  then have "i = 0 \<or> i = 1 \<or> i = 2 \<or> i = 3" by auto
  then show ?thesis by (auto simp: root_header_def)
qed

definition rooted :: "u64 \<Rightarrow> ert \<Rightarrow> bool" where
  "rooted h st \<longleftrightarrow> sub32 h \<and> node_ok st (root st) \<and> header (nodes st ! root st) = root_header h \<and> values_ok (nodes st ! root st)"

lemma rootedD:
  "rooted h st \<Longrightarrow> sub32 h" "rooted h st \<Longrightarrow> node_ok st (root st)"
  "rooted h st \<Longrightarrow> header (nodes st ! root st) = root_header h" "rooted h st \<Longrightarrow> values_ok (nodes st ! root st)"
  by (simp_all add: rooted_def)

lemma matched_bytes: "length (takeWhile P [0..<4]) = 4 \<longleftrightarrow> (\<forall>i<4. P i)"
proof -
  have "length (takeWhile P [0..<4]) = 4 \<longleftrightarrow> takeWhile P [0..<4] = [0..<4]"
    by (metis diff_zero length_upt takeWhile_eq_all_conv takeWhile_eq_take take_all order_refl)
  then show ?thesis by (auto simp: takeWhile_eq_all_conv)
qed

lemma prefix_matches:
  assumes "sub32 h"
  shows "length (takeWhile (\<lambda>i. half_byte (upper k) i = array (root_header h) ! i) [0..<4]) = 4 \<longleftrightarrow> upper k = h"
  unfolding matched_bytes using half_bytes_eq [OF sub32_halves(1) assms, of k] by auto

lemma computePrefix_root:
  "computePrefix (root_header h) k 0 =
    Inr (length (takeWhile (\<lambda>i. half_byte (upper k) i = array (root_header h) ! i) [0..<4]))"
  by (simp add: computePrefix_def subkey_0 half_byte_def)

subsection \<open>Search\<close>

lemma search_rooted:
  assumes "rooted h st"
  shows "upper k \<noteq> h \<Longrightarrow> Search st k = Inr 0"
    "upper k = h \<Longrightarrow> node_map st (root st) (lower k) = Some v \<Longrightarrow> Search st k = Inr v"
    "upper k = h \<Longrightarrow> node_map st (root st) (lower k) = None \<Longrightarrow> Search st k \<in> {Inr 0, Inr (- 1)}"
proof -
  note r = rootedD [OF assms]
  let ?m = "length (takeWhile (\<lambda>i. half_byte (upper k) i = array (root_header h) ! i) [0..<4])"
  have m: "?m \<le> 4" using length_takeWhile_le [of _ "[0..<4]"] by (metis diff_zero length_upt)
  have same: "isSame (array (root_header h)) k 0 4 = Inr (upper k = h)"
    unfolding isSame_def using prefix_matches [OF r(1), of k] m by (auto simp: subkey_0 half_byte_def Let_def)
  have skip: "skip_prefix (header (nodes st ! root st)) k 0 = (if upper k = h then Inr (Inr 4) else Inr (Inl 0))"
    by (simp add: r(3) skip_prefix_def same)
  show "upper k \<noteq> h \<Longrightarrow> Search st k = Inr 0" by (simp add: Search_def search_at.simps [of st] skip)
  assume u: "upper k = h"
  obtain kvs where kvs: "entries_ok (GET_BUCKET_NUM (lower k)) kvs" "node_bucket st (root st) (lower k) = fill kvs"
    using node_bucket_ok [OF r(2) sub32_halves(2), of k] by (auto simp: bucket_ok_def)
  note g = bucket_get_fill [OF kvs(1) sub32_halves(2), of k]
  have s: "Search st k = (case node_get st (root st) (lower k) of None \<Rightarrow> Inr (- 1)
      | Some (next, kv) \<Rightarrow> if next = Plain (- 1) then Inr (- 1) else if kv then plain next else Inr 0)"
    using u by (simp add: Search_def search_at.simps [of st] skip subkey_32 split: option.split)
  have mp: "node_map st (root st) (lower k) = map_of kvs (lower k)"
    by (simp add: node_map_def kvs(2) bucket_map_fill [OF kvs(1)])
  show "node_map st (root st) (lower k) = Some v \<Longrightarrow> Search st k = Inr v"
    using mp by (simp add: s node_get_def kvs(2) g plain_def)
  show "node_map st (root st) (lower k) = None \<Longrightarrow> Search st k \<in> {Inr 0, Inr (- 1)}"
    using mp by (simp add: s node_get_def kvs(2) g)
qed

subsection \<open>Insertion\<close>

lemma put_fuel_enough:
  "2 * (24 - d) + (if P then 0 else 1) < put_fuel"
  unfolding put_fuel_def by (cases P) simp_all

lemma in_bucket_rooted:
  assumes "rooted h st" "sub32 k" "v \<noteq> 0"
  shows "\<exists>st'. in_bucket addr st (root st) 8 k key v RootPtr d = Inr (Done st') \<and> rooted h st' \<and>
    node_map st' (root st') = (node_map st (root st))(k \<mapsto> v)"
proof -
  note r = rootedD [OF assms(1)]
  let ?c = "root st"
  let ?g = "seg_of (nodes st ! ?c) k"
  let ?b = "GET_BUCKET_NUM k"
  let ?bk = "node_bucket st ?c k"
  obtain kvs where kvs: "entries_ok ?b kvs" "?bk = fill kvs"
    using node_bucket_ok [OF r(2) assms(2)] by (auto simp: bucket_ok_def)
  note f = find_index_key [OF kvs(1) assms(2), folded kvs(2)]
  show ?thesis
  proof (cases "find_index (\<lambda>p. fst p = k) kvs")
    case None
    have "next_value ?bk k = Plain 0"
      using None f entries_okD(1) [OF kvs(1)]
      by (auto simp: next_value_def slot_index_def kvs(2) fill_nth simp del: find_index_None)
    moreover obtain st' c' where st': "put put_fuel addr st ?c k (Plain v) True RootPtr = Inr (st', c')" "root st' = c'"
      "node_ok st' c'" "node_map st' c' = (node_map st ?c)(k \<mapsto> v)" "header (nodes st' ! c') = root_header h" "values_ok (nodes st' ! c')"
      using put_root [OF r(2) refl r(3) root_header_simps(3) r(4) assms(2,3) put_fuel_enough, of addr] by blast
    ultimately show ?thesis using r(1) by (simp add: in_bucket_def Let_def rooted_def)
  next
    case (Some i)
    from find_index_SomeD [OF Some] have i: "i < length kvs" "fst (kvs ! i) = k" by auto
    note o = entries_okD(1,5) [OF kvs(1)]
    have si: "slot_index ?bk k = i" "i < 4" using Some f i o by (simp_all add: slot_index_def)
    have bi: "?bk ! i = slot_for (kvs ! i)" using fill_nth [OF o(1) si(2)] i(1) kvs(2) by simp
    have "next_value ?bk k \<noteq> Plain 0" using si bi o(2) [OF i(1)] by (simp add: next_value_def)
    moreover have place: "findPlace ?bk k (depth (segs st ! ?g)) = Some i" using f Some by (simp add: findPlace_def)
    moreover have "(?bk ! i)\<lparr>val := Plain v\<rparr> = store_slot (bucket (segs st ! ?g) ! ?b ! i) k (Plain v) True"
      using bi i(2) put_flag_ne [OF assms(2) assms(2)] by (simp add: store_slot_def slot_for_def flip: node_bucket_def)
    ultimately show ?thesis using put_store [OF r(2) assms(2,3) place] r(1,3,4) si(1)
      by (simp add: in_bucket_def Let_def rooted_def fun_upd_def)
  qed
qed

lemma insert_rooted:
  assumes "rooted h st" "upper key = h" "v \<noteq> 0"
  shows "\<exists>st'. insert_at (Suc fuel) addr junk st (root st) 0 key v RootPtr d = Inr st' \<and> rooted h st' \<and>
    node_map st' (root st') = (node_map st (root st))(lower key \<mapsto> v)"
proof -
  note r = rootedD [OF assms(1)]
  from prefix_matches [OF r(1), of key] assms(2)
  have "computePrefix (root_header h) key 0 = Inr 4" by (simp add: computePrefix_root)
  then have "insert_turn addr junk st (root st) 0 key v RootPtr d = in_bucket addr st (root st) 8 (lower key) key v RootPtr d"
    by (simp add: insert_turn_def Let_def r(3) subkey_32)
  moreover from in_bucket_rooted [OF assms(1) sub32_halves(2) assms(3), of addr key key d] obtain st' where
    "in_bucket addr st (root st) 8 (lower key) key v RootPtr d = Inr (Done st')" "rooted h st'"
    "node_map st' (root st') = (node_map st (root st))(lower key \<mapsto> v)" by blast
  ultimately show ?thesis by (intro exI [of _ st']) simp
qed

subsection \<open>The first insertion\<close>

lemma assign_root:
  assumes "len H = 4" "hdepth H = 0"
  shows "assign H key 0 = Inr (root_header (upper key))"
proof -
  define f :: "nat \<Rightarrow> u8" where "f i = ucast (drop_bit ((5 - i) * 8) (push_bit 16 (upper key)) AND 0xFF)" for i
  have "f i = half_byte (upper key) i" if "i < 4" for i
  proof (rule bit_word_eqI)
    fix m assume "m < LENGTH(8)"
    moreover have "(5 - i) * 8 + m - 16 = 24 - i * 8 + m" "16 \<le> (5 - i) * 8 + m" using that by linarith+
    ultimately show "bit (f i) m = bit (half_byte (upper key) i) m"
      using that sub32_bit [of "upper key" "24 - i * 8 + m"]
      unfolding f_def half_byte_bit [OF that] bit_byte bit_drop_bit_eq comp_def bit_push_bit_iff by auto
  qed
  moreover have "f i = 0" if "i = 4 \<or> i = 5" for i
    unfolding f_def by (rule bit_word_eqI) (use that in \<open>auto simp: bit_byte bit_drop_bit_eq bit_push_bit_iff\<close>)
  ultimately have "map f [0..<6] = array (root_header (upper key))"
    by (simp add: root_header_def upt_rec numeral_2_eq_2 numeral_3_eq_3)
  with assms show ?thesis unfolding assign_def f_def by (simp add: subkey_0 root_header_def)
qed

definition fresh_root :: "u64 \<Rightarrow> ert" where
  "fresh_root h = NewExtendibleRadixTreeInt\<lparr>nodes := [(nodes NewExtendibleRadixTreeInt ! 0)\<lparr>header := root_header h\<rparr>]\<rparr>"

lemma fresh_nodes:
  "nodes NewExtendibleRadixTreeInt = [\<lparr>header = \<lparr>len = 7, hdepth = 0, array = replicate 6 0\<rparr>, global_depth = 0, dir = [0],
     treeNodeValues = Some (replicate 4 (0, 0))\<rparr>]"
  "root NewExtendibleRadixTreeInt = 0" "segs NewExtendibleRadixTreeInt = [NewERTIntSegment 0]" "pairs NewExtendibleRadixTreeInt = []"
  by (simp_all add: NewExtendibleRadixTreeInt_def NewERTIntNode_def Let_def)

lemma fresh_seg: "seg_ok (NewERTIntSegment d)" "bucket (NewERTIntSegment d) ! GET_BUCKET_NUM k = fill []"
proof -
  have "entries_ok b [] \<and> replicate 4 empty_slot = fill []" for b by (simp add: entries_ok_def fill_def)
  then show "seg_ok (NewERTIntSegment d)" by (auto simp: seg_ok_def bucket_ok_def NewERTIntSegment_def)
  show "bucket (NewERTIntSegment d) ! GET_BUCKET_NUM k = fill []"
    using bucket_num_less [of k] by (simp add: NewERTIntSegment_def fill_def)
qed

lemma fresh_rooted:
  assumes "sub32 h"
  shows "rooted h (fresh_root h)" "node_map (fresh_root h) (root (fresh_root h)) = Map.empty"
proof -
  have "depth (NewERTIntSegment 0) = 0" by (simp add: NewERTIntSegment_def)
  then show "rooted h (fresh_root h)"
    using assms fresh_seg(1) by (auto simp: rooted_def fresh_root_def fresh_nodes values_ok_def node_ok_def depth_at_def)
  have "bucket_map (fill []) k = None" if "sub32 k" for k
    using bucket_map_fill [of 0 "[]", OF _ that] by (simp add: entries_ok_def)
  then show "node_map (fresh_root h) (root (fresh_root h)) = Map.empty"
    by (auto simp: node_map_def node_bucket_def fresh_root_def fresh_nodes seg_of_def fresh_seg(2))
qed

lemma insert_fresh:
  assumes "v \<noteq> 0"
  shows "\<exists>st'. Insert addr junk NewExtendibleRadixTreeInt key v = Inr st' \<and> rooted (upper key) st' \<and>
    node_map st' (root st') = [lower key \<mapsto> v]"
proof -
  let ?st = NewExtendibleRadixTreeInt
  have t: "insert_turn addr junk ?st 0 0 key v RootPtr 0 = Inr (GoOn (fresh_root (upper key)) 0 0 RootPtr 0)"
    by (simp add: insert_turn_def fresh_nodes fresh_root_def assign_root)
  have f: "insert_fuel = Suc (Suc 6)" by (simp add: insert_fuel_def)
  have "root (fresh_root (upper key)) = 0" by (simp add: fresh_root_def fresh_nodes)
  moreover have "hdepth (header (nodes ?st ! root ?st)) = 0" by (simp add: fresh_nodes)
  moreover have "insert_at (Suc fuel) addr junk ?st 0 0 key v RootPtr 0 =
    insert_at fuel addr junk (fresh_root (upper key)) 0 0 key v RootPtr 0" for fuel by (simp add: t)
  ultimately have "Insert addr junk ?st key v = insert_at (Suc 6) addr junk (fresh_root (upper key)) (root (fresh_root (upper key))) 0 key v RootPtr 0"
    by (simp only: Insert_def f fresh_nodes(2))
  with insert_rooted [OF fresh_rooted(1) [OF sub32_halves(1)] refl assms, of 6 addr junk key 0] show ?thesis
    by (simp add: fresh_rooted(2))
qed

lemma insert_ok:
  assumes "rooted h st" "upper key = h" "v \<noteq> 0"
  shows "\<exists>st'. Insert addr junk st key v = Inr st' \<and> rooted h st' \<and> node_map st' (root st') = (node_map st (root st))(lower key \<mapsto> v)"
proof -
  have f: "insert_fuel = Suc 7" by (simp add: insert_fuel_def)
  show ?thesis unfolding Insert_def f by (rule insert_rooted [OF assms])
qed

subsection \<open>Histories\<close>

lemma run_rooted:
  assumes "rooted h st" "\<forall>(k, v)\<in>set kvs. upper k = h \<and> v \<noteq> 0"
  shows "\<exists>st'. run_puts (Insert addr junk) st kvs = Inr st' \<and> rooted h st' \<and>
    (\<forall>k. upper k = h \<longrightarrow> node_map st' (root st') (lower k) =
       (case map_of (rev kvs) k of Some v \<Rightarrow> Some v | None \<Rightarrow> node_map st (root st) (lower k)))"
  using assms
proof (induction kvs arbitrary: st)
  case (Cons kv kvs)
  obtain key v where kv: "kv = (key, v)" by (cases kv)
  from insert_ok [OF Cons.prems(1), of key v addr junk] Cons.prems(2) kv obtain st1 where
    st1: "Insert addr junk st key v = Inr st1" "rooted h st1" "node_map st1 (root st1) = (node_map st (root st))(lower key \<mapsto> v)" by auto
  from Cons.IH [OF st1(2)] Cons.prems(2) obtain st' where
    st': "run_puts (Insert addr junk) st1 kvs = Inr st'" "rooted h st'"
    "\<And>k. upper k = h \<Longrightarrow> node_map st' (root st') (lower k) =
       (case map_of (rev kvs) k of Some v \<Rightarrow> Some v | None \<Rightarrow> node_map st1 (root st1) (lower k))" by auto
  have "lower k = lower key \<longleftrightarrow> k = key" if "upper k = h" for k
    using that Cons.prems(2) kv halves_eq by auto
  then show ?case using st1(1,3) st' kv by (intro exI [of _ st']) (auto simp: map_add_def split: option.splits)
qed simp

lemma run_fresh:
  assumes "kvs \<noteq> []" "\<forall>(k, v)\<in>set kvs. upper k = h \<and> v \<noteq> 0"
  shows "\<exists>st. run_puts (Insert addr junk) NewExtendibleRadixTreeInt kvs = Inr st \<and> rooted h st \<and>
    (\<forall>k. upper k = h \<longrightarrow> node_map st (root st) (lower k) = map_of (rev kvs) k)"
proof -
  obtain key v kvs' where kvs: "kvs = (key, v) # kvs'" using assms(1) by (metis list.exhaust surj_pair)
  from insert_fresh [of v addr junk key] assms(2) kvs obtain st1 where
    st1: "Insert addr junk NewExtendibleRadixTreeInt key v = Inr st1" "rooted h st1" "node_map st1 (root st1) = [lower key \<mapsto> v]" by auto
  from run_rooted [OF st1(2), of kvs' addr junk] assms(2) kvs obtain st where
    st: "run_puts (Insert addr junk) st1 kvs' = Inr st" "rooted h st"
    "\<And>k. upper k = h \<Longrightarrow> node_map st (root st) (lower k) =
       (case map_of (rev kvs') k of Some v \<Rightarrow> Some v | None \<Rightarrow> node_map st1 (root st1) (lower k))" by auto
  have "lower k = lower key \<longleftrightarrow> k = key" if "upper k = h" for k
    using that assms(2) kvs halves_eq by auto
  then show ?thesis using st1(1,3) st kvs by (intro exI [of _ st]) (auto simp: map_add_def split: option.splits)
qed

text \<open>
  C19.  Any sequence of insertions of non-zero values under keys with a common upper half into a
  new ERT succeeds, through all splits and doublings of the root's directory.  Then a search
  returns the last value of each key, and 0 or -1 for keys that were never inserted.
\<close>

theorem ert_history:
  assumes "kvs \<noteq> []" "\<forall>(k, v)\<in>set kvs. upper k = h \<and> v \<noteq> 0"
  shows "\<exists>st. run_puts (Insert addr junk) NewExtendibleRadixTreeInt kvs = Inr st \<and>
    (\<forall>k. case map_of (rev kvs) k of Some v \<Rightarrow> Search st k = Inr v | None \<Rightarrow> Search st k \<in> {Inr 0, Inr (- 1)})"
proof -
  from run_fresh [OF assms] obtain st where st: "run_puts (Insert addr junk) NewExtendibleRadixTreeInt kvs = Inr st" "rooted h st"
    "\<And>k. upper k = h \<Longrightarrow> node_map st (root st) (lower k) = map_of (rev kvs) k" by blast
  have "case map_of (rev kvs) k of Some v \<Rightarrow> Search st k = Inr v | None \<Rightarrow> Search st k \<in> {Inr 0, Inr (- 1)}" for k
  proof (cases "map_of (rev kvs) k")
    case None
    with search_rooted(1,3) [OF st(2), of k] st(3) [of k] show ?thesis by (cases "upper k = h") auto
  next
    case (Some v)
    then have "(k, v) \<in> set kvs" using map_of_SomeD [OF Some] by simp
    then have "upper k = h" using assms(2) by auto
    with Some search_rooted(2) [OF st(2)] st(3) [of k] show ?thesis by simp
  qed
  with st(1) show ?thesis by blast
qed

theorem ert_history_witness:
  "\<exists>st. run_puts (Insert (\<lambda>n. 64 * of_nat n) (0, 0)) NewExtendibleRadixTreeInt [(0x500000001, 7), (0x500000101, 8), (0x500000001, 9)] = Inr st \<and>
    Search st 0x500000001 = Inr 9 \<and> Search st 0x500000101 = Inr 8"
proof -
  let ?kvs = "[(0x500000001, 7), (0x500000101, 8), (0x500000001, 9)] :: (u64 \<times> u64) list"
  have "\<forall>(k, v)\<in>set ?kvs. upper k = 5 \<and> v \<noteq> 0" by (simp add: upper_def mask_eq_exp_minus_1)
  from ert_history [where addr = "\<lambda>n. 64 * of_nat n" and junk = "(0, 0)", OF _ this] obtain st where
    st: "run_puts (Insert (\<lambda>n. 64 * of_nat n) (0, 0)) NewExtendibleRadixTreeInt ?kvs = Inr st"
    "\<forall>k. case map_of (rev ?kvs) k of Some v \<Rightarrow> Search st k = Inr v | None \<Rightarrow> Search st k \<in> {Inr 0, Inr (- 1)}" by blast
  from spec [OF st(2), of "0x500000001"] spec [OF st(2), of "0x500000101"] st(1) show ?thesis by simp
qed

subsection \<open>A key with another upper half\<close>

lemma mismatch_turn:
  assumes "rooted h st" "upper key \<noteq> h"
  defines "m \<equiv> length (takeWhile (\<lambda>i. half_byte (upper key) i = half_byte h i) [0..<4])"
  shows "m < 4" "insert_turn addr junk st (root st) 0 key v RootPtr d = map_sum id Done (split_prefix addr junk st (root st) 0 m key v RootPtr d)"
proof -
  note r = rootedD [OF assms(1)]
  have tw: "takeWhile (\<lambda>i. half_byte (upper key) i = array (root_header h) ! i) [0..<4] =
    takeWhile (\<lambda>i. half_byte (upper key) i = half_byte h i) [0..<4]" by (rule takeWhile_cong) auto
  have "m \<le> 4" unfolding m_def using length_takeWhile_le [of _ "[0..<4]"] by (metis diff_zero length_upt)
  moreover have "m \<noteq> 4" using prefix_matches [OF r(1), of key] assms(2) tw by (simp add: m_def)
  ultimately show m: "m < 4" by simp
  then have "m div 4 = 0" by simp
  then show "insert_turn addr junk st (root st) 0 key v RootPtr d = map_sum id Done (split_prefix addr junk st (root st) 0 m key v RootPtr d)"
    using m by (simp add: insert_turn_def Let_def r(3) computePrefix_root tw flip: m_def)
qed

lemma insert_mismatch:
  assumes "rooted h st" "upper key \<noteq> h"
  shows "Insert addr junk st key v = split_prefix addr junk st (root st) 0
    (length (takeWhile (\<lambda>i. half_byte (upper key) i = half_byte h i) [0..<4])) key v RootPtr 0"
proof -
  have f: "insert_fuel = Suc 7" by (simp add: insert_fuel_def)
  have "insert_at (Suc fuel) addr junk st (root st) 0 key v RootPtr 0 = split_prefix addr junk st (root st) 0
    (length (takeWhile (\<lambda>i. half_byte (upper key) i = half_byte h i) [0..<4])) key v RootPtr 0" for fuel
    by (cases "split_prefix addr junk st (root st) 0 (length (takeWhile (\<lambda>i. half_byte (upper key) i = half_byte h i) [0..<4])) key v RootPtr 0")
      (simp_all add: mismatch_turn(2) [OF assms])
  moreover have "hdepth (header (nodes st ! root st)) = 0" by (simp add: rootedD(3) [OF assms(1)])
  ultimately show ?thesis by (simp only: Insert_def f)
qed

text \<open>
  C21.  Once the directory of the root has been doubled, its table of values is a null pointer, and
  the first key with another upper half makes the insertion read through it.
\<close>

theorem ert_grown_root_crashes:
  assumes "kvs \<noteq> []" "\<forall>(k, v)\<in>set kvs. upper k = h \<and> v \<noteq> 0"
    and "run_puts (Insert addr junk) NewExtendibleRadixTreeInt kvs = Inr st" "0 < global_depth (nodes st ! root st)"
    and "upper key \<noteq> h"
  shows "Insert addr junk st key v = Inl NullDeref"
proof -
  from run_fresh [OF assms(1,2), of addr junk] assms(3) have r: "rooted h st" by auto
  have "treeNodeValues (nodes st ! root st) = None" using rootedD(4) [OF r] assms(4) by (simp add: values_ok_def split: option.splits)
  then show ?thesis by (simp add: insert_mismatch [OF r assms(5)] split_prefix_def copy_values_def Let_def split: prod.split)
qed

text \<open>Five keys in one bucket of which one has another top bit double the directory.\<close>

definition far_node :: "nat \<Rightarrow> u64" where "far_node n = 0x7f0000000000 + 64 * of_nat n"

definition grown_keys :: "(u64 \<times> u64) list" where
  "grown_keys = [(1, 10), (0x101, 11), (0x201, 12), (0x301, 13), (0x80000001, 14)]"

lemma grown_keys_depth:
  "map_sum id (\<lambda>st. global_depth (nodes st ! root st)) (run_puts (Insert far_node (0, 0)) NewExtendibleRadixTreeInt grown_keys) = Inr 1"
  by code_simp

theorem ert_grown_root_crashes_witness:
  "\<exists>st. run_puts (Insert far_node (0, 0)) NewExtendibleRadixTreeInt grown_keys = Inr st \<and>
    Insert far_node (0, 0) st 0x100000001 15 = Inl NullDeref"
proof -
  have k: "grown_keys \<noteq> []" "\<forall>(k, v)\<in>set grown_keys. upper k = 0 \<and> v \<noteq> 0"
    by (simp_all add: grown_keys_def upper_def mask_eq_exp_minus_1)
  from grown_keys_depth obtain st where
    st: "run_puts (Insert far_node (0, 0)) NewExtendibleRadixTreeInt grown_keys = Inr st" "global_depth (nodes st ! root st) = 1"
    by (auto simp: map_sum_def split: sum.splits)
  have "upper 0x100000001 \<noteq> 0" by (simp add: upper_def mask_eq_exp_minus_1)
  from ert_grown_root_crashes [OF k st(1) _ this] st show ?thesis by auto
qed

end
