(* ===== verification/Ert_Prefix.thy ===== *)
theory Ert_Prefix
  imports Ert_Props
begin

text \<open>
  Below a prefix.  The first key with another upper half puts a new root above the old one and
  hangs the old root under a sub-key that is read from the prefix in the wrong byte order and
  from the wrong position.
\<close>

subsection \<open>Sub-keys in use\<close>

text \<open>The sub-keys in the slots of a node with one segment.\<close>

definition slot_keys :: "ert \<Rightarrow> nat \<Rightarrow> u64 set" where
  "slot_keys st g = {REMOVE_NODE_FLAG (subkey s) | s b. b < 256 \<and> s \<in> set (bucket (segs st ! g) ! b)}"

definition one_segment :: "ert \<Rightarrow> nat \<Rightarrow> nat \<Rightarrow> bool" where
  "one_segment st c g \<longleftrightarrow>
     c < length (nodes st) \<and> global_depth (nodes st ! c) = 0 \<and> dir (nodes st ! c) = [g] \<and> g < length (segs st) \<and>
     length (bucket (segs st ! g)) = 256 \<and> (\<forall>b<256. length (bucket (segs st ! g) ! b) = 4)"

lemma remove_remove: "REMOVE_NODE_FLAG (REMOVE_NODE_FLAG k) = REMOVE_NODE_FLAG k"
  by (simp add: REMOVE_NODE_FLAG_def)

lemma store_slot_key:
  "sub32 k \<Longrightarrow> REMOVE_NODE_FLAG (subkey (store_slot s k v kv)) = k"
  by (auto simp: store_slot_def)

lemma one_segment_put:
  assumes "one_segment st c g" "sub32 k" "empty_slot \<in> set (bucket (segs st ! g) ! GET_BUCKET_NUM k)"
  shows "\<exists>i<4. put (Suc fuel) addr st c k v kv bef =
      Inr (set_slot st g (GET_BUCKET_NUM k) i (store_slot (bucket (segs st ! g) ! GET_BUCKET_NUM k ! i) k v kv), c)"
proof -
  let ?bk = "bucket (segs st ! g) ! GET_BUCKET_NUM k"
  have o: "seg_of (nodes st ! c) k = g" "node_bucket st c k = ?bk" "length ?bk = 4"
    using assms(1) bucket_num_less [of k] by (simp_all add: one_segment_def seg_of_def node_bucket_def)
  have "find_index (free_slot k d) ?bk \<noteq> None" for d
    using assms(3) by (auto simp: free_slot_def intro: bexI [of _ empty_slot])
  then have "findPlace ?bk k d \<noteq> None" for d
    by (simp add: findPlace_def split: option.split del: find_index_None)
  then obtain i where i: "findPlace ?bk k (depth (segs st ! g)) = Some i" by blast
  then have "i < 4" using o(3) by (auto simp: findPlace_def split: option.splits dest!: find_index_SomeD)
  with i o show ?thesis by (intro exI [of _ i]) (simp add: Let_def)
qed

lemma one_segment_set:
  assumes "one_segment st c g" "b < 256" "i < 4"
  shows "one_segment (set_slot st g b i x) c g"
    "slot_keys (set_slot st g b i x) g \<subseteq> insert (REMOVE_NODE_FLAG (subkey x)) (slot_keys st g)"
    "b' < 256 \<Longrightarrow> bucket (segs (set_slot st g b i x) ! g) ! b' =
      (if b' = b then (bucket (segs st ! g) ! b)[i := x] else bucket (segs st ! g) ! b')"
proof -
  have g: "g < length (segs st)" "length (bucket (segs st ! g)) = 256" using assms(1) by (simp_all add: one_segment_def)
  show bk: "bucket (segs (set_slot st g b i x) ! g) ! b' =
      (if b' = b then (bucket (segs st ! g) ! b)[i := x] else bucket (segs st ! g) ! b')" if "b' < 256" for b'
    using g assms(2) that by (simp add: set_slot_segs(1) [OF g(1)] nth_list_update)
  show "one_segment (set_slot st g b i x) c g"
    using assms(1) bk by (auto simp: one_segment_def set_slot_segs)
  show "slot_keys (set_slot st g b i x) g \<subseteq> insert (REMOVE_NODE_FLAG (subkey x)) (slot_keys st g)"
    unfolding slot_keys_def using bk set_update_subset_insert [of _ i x] by (fastforce split: if_splits)
qed

text \<open>A search below the root for a sub-key that is in no slot.\<close>

lemma search_absent:
  assumes "one_segment st (root st) g" "len (header (nodes st ! root st)) < 4" "upper k \<notin> slot_keys st g"
  shows "Search st k = Inr (- 1)"
proof -
  have "node_bucket st (root st) (upper k) = bucket (segs st ! g) ! GET_BUCKET_NUM (upper k)"
    using assms(1) by (simp add: one_segment_def seg_of_def node_bucket_def)
  then have "node_get st (root st) (upper k) = None"
    using assms(3) bucket_num_less [of "upper k"] unfolding slot_keys_def
    by (fastforce simp: node_get_def bucket_get_def split: option.splits dest!: find_index_SomeD)
  moreover have "skip_prefix (header (nodes st ! root st)) k 0 = Inr (Inr 0)"
    using assms(2) by (simp add: skip_prefix_def)
  ultimately show ?thesis by (simp add: Search_def search_at.simps [of st] subkey_0)
qed

subsection \<open>The new root\<close>

lemma sub32I: "(\<And>n. 32 \<le> n \<Longrightarrow> \<not> bit k n) \<Longrightarrow> sub32 k"
proof -
  assume "\<And>n. 32 \<le> n \<Longrightarrow> \<not> bit k n"
  then have "bit (k AND mask 32) n = bit k n" for n by (cases "n < 32") (auto simp: bit_and_iff bit_mask_iff)
  then have "k AND mask 32 = k" by (intro bit_word_eqI) simp
  then have "unat k = unat k mod 2 ^ 32" using unat_and_mask [of k 32] by simp
  then show "sub32 k" unfolding sub32_def by (metis mod_less_divisor zero_less_numeral zero_less_power)
qed

lemma sub32_GET_32BITS: "sub32 (GET_32BITS n m)"
  by (rule sub32I)
    (auto simp: GET_32BITS_def Let_def bit_or_iff bit_push_bit_iff bit_ucast_iff dest: bit_imp_le_length)

definition common_bytes :: "u64 \<Rightarrow> u64 \<Rightarrow> nat" where
  "common_bytes h k = length (takeWhile (\<lambda>i. half_byte (upper k) i = half_byte h i) [0..<4])"

lemma fresh_slot_keys:
  assumes "g < length (segs st)" "segs st ! g = NewERTIntSegment d"
  shows "slot_keys st g = {0}"
proof -
  have "bucket (segs st ! g) ! b = replicate 4 empty_slot" if "b < 256" for b
    using assms that by (simp add: NewERTIntSegment_def)
  then show ?thesis unfolding slot_keys_def by (auto intro!: exI [of _ empty_slot] exI [of _ "0 :: nat"])
qed

lemma split_effect:
  assumes "rooted h st" "global_depth (nodes st ! root st) = 0" "m < 4"
  defines "L \<equiv> GET_32BITS (nodes st ! root st) m"
  shows "\<exists>st' g. split_prefix addr junk st (root st) 0 m key v RootPtr 0 = Inr st' \<and> one_segment st' (root st') g \<and>
    root st' = length (nodes st) \<and> len (header (nodes st' ! root st')) = m \<and> slot_keys st' g \<subseteq> {0, upper key, L}"
proof -
  note r = rootedD [OF assms(1)]
  let ?c = "root st"
  let ?c1 = "length (nodes st)"
  let ?g = "length (segs st)"
  define n1 where "n1 = \<lparr>header = \<lparr>len = 7, hdepth = 0, array = replicate 6 0\<rparr>, global_depth = 0, dir = [?g],
      treeNodeValues = Some (replicate 4 (0, 0) :: (u64 \<times> u64) list)\<rparr>"
  define st1 where "st1 = st\<lparr>nodes := nodes st @ [n1], segs := segs st @ [NewERTIntSegment 0]\<rparr>"
  have new: "NewERTIntNode st 0 0 = (st1, ?c1)" by (simp add: NewERTIntNode_def Let_def st1_def n1_def)
  obtain vs where "treeNodeValues (nodes st ! ?c) = Some vs"
    using r(4) assms(2) by (auto simp: values_ok_def split: option.splits)
  then obtain ws where ws: "copy_values junk 4 m (treeNodeValues (nodes st ! ?c)) (the (treeNodeValues n1)) = Inr ws"
    by (simp add: copy_values_def)
  have c: "?c < ?c1" by (rule ert_node_okD(1) [OF r(2)])
  define h1 where "h1 = header_init (header n1) (root_header h) m 0"
  have h1: "len h1 = m" "hdepth h1 = 0" by (simp_all add: h1_def header_init_def)
  define st2 where "st2 = st1\<lparr>nodes := (nodes st1)[?c1 := n1\<lparr>header := h1, treeNodeValues := Some ws\<rparr>], pairs := pairs st1 @ [(key, v)]\<rparr>"
  have s2: "nodes st2 = nodes st @ [n1\<lparr>header := h1, treeNodeValues := Some ws\<rparr>]" "segs st2 ! ?g = NewERTIntSegment 0"
    "length (segs st2) = Suc ?g" by (simp_all add: st2_def st1_def)
  have one2: "one_segment st2 ?c1 ?g" using s2 by (simp add: one_segment_def n1_def NewERTIntSegment_def)
  have e2: "bucket (segs st2 ! ?g) ! GET_BUCKET_NUM k = replicate 4 empty_slot" for k
    using bucket_num_less [of k] by (simp add: s2(2) NewERTIntSegment_def)
  have f: "put_fuel = Suc 63" by (simp add: put_fuel_def)
  from one_segment_put [OF one2 sub32_halves(1), of key 63 addr "PairPtr (length (pairs st1))" True LocalPtr] e2 [of "upper key"]
  obtain i where i: "i < 4" "put put_fuel addr st2 ?c1 (upper key) (PairPtr (length (pairs st1))) True LocalPtr =
      Inr (set_slot st2 ?g (GET_BUCKET_NUM (upper key)) i (store_slot empty_slot (upper key) (PairPtr (length (pairs st1))) True), ?c1)"
    unfolding f by auto
  define st3 where "st3 = set_slot st2 ?g (GET_BUCKET_NUM (upper key)) i (store_slot empty_slot (upper key) (PairPtr (length (pairs st1))) True)"
  note o3 = one_segment_set [OF one2 bucket_num_less [of "upper key"] i(1), where x = "store_slot empty_slot (upper key) (PairPtr (length (pairs st1))) True", folded st3_def]
  have n3: "nodes st3 = nodes st2" by (simp add: st3_def)
  have "nodes st3 ! ?c = nodes st ! ?c" using c by (simp add: n3 s2(1) nth_append)
  then have L: "GET_32BITS (nodes st3 ! ?c) m = L" "sub32 L" by (simp_all add: L_def sub32_GET_32BITS)
  have "empty_slot \<in> set (bucket (segs st3 ! ?g) ! GET_BUCKET_NUM L)"
  proof -
    have "empty_slot \<in> set ((replicate 4 empty_slot)[i := x])" for x
      using i(1) by (auto simp: set_conv_nth intro!: exI [of _ "if i = 0 then 1 else 0"])
    then show ?thesis using o3(3) [OF bucket_num_less [of L]] e2 by simp
  qed
  from one_segment_put [OF o3(1) L(2) this, of 63 addr "NodePtr ?c" False LocalPtr] obtain j x where
    j: "j < 4" "put put_fuel addr st3 ?c1 L (NodePtr ?c) False LocalPtr = Inr (set_slot st3 ?g (GET_BUCKET_NUM L) j x, ?c1)"
    "REMOVE_NODE_FLAG (subkey x) = L"
    unfolding f using store_slot_key [OF L(2)] by blast
  define st4 where "st4 = set_slot st3 ?g (GET_BUCKET_NUM L) j x"
  note o4 = one_segment_set [OF o3(1) bucket_num_less [of L] j(1), where x = x, folded st4_def]
  define st5 where "st5 = st4\<lparr>nodes := (nodes st4)[?c := (nodes st4 ! ?c)\<lparr>header := shorten (header (nodes st4 ! ?c)) m 0\<rparr>]\<rparr>"
  have n4: "nodes st4 ! ?c1 = n1\<lparr>header := h1, treeNodeValues := Some ws\<rparr>" by (simp add: st4_def n3 s2(1))
  have sp: "split_prefix addr junk st ?c 0 m key v RootPtr 0 = Inr (st5\<lparr>root := ?c1\<rparr>)"
  proof -
    have st: "(if (0 :: nat) + m mod 4 \<noteq> 0 then 0 else m) = 0" using assms(3) by auto
    have n: "nodes st1 ! ?c1 = n1" by (simp add: st1_def)
    show ?thesis
      unfolding split_prefix_def Let_def new prod.case r(3) root_header_simps n ws sum.case st subkey_0
        h1_def [symmetric] st2_def [symmetric] i(2) st3_def [symmetric] L(1) j(2) st4_def [symmetric]
      by (simp add: n4 h1 link_def st5_def)
  qed
  let ?st = "st5\<lparr>root := ?c1\<rparr>"
  have n5: "nodes ?st ! ?c1 = n1\<lparr>header := h1, treeNodeValues := Some ws\<rparr>" "segs ?st = segs st4" "length (nodes ?st) = length (nodes st4)"
    using c n4 by (simp_all add: st5_def)
  have "one_segment ?st ?c1 ?g" using o4(1) n5 n4 by (simp add: one_segment_def)
  moreover have "slot_keys ?st ?g = slot_keys st4 ?g" by (simp add: slot_keys_def n5(2))
  moreover have "slot_keys st2 ?g = {0}" by (rule fresh_slot_keys) (use s2 in simp_all)
  then have "slot_keys st4 ?g \<subseteq> {0, upper key, L}"
    using o4(2) o3(2) j(3) store_slot_key [OF sub32_halves(1)] by auto
  ultimately show ?thesis unfolding sp using n5(1) h1 by (intro exI [of _ ?st] exI [of _ ?g]) simp
qed

lemma zero_prefix:
  assumes "rooted 0 st" "global_depth (nodes st ! root st) = 0" "m < 4"
  shows "GET_32BITS (nodes st ! root st) m = 0"
proof -
  have "half_byte 0 i = 0" for i by (simp add: half_byte_def key_byte_def)
  then have "array (header (nodes st ! root st)) = replicate 6 0"
    by (simp add: rootedD(3) [OF assms(1)] root_header_def numeral_eq_Suc)
  moreover have "m = 0 \<or> m = 1 \<or> m = 2 \<or> m = 3" using assms(3) by auto
  ultimately show ?thesis using assms(2) by (auto simp: GET_32BITS_def nth_append)
qed

text \<open>
  C22.  After insertions of non-zero values under keys with one upper half, and as long as the
  directory of the root has not grown, a key with another upper half makes a new node the root,
  where the old root hangs under the four bytes of its prefix from the first differing one, in
  little-endian order.  Unless that number is the old upper half, every key inserted before is
  lost: the insertion succeeds, and then all of them are reported as absent.
\<close>

theorem ert_split_loses_keys:
  assumes "kvs \<noteq> []" "\<forall>(k, v)\<in>set kvs. upper k = h \<and> v \<noteq> 0"
    and "run_puts (Insert addr junk) NewExtendibleRadixTreeInt kvs = Inr st" "global_depth (nodes st ! root st) = 0"
    and "upper key \<noteq> h" "GET_32BITS (nodes st ! root st) (common_bytes h key) \<noteq> h"
  shows "\<exists>st'. Insert addr junk st key v = Inr st' \<and> root st' = length (nodes st) \<and>
    (\<forall>(k, w)\<in>set kvs. Search st' k = Inr (- 1))"
proof -
  from run_fresh [OF assms(1,2), of addr junk] assms(3) have r: "rooted h st" by auto
  have m: "common_bytes h key < 4" unfolding common_bytes_def by (rule mismatch_turn(1) [OF r assms(5)])
  from split_effect [OF r assms(4) m, of addr junk key v] obtain st' g where
    s: "split_prefix addr junk st (root st) 0 (common_bytes h key) key v RootPtr 0 = Inr st'" "one_segment st' (root st') g"
    "root st' = length (nodes st)" "len (header (nodes st' ! root st')) < 4" "slot_keys st' g \<subseteq> {0, upper key, GET_32BITS (nodes st ! root st) (common_bytes h key)}"
    using m by auto
  have "h \<noteq> 0" using zero_prefix [of st "common_bytes h key"] r m assms(4,6) by auto
  then have "h \<notin> slot_keys st' g" using s(5) assms(5,6) by auto
  then have "\<forall>(k, w)\<in>set kvs. Search st' k = Inr (- 1)" using search_absent [OF s(2,4)] assms(2) by auto
  moreover have "Insert addr junk st key v = Inr st'" using insert_mismatch [OF r assms(5)] s(1) by (simp add: common_bytes_def)
  ultimately show ?thesis using s(3) by blast
qed

lemma split_case:
  "map_sum id (\<lambda>st. (global_depth (nodes st ! root st), GET_32BITS (nodes st ! root st) (common_bytes 0x100 0x20000000001)))
     (run_puts (Insert far_node (0, 0)) NewExtendibleRadixTreeInt [(0x10000000001, 7)]) = Inr (0, 1)"
  by code_simp

theorem ert_split_loses_keys_witness:
  "\<exists>st st'. run_puts (Insert far_node (0, 0)) NewExtendibleRadixTreeInt [(0x10000000001, 7)] = Inr st \<and>
    Insert far_node (0, 0) st 0x20000000001 8 = Inr st' \<and> Search st' 0x10000000001 = Inr (- 1)"
proof -
  have k: "[(0x10000000001, 7)] \<noteq> []" "\<forall>(k, v)\<in>set [(0x10000000001, 7)]. upper k = 0x100 \<and> v \<noteq> (0 :: u64)"
    by (simp_all add: upper_def mask_eq_exp_minus_1)
  from split_case obtain st where
    st: "run_puts (Insert far_node (0, 0)) NewExtendibleRadixTreeInt [(0x10000000001, 7)] = Inr st" "global_depth (nodes st ! root st) = 0"
    "GET_32BITS (nodes st ! root st) (common_bytes 0x100 0x20000000001) = 1"
    by (auto simp: map_sum_def split: sum.splits)
  have "upper 0x20000000001 \<noteq> 0x100" by (simp add: upper_def mask_eq_exp_minus_1)
  from ert_split_loses_keys [OF k st(1,2) this, of 8] st show ?thesis by auto
qed

end
