(* ===== verification/Ert_Scan.thy ===== *)
theory Ert_Scan
  imports Ert_Props
begin

text \<open>
  Range scans and the memory profile of \<^verbatim>\<open>ert/ERT_int.cpp\<close>.  The scans append to a vector; here
  they return the list of pairs appended.  Positions are counted in bits.  The recursion over
  the levels of nodes is counted down; keys of 8 bytes allow two levels.
\<close>

subsection \<open>Slots\<close>

text \<open>The slots of the segments in a part of a directory, skipping an entry that repeats the last one.\<close>

definition dir_slots :: "ert \<Rightarrow> nat list \<Rightarrow> (nat \<times> ert_slot) list" where
  "dir_slots st gs = concat (map (\<lambda>g. map (Pair g) (concat (bucket (segs st ! g)))) (remdups_adj gs))"

text \<open>A slot is passed over when it is empty, or a copy left behind by a split.\<close>

definition passed_over :: "ert_node \<Rightarrow> nat \<Rightarrow> ert_slot \<Rightarrow> bool" where
  "passed_over n g s \<longleftrightarrow>
     (REMOVE_NODE_FLAG (subkey s) = 0 \<and> val s = Plain 0) \<or> g \<noteq> seg_of n (REMOVE_NODE_FLAG (subkey s))"

text \<open>The prefix and the position behind the header of a node; byte \<open>i\<close> is shifted by \<open>len - i\<close> bits.\<close>

definition extend_prefix :: "ert_header \<Rightarrow> u64 \<Rightarrow> nat \<Rightarrow> u64 \<times> nat" where
  "extend_prefix h prefix pos =
     (if len h mod 4 = 0
      then (push_bit (len h * 8) prefix + sum_list (map (\<lambda>i. push_bit (len h - i) (ucast (array h ! i))) [0..<len h]),
            pos + len h * 8)
      else (prefix, pos))"

definition report :: "ert \<Rightarrow> nat \<Rightarrow> u64 \<Rightarrow> ert_value \<Rightarrow> (u64 \<times> u64) list res" where
  "report st pos key v =
     (if pos = 64 then map_sum id (\<lambda>w. [(key, w)]) (plain v) else map_sum id (\<lambda>p. [p]) (read_pair st v))"

fun getAllNodes :: "nat \<Rightarrow> ert \<Rightarrow> nat \<Rightarrow> nat \<Rightarrow> u64 \<Rightarrow> (u64 \<times> u64) list res" where
  "getAllNodes 0 st c pos prefix = Inl OutOfFuel"
| "getAllNodes (Suc fuel) st c pos prefix =
     (let n = nodes st ! c; (pre, p) = extend_prefix (header n) prefix pos;
          prefix' = push_bit 32 pre; pos' = p + 32
      in collect (\<lambda>(g, s).
           let cur = REMOVE_NODE_FLAG (subkey s)
           in if passed_over n g s then Inr []
              else if pos' = 64 \<or> GET_NODE_FLAG (subkey s) then report st pos' (cur + prefix') (val s)
              else if val s = Plain 0 then Inr []
              else (case read_node (val s) of Inl e \<Rightarrow> Inl e | Inr d \<Rightarrow> getAllNodes fuel st d pos' (prefix' + cur)))
         (dir_slots st (dir n)))"

definition scan_fuel :: nat where "scan_fuel = 3"

subsection \<open>Range scans\<close>

text \<open>
  Comparing a bound with the prefix: \<open>None\<close> if all bytes agree, \<open>Some greater\<close> for the first that
  does not.  The code writes \<^verbatim>\<open>GET_SUBKEY(left, pos + i, 8)\<close> with a position in bits and a byte index,
  and the macro does not put its argument in parentheses: the shift is \<open>64 - pos + i - 8\<close>.
\<close>

definition bound_byte :: "u64 \<Rightarrow> nat \<Rightarrow> nat \<Rightarrow> u64 res" where
  "bound_byte b pos i =
     (if 56 + i < pos \<or> pos + 64 \<le> 56 + i then Inl BadShift else Inr (drop_bit (56 + i - pos) b AND mask 8))"

fun compare_bound :: "ert_header \<Rightarrow> u64 \<Rightarrow> nat \<Rightarrow> nat list \<Rightarrow> bool option res" where
  "compare_bound h b pos [] = Inr None"
| "compare_bound h b pos (i # is) =
     (case bound_byte b pos i of
        Inl e \<Rightarrow> Inl e
      | Inr s \<Rightarrow> if s = ucast (array h ! i) then compare_bound h b pos is else Inr (Some (ucast (array h ! i) < s)))"

definition prefix_indices :: "ert_header \<Rightarrow> nat list" where
  "prefix_indices h = (if len h mod 4 = 0 then [0..<len h] else [])"

text \<open>
  The bound of a node: its sub-key, \<open>UINT64_MAX\<close> if the prefix has decided the comparison, and
  its directory entry.
\<close>

definition bound_in :: "ert_node \<Rightarrow> u64 \<Rightarrow> nat \<Rightarrow> nat \<Rightarrow> bool option \<Rightarrow> (u64 \<times> nat) res" where
  "bound_in n b pos entry decided =
     (if decided = None
      then map_sum id (\<lambda>k. (k, GET_SEG_NUM k (global_depth n))) (GET_SUBKEY b pos 32)
      else Inr (- 1, entry))"

definition in_range :: "u64 \<Rightarrow> u64 \<Rightarrow> u64 \<Rightarrow> bool" where
  "in_range l r cur \<longleftrightarrow> (l = - 1 \<or> l < cur) \<and> (r = - 1 \<or> cur < r)"

fun nodeScan :: "nat \<Rightarrow> ert \<Rightarrow> nat \<Rightarrow> u64 \<Rightarrow> u64 \<Rightarrow> nat \<Rightarrow> u64 \<Rightarrow> (u64 \<times> u64) list res" where
  "nodeScan 0 st c left right pos prefix = Inl OutOfFuel"
| "nodeScan (Suc fuel) st c left right pos prefix =
     (let n = nodes st ! c; h = header n;
          down = (\<lambda>pos' prefix' v. if v = Plain 0 then nodeScan fuel st (root st) left right pos' prefix'
            else (case read_node v of Inl e \<Rightarrow> Inl e | Inr d \<Rightarrow> nodeScan fuel st d left right pos' prefix'))
      in case compare_bound h left pos (prefix_indices h) of
           Inl e \<Rightarrow> Inl e
         | Inr dl \<Rightarrow>
             if dl = Some True then Inr []
             else (case compare_bound h right pos (prefix_indices h) of
                     Inl e \<Rightarrow> Inl e
                   | Inr dr \<Rightarrow>
                       if dr = Some False then Inr []
                       else let (pre, p) = extend_prefix h prefix pos; prefix' = push_bit 32 pre; pos' = p + 32
                         in case bound_in n left p 0 dl of
                              Inl e \<Rightarrow> Inl e
                            | Inr (l, lp) \<Rightarrow>
                                (case bound_in n right p (length (dir n) - 1) dr of
                                   Inl e \<Rightarrow> Inl e
                                 | Inr (r, rp) \<Rightarrow>
                                     if l = r
                                     then (case node_get st c l of
                                             None \<Rightarrow> if pos' = 64 then Inr [(l + prefix', - 1)] else Inl UninitRead
                                           | Some (v, kv) \<Rightarrow>
                                               if v = Plain 0 then Inr []
                                               else if pos' = 64 \<or> kv then report st pos' (l + prefix') v
                                               else down pos' (prefix' + l) v)
                                     else collect (\<lambda>(g, s).
                                            let cur = REMOVE_NODE_FLAG (subkey s)
                                            in if passed_over n g s then Inr []
                                               else if in_range l r cur
                                               then if pos' = 64 \<or> GET_NODE_FLAG (subkey s) then report st pos' (cur + prefix') (val s)
                                                    else if val s = Plain 0 then Inr []
                                                    else (case read_node (val s) of Inl e \<Rightarrow> Inl e
                                                          | Inr d \<Rightarrow> getAllNodes fuel st d pos' (prefix' + cur))
                                               else if cur = l \<or> cur = r
                                               then if pos' = 64 \<or> GET_NODE_FLAG (subkey s) then report st pos' (cur + prefix') (val s)
                                                    else down pos' (prefix' + cur) (val s)
                                               else Inr [])
                                          (dir_slots st (map ((!) (dir n)) [lp..<rp + 1])))))"

definition scan :: "ert \<Rightarrow> u64 \<Rightarrow> u64 \<Rightarrow> (u64 \<times> u64) list res" where
  "scan st left right = nodeScan scan_fuel st (root st) left right 0 0"

subsection \<open>Memory profile\<close>

definition sizeof_node :: u64 where "sizeof_node = 24"
definition sizeof_bucket :: u64 where "sizeof_bucket = 64"

fun memory_profile :: "nat \<Rightarrow> ert \<Rightarrow> nat \<Rightarrow> nat \<Rightarrow> u64 res" where
  "memory_profile 0 st c pos = Inl OutOfFuel"
| "memory_profile (Suc fuel) st c pos =
     (let n = nodes st ! c; pos' = pos + 32
      in map_sum id (\<lambda>xs. of_nat (length (dir n)) * 8 + sizeof_node + of_nat (length (remdups_adj (dir n))) * (256 * sizeof_bucket) + sum_list xs)
           (if pos' = 64 then Inr []
            else collect (\<lambda>(g, s).
                   if passed_over n g s then Inr []
                   else if GET_NODE_FLAG (subkey s) then Inr [16]
                   else map_sum id (\<lambda>x. [x]) (if val s = Plain 0 then memory_profile fuel st (root st) pos'
                     else (case read_node (val s) of Inl e \<Rightarrow> Inl e | Inr d \<Rightarrow> memory_profile fuel st d pos')))
                 (dir_slots st (dir n))))"

subsection \<open>Every live slot once\<close>

lemma distinct_keyed_concat:
  assumes "distinct xs" "\<And>x. x \<in> set xs \<Longrightarrow> distinct (map f (F x))" "\<And>x y. x \<in> set xs \<Longrightarrow> y \<in> set (F x) \<Longrightarrow> key (f y) = x"
  shows "distinct (map f (concat (map F xs)))"
  using assms
proof (induction xs)
  case (Cons x xs)
  have "f y \<notin> f ` set (concat (map F xs))" if y: "y \<in> set (F x)" for y
  proof
    assume "f y \<in> f ` set (concat (map F xs))"
    then obtain x' y' where "x' \<in> set xs" "y' \<in> set (F x')" "f y = f y'" by auto
    with Cons.prems(3) [of x y] Cons.prems(3) [of x' y'] y have "x \<in> set xs" by auto
    with Cons.prems(1) show False by simp
  qed
  moreover have "distinct (map f (concat (map F xs)))" using Cons.prems by (intro Cons.IH) auto
  ultimately show ?case using Cons.prems(2) [of x] by auto
qed simp

lemma concat_map_concat: "concat (map f (concat (map h xs))) = concat (map (\<lambda>x. concat (map f (h x))) xs)"
  by (induction xs) auto

lemma distinct_runs:
  assumes "\<And>i j m. a \<le> i \<Longrightarrow> i \<le> m \<Longrightarrow> m \<le> j \<Longrightarrow> j < b \<Longrightarrow> f i = f j \<Longrightarrow> f m = f i"
  shows "distinct (remdups_adj (map f [a..<b]))"
  using assms
proof (induction "b - a" arbitrary: a)
  case (Suc d)
  show ?case
  proof (cases "Suc a < b")
    case True
    have u: "map f [a..<b] = f a # f (Suc a) # map f [Suc (Suc a)..<b]" "map f [Suc a..<b] = f (Suc a) # map f [Suc (Suc a)..<b]"
      unfolding upt_conv_Cons [OF Suc_lessD [OF True]] upt_conv_Cons [OF True] by (simp_all only: list.map)
    have ih: "distinct (remdups_adj (map f [Suc a..<b]))"
    proof (rule Suc.hyps(1))
      show "d = b - Suc a" using Suc.hyps(2) by simp
      fix i j m assume "Suc a \<le> i" "i \<le> m" "m \<le> j" "j < b" "f i = f j"
      then show "f m = f i" by (intro Suc.prems [of i m j]) simp_all
    qed
    have "f a \<notin> f ` {Suc a..<b}" if "f a \<noteq> f (Suc a)"
    proof
      assume "f a \<in> f ` {Suc a..<b}"
      then obtain j where "Suc a \<le> j" "j < b" "f a = f j" by auto
      with Suc.prems [of a "Suc a" j] that show False by auto
    qed
    then have "f a \<notin> set (map f [Suc a..<b])" if "f a \<noteq> f (Suc a)" using that by simp
    with ih u show ?thesis by (metis distinct.simps(2) remdups_adj.simps(3) remdups_adj_set)
  next
    case False
    with Suc.hyps(2) have "b = Suc a" by simp
    then show ?thesis by simp
  qed
qed simp

lemma mono_block: "i \<le> m \<Longrightarrow> m \<le> j \<Longrightarrow> i div w = j div w \<Longrightarrow> m div w = i div (w :: nat)"
  by (metis div_le_mono le_antisym)

text \<open>A live slot of a node in which values are stored.\<close>

lemma live_slot:
  assumes "node_ok st c" "g = dir (nodes st ! c) ! i" "i < 2 ^ global_depth (nodes st ! c)" "b < 256" "s \<in> set (bucket (segs st ! g) ! b)"
    "\<not> passed_over (nodes st ! c) g s"
  shows "sub32 (REMOVE_NODE_FLAG (subkey s))" "GET_BUCKET_NUM (REMOVE_NODE_FLAG (subkey s)) = b"
    "val s = Plain v \<longleftrightarrow> node_map st c (REMOVE_NODE_FLAG (subkey s)) = Some v" "\<exists>v. val s = Plain v"
proof -
  let ?k = "REMOVE_NODE_FLAG (subkey s)"
  obtain kvs where kvs: "entries_ok b kvs" "bucket (segs st ! g) ! b = fill kvs"
    using ert_node_okD(6) [OF assms(1,3)] assms(2,4) by (auto simp: seg_ok_def bucket_ok_def)
  have "s \<noteq> empty_slot" using assms(6) by (auto simp: passed_over_def)
  then obtain p where p: "p \<in> set kvs" "s = slot_for p" using assms(5) kvs(2) by (auto simp: fill_def)
  have k: "sub32 (fst p)" "GET_BUCKET_NUM (fst p) = b" using kvs(1) p(1) by (auto simp: entries_ok_def)
  then show k': "sub32 ?k" "GET_BUCKET_NUM ?k = b" using p(2) by simp_all
  have "g = seg_of (nodes st ! c) ?k" using assms(6) by (simp add: passed_over_def)
  then have "node_bucket st c ?k = fill kvs" using kvs(2) k'(2) by (simp add: node_bucket_def)
  moreover have "map_of kvs (fst p) = Some (snd p)" using entries_okD(2) [OF kvs(1)] p(1) by simp
  ultimately show "val s = Plain v \<longleftrightarrow> node_map st c ?k = Some v"
    using p(2) k bucket_map_fill [OF kvs(1) k(1)] by (simp add: node_map_def)
  show "\<exists>v. val s = Plain v" using p(2) by simp
qed

text \<open>The slot of a key in the map.\<close>

lemma slot_of_key:
  assumes "node_ok st c" "node_map st c k = Some v"
  shows "\<exists>s\<in>set (node_bucket st c k). REMOVE_NODE_FLAG (subkey s) = k \<and> val s = Plain v \<and> GET_NODE_FLAG (subkey s)" "sub32 k" "v \<noteq> 0"
proof -
  show s: "sub32 k" using assms(2) by (auto simp: node_map_def split: if_splits)
  obtain kvs where kvs: "entries_ok (GET_BUCKET_NUM k) kvs" "node_bucket st c k = fill kvs"
    using node_bucket_ok [OF assms(1) s] by (auto simp: bucket_ok_def)
  have m: "(k, v) \<in> set kvs" using assms(2) s bucket_map_fill [OF kvs(1) s] kvs(2) by (auto simp: node_map_def dest: map_of_SomeD)
  then show "v \<noteq> 0" using kvs(1) by (auto simp: entries_ok_def)
  show "\<exists>s\<in>set (node_bucket st c k). REMOVE_NODE_FLAG (subkey s) = k \<and> val s = Plain v \<and> GET_NODE_FLAG (subkey s)"
    using m s kvs(2) by (intro bexI [of _ "slot_for (k, v)"]) (auto simp: fill_def)
qed

definition plain_of :: "ert_slot \<Rightarrow> u64" where
  "plain_of s = (case val s of Plain v \<Rightarrow> v | _ \<Rightarrow> 0)"

definition slot_pairs :: "ert_node \<Rightarrow> (u64 \<Rightarrow> bool) \<Rightarrow> nat \<times> ert_slot \<Rightarrow> (u64 \<times> u64) list" where
  "slot_pairs n P x =
     (let k = REMOVE_NODE_FLAG (subkey (snd x)) in if passed_over n (fst x) (snd x) \<or> \<not> P k then [] else [(k, plain_of (snd x))])"

lemma dir_slots_pairs:
  assumes ok: "node_ok st c" and ij: "j < 2 ^ global_depth (nodes st ! c)"
    and P: "\<And>k. P k \<Longrightarrow> sub32 k \<Longrightarrow> i \<le> GET_SEG_NUM k (global_depth (nodes st ! c)) \<and> GET_SEG_NUM k (global_depth (nodes st ! c)) \<le> j"
  defines "xs \<equiv> concat (map (slot_pairs (nodes st ! c) P) (dir_slots st (map ((!) (dir (nodes st ! c))) [i..<j + 1])))"
  shows "distinct (map fst xs)" "set xs = {(k, v). P k \<and> node_map st c k = Some v}"
proof -
  let ?n = "nodes st ! c"
  let ?G = "global_depth ?n"
  let ?gs = "remdups_adj (map ((!) (dir ?n)) [i..<j + 1])"
  let ?F = "\<lambda>g. concat (map (slot_pairs ?n P \<circ> Pair g) (concat (bucket (segs st ! g))))"
  note o = ert_node_okD [OF ok]
  have gs: "\<exists>x. g = dir ?n ! x \<and> i \<le> x \<and> x \<le> j \<and> x < 2 ^ ?G" if "g \<in> set ?gs" for g
  proof -
    from that have "g \<in> (!) (dir ?n) ` {i..<j + 1}" unfolding remdups_adj_set set_map set_upt .
    then obtain x where x: "g = dir ?n ! x" "x \<in> {i..<j + 1}" by (rule imageE)
    then have "i \<le> x" "x \<le> j" by simp_all
    with le_less_trans [OF this(2) ij] x(1) show ?thesis by blast
  qed
  have sl: "length (bucket (segs st ! g)) = 256" if "g \<in> set ?gs" for g using gs [OF that] o(6) by (auto simp: seg_ok_def)
  have F: "xs = concat (map ?F ?gs)"
    unfolding xs_def dir_slots_def concat_map_concat map_map ..
  have key: "k = REMOVE_NODE_FLAG (subkey s) \<and> P k \<and> g = seg_of ?n k \<and> sub32 k \<and> GET_BUCKET_NUM k = b \<and> node_map st c k = Some v"
    if g: "g \<in> set ?gs" and b: "b < 256" and s: "s \<in> set (bucket (segs st ! g) ! b)" and kv: "(k, v) \<in> set (slot_pairs ?n P (g, s))" for g b s k v
  proof -
    from gs [OF g] obtain x where x: "g = dir ?n ! x" "x < 2 ^ ?G" by blast
    from kv have k: "\<not> passed_over ?n g s" "k = REMOVE_NODE_FLAG (subkey s)" "P k" "v = plain_of s"
      by (auto simp: slot_pairs_def Let_def split: if_splits)
    note l = live_slot [OF ok x b s k(1)]
    obtain w where w: "val s = Plain w" using l(4) by blast
    with k(4) have "w = v" by (simp add: plain_of_def)
    with w l(3) [of v] have "node_map st c k = Some v" by (simp add: k(2))
    moreover have "g = seg_of ?n k" using k(1,2) by (simp add: passed_over_def)
    ultimately show ?thesis using k(2,3) l(1,2) by simp
  qed
  show "distinct (map fst xs)"
    unfolding F
  proof (rule distinct_keyed_concat [where key = "seg_of ?n"])
    show "distinct ?gs"
    proof (rule distinct_runs)
      fix x y m assume "i \<le> x" "x \<le> m" "m \<le> y" "y < j + 1" "dir ?n ! x = dir ?n ! y"
      with o(7) [of x y] o(7) [of x m] ij mono_block [of x m y] show "dir ?n ! m = dir ?n ! x" by auto
    qed
  next
    fix g p assume g: "g \<in> set ?gs" and p: "p \<in> set (?F g)"
    from p obtain s bk where "bk \<in> set (bucket (segs st ! g))" "s \<in> set bk" "p \<in> set (slot_pairs ?n P (g, s))" by auto
    then obtain b where "b < 256" "s \<in> set (bucket (segs st ! g) ! b)" "(fst p, snd p) \<in> set (slot_pairs ?n P (g, s))"
      using sl [OF g] by (auto simp: in_set_conv_nth)
    from key [OF g this] show "seg_of ?n (fst p) = g" by simp
  next
    fix g assume g: "g \<in> set ?gs"
    have bs: "bucket (segs st ! g) = map (\<lambda>b. bucket (segs st ! g) ! b) [0..<256]" using sl [OF g] by (metis map_nth)
    have F2: "?F g = concat (map (\<lambda>b. concat (map (slot_pairs ?n P \<circ> Pair g) (bucket (segs st ! g) ! b))) [0..<256])"
      by (subst bs) (rule concat_map_concat)
    show "distinct (map fst (?F g))" unfolding F2
    proof (rule distinct_keyed_concat [where key = GET_BUCKET_NUM])
      fix b p assume "b \<in> set [0..<256]" "p \<in> set (concat (map (slot_pairs ?n P \<circ> Pair g) (bucket (segs st ! g) ! b)))"
      then obtain s where "b < 256" "s \<in> set (bucket (segs st ! g) ! b)" "(fst p, snd p) \<in> set (slot_pairs ?n P (g, s))" by auto
      from key [OF g this] show "GET_BUCKET_NUM (fst p) = b" by blast
    next
      fix b :: nat assume "b \<in> set [0..<256]"
      then have b: "b < 256" by simp
      from gs [OF g] obtain x where x: "g = dir ?n ! x" "x < 2 ^ ?G" by blast
      obtain kvs where kvs: "entries_ok b kvs" "bucket (segs st ! g) ! b = fill kvs"
        using o(6) [OF x(2)] b x(1) by (auto simp: seg_ok_def bucket_ok_def)
      have e: "slot_pairs ?n P (g, empty_slot) = []" by (simp add: slot_pairs_def passed_over_def)
      have r: "map fst (concat (map (slot_pairs ?n P \<circ> Pair g) (map slot_for kvs))) =
        filter (\<lambda>k. P k \<and> g = seg_of ?n k) (map fst kvs)" if "\<forall>p\<in>set kvs. sub32 (fst p) \<and> snd p \<noteq> 0" for kvs
        using that by (induction kvs) (auto simp: slot_pairs_def passed_over_def)
      have "\<forall>p\<in>set kvs. sub32 (fst p) \<and> snd p \<noteq> 0" using kvs(1) by (auto simp: entries_ok_def)
      from r [OF this] have "map fst (concat (map (slot_pairs ?n P \<circ> Pair g) (fill kvs))) = filter (\<lambda>k. P k \<and> g = seg_of ?n k) (map fst kvs)"
        by (simp add: fill_def e)
      then show "distinct (map fst (concat (map (slot_pairs ?n P \<circ> Pair g) (bucket (segs st ! g) ! b))))"
        using entries_okD(2) [OF kvs(1)] kvs(2) by simp
    qed simp
  qed
  show "set xs = {(k, v). P k \<and> node_map st c k = Some v}"
  proof (intro set_eqI iffI)
    fix p assume "p \<in> set xs"
    then obtain g s bk where g: "g \<in> set ?gs" and "bk \<in> set (bucket (segs st ! g))" "s \<in> set bk" "p \<in> set (slot_pairs ?n P (g, s))"
      unfolding F by auto
    then obtain b where "b < 256" "s \<in> set (bucket (segs st ! g) ! b)" "(fst p, snd p) \<in> set (slot_pairs ?n P (g, s))"
      using sl [OF g] by (auto simp: in_set_conv_nth)
    from key [OF g this] show "p \<in> {(k, v). P k \<and> node_map st c k = Some v}" by auto
  next
    fix p assume "p \<in> {(k, v). P k \<and> node_map st c k = Some v}"
    then obtain k v where kv: "p = (k, v)" "P k" "node_map st c k = Some v" by auto
    from slot_of_key [OF ok kv(3)] obtain s where s: "s \<in> set (node_bucket st c k)" "REMOVE_NODE_FLAG (subkey s) = k" "val s = Plain v"
      "sub32 k" "v \<noteq> 0" by auto
    let ?g = "seg_of ?n k"
    have x: "i \<le> GET_SEG_NUM k ?G" "GET_SEG_NUM k ?G \<le> j" using P [OF kv(2) s(4)] by auto
    then have g: "?g \<in> set ?gs" unfolding remdups_adj_set set_map set_upt seg_of_def by (intro imageI) simp
    have "(k, v) \<in> set (slot_pairs ?n P (?g, s))" using s kv(2) by (simp add: slot_pairs_def passed_over_def plain_of_def)
    moreover have "s \<in> set (concat (bucket (segs st ! ?g)))"
      using s(1) sl [OF g] bucket_num_less [of k] by (auto simp: node_bucket_def intro!: bexI [of _ "bucket (segs st ! ?g) ! GET_BUCKET_NUM k"])
    ultimately show "p \<in> set xs" using g kv(1) unfolding F by fastforce
  qed
qed

subsection \<open>Scans of small keys\<close>

text \<open>Below \<open>2 ^ 32\<close> the bytes of the prefix and of both bounds are zero, whatever bits the code compares.\<close>

lemma small_key: "upper k = 0 \<Longrightarrow> lower k = k" "upper k = 0 \<Longrightarrow> sub32 k"
proof -
  assume u: "upper k = 0"
  have "unat (upper (lower k)) = 0" unfolding upper_def lower_def unat_and_mask unat_drop_bit by simp
  then have "upper (lower k) = 0" by (simp only: unat_eq_0)
  moreover have "unat (lower (lower k)) = unat (lower k)" unfolding lower_def unat_and_mask by simp
  then have "lower (lower k) = lower k" by (simp only: word_unat_eq_iff)
  ultimately show l: "lower k = k" using u by (metis halves_eq)
  show "sub32 k" using sub32_halves(2) [of k] l by simp
qed

lemma zero_bound:
  assumes "upper b = 0" "\<forall>i\<in>set is. i < 4"
  shows "compare_bound (root_header 0) b 0 is = Inr None"
  using assms(2)
proof (induction "is")
  case (Cons i "is")
  have "half_byte 0 i = 0" by (simp add: half_byte_def key_byte_def)
  moreover have "drop_bit (56 + i) b = 0"
    using small_key(2) [OF assms(1)] by (intro bit_word_eqI) (auto simp: bit_drop_bit_eq dest!: sub32_bit)
  then have "bound_byte b 0 i = Inr 0" using Cons.prems by (simp add: bound_byte_def)
  ultimately show ?case using Cons by simp
qed simp

lemma zero_prefix_scan: "extend_prefix (root_header 0) 0 0 = (0, 32)"
proof -
  have "half_byte 0 i = 0" for i by (simp add: half_byte_def key_byte_def)
  then have "push_bit n (ucast (array (root_header 0) ! i) :: u64) = 0" if "i < 4" for i n using that by simp
  then have "map (\<lambda>i. push_bit (4 - i) (ucast (array (root_header 0) ! i) :: u64)) [0..<4] = map (\<lambda>_. 0) [0..<4]"
    by (intro map_cong) simp_all
  then have "sum_list (map (\<lambda>i. push_bit (4 - i) (ucast (array (root_header 0) ! i) :: u64)) [0..<4]) = 0" by (simp only: sum_list_0)
  then show ?thesis unfolding extend_prefix_def root_header_simps by simp
qed

definition low_range :: "u64 \<Rightarrow> u64 \<Rightarrow> u64 \<Rightarrow> bool" where
  "low_range l r k \<longleftrightarrow> l \<le> k \<and> k \<le> r"

lemma sub32_max: "sub32 k \<Longrightarrow> k \<noteq> - 1"
  by (auto simp: sub32_def unsigned_minus_1_eq_mask mask_eq_exp_minus_1)

lemma scan_start:
  assumes "rooted 0 st" "upper left = 0" "upper right = 0"
  defines "n \<equiv> nodes st ! root st"
  shows "compare_bound (header n) left 0 (prefix_indices (header n)) = Inr None"
    "compare_bound (header n) right 0 (prefix_indices (header n)) = Inr None"
    "extend_prefix (header n) 0 0 = (0, 32)"
    "bound_in n left 32 e None = Inr (left, GET_SEG_NUM left (global_depth n))"
    "bound_in n right 32 e None = Inr (right, GET_SEG_NUM right (global_depth n))"
proof -
  have h: "header n = root_header 0" using rootedD(3) [OF assms(1)] by (simp add: n_def)
  show "compare_bound (header n) left 0 (prefix_indices (header n)) = Inr None"
    "compare_bound (header n) right 0 (prefix_indices (header n)) = Inr None"
    unfolding h by (rule zero_bound [OF assms(2)] zero_bound [OF assms(3)], simp add: prefix_indices_def)+
  show "extend_prefix (header n) 0 0 = (0, 32)" unfolding h by (rule zero_prefix_scan)
  show "bound_in n left 32 e None = Inr (left, GET_SEG_NUM left (global_depth n))"
    "bound_in n right 32 e None = Inr (right, GET_SEG_NUM right (global_depth n))"
    by (simp_all add: bound_in_def subkey_32 small_key(1) [OF assms(2)] small_key(1) [OF assms(3)])
qed

lemma scan_small:
  assumes "rooted 0 st" "upper left = 0" "upper right = 0" "left < right"
  shows "\<exists>xs. scan st left right = Inr xs \<and> distinct (map fst xs) \<and>
    set xs = {(k, v). low_range left right k \<and> node_map st (root st) k = Some v}"
proof -
  note r = rootedD [OF assms(1)]
  let ?n = "nodes st ! root st"
  let ?G = "global_depth ?n"
  let ?lp = "GET_SEG_NUM left ?G"
  let ?rp = "GET_SEG_NUM right ?G"
  let ?P = "low_range left right"
  let ?slots = "dir_slots st (map ((!) (dir ?n)) [?lp..<?rp + 1])"
  let ?F = "\<lambda>(g, s). let cur = REMOVE_NODE_FLAG (subkey s)
     in if passed_over ?n g s then Inr []
        else if in_range left right cur then report st 64 cur (val s)
        else if cur = left \<or> cur = right then report st 64 cur (val s)
        else Inr []"
  note s = scan_start [OF assms(1-3)]
  have f: "scan_fuel = Suc 2" by (simp add: scan_fuel_def)
  have "nodeScan (Suc fuel) st (root st) left right 0 0 = collect ?F ?slots" for fuel
    using order_less_imp_not_eq [OF assms(4)] by (simp add: s Let_def cong: if_cong del: upt_Suc)
  then have sc: "scan st left right = collect ?F ?slots" unfolding scan_def f .
  have G: "?G \<le> 32" using ert_node_okD(2) [OF r(2)] by simp
  have lr: "sub32 left" "sub32 right" using small_key(2) assms(2,3) by blast+
  have m: "left \<noteq> - 1" "right \<noteq> - 1" using lr sub32_max by blast+
  have F: "?F x = Inr (slot_pairs ?n ?P x)" if "x \<in> set ?slots" for x
  proof -
    obtain g t where x: "x = (g, t)" by (cases x)
    from that x obtain i b where i: "g = dir ?n ! i" "i < 2 ^ ?G" and b: "b \<in> set (bucket (segs st ! g))" "t \<in> set b"
      using seg_num_less [of right ?G] unfolding dir_slots_def by auto
    from ert_node_okD(6) [OF r(2) i(2)] b(1) i(1) obtain c where c: "c < 256" "b = bucket (segs st ! g) ! c"
      by (auto simp: seg_ok_def in_set_conv_nth)
    show ?thesis
    proof (cases "passed_over ?n g t")
      case False
      from live_slot(4) [OF r(2) i c(1) b(2) [unfolded c(2)] False] obtain v where v: "val t = Plain v" ..
      let ?k = "REMOVE_NODE_FLAG (subkey t)"
      have "in_range left right ?k \<or> ?k = left \<or> ?k = right \<longleftrightarrow> ?P ?k"
        using m assms(4) by (auto simp: in_range_def low_range_def)
      then show ?thesis using False v by (auto simp: x Let_def slot_pairs_def report_def plain_def plain_of_def)
    qed (simp add: x slot_pairs_def)
  qed
  have c: "?lp \<le> GET_SEG_NUM k ?G \<and> GET_SEG_NUM k ?G \<le> ?rp" if "?P k" "sub32 k" for k
    using that lr G by (simp add: seg_num low_range_def word_le_nat_alt div_le_mono)
  let ?xs = "concat (map (slot_pairs ?n ?P) ?slots)"
  have p: "distinct (map fst ?xs)" "set ?xs = {(k, v). ?P k \<and> node_map st (root st) k = Some v}"
    by (rule dir_slots_pairs [OF r(2) seg_num_less], erule (1) c)+
  have e: "collect ?F ?slots = Inr ?xs" by (rule collect_map [OF F])
  show ?thesis by (intro exI [of _ ?xs] conjI p trans [OF sc e])
qed


text \<open>
  C20.  A scan from \<open>left\<close> to \<open>right\<close>, \<open>left < right\<close> and both below \<open>2 ^ 32\<close>, of an ERT built by
  insertions of non-zero values under keys below \<open>2 ^ 32\<close> reports each key from \<open>left\<close> to \<open>right\<close>,
  both included, once, with the last value inserted under it, and nothing else: the copies that
  splits leave in the old segments are passed over.
\<close>

theorem ert_scan_exact:
  assumes "kvs \<noteq> []" "\<forall>(k, v)\<in>set kvs. upper k = 0 \<and> v \<noteq> 0"
    and "upper left = 0" "upper right = 0" "left < right"
  shows "\<exists>st xs. run_puts (Insert addr junk) NewExtendibleRadixTreeInt kvs = Inr st \<and> scan st left right = Inr xs \<and>
    distinct (map fst xs) \<and> set xs = {(k, v). left \<le> k \<and> k \<le> right \<and> map_of (rev kvs) k = Some v}"
proof -
  from run_fresh [OF assms(1,2), of addr junk] obtain st where st:
    "run_puts (Insert addr junk) NewExtendibleRadixTreeInt kvs = Inr st" "rooted 0 st"
    "\<And>k. upper k = 0 \<Longrightarrow> node_map st (root st) (lower k) = map_of (rev kvs) k" by blast
  from scan_small [OF st(2) assms(3-5)] obtain xs where xs: "scan st left right = Inr xs" "distinct (map fst xs)"
    "set xs = {(k, v). low_range left right k \<and> node_map st (root st) k = Some v}" by blast
  have u: "upper k = 0" if "sub32 k" for k
    using that by (intro bit_word_eqI) (auto simp: upper_def bit_simps dest: sub32_bit)
  have "node_map st (root st) k = Some v \<longleftrightarrow> map_of (rev kvs) k = Some v" for k v
  proof
    assume "node_map st (root st) k = Some v"
    with st(3) [OF u] small_key(1) [OF u] slot_of_key(2) [OF rootedD(2) [OF st(2)]] show "map_of (rev kvs) k = Some v" by metis
  next
    assume m: "map_of (rev kvs) k = Some v"
    with assms(2) have "upper k = 0" by (auto dest!: map_of_SomeD)
    with st(3) [of k] small_key(1) [of k] m show "node_map st (root st) k = Some v" by simp
  qed
  with xs(3) have "set xs = {(k, v). left \<le> k \<and> k \<le> right \<and> map_of (rev kvs) k = Some v}" by (auto simp: low_range_def)
  with st(1) xs(1,2) show ?thesis by blast
qed

theorem ert_scan_exact_witness:
  "\<exists>st xs. run_puts (Insert (\<lambda>n. 64 * of_nat n) (0, 0)) NewExtendibleRadixTreeInt [(5, 7), (0x105, 8), (9, 1), (5, 6)] = Inr st \<and>
    scan st 5 0x1000 = Inr xs \<and> set xs = {(5, 6), (9, 1), (0x105, 8)}"
proof -
  let ?kvs = "[(5, 7), (0x105, 8), (9, 1), (5, 6)] :: (u64 \<times> u64) list"
  have k: "\<forall>(k, v)\<in>set ?kvs. upper k = 0 \<and> v \<noteq> 0" by (simp add: upper_def mask_eq_exp_minus_1)
  have b: "upper 5 = 0" "upper 0x1000 = 0" by (simp_all add: upper_def mask_eq_exp_minus_1)
  have "(5 :: u64) < 0x1000" by simp
  from ert_scan_exact [OF _ k b this, of "\<lambda>n. 64 * of_nat n" "(0, 0)"] obtain st xs where
    st: "run_puts (Insert (\<lambda>n. 64 * of_nat n) (0, 0)) NewExtendibleRadixTreeInt ?kvs = Inr st" "scan st 5 0x1000 = Inr xs"
    "set xs = {(k, v). 5 \<le> k \<and> k \<le> 0x1000 \<and> map_of (rev ?kvs) k = Some v}" by auto
  have "set xs = {(5, 6), (9, 1), (0x105, 8)}" unfolding st(3) by (auto split: if_splits)
  with st(1,2) show ?thesis by blast
qed

subsection \<open>Scans of one key\<close>

lemma scan_one_key:
  assumes "rooted 0 st" "upper k = 0" "k \<noteq> 0" "node_map st (root st) k = None"
  shows "scan st k k = Inr [(k, - 1)]"
proof -
  note s = scan_start [OF assms(1,2,2)]
  have k: "sub32 k" by (rule small_key(2) [OF assms(2)])
  obtain kvs where kvs: "entries_ok (GET_BUCKET_NUM k) kvs" "node_bucket st (root st) k = fill kvs"
    using node_bucket_ok [OF rootedD(2) [OF assms(1)] k] by (auto simp: bucket_ok_def)
  have "map_of kvs k = None" using assms(4) k bucket_map_fill [OF kvs(1) k] kvs(2) by (simp add: node_map_def)
  then have "node_get st (root st) k = None" using bucket_get_fill [OF kvs(1) k] kvs(2) assms(3) by (simp add: node_get_def)
  then show ?thesis by (simp add: scan_def scan_fuel_def numeral_3_eq_3 s Let_def)
qed

text \<open>
  A scan of one key that was never inserted reports the key with the value -1: what a bucket
  returns for a missing sub-key is not told from a value.
\<close>

theorem ert_scan_absent:
  assumes "kvs \<noteq> []" "\<forall>(k, v)\<in>set kvs. upper k = 0 \<and> v \<noteq> 0"
    and "upper k = 0" "k \<noteq> 0" "k \<notin> fst ` set kvs"
  shows "\<exists>st. run_puts (Insert addr junk) NewExtendibleRadixTreeInt kvs = Inr st \<and> scan st k k = Inr [(k, - 1)]"
proof -
  from run_fresh [OF assms(1,2), of addr junk] obtain st where st:
    "run_puts (Insert addr junk) NewExtendibleRadixTreeInt kvs = Inr st" "rooted 0 st"
    "\<And>k. upper k = 0 \<Longrightarrow> node_map st (root st) (lower k) = map_of (rev kvs) k" by blast
  have "map_of (rev kvs) k = None" using assms(5) by (simp add: map_of_eq_None_iff)
  with st(3) [OF assms(3)] small_key(1) [OF assms(3)] have "node_map st (root st) k = None" by simp
  from scan_one_key [OF st(2) assms(3,4) this] st(1) show ?thesis by blast
qed

theorem ert_scan_absent_witness:
  "\<exists>st. run_puts (Insert (\<lambda>n. 64 * of_nat n) (0, 0)) NewExtendibleRadixTreeInt [(5, 7), (9, 1)] = Inr st \<and> scan st 6 6 = Inr [(6, - 1)]"
proof -
  have k: "\<forall>(k, v)\<in>set [(5, 7), (9, 1)]. upper k = 0 \<and> (v :: u64) \<noteq> 0" "upper 6 = 0"
    by (simp_all add: upper_def mask_eq_exp_minus_1)
  show ?thesis by (rule ert_scan_absent [OF _ k]) simp_all
qed

end
