(* ===== verification/Wrert_Conc.thy ===== *)
theory Wrert_Conc
  imports Wrert_Props
begin

text \<open>
  Concurrent insertion, \<open>WRERT::insert\<close> of \<^verbatim>\<open>YCSB-C/wrert/wrert.cpp\<close>.  A fixed list of threads
  inserts one pair each.  A thread is a program counter with its local variables, one step is
  what happens between two points at which other threads can interfere, and the memory is the
  tree of \<open>Wrert\<close>.  A lock of the pool is taken in one step when no other thread holds it in a
  conflicting mode; two objects that share a lock of the pool exclude each other
  as well, which is not modelled here (\<open>Wrert_Lock\<close> shows how two directories then deadlock).  A scan under the
  read lock of a bucket is one step, as stores to its sub-keys need the write lock.  The
  compare-and-swap is on a word of fingerprint and value; every insertion writes fingerprint 0, so
  the model compares values.

  A thread that finds no room, or a prefix that does not match, stops at \<open>Restructure\<close>: segment
  splits, directory doubling and prefix splits under concurrency are not modelled.
\<close>

subsection \<open>Threads\<close>

datatype lock = DirLock nat | SegmentLock nat nat | BucketLock nat nat nat

text \<open>Where a thread is in the tree: node, position in the key behind the sub-key, sub-key and segment.\<close>

record visit =
  at_node :: nat
  at_byte :: nat
  for_key :: u32
  entry :: segment_node

datatype pc =
    Start
  | RootLock nat | RootCheck nat
  | Descend nat nat | PrefixLock nat nat | PrefixRelock nat nat
  | LockSegment visit | ScanShared visit | ScanMain visit scan
  | SlotLock visit bool nat nat | Recheck visit bool nat nat | Put visit bool nat nat
  | SwapValue visit nat nat payload
  | ReadFlag visit nat nat | ReadNode visit nat nat | NodeLock visit nat nat payload | NodeCheck visit nat nat payload
  | ReadPair visit nat nat | StorePair visit nat
  | ChildLock visit nat nat nat | ChildCheck visit nat nat nat | MakeChild visit nat nat nat
  | SetFlag visit nat nat nat | Publish visit nat nat nat
  | Restructure | Finished op_result | Crashed ub

record conc =
  memory :: wrert
  clients :: "(u64 \<times> 48 word \<times> pc) list"

subsection \<open>Locks\<close>

definition v_segment :: "visit \<Rightarrow> nat" where "v_segment v = segmentPtr (entry v)"

definition v_shared :: "visit \<Rightarrow> nat" where "v_shared v = shared_position (entry v) (for_key v)"
definition v_main :: "visit \<Rightarrow> nat" where "v_main v = main_position (entry v) (for_key v)"

definition visit_reads :: "visit \<Rightarrow> lock list" where
  "visit_reads v = [DirLock (at_node v), SegmentLock (at_node v) (v_segment v)]"

fun reads :: "pc \<Rightarrow> lock list" where
  "reads (RootCheck r) = [DirLock r]"
| "reads (Descend c pos) = [DirLock c]"
| "reads (LockSegment v) = [DirLock (at_node v)]"
| "reads (ScanShared v) = visit_reads v"
| "reads (ScanMain v r) = visit_reads v"
| "reads (SlotLock v m p j) = visit_reads v"
| "reads (Recheck v m p j) = visit_reads v"
| "reads (Put v m p j) = visit_reads v"
| "reads (SwapValue v p j w) = visit_reads v"
| "reads (ReadFlag v p j) = visit_reads v"
| "reads (ReadNode v p j) = visit_reads v"
| "reads (NodeLock v p j w) = visit_reads v"
| "reads (NodeCheck v p j w) = (case w of NodeAt d \<Rightarrow> DirLock d # visit_reads v | _ \<Rightarrow> visit_reads v)"
| "reads (ReadPair v p j) = visit_reads v"
| "reads (StorePair v i) = visit_reads v"
| "reads (ChildLock v p j i) = visit_reads v"
| "reads (ChildCheck v p j i) = visit_reads v"
| "reads (MakeChild v p j i) = visit_reads v"
| "reads (SetFlag v p j d) = visit_reads v"
| "reads (Publish v p j d) = visit_reads v"
| "reads _ = []"

text \<open>
  The code writes a slot that it found, in whichever bucket, under the lock of the shared bucket:
  \<open>_isShareOrMainFlag\<close> is set for a vacant main slot only.
\<close>

fun writes :: "pc \<Rightarrow> lock list" where
  "writes (Recheck v m p j) = [BucketLock (at_node v) (v_segment v) p]"
| "writes (Put v m p j) = [BucketLock (at_node v) (v_segment v) p]"
| "writes (ChildCheck v p j i) = [BucketLock (at_node v) (v_segment v) (v_shared v)]"
| "writes (MakeChild v p j i) = [BucketLock (at_node v) (v_segment v) (v_shared v)]"
| "writes (SetFlag v p j d) = [BucketLock (at_node v) (v_segment v) (v_shared v)]"
| "writes (Publish v p j d) = [BucketLock (at_node v) (v_segment v) (v_shared v)]"
| "writes _ = []"

definition pc_of :: "conc \<Rightarrow> nat \<Rightarrow> pc" where
  "pc_of s i = snd (snd (clients s ! i))"

definition can_read :: "conc \<Rightarrow> nat \<Rightarrow> lock \<Rightarrow> bool" where
  "can_read s i l \<longleftrightarrow> list_all (\<lambda>j. j = i \<or> l \<notin> set (writes (pc_of s j))) [0..<length (clients s)]"

definition can_write :: "conc \<Rightarrow> nat \<Rightarrow> lock \<Rightarrow> bool" where
  "can_write s i l \<longleftrightarrow>
     list_all (\<lambda>j. j = i \<or> l \<notin> set (writes (pc_of s j)) \<union> set (reads (pc_of s j))) [0..<length (clients s)]"

subsection \<open>Slots\<close>

definition bucket_of :: "wrert \<Rightarrow> visit \<Rightarrow> nat \<Rightarrow> payload bucket" where
  "bucket_of T v p = segs (nodes T ! at_node v) ! v_segment v ! p"

definition slot_of :: "wrert \<Rightarrow> visit \<Rightarrow> nat \<Rightarrow> nat \<Rightarrow> payload slot" where
  "slot_of T v p j = bucket_of T v p ! j"

definition store_slot :: "wrert \<Rightarrow> visit \<Rightarrow> nat \<Rightarrow> nat \<Rightarrow> payload slot \<Rightarrow> wrert" where
  "store_slot T v p j x =
     (let n = nodes T ! at_node v
      in T\<lparr>nodes := (nodes T)[at_node v := n\<lparr>segs := (segs n)[v_segment v := set_slot (segs n ! v_segment v) p j x]\<rparr>]\<rparr>)"

text \<open>The test after the lock of the bucket: another sub-key has taken the slot in the meantime.\<close>

definition slot_version :: "visit \<Rightarrow> bool \<Rightarrow> 9 word" where
  "slot_version v m = (if m then main_version (localDepth (entry v)) else shared_version (localDepth (entry v)))"

definition taken :: "visit \<Rightarrow> bool \<Rightarrow> payload slot \<Rightarrow> bool" where
  "taken v m x \<longleftrightarrow> validFlag x \<and> migVersion x = slot_version v m \<and> subKey x \<noteq> for_key v"

definition found_slot :: "wrert \<Rightarrow> visit \<Rightarrow> nat \<Rightarrow> nat \<Rightarrow> pc" where
  "found_slot T v p j = (if at_byte v = 8 then SwapValue v p j (slot_value (slot_of T v p j)) else ReadFlag v p j)"

subsection \<open>Steps\<close>

definition descend :: "wrert \<Rightarrow> u64 \<Rightarrow> nat \<Rightarrow> nat \<Rightarrow> pc" where
  "descend T key c pos =
     (if 8 \<le> pos then Finished Failed
      else let n = nodes T ! c; h = header n
        in case computePrefix h key (pos * 4) of
             Inl e \<Rightarrow> Crashed e
           | Inr pm \<Rightarrow>
               if pm = -1 then PrefixLock c pos
               else if pm = int (prefixLength h) then
                 (case get_subkey key ((pos + prefixLength h * 4) * 8) 32 of
                    Inl e \<Rightarrow> Crashed e
                  | Inr s \<Rightarrow>
                      if bad_depths n (ucast s) then Crashed BadShift
                      else LockSegment \<lparr>at_node = c, at_byte = pos + prefixLength h * 4 + 4, for_key = ucast s,
                                        entry = segment_node_of n (ucast s)\<rparr>)
               else if prefixLength h \<noteq> 0 \<and> pm < int (prefixLength h) then Restructure
               else Crashed NoReturn)"

definition assign_prefix :: "wrert \<Rightarrow> u64 \<Rightarrow> nat \<Rightarrow> nat \<Rightarrow> wrert \<times> pc" where
  "assign_prefix T key c pos =
     (let n = nodes T ! c; h = header n
      in if prefixLength h \<noteq> 6 then (T, Start)
         else (case assignPrefix 1 key (pos * 8) of
                 Inl e \<Rightarrow> (T, Crashed e)
               | Inr a \<Rightarrow> (T\<lparr>nodes := (nodes T)[c := n\<lparr>header := h\<lparr>prefixLength := 1, prefixArray := a\<rparr>\<rparr>]\<rparr>, PrefixRelock c pos)))"

definition search_shared :: "wrert \<Rightarrow> visit \<Rightarrow> pc" where
  "search_shared T v =
     (case scan_bucket (shared_version (localDepth (entry v))) (for_key v) (bucket_of T v (v_shared v)) of
        Found j \<Rightarrow> found_slot T v (v_shared v) j
      | r \<Rightarrow> ScanMain v r)"

definition search_main :: "wrert \<Rightarrow> visit \<Rightarrow> scan \<Rightarrow> pc" where
  "search_main T v r =
     (case scan_bucket (main_version (localDepth (entry v))) (for_key v) (bucket_of T v (v_main v)) of
        Found j \<Rightarrow> found_slot T v (v_main v) j
      | r' \<Rightarrow> (case r of
                 Free j \<Rightarrow> SlotLock v False (v_shared v) j
               | _ \<Rightarrow> (case r' of Free j \<Rightarrow> SlotLock v True (v_main v) j | _ \<Rightarrow> Restructure)))"

text \<open>At the end of the key a slot holds the value, before it a pointer to a new pair.\<close>

definition put_slot :: "wrert \<Rightarrow> u64 \<Rightarrow> 48 word \<Rightarrow> visit \<Rightarrow> bool \<Rightarrow> nat \<Rightarrow> nat \<Rightarrow> wrert" where
  "put_slot T key value v m p j =
     (let c = at_node v;
          (w, prs) = (if at_byte v = 8 then (Val value, pairs T) else (KvAt (length (pairs T)), pairs T @ [(key, ucast value)]))
      in T\<lparr>nodes := (nodes T)[c := write_slot (nodes T ! c) (for_key v) w (entry v) 0 False m (p, j)], pairs := prs\<rparr>)"

text \<open>\<open>insertNewNode\<close> on a node that no other thread can reach is the insertion of one thread.\<close>

definition make_child :: "wrert \<Rightarrow> u64 \<Rightarrow> 48 word \<Rightarrow> visit \<Rightarrow> nat \<Rightarrow> nat \<Rightarrow> nat \<Rightarrow> wrert \<times> pc" where
  "make_child T key value v p j i =
     (let d = length (nodes T);
          T1 = T\<lparr>nodes := nodes T @ [child_node (header (nodes T ! at_node v)) (at_byte v)]\<rparr>
      in case insert_at T1 (fst (pairs T ! i)) (snd (pairs T ! i)) d (at_byte v) RootLink (Some i) of
           Inl e \<Rightarrow> (T, Crashed e)
         | Inr (T2, _) \<Rightarrow>
             (case insert_at T2 key (ucast value) d (at_byte v) RootLink None of
                Inl e \<Rightarrow> (T, Crashed e)
              | Inr (T3, _) \<Rightarrow> (T3, SetFlag v p j d)))"

text \<open>One step of a thread, \<open>None\<close> while it waits for a lock and after its end.\<close>

fun act :: "(lock \<Rightarrow> bool) \<Rightarrow> (lock \<Rightarrow> bool) \<Rightarrow> wrert \<Rightarrow> u64 \<Rightarrow> 48 word \<Rightarrow> pc \<Rightarrow> (wrert \<times> pc) option" where
  "act rd wr T key value Start = Some (T, RootLock (root T))"
| "act rd wr T key value (RootLock r) = (if rd (DirLock r) then Some (T, RootCheck r) else None)"
| "act rd wr T key value (RootCheck r) = Some (T, if root T = r then Descend r 0 else Start)"
| "act rd wr T key value (Descend c pos) = Some (T, descend T key c pos)"
| "act rd wr T key value (PrefixLock c pos) = (if wr (DirLock c) then Some (assign_prefix T key c pos) else None)"
| "act rd wr T key value (PrefixRelock c pos) = (if rd (DirLock c) then Some (T, Descend c pos) else None)"
| "act rd wr T key value (LockSegment v) = (if rd (SegmentLock (at_node v) (v_segment v)) then Some (T, ScanShared v) else None)"
| "act rd wr T key value (ScanShared v) =
     (if rd (BucketLock (at_node v) (v_segment v) (v_shared v)) then Some (T, search_shared T v) else None)"
| "act rd wr T key value (ScanMain v r) =
     (if rd (BucketLock (at_node v) (v_segment v) (v_main v)) then Some (T, search_main T v r) else None)"
| "act rd wr T key value (SlotLock v m p j) =
     (if wr (BucketLock (at_node v) (v_segment v) p) then Some (T, Recheck v m p j) else None)"
| "act rd wr T key value (Recheck v m p j) = Some (T, if taken v m (slot_of T v p j) then Start else Put v m p j)"
| "act rd wr T key value (Put v m p j) = Some (put_slot T key value v m p j, Finished Success)"
| "act rd wr T key value (SwapValue v p j w) =
     (if slot_value (slot_of T v p j) = w
      then Some (store_slot T v p j ((slot_of T v p j)\<lparr>slot_value := Val value\<rparr>), Finished Success)
      else Some (T, Start))"
| "act rd wr T key value (ReadFlag v p j) = Some (T, if nodeFlag (slot_of T v p j) then ReadNode v p j else ReadPair v p j)"
| "act rd wr T key value (ReadNode v p j) = Some (T, NodeLock v p j (slot_value (slot_of T v p j)))"
| "act rd wr T key value (NodeLock v p j w) =
     (case w of
        NodeAt d \<Rightarrow> if rd (DirLock d) then Some (T, NodeCheck v p j w) else None
      | _ \<Rightarrow> Some (T, NodeCheck v p j w))"
| "act rd wr T key value (NodeCheck v p j w) =
     Some (T, if slot_value (slot_of T v p j) \<noteq> w then Start
              else (case w of NodeAt d \<Rightarrow> Descend d (at_byte v) | _ \<Rightarrow> Crashed WildAccess))"
| "act rd wr T key value (ReadPair v p j) =
     Some (T, case slot_value (slot_of T v p j) of
                KvAt i \<Rightarrow> if fst (pairs T ! i) = key then StorePair v i else ChildLock v p j i
              | _ \<Rightarrow> Crashed WildAccess)"
| "act rd wr T key value (StorePair v i) =
     Some (T\<lparr>pairs := (pairs T)[i := (fst (pairs T ! i), ucast value)]\<rparr>, Finished Success)"
| "act rd wr T key value (ChildLock v p j i) =
     (if wr (BucketLock (at_node v) (v_segment v) (v_shared v)) then Some (T, ChildCheck v p j i) else None)"
| "act rd wr T key value (ChildCheck v p j i) =
     Some (T, if taken v False (slot_of T v p j) then Start else MakeChild v p j i)"
| "act rd wr T key value (MakeChild v p j i) = Some (make_child T key value v p j i)"
| "act rd wr T key value (SetFlag v p j d) =
     Some (store_slot T v p j ((slot_of T v p j)\<lparr>nodeFlag := True\<rparr>), Publish v p j d)"
| "act rd wr T key value (Publish v p j d) =
     Some (store_slot T v p j ((slot_of T v p j)\<lparr>slot_value := NodeAt d\<rparr>), Finished Success)"
| "act rd wr T key value Restructure = None"
| "act rd wr T key value (Finished r) = None"
| "act rd wr T key value (Crashed e) = None"

definition conc_act :: "conc \<Rightarrow> nat \<Rightarrow> conc option" where
  "conc_act s i =
     (if i < length (clients s)
      then (case clients s ! i of (key, value, p) \<Rightarrow>
              map_option (\<lambda>(T, p'). \<lparr>memory = T, clients = (clients s)[i := (key, value, p')]\<rparr>)
                (act (can_read s i) (can_write s i) (memory s) key value p))
      else None)"

inductive conc_step :: "conc \<Rightarrow> conc \<Rightarrow> bool" where
  thread_acts: "conc_act s i = Some t \<Longrightarrow> conc_step s t"

inductive_cases conc_stepE: "conc_step s t"

end
