(* ===== verification/Wrert_Conc_Slots.thy ===== *)
theory Wrert_Conc_Slots
  imports Wrert_Props
begin

text \<open>
  What an inserting thread knows of the two buckets of its sub-key after it has scanned them, why
  other threads keep it true, and that storing into the slot it chose is still an insertion.
\<close>

subsection \<open>The buckets of a sub-key\<close>

definition key_bucket :: "'v wrert_node \<Rightarrow> bool \<Rightarrow> u32 \<Rightarrow> 'v bucket" where
  "key_bucket n m k =
     (let e = segment_node_of n k in segs n ! segmentPtr e ! role_pos (localDepth e) (window e) m k)"

definition key_version :: "'v wrert_node \<Rightarrow> bool \<Rightarrow> u32 \<Rightarrow> nat" where
  "key_version n m k = role_ver (localDepth (segment_node_of n k)) m"

abbreviation key_slot :: "'v wrert_node \<Rightarrow> bool \<Rightarrow> u32 \<Rightarrow> nat \<Rightarrow> 'v slot" where
  "key_slot n m k i \<equiv> key_bucket n m k ! i"

definition alive :: "'v wrert_node \<Rightarrow> bool \<Rightarrow> u32 \<Rightarrow> nat \<Rightarrow> bool" where
  "alive n m k i \<longleftrightarrow> live (key_version n m k) (key_slot n m k i)"

text \<open>A slot of another sub-key, or of this one.\<close>

definition occupied :: "'v wrert_node \<Rightarrow> bool \<Rightarrow> u32 \<Rightarrow> nat \<Rightarrow> bool" where
  "occupied n m k i \<longleftrightarrow> alive n m k i \<and> subKey (key_slot n m k i) \<noteq> k"

definition hit :: "'v wrert_node \<Rightarrow> bool \<Rightarrow> u32 \<Rightarrow> nat \<Rightarrow> bool" where
  "hit n m k i \<longleftrightarrow> alive n m k i \<and> subKey (key_slot n m k i) = k"

text \<open>What a thread that looks for \<open>k\<close> has seen when it has chosen slot \<open>j\<close> of the bucket \<open>m\<close>.\<close>

definition seen :: "'v wrert_node \<Rightarrow> u32 \<Rightarrow> bool \<Rightarrow> nat \<Rightarrow> bool" where
  "seen n k m j \<longleftrightarrow> j < 16 \<and> (\<forall>i<j. occupied n m k i) \<and>
     (if m then \<forall>i<16. occupied n False k i
      else alive n False k j \<or> (\<forall>i<16. \<not> hit n True k i))"

definition seen_shared :: "'v wrert_node \<Rightarrow> u32 \<Rightarrow> scan \<Rightarrow> bool" where
  "seen_shared n k r \<longleftrightarrow>
     (case r of Found j \<Rightarrow> False | Free j \<Rightarrow> j < 16 \<and> (\<forall>i<j. occupied n False k i) | Full \<Rightarrow> \<forall>i<16. occupied n False k i)"

lemma hit_iff: "hit n m k i \<longleftrightarrow> alive n m k i \<and> \<not> occupied n m k i"
  by (auto simp: hit_def occupied_def)

lemma key_bucket_ok:
  assumes "node_ok D n"
  shows "length (key_bucket n m k) = 16"
    "filter (live (key_version n m k)) (key_bucket n m k) = takeWhile (live (key_version n m k)) (key_bucket n m k)"
  using bucket_closed [OF node_entry(5) [OF assms, of k]] by (simp_all add: key_bucket_def key_version_def Let_def)

lemma alive_closed: "node_ok D n \<Longrightarrow> i < 16 \<Longrightarrow> alive n m k i \<Longrightarrow> j < i \<Longrightarrow> alive n m k j"
  using key_bucket_ok [of D n m k] by (simp add: alive_def filter_eq_takeWhile_iff)

lemma no_hits: "node_ok D n \<Longrightarrow> hits (key_version n m k) k (key_bucket n m k) = [] \<longleftrightarrow> (\<forall>i<16. \<not> hit n m k i)"
  using key_bucket_ok(1) [of D n m k] by (simp add: hits_def filter_empty_conv all_set_conv_all_nth hit_def alive_def)

lemma node_map_no_hits:
  assumes "node_ok D n" "\<And>m i. i < 16 \<Longrightarrow> \<not> hit n m k i"
  shows "node_map n k = None"
  using no_hits [OF assms(1), of False k] no_hits [OF assms(1), of True k] assms(2)
  by (simp add: node_map_def entry_map_def smap_def occ_roles key_bucket_def key_version_def Let_def)

lemma first_not_alive:
  assumes "node_ok D n" "j < 16" "\<not> alive n m k j" "\<forall>i<j. alive n m k i"
  shows "find_index (\<lambda>x. \<not> live (key_version n m k) x) (key_bucket n m k) = Some j"
  using assms(2-4) key_bucket_ok(1) [OF assms(1), of m k] by (auto simp: find_index_eq_Some_iff alive_def)

text \<open>The choice is right as long as the slot has not been taken.\<close>

lemma seen_vacant:
  assumes "node_ok D n" "seen n k m j" "\<not> alive n m k j"
  shows "node_map n k = None" "find_index (\<lambda>x. \<not> live (key_version n m k) x) (key_bucket n m k) = Some j"
proof -
  have j: "j < 16" "\<forall>i<j. occupied n m k i" using assms(2) by (auto simp: seen_def split: if_splits)
  then show "find_index (\<lambda>x. \<not> live (key_version n m k) x) (key_bucket n m k) = Some j"
    using first_not_alive [OF assms(1) j(1) assms(3)] by (simp add: occupied_def)
  have "\<not> hit n m k i" if i: "i < 16" for i
  proof (cases "i < j")
    case True
    with j show ?thesis by (simp add: hit_iff)
  next
    case False
    then have "\<not> alive n m k i"
      using alive_closed [OF assms(1) i, of m k j] assms(3) by (cases "i = j") auto
    then show ?thesis by (simp add: hit_def)
  qed
  moreover have "\<not> hit n (\<not> m) k i" if i: "i < 16" for i
    using assms(2,3) i by (cases m) (auto simp: seen_def hit_iff)
  ultimately have "\<not> hit n m' k i" if "i < 16" for m' i using that by (cases "m' = m") auto
  then show "node_map n k = None" by (rule node_map_no_hits [OF assms(1)])
qed

subsection \<open>Scans\<close>

lemma scan_seen:
  assumes "node_ok D n"
  defines "r \<equiv> \<lambda>m k. scan_bucket (shared_version (key_version n m k)) k (key_bucket n m k)"
  shows "r m k = Found j \<Longrightarrow> j < 16 \<and> hit n m k j"
    "r m k = Free j \<Longrightarrow> j < 16 \<and> (\<forall>i<j. occupied n m k i) \<and> (\<forall>i<16. \<not> hit n m k i)"
    "r m k = Full \<Longrightarrow> \<forall>i<16. occupied n m k i"
proof -
  note b = key_bucket_ok [OF assms(1), of m k]
  note c = scan_bucket_cases [OF b, of k]
  show "j < 16 \<and> hit n m k j" if "r m k = Found j" using c(1) that by (simp add: hit_def alive_def r_def)
  show "j < 16 \<and> (\<forall>i<j. occupied n m k i) \<and> (\<forall>i<16. \<not> hit n m k i)" if "r m k = Free j"
  proof -
    note f = c(2) [OF that [unfolded r_def]]
    then have "j < 16" "\<forall>i<j. alive n m k i" using b(1) by (auto simp: find_index_eq_Some_iff alive_def)
    moreover have "\<forall>i<16. \<not> hit n m k i" using f no_hits [OF assms(1)] by simp
    ultimately show ?thesis by (auto simp: hit_iff)
  qed
  show "\<forall>i<16. occupied n m k i" if "r m k = Full"
  proof -
    note f = c(3) [OF that [unfolded r_def]]
    then have "\<forall>i<16. alive n m k i" using b(1) by (auto simp: all_set_conv_all_nth alive_def)
    moreover have "\<forall>i<16. \<not> hit n m k i" using f no_hits [OF assms(1)] by simp
    ultimately show ?thesis by (auto simp: hit_iff)
  qed
qed

subsection \<open>Stores of other threads\<close>

text \<open>A store into one slot of the bucket of \<open>k\<close>.\<close>

definition put_at :: "'v wrert_node \<Rightarrow> bool \<Rightarrow> u32 \<Rightarrow> nat \<Rightarrow> 'v slot \<Rightarrow> 'v wrert_node" where
  "put_at n m k j y =
     (let e = segment_node_of n k
      in n\<lparr>segs := (segs n)[segmentPtr e := set_slot (segs n ! segmentPtr e) (role_pos (localDepth e) (window e) m k) j y]\<rparr>)"

definition same_slot :: "'v wrert_node \<Rightarrow> bool \<Rightarrow> u32 \<Rightarrow> nat \<Rightarrow> bool \<Rightarrow> u32 \<Rightarrow> nat \<Rightarrow> bool" where
  "same_slot n m k i m' k' i' \<longleftrightarrow>
     (let e = segment_node_of n k; e' = segment_node_of n k'
      in segmentPtr e = segmentPtr e' \<and> role_pos (localDepth e) (window e) m k = role_pos (localDepth e') (window e') m' k' \<and> i = i')"

lemma put_at_entry [simp]: "segment_node_of (put_at n m k j y) k' = segment_node_of n k'"
  "header (put_at n m k j y) = header n" "globalDepth (put_at n m k j y) = globalDepth n"
  by (simp_all add: put_at_def segment_node_of_def Let_def)

lemma put_at_version [simp]: "key_version (put_at n m k j y) m' k' = key_version n m' k'"
  by (simp add: key_version_def)

lemma put_at_slot:
  assumes "node_ok D n" "j < 16" "i < 16"
  shows "key_slot (put_at n m k j y) m' k' i = (if same_slot n m' k' i m k j then y else key_slot n m' k' i)"
proof -
  let ?e = "segment_node_of n k" and ?e' = "segment_node_of n k'"
  note ne = node_entry [OF assms(1), of k] and ne' = node_entry [OF assms(1), of k']
  note o = seg_okD [OF ne(5)] and o' = seg_okD [OF ne'(5)]
  have p: "role_pos (localDepth ?e) (window ?e) m k < 48" "role_pos (localDepth ?e') (window ?e') m' k' < 48"
    using role_pos_less o(1) o'(1) by blast+
  show ?thesis
  proof (cases "segmentPtr ?e' = segmentPtr ?e")
    case True
    with o(3,4) p assms(2,3) ne(4) show ?thesis
      by (auto simp: key_bucket_def put_at_def same_slot_def Let_def set_slot_def nth_list_update segment_node_of_def)
  next
    case False
    then show ?thesis by (simp add: key_bucket_def put_at_def same_slot_def Let_def segment_node_of_def)
  qed
qed

lemma same_slot_role:
  assumes "node_ok D n" "same_slot n m k i m' k' i'"
  shows "m = m'" "key_version n m k = key_version n m' k'" "key_bucket n m k = key_bucket n m' k'"
proof -
  let ?e = "segment_node_of n k" and ?e' = "segment_node_of n k'"
  from assms(2) have s: "segmentPtr ?e = segmentPtr ?e'"
    "role_pos (localDepth ?e) (window ?e) m k = role_pos (localDepth ?e') (window ?e') m' k'" by (simp_all add: same_slot_def Let_def)
  note u = node_update_seg(3) [OF assms(1) order_refl node_entry(5) [OF assms(1)]]
  from u [of k k'] s(1) have e: "?e = ?e'" by simp
  show m: "m = m'" using s(2) role_pos_differ [OF seg_okD(1) [OF node_entry(5) [OF assms(1), of k']]] unfolding e by metis
  show "key_version n m k = key_version n m' k'" by (simp add: key_version_def e m)
  show "key_bucket n m k = key_bucket n m' k'" using s by (simp add: key_bucket_def Let_def)
qed

text \<open>
  A slot is stored that was not alive, or a slot that stays alive with its sub-key: all other
  slots keep what threads know of them.
\<close>

lemma put_at_keeps:
  assumes "node_ok D n" "j < 16" "i < 16" "live (key_version n m k) y" "alive n m k j \<Longrightarrow> subKey y = subKey (key_slot n m k j)"
  shows "alive n m' k' i \<Longrightarrow> alive (put_at n m k j y) m' k' i" "occupied n m' k' i \<Longrightarrow> occupied (put_at n m k j y) m' k' i"
    "hit n m' k' i \<Longrightarrow> hit (put_at n m k j y) m' k' i"
    "hit (put_at n m k j y) m' k' i \<Longrightarrow> hit n m' k' i \<or> m' = m \<and> subKey y = k'"
    "\<not> same_slot n m' k' i m k j \<Longrightarrow> alive (put_at n m k j y) m' k' i = alive n m' k' i"
    "\<not> same_slot n m' k' i m k j \<Longrightarrow> occupied (put_at n m k j y) m' k' i = occupied n m' k' i"
  using put_at_slot [OF assms(1,2,3), of m k y m' k'] same_slot_role [OF assms(1), of m' k' i m k j] assms(4,5)
  by (auto simp: alive_def occupied_def hit_def same_slot_def Let_def split: if_splits)

lemma put_at_seen_shared:
  assumes "node_ok D n" "j < 16" "live (key_version n m k) y" "alive n m k j \<Longrightarrow> subKey y = subKey (key_slot n m k j)"
  shows "seen_shared n k' r \<Longrightarrow> seen_shared (put_at n m k j y) k' r"
  using put_at_keeps(2) [OF assms(1,2) _ assms(3,4)] by (auto simp: seen_shared_def split: scan.splits)

lemma put_at_seen:
  assumes "node_ok D n" "live (key_version n m k) y" "subKey y = k" "seen n k m j" "\<not> occupied n m k j"
    and "seen n k' m' j'"
  shows "seen (put_at n m k j y) k' m' j'"
proof -
  have j: "j < 16" "j' < 16" using assms(4,6) by (auto simp: seen_def split: if_splits)
  have y: "alive n m k j \<Longrightarrow> subKey y = subKey (key_slot n m k j)" using assms(3,5) by (auto simp: occupied_def)
  note keep = put_at_keeps [OF assms(1) j(1) _ assms(2) y]
  have "alive (put_at n m k j y) False k' j' \<or> (\<forall>i<16. \<not> hit (put_at n m k j y) True k' i)" if "\<not> m'"
  proof (cases "alive n False k' j'")
    case True
    with keep(1) [OF j(2)] show ?thesis by blast
  next
    case False
    then have none: "\<forall>i<16. \<not> hit n True k' i" using assms(6) that by (auto simp: seen_def)
    have "\<not> (m \<and> k = k')" using assms(4) False j(2) by (auto simp: seen_def occupied_def)
    then show ?thesis using none keep(4) assms(3) by (metis (full_types))
  qed
  then show ?thesis using assms(6) keep(2) j by (cases m') (auto simp: seen_def)
qed


lemma put_at_seen_hit:
  assumes "node_ok D n" "j < 16" "hit n m k j" "live (key_version n m k) y" "subKey y = k" and "seen n k' m' j'"
  shows "seen (put_at n m k j y) k' m' j'"
proof -
  have j': "j' < 16" using assms(6) by (auto simp: seen_def split: if_splits)
  have y: "alive n m k j \<Longrightarrow> subKey y = subKey (key_slot n m k j)" using assms(3,5) by (simp add: hit_def)
  note keep = put_at_keeps [OF assms(1,2) _ assms(4) y]
  have "\<not> hit (put_at n m k j y) True k' i" if "i < 16" "\<forall>i<16. \<not> hit n True k' i" for i
    using keep(4) [OF that(1), of True k'] that assms(2,3,5) by metis
  then show ?thesis using assms(6) keep(1,2) j' by (cases m') (auto simp: seen_def)
qed

lemma put_at_twice:
  assumes "node_ok D n" "j < 16"
  shows "put_at (put_at n m k j x) m k j y = put_at n m k j y" "key_slot (put_at n m k j x) m k j = x"
proof -
  let ?e = "segment_node_of n k"
  note ne = node_entry [OF assms(1), of k]
  note o = seg_okD [OF ne(5)]
  have p: "role_pos (localDepth ?e) (window ?e) m k < 48" using role_pos_less o(1) by blast
  show "put_at (put_at n m k j x) m k j y = put_at n m k j y"
    unfolding put_at_def [of "put_at n m k j x"] put_at_entry
    using o(3) p ne(4) by (simp add: put_at_def Let_def set_slot_def)
  show "key_slot (put_at n m k j x) m k j = x"
    using put_at_slot [OF assms(1,2,2), of m k x m k] by (simp add: same_slot_def Let_def)
qed

text \<open>What an insertion writes when the sub-key is new, whatever the slot held before.\<close>

definition fresh_slot :: "'v wrert_node \<Rightarrow> bool \<Rightarrow> u32 \<Rightarrow> 'v \<Rightarrow> u16 \<Rightarrow> bool \<Rightarrow> 'v slot" where
  "fresh_slot n m k w fp f =
     (let d = localDepth (segment_node_of n k)
      in \<lparr>subKey = k, migVersion = (if m then main_version d else shared_version d), validFlag = True, nodeFlag = f,
          fingerprint = fp, slot_value = w\<rparr>)"

lemma fresh_slot_facts:
  "live (key_version n m k) (fresh_slot n m k w fp f)" "subKey (fresh_slot n m k w fp f) = k"
  "validFlag (fresh_slot n m k w fp f)" "slot_value (fresh_slot n m k w fp f) = w"
  by (simp_all add: fresh_slot_def Let_def live_def key_version_def role_ver_def main_version_eq)

lemma write_slot_fresh:
  fixes n :: "'v wrert_node"
  assumes "node_ok D n" "k \<notin> D" "j < 16"
  defines "e \<equiv> segment_node_of n k"
  shows "write_slot n k w e fp f m (role_pos (localDepth e) (window e) m k, j) = put_at n m k j (fresh_slot n m k w fp f)"
proof -
  have p: "role_pos (localDepth e) (window e) m k < 48"
    using role_pos_less seg_okD(1) [OF node_entry(5) [OF assms(1), of k]] unfolding e_def by blast
  have "slot_ok D (localDepth e) (key_slot n m k j)"
    using seg_okD(5) [OF node_entry(5) [OF assms(1), of k] p [unfolded e_def]] key_bucket_ok(1) [OF assms(1), of m k] assms(3)
    by (simp add: key_bucket_def Let_def e_def)
  then have "\<not> (subKey (key_slot n m k j) = k \<and> validFlag (key_slot n m k j))" using assms(2) unfolding slot_ok_def by metis
  moreover have full: "x\<lparr>slot_value := w, subKey := k, validFlag := True, fingerprint := fp, migVersion := r, nodeFlag := f\<rparr> =
      \<lparr>subKey = k, migVersion = r, validFlag = True, nodeFlag = f, fingerprint = fp, slot_value = w\<rparr>" for x :: "'v slot" and r
    by (cases x) simp
  ultimately show ?thesis
    by (auto simp: write_slot_def put_at_def key_bucket_def fresh_slot_def Let_def e_def full)
qed

lemma write_slot_again:
  fixes k m w fp f
  assumes "node_ok D n" "j < 16"
  defines "e \<equiv> segment_node_of n k" and "n' \<equiv> put_at n m k j (fresh_slot n m k w fp f)"
  shows "write_slot n' k w' e fp' f' m (role_pos (localDepth e) (window e) m k, j) = put_at n m k j (fresh_slot n m k w' fp f)"
proof -
  have e: "segment_node_of n' k = e" by (simp add: n'_def e_def)
  have x: "key_slot n' m k j = fresh_slot n m k w fp f" unfolding n'_def by (rule put_at_twice(2) [OF assms(1,2)])
  then have "segs n' ! segmentPtr e ! role_pos (localDepth e) (window e) m k ! j = fresh_slot n m k w fp f"
    by (simp add: key_bucket_def Let_def e)
  then have "write_slot n' k w' e fp' f' m (role_pos (localDepth e) (window e) m k, j) = put_at n' m k j (fresh_slot n m k w' fp f)"
    by (simp add: write_slot_def put_at_def Let_def e fresh_slot_def)
  then show ?thesis unfolding n'_def by (simp only: put_at_twice(1) [OF assms(1,2)])
qed

subsection \<open>Stores into a leaf\<close>

lemma put_at_overwrite:
  "overwrite n k v f (role_pos (localDepth (segment_node_of n k)) (window (segment_node_of n k)) m k) j =
    put_at n m k j ((key_slot n m k j)\<lparr>nodeFlag := f, slot_value := v\<rparr>)"
  by (simp add: overwrite_def put_at_def key_bucket_def Let_def)

lemma leaf_hit:
  fixes u :: "48 word"
  assumes "leaf_ok n" "j < 16" "hit n m k j"
  defines "n' \<equiv> put_at n m k j ((key_slot n m k j)\<lparr>slot_value := Val u\<rparr>)"
  shows "leaf_ok n'" "leaf_val n' = (leaf_val n)(k \<mapsto> u)"
proof -
  let ?e = "segment_node_of n k" and ?x = "key_slot n m k j"
  have ok: "node_ok (dom (node_map n)) n" using assms(1) by (simp add: leaf_ok_def closed_node_def)
  note x = slot_key [OF ok refl assms(2), of k m] overwrite_slot [OF ok refl assms(2), of k m "Val u" False]
  have h: "live (role_ver (localDepth ?e) m) (segs n ! segmentPtr ?e ! role_pos (localDepth ?e) (window ?e) m k ! j)"
    "subKey (segs n ! segmentPtr ?e ! role_pos (localDepth ?e) (window ?e) m k ! j) = k"
    using assms(3) by (simp_all add: hit_def alive_def key_bucket_def key_version_def Let_def)
  have "node_map n k = Some (slot_value ?x, nodeFlag ?x)" using x(1) [OF h] by (simp add: key_bucket_def Let_def)
  then have f: "\<not> nodeFlag ?x" using assms(1) unfolding leaf_ok_def by blast
  then have n': "n' = overwrite n k (Val u) False (role_pos (localDepth ?e) (window ?e) m k) j"
    unfolding put_at_overwrite n'_def by (cases ?x) simp
  note y = x(2,3) [OF h, folded n']
  have "insert k (dom (node_map n)) = dom (node_map n)" using x(1) [OF h] by (auto simp: insert_absorb)
  with y show l: "leaf_ok n'" using assms(1) by (auto simp: leaf_ok_def closed_node_def)
  show "leaf_val n' = (leaf_val n)(k \<mapsto> u)" using y(2) by (simp add: leaf_val_def fun_eq_iff)
qed

lemma leaf_put:
  fixes u :: "48 word" and fp :: u16
  assumes "leaf_ok n" "seen n k m j" "\<not> occupied n m k j"
  defines "e \<equiv> segment_node_of n k"
  defines "n' \<equiv> write_slot n k (Val u) e fp False m (role_pos (localDepth e) (window e) m k, j)"
  shows "leaf_ok n'" "leaf_val n' = (leaf_val n)(k \<mapsto> u)"
    "\<exists>y. n' = put_at n m k j y \<and> live (key_version n m k) y \<and> subKey y = k"
proof -
  have ok: "node_ok (dom (node_map n)) n" using assms(1) by (simp add: leaf_ok_def closed_node_def)
  have j: "j < 16" using assms(2) by (auto simp: seen_def split: if_splits)
  have "leaf_ok n' \<and> leaf_val n' = (leaf_val n)(k \<mapsto> u) \<and> (\<exists>y. n' = put_at n m k j y \<and> live (key_version n m k) y \<and> subKey y = k)"
  proof (cases "alive n m k j")
    case True
    then have h: "hit n m k j" using assms(3) by (simp add: hit_iff)
    let ?y = "(key_slot n m k j)\<lparr>slot_value := Val u\<rparr>"
    have "n' = put_at n m k j ?y"
      using h by (simp add: n'_def write_slot_def put_at_def hit_def alive_def live_def key_bucket_def Let_def e_def)
    moreover have "live (key_version n m k) ?y" "subKey ?y = k" using h by (simp_all add: hit_def alive_def live_def)
    ultimately show ?thesis using leaf_hit [OF assms(1) j h, of u] by blast
  next
    case False
    note v = seen_vacant [OF ok assms(2) False]
    have k: "k \<notin> dom (node_map n)" using v(1) by (simp add: domIff)
    have f: "find_index (\<lambda>x. \<not> live (role_ver (localDepth e) m) x) (segs n ! segmentPtr e ! role_pos (localDepth e) (window e) m k) = Some j"
      using v(2) by (simp add: key_version_def key_bucket_def e_def Let_def)
    note w = write_slot_ok [OF ok k refl f [unfolded e_def], of "Val u" fp False, folded e_def, folded n'_def]
    have "leaf_ok n'" using w assms(1) by (auto simp: leaf_ok_def closed_node_def)
    moreover have "leaf_val n' = (leaf_val n)(k \<mapsto> u)" using w(2) by (simp add: leaf_val_def fun_eq_iff)
    moreover have "\<exists>y. n' = put_at n m k j y \<and> live (key_version n m k) y \<and> subKey y = k"
      using write_slot_fresh [OF ok k j, of "Val u" fp False m] fresh_slot_facts [of n m k "Val u" fp False]
      unfolding n'_def e_def by blast
    ultimately show ?thesis by blast
  qed
  then show "leaf_ok n'" "leaf_val n' = (leaf_val n)(k \<mapsto> u)"
    "\<exists>y. n' = put_at n m k j y \<and> live (key_version n m k) y \<and> subKey y = k" by blast+
qed

end
