(* ===== verification/Wrert_Conc_Props.thy ===== *)
theory Wrert_Conc_Props
  imports Wrert_Conc Wrert_Conc_Slots Machine
begin

text \<open>
  Threads that insert keys with a common upper half, so that all of them work on the root.  As long
  as no thread has to split a segment, every interleaving has the effect of the insertions one
  after the other, in the order in which they end.
\<close>

subsection \<open>Invariant\<close>

abbreviation top_node :: "wrert \<Rightarrow> payload wrert_node" where "top_node T \<equiv> nodes T ! root T"

definition shallow :: "u32 \<Rightarrow> wrert \<Rightarrow> bool" where
  "shallow t T \<longleftrightarrow> root T < length (nodes T) \<and> leaf_ok (top_node T) \<and>
     nodeHeaderDepth (header (top_node T)) = 0 \<and> length (prefixArray (header (top_node T))) = 6 \<and>
     (prefixLength (header (top_node T)) = 6 \<and> node_map (top_node T) = Map.empty \<or>
      prefixLength (header (top_node T)) = 1 \<and> prefix_is t (header (top_node T)))"

definition visit_ok :: "wrert \<Rightarrow> u64 \<Rightarrow> visit \<Rightarrow> bool" where
  "visit_ok T key v \<longleftrightarrow> at_node v = root T \<and> at_byte v = 8 \<and> for_key v = low32 key \<and>
     entry v = segment_node_of (top_node T) (low32 key) \<and> prefixLength (header (top_node T)) = 1"

definition place_ok :: "wrert \<Rightarrow> u64 \<Rightarrow> visit \<Rightarrow> bool \<Rightarrow> nat \<Rightarrow> bool" where
  "place_ok T key v m p \<longleftrightarrow> visit_ok T key v \<and> p = (if m then v_main v else v_shared v)"

fun pc_ok :: "wrert \<Rightarrow> u64 \<Rightarrow> pc \<Rightarrow> bool" where
  "pc_ok T key Start = True"
| "pc_ok T key (RootLock r) = (r = root T)"
| "pc_ok T key (RootCheck r) = (r = root T)"
| "pc_ok T key (Descend c pos) = (c = root T \<and> pos = 0)"
| "pc_ok T key (PrefixLock c pos) = (c = root T \<and> pos = 0)"
| "pc_ok T key (PrefixRelock c pos) = (c = root T \<and> pos = 0)"
| "pc_ok T key (LockSegment v) = visit_ok T key v"
| "pc_ok T key (ScanShared v) = visit_ok T key v"
| "pc_ok T key (ScanMain v r) = (visit_ok T key v \<and> seen_shared (top_node T) (low32 key) r)"
| "pc_ok T key (SlotLock v m p j) = (place_ok T key v m p \<and> seen (top_node T) (low32 key) m j)"
| "pc_ok T key (Recheck v m p j) = (place_ok T key v m p \<and> seen (top_node T) (low32 key) m j)"
| "pc_ok T key (Put v m p j) =
     (place_ok T key v m p \<and> seen (top_node T) (low32 key) m j \<and> \<not> occupied (top_node T) m (low32 key) j)"
| "pc_ok T key (SwapValue v p j w) = (\<exists>m. place_ok T key v m p \<and> j < 16 \<and> hit (top_node T) m (low32 key) j)"
| "pc_ok T key Restructure = True"
| "pc_ok T key (Finished r) = (r = Success)"
| "pc_ok T key _ = False"

definition exclusive :: "conc \<Rightarrow> bool" where
  "exclusive s \<longleftrightarrow> (\<forall>i<length (clients s). \<forall>j<length (clients s). i \<noteq> j \<longrightarrow> set (writes (pc_of s i)) \<inter> set (writes (pc_of s j)) = {})"

definition key_of :: "conc \<Rightarrow> nat \<Rightarrow> u64" where "key_of s i = fst (clients s ! i)"
definition value_of :: "conc \<Rightarrow> nat \<Rightarrow> 48 word" where "value_of s i = fst (snd (clients s ! i))"

definition conc_inv :: "u32 \<Rightarrow> conc \<Rightarrow> bool" where
  "conc_inv t s \<longleftrightarrow> shallow t (memory s) \<and> exclusive s \<and>
     (\<forall>i<length (clients s). top32 (key_of s i) = t \<and> pc_ok (memory s) (key_of s i) (pc_of s i))"

definition conc_start :: "u32 \<Rightarrow> conc \<Rightarrow> bool" where
  "conc_start t s \<longleftrightarrow> shallow t (memory s) \<and>
     (\<forall>i<length (clients s). top32 (key_of s i) = t \<and> pc_of s i = Start)"

subsection \<open>Visits of the root\<close>

lemma shallowD:
  assumes "shallow t T"
  shows "root T < length (nodes T)" "leaf_ok (top_node T)" "node_ok (dom (node_map (top_node T))) (top_node T)"
    "length (prefixArray (header (top_node T))) = 6" "nodeHeaderDepth (header (top_node T)) = 0"
    "prefixLength (header (top_node T)) = 6 \<Longrightarrow> node_map (top_node T) = Map.empty"
    "prefixLength (header (top_node T)) = 6 \<or> prefixLength (header (top_node T)) = 1 \<and> prefix_is t (header (top_node T))"
  using assms by (auto simp: shallow_def leaf_ok_def closed_node_def)

lemma visit_slots:
  assumes "shallow t T" "place_ok T key v m p"
  shows "bucket_of T v p = key_bucket (top_node T) m (low32 key)" "slot_version v m = shared_version (key_version (top_node T) m (low32 key))"
    "p = role_pos (localDepth (entry v)) (window (entry v)) m (low32 key)"
    "slot_of T v p j = key_slot (top_node T) m (low32 key) j"
    "taken v m (key_slot (top_node T) m (low32 key) j) = occupied (top_node T) m (low32 key) j"
proof -
  have v: "at_node v = root T" "for_key v = low32 key" "entry v = segment_node_of (top_node T) (low32 key)"
    and p: "p = (if m then v_main v else v_shared v)" using assms(2) by (simp_all add: place_ok_def visit_ok_def)
  note pos = positions [OF shallowD(3) [OF assms(1)], of "low32 key"]
  show e: "p = role_pos (localDepth (entry v)) (window (entry v)) m (low32 key)"
    using p pos by (simp add: v_main_def v_shared_def v)
  show b: "bucket_of T v p = key_bucket (top_node T) m (low32 key)"
    by (simp add: bucket_of_def key_bucket_def Let_def v_segment_def e) (simp add: v)
  then show "slot_of T v p j = key_slot (top_node T) m (low32 key) j" by (simp add: slot_of_def)
  show w: "slot_version v m = shared_version (key_version (top_node T) m (low32 key))"
    by (simp add: slot_version_def key_version_def role_ver_def main_version_eq v)
  show "taken v m (key_slot (top_node T) m (low32 key) j) = occupied (top_node T) m (low32 key) j"
    by (simp add: taken_def w v occupied_def alive_def live_def conj_assoc)
qed

text \<open>The root with another node in its place.\<close>

definition with_top :: "wrert \<Rightarrow> payload wrert_node \<Rightarrow> wrert" where
  "with_top T n = T\<lparr>nodes := (nodes T)[root T := n]\<rparr>"

lemma with_top_simps [simp]:
  "root (with_top T n) = root T" "pairs (with_top T n) = pairs T"
  "root T < length (nodes T) \<Longrightarrow> nodes (with_top T n) ! root T = n" "length (nodes (with_top T n)) = length (nodes T)"
  by (simp_all add: with_top_def)

lemma shallow_put:
  assumes "shallow t T" "prefixLength (header (top_node T)) = 1" "header n' = header (top_node T)" "leaf_ok n'"
    "leaf_val n' = (leaf_val (top_node T))(low32 key \<mapsto> u)" "top32 key = t"
  shows "shallow t (with_top T n')" "tree_map (with_top T n') = (tree_map T)(key \<mapsto> u)"
proof -
  note s = shallowD [OF assms(1)]
  show "shallow t (with_top T n')" using assms s by (auto simp: shallow_def)
  have pre: "prefix_is (top32 key) (header (top_node T))" using s(7) assms(2,6) by simp
  show "tree_map (with_top T n') = (tree_map T)(key \<mapsto> u)"
  proof
    fix key'
    show "tree_map (with_top T n') key' = ((tree_map T)(key \<mapsto> u)) key'"
    proof (cases "prefix_is (top32 key') (header (top_node T))")
      case True
      have "top32 key' = top32 key" by (rule prefix_is_inj [OF s(4) True pre])
      then have "low32 key' = low32 key \<longleftrightarrow> key' = key" using key_halves by blast
      with True show ?thesis using s(1) assms(2,3,5) by (simp add: tree_map_def)
    next
      case False
      with pre have "key' \<noteq> key" by blast
      with False show ?thesis using s(1) assms(2,3) by (simp add: tree_map_def)
    qed
  qed
qed

subsection \<open>One step of one thread\<close>

text \<open>A step leaves the tree as it is, gives the root its prefix, or stores a value and ends.\<close>

definition stores :: "wrert \<Rightarrow> u64 \<Rightarrow> 48 word \<Rightarrow> pc \<Rightarrow> wrert \<Rightarrow> bool" where
  "stores T key u p T' \<longleftrightarrow> (\<exists>m j y. T' = with_top T (put_at (top_node T) m (low32 key) j y) \<and> j < 16 \<and>
     live (key_version (top_node T) m (low32 key)) y \<and> subKey y = low32 key \<and> tree_map T' = (tree_map T)(key \<mapsto> u) \<and>
     (hit (top_node T) m (low32 key) j \<or>
      (\<exists>v q. p = Put v m q j \<and> place_ok T key v m q \<and> seen (top_node T) (low32 key) m j \<and> \<not> occupied (top_node T) m (low32 key) j)))"

definition gives_prefix :: "wrert \<Rightarrow> wrert \<Rightarrow> bool" where
  "gives_prefix T T' \<longleftrightarrow> prefixLength (header (top_node T)) = 6 \<and> prefixLength (header (top_node T')) = 1 \<and>
     (\<exists>h. T' = with_top T ((top_node T)\<lparr>header := h\<rparr>)) \<and> tree_map T' = tree_map T"

definition step_effect :: "u32 \<Rightarrow> wrert \<Rightarrow> u64 \<Rightarrow> 48 word \<Rightarrow> pc \<Rightarrow> wrert \<Rightarrow> pc \<Rightarrow> bool" where
  "step_effect t T key u p T' p' \<longleftrightarrow>
     shallow t T' \<and> pc_ok T' key p' \<and>
     (if p' = Finished Success then stores T key u p T' else T' = T \<or> gives_prefix T T')"

lemma step_effect_same: "shallow t T \<Longrightarrow> pc_ok T key p' \<Longrightarrow> p' \<noteq> Finished Success \<Longrightarrow> step_effect t T key u p T p'"
  by (simp add: step_effect_def)

lemma descend_ok:
  assumes "shallow t T" "top32 key = t"
  shows "pc_ok T key (descend T key (root T) 0) \<and> descend T key (root T) 0 \<noteq> Finished Success"
proof -
  note s = shallowD [OF assms(1)]
  from s(7) consider "prefixLength (header (top_node T)) = 6"
    | "prefixLength (header (top_node T)) = 1" "prefix_is t (header (top_node T))" by blast
  then show ?thesis
  proof cases
    case 1
    then show ?thesis by (simp add: descend_def Let_def computePrefix_def)
  next
    case 2
    obtain w where g: "get_subkey key 32 32 = Inr w" "ucast w = low32 key" by (rule subkey_halves)
    have "\<not> bad_depths (top_node T) (low32 key)" by (rule node_entry(6) [OF s(3)])
    with 2 g assms(2) show ?thesis
      using computePrefix_one [OF 2(1) s(4), of key] by (simp add: descend_def Let_def visit_ok_def)
  qed
qed

lemma assign_prefix_ok:
  assumes "shallow t T" "top32 key = t"
  shows "step_effect t T key u p (fst (assign_prefix T key (root T) 0)) (snd (assign_prefix T key (root T) 0))"
proof (cases "prefixLength (header (top_node T)) = 6")
  case True
  note s = shallowD [OF assms(1)]
  from assignPrefix_one [of key] obtain a where
    a: "assignPrefix 1 key 0 = Inr a" "length a = 6" "take 4 a = prefix_bytes (top32 key)" by blast
  let ?h = "(header (top_node T))\<lparr>prefixLength := 1, prefixArray := a\<rparr>"
  let ?T = "with_top T ((top_node T)\<lparr>header := ?h\<rparr>)"
  have e: "assign_prefix T key (root T) 0 = (?T, PrefixRelock (root T) 0)"
    using True a(1) by (simp add: assign_prefix_def Let_def with_top_def)
  have "shallow t ?T" using s a assms(2) True by (simp add: shallow_def prefix_is_def)
  moreover have "tree_map ?T = tree_map T"
    using s(1) s(6) [OF True] True by (simp add: tree_map_def fun_eq_iff leaf_val_def Let_def)
  then have "gives_prefix T ?T" using True s(1) by (auto simp: gives_prefix_def)
  ultimately show ?thesis by (simp add: e step_effect_def)
next
  case False
  then show ?thesis using assms(1) by (simp add: assign_prefix_def Let_def step_effect_def)
qed

lemma found_slot_ok:
  assumes "place_ok T key v m p" "j < 16" "hit (top_node T) m (low32 key) j"
  shows "pc_ok T key (found_slot T v p j) \<and> found_slot T v p j \<noteq> Finished Success"
proof -
  have "at_byte v = 8" using assms(1) by (simp add: place_ok_def visit_ok_def)
  then show ?thesis using assms by (simp add: found_slot_def) blast
qed

lemma search_shared_ok:
  assumes "shallow t T" "visit_ok T key v"
  shows "pc_ok T key (search_shared T v) \<and> search_shared T v \<noteq> Finished Success"
proof -
  have p: "place_ok T key v False (v_shared v)" using assms(2) by (simp add: place_ok_def)
  note vs = visit_slots [OF assms(1) p]
  have k: "for_key v = low32 key" "shared_version (localDepth (entry v)) = shared_version (key_version (top_node T) False (low32 key))"
    using assms(2) vs(2) by (simp_all add: visit_ok_def slot_version_def)
  note sc = scan_seen [OF shallowD(3) [OF assms(1)], where m = False and k = "low32 key"]
  let ?r = "scan_bucket (shared_version (key_version (top_node T) False (low32 key))) (low32 key) (key_bucket (top_node T) False (low32 key))"
  have e: "search_shared T v = (case ?r of Found j \<Rightarrow> found_slot T v (v_shared v) j | r \<Rightarrow> ScanMain v r)"
    by (simp add: search_shared_def vs(1) k)
  show ?thesis
  proof (cases ?r)
    case (Found j)
    with found_slot_ok [OF p] sc(1) show ?thesis by (simp add: e)
  next
    case (Free j)
    with sc(2) assms(2) show ?thesis by (simp add: e seen_shared_def)
  next
    case Full
    with sc(3) assms(2) show ?thesis by (simp add: e seen_shared_def)
  qed
qed

lemma search_main_ok:
  assumes "shallow t T" "visit_ok T key v" "seen_shared (top_node T) (low32 key) r"
  shows "pc_ok T key (search_main T v r) \<and> search_main T v r \<noteq> Finished Success"
proof -
  have p: "place_ok T key v True (v_main v)" "place_ok T key v False (v_shared v)" using assms(2) by (simp_all add: place_ok_def)
  note vs = visit_slots [OF assms(1) p(1)]
  have k: "for_key v = low32 key" "main_version (localDepth (entry v)) = shared_version (key_version (top_node T) True (low32 key))"
    using assms(2) vs(2) by (simp_all add: visit_ok_def slot_version_def)
  note sc = scan_seen [OF shallowD(3) [OF assms(1)], where m = True and k = "low32 key"]
  let ?r = "scan_bucket (shared_version (key_version (top_node T) True (low32 key))) (low32 key) (key_bucket (top_node T) True (low32 key))"
  have none: "\<forall>i<16. \<not> hit (top_node T) True (low32 key) i" if "\<forall>j. ?r \<noteq> Found j"
    using that sc by (cases ?r) (auto simp: hit_iff)
  show ?thesis
  proof (cases ?r)
    case (Found j)
    with found_slot_ok [OF p(1)] sc(1) show ?thesis by (simp add: search_main_def vs(1) k)
  next
    case (Free j)
    then have n: "\<forall>i<16. \<not> hit (top_node T) True (low32 key) i" using none by simp
    with Free sc(2) [OF Free] p assms(3) show ?thesis
      by (cases r) (auto simp: search_main_def vs(1) k seen_def seen_shared_def)
  next
    case Full
    then have n: "\<forall>i<16. \<not> hit (top_node T) True (low32 key) i" using none by simp
    with Full p assms(3) show ?thesis
      by (cases r) (auto simp: search_main_def vs(1) k seen_def seen_shared_def)
  qed
qed

lemma put_slot_ok:
  assumes "shallow t T" "top32 key = t" "pc_ok T key (Put v m p j)"
  shows "step_effect t T key u (Put v m p j) (put_slot T key u v m p j) (Finished Success)"
proof -
  have pl: "place_ok T key v m p" and o: "seen (top_node T) (low32 key) m j" "\<not> occupied (top_node T) m (low32 key) j" using assms(3) by simp_all
  have v: "at_node v = root T" "at_byte v = 8" "for_key v = low32 key" "entry v = segment_node_of (top_node T) (low32 key)"
    and pre: "prefixLength (header (top_node T)) = 1" using pl by (simp_all add: place_ok_def visit_ok_def)
  note s = shallowD [OF assms(1)]
  note l = leaf_put [OF s(2) o, of u 0, folded v(4), folded visit_slots(3) [OF assms(1) pl]]
  from l(3) obtain y where y: "write_slot (top_node T) (low32 key) (Val u) (entry v) 0 False m (p, j) = put_at (top_node T) m (low32 key) j y"
    "live (key_version (top_node T) m (low32 key)) y" "subKey y = low32 key" by blast
  have T: "put_slot T key u v m p j = with_top T (put_at (top_node T) m (low32 key) j y)"
    using y(1) by (simp add: put_slot_def v with_top_def Let_def)
  have j: "j < 16" using o(1) by (auto simp: seen_def split: if_splits)
  note r = shallow_put [OF assms(1) pre put_at_entry(2) l(1,2) [unfolded y(1)] assms(2)]
  have "stores T key u (Put v m p j) (put_slot T key u v m p j)"
    unfolding stores_def by (rule exI [of _ m], rule exI [of _ j], rule exI [of _ y]) (use r(2) y o pl j in \<open>auto simp: T\<close>)
  then show ?thesis using r(1) by (simp add: step_effect_def T)
qed

lemma swap_ok:
  assumes "shallow t T" "top32 key = t" "pc_ok T key (SwapValue v p j w)"
  shows "step_effect t T key u (SwapValue v p j w) (store_slot T v p j ((slot_of T v p j)\<lparr>slot_value := Val u\<rparr>)) (Finished Success)"
proof -
  from assms(3) obtain m where pl: "place_ok T key v m p" and j: "j < 16" and h: "hit (top_node T) m (low32 key) j" by auto
  have v: "at_node v = root T" "entry v = segment_node_of (top_node T) (low32 key)"
    and pre: "prefixLength (header (top_node T)) = 1" using pl by (simp_all add: place_ok_def visit_ok_def)
  note s = shallowD [OF assms(1)]
  let ?y = "(key_slot (top_node T) m (low32 key) j)\<lparr>slot_value := Val u\<rparr>"
  note l = leaf_hit [OF s(2) j h, of u]
  have T: "store_slot T v p j ((slot_of T v p j)\<lparr>slot_value := Val u\<rparr>) = with_top T (put_at (top_node T) m (low32 key) j ?y)"
    unfolding visit_slots(4) [OF assms(1) pl]
    by (simp add: store_slot_def with_top_def put_at_def v_segment_def Let_def visit_slots(3) [OF assms(1) pl]) (simp add: v)
  note r = shallow_put [OF assms(1) pre put_at_entry(2) l assms(2)]
  have "live (key_version (top_node T) m (low32 key)) ?y" "subKey ?y = low32 key" using h by (simp_all add: hit_def alive_def live_def)
  then have "stores T key u (SwapValue v p j w) (store_slot T v p j ((slot_of T v p j)\<lparr>slot_value := Val u\<rparr>))"
    unfolding stores_def by (intro exI [of _ m] exI [of _ j] exI [of _ ?y]) (use r(2) h j in \<open>auto simp: T\<close>)
  then show ?thesis using r(1) by (simp add: step_effect_def T)
qed

lemma act_effect:
  assumes "shallow t T" "top32 key = t" "pc_ok T key p" "act rd wr T key u p = Some (T', p')"
  shows "step_effect t T key u p T' p'"
  using assms(3,4)
proof (cases p)
  case (Descend c pos)
  with assms descend_ok [OF assms(1,2)] show ?thesis by (auto intro!: step_effect_same)
next
  case (PrefixLock c pos)
  with assms assign_prefix_ok [OF assms(1,2), of u p] show ?thesis by (auto split: if_splits)
next
  case (ScanShared v)
  with assms search_shared_ok [OF assms(1), of key v] show ?thesis by (auto intro!: step_effect_same split: if_splits)
next
  case (ScanMain v r)
  with assms search_main_ok [OF assms(1), of key v r] show ?thesis by (auto intro!: step_effect_same split: if_splits)
next
  case (Recheck v m q j)
  with assms visit_slots(4,5) [OF assms(1), of key v m q j] show ?thesis by (auto intro!: step_effect_same split: if_splits)
next
  case (Put v m q j)
  with assms put_slot_ok [OF assms(1,2), of v m q j u] show ?thesis by auto
next
  case (SwapValue v q j w)
  with assms swap_ok [OF assms(1,2), of v q j w u] show ?thesis by (auto intro!: step_effect_same split: if_splits)
qed (use assms(1) in \<open>auto intro!: step_effect_same simp: place_ok_def visit_ok_def split: if_splits\<close>)


subsection \<open>Steps of other threads\<close>

lemma pc_ok_with_top:
  assumes "root T < length (nodes T)" "\<And>k. segment_node_of n' k = segment_node_of (top_node T) k"
    "header n' = header (top_node T)"
  shows "visit_ok (with_top T n') key v = visit_ok T key v" "place_ok (with_top T n') key v m p = place_ok T key v m p"
  using assms by (simp_all add: place_ok_def visit_ok_def)

lemma gives_prefix_pc_ok:
  assumes "shallow t T" "gives_prefix T T'" "pc_ok T key q"
  shows "pc_ok T' key q"
proof -
  have "\<not> visit_ok T key v" for v using assms(2) by (simp add: gives_prefix_def visit_ok_def)
  moreover have "root T' = root T" using assms(2) by (auto simp: gives_prefix_def)
  ultimately show ?thesis using assms(3) by (cases q) (auto simp: place_ok_def)
qed

lemma stores_pc_ok:
  assumes "shallow t T" "stores T key u p T'" "pc_ok T key' q" "set (writes p) \<inter> set (writes q) = {}"
  shows "pc_ok T' key' q"
proof -
  note s = shallowD [OF assms(1)]
  from assms(2) obtain m j y where T: "T' = with_top T (put_at (top_node T) m (low32 key) j y)" and j: "j < 16"
    and y: "live (key_version (top_node T) m (low32 key)) y" "subKey y = low32 key"
    and w: "hit (top_node T) m (low32 key) j \<or> (\<exists>v r. p = Put v m r j \<and> place_ok T key v m r \<and>
       seen (top_node T) (low32 key) m j \<and> \<not> occupied (top_node T) m (low32 key) j)"
    unfolding stores_def by blast
  let ?n = "top_node T" and ?k = "low32 key" and ?k' = "low32 key'"
  let ?n' = "put_at ?n m ?k j y"
  have old: "alive ?n m ?k j \<Longrightarrow> subKey y = subKey (key_slot ?n m ?k j)"
    using w y(2) by (auto simp: hit_def occupied_def)
  note place = pc_ok_with_top [OF s(1) put_at_entry(1,2), of m ?k j y, folded T]
  have top: "root T' = root T" "nodes T' ! root T = ?n'" using s(1) by (simp_all add: T)
  have seen: "seen ?n ?k' m' j' \<Longrightarrow> seen ?n' ?k' m' j'" for m' j'
    using w put_at_seen [OF s(3) y] put_at_seen_hit [OF s(3) j _ y] by blast
  note shared = put_at_seen_shared [OF s(3) j y(1) old]
  note keeps = put_at_keeps [OF s(3) j _ y(1) old]
  have free: "\<not> occupied ?n' m' ?k' j'" if q: "q = Put v' m' r' j'" "place_ok T key' v' m' r'" and o: "\<not> occupied ?n m' ?k' j'"
    and j': "j' < 16" for v' m' r' j'
  proof (cases "same_slot ?n m' ?k' j' m ?k j")
    case True
    note ss = same_slot_role [OF s(3) True]
    show ?thesis
      using w
    proof
      assume h: "hit ?n m ?k j"
      have "j' = j" using True by (simp add: same_slot_def Let_def)
      with ss h o have "?k' = ?k" by (auto simp: occupied_def hit_def alive_def)
      with put_at_slot [OF s(3) j j', of m ?k y m' ?k'] True y(2) show ?thesis by (simp add: occupied_def)
    next
      assume "\<exists>v r. p = Put v m r j \<and> place_ok T key v m r \<and> seen ?n ?k m j \<and> \<not> occupied ?n m ?k j"
      then obtain v r where p: "p = Put v m r j" "place_ok T key v m r" by blast
      have "BucketLock (at_node v) (v_segment v) r = BucketLock (at_node v') (v_segment v') r'"
        using True p(2) q(2) visit_slots(3) [OF assms(1) p(2)] visit_slots(3) [OF assms(1) q(2)]
        by (simp add: same_slot_def Let_def place_ok_def visit_ok_def v_segment_def)
      then show ?thesis using assms(4) p(1) q(1) by simp
    qed
  next
    case False
    with keeps(6) [OF j'] o show ?thesis by blast
  qed
  show ?thesis
  proof (cases q)
    case (Put v' m' r' j')
    then have "j' < 16" using assms(3) by (auto simp: seen_def split: if_splits)
    with Put free [of v' m' r' j'] seen assms(3) show ?thesis by (simp add: top place)
  next
    case (SwapValue v' r' j' x)
    with assms(3) keeps(3) show ?thesis by (simp add: top place) blast
  qed (use assms(3) seen shared in \<open>simp_all add: top place\<close>)
qed

text \<open>A thread takes a write lock only when no other thread has it.\<close>

lemma act_writes:
  assumes "pc_ok T key p" "act rd wr T key u p = Some (T', p')" "shallow t T" "top32 key = t" "l \<in> set (writes p')"
  shows "l \<in> set (writes p) \<or> wr l"
  using assms
proof (cases p)
  case (Descend c pos)
  with assms show ?thesis by (auto simp: descend_def Let_def split: if_splits sum.splits)
next
  case (PrefixLock c pos)
  with assms show ?thesis by (auto simp: assign_prefix_def Let_def split: if_splits sum.splits)
next
  case (ScanShared v)
  with assms show ?thesis by (auto simp: search_shared_def found_slot_def split: if_splits scan.splits)
next
  case (ScanMain v r)
  with assms show ?thesis by (auto simp: search_main_def found_slot_def split: if_splits scan.splits)
qed (auto split: if_splits)


subsection \<open>All threads\<close>

lemma conc_actE:
  assumes "conc_act s i = Some s'"
  obtains T' p' where "i < length (clients s)"
    "act (can_read s i) (can_write s i) (memory s) (key_of s i) (value_of s i) (pc_of s i) = Some (T', p')"
    "memory s' = T'" "length (clients s') = length (clients s)"
    "\<And>j. pc_of s' j = (if j = i then p' else pc_of s j)" "\<And>j. key_of s' j = key_of s j" "\<And>j. value_of s' j = value_of s j"
proof (cases "i < length (clients s)")
  case True
  obtain key u p where c: "clients s ! i = (key, u, p)" by (cases "clients s ! i") auto
  with assms True obtain T' p' where a: "act (can_read s i) (can_write s i) (memory s) key u p = Some (T', p')"
    "s' = \<lparr>memory = T', clients = (clients s)[i := (key, u, p')]\<rparr>" by (auto simp: conc_act_def)
  have p: "pc_of s' j = (if j = i then p' else pc_of s j)" "key_of s' j = key_of s j" "value_of s' j = value_of s j" for j
    using True c a(2) by (auto simp: key_of_def value_of_def pc_of_def nth_list_update)
  show ?thesis using that [OF True _ _ _ p, of T'] a c by (simp add: key_of_def value_of_def pc_of_def)
next
  case False
  with assms show ?thesis by (simp add: conc_act_def)
qed

lemma conc_act_inv:
  assumes "conc_inv t s" "conc_act s i = Some s'"
  shows "conc_inv t s'"
    "tree_map (memory s') =
       (if pc_of s' i = Finished Success then (tree_map (memory s))(key_of s i \<mapsto> value_of s i) else tree_map (memory s))"
    "pc_of s i \<noteq> Finished Success" "j \<noteq> i \<Longrightarrow> pc_of s' j = pc_of s j"
proof -
  from conc_actE [OF assms(2)] obtain T' p' where i: "i < length (clients s)"
    and a: "act (can_read s i) (can_write s i) (memory s) (key_of s i) (value_of s i) (pc_of s i) = Some (T', p')"
    and s': "memory s' = T'" "length (clients s') = length (clients s)"
      "\<And>j. pc_of s' j = (if j = i then p' else pc_of s j)" "\<And>j. key_of s' j = key_of s j"
    by metis
  have sh: "shallow t (memory s)" and ex: "exclusive s"
    and ok: "\<And>j. j < length (clients s) \<Longrightarrow> top32 (key_of s j) = t \<and> pc_ok (memory s) (key_of s j) (pc_of s j)"
    using assms(1) by (simp_all add: conc_inv_def)
  have oki: "top32 (key_of s i) = t" "pc_ok (memory s) (key_of s i) (pc_of s i)" using ok [OF i] by blast+
  note eff = act_effect [OF sh oki a]
  show f: "pc_of s i \<noteq> Finished Success" using a by auto
  have other: "set (writes (pc_of s i)) \<inter> set (writes (pc_of s j)) = {}" "set (writes p') \<inter> set (writes (pc_of s j)) = {}"
    if j: "j < length (clients s)" "j \<noteq> i" for j
  proof -
    show d: "set (writes (pc_of s i)) \<inter> set (writes (pc_of s j)) = {}" using ex i j by (auto simp: exclusive_def)
    have "l \<notin> set (writes (pc_of s j))" if "can_write s i l" for l using that j by (auto simp: can_write_def list_all_iff)
    with d act_writes [OF oki(2) a sh oki(1)] show "set (writes p') \<inter> set (writes (pc_of s j)) = {}" by blast
  qed
  have "pc_ok T' (key_of s j) (pc_of s j)" if j: "j < length (clients s)" "j \<noteq> i" for j
    using eff ok [OF j(1)] gives_prefix_pc_ok [OF sh] stores_pc_ok [OF sh _ _ other(1) [OF j]]
    by (auto simp: step_effect_def split: if_splits)
  then show "conc_inv t s'"
    using eff ok ex other by (auto simp: conc_inv_def s' step_effect_def exclusive_def Int_commute)
  show "tree_map (memory s') =
       (if pc_of s' i = Finished Success then (tree_map (memory s))(key_of s i \<mapsto> value_of s i) else tree_map (memory s))"
    using eff by (auto simp: s' step_effect_def stores_def gives_prefix_def split: if_splits)
  show "j \<noteq> i \<Longrightarrow> pc_of s' j = pc_of s j" by (simp add: s')
qed

interpretation wrert_conc: machine "conc_start t" conc_step "conc_inv t" for t
proof unfold_locales
  show "conc_inv t s" if "conc_start t s" for s
    using that by (auto simp: conc_start_def conc_inv_def exclusive_def)
  show "conc_inv t s'" if "conc_inv t s" "conc_step s s'" for s s'
    using that conc_act_inv(1) by (auto elim: conc_stepE)
qed


lemma shallow_wrert_ok: "shallow t T \<Longrightarrow> wrert_ok T"
  by (auto simp: shallow_def wrert_ok_def leaf_ok_def Let_def)

subsection \<open>Linearisation\<close>

definition finished :: "conc \<Rightarrow> nat set" where
  "finished s = {i. i < length (clients s) \<and> pc_of s i = Finished Success}"

definition inserts :: "conc \<Rightarrow> nat list \<Rightarrow> (u64 \<times> 48 word) list" where
  "inserts s is = map (\<lambda>i. (key_of s i, value_of s i)) is"

definition order_of :: "conc \<Rightarrow> conc \<Rightarrow> nat list \<Rightarrow> bool" where
  "order_of s s' is \<longleftrightarrow> distinct is \<and> set is = finished s' \<and>
     tree_map (memory s') = tree_map (memory s) ++ map_of (rev (inserts s is))"

lemma conc_order:
  assumes "conc_start t s" "conc_step\<^sup>*\<^sup>* s s'"
  shows "length (clients s') = length (clients s) \<and> (\<forall>j. key_of s' j = key_of s j \<and> value_of s' j = value_of s j) \<and>
    (\<exists>is. order_of s s' is)"
  using assms(2)
proof (induction rule: rtranclp_induct)
  case base
  have "finished s = {}" using assms(1) by (auto simp: finished_def conc_start_def)
  then have "order_of s s []" by (simp add: order_of_def inserts_def)
  then show ?case by blast
next
  case (step u v)
  from step.IH obtain "is" where len: "length (clients u) = length (clients s)"
    and kv: "\<And>j. key_of u j = key_of s j" "\<And>j. value_of u j = value_of s j" and ord: "order_of s u is" by blast
  from step.hyps(2) obtain i where a: "conc_act u i = Some v" by (rule conc_stepE)
  have inv: "conc_inv t u" by (rule wrert_conc.reachable_inv [OF assms(1) step.hyps(1)])
  note c = conc_act_inv [OF inv a]
  from conc_actE [OF a] have f: "i < length (clients u)" "length (clients v) = length (clients u)"
    "\<And>j. key_of v j = key_of u j" "\<And>j. value_of v j = value_of u j" by metis+
  obtain ended where d: "ended \<longleftrightarrow> pc_of v i = Finished Success" by blast
  have pcs: "pc_of v x = Finished Success \<longleftrightarrow> (if x = i then ended else pc_of u x = Finished Success)" for x
    using c(4) [of x] d by (cases "x = i") simp_all
  show ?case
  proof (cases "pc_of v i = Finished Success")
    case True
    have "finished v = insert i (finished u)" "i \<notin> finished u"
      unfolding finished_def pcs using True d f(1,2) c(3) by auto
    then have "order_of s v (is @ [i])"
      using ord c(2) True kv by (simp add: order_of_def inserts_def)
    then show ?thesis using f len kv by auto
  next
    case False
    then have "finished v = finished u" unfolding finished_def pcs using d f(2) c(3) by auto
    then have "order_of s v is" using ord c(2) False by (simp add: order_of_def)
    then show ?thesis using f len kv by auto
  qed
qed


text \<open>
  C30.  Threads that insert keys of one upper half into a tree whose root is a leaf, until a
  segment split is needed: a thread that finds both its buckets full stops there and does not
  return.  Whatever the interleaving of the others, the threads that have returned can be put in an
  order such that \<open>search\<close> answers as if \<open>insert\<close> had been called in this order by one
  thread.  No thread runs into undefined behaviour.
\<close>

theorem wrert_conc_linear:
  assumes "conc_start t s" "conc_step\<^sup>*\<^sup>* s s'"
  shows "\<exists>is T. distinct is \<and> set is = finished s' \<and> run_puts wrert_put (memory s) (inserts s is) = Inr T \<and>
    (\<forall>junk key. junk = 0 \<or> 24 < junk \<longrightarrow> wrert_search junk (memory s') key = wrert_search junk T key) \<and>
    (\<forall>i<length (clients s). \<forall>e. pc_of s' i \<noteq> Crashed e)"
proof -
  from conc_order [OF assms] obtain "is" where len: "length (clients s') = length (clients s)" and o: "order_of s s' is" by blast
  have inv: "conc_inv t s'" by (rule wrert_conc.reachable_inv [OF assms])
  have ok: "wrert_ok (memory s)" "wrert_ok (memory s')"
    using assms(1) inv by (auto simp: conc_start_def conc_inv_def intro: shallow_wrert_ok)
  from wrert_tree.run_ok [OF ok(1), of "inserts s is"] obtain T where
    T: "run_puts wrert_put (memory s) (inserts s is) = Inr T" "wrert_ok T" "tree_map T = tree_map (memory s')"
    using o by (auto simp: order_of_def)
  have "wrert_search junk (memory s') key = wrert_search junk T key" if "junk = 0 \<or> 24 < junk" for junk key
    using search_ok [OF ok(2) that] search_ok [OF T(2) that] by (simp add: T(3))
  moreover have "pc_of s' i \<noteq> Crashed e" if "i < length (clients s)" for i e
    using inv that len unfolding conc_inv_def by (metis pc_ok.simps)
  ultimately show ?thesis using o T(1) by (auto simp: order_of_def)
qed

end
