(* ===== verification/Wrert_Conc_Live.thy ===== *)
theory Wrert_Conc_Live
  imports Wrert_Conc_Props
begin

text \<open>
  Every run of inserting threads on a leaf root ends, without any fairness, and it only ends when
  all threads have returned or wait for a segment split.  The measure counts the threads that
  have not returned, then the steps each needs: a thread that will have to start again, since its
  slot has been taken, has more of them.
\<close>

subsection \<open>The steps a thread needs\<close>

fun todo :: "wrert \<Rightarrow> u64 \<Rightarrow> pc \<Rightarrow> nat" where
  "todo T key Start = 11"
| "todo T key (RootLock r) = 10"
| "todo T key (RootCheck r) = 9"
| "todo T key (Descend c pos) = 7"
| "todo T key (PrefixLock c pos) = (if prefixLength (header (top_node T)) = 6 then 1 else 12)"
| "todo T key (PrefixRelock c pos) = 8"
| "todo T key (LockSegment v) = 6"
| "todo T key (ScanShared v) = 5"
| "todo T key (ScanMain v r) = (case r of Free j \<Rightarrow> if occupied (top_node T) False (low32 key) j then 14 else 4 | _ \<Rightarrow> 4)"
| "todo T key (SlotLock v m p j) = (if occupied (top_node T) m (low32 key) j then 13 else 3)"
| "todo T key (Recheck v m p j) = (if occupied (top_node T) m (low32 key) j then 12 else 2)"
| "todo T key (Put v m p j) = 1"
| "todo T key (SwapValue v p j w) = (if slot_value (slot_of T v p j) = w then 1 else 12)"
| "todo T key _ = 0"

lemma todo_bound: "todo T key p \<le> 14"
  by (cases p) (auto split: scan.splits)

lemma descend_todo:
  assumes "shallow t T" "top32 key = t"
  shows "todo T key (descend T key (root T) 0) < 7"
proof -
  note s = shallowD [OF assms(1)]
  from s(7) consider "prefixLength (header (top_node T)) = 6"
    | "prefixLength (header (top_node T)) = 1" "prefix_is t (header (top_node T))" by blast
  then show ?thesis
  proof cases
    case 1
    then show ?thesis by (simp add: descend_def Let_def computePrefix_def)
  next
    case 2
    obtain w where g: "get_subkey key 32 32 = Inr w" "ucast w = low32 key" by (rule subkey_halves)
    have "\<not> bad_depths (top_node T) (low32 key)" by (rule node_entry(6) [OF s(3)])
    with 2 g assms(2) show ?thesis
      using computePrefix_one [OF 2(1) s(4), of key] by (simp add: descend_def Let_def)
  qed
qed

lemma found_slot_todo: "visit_ok T key v \<Longrightarrow> todo T key (found_slot T v p j) = 1"
  by (simp add: found_slot_def visit_ok_def)

lemma scan_todo:
  assumes "shallow t T" "visit_ok T key v"
  shows "todo T key (search_shared T v) < 5" "todo T key (search_main T v r) < todo T key (ScanMain v r)"
proof -
  have p: "place_ok T key v False (v_shared v)" "place_ok T key v True (v_main v)" using assms(2) by (simp_all add: place_ok_def)
  have k: "for_key v = low32 key" using assms(2) by (simp add: visit_ok_def)
  have ver: "shared_version (localDepth (entry v)) = shared_version (key_version (top_node T) False (low32 key))"
    "main_version (localDepth (entry v)) = shared_version (key_version (top_node T) True (low32 key))"
    using visit_slots(2) [OF assms(1) p(1)] visit_slots(2) [OF assms(1) p(2)] by (simp_all add: slot_version_def)
  note b = visit_slots(1) [OF assms(1) p(1)] visit_slots(1) [OF assms(1) p(2)]
  note found = found_slot_todo [OF assms(2)]
  have free: "\<not> occupied (top_node T) m (low32 key) j"
    if "scan_bucket (shared_version (key_version (top_node T) m (low32 key))) (low32 key) (key_bucket (top_node T) m (low32 key)) = Free j" for m j
    using scan_bucket_cases(2) [OF key_bucket_ok [OF shallowD(3) [OF assms(1)], of m "low32 key"] that]
    by (auto simp: find_index_eq_Some_iff occupied_def alive_def)
  show "todo T key (search_shared T v) < 5"
    using free [of False] found by (simp add: search_shared_def b ver k split: scan.splits)
  show "todo T key (search_main T v r) < todo T key (ScanMain v r)"
    using free [of True] found by (auto simp: search_main_def b ver k split: scan.splits)
qed

lemma act_todo:
  assumes "shallow t T" "top32 key = t" "pc_ok T key p" "act rd wr T key u p = Some (T, p')" "p' \<noteq> Finished Success"
  shows "todo T key p' < todo T key p"
  using assms(3,4)
proof (cases p)
  case (Descend c pos)
  with assms descend_todo [OF assms(1,2)] show ?thesis by auto
next
  case (PrefixLock c pos)
  then have e: "assign_prefix T key (root T) 0 = (T, p')" using assms by (auto split: if_splits)
  show ?thesis
  proof (cases "prefixLength (header (top_node T)) = 6")
    case True
    from assignPrefix_one [of key] obtain a where a: "assignPrefix 1 key 0 = Inr a" by blast
    have "prefixLength (header (top_node (fst (assign_prefix T key (root T) 0)))) = 1"
      using True a shallowD(1) [OF assms(1)] by (simp add: assign_prefix_def Let_def)
    with True e show ?thesis by simp
  next
    case False
    with e PrefixLock show ?thesis by (simp add: assign_prefix_def Let_def)
  qed
next
  case (ScanShared v)
  with assms scan_todo(1) [OF assms(1), of key v] show ?thesis by (auto split: if_splits)
next
  case (ScanMain v r)
  with assms scan_todo(2) [OF assms(1), of key v r] show ?thesis by (auto split: if_splits)
next
  case (Recheck v m q j)
  with assms visit_slots(4,5) [OF assms(1), of key v m q j] show ?thesis by (auto split: if_splits)
next
  case (Put v m q j)
  with assms show ?thesis by simp
next
  case (SwapValue v q j w)
  with assms show ?thesis by (auto split: if_splits)
qed (auto simp: assms(5) split: if_splits)


subsection \<open>The measure\<close>

definition pending :: "conc \<Rightarrow> nat" where
  "pending s = (\<Sum>i<length (clients s). if pc_of s i = Finished Success then 0 else 1) +
     (if prefixLength (header (top_node (memory s))) = 6 then 1 else 0)"

definition steps_left :: "conc \<Rightarrow> nat" where
  "steps_left s = (\<Sum>i<length (clients s). todo (memory s) (key_of s i) (pc_of s i))"

definition work :: "conc \<Rightarrow> nat" where
  "work s = pending s * Suc (14 * length (clients s)) + steps_left s"

lemma steps_left_bound: "steps_left s \<le> 14 * length (clients s)"
  using sum_bounded_above [of "{..<length (clients s)}" "\<lambda>i. todo (memory s) (key_of s i) (pc_of s i)" 14]
  by (simp add: steps_left_def todo_bound mult.commute)

lemma sum_less_at:
  fixes f g :: "nat \<Rightarrow> nat"
  assumes "i < n" "f i < g i" "\<And>j. j \<noteq> i \<Longrightarrow> f j = g j"
  shows "(\<Sum>j<n. f j) < (\<Sum>j<n. g j)"
proof (rule sum_strict_mono_ex1)
  show "\<forall>j\<in>{..<n}. f j \<le> g j" using assms(2,3) by (metis less_imp_le_nat order_refl)
qed (use assms in auto)

lemma work_decreases:
  assumes "conc_inv t s" "conc_act s i = Some s'"
  shows "work s' < work s"
proof -
  from conc_actE [OF assms(2)] obtain T' p' where i: "i < length (clients s)"
    and a: "act (can_read s i) (can_write s i) (memory s) (key_of s i) (value_of s i) (pc_of s i) = Some (T', p')"
    and m: "memory s' = T'" and len: "length (clients s') = length (clients s)"
    and pcs: "\<And>j. pc_of s' j = (if j = i then p' else pc_of s j)" and keys: "\<And>j. key_of s' j = key_of s j"
    by metis
  have sh: "shallow t (memory s)" and ok: "top32 (key_of s i) = t" "pc_ok (memory s) (key_of s i) (pc_of s i)"
    using assms(1) i by (simp_all add: conc_inv_def)
  note eff = act_effect [OF sh ok a]
  have un: "pc_of s i \<noteq> Finished Success" by (rule conc_act_inv(3) [OF assms])
  have same: "(pc_of s' j = Finished Success) = (pc_of s j = Finished Success)" if "p' \<noteq> Finished Success" for j
    using un that by (simp add: pcs)
  let ?pre = "\<lambda>T. if prefixLength (header (top_node T)) = 6 then 1 else (0 :: nat)"
  consider (ends) "p' = Finished Success" | (stays) "p' \<noteq> Finished Success" "T' = memory s"
    | (prefix) "p' \<noteq> Finished Success" "gives_prefix (memory s) T'"
    using eff unfolding step_effect_def by metis
  then have "pending s' < pending s \<or> pending s' = pending s \<and> steps_left s' < steps_left s"
  proof cases
    case ends
    have "(\<Sum>j<length (clients s). if pc_of s' j = Finished Success then 0 else (1 :: nat)) <
        (\<Sum>j<length (clients s). if pc_of s j = Finished Success then 0 else 1)"
      by (rule sum_less_at [OF i]) (use un in \<open>auto simp: pcs ends\<close>)
    moreover have "?pre T' = ?pre (memory s)"
      using eff ends shallowD(1) [OF sh] by (auto simp: step_effect_def stores_def)
    ultimately show ?thesis by (simp add: pending_def len m)
  next
    case stays
    have "steps_left s' < steps_left s"
      unfolding steps_left_def len
      by (rule sum_less_at [OF i]) (use act_todo [OF sh ok] a stays in \<open>auto simp: pcs keys m\<close>)
    moreover have "pending s' = pending s"
      using stays same by (simp add: pending_def len m)
    ultimately show ?thesis by simp
  next
    case prefix
    then have "?pre T' < ?pre (memory s)" by (simp add: gives_prefix_def)
    then show ?thesis using same prefix by (simp add: pending_def len m)
  qed
  then show ?thesis
  proof
    assume "pending s' < pending s"
    then have "Suc (pending s') * Suc (14 * length (clients s)) \<le> pending s * Suc (14 * length (clients s))"
      by (intro mult_le_mono1) simp
    then show ?thesis using steps_left_bound [of s'] by (simp add: work_def len)
  qed (simp add: work_def len)
qed

lemma run_work:
  assumes "(conc_step ^^ k) s s'" "conc_inv t s"
  shows "k + work s' \<le> work s"
  using assms
proof (induction k arbitrary: s')
  case (Suc k)
  from Suc.prems(1) obtain u where u: "(conc_step ^^ k) s u" "conc_step u s'" by auto
  have "conc_inv t u" using wrert_conc.run_inv Suc.prems(2) u(1) by (metis relpowp_imp_rtranclp)
  with u(2) have "work s' < work u" by (auto elim!: conc_stepE intro: work_decreases)
  with Suc.IH [OF u(1) Suc.prems(2)] show ?case by simp
qed simp

text \<open>
  C31.  However the scheduler interleaves them, \<open>n\<close> threads that insert keys of one upper half
  into a tree whose root is a leaf take at most \<open>(n + 1) * (14 * n + 1) + 11 * n\<close> steps together.
  The steps of a thread are counted until it returns or finds both its buckets full and needs a
  segment split, with all its retries up to there; the split itself is not counted.
\<close>

theorem wrert_conc_terminates:
  assumes "conc_start t s" "(conc_step ^^ k) s s'"
  shows "k \<le> (length (clients s) + 1) * (14 * length (clients s) + 1) + 11 * length (clients s)"
proof -
  have start: "\<And>i. i < length (clients s) \<Longrightarrow> pc_of s i = Start" using assms(1) by (simp add: conc_start_def)
  have "pending s \<le> length (clients s) + 1" using start by (simp add: pending_def)
  then have "pending s * Suc (14 * length (clients s)) \<le> (length (clients s) + 1) * (14 * length (clients s) + 1)"
    using mult_le_mono1 [of "pending s" "length (clients s) + 1" "Suc (14 * length (clients s))"] by simp
  moreover have "steps_left s = 11 * length (clients s)" using start by (simp add: steps_left_def)
  ultimately show ?thesis
    using run_work [OF assms(2) wrert_conc.start_inv [OF assms(1)]] by (simp add: work_def)
qed


subsection \<open>No deadlock\<close>

lemma pc_ok_locks:
  assumes "pc_ok T key p"
  shows "writes p \<noteq> [] \<Longrightarrow> (\<exists>v m q j. p = Recheck v m q j) \<or> (\<exists>v m q j. p = Put v m q j)"
    "DirLock c \<notin> set (writes p)" "SegmentLock c g \<notin> set (writes p)" "BucketLock c g q \<notin> set (reads p)"
  using assms by (cases p; simp add: visit_reads_def)+

text \<open>What a thread waits for: nothing, a bucket, or the directory of the root.\<close>

lemma act_blocked:
  assumes "pc_ok T key p" "act rd wr T key u p = None"
  shows "(\<exists>r. p = Finished r) \<or> p = Restructure \<or> (\<exists>l. l \<in> range DirLock \<union> range (case_prod SegmentLock) \<and> \<not> rd l) \<or>
    (\<exists>c g q. \<not> rd (BucketLock c g q) \<or> \<not> wr (BucketLock c g q)) \<or> (\<exists>c pos. p = PrefixLock c pos \<and> \<not> wr (DirLock c))"
  using assms by (cases p) (auto split: if_splits)

text \<open>
  C32.  Threads that insert keys of one upper half into a tree whose root is a leaf never
  deadlock: a state in which no thread can act is one where every thread has returned \<open>Success\<close>
  or has found its two buckets full and needs a segment split.
\<close>

theorem wrert_conc_progress:
  assumes "conc_start t s" "conc_step\<^sup>*\<^sup>* s s'" "\<And>s''. \<not> conc_step s' s''" "i < length (clients s')"
  shows "pc_of s' i = Finished Success \<or> pc_of s' i = Restructure"
proof -
  have inv: "conc_inv t s'" by (rule wrert_conc.reachable_inv [OF assms(1,2)])
  have ok: "pc_ok (memory s') (key_of s' j) (pc_of s' j)" if "j < length (clients s')" for j
    using inv that by (simp add: conc_inv_def)
  have stuck: "act (can_read s' j) (can_write s' j) (memory s') (key_of s' j) (value_of s' j) (pc_of s' j) = None"
    if j: "j < length (clients s')" for j
  proof -
    have "conc_act s' j = None" using assms(3) thread_acts by (metis option.exhaust)
    then show ?thesis using j by (auto simp: conc_act_def key_of_def value_of_def pc_of_def split: prod.splits)
  qed
  have w: "writes (pc_of s' j) = []" if j: "j < length (clients s')" for j
  proof (rule ccontr)
    assume "writes (pc_of s' j) \<noteq> []"
    then show False using pc_ok_locks(1) [OF ok [OF j]] stuck [OF j] by auto
  qed
  then have rd: "can_read s' j l" for j l by (simp add: can_read_def list_all_iff)
  have wr: "can_write s' j (BucketLock c g q)" for j c g q
    using w pc_ok_locks(4) [OF ok] by (auto simp: can_write_def list_all_iff)
  have p: "(\<exists>r. pc_of s' j = Finished r) \<or> pc_of s' j = Restructure \<or> (\<exists>c pos. pc_of s' j = PrefixLock c pos)"
    if j: "j < length (clients s')" for j
    using act_blocked [OF ok [OF j] stuck [OF j]] rd wr by blast
  then have "reads (pc_of s' j) = []" if "j < length (clients s')" for j using that by fastforce
  with w have all: "can_write s' j l" for j l by (simp add: can_write_def list_all_iff)
  show ?thesis
    using p [OF assms(4)] ok [OF assms(4)] stuck [OF assms(4)] all by auto
qed

subsection \<open>Two threads\<close>

definition two_threads :: conc where
  "two_threads = \<lparr>memory = NewWRERT, clients = [(5, 7, Start), (6, 8, Start)]\<rparr>"

lemma two_threads_start: "conc_start 0 two_threads"
proof -
  have "prefixLength (header new_node) = 6" "nodeHeaderDepth (header new_node) = 0" "length (prefixArray (header new_node)) = 6"
    by (simp_all add: new_node_def NewWRERTNode_def header_initialize_def zero_header_def)
  then have "shallow 0 NewWRERT" by (simp add: shallow_def NewWRERT_def leaf_ok_def new_node_facts)
  then show ?thesis
    by (auto simp: conc_start_def two_threads_def less_Suc_eq pc_of_def key_of_def top32_def)
qed

text \<open>A run of both threads that has no next step.\<close>

lemma conc_run_ends:
  assumes "conc_start t s"
  shows "\<exists>s'. conc_step\<^sup>*\<^sup>* s s' \<and> (\<forall>s''. \<not> conc_step s' s'')"
proof -
  have "\<exists>s'. conc_step\<^sup>*\<^sup>* u s' \<and> (\<forall>s''. \<not> conc_step s' s'')" if "conc_inv t u" for u
    using that
  proof (induction "work u" arbitrary: u rule: less_induct)
    case less
    show ?case
    proof (cases "\<forall>s''. \<not> conc_step u s''")
      case False
      then obtain v where v: "conc_step u v" by blast
      then have "work v < work u" "conc_inv t v"
        using less.prems work_decreases wrert_conc.step_inv by (auto elim: conc_stepE)
      with less.hyps v show ?thesis by (meson converse_rtranclp_into_rtranclp)
    qed blast
  qed
  then show ?thesis using wrert_conc.start_inv [OF assms] by blast
qed


text \<open>The claims on a complete run of two threads.\<close>

theorem wrert_conc_linear_witness:
  "\<exists>s' is T. conc_step\<^sup>*\<^sup>* two_threads s' \<and> (\<forall>s''. \<not> conc_step s' s'') \<and> distinct is \<and> set is = finished s' \<and>
     run_puts wrert_put NewWRERT (inserts two_threads is) = Inr T \<and>
     (\<forall>key. wrert_search 77 (memory s') key = wrert_search 77 T key)"
proof -
  from conc_run_ends [OF two_threads_start] obtain s' where
    s': "conc_step\<^sup>*\<^sup>* two_threads s'" "\<forall>s''. \<not> conc_step s' s''" by blast
  have "memory two_threads = NewWRERT" by (simp add: two_threads_def)
  moreover have "(77 :: u32) = 0 \<or> 24 < (77 :: u32)" by simp
  ultimately show ?thesis using s' wrert_conc_linear [OF two_threads_start s'(1)] by metis
qed

theorem wrert_conc_terminates_witness:
  "\<exists>k s'. (conc_step ^^ k) two_threads s' \<and> (\<forall>s''. \<not> conc_step s' s'') \<and> k \<le> 109"
proof -
  from conc_run_ends [OF two_threads_start] obtain s' where
    s': "conc_step\<^sup>*\<^sup>* two_threads s'" "\<forall>s''. \<not> conc_step s' s''" by blast
  from s'(1) obtain k where k: "(conc_step ^^ k) two_threads s'" by (auto dest: rtranclp_imp_relpowp)
  have "length (clients two_threads) = 2" by (simp add: two_threads_def)
  with k s'(2) wrert_conc_terminates [OF two_threads_start k] show ?thesis by auto
qed

theorem wrert_conc_progress_witness:
  "\<exists>s'. conc_step\<^sup>*\<^sup>* two_threads s' \<and> (pc_of s' 0 = Finished Success \<or> pc_of s' 0 = Restructure)"
proof -
  from conc_run_ends [OF two_threads_start] obtain s' where
    s': "conc_step\<^sup>*\<^sup>* two_threads s'" "\<forall>s''. \<not> conc_step s' s''" by blast
  have "length (clients s') = length (clients two_threads)" using conc_order [OF two_threads_start s'(1)] by blast
  then have "0 < length (clients s')" by (simp add: two_threads_def)
  with s' wrert_conc_progress [OF two_threads_start s'(1)] show ?thesis by blast
qed

end
