(* ===== verification/Wrert_Conc_Races.thy ===== *)
theory Wrert_Conc_Races
  imports Wrert_Conc Wrert_Conc_Slots Wrert_Scan_Props
begin

text \<open>
  Two threads on a root without prefix, whose slots hold pairs and children: three interleavings
  in which \<open>insert\<close> loses an insertion, loses an update, and follows a pointer to a pair as if it
  were a node.
\<close>

subsection \<open>Two threads\<close>

definition race :: "wrert \<Rightarrow> u64 \<times> 48 word \<times> pc \<Rightarrow> u64 \<times> 48 word \<times> pc \<Rightarrow> conc" where
  "race T a b = \<lparr>memory = T, clients = [a, b]\<rparr>"

abbreviation may_read :: "pc \<Rightarrow> lock \<Rightarrow> bool" where "may_read q \<equiv> \<lambda>l. l \<notin> set (writes q)"
abbreviation may_write :: "pc \<Rightarrow> lock \<Rightarrow> bool" where "may_write q \<equiv> \<lambda>l. l \<notin> set (writes q) \<union> set (reads q)"

lemma race_locks:
  "can_read (race T (k, u, p) (k', u', q)) 0 = may_read q" "can_write (race T (k, u, p) (k', u', q)) 0 = may_write q"
  "can_read (race T (k, u, p) (k', u', q)) 1 = may_read p" "can_write (race T (k, u, p) (k', u', q)) 1 = may_write p"
  by (simp_all add: fun_eq_iff can_read_def can_write_def race_def pc_of_def numeral_2_eq_2)

lemma race_first:
  assumes "act (may_read q) (may_write q) T k u p = Some (T', p')"
  shows "conc_step (race T (k, u, p) (k', u', q)) (race T' (k, u, p') (k', u', q))"
proof (rule thread_acts)
  show "conc_act (race T (k, u, p) (k', u', q)) 0 = Some (race T' (k, u, p') (k', u', q))"
    using assms unfolding conc_act_def race_locks by (simp add: race_def)
qed

lemma race_second:
  assumes "act (may_read p) (may_write p) T k' u' q = Some (T', q')"
  shows "conc_step (race T (k, u, p) (k', u', q)) (race T' (k, u, p) (k', u', q'))"
proof (rule thread_acts)
  show "conc_act (race T (k, u, p) (k', u', q)) 1 = Some (race T' (k, u, p) (k', u', q'))"
    using assms unfolding conc_act_def race_locks by (simp add: race_def)
qed

text \<open>Several steps of one thread while the other stands still.\<close>

inductive solo :: "pc \<Rightarrow> u64 \<Rightarrow> 48 word \<Rightarrow> wrert \<times> pc \<Rightarrow> wrert \<times> pc \<Rightarrow> bool" for q k u where
  solo_here: "solo q k u s s"
| solo_act: "act (may_read q) (may_write q) T k u p = Some s \<Longrightarrow> solo q k u s t \<Longrightarrow> solo q k u (T, p) t"

lemma solo_trans: "solo q k u s t \<Longrightarrow> solo q k u t t' \<Longrightarrow> solo q k u s t'"
  by (induction rule: solo.induct) (auto intro: solo_act)

lemma solo_first:
  "solo q k u (T, p) (T', p') \<Longrightarrow> conc_step\<^sup>*\<^sup>* (race T (k, u, p) (k', u', q)) (race T' (k, u, p') (k', u', q))"
proof (induction "(T, p)" "(T', p')" arbitrary: T p rule: solo.induct)
  case (solo_act T p s)
  obtain T1 p1 where s: "s = (T1, p1)" by (cases s)
  then show ?case
    using converse_rtranclp_into_rtranclp [of conc_step, OF race_first [OF solo_act.hyps(1) [unfolded s]] solo_act.hyps(3) [OF s]] by blast
qed simp

lemma solo_second:
  "solo p k' u' (T, q) (T', q') \<Longrightarrow> conc_step\<^sup>*\<^sup>* (race T (k, u, p) (k', u', q)) (race T' (k, u, p) (k', u', q'))"
proof (induction "(T, q)" "(T', q')" arbitrary: T q rule: solo.induct)
  case (solo_act T q s)
  obtain T1 q1 where s: "s = (T1, q1)" by (cases s)
  then show ?case
    using converse_rtranclp_into_rtranclp [of conc_step, OF race_second [OF solo_act.hyps(1) [unfolded s]] solo_act.hyps(3) [OF s]] by blast
qed simp

subsection \<open>The way to a slot of the root\<close>

definition root_visit :: "wrert \<Rightarrow> u64 \<Rightarrow> visit" where
  "root_visit T key =
     \<lparr>at_node = root T, at_byte = 4, for_key = top32 key, entry = segment_node_of (nodes T ! root T) (top32 key)\<rparr>"

definition arrived :: "wrert \<Rightarrow> u64 \<Rightarrow> pc" where
  "arrived T key =
     (case locate (nodes T ! root T) (top32 key) of
        AtKey p j \<Rightarrow> ReadFlag (root_visit T key) p j
      | Vacant m p j \<Rightarrow> SlotLock (root_visit T key) m p j
      | NoRoom \<Rightarrow> Restructure)"

lemma inner_descend:
  assumes "inner_root T"
  shows "descend T key (root T) 0 = LockSegment (root_visit T key)"
proof -
  obtain t where g: "get_subkey key 0 32 = Inr t" "ucast t = top32 key" by (rule subkey_halves)
  then show ?thesis using inner_rootD(3,10) [OF assms]
    by (simp add: descend_def Let_def computePrefix_def root_visit_def)
qed

lemma scans_locate:
  "(case search_shared T (root_visit T key) of ScanMain v r \<Rightarrow> search_main T v r | p \<Rightarrow> p) = arrived T key"
  by (auto simp: search_shared_def search_main_def arrived_def locate_def root_visit_def bucket_of_def v_segment_def v_shared_def
      v_main_def found_slot_def Let_def split: scan.splits)

lemma solo_arrives:
  assumes "inner_root T" "writes q = []"
  shows "solo q key u (T, Start) (T, arrived T key)"
proof -
  let ?v = "root_visit T key"
  have "solo q key u (T, search_shared T ?v) (T, arrived T key)"
    using scans_locate [of T key] assms(2)
    by (auto simp: search_shared_def found_slot_def root_visit_def split: scan.splits intro!: solo_here solo_act)
  then have "solo q key u (T, ScanShared ?v) (T, arrived T key)" by (rule solo_act [rotated]) (simp add: assms(2))
  then have "solo q key u (T, LockSegment ?v) (T, arrived T key)" by (rule solo_act [rotated]) (simp add: assms(2))
  then have "solo q key u (T, Descend (root T) 0) (T, arrived T key)" by (rule solo_act [rotated]) (simp add: inner_descend [OF assms(1)])
  then have "solo q key u (T, RootCheck (root T)) (T, arrived T key)" by (rule solo_act [rotated]) simp
  then have "solo q key u (T, RootLock (root T)) (T, arrived T key)" by (rule solo_act [rotated]) (simp add: assms(2))
  then show ?thesis by (rule solo_act [rotated]) simp
qed

subsection \<open>A lost insertion\<close>

lemma locate_vacant:
  assumes "inner_root T" "locate (nodes T ! root T) (top32 key) = Vacant m p j"
  defines "e \<equiv> segment_node_of (nodes T ! root T) (top32 key)"
  shows "p = role_pos (localDepth e) (window e) m (top32 key)" "j < 16" "\<not> alive (nodes T ! root T) m (top32 key) j"
    "top32 key \<notin> dom (node_map (nodes T ! root T))"
    "find_index (\<lambda>x. \<not> live (role_ver (localDepth e) m) x) (segs (nodes T ! root T) ! segmentPtr e ! p) = Some j"
proof -
  note ok = inner_rootD(7) [OF assms(1)]
  note l = locate_ok(2) [OF ok assms(2), folded e_def]
  show p: "p = role_pos (localDepth e) (window e) m (top32 key)" using l by blast
  show "top32 key \<notin> dom (node_map (nodes T ! root T))" using l by (simp add: domIff)
  show f: "find_index (\<lambda>x. \<not> live (role_ver (localDepth e) m) x) (segs (nodes T ! root T) ! segmentPtr e ! p) = Some j" using l by blast
  then show "j < 16" "\<not> alive (nodes T ! root T) m (top32 key) j"
    using key_bucket_ok(1) [OF ok, of m "top32 key"]
    by (auto simp: find_index_eq_Some_iff alive_def key_bucket_def key_version_def Let_def p e_def)
qed

text \<open>The tree after a pair has been stored in a vacant slot of the root.\<close>

definition with_pair :: "wrert \<Rightarrow> u64 \<Rightarrow> 48 word \<Rightarrow> bool \<Rightarrow> nat \<Rightarrow> wrert" where
  "with_pair T key u m j =
     T\<lparr>nodes := (nodes T)[root T := put_at (nodes T ! root T) m (top32 key) j
         (fresh_slot (nodes T ! root T) m (top32 key) (KvAt (length (pairs T))) 0 False)],
       pairs := pairs T @ [(key, ucast u)]\<rparr>"

lemma with_pair_ok:
  fixes u
  assumes i: "inner_root T" and l: "locate (nodes T ! root T) (top32 key) = Vacant m p j"
  defines "T' \<equiv> with_pair T key u m j"
  shows "put_slot T key u (root_visit T key) m p j = T'" "inner_root T'" "tree_map T' = (tree_map T)(key \<mapsto> u)"
    "node_map (nodes T' ! root T') = (node_map (nodes T ! root T))(top32 key \<mapsto> (KvAt (length (pairs T)), False))"
    "pairs T' = pairs T @ [(key, ucast u)]"
proof -
  let ?n = "nodes T ! root T" and ?k = "top32 key" and ?i = "length (pairs T)"
  let ?n' = "put_at ?n m ?k j (fresh_slot ?n m ?k (KvAt ?i) 0 False)"
  note r = inner_rootD [OF i]
  note v = locate_vacant [OF i l]
  note w = write_slot_ok [OF r(7) v(4) v(1) v(5), of "KvAt ?i" 0 False]
  have e: "write_slot ?n ?k (KvAt ?i) (segment_node_of ?n ?k) 0 False m (p, j) = ?n'"
    unfolding v(1) by (rule write_slot_fresh [OF r(7) v(4,2)])
  note w = w [unfolded e]
  have n': "nodes T' ! root T' = ?n'" "root T' < length (nodes T')" using r(2) by (simp_all add: T'_def with_pair_def)
  show ps: "pairs T' = pairs T @ [(key, ucast u)]" by (simp add: T'_def with_pair_def)
  show put: "put_slot T key u (root_visit T key) m p j = T'"
    using e by (simp add: put_slot_def root_visit_def T'_def with_pair_def Let_def)
  show m: "node_map (nodes T' ! root T') = (node_map ?n)(?k \<mapsto> (KvAt ?i, False))" unfolding n'(1) by (rule w(2))
  have kn: "node_map ?n ?k = None" using v(4) unfolding domIff by blast
  have none: "tree_map T key' = None" if "top32 key' = ?k" for key' using that kn by (simp add: tree_map_inner [OF r(3)])
  have "wrert_ok T' \<and> tree_map T' = (tree_map T)(key \<mapsto> u)"
  proof (rule inner_update [OF r(1,3) n'(2) refl])
    show "node_map (nodes T' ! root T') = (node_map ?n)(?k \<mapsto> (KvAt ?i, False))" by (rule m)
    show "entry_ok T' ?k (KvAt ?i) False" using ps by (simp add: entry_ok_def)
    show "same_entry T T' w' \<and> w' \<noteq> KvAt ?i" if "node_map ?n k' = Some (w', f')" for k' w' f'
      using r(8) [OF that] ps n'(2) by (auto simp: entry_ok_def same_entry_def nth_append T'_def with_pair_def split: payload.splits)
    show "entry_val T' (KvAt ?i) False key' = (if key' = key then Some u else tree_map T key')" if "top32 key' = ?k" for key'
      using none [OF that] by (simp add: entry_val_def ps)
    show "closed_node (nodes T' ! root T')" using w unfolding n'(1) by (simp add: closed_node_def)
  qed (use r in \<open>simp_all add: n'(1)\<close>)
  then show "inner_root T'" "tree_map T' = (tree_map T)(key \<mapsto> u)" using r(3) by (simp_all add: inner_root_def n'(1))
qed


lemma taken_root:
  assumes "inner_root T"
  shows "taken (root_visit T key) m x \<longleftrightarrow> live (key_version (nodes T ! root T) m (top32 key)) x \<and> subKey x \<noteq> top32 key"
  by (auto simp: taken_def slot_version_def root_visit_def live_def key_version_def role_ver_def main_version_eq)

lemma slot_of_root:
  assumes "p = role_pos (localDepth (entry (root_visit T key))) (window (entry (root_visit T key))) m (top32 key)" "root T' = root T"
    "segment_node_of (nodes T' ! root T) (top32 key) = segment_node_of (nodes T ! root T) (top32 key)"
  shows "slot_of T' (root_visit T key) p j = key_slot (nodes T' ! root T) m (top32 key) j"
  using assms by (simp add: slot_of_def bucket_of_def root_visit_def v_segment_def key_bucket_def Let_def)

text \<open>Pairs that no slot points to.\<close>

lemma other_pairs:
  assumes "inner_root T" and same: "\<And>k w f. node_map (nodes T ! root T) k = Some (w, f) \<Longrightarrow> same_entry T (T\<lparr>pairs := ps\<rparr>) w"
  shows "inner_root (T\<lparr>pairs := ps\<rparr>)" "tree_map (T\<lparr>pairs := ps\<rparr>) = tree_map T"
proof -
  let ?T = "T\<lparr>pairs := ps\<rparr>"
  note r = inner_rootD [OF assms(1)]
  have n: "nodes ?T ! root ?T = nodes T ! root T" by simp
  have "inner_ok ?T (nodes T ! root T)"
    unfolding inner_ok_def using r(6,8,9) same same_entry_ok by blast
  then show "inner_root ?T" using r by (simp add: inner_root_def wrert_ok_def Let_def)
  have "prefixLength (header (nodes ?T ! root ?T)) = 0" using n r(3) by simp
  from tree_map_inner [OF this] tree_map_inner [OF r(3)] show "tree_map ?T = tree_map T"
    using same same_entry_val unfolding n by (auto simp: fun_eq_iff split: option.splits)
qed

definition leak :: "wrert \<Rightarrow> u64 \<Rightarrow> 48 word \<Rightarrow> wrert" where
  "leak T key u = T\<lparr>pairs := pairs T @ [(key, ucast u)]\<rparr>"

lemma leak_ok:
  assumes "inner_root T"
  shows "inner_root (leak T key u)" "tree_map (leak T key u) = tree_map T"
proof -
  have "same_entry T (T\<lparr>pairs := pairs T @ [(key, ucast u)]\<rparr>) w" if "node_map (nodes T ! root T) k = Some (w, f)" for k w f
    using inner_rootD(8) [OF assms that] by (auto simp: entry_ok_def same_entry_def nth_append split: payload.splits)
  from other_pairs [OF assms this] show "inner_root (leak T key u)" "tree_map (leak T key u) = tree_map T"
    by (simp_all add: leak_def)
qed

lemma second_pair:
  fixes T m j k2 u1 u2
  assumes i: "inner_root T" and l: "locate (nodes T ! root T) (top32 k1) = Vacant m p j" and k: "top32 k2 = top32 k1"
  defines "T1 \<equiv> with_pair T k1 u1 m j" and "T2 \<equiv> with_pair (leak T k1 u1) k2 u2 m j"
  shows "put_slot T1 k2 u2 (root_visit T k1) m p j = T2" "inner_root T2" "tree_map T2 = (tree_map T)(k2 \<mapsto> u2)"
    "\<not> taken (root_visit T k1) m (slot_of T1 (root_visit T k1) p j)"
proof -
  let ?n = "nodes T ! root T" and ?k = "top32 k1"
  note r = inner_rootD [OF i]
  note v = locate_vacant [OF i l]
  note w = with_pair_ok [OF leak_ok(1) [OF i, of k1 u1], of k2 m p j u2]
  have l2: "locate (nodes (leak T k1 u1) ! root (leak T k1 u1)) (top32 k2) = Vacant m p j" using l k by (simp add: leak_def)
  show "inner_root T2" "tree_map T2 = (tree_map T)(k2 \<mapsto> u2)"
    using w(2,3) [OF l2] leak_ok(2) [OF i] by (simp_all add: T2_def)
  have "nodes T1 ! root T = put_at ?n m ?k j (fresh_slot ?n m ?k (KvAt (length (pairs T))) 0 False)" and rt: "root T1 = root T"
    using r(2) by (simp_all add: T1_def with_pair_def)
  note n1 = this(1)
  note again = write_slot_again [OF r(7) v(2), where k = ?k and m = m and w = "KvAt (length (pairs T))" and fp = 0 and f = False
      and w' = "KvAt (Suc (length (pairs T)))" and fp' = 0 and f' = False, folded v(1) n1]
  show "put_slot T1 k2 u2 (root_visit T k1) m p j = T2"
    using again k by (simp add: put_slot_def root_visit_def Let_def) (simp add: T1_def T2_def with_pair_def leak_def k)
  have "slot_of T1 (root_visit T k1) p j = fresh_slot ?n m ?k (KvAt (length (pairs T))) 0 False"
    using slot_of_root [of p T k1 m T1 j] v(1) put_at_twice(2) [OF r(7) v(2)] by (simp add: rt n1 root_visit_def)
  then show "\<not> taken (root_visit T k1) m (slot_of T1 (root_visit T k1) p j)"
    using taken_root [OF i] fresh_slot_facts(2) by metis
qed


lemma solo_put:
  assumes "BucketLock (at_node v) (v_segment v) p \<notin> set (writes q) \<union> set (reads q)" "\<not> taken v m (slot_of T v p j)"
  shows "solo q key u (T, SlotLock v m p j) (put_slot T key u v m p j, Finished Success)"
proof -
  have "solo q key u (T, Put v m p j) (put_slot T key u v m p j, Finished Success)" by (rule solo_act [OF _ solo_here]) simp
  then have "solo q key u (T, Recheck v m p j) (put_slot T key u v m p j, Finished Success)"
    by (rule solo_act [rotated]) (simp add: assms(2))
  then show ?thesis by (rule solo_act [rotated]) (use assms(1) in simp)
qed

text \<open>
  C33.  Two threads insert keys with one upper half that the root does not have yet.  When both
  have chosen the vacant slot before either takes the lock of its bucket, the test after the lock
  does not stop the second, as the slot has the sub-key it looks for: both calls return
  \<open>Success\<close>, and the first key is not in the tree.
\<close>

theorem wrert_conc_lost_insert:
  assumes i: "inner_root T" and new: "top32 k1 \<notin> dom (node_map (nodes T ! root T))"
    and few: "card (dom (node_map (nodes T ! root T))) < 16" and k: "top32 k2 = top32 k1" "k2 \<noteq> k1"
  shows "\<exists>T'. conc_step\<^sup>*\<^sup>* (race T (k1, u1, Start) (k2, u2, Start)) (race T' (k1, u1, Finished Success) (k2, u2, Finished Success)) \<and>
    wrert_search 0 T' k1 = Inr (result_code Failed) \<and>
    (\<forall>key. wrert_search 0 T' key = (if key = k2 then Inr (ucast u2) else wrert_search 0 T key))"
proof -
  note r = inner_rootD [OF i]
  have "locate (nodes T ! root T) (top32 k1) \<noteq> NoRoom" by (rule locate_room [OF r(7) few])
  moreover have "locate (nodes T ! root T) (top32 k1) \<noteq> AtKey p j" for p j
    using at_key [OF r(7), of "top32 k1" p j] new by auto
  ultimately obtain m p j where l: "locate (nodes T ! root T) (top32 k1) = Vacant m p j"
    by (cases "locate (nodes T ! root T) (top32 k1)") auto
  let ?v = "root_visit T k1" and ?T1 = "with_pair T k1 u1 m j" and ?T2 = "with_pair (leak T k1 u1) k2 u2 m j"
  have a: "arrived T k1 = SlotLock ?v m p j" "arrived T k2 = SlotLock ?v m p j"
    by (simp_all add: arrived_def l k root_visit_def)
  note s = second_pair(1-3) [OF i l k(1), of u1 u2] second_pair(4) [OF i l k(1), of u1]
  have "slot_of T ?v p j = key_slot (nodes T ! root T) m (top32 k1) j"
    using slot_of_root [of p T k1 m T j] locate_vacant(1) [OF i l] by (simp add: root_visit_def)
  then have free: "\<not> taken ?v m (slot_of T ?v p j)"
    using locate_vacant(3) [OF i l] taken_root [OF i, of k1 m] by (simp add: alive_def)
  let ?race = "\<lambda>T p q. race T (k1, u1, p) (k2, u2, q)"
  have "conc_step\<^sup>*\<^sup>* (?race T Start Start) (?race T (SlotLock ?v m p j) Start)"
    using solo_first [OF solo_arrives [OF i]] by (simp flip: a(1))
  also have "conc_step\<^sup>*\<^sup>* \<dots> (?race T (SlotLock ?v m p j) (SlotLock ?v m p j))"
    using solo_second [OF solo_arrives [OF i, of "SlotLock ?v m p j" k2]] a(2) by simp
  also have "conc_step\<^sup>*\<^sup>* \<dots> (?race ?T1 (Finished Success) (SlotLock ?v m p j))"
    using solo_first [OF solo_put [OF _ free], of "SlotLock ?v m p j" k1 u1 k2 u2] with_pair_ok(1) [OF i l]
    by (simp add: visit_reads_def)
  also have "conc_step\<^sup>*\<^sup>* \<dots> (?race ?T2 (Finished Success) (Finished Success))"
    using solo_second [OF solo_put [OF _ s(4)], of "Finished Success" k1 u1 k2 u2] s(1) by simp
  finally have run: "conc_step\<^sup>*\<^sup>* (?race T Start Start) (?race ?T2 (Finished Success) (Finished Success))" .
  have ok: "wrert_ok ?T2" using s(2) by (rule inner_rootD(1))
  have "wrert_search 0 ?T2 key = (if key = k2 then Inr (ucast u2) else wrert_search 0 T key)" for key
    using search_ok [OF ok, of 0 key] search_ok [OF r(1), of 0 key] by (simp add: s(3) answer_def)
  moreover have "node_map (nodes T ! root T) (top32 k1) = None" using new unfolding domIff by blast
  then have "tree_map T k1 = None" by (simp add: tree_map_inner [OF r(3)])
  then have "wrert_search 0 T k1 = Inr (result_code Failed)" using search_ok [OF r(1), of 0 k1] by (simp add: answer_def)
  ultimately show ?thesis using run k(2) by (metis (no_types, lifting))
qed


subsection \<open>The way to a new child\<close>

text \<open>A key whose upper half leads to a pair of another key, or of the key itself.\<close>

definition at_pair :: "wrert \<Rightarrow> u64 \<Rightarrow> nat \<Rightarrow> bool" where
  "at_pair T key i \<longleftrightarrow> node_map (nodes T ! root T) (top32 key) = Some (KvAt i, False)"

lemma at_pairE:
  assumes "inner_root T" "at_pair T key i"
  obtains m p j where "locate (nodes T ! root T) (top32 key) = AtKey p j" "j < 16"
    "p = role_pos (localDepth (entry (root_visit T key))) (window (entry (root_visit T key))) m (top32 key)"
    "subKey (key_slot (nodes T ! root T) m (top32 key) j) = top32 key"
    "slot_value (key_slot (nodes T ! root T) m (top32 key) j) = KvAt i" "\<not> nodeFlag (key_slot (nodes T ! root T) m (top32 key) j)"
    "arrived T key = ReadFlag (root_visit T key) p j" "i < length (pairs T)"
    "slot_of T (root_visit T key) p j = key_slot (nodes T ! root T) m (top32 key) j"
proof -
  let ?n = "nodes T ! root T" and ?k = "top32 key"
  note r = inner_rootD [OF assms(1)]
  have m: "node_map ?n ?k = Some (KvAt i, False)" using assms(2) by (simp add: at_pair_def)
  obtain p j where a: "locate ?n ?k = AtKey p j"
    using locate_ok(2,3) [OF r(7), of ?k] m by (cases "locate ?n ?k") auto
  from locate_ok(1) [OF r(7) a] obtain m where p: "p = role_pos (localDepth (segment_node_of ?n ?k)) (window (segment_node_of ?n ?k)) m ?k"
    and j: "j < 16" and key: "subKey (segs ?n ! segmentPtr (segment_node_of ?n ?k) ! p ! j) = ?k" by blast
  have e: "entry (root_visit T key) = segment_node_of ?n ?k" by (simp add: root_visit_def)
  have s: "key_slot ?n m ?k j = segs ?n ! segmentPtr (segment_node_of ?n ?k) ! p ! j" by (simp add: key_bucket_def Let_def p)
  have "slot_of T (root_visit T key) p j = key_slot ?n m ?k j" using slot_of_root [of p T key m T j] p by (simp add: e)
  moreover have "i < length (pairs T)" using r(8) [OF m] by (simp add: entry_ok_def)
  moreover have "arrived T key = ReadFlag (root_visit T key) p j" by (simp add: arrived_def a)
  ultimately show ?thesis
    using that [OF a j p [folded e]] key at_key [OF r(7) a] \<open>node_map ?n ?k = Some (KvAt i, False)\<close> by (simp add: s)
qed

lemma store_root_slot:
  assumes "p = role_pos (localDepth (entry (root_visit T key))) (window (entry (root_visit T key))) m (top32 key)" "root T' = root T"
    "segment_node_of (nodes T' ! root T) (top32 key) = segment_node_of (nodes T ! root T) (top32 key)"
  shows "store_slot T' (root_visit T key) p j y = T'\<lparr>nodes := (nodes T')[root T := put_at (nodes T' ! root T) m (top32 key) j y]\<rparr>"
  using assms by (simp add: store_slot_def root_visit_def v_segment_def put_at_def Let_def)

text \<open>The thread that replaces the pair by a child, up to each of its last two stores.\<close>

lemma solo_child:
  assumes i: "inner_root T" and at: "at_pair T key i" and other: "fst (pairs T ! i) \<noteq> key"
    and q: "writes q = []" "\<And>c g p. BucketLock c g p \<notin> set (reads q)"
  shows "\<exists>p j T4 T'. arrived T key = ReadFlag (root_visit T key) p j \<and>
    solo q key u (T, ReadFlag (root_visit T key) p j) (T4, Publish (root_visit T key) p j (length (nodes T))) \<and>
    solo q key u (T4, Publish (root_visit T key) p j (length (nodes T))) (T', Finished Success) \<and>
    nodeFlag (slot_of T4 (root_visit T key) p j) \<and> slot_value (slot_of T4 (root_visit T key) p j) = KvAt i \<and>
    inner_root T' \<and> tree_map T' = (tree_map T)(key \<mapsto> u) \<and> pairs T' = pairs T \<and> root T' = root T \<and>
    node_map (nodes T' ! root T') = (node_map (nodes T ! root T))(top32 key \<mapsto> (NodeAt (length (nodes T)), True))"
proof -
  let ?n = "nodes T ! root T" and ?k = "top32 key" and ?d = "length (nodes T)" and ?v = "root_visit T key"
  note r = inner_rootD [OF i]
  obtain m p j where a: "locate ?n ?k = AtKey p j" and j: "j < 16"
    and p: "p = role_pos (localDepth (entry ?v)) (window (entry ?v)) m ?k"
    and x: "subKey (key_slot ?n m ?k j) = ?k" "slot_value (key_slot ?n m ?k j) = KvAt i" "\<not> nodeFlag (key_slot ?n m ?k j)"
    and arr: "arrived T key = ReadFlag ?v p j" and il: "i < length (pairs T)" and s: "slot_of T ?v p j = key_slot ?n m ?k j"
    by (rule at_pairE [OF i at])
  have fk: "for_key ?v = ?k" "at_byte ?v = 4" "at_node ?v = root T" by (simp_all add: root_visit_def)
  from two_leaves [of T "header ?n" "fst (pairs T ! i)" "snd (pairs T ! i)" "Some i" key "ucast u"] obtain n1 n2 where
    n: "insert_at (T\<lparr>nodes := nodes T @ [child_node (header ?n) 4]\<rparr>) (fst (pairs T ! i)) (snd (pairs T ! i)) ?d 4 RootLink (Some i) =
        Inr (T\<lparr>nodes := nodes T @ [n1]\<rparr>, Success)"
      "insert_at (T\<lparr>nodes := nodes T @ [n1]\<rparr>) key (ucast u) ?d 4 RootLink None = Inr (T\<lparr>nodes := nodes T @ [n2]\<rparr>, Success)"
      "child_ok n2" "leaf_val n2 = [low32 (fst (pairs T ! i)) \<mapsto> ucast (snd (pairs T ! i)), low32 key \<mapsto> ucast (ucast u :: u64)]" by blast
  let ?T3 = "T\<lparr>nodes := nodes T @ [n2]\<rparr>"
  let ?y = "(key_slot ?n m ?k j)\<lparr>nodeFlag := True\<rparr>"
  let ?T4 = "?T3\<lparr>nodes := (nodes ?T3)[root T := put_at ?n m ?k j ?y]\<rparr>"
  let ?T' = "set_child ?T3 (root T) (segmentPtr (segment_node_of ?n ?k)) p j ?d"
  have n3: "nodes ?T3 ! root T = ?n" "root T < length (nodes ?T3)" using r(2) by (simp_all add: nth_append)
  have s3: "slot_of ?T3 ?v p j = key_slot ?n m ?k j" using slot_of_root [OF p, of ?T3 j] n3 by simp
  have n4: "nodes ?T4 ! root T = put_at ?n m ?k j ?y" using n3(2) by simp
  have s4: "slot_of ?T4 ?v p j = ?y" using slot_of_root [OF p, of ?T4 j] n4 put_at_twice(2) [OF r(7) j] by simp
  have st3: "store_slot ?T3 ?v p j ?y = ?T4" using store_root_slot [OF p, of ?T3 j ?y] n3 by simp
  let ?z = "?y\<lparr>slot_value := NodeAt ?d\<rparr>"
  have "store_slot ?T4 ?v p j ?z = ?T3\<lparr>nodes := (nodes ?T3)[root T := put_at ?n m ?k j ?z]\<rparr>"
    using store_root_slot [OF p, of ?T4 j ?z] n4 put_at_twice(1) [OF r(7) j, of m ?k ?y] by simp
  also have "\<dots> = ?T'"
    unfolding set_child_def n3(1) by (simp add: put_at_def key_bucket_def Let_def p root_visit_def)
  finally have st4: "store_slot ?T4 ?v p j ?z = ?T'" .
  note cl = child_linked [OF i a at [unfolded at_pair_def] other n(3,4)]
  have mk: "make_child T key u ?v p j i = (?T3, SetFlag ?v p j ?d)"
    by (simp add: make_child_def Let_def fk n(1,2))
  have "solo q key u (?T3, SetFlag ?v p j ?d) (?T4, Publish ?v p j ?d)"
    by (rule solo_act [OF _ solo_here]) (simp add: s3 st3)
  then have "solo q key u (T, MakeChild ?v p j i) (?T4, Publish ?v p j ?d)" by (rule solo_act [rotated]) (simp add: mk)
  then have "solo q key u (T, ChildCheck ?v p j i) (?T4, Publish ?v p j ?d)"
    by (rule solo_act [rotated]) (simp add: taken_def s x(1) fk)
  then have "solo q key u (T, ChildLock ?v p j i) (?T4, Publish ?v p j ?d)" by (rule solo_act [rotated]) (simp add: q)
  then have "solo q key u (T, ReadPair ?v p j) (?T4, Publish ?v p j ?d)" by (rule solo_act [rotated]) (simp add: s x(2) other)
  then have "solo q key u (T, ReadFlag ?v p j) (?T4, Publish ?v p j ?d)" by (rule solo_act [rotated]) (simp add: s x(3))
  moreover have "solo q key u (?T4, Publish ?v p j ?d) (?T', Finished Success)"
    by (rule solo_act [OF _ solo_here]) (simp only: act.simps s4 st4)
  moreover have "nodeFlag (slot_of ?T4 ?v p j)" "slot_value (slot_of ?T4 ?v p j) = KvAt i" using s4 x(2) by simp_all
  moreover have "tree_map ?T' = (tree_map T)(key \<mapsto> u)" using cl(2) by simp
  ultimately show ?thesis
    by (intro exI [of _ p] exI [of _ j] exI [of _ ?T4] exI [of _ ?T'] conjI arr cl(1,3-5))
qed


subsection \<open>A lost update and a wild pointer\<close>

lemma same_half:
  assumes "top32 k2 = top32 k1"
  shows "root_visit T k2 = root_visit T k1" "arrived T k2 = arrived T k1" "at_pair T k2 i = at_pair T k1 i"
proof -
  show "root_visit T k2 = root_visit T k1" using assms by (simp add: root_visit_def)
  then show "arrived T k2 = arrived T k1" by (simp add: arrived_def assms cong: place.case_cong)
qed (simp add: at_pair_def assms)

text \<open>
  C34.  An update of a pair writes the pair without a lock on its bucket.  When another thread
  inserts a key with the same upper half in between, it copies the old value into a new child: both
  calls return \<open>Success\<close>, and \<open>search\<close> still finds the old value.
\<close>

theorem wrert_conc_lost_update:
  assumes i: "inner_root T" and at: "at_pair T k1 i" and key: "fst (pairs T ! i) = k1" and k: "top32 k2 = top32 k1" "k2 \<noteq> k1"
  shows "\<exists>T'. conc_step\<^sup>*\<^sup>* (race T (k1, u1, Start) (k2, u2, Start)) (race T' (k1, u1, Finished Success) (k2, u2, Finished Success)) \<and>
    (\<forall>key. wrert_search 0 T' key = (if key = k2 then Inr (ucast u2) else wrert_search 0 T key))"
proof -
  let ?race = "\<lambda>T p q. race T (k1, u1, p) (k2, u2, q)" and ?v = "root_visit T k1"
  note h = same_half [OF k(1), of T]
  obtain m p j where x: "slot_value (key_slot (nodes T ! root T) m (top32 k1) j) = KvAt i" "\<not> nodeFlag (key_slot (nodes T ! root T) m (top32 k1) j)"
    and arr: "arrived T k1 = ReadFlag ?v p j" and s: "slot_of T ?v p j = key_slot (nodes T ! root T) m (top32 k1) j"
    by (rule at_pairE [OF i at])
  have "solo Start k1 u1 (T, ReadPair ?v p j) (T, StorePair ?v i)"
    by (rule solo_act [OF _ solo_here]) (simp add: s x key)
  then have "solo Start k1 u1 (T, ReadFlag ?v p j) (T, StorePair ?v i)" by (rule solo_act [rotated]) (simp add: s x)
  from solo_trans [OF solo_arrives [OF i] this [folded arr]]
  have "conc_step\<^sup>*\<^sup>* (?race T Start Start) (?race T (StorePair ?v i) Start)" by (intro solo_first) simp
  also from solo_child [OF i at [folded h(3) [of i]] _ _ _, where u = u2 and q = "StorePair ?v i"] obtain p j T4 T' where
    c: "arrived T k2 = ReadFlag (root_visit T k2) p j"
      "solo (StorePair ?v i) k2 u2 (T, ReadFlag (root_visit T k2) p j) (T4, Publish (root_visit T k2) p j (length (nodes T)))"
      "solo (StorePair ?v i) k2 u2 (T4, Publish (root_visit T k2) p j (length (nodes T))) (T', Finished Success)"
    and T': "inner_root T'" "tree_map T' = (tree_map T)(k2 \<mapsto> u2)" "pairs T' = pairs T" "root T' = root T"
      "node_map (nodes T' ! root T') = (node_map (nodes T ! root T))(top32 k2 \<mapsto> (NodeAt (length (nodes T)), True))"
    using key k(2) by (auto simp: visit_reads_def)
  have "solo (StorePair ?v i) k2 u2 (T, Start) (T', Finished Success)"
    using solo_trans [OF solo_trans [OF solo_arrives [OF i, of "StorePair ?v i" k2] c(2) [folded c(1)]] c(3)] by simp
  then have "conc_step\<^sup>*\<^sup>* (?race T (StorePair ?v i) Start) (?race T' (StorePair ?v i) (Finished Success))" by (rule solo_second)
  also let ?T = "T'\<lparr>pairs := (pairs T')[i := (fst (pairs T' ! i), ucast u1)]\<rparr>"
  have "conc_step\<^sup>*\<^sup>* (?race T' (StorePair ?v i) (Finished Success)) (?race ?T (Finished Success) (Finished Success))"
    by (intro solo_first solo_act [OF _ solo_here]) simp
  finally have run: "conc_step\<^sup>*\<^sup>* (?race T Start Start) (?race ?T (Finished Success) (Finished Success))" .
  have same: "same_entry T' ?T w" if e: "node_map (nodes T' ! root T') k = Some (w, f)" for k w f
  proof -
    have "w \<noteq> KvAt i"
      using e inner_rootD(9) [OF i, of k w f "top32 k1"] at k(1) unfolding T'(5) at_pair_def by (auto split: if_splits)
    with inner_rootD(8) [OF T'(1) e] show ?thesis by (auto simp: entry_ok_def same_entry_def split: payload.splits)
  qed
  have ok: "inner_root ?T" "tree_map ?T = tree_map T'"
    by (rule other_pairs(1) [OF T'(1)], erule same) (rule other_pairs(2) [OF T'(1)], erule same)
  have "wrert_search 0 ?T key = (if key = k2 then Inr (ucast u2) else wrert_search 0 T key)" for key
    using search_ok [OF inner_rootD(1) [OF ok(1)], of 0 key] search_ok [OF inner_rootD(1) [OF i], of 0 key]
    by (simp add: ok(2) T'(2) answer_def)
  with run show ?thesis by blast
qed

text \<open>
  C35.  The thread that makes a new child sets \<open>nodeFlag\<close> of the slot before it stores the pointer.
  A thread that reads the flag between the two stores follows the old pointer, which is one to
  a pair, as if it were a node.
\<close>

theorem wrert_conc_wild_pointer:
  assumes i: "inner_root T" and at: "at_pair T k1 i" and k: "top32 k2 = top32 k1" and other: "fst (pairs T ! i) \<noteq> k2"
  shows "\<exists>s. conc_step\<^sup>*\<^sup>* (race T (k1, u1, Start) (k2, u2, Start)) s \<and> pc_of s 0 = Crashed WildAccess"
proof -
  let ?race = "\<lambda>T p q. race T (k1, u1, p) (k2, u2, q)" and ?v = "root_visit T k1"
  note h = same_half [OF k(1), of T]
  have run0: "conc_step\<^sup>*\<^sup>* (?race T Start Start) (?race T (arrived T k1) Start)" by (intro solo_first solo_arrives i) simp
  from at_pairE [OF i at] obtain p j where arr: "arrived T k1 = ReadFlag ?v p j" by metis
  from solo_child [OF i at [folded h(3) [of i]] other, where u = u2 and q = "ReadFlag ?v p j"] obtain p' j' T4 where
    c: "arrived T k2 = ReadFlag ?v p' j'"
      "solo (ReadFlag ?v p j) k2 u2 (T, ReadFlag ?v p' j') (T4, Publish ?v p' j' (length (nodes T)))"
      "nodeFlag (slot_of T4 ?v p' j')" "slot_value (slot_of T4 ?v p' j') = KvAt i"
    unfolding h by (auto simp: visit_reads_def)
  have pj: "p' = p" "j' = j" using c(1) arr h(2) by simp_all
  let ?q = "Publish ?v p j (length (nodes T))"
  have "solo (ReadFlag ?v p j) k2 u2 (T, Start) (T4, ?q)"
    using solo_trans [OF solo_arrives [OF i, of "ReadFlag ?v p j" k2]] c(1,2) by (simp add: pj)
  then have run1: "conc_step\<^sup>*\<^sup>* (?race T (ReadFlag ?v p j) Start) (?race T4 (ReadFlag ?v p j) ?q)" by (rule solo_second)
  note slot = c(3,4) [unfolded pj]
  have "solo ?q k1 u1 (T4, NodeCheck ?v p j (KvAt i)) (T4, Crashed WildAccess)"
    by (rule solo_act [OF _ solo_here]) (simp add: slot)
  then have "solo ?q k1 u1 (T4, NodeLock ?v p j (KvAt i)) (T4, Crashed WildAccess)" by (rule solo_act [rotated]) simp
  then have "solo ?q k1 u1 (T4, ReadNode ?v p j) (T4, Crashed WildAccess)" by (rule solo_act [rotated]) (simp add: slot)
  then have "solo ?q k1 u1 (T4, ReadFlag ?v p j) (T4, Crashed WildAccess)" by (rule solo_act [rotated]) (simp add: slot)
  then have "conc_step\<^sup>*\<^sup>* (?race T4 (ReadFlag ?v p j) ?q) (?race T4 (Crashed WildAccess) ?q)" by (rule solo_first)
  with run0 run1 have "conc_step\<^sup>*\<^sup>* (?race T Start Start) (?race T4 (Crashed WildAccess) ?q)" unfolding arr by (meson rtranclp_trans)
  then show ?thesis by (intro exI conjI) (assumption, simp add: pc_of_def race_def)
qed


subsection \<open>The races on a tree of two keys\<close>

lemma two_key_tree:
  "\<exists>T i. run_puts wrert_put NewWRERT [(5, 7), (0x100000006, 8)] = Inr T \<and> inner_root T \<and>
    dom (node_map (nodes T ! root T)) = {0, 1} \<and> at_pair T 0x100000006 i \<and> fst (pairs T ! i) = 0x100000006"
proof -
  have h: "top32 5 = 0" "top32 0x100000006 = 1" by (simp_all add: top32_def mask_eq_exp_minus_1)
  have r: "root NewWRERT = 0" "nodes NewWRERT ! root NewWRERT = new_node" by (simp_all add: NewWRERT_def)
  have "prefixLength (header new_node) = 6" by (simp add: new_node_def NewWRERTNode_def header_initialize_def)
  then obtain T1 where T1: "wrert_put NewWRERT 5 7 = Inr T1" "wrert_ok T1" "tree_map T1 = [5 \<mapsto> 7]" "prefixed 0 T1"
    using empty_root_insert [OF NewWRERT_ok(1), of 5 7] NewWRERT_ok(2)
    unfolding r(2) wrert_put_def wrert_insert_def h by (auto simp: new_node_facts)
  from T1(2,4) have l: "prefixLength (header (nodes T1 ! root T1)) = 1" "leaf_ok (nodes T1 ! root T1)"
    "prefix_is 0 (header (nodes T1 ! root T1))" "length (prefixArray (header (nodes T1 ! root T1))) = 6"
    by (auto simp: wrert_ok_def prefixed_def Let_def)
  have "\<not> prefix_is (top32 0x100000006) (header (nodes T1 ! root T1))"
  proof
    assume "prefix_is (top32 0x100000006) (header (nodes T1 ! root T1))"
    from prefix_is_inj [OF l(4) this l(3)] h(2) show False by simp
  qed
  from split_root_insert [OF T1(2) l(1-3) this, of 8] obtain T2 where
    T2: "wrert_put T1 0x100000006 8 = Inr T2" "wrert_ok T2" "tree_map T2 = (tree_map T1)(0x100000006 \<mapsto> 8)"
      "pairs T2 = pairs T1 @ [(0x100000006, 8)]"
      "node_map (nodes T2 ! root T2) = [1 \<mapsto> (KvAt (length (pairs T1)), False), 0 \<mapsto> (NodeAt (root T1), True)]"
    unfolding wrert_put_def wrert_insert_def h by (auto simp: small_def)
  have "inner_root T2"
    by (rule two_halves_inner [OF T2(2), of 5 "0x100000006"]) (simp_all add: T2(3) T1(3) h)
  moreover have "at_pair T2 0x100000006 (length (pairs T1))" by (simp add: at_pair_def h T2(5))
  moreover have "dom (node_map (nodes T2 ! root T2)) = {0, 1}" by (auto simp: T2(5))
  ultimately show ?thesis using T1(1) T2(1,4) by (intro exI [of _ T2] exI [of _ "length (pairs T1)"]) simp
qed

theorem wrert_conc_lost_insert_witness:
  "\<exists>T T'. run_puts wrert_put NewWRERT [(5, 7), (0x100000006, 8)] = Inr T \<and>
    conc_step\<^sup>*\<^sup>* (race T (0x200000001, 1, Start) (0x200000002, 2, Start))
      (race T' (0x200000001, 1, Finished Success) (0x200000002, 2, Finished Success)) \<and>
    wrert_search 0 T' 0x200000001 = Inr (result_code Failed) \<and> wrert_search 0 T' 0x200000002 = Inr 2"
proof -
  from two_key_tree obtain T where T: "run_puts wrert_put NewWRERT [(5, 7), (0x100000006, 8)] = Inr T" "inner_root T"
    "dom (node_map (nodes T ! root T)) = {0, 1}" by blast
  have "top32 0x200000001 = 2" "top32 0x200000002 = 2" by (simp_all add: top32_def mask_eq_exp_minus_1)
  with wrert_conc_lost_insert [OF T(2), of "0x200000001" "0x200000002" 1 2] T(3)
  obtain T' where "conc_step\<^sup>*\<^sup>* (race T (0x200000001, 1, Start) (0x200000002, 2, Start))
      (race T' (0x200000001, 1, Finished Success) (0x200000002, 2, Finished Success))"
    "wrert_search 0 T' 0x200000001 = Inr (result_code Failed)" "wrert_search 0 T' 0x200000002 = Inr (ucast (2 :: 48 word))" by auto
  with T(1) show ?thesis by auto
qed

theorem wrert_conc_lost_update_witness:
  "\<exists>T T'. run_puts wrert_put NewWRERT [(5, 7), (0x100000006, 8)] = Inr T \<and>
    conc_step\<^sup>*\<^sup>* (race T (0x100000006, 1, Start) (0x100000007, 2, Start))
      (race T' (0x100000006, 1, Finished Success) (0x100000007, 2, Finished Success)) \<and>
    wrert_search 0 T' 0x100000006 = wrert_search 0 T 0x100000006"
proof -
  from two_key_tree obtain T i where T: "run_puts wrert_put NewWRERT [(5, 7), (0x100000006, 8)] = Inr T" "inner_root T"
    "at_pair T 0x100000006 i" "fst (pairs T ! i) = 0x100000006" by blast
  have "top32 0x100000007 = top32 0x100000006" "0x100000007 \<noteq> (0x100000006 :: u64)" by (simp_all add: top32_def mask_eq_exp_minus_1)
  from wrert_conc_lost_update [OF T(2-4) this, of 1 2] T(1) show ?thesis by auto
qed

theorem wrert_conc_wild_pointer_witness:
  "\<exists>T s. run_puts wrert_put NewWRERT [(5, 7), (0x100000006, 8)] = Inr T \<and>
    conc_step\<^sup>*\<^sup>* (race T (0x100000006, 1, Start) (0x100000007, 2, Start)) s \<and> pc_of s 0 = Crashed WildAccess"
proof -
  from two_key_tree obtain T i where T: "run_puts wrert_put NewWRERT [(5, 7), (0x100000006, 8)] = Inr T" "inner_root T"
    "at_pair T 0x100000006 i" "fst (pairs T ! i) = 0x100000006" by blast
  have "top32 0x100000007 = top32 0x100000006" "fst (pairs T ! i) \<noteq> 0x100000007" by (simp_all add: top32_def mask_eq_exp_minus_1 T(4))
  from wrert_conc_wild_pointer [OF T(2,3) this, of 1 2] T(1) show ?thesis by blast
qed

end
