(* ===== verification/Spec2Isabelle.thy ===== *)
theory Spec2Isabelle
  imports Alloc Rng Wort_Props Woart_Props Wrert_Scan_Props Wrert_Recovery_Split Roart_Range_Props Roart_Lock Wrert_Lock Ert_Prefix Ert_Scan Wrert_Conc_Live Wrert_Conc_Races
begin

text \<open>
  Verification of the persistent-memory indexes of this repository.

  \<^bold>\<open>The program.\<close>  The repository compares ordered indexes for byte-addressable persistent
  memory.  An index maps 8-byte keys to 8-byte values.  \<^verbatim>\<open>src/wrert\<close> is the authors' own index, a
  radix tree whose nodes are extendible hash tables; \<^verbatim>\<open>src/wort\<close>, \<^verbatim>\<open>src/woart\<close>, \<^verbatim>\<open>src/roart\<close> and
  \<^verbatim>\<open>src/ert\<close> are the indexes it is compared with.  All of them take their nodes from the bump
  allocator of \<^verbatim>\<open>src/fastalloc\<close> and persist them with cache-line flushes; \<^verbatim>\<open>src/rng\<close> draws the keys
  of the benchmarks.  \<^verbatim>\<open>src/YCSB-C\<close> drives the indexes with several threads; its copies of
  the allocator, WORT, WOART and ROART differ only in messages and in the size of a chunk, and
  its copies of WRERT and ERT take reader-writer locks.

  \<^bold>\<open>Conventions.\<close>  Every function of the code that can leave the defined behaviour of C++, abort
  or exit returns a value of type \<open>'a res\<close>: \<open>Inl\<close> one of the reasons of the type \<open>ub\<close>, or \<open>Inr\<close> the
  result.  Machine integers are words of their width, or natural numbers where the code's range
  is shown to be kept.  A node that is reached through one pointer only is a value, and an update
  through the pointer is the returned node; what is shared (the segments of a hash node, the pairs
  and nodes of WRERT, the pool that recovery walks over) lives in a store, and pointers are
  indices or addresses.  Fresh memory reads as zero, as \<^verbatim>\<open>mmap\<close> of a new file gives it; no byte is
  handed out twice.  A cache-line flush has no effect on the state of a running program; where a
  crash matters, a function lists the images that the stores up to each point leave behind; a
  store of at most 8 bytes is taken to be atomic under failure, also where the field is not
  aligned, as the headers and slots of WOART are.  State that the code keeps in DRAM is not part of
  an image: the lock words of ROART, which carry the node types, are taken to be made anew from the
  persistent types.

  \<^bold>\<open>Shared theories.\<close>
  \<^item> \<open>Prelude\<close>: types \<open>ub\<close> and \<open>'a res\<close>, first-match search over lists, bit fields of keys as
    \<open>div\<close> and \<open>mod\<close>, and the rules on lists, maps and words used everywhere.
  \<^item> \<open>Index\<close>: the contract of an index as locales \<open>index\<close> (put and get) and \<open>sized_index\<close> (also the
    number of keys), interpreted on WORT, WOART and WRERT; what a client sees after any history of
    operations is proved once.
  \<^item> \<open>Machine\<close>: the contract of a step relation with an invariant, interpreted on both locks and on
    the threads that insert into WRERT.

  \<^bold>\<open>Allocator and generator.\<close>
  \<^item> \<open>Alloc\<close> (\<^verbatim>\<open>fastalloc.cpp\<close>): all operations, with 64-bit wrap-around.  In any run of requests of both
    kinds the NVM regions handed out are disjoint and inside their chunks; a request above the chunk size wraps the counter of free
    bytes.  The addresses of fresh chunks are parameters.
  \<^item> \<open>Rng\<close> (\<^verbatim>\<open>rng.cpp\<close>): the step is a bijection on states, and the jump commutes with it.

  \<^bold>\<open>WORT\<close> (\<^verbatim>\<open>src/wort\<close>).  \<open>Wort\<close> has the definitions: nodes, \<open>wort_get\<close>, \<open>recursive_insert\<close>,
  \<open>wort_put\<close>, the scans, \<open>recovery_prefix\<close>.  \<open>Wort_Map\<close> gives the invariant and the map a tree
  stands for, \<open>Wort_Insert\<close> shows that insertion updates it, and \<open>Wort_Props\<close> has the histories, the
  byte count, and the crash images of an insertion, which all hold the old or the new map.

  \<^bold>\<open>WOART\<close> (\<^verbatim>\<open>src/woart\<close>).  \<open>Woart_Node\<close> models the four layouts and \<open>Woart_Kids\<close> shows that they are
  maps from bytes; \<open>Woart\<close> has the tree, \<open>Woart_Map\<close> its invariant, \<open>Woart_Insert\<close> insertion, and
  \<open>Woart_Props\<close> the histories, the sorted traversal, the byte counter, crash images and scans.

  \<^bold>\<open>ROART\<close> (\<^verbatim>\<open>src/roart\<close>).  \<open>Roart_Node\<close> and \<open>Roart_Kids\<close> treat the layouts with growth, compaction
  and shrinking; \<open>Roart\<close> has the operations of one thread: \<open>get_from\<close>, \<open>put_from\<close>, \<open>update_from\<close>,
  \<open>remove_from\<close>, \<open>range_from\<close>.  \<open>Roart_Map\<close>, \<open>Roart_Insert\<close>, \<open>Roart_Put\<close> and \<open>Roart_Remove\<close> show that
  they are operations on a map, \<open>Roart_Crash\<close> that an insertion is atomic under crashes,
  \<open>Roart_Props\<close> the histories and the counters, \<open>Roart_Range\<close> and \<open>Roart_Range_Props\<close> the range lookup.
  \<open>Roart_Lock\<close> is the version lock under any interleaving of any number of threads: exclusion,
  what a validated version means, the node type in the same word, and progress.

  \<^bold>\<open>WRERT hash node\<close> (\<^verbatim>\<open>src/wrert/wrert_node.cpp\<close>, \<^verbatim>\<open>wrert_node.h\<close>).  \<open>Wrert_Node\<close> has slots, segments,
  directories, \<open>getSegNode\<close>, \<open>putSegNode\<close>, \<open>put\<close>, the two splits and the SIMD bucket scan.
  \<open>Wrert_Segment\<close>, \<open>Wrert_Split\<close> and \<open>Wrert_Dir\<close> show that splits keep every lookup, \<open>Wrert_Map\<close> and
  \<open>Wrert_Put\<close> that insertion updates the map, \<open>Wrert_Pack\<close> and \<open>Wrert_Insert\<close> that the SIMD scan is the
  scalar loop, and \<open>Wrert_Node_Props\<close> collects the properties.

  \<^bold>\<open>WRERT tree\<close> (\<^verbatim>\<open>src/wrert/wrert.cpp\<close>).  \<open>Wrert\<close> has \<open>wrert_insert\<close> and \<open>wrert_search\<close>, \<open>Wrert_Tree\<close> and
  \<open>Wrert_Tree_Insert\<close> the invariant and the refinement of a map, \<open>Wrert_Props\<close> the histories.  Values
  have 48 bits, and \<open>search\<close> has the value of its uninitialised \<open>arrayMatchLength\<close> as a parameter.
  \<open>Wrert_Scan\<close>, \<open>Wrert_Scan_Slots\<close> and \<open>Wrert_Scan_Props\<close> treat range scans, full scans and the memory
  profile.  \<open>Wrert_Recovery\<close>, \<open>Wrert_Recovery_Props\<close> and \<open>Wrert_Recovery_Split\<close> treat recovery after a
  restart on an explicit memory: it restores a root at the last level, takes an interrupted segment
  split back in the directory only, leaves stale pointers in the directories of children, and does
  not survive a crash in a prefix split.
  \<open>Wrert_Lock\<close> is the reader-writer lock of the concurrent build (\<^verbatim>\<open>YCSB-C/wrert/wrert_rwlock.h\<close>):
  exclusion, progress without nested readers, and a deadlock with them.

  \<^bold>\<open>WRERT with several threads\<close> (\<^verbatim>\<open>YCSB-C/wrert/wrert.cpp\<close>).  \<open>Wrert_Conc\<close> has \<open>insert\<close> as a step relation:
  a list of threads, each a program counter with its local variables, over the tree of \<open>Wrert\<close>.
  \<open>Wrert_Conc_Slots\<close> shows what a scan of the two buckets leaves known while others store,
  \<open>Wrert_Conc_Props\<close> that insertions into one leaf root are linearisable, \<open>Wrert_Conc_Live\<close> that they
  end under any schedule and never deadlock; a thread that needs a segment split stops in the
  model, and the claims say so.  \<open>Wrert_Conc_Races\<close> has the other side: on a root
  without prefix, whose slots hold pairs and children, two threads can lose an insertion or an update
  and follow a pointer to a pair as if it were a node.

  \<^bold>\<open>ERT\<close> (\<^verbatim>\<open>src/ert\<close>), the predecessor of WRERT.  \<open>Ert_Node\<close> is the hash node (\<^verbatim>\<open>ERT_node_int.cpp\<close>): buckets,
  \<open>put\<close> with its segment splits and the doubling of a directory.  \<open>Ert\<close> is the tree (\<^verbatim>\<open>ERT_int.cpp\<close>): \<open>Insert\<close>,
  \<open>Search\<close>, the prefix split; the addresses of nodes and the memory behind a block are parameters.
  \<open>Ert_Map\<close> shows that \<open>put\<close> updates a map as long as a node holds values, \<open>Ert_Props\<close> that histories of keys
  with one upper half are right.  Beyond that the code goes wrong, which is proved as well: a
  prefix split crashes on a grown root (\<open>Ert_Props\<close>), and on one that has not grown it loses the
  keys inserted before (\<open>Ert_Prefix\<close>).  \<open>Ert_Scan\<close> treats scans and the memory profile: scans of
  small keys are exact although splits leave copies behind.

  \<^bold>\<open>Fuel.\<close>  Recursions of the code that are not structural in the model count down a number.
  \<open>put_fuel\<close> is 32: every split deepens a segment by one, and a full bucket holds sub-keys that
  agree in as many bits as its segment is deep, so depths stay below 24.  \<open>scan_fuel\<close> is 3, as keys
  of 8 bytes allow two levels of nodes.  \<open>put_loop\<close> of ROART needs one unit: a put restarts at most
  once.  Recovery counts down the levels below the root.  For ERT, \<open>put_fuel\<close> is 64: a bucket is full
  only up to a depth of 21, and each depth costs at most a doubling and a split; \<open>insert_fuel\<close> is 8, for
  two levels of nodes with their initialisation; its \<open>scan_fuel\<close> is 3 as above.  Running out is \<open>Inl OutOfFuel\<close>, and
  the theorems show \<open>Inr\<close> results.

  \<^bold>\<open>Not modelled.\<close>
  \<^item> The concurrent copy of ERT in \<^verbatim>\<open>YCSB-C/ert\<close>; its lock is the one of WRERT under another name.
  \<^item> The parts of ROART under \<^verbatim>\<open>LEAF_ARRAY\<close>, \<^verbatim>\<open>KEY_INLINE\<close>, \<^verbatim>\<open>ZENTRY\<close> and \<^verbatim>\<open>INSTANT_RESTART\<close>, which the build does
    not define, its graph output, and several threads in the tree beyond the lock.
  \<^item> In the concurrent copy of WRERT: segment splits, directory doubling and prefix splits while
    other threads run, lookups and scans during insertions, and values of more than 48 bits.
  \<^item> Copies: \<^verbatim>\<open>YCSB-C/wort\<close>, \<^verbatim>\<open>woart\<close>, \<^verbatim>\<open>roart\<close>, \<^verbatim>\<open>fastalloc\<close> and \<^verbatim>\<open>rng\<close> repeat the modelled code.
  \<^item> The drivers \<^verbatim>\<open>db_bench.cpp\<close>, \<^verbatim>\<open>db_recovery.cpp\<close> and the YCSB client, workload and database
    adapters: timing, I/O and floating-point distributions around calls of the indexes.
  \<^item> \<^verbatim>\<open>YCSB-C/redis\<close>: vendored code of a database server's client.
\<close>

end
